(* ===== verification/Prelude.thy ===== *)
theory Prelude
  imports Main "HOL-Library.Word"
begin

text \<open>
  Shared vocabulary of the development: machine-integer widths, the collections the
  component proofs draw on, and the generic list lemmas (removal, rotation, ordered
  insertion) that the kernel's intrusive lists reduce to.
\<close>

unbundle bit_operations_syntax

section \<open>Types\<close>

type_synonym u8 = "8 word"
type_synonym u16 = "16 word"
type_synonym u32 = "32 word"
type_synonym u64 = "64 word"

text \<open>Addresses of tasks and of kernel objects. A C pointer that may be NULL is an option.\<close>

type_synonym tid = nat
type_synonym oid = nat

section \<open>Collections\<close>

named_theorems frame_simps \<open>which fields an operation leaves alone\<close>
named_theorems op_defs \<open>definitions of the kernel operations\<close>

section \<open>Lists\<close>

text \<open>
  The search loop the kernel uses for every ordered list: walk from the first element,
  stop before the first one that satisfies the test, insert there (at the end when none
  does).
\<close>

fun insert_before :: "('a \<Rightarrow> bool) \<Rightarrow> 'a \<Rightarrow> 'a list \<Rightarrow> 'a list" where
  "insert_before P x [] = [x]"
| "insert_before P x (y # ys) = (if P y then x # y # ys else y # insert_before P x ys)"

lemma insert_before_split:
  "insert_before P x xs = takeWhile (\<lambda>y. \<not> P y) xs @ x # dropWhile (\<lambda>y. \<not> P y) xs"
  by (induction xs) auto

lemma set_insert_before [simp]: "set (insert_before P x xs) = insert x (set xs)"
  by (induction xs) auto

lemma length_insert_before [simp]: "length (insert_before P x xs) = Suc (length xs)"
  by (induction xs) auto

lemma insert_before_neq_Nil [simp]: "insert_before P x xs \<noteq> []"
  by (cases xs) auto

lemma distinct_insert_before [simp]:
  "distinct (insert_before P x xs) \<longleftrightarrow> x \<notin> set xs \<and> distinct xs"
  by (induction xs) auto

lemma insert_before_cong:
  "(\<And>y. y \<in> set xs \<Longrightarrow> P y = Q y) \<Longrightarrow> insert_before P x xs = insert_before Q x xs"
  by (induction xs) auto

lemma remove1_insert_before [simp]:
  "x \<notin> set xs \<Longrightarrow> remove1 x (insert_before P x xs) = xs"
  by (induction xs) auto

lemma sorted_wrt_remove1: "sorted_wrt R xs \<Longrightarrow> sorted_wrt R (remove1 x xs)"
  by (induction xs) (auto dest: notin_set_remove1 set_remove1_subset [THEN subsetD])

lemma sorted_wrt_insert_before:
  assumes "sorted_wrt (\<lambda>a b. key a \<le> key b) xs"
  shows "sorted_wrt (\<lambda>a b. key a \<le> (key b :: 'k :: linorder))
           (insert_before (\<lambda>y. key x < key y) x xs)"
  using assms by (induction xs) (auto intro: order.trans less_imp_le)

lemma hd_remove1_neq: "hd xs \<noteq> x \<Longrightarrow> xs \<noteq> [] \<Longrightarrow> hd (remove1 x xs) = hd xs"
  by (cases xs) auto

lemma remove1_not_Nil: "x \<in> set xs \<Longrightarrow> remove1 x xs = [] \<Longrightarrow> xs = [x]"
  by (cases xs) (auto split: if_splits)

lemma distinct_set_single:
  assumes "distinct xs" and "set xs = {t}"
  shows "xs = [t]"
proof -
  have "length xs = 1" using distinct_card [OF assms(1)] assms(2) by simp
  then obtain x where "xs = [x]" by (auto simp: length_Suc_conv)
  with assms(2) show ?thesis by simp
qed

lemma sorted_wrt_hd_min:
  assumes "sorted_wrt (\<lambda>a b. key a \<le> (key b :: 'k :: linorder)) xs" and "y \<in> set xs"
  shows "key (hd xs) \<le> key y"
  using assms by (cases xs) auto

text \<open>A sorted list stays sorted when every element's key is read through a
  function that agrees with the old one on the members.\<close>

lemma sorted_wrt_key_cong:
  "(\<And>y. y \<in> set xs \<Longrightarrow> f y = g y) \<Longrightarrow>
   sorted_wrt (\<lambda>a b. f a \<le> (f b :: 'k :: linorder)) xs
   \<longleftrightarrow> sorted_wrt (\<lambda>a b. g a \<le> g b) xs"
  by (induction xs) auto

section \<open>The ordered wait list as an interface\<close>

text \<open>
  Three components of the kernel keep a list ordered by a key (tasks by priority on an
  object's block list, tasks by remaining ticks on the tick list, timers by remaining
  ticks on the timer list). What their insertion promises its clients is stated here
  once; each component interprets it on its own insertion.
\<close>

locale ordered_list =
  fixes key :: "'a \<Rightarrow> 'k :: linorder"
    and ins :: "'a \<Rightarrow> 'a list \<Rightarrow> 'a list"
  assumes ins_scan: "ins x xs = insert_before (\<lambda>y. key x < key y) x xs"
begin

lemma ins_set: "set (ins x xs) = insert x (set xs)"
  by (simp add: ins_scan)

lemma ins_distinct: "distinct (ins x xs) \<longleftrightarrow> x \<notin> set xs \<and> distinct xs"
  by (simp add: ins_scan)

lemma ins_sorted:
  "sorted_wrt (\<lambda>a b. key a \<le> key b) xs \<Longrightarrow> sorted_wrt (\<lambda>a b. key a \<le> key b) (ins x xs)"
  unfolding ins_scan by (rule sorted_wrt_insert_before)

lemma ins_head_min:
  "sorted_wrt (\<lambda>a b. key a \<le> key b) xs \<Longrightarrow> y \<in> insert x (set xs) \<Longrightarrow> key (hd (ins x xs)) \<le> key y"
  using sorted_wrt_hd_min [OF ins_sorted] by (metis ins_set)

text \<open>Elements of the same key leave in the order they came: the newcomer goes behind
  every element whose key is not larger.\<close>

lemma ins_stable:
  assumes "sorted_wrt (\<lambda>a b. key a \<le> key b) xs"
  shows "filter (\<lambda>y. key y = k) (ins x xs) =
         filter (\<lambda>y. key y = k) xs @ (if key x = k then [x] else [])"
  using assms unfolding ins_scan
proof (induction xs)
  case (Cons y ys)
  have "key x < key y \<Longrightarrow> key x = k \<Longrightarrow> filter (\<lambda>z. key z = k) (y # ys) = []"
    using Cons.prems by (auto simp: filter_empty_conv)
  with Cons show ?case by auto
qed simp

end

end
