(* ===== verification/K_List.thy ===== *)
theory K_List
  imports Prelude
begin

text \<open>
  The intrusive doubly linked list of \<open>include/k_list.h\<close> on an explicit store of nodes.
  The abstraction \<open>ring h xs\<close> says that \<open>xs\<close> lists the nodes of a circular list in
  order; \<open>klist h head xs\<close> is the same for a list with a head node. Every operation of
  the header is shown to act on the abstract list as the other theories use it, and the
  ordered-insertion loop is shown to terminate and to compute \<open>insert_before\<close>.
\<close>

section \<open>Store and operations\<close>

record klist_node =
  next_of :: nat
  prev_of :: nat

type_synonym klist_store = "nat \<Rightarrow> klist_node"

definition set_next :: "klist_store \<Rightarrow> nat \<Rightarrow> nat \<Rightarrow> klist_store" where
  "set_next h p v = h(p := (h p)\<lparr>next_of := v\<rparr>)"

definition set_prev :: "klist_store \<Rightarrow> nat \<Rightarrow> nat \<Rightarrow> klist_store" where
  "set_prev h p v = h(p := (h p)\<lparr>prev_of := v\<rparr>)"

definition klist_init :: "klist_store \<Rightarrow> nat \<Rightarrow> klist_store" where
  "klist_init h head = set_prev (set_next h head head) head head"

definition is_klist_empty :: "klist_store \<Rightarrow> nat \<Rightarrow> bool" where
  "is_klist_empty h l \<longleftrightarrow> next_of (h l) = l"

definition klist_insert :: "klist_store \<Rightarrow> nat \<Rightarrow> nat \<Rightarrow> klist_store" where
  "klist_insert h head el =
     (let h1 = set_prev h el (prev_of (h head));
          h2 = set_next h1 el head;
          h3 = set_next h2 (prev_of (h2 head)) el
      in set_prev h3 head el)"

definition klist_add :: "klist_store \<Rightarrow> nat \<Rightarrow> nat \<Rightarrow> klist_store" where
  "klist_add h head el =
     (let h1 = set_prev h el head;
          h2 = set_next h1 el (next_of (h1 head));
          h3 = set_prev h2 (next_of (h2 head)) el
      in set_next h3 head el)"

definition klist_rm :: "klist_store \<Rightarrow> nat \<Rightarrow> klist_store" where
  "klist_rm h el =
     (let h1 = set_next h (prev_of (h el)) (next_of (h el))
      in set_prev h1 (next_of (h1 el)) (prev_of (h1 el)))"

definition klist_rm_init :: "klist_store \<Rightarrow> nat \<Rightarrow> klist_store" where
  "klist_rm_init h el =
     (let h1 = set_next h (prev_of (h el)) (next_of (h el));
          h2 = set_prev h1 (next_of (h1 el)) (prev_of (h1 el));
          h3 = set_prev h2 el el
      in set_next h3 el el)"

text \<open>The loop \<open>for (q = head->next; q != head; q = q->next) if (P(q)) break;\<close>. It may
  not return on a corrupt list, so it is a partial function.\<close>

partial_function (option) klist_find ::
  "klist_store \<Rightarrow> (nat \<Rightarrow> bool) \<Rightarrow> nat \<Rightarrow> nat \<Rightarrow> nat option" where
  "klist_find h P head q =
     (if q = head then Some q else if P q then Some q
      else klist_find h P head (next_of (h q)))"

definition klist_ordered_insert ::
  "klist_store \<Rightarrow> (nat \<Rightarrow> bool) \<Rightarrow> nat \<Rightarrow> nat \<Rightarrow> klist_store option" where
  "klist_ordered_insert h P head el =
     map_option (\<lambda>q. klist_insert h q el) (klist_find h P head (next_of (h head)))"

section \<open>The abstract list\<close>

fun links :: "klist_store \<Rightarrow> nat list \<Rightarrow> bool" where
  "links h (x # y # ys) \<longleftrightarrow> next_of (h x) = y \<and> prev_of (h y) = x \<and> links h (y # ys)"
| "links h _ \<longleftrightarrow> True"

definition ring :: "klist_store \<Rightarrow> nat list \<Rightarrow> bool" where
  "ring h xs \<longleftrightarrow> xs \<noteq> [] \<and> distinct xs \<and> links h (xs @ [hd xs])"

definition klist :: "klist_store \<Rightarrow> nat \<Rightarrow> nat list \<Rightarrow> bool" where
  "klist h head xs \<longleftrightarrow> ring h (head # xs)"

lemma next_set [simp]:
  "next_of (set_next h p v x) = (if x = p then v else next_of (h x))"
  "next_of (set_prev h p v x) = next_of (h x)"
  by (simp_all add: set_next_def set_prev_def)

lemma prev_set [simp]:
  "prev_of (set_prev h p v x) = (if x = p then v else prev_of (h x))"
  "prev_of (set_next h p v x) = prev_of (h x)"
  by (simp_all add: set_next_def set_prev_def)

lemma links_Cons:
  "links h (x # zs) \<longleftrightarrow>
     zs = [] \<or> next_of (h x) = hd zs \<and> prev_of (h (hd zs)) = x \<and> links h zs"
  by (cases zs) auto

lemma links_append:
  "links h (xs @ y # ys) \<longleftrightarrow> links h (xs @ [y]) \<and> links h (y # ys)"
  by (induction xs) (auto simp: links_Cons hd_append)

lemma links_cong:
  "(\<And>x. x \<in> set (butlast xs) \<Longrightarrow> next_of (h' x) = next_of (h x)) \<Longrightarrow>
   (\<And>x. x \<in> set (tl xs) \<Longrightarrow> prev_of (h' x) = prev_of (h x)) \<Longrightarrow> links h' xs = links h xs"
  by (induction h xs rule: links.induct) (auto split: if_splits)

lemma ring_rotate: "ring h (x # xs) \<Longrightarrow> ring h (xs @ [x])"
proof (cases xs)
  case (Cons y ys)
  assume "ring h (x # xs)"
  with Cons show ?thesis
    using links_append [of h "y # ys" x "[y]"] by (auto simp: ring_def)
qed simp

lemma ring_rotates: "ring h (xs @ ys) \<Longrightarrow> ring h (ys @ xs)"
proof (induction xs arbitrary: ys)
  case (Cons x xs)
  from ring_rotate [of h x "xs @ ys"] Cons.prems have "ring h (xs @ (ys @ [x]))" by simp
  from Cons.IH [OF this] show ?case by simp
qed simp

lemma ring_links_last:
  "ring h (x # xs) \<Longrightarrow> next_of (h (last (x # xs))) = x \<and> prev_of (h x) = last (x # xs)"
  using links_append [of h "butlast (x # xs)" "last (x # xs)" "[x]"]
  by (metis append.assoc append_Cons append_Nil append_butlast_last_id links.simps(1)
      list.sel(1) list.simps(3) ring_def)

lemma ring_next: "ring h (x # y # ys) \<Longrightarrow> next_of (h x) = y \<and> prev_of (h y) = x"
  by (simp add: ring_def)

lemma ring_frame:
  assumes "ring h ys"
    and "\<And>x. x \<in> set ys \<Longrightarrow> next_of (h' x) = next_of (h x) \<and> prev_of (h' x) = prev_of (h x)"
  shows "ring h' ys"
proof -
  from assms(1) obtain z zs where ys: "ys = z # zs" by (cases ys) (auto simp: ring_def)
  have "links h' (ys @ [hd ys]) = links h (ys @ [hd ys])"
    using assms(2) ys by (intro links_cong) (auto simp: butlast_append split: if_splits)
  with assms(1) show ?thesis by (simp add: ring_def)
qed

section \<open>The operations on the abstract list\<close>

lemma klist_init_ring: "ring (klist_init h p) [p]"
  by (simp add: ring_def klist_init_def)

lemma links_path_cong:
  assumes "distinct (xs @ [y])" and "links h (xs @ [y])"
    and "\<And>x. x \<in> set xs \<Longrightarrow> next_of (h' x) = next_of (h x)"
    and "\<And>x. x \<in> set (tl (xs @ [y])) \<Longrightarrow> prev_of (h' x) = prev_of (h x)"
  shows "links h' (xs @ [y])"
  using assms links_cong [of "xs @ [y]" h' h] by (cases xs) auto

text \<open>Inserting before \<open>q\<close> puts the element behind the rest of the ring that starts at \<open>q\<close>.\<close>

lemma klist_insert_ring:
  assumes r: "ring h (q # xs)" and new: "el \<notin> set (q # xs)"
  shows "ring (klist_insert h q el) (q # xs @ [el])"
proof -
  obtain us l where l: "q # xs = us @ [l]" by (metis append_butlast_last_id list.discI)
  have prv: "prev_of (h q) = l" using ring_links_last [OF r] l by simp
  have hd: "hd (us @ [l]) = q" using l by (metis list.sel(1))
  have lk: "links h (us @ [l])"
    using r links_append [of h us l "[q]"] unfolding ring_def l hd by simp
  have d: "distinct (us @ [l])" using r l unfolding ring_def by metis
  have "el \<notin> set (us @ [l])" using new l by metis
  then have e: "el \<notin> set us" "el \<noteq> l" "el \<noteq> q" using new by auto
  have "links (klist_insert h q el) (us @ [l])"
  proof (rule links_path_cong [OF d lk])
    fix x assume "x \<in> set us"
    with d e prv show "next_of (klist_insert h q el x) = next_of (h x)"
      by (auto simp: klist_insert_def Let_def)
  next
    fix x assume x: "x \<in> set (tl (us @ [l]))"
    show "prev_of (klist_insert h q el x) = prev_of (h x)"
    proof (cases us)
      case Nil
      with x show ?thesis by simp
    next
      case (Cons u us')
      with l x d e show ?thesis by (auto simp: klist_insert_def Let_def)
    qed
  qed
  moreover have "next_of (klist_insert h q el l) = el" "prev_of (klist_insert h q el el) = l"
    "next_of (klist_insert h q el el) = q" "prev_of (klist_insert h q el q) = el"
    using prv e by (auto simp: klist_insert_def Let_def)
  ultimately have "links (klist_insert h q el) (us @ [l, el, q])"
    using links_append [of "klist_insert h q el" us l "[el, q]"] by simp
  moreover have "(q # xs @ [el]) @ [hd (q # xs @ [el])] = us @ [l, el, q]" using l by simp
  moreover have "distinct (q # xs @ [el])" using r new by (auto simp: ring_def)
  ultimately show ?thesis unfolding ring_def by (metis list.discI)
qed

text \<open>The same for a list with a head: insertion before the head appends, insertion before
  a member places the element in front of it.\<close>

lemma klist_insert_tail:
  "klist h head xs \<Longrightarrow> el \<notin> set (head # xs) \<Longrightarrow> klist (klist_insert h head el) head (xs @ [el])"
  unfolding klist_def by (rule klist_insert_ring)

lemma klist_insert_member:
  assumes "klist h head (as @ q # bs)" and "el \<notin> set (head # as @ q # bs)"
  shows "klist (klist_insert h q el) head (as @ el # q # bs)"
proof -
  have "ring h ((head # as) @ (q # bs))" using assms(1) by (simp add: klist_def)
  from ring_rotates [OF this] have "ring h (q # bs @ head # as)" by simp
  from klist_insert_ring [OF this] assms(2)
  have "ring (klist_insert h q el) ((q # bs) @ (head # as @ [el]))" by auto
  from ring_rotates [OF this] show ?thesis by (simp add: klist_def)
qed

lemma klist_add_as_insert:
  assumes "ring h (head # xs)" and "el \<notin> set (head # xs)"
  shows "klist_add h head el = klist_insert h (next_of (h head)) el"
proof -
  have "prev_of (h (next_of (h head))) = head"
    using assms(1) ring_next [of h head] ring_links_last [of h head "[]"] by (cases xs) auto
  moreover have "next_of (h head) \<noteq> el"
    using assms ring_next [of h head] ring_links_last [of h head "[]"] by (cases xs) auto
  moreover have "head \<noteq> el" using assms(2) by auto
  ultimately show ?thesis
    by (auto simp: klist_add_def klist_insert_def Let_def set_next_def set_prev_def fun_eq_iff)
qed

lemma klist_add_head:
  assumes k: "klist h head xs" and new: "el \<notin> set (head # xs)"
  shows "klist (klist_add h head el) head (el # xs)"
proof (cases xs)
  case Nil
  have "next_of (h head) = head" using k Nil ring_links_last [of h head "[]"] by (simp add: klist_def)
  with k new Nil show ?thesis
    using klist_add_as_insert [of h head xs el] klist_insert_tail [OF k new] by (simp add: klist_def)
next
  case (Cons y ys)
  have "next_of (h head) = y" using k Cons ring_next [of h head y ys] by (simp add: klist_def)
  with k new Cons show ?thesis
    using klist_add_as_insert [of h head xs el] klist_insert_member [of h head "[]" y ys el]
    by (simp add: klist_def)
qed

lemma klist_rm_first:
  assumes r: "ring h (el # q # xs)"
  shows "ring (klist_rm h el) (q # xs)"
proof -
  obtain us l where l: "q # xs = us @ [l]" by (metis append_butlast_last_id list.discI)
  have pn: "prev_of (h el) = l" "next_of (h el) = q"
    using ring_links_last [OF r] ring_next [OF r] l by auto
  have hd: "hd (us @ [l]) = q" using l by (metis list.sel(1))
  have lk: "links h (us @ [l])" and d: "distinct (us @ [l])" and nel: "el \<notin> set (us @ [l])"
    using r links_append [of h "el # us" l "[el]"] links_Cons [of h el "us @ [l]"]
    unfolding ring_def by (auto simp: l)
  then have e: "el \<notin> set us" "el \<noteq> l" "l \<notin> set us" by auto
  have "links (klist_rm h el) (us @ [l])"
  proof (rule links_path_cong [OF d lk])
    fix x assume "x \<in> set us"
    with e pn show "next_of (klist_rm h el x) = next_of (h x)"
      by (auto simp: klist_rm_def Let_def)
  next
    fix x assume x: "x \<in> set (tl (us @ [l]))"
    show "prev_of (klist_rm h el x) = prev_of (h x)"
    proof (cases us)
      case Nil
      with x show ?thesis by simp
    next
      case (Cons u us')
      with l x d e pn show ?thesis by (auto simp: klist_rm_def Let_def)
    qed
  qed
  moreover have "next_of (klist_rm h el l) = q" "prev_of (klist_rm h el q) = l"
    using pn e by (auto simp: klist_rm_def Let_def)
  ultimately have "links (klist_rm h el) (us @ [l, q])"
    using links_append [of "klist_rm h el" us l "[q]"] by simp
  moreover have "(q # xs) @ [hd (q # xs)] = us @ [l, q]" using l hd by simp
  moreover have "distinct (q # xs)" using r by (simp add: ring_def)
  ultimately show ?thesis unfolding ring_def by (metis list.discI)
qed

text \<open>Removal needs no head: it takes the node out of whichever ring holds it.\<close>

lemma klist_rm_ring:
  assumes "ring h (as @ el # bs)" and "as @ bs \<noteq> []"
  shows "ring (klist_rm h el) (as @ bs)"
proof -
  from ring_rotates [OF assms(1)] have r: "ring h (el # bs @ as)" by simp
  from assms(2) obtain q xs where "bs @ as = q # xs" by (metis append_is_Nil_conv neq_Nil_conv)
  with klist_rm_first [of h el q xs] r have "ring (klist_rm h el) (bs @ as)" by simp
  from ring_rotates [OF this] show ?thesis .
qed

lemma klist_rm_remove1:
  assumes k: "klist h head xs" and m: "el \<in> set xs"
  shows "klist (klist_rm h el) head (remove1 el xs)"
proof -
  from m obtain as bs where xs: "xs = as @ el # bs" and "el \<notin> set as"
    by (metis split_list_first)
  then have "remove1 el xs = as @ bs" by (simp add: remove1_append)
  with klist_rm_ring [of h "head # as" el bs] k xs show ?thesis by (simp add: klist_def)
qed

lemma klist_rm_init_eq: "klist_rm_init h el = klist_init (klist_rm h el) el"
  by (auto simp: klist_rm_init_def klist_rm_def klist_init_def Let_def set_next_def set_prev_def
      fun_eq_iff)

lemma klist_init_frame:
  "ring h xs \<Longrightarrow> p \<notin> set xs \<Longrightarrow> ring (klist_init h p) xs"
  by (erule ring_frame) (auto simp: klist_init_def)

text \<open>Removing with re-initialisation leaves the rest of the list and a detached node.\<close>

lemma klist_rm_init_lists:
  assumes k: "klist h head xs" and m: "el \<in> set xs"
  shows "klist (klist_rm_init h el) head (remove1 el xs) \<and> ring (klist_rm_init h el) [el]"
proof -
  have "distinct (head # xs)" using k by (simp add: klist_def ring_def)
  with m have "el \<notin> set (head # remove1 el xs)" by auto
  with klist_rm_remove1 [OF assms] show ?thesis
    by (simp add: klist_rm_init_eq klist_def klist_init_frame klist_init_ring)
qed

lemma klist_head_next: "klist h head xs \<Longrightarrow> next_of (h head) = hd (xs @ [head])"
  using ring_next [of h head "hd xs" "tl xs"] ring_links_last [of h head "[]"]
  by (cases xs) (simp_all add: klist_def)

lemma is_klist_empty_iff: "klist h head xs \<Longrightarrow> is_klist_empty h head \<longleftrightarrow> xs = []"
  using klist_head_next [of h head xs]
  by (cases xs) (auto simp: is_klist_empty_def klist_def ring_def)

section \<open>The search loop terminates and inserts in order\<close>

lemma klist_find_walk:
  assumes "klist h head (as @ bs)" and "\<forall>x \<in> set as. True"
  shows "klist_find h P head (hd (bs @ [head])) = Some (hd (dropWhile (\<lambda>y. \<not> P y) bs @ [head]))"
  using assms
proof (induction bs arbitrary: as)
  case Nil
  then show ?case by (simp add: klist_find.simps)
next
  case (Cons b bs)
  have ne: "b \<noteq> head" using Cons.prems(1) by (auto simp: klist_def ring_def)
  have "ring h ((head # as) @ (b # bs))" using Cons.prems(1) by (simp add: klist_def)
  from ring_rotates [OF this] have r: "ring h (b # bs @ head # as)" by simp
  have nx: "next_of (h b) = hd (bs @ [head])" using ring_next [of h b] r by (cases bs) auto
  have "klist_find h P head (hd (bs @ [head])) = Some (hd (dropWhile (\<lambda>y. \<not> P y) bs @ [head]))"
    using Cons.IH [of "as @ [b]"] Cons.prems(1) by simp
  with ne nx show ?case by (simp add: klist_find.simps [of h P head b])
qed

lemma klist_ordered_insert_refines:
  assumes k: "klist h head xs" and new: "el \<notin> set (head # xs)"
  shows "\<exists>h'. klist_ordered_insert h P head el = Some h' \<and> klist h' head (insert_before P el xs)"
proof -
  let ?as = "takeWhile (\<lambda>y. \<not> P y) xs" and ?bs = "dropWhile (\<lambda>y. \<not> P y) xs"
  have nx: "next_of (h head) = hd (xs @ [head])" by (rule klist_head_next [OF k])
  have f: "klist_find h P head (next_of (h head)) = Some (hd (?bs @ [head]))"
    using klist_find_walk [of h head "[]" xs P] k nx by simp
  have "klist (klist_insert h (hd (?bs @ [head])) el) head (?as @ el # ?bs)"
  proof (cases ?bs)
    case Nil
    have "?as = xs" using takeWhile_dropWhile_id [of "\<lambda>y. \<not> P y" xs] unfolding Nil
      by (simp del: takeWhile_eq_all_conv)
    then show ?thesis using klist_insert_tail [OF k new] unfolding Nil
      by (simp del: takeWhile_eq_all_conv)
  next
    case (Cons q bs)
    then have xs: "xs = ?as @ q # bs" by (metis takeWhile_dropWhile_id)
    with klist_insert_member [of h head ?as q bs el] k new have
      "klist (klist_insert h q el) head (?as @ el # q # bs)" by metis
    with Cons show ?thesis by simp
  qed
  with f show ?thesis by (simp add: klist_ordered_insert_def insert_before_split)
qed

end
