(* ===== verification/K_Err.thy ===== *)
theory K_Err
  imports Prelude
begin

text \<open>
  The status codes of \<open>include/k_err.h\<close>, the constants of \<open>include/k_sys.h\<close> and
  \<open>include/k_sched.h\<close>, and the configuration the model is built for: the single-core
  Cortex-M4 board \<open>board/stm32l476rg-nucleo\<close> (its \<open>k_config.h\<close> over
  \<open>include/k_default_config.h\<close>).
\<close>

section \<open>Status codes\<close>

datatype (plugins only: code size) kstat =
    RHINO_SUCCESS | RHINO_SYS_FATAL_ERR | RHINO_SYS_SP_ERR | RHINO_RUNNING | RHINO_STOPPED
  | RHINO_INV_PARAM | RHINO_NULL_PTR | RHINO_INV_ALIGN | RHINO_KOBJ_TYPE_ERR | RHINO_KOBJ_DEL_ERR
  | RHINO_KOBJ_DOCKER_EXIST | RHINO_KOBJ_BLK | RHINO_KOBJ_SET_FULL | RHINO_NOTIFY_FUNC_EXIST
  | RHINO_MM_POOL_SIZE_ERR | RHINO_MM_ALLOC_SIZE_ERR | RHINO_MM_FREE_ADDR_ERR | RHINO_MM_CORRUPT_ERR
  | RHINO_DYN_MEM_PROC_ERR | RHINO_NO_MEM | RHINO_RINGBUF_FULL | RHINO_RINGBUF_EMPTY
  | RHINO_SCHED_DISABLE | RHINO_SCHED_ALREADY_ENABLED | RHINO_SCHED_LOCK_COUNT_OVF
  | RHINO_INV_SCHED_WAY
  | RHINO_TASK_INV_STACK_SIZE | RHINO_TASK_NOT_SUSPENDED | RHINO_TASK_DEL_NOT_ALLOWED
  | RHINO_TASK_SUSPEND_NOT_ALLOWED | RHINO_TASK_CANCELED | RHINO_SUSPENDED_COUNT_OVF
  | RHINO_BEYOND_MAX_PRI | RHINO_PRI_CHG_NOT_ALLOWED | RHINO_INV_TASK_STATE | RHINO_IDLE_TASK_EXIST
  | RHINO_NO_PEND_WAIT | RHINO_BLK_ABORT | RHINO_BLK_TIMEOUT | RHINO_BLK_DEL | RHINO_BLK_INV_STATE
  | RHINO_BLK_POOL_SIZE_ERR
  | RHINO_TIMER_STATE_INV
  | RHINO_NO_THIS_EVENT_OPT
  | RHINO_BUF_QUEUE_INV_SIZE | RHINO_BUF_QUEUE_SIZE_ZERO | RHINO_BUF_QUEUE_FULL
  | RHINO_BUF_QUEUE_MSG_SIZE_OVERFLOW | RHINO_QUEUE_FULL | RHINO_QUEUE_NOT_FULL
  | RHINO_SEM_OVF | RHINO_SEM_TASK_WAITING
  | RHINO_MUTEX_NOT_RELEASED_BY_OWNER | RHINO_MUTEX_OWNER_NESTED | RHINO_MUTEX_NESTED_OVF
  | RHINO_NOT_CALLED_BY_INTRPT | RHINO_TRY_AGAIN
  | RHINO_WORKQUEUE_EXIST | RHINO_WORKQUEUE_NOT_EXIST | RHINO_WORKQUEUE_WORK_EXIST
  | RHINO_WORKQUEUE_BUSY | RHINO_WORKQUEUE_WORK_RUNNING
  | RHINO_TASK_STACK_OVF | RHINO_INTRPT_STACK_OVF

section \<open>Configuration and constants\<close>

definition RHINO_CONFIG_PRI_MAX :: nat where "RHINO_CONFIG_PRI_MAX = 62"
definition RHINO_IDLE_PRI :: nat where "RHINO_IDLE_PRI = RHINO_CONFIG_PRI_MAX - 1"
definition NUM_WORDS :: nat where "NUM_WORDS = (RHINO_CONFIG_PRI_MAX + 31) div 32"
definition RHINO_CONFIG_TIME_SLICE_DEFAULT :: u32 where "RHINO_CONFIG_TIME_SLICE_DEFAULT = 50"
definition RHINO_CONFIG_TICKS_PER_SECOND :: nat where "RHINO_CONFIG_TICKS_PER_SECOND = 100"
definition RHINO_CONFIG_TASK_INFO_NUM :: nat where "RHINO_CONFIG_TASK_INFO_NUM = 2"
definition RHINO_NO_WAIT :: u64 where "RHINO_NO_WAIT = 0"
definition RHINO_WAIT_FOREVER :: u64 where "RHINO_WAIT_FOREVER = -1"
definition MAX_TIMER_TICKS :: u64 where "MAX_TIMER_TICKS = drop_bit 1 (-1)"
definition SCHED_MAX_LOCK_COUNT :: u8 where "SCHED_MAX_LOCK_COUNT = 200"
definition KSCHED_FIFO :: u8 where "KSCHED_FIFO = 0"
definition KSCHED_RR :: u8 where "KSCHED_RR = 1"
definition K_OBJ_STATIC_ALLOC :: u8 where "K_OBJ_STATIC_ALLOC = 1"
definition K_OBJ_DYN_ALLOC :: u8 where "K_OBJ_DYN_ALLOC = 2"

lemmas config_defs =
  RHINO_CONFIG_PRI_MAX_def RHINO_IDLE_PRI_def NUM_WORDS_def RHINO_CONFIG_TIME_SLICE_DEFAULT_def
  RHINO_CONFIG_TICKS_PER_SECOND_def RHINO_CONFIG_TASK_INFO_NUM_def RHINO_NO_WAIT_def
  RHINO_WAIT_FOREVER_def SCHED_MAX_LOCK_COUNT_def KSCHED_FIFO_def KSCHED_RR_def
  K_OBJ_STATIC_ALLOC_def K_OBJ_DYN_ALLOC_def

text \<open>
  What the code does outside its contract is recorded, not hidden: a call of the fatal-error
  handler \<open>k_err_proc\<close> (which returns to the caller), a dereference of a NULL pointer, an
  access outside an array, and a loop that the model cut off.
\<close>

datatype trap = Fatal kstat | NullDeref | OutOfBounds | Diverged

text \<open>A blocking service either returns to its caller or leaves the caller blocked; in
  that case the second half of the service runs when the caller is switched in again.\<close>

datatype 'a outcome = Ret 'a | Blocked

end
