(* ===== verification/K_Ringbuf.thy ===== *)
theory K_Ringbuf
  imports K_Err
begin

text \<open>
  The byte ring buffer of \<open>k_ringbuf.c\<close> and \<open>include/k_ringbuf.h\<close>. The memory between
  \<open>buf\<close> and \<open>end\<close> is a byte list; \<open>head\<close> and \<open>tail\<close> are offsets from \<open>buf\<close>. A copy that
  would read or write outside its memory makes the operation \<open>None\<close>, so memory safety is the
  statement that an operation is never \<open>None\<close>. \<open>size_t\<close> has 32 bits; the one addition that
  can wrap is written with its \<open>mod\<close>.
\<close>

section \<open>State\<close>

definition RINGBUF_TYPE_FIX :: nat where "RINGBUF_TYPE_FIX = 0"
definition RINGBUF_TYPE_DYN :: nat where "RINGBUF_TYPE_DYN = 1"
definition RING_BUF_LEN :: nat where "RING_BUF_LEN = 4"

record k_ringbuf =
  rb_mem :: "u8 list"
  rb_end :: nat
  rb_head :: nat
  rb_tail :: nat
  rb_freesize :: nat
  rb_type :: nat
  rb_blk_size :: nat

text \<open>\<open>memcpy\<close> into and out of the buffer memory, and from the caller's data.\<close>

definition write_at :: "u8 list \<Rightarrow> nat \<Rightarrow> u8 list \<Rightarrow> u8 list option" where
  "write_at m off bs =
     (if off + length bs \<le> length m then Some (take off m @ bs @ drop (off + length bs) m) else None)"

definition read_at :: "u8 list \<Rightarrow> nat \<Rightarrow> nat \<Rightarrow> u8 list option" where
  "read_at m off n = (if off + n \<le> length m then Some (take n (drop off m)) else None)"

text \<open>The four bytes of a \<open>size_t\<close>, least significant first, and their value.\<close>

definition size_bytes :: "nat \<Rightarrow> u8 list" where
  "size_bytes n = map (\<lambda>i. word_of_nat (n div 256 ^ i)) [0..<4]"

definition bytes_size :: "u8 list \<Rightarrow> nat" where
  "bytes_size bs = foldr (\<lambda>b n. unat b + 256 * n) bs 0"

section \<open>Operations\<close>

definition ringbuf_reset :: "k_ringbuf \<Rightarrow> k_ringbuf" where
  "ringbuf_reset rb = rb\<lparr>rb_head := 0, rb_tail := 0, rb_freesize := rb_end rb\<rparr>"

definition ringbuf_init :: "u8 list \<Rightarrow> nat \<Rightarrow> nat \<Rightarrow> nat \<Rightarrow> k_ringbuf" where
  "ringbuf_init buf len type block_size =
     ringbuf_reset \<lparr>rb_mem = buf, rb_end = len, rb_head = 0, rb_tail = 0, rb_freesize = 0,
                    rb_type = type, rb_blk_size = block_size\<rparr>"

definition wrap_tail :: "k_ringbuf \<Rightarrow> k_ringbuf" where
  "wrap_tail rb = (if rb_tail rb = rb_end rb then rb\<lparr>rb_tail := 0\<rparr> else rb)"

definition wrap_head :: "k_ringbuf \<Rightarrow> k_ringbuf" where
  "wrap_head rb = (if rb_head rb = rb_end rb then rb\<lparr>rb_head := 0\<rparr> else rb)"

text \<open>Copy \<open>bs\<close> to the tail, split at the end of the memory when the free space wraps.
  The code has this twice in \<open>ringbuf_push\<close>: for the length bytes and for the data.\<close>

definition copy_in :: "k_ringbuf \<Rightarrow> u8 list \<Rightarrow> k_ringbuf option" where
  "copy_in rb bs =
     (let split_len = rb_end rb - rb_tail rb in
      if rb_head rb \<le> rb_tail rb \<and> split_len < length bs \<and> 0 < split_len then
        Option.bind (write_at (rb_mem rb) (rb_tail rb) (take split_len bs)) (\<lambda>m1.
        Option.bind (write_at m1 0 (drop split_len bs)) (\<lambda>m2.
          Some (rb\<lparr>rb_mem := m2, rb_tail := length bs - split_len,
                   rb_freesize := rb_freesize rb - length bs\<rparr>)))
      else
        map_option (\<lambda>m. rb\<lparr>rb_mem := m, rb_tail := rb_tail rb + length bs,
                           rb_freesize := rb_freesize rb - length bs\<rparr>)
          (write_at (rb_mem rb) (rb_tail rb) bs))"

definition ringbuf_push :: "k_ringbuf \<Rightarrow> u8 list \<Rightarrow> nat \<Rightarrow> (kstat \<times> k_ringbuf) option" where
  "ringbuf_push rb data len =
     (if rb_type rb = RINGBUF_TYPE_FIX then
        if rb_freesize rb < rb_blk_size rb then Some (RHINO_RINGBUF_FULL, rb)
        else
          let rb1 = wrap_tail rb in
          Option.bind (read_at data 0 (rb_blk_size rb)) (\<lambda>bs.
          Option.bind (write_at (rb_mem rb1) (rb_tail rb1) bs) (\<lambda>m.
            Some (RHINO_SUCCESS,
                  rb1\<lparr>rb_mem := m, rb_tail := rb_tail rb1 + rb_blk_size rb,
                      rb_freesize := rb_freesize rb - rb_blk_size rb\<rparr>)))
      else if len = 0 \<or> 2 ^ 32 - 1 \<le> len then Some (RHINO_INV_PARAM, rb)
      else if rb_freesize rb < (RING_BUF_LEN + len) mod 2 ^ 32 then Some (RHINO_RINGBUF_FULL, rb)
      else
        Option.bind (copy_in (wrap_tail rb) (size_bytes len)) (\<lambda>rb1.
        Option.bind (read_at data 0 len) (\<lambda>bs.
        Option.bind (copy_in (wrap_tail rb1) bs) (\<lambda>rb2.
          Some (RHINO_SUCCESS, rb2)))))"

text \<open>Copy the length bytes out: split whenever they cross the end of the memory.\<close>

definition copy_out_len :: "k_ringbuf \<Rightarrow> (u8 list \<times> k_ringbuf) option" where
  "copy_out_len rb =
     (let split_len = rb_end rb - rb_head rb in
      if split_len < RING_BUF_LEN \<and> 0 < split_len then
        Option.bind (read_at (rb_mem rb) (rb_head rb) split_len) (\<lambda>b1.
        Option.bind (read_at (rb_mem rb) 0 (RING_BUF_LEN - split_len)) (\<lambda>b2.
          Some (b1 @ b2, rb\<lparr>rb_head := RING_BUF_LEN - split_len,
                            rb_freesize := rb_freesize rb + RING_BUF_LEN\<rparr>)))
      else
        map_option (\<lambda>b. (b, rb\<lparr>rb_head := rb_head rb + RING_BUF_LEN,
                               rb_freesize := rb_freesize rb + RING_BUF_LEN\<rparr>))
          (read_at (rb_mem rb) (rb_head rb) RING_BUF_LEN))"

text \<open>Copy the data out: split only when the head is past the tail.\<close>

definition copy_out_data :: "k_ringbuf \<Rightarrow> nat \<Rightarrow> (u8 list \<times> k_ringbuf) option" where
  "copy_out_data rb len =
     (let split_len = rb_end rb - rb_head rb in
      if rb_tail rb < rb_head rb \<and> split_len < len then
        Option.bind (read_at (rb_mem rb) (rb_head rb) split_len) (\<lambda>b1.
        Option.bind (read_at (rb_mem rb) 0 (len - split_len)) (\<lambda>b2.
          Some (b1 @ b2, rb\<lparr>rb_head := len - split_len, rb_freesize := rb_freesize rb + len\<rparr>)))
      else
        map_option (\<lambda>b. (b, rb\<lparr>rb_head := rb_head rb + len, rb_freesize := rb_freesize rb + len\<rparr>))
          (read_at (rb_mem rb) (rb_head rb) len))"

definition ringbuf_pop :: "k_ringbuf \<Rightarrow> (u8 list \<times> nat \<times> k_ringbuf) option" where
  "ringbuf_pop rb =
     (if rb_type rb = RINGBUF_TYPE_FIX then
        let rb1 = wrap_head rb in
        map_option (\<lambda>b. (b, rb_blk_size rb,
            rb1\<lparr>rb_head := rb_head rb1 + rb_blk_size rb, rb_freesize := rb_freesize rb + rb_blk_size rb\<rparr>))
          (read_at (rb_mem rb1) (rb_head rb1) (rb_blk_size rb))
      else
        Option.bind (copy_out_len (wrap_head rb)) (\<lambda>(c_len, rb1).
        Option.bind (copy_out_data (wrap_head rb1) (bytes_size c_len)) (\<lambda>(b, rb2).
          Some (b, bytes_size c_len, rb2))))"

definition ringbuf_is_full :: "k_ringbuf \<Rightarrow> bool" where
  "ringbuf_is_full rb \<longleftrightarrow>
     rb_type rb = RINGBUF_TYPE_DYN \<and> rb_freesize rb < RING_BUF_LEN + 1
     \<or> rb_type rb = RINGBUF_TYPE_FIX \<and> rb_freesize rb < rb_blk_size rb"

definition ringbuf_is_empty :: "k_ringbuf \<Rightarrow> bool" where
  "ringbuf_is_empty rb \<longleftrightarrow> rb_freesize rb = rb_end rb"

text \<open>The variant for pointer queues keeps no free size.\<close>

definition ringbuf_queue_push :: "k_ringbuf \<Rightarrow> u8 list \<Rightarrow> k_ringbuf option" where
  "ringbuf_queue_push rb data =
     (let rb1 = wrap_tail rb in
      Option.bind (read_at data 0 (rb_blk_size rb)) (\<lambda>bs.
      map_option (\<lambda>m. rb1\<lparr>rb_mem := m, rb_tail := rb_tail rb1 + rb_blk_size rb\<rparr>)
        (write_at (rb_mem rb1) (rb_tail rb1) bs)))"

definition ringbuf_queue_pop :: "k_ringbuf \<Rightarrow> (u8 list \<times> k_ringbuf) option" where
  "ringbuf_queue_pop rb =
     (let rb1 = wrap_head rb in
      map_option (\<lambda>b. (b, rb1\<lparr>rb_head := rb_head rb1 + rb_blk_size rb\<rparr>))
        (read_at (rb_mem rb1) (rb_head rb1) (rb_blk_size rb)))"

end
