(* ===== verification/K_Bitmap.thy ===== *)
theory K_Bitmap
  imports Prelude
begin

text \<open>
  The bitmaps of \<open>include/k_bitmap.h\<close>: set, clear, leading and trailing zero counts and
  the search for the first set bit. A bitmap is the list of its 32-bit words, most
  significant bit first. The C search runs past the array when every word is zero; the
  model returns \<open>None\<close> there.
\<close>

section \<open>The code\<close>

definition BITMAP_WORD :: "nat \<Rightarrow> nat" where
  "BITMAP_WORD nr = nr div 32"

definition BITMAP_MASK :: "nat \<Rightarrow> u32" where
  "BITMAP_MASK nr = push_bit (32 - 1 - nr mod 32) 1"

definition krhino_bitmap_set :: "u32 list \<Rightarrow> nat \<Rightarrow> u32 list" where
  "krhino_bitmap_set bm nr = bm[BITMAP_WORD nr := bm ! BITMAP_WORD nr OR BITMAP_MASK nr]"

definition krhino_bitmap_clear :: "u32 list \<Rightarrow> nat \<Rightarrow> u32 list" where
  "krhino_bitmap_clear bm nr = bm[BITMAP_WORD nr := bm ! BITMAP_WORD nr AND NOT (BITMAP_MASK nr)]"

definition krhino_clz32 :: "u32 \<Rightarrow> nat" where
  "krhino_clz32 x =
     (if x = 0 then 32 else
      let (x, n) = (if x AND 0xFFFF0000 = 0 then (push_bit 16 x, 16) else (x, 0));
          (x, n) = (if x AND 0xFF000000 = 0 then (push_bit 8 x, n + 8) else (x, n));
          (x, n) = (if x AND 0xF0000000 = 0 then (push_bit 4 x, n + 4) else (x, n));
          (x, n) = (if x AND 0xC0000000 = 0 then (push_bit 2 x, n + 2) else (x, n))
      in if x AND 0x80000000 = 0 then n + 1 else n)"

definition krhino_ctz32 :: "u32 \<Rightarrow> nat" where
  "krhino_ctz32 x =
     (if x = 0 then 32 else
      let (x, n) = (if x AND 0x0000FFFF = 0 then (drop_bit 16 x, 16) else (x, 0));
          (x, n) = (if x AND 0x000000FF = 0 then (drop_bit 8 x, n + 8) else (x, n));
          (x, n) = (if x AND 0x0000000F = 0 then (drop_bit 4 x, n + 4) else (x, n));
          (x, n) = (if x AND 0x00000003 = 0 then (drop_bit 2 x, n + 2) else (x, n))
      in if x AND 0x00000001 = 0 then n + 1 else n)"

fun krhino_find_first_bit :: "u32 list \<Rightarrow> nat option" where
  "krhino_find_first_bit [] = None"
| "krhino_find_first_bit (w # ws) =
     (if w = 0 then map_option (\<lambda>nr. 32 + nr) (krhino_find_first_bit ws)
      else Some (
        let (tmp, nr) = (if w AND 0xFFFF0000 = 0 then (push_bit 16 w, 16) else (w, 0));
            (tmp, nr) = (if tmp AND 0xFF000000 = 0 then (push_bit 8 tmp, nr + 8) else (tmp, nr));
            (tmp, nr) = (if tmp AND 0xF0000000 = 0 then (push_bit 4 tmp, nr + 4) else (tmp, nr));
            (tmp, nr) = (if tmp AND 0xC0000000 = 0 then (push_bit 2 tmp, nr + 2) else (tmp, nr))
        in if tmp AND 0x80000000 = 0 then nr + 1 else nr))"

text \<open>What the bitmap says about position \<open>nr\<close>.\<close>

definition bitmap_test :: "u32 list \<Rightarrow> nat \<Rightarrow> bool" where
  "bitmap_test bm nr \<longleftrightarrow> nr div 32 < length bm \<and> bit (bm ! (nr div 32)) (31 - nr mod 32)"

section \<open>Leading zeros\<close>

lemma and_not_mask_eq_0:
  fixes x :: u32
  shows "x AND NOT (mask m) = 0 \<longleftrightarrow> unat x < 2 ^ m"
proof -
  have "x AND NOT (mask m) = 0 \<longleftrightarrow> take_bit m x = x"
    by (auto simp: bit_eq_iff bit_simps)
  also have "\<dots> \<longleftrightarrow> unat (take_bit m x) = unat x" by (simp add: unsigned_word_eqI word_unat_eq_iff)
  also have "\<dots> \<longleftrightarrow> unat x < 2 ^ m" by (simp add: unsigned_take_bit_eq take_bit_nat_eq_self_iff)
  finally show ?thesis .
qed

lemma top_masks:
  "(0xFFFF0000 :: u32) = NOT (mask 16)" "(0xFF000000 :: u32) = NOT (mask 24)"
  "(0xF0000000 :: u32) = NOT (mask 28)" "(0xC0000000 :: u32) = NOT (mask 30)"
  "(0x80000000 :: u32) = NOT (mask 31)"
  by (simp_all add: mask_numeral)

lemma unat_push_bit_u32:
  fixes x :: u32
  assumes "unat x < 2 ^ (32 - k)" and "k \<le> 32"
  shows "unat (push_bit k x) = unat x * 2 ^ k"
proof -
  have "unat x * 2 ^ k < 2 ^ (32 - k) * 2 ^ k" using assms(1) by simp
  also have "\<dots> = 2 ^ 32" using assms(2) by (simp flip: power_add)
  finally show ?thesis
    unfolding unsigned_push_bit_eq by (simp add: take_bit_nat_eq_self push_bit_eq_mult)
qed

lemma clz_halving:
  fixes x :: u32
  assumes "x \<noteq> 0"
  defines "r \<equiv> (let (x, n) = (if x AND 0xFFFF0000 = 0 then (push_bit 16 x, 16) else (x, 0));
          (x, n) = (if x AND 0xFF000000 = 0 then (push_bit 8 x, n + 8) else (x, n));
          (x, n) = (if x AND 0xF0000000 = 0 then (push_bit 4 x, n + 4) else (x, n));
          (x, n) = (if x AND 0xC0000000 = 0 then (push_bit 2 x, n + 2) else (x, n))
      in if x AND 0x80000000 = 0 then n + 1 else n)"
  shows "2 ^ 31 \<le> unat x * 2 ^ r \<and> unat x * 2 ^ r < (2 ^ 32 :: nat)"
proof -
  have pos: "0 < unat x" using assms(1) by (simp add: unat_gt_0)
  have lt: "unat x < 2 ^ 32" using unsigned_less [of x] by simp
  show ?thesis
    using pos lt unfolding r_def top_masks
    by (auto simp: Let_def and_not_mask_eq_0 unat_push_bit_u32)
qed

lemma krhino_clz32_bounds:
  "x \<noteq> 0 \<Longrightarrow> 2 ^ 31 \<le> unat x * 2 ^ krhino_clz32 x \<and> unat x * 2 ^ krhino_clz32 x < (2 ^ 32 :: nat)"
  unfolding krhino_clz32_def using clz_halving [of x] by simp

lemma bit_top_nat:
  fixes a :: nat
  assumes "2 ^ i \<le> a" and "a < 2 ^ Suc i"
  shows "bit a i" and "j > i \<Longrightarrow> \<not> bit a j"
proof -
  have "a div 2 ^ i = 1" using assms by (intro div_nat_eqI) auto
  then show "bit a i" by (simp add: bit_iff_odd)
  assume "j > i"
  then have "(2::nat) ^ Suc i \<le> 2 ^ j" by (intro power_increasing) auto
  with assms(2) have "a div 2 ^ j = 0" by simp
  then show "\<not> bit a j" by (simp add: bit_iff_odd)
qed

lemma top_bit_of_bounds:
  fixes x :: u32
  assumes "2 ^ 31 \<le> unat x * 2 ^ r" and "unat x * 2 ^ r < (2 ^ 32 :: nat)"
  shows "r \<le> 31 \<and> bit x (31 - r) \<and> (\<forall>j > 31 - r. \<not> bit x j)"
proof -
  have pos: "0 < unat x" using assms(1) by (cases "unat x") auto
  have r: "r \<le> 31"
  proof (rule ccontr)
    assume "\<not> r \<le> 31"
    then have "(2::nat) ^ 32 \<le> 2 ^ r" by (intro power_increasing) auto
    with pos have "2 ^ 32 \<le> unat x * 2 ^ r"
      by (metis One_nat_def Suc_leI mult_1 mult_le_mono)
    with assms(2) show False by simp
  qed
  have e: "(2::nat) ^ 31 = 2 ^ (31 - r) * 2 ^ r" "(2::nat) ^ 32 = 2 ^ Suc (31 - r) * 2 ^ r"
    using r by (simp_all flip: power_add power_Suc)
  have lo: "2 ^ (31 - r) \<le> unat x" and hi: "unat x < 2 ^ Suc (31 - r)"
    using assms unfolding e by (simp_all only: mult_le_cancel2 mult_less_cancel2)
  have b: "bit x j \<longleftrightarrow> bit (unat x) j" for j
    by (auto simp: bit_unsigned_iff dest: bit_imp_le_length)
  show ?thesis using r bit_top_nat [OF lo hi] by (auto simp: b)
qed

lemma krhino_clz32_top_bit:
  "x \<noteq> 0 \<Longrightarrow> krhino_clz32 x \<le> 31 \<and> bit x (31 - krhino_clz32 x)
     \<and> (\<forall>j > 31 - krhino_clz32 x. \<not> bit x j)"
  using krhino_clz32_bounds top_bit_of_bounds by blast

section \<open>Set, clear and search\<close>

lemma bitmap_set_length [simp]: "length (krhino_bitmap_set bm nr) = length bm"
  "length (krhino_bitmap_clear bm nr) = length bm"
  by (simp_all add: krhino_bitmap_set_def krhino_bitmap_clear_def)

lemma bit_BITMAP_MASK: "bit (BITMAP_MASK nr) i \<longleftrightarrow> i = 31 - nr mod 32"
  by (auto simp: BITMAP_MASK_def bit_simps bit_1_iff)

lemma same_position:
  assumes "nr div 32 = m div 32"
  shows "31 - nr mod 32 = 31 - m mod (32::nat) \<longleftrightarrow> nr = m"
proof -
  have "nr mod 32 < 32" "m mod 32 < 32" by simp_all
  then have "31 - nr mod 32 = 31 - m mod 32 \<longleftrightarrow> nr mod 32 = m mod 32" by arith
  also have "\<dots> \<longleftrightarrow> nr = m" using assms by (metis div_mult_mod_eq)
  finally show ?thesis .
qed

lemma bitmap_test_set:
  assumes "nr div 32 < length bm"
  shows "bitmap_test (krhino_bitmap_set bm nr) m \<longleftrightarrow> m = nr \<or> bitmap_test bm m"
proof (cases "nr div 32 = m div 32")
  case True
  with assms same_position [OF True] show ?thesis
    by (auto simp: bitmap_test_def krhino_bitmap_set_def BITMAP_WORD_def bit_or_iff bit_BITMAP_MASK)
next
  case False
  then show ?thesis by (auto simp: bitmap_test_def krhino_bitmap_set_def BITMAP_WORD_def)
qed

lemma bitmap_test_clear:
  "bitmap_test (krhino_bitmap_clear bm nr) m \<longleftrightarrow> m \<noteq> nr \<and> bitmap_test bm m"
proof (cases "nr div 32 = m div 32")
  case True
  have "31 - m mod 32 < 32" by simp
  with True same_position [OF True] show ?thesis
    by (auto simp: bitmap_test_def krhino_bitmap_clear_def BITMAP_WORD_def bit_and_iff bit_not_iff
        bit_BITMAP_MASK)
next
  case False
  then show ?thesis by (auto simp: bitmap_test_def krhino_bitmap_clear_def BITMAP_WORD_def)
qed

lemma bitmap_test_Cons_low: "m < 32 \<Longrightarrow> bitmap_test (w # ws) m \<longleftrightarrow> bit w (31 - m)"
  by (simp add: bitmap_test_def)

lemma bitmap_test_Cons_high: "bitmap_test (w # ws) (32 + m) \<longleftrightarrow> bitmap_test ws m"
proof -
  have "(32 + m) div 32 = Suc (m div 32)" by simp
  then show ?thesis by (simp only: bitmap_test_def) simp
qed

text \<open>The search returns the least set position, and fails exactly on an empty bitmap.\<close>

lemma find_first_bit_Some:
  "krhino_find_first_bit bm = Some nr \<Longrightarrow>
     bitmap_test bm nr \<and> (\<forall>m < nr. \<not> bitmap_test bm m)"
proof (induction bm arbitrary: nr)
  case (Cons w ws)
  show ?case
  proof (cases "w = 0")
    case True
    with Cons.prems obtain k where k: "krhino_find_first_bit ws = Some k" "nr = 32 + k" by auto
    have "\<not> bitmap_test (w # ws) m" if "m < nr" for m
    proof (cases "m < 32")
      case False
      then obtain j where "m = 32 + j" by (metis le_Suc_ex not_less)
      with that k Cons.IH [OF k(1)] show ?thesis by (simp add: bitmap_test_Cons_high)
    qed (simp add: bitmap_test_Cons_low True)
    with k Cons.IH [OF k(1)] show ?thesis by (simp add: bitmap_test_Cons_high)
  next
    case False
    with Cons.prems have nr: "2 ^ 31 \<le> unat w * 2 ^ nr \<and> unat w * 2 ^ nr < (2 ^ 32 :: nat)"
      using clz_halving [OF False] by simp
    then have t: "nr \<le> 31" "bit w (31 - nr)" "\<forall>j > 31 - nr. \<not> bit w j"
      using top_bit_of_bounds by blast+
    then show ?thesis by (auto simp: bitmap_test_Cons_low)
  qed
qed simp

lemma find_first_bit_None: "krhino_find_first_bit bm = None \<longleftrightarrow> (\<forall>m. \<not> bitmap_test bm m)"
proof (induction bm)
  case Nil
  then show ?case by (simp add: bitmap_test_def)
next
  case (Cons w ws)
  show ?case
  proof (cases "w = 0")
    case True
    have "(\<forall>m. \<not> bitmap_test (w # ws) m) \<longleftrightarrow> (\<forall>m. \<not> bitmap_test ws m)"
    proof
      assume a: "\<forall>m. \<not> bitmap_test (w # ws) m"
      show "\<forall>m. \<not> bitmap_test ws m"
        using a bitmap_test_Cons_high [of w ws] by blast
    next
      assume a: "\<forall>m. \<not> bitmap_test ws m"
      show "\<forall>m. \<not> bitmap_test (w # ws) m"
      proof
        fix m
        show "\<not> bitmap_test (w # ws) m"
          using a bitmap_test_Cons_high [of w ws "m - 32"] True
          by (cases "m < 32") (auto simp: bitmap_test_Cons_low)
      qed
    qed
    with Cons True show ?thesis by simp
  next
    case False
    then have "bitmap_test (w # ws) (krhino_clz32 w)"
      using krhino_clz32_top_bit [of w] by (simp add: bitmap_test_Cons_low)
    with False show ?thesis by auto
  qed
qed

lemma find_first_bit_least:
  assumes "bitmap_test bm nr" and "\<And>m. m < nr \<Longrightarrow> \<not> bitmap_test bm m"
  shows "krhino_find_first_bit bm = Some nr"
proof (cases "krhino_find_first_bit bm")
  case None
  with assms(1) find_first_bit_None show ?thesis by blast
next
  case (Some k)
  from find_first_bit_Some [OF this] assms have "k = nr" by (meson linorder_neqE_nat)
  with Some show ?thesis by simp
qed

end
