(* ===== verification/K_Obj.thy ===== *)
theory K_Obj
  imports K_Ringbuf K_Bitmap
begin

text \<open>
  The kernel's data: task control blocks (\<open>include/k_task.h\<close>), blocking objects
  (\<open>include/k_obj.h\<close>), semaphores, mutexes, event groups and queues, and the globals of
  \<open>k_obj.c\<close> as one record. An intrusive list is the HOL list of its members (theory
  \<open>K_List\<close> has the pointer level); a ready ring is listed from its current item.
\<close>

section \<open>Tasks and blocking objects\<close>

datatype task_stat_t =
  K_SEED | K_RDY | K_PEND | K_SUSPENDED | K_PEND_SUSPENDED | K_SLEEP | K_SLEEP_SUSPENDED | K_DELETED

datatype blk_policy_t = BLK_POLICY_PRI | BLK_POLICY_FIFO

datatype blk_state_t = BLK_FINISH | BLK_ABORT | BLK_TIMEOUT | BLK_DEL | BLK_INVALID

datatype kobj_type_t =
  RHINO_OBJ_TYPE_NONE | RHINO_SEM_OBJ_TYPE | RHINO_MUTEX_OBJ_TYPE | RHINO_QUEUE_OBJ_TYPE
| RHINO_BUF_QUEUE_OBJ_TYPE | RHINO_TIMER_OBJ_TYPE | RHINO_EVENT_OBJ_TYPE | RHINO_MM_OBJ_TYPE

text \<open>
  \<open>stack_words\<close> is the memory of the stack buffer at the task's creation.
  \<open>mutex_list\<close> is the chain of mutexes the task holds, most recent first; \<open>tick_head\<close> says
  whether the task is linked on the tick list (the C field is NULL or its head).
\<close>

record ktask =
  task_name :: "string option"
  user_info :: "nat list"
  task_stack :: u32
  task_stack_base :: u32
  stack_size :: u32
  stack_words :: "u32 list"
  suspend_count :: u8
  mutex_list :: "oid list"
  tick_match :: u64
  tick_remain :: u64
  tick_head :: bool
  msg :: u32
  bq_msg_size :: nat
  task_state :: task_stat_t
  blk_state :: blk_state_t
  blk_obj :: "oid option"
  task_sem_obj :: "oid option"
  time_slice_left :: u32
  time_total :: u32
  pend_flags :: u32
  pend_info :: nat
  pend_option :: u8
  sched_policy :: u8
  cancel :: u8
  prio :: nat
  b_prio :: nat
  task_mm_flag :: u8

record blk_obj_t =
  blk_list :: "tid list"
  obj_name :: "string option"
  blk_policy :: blk_policy_t
  obj_type :: kobj_type_t
  obj_cancel :: u8
  obj_mm_flag :: u8

record ksem_t =
  count :: u32
  peak_count :: u32

record kmutex_t =
  mutex_task :: "tid option"
  owner_nested :: u32

record msg_q_t =
  q_size :: nat
  cur_num :: nat
  peak_num :: nat

record kqueue_t =
  msg_q :: msg_q_t
  q_ringbuf :: k_ringbuf

record kbuf_queue_t =
  bq_ringbuf :: k_ringbuf
  max_msg_size :: nat
  bq_cur_num :: nat
  bq_peak_num :: nat
  min_free_buf_size :: nat

record runqueue_t =
  cur_list_item :: "nat \<Rightarrow> tid list"
  task_bit_map :: "u32 list"
  highest_pri :: nat

record kobj_list_t =
  l_task_head :: "tid list"
  l_mutex_head :: "oid list"
  l_sem_head :: "oid list"
  l_queue_head :: "oid list"
  l_event_head :: "oid list"
  l_buf_queue_head :: "oid list"

section \<open>The kernel state\<close>

text \<open>
  \<open>cells\<close> and \<open>bufs\<close> are the callers' memory that the kernel writes through pointers kept
  in a task (\<open>pend_info\<close> of an event wait, \<open>msg\<close> of a buffer-queue receive).
\<close>

record kernel =
  g_sys_stat :: kstat
  g_idle_task_spawned :: u8
  g_ready_queue :: runqueue_t
  g_sched_lock :: u8
  g_intrpt_nested_level :: u8
  g_preferred_ready_task :: tid
  g_active_task :: tid
  g_tick_count :: u64
  g_tick_list :: "tid list"
  g_kobj_list :: kobj_list_t
  tcb :: "tid \<Rightarrow> ktask"
  blk :: "oid \<Rightarrow> blk_obj_t"
  sems :: "oid \<Rightarrow> ksem_t"
  mutexes :: "oid \<Rightarrow> kmutex_t"
  event_flags :: "oid \<Rightarrow> u32"
  queues :: "oid \<Rightarrow> kqueue_t"
  buf_queues :: "oid \<Rightarrow> kbuf_queue_t"
  cells :: "nat \<Rightarrow> u32"
  bufs :: "nat \<Rightarrow> u8 list"
  traps :: "trap list"

definition upd_task :: "kernel \<Rightarrow> tid \<Rightarrow> (ktask \<Rightarrow> ktask) \<Rightarrow> kernel" where
  "upd_task s t f = s\<lparr>tcb := (tcb s)(t := f (tcb s t))\<rparr>"

definition upd_blk :: "kernel \<Rightarrow> oid \<Rightarrow> (blk_obj_t \<Rightarrow> blk_obj_t) \<Rightarrow> kernel" where
  "upd_blk s o' f = s\<lparr>blk := (blk s)(o' := f (blk s o'))\<rparr>"

definition add_trap :: "kernel \<Rightarrow> trap \<Rightarrow> kernel" where
  "add_trap s e = s\<lparr>traps := traps s @ [e]\<rparr>"

definition k_err_proc :: "kernel \<Rightarrow> kstat \<Rightarrow> kernel" where
  "k_err_proc s e = add_trap s (Fatal e)"

text \<open>\<open>klist_rm(&task->task_list)\<close> on a blocked task: the node leaves the block list it is
  on, wherever that is.\<close>

definition blk_list_rm :: "kernel \<Rightarrow> tid \<Rightarrow> kernel" where
  "blk_list_rm s t = s\<lparr>blk := (\<lambda>o'. (blk s o')\<lparr>blk_list := remove1 t (blk_list (blk s o'))\<rparr>)\<rparr>"

section \<open>Tasks that wait, and the fields the invariants read\<close>

definition blocked :: "ktask \<Rightarrow> bool" where
  "blocked k \<longleftrightarrow> task_state k = K_PEND \<or> task_state k = K_PEND_SUSPENDED"

definition sleeping :: "ktask \<Rightarrow> bool" where
  "sleeping k \<longleftrightarrow> task_state k = K_SLEEP \<or> task_state k = K_SLEEP_SUSPENDED"

lemma upd_task_tcb [simp]: "tcb (upd_task s t f) = (tcb s)(t := f (tcb s t))"
  by (simp add: upd_task_def)

lemma upd_task_frame [simp]:
  "g_sys_stat (upd_task s t f) = g_sys_stat s"
  "g_idle_task_spawned (upd_task s t f) = g_idle_task_spawned s"
  "g_ready_queue (upd_task s t f) = g_ready_queue s"
  "g_sched_lock (upd_task s t f) = g_sched_lock s"
  "g_intrpt_nested_level (upd_task s t f) = g_intrpt_nested_level s"
  "g_preferred_ready_task (upd_task s t f) = g_preferred_ready_task s"
  "g_active_task (upd_task s t f) = g_active_task s"
  "g_tick_count (upd_task s t f) = g_tick_count s"
  "g_tick_list (upd_task s t f) = g_tick_list s"
  "g_kobj_list (upd_task s t f) = g_kobj_list s"
  "blk (upd_task s t f) = blk s"
  "sems (upd_task s t f) = sems s"
  "mutexes (upd_task s t f) = mutexes s"
  "event_flags (upd_task s t f) = event_flags s"
  "queues (upd_task s t f) = queues s"
  "buf_queues (upd_task s t f) = buf_queues s"
  "cells (upd_task s t f) = cells s"
  "bufs (upd_task s t f) = bufs s"
  "traps (upd_task s t f) = traps s"
  by (simp_all add: upd_task_def)

lemma upd_blk_blk [simp]: "blk (upd_blk s o' f) = (blk s)(o' := f (blk s o'))"
  by (simp add: upd_blk_def)

lemma upd_blk_frame [simp]:
  "g_sys_stat (upd_blk s o' f) = g_sys_stat s"
  "g_idle_task_spawned (upd_blk s o' f) = g_idle_task_spawned s"
  "g_ready_queue (upd_blk s o' f) = g_ready_queue s"
  "g_sched_lock (upd_blk s o' f) = g_sched_lock s"
  "g_intrpt_nested_level (upd_blk s o' f) = g_intrpt_nested_level s"
  "g_preferred_ready_task (upd_blk s o' f) = g_preferred_ready_task s"
  "g_active_task (upd_blk s o' f) = g_active_task s"
  "g_tick_count (upd_blk s o' f) = g_tick_count s"
  "g_tick_list (upd_blk s o' f) = g_tick_list s"
  "g_kobj_list (upd_blk s o' f) = g_kobj_list s"
  "tcb (upd_blk s o' f) = tcb s"
  "sems (upd_blk s o' f) = sems s"
  "mutexes (upd_blk s o' f) = mutexes s"
  "event_flags (upd_blk s o' f) = event_flags s"
  "queues (upd_blk s o' f) = queues s"
  "buf_queues (upd_blk s o' f) = buf_queues s"
  "cells (upd_blk s o' f) = cells s"
  "bufs (upd_blk s o' f) = bufs s"
  "traps (upd_blk s o' f) = traps s"
  by (simp_all add: upd_blk_def)

end
