(* ===== verification/K_Sched.thy ===== *)
theory K_Sched
  imports K_Obj
begin

text \<open>
  The ready queue and the scheduler of \<open>k_sched.c\<close> (single core, round-robin enabled).
  Each priority has a ring of ready tasks; the bitmap has one bit per non-empty ring and
  \<open>highest_pri\<close> caches the least set bit. The invariant \<open>rq_holds rq F\<close> says that the ring
  of priority \<open>p\<close> has exactly the tasks \<open>F p\<close>; every ring operation is proved against it.
\<close>

section \<open>Ready rings\<close>

definition runqueue_init :: "runqueue_t \<Rightarrow> runqueue_t" where
  "runqueue_init rq = rq\<lparr>highest_pri := RHINO_CONFIG_PRI_MAX,
     cur_list_item := (\<lambda>p. if p < RHINO_CONFIG_PRI_MAX then [] else cur_list_item rq p)\<rparr>"

definition ready_list_init :: "runqueue_t \<Rightarrow> nat \<Rightarrow> tid \<Rightarrow> runqueue_t" where
  "ready_list_init rq pri t =
     rq\<lparr>cur_list_item := (cur_list_item rq)(pri := [t]),
        task_bit_map := krhino_bitmap_set (task_bit_map rq) pri,
        highest_pri := (if pri < highest_pri rq then pri else highest_pri rq)\<rparr>"

definition is_ready_list_empty :: "runqueue_t \<Rightarrow> nat \<Rightarrow> bool" where
  "is_ready_list_empty rq pri \<longleftrightarrow> cur_list_item rq pri = []"

definition ready_list_add_tail :: "runqueue_t \<Rightarrow> nat \<Rightarrow> tid \<Rightarrow> runqueue_t" where
  "ready_list_add_tail rq pri t =
     (if is_ready_list_empty rq pri then ready_list_init rq pri t
      else rq\<lparr>cur_list_item := (cur_list_item rq)(pri := cur_list_item rq pri @ [t])\<rparr>)"

definition ready_list_add_head :: "runqueue_t \<Rightarrow> nat \<Rightarrow> tid \<Rightarrow> runqueue_t" where
  "ready_list_add_head rq pri t =
     (if is_ready_list_empty rq pri then ready_list_init rq pri t
      else rq\<lparr>cur_list_item := (cur_list_item rq)(pri := t # cur_list_item rq pri)\<rparr>)"

definition ready_list_add :: "runqueue_t \<Rightarrow> nat \<Rightarrow> tid \<Rightarrow> runqueue_t" where
  "ready_list_add rq pri t = ready_list_add_tail rq pri t"

text \<open>When the ring has another member, \<open>cur_list_item\<close> moves on if it was the removed
  task. Otherwise the ring becomes NULL, whatever the task, and the cached priority is
  searched again; the search is out of bounds when no task is left.\<close>

definition ready_list_rm :: "runqueue_t \<Rightarrow> nat \<Rightarrow> tid \<Rightarrow> runqueue_t \<times> trap list" where
  "ready_list_rm rq pri t =
     (if cur_list_item rq pri = [] then (rq, [NullDeref])
      else if length (cur_list_item rq pri) \<noteq> 1 then
        (rq\<lparr>cur_list_item := (cur_list_item rq)(pri := remove1 t (cur_list_item rq pri))\<rparr>, [])
      else
        let rq1 = rq\<lparr>cur_list_item := (cur_list_item rq)(pri := []),
                     task_bit_map := krhino_bitmap_clear (task_bit_map rq) pri\<rparr>
        in if pri \<noteq> highest_pri rq then (rq1, [])
           else (case krhino_find_first_bit (task_bit_map rq1) of
                   Some i \<Rightarrow> (rq1\<lparr>highest_pri := i\<rparr>, [])
                 | None \<Rightarrow> (rq1, [OutOfBounds])))"

definition ready_list_head_to_tail :: "runqueue_t \<Rightarrow> nat \<Rightarrow> runqueue_t" where
  "ready_list_head_to_tail rq pri =
     rq\<lparr>cur_list_item := (cur_list_item rq)(pri := rotate1 (cur_list_item rq pri))\<rparr>"

text \<open>The task at the head of the highest non-empty ring; \<open>None\<close> stands for the NULL ring.\<close>

definition preferred_cpu_ready_task_get :: "runqueue_t \<Rightarrow> tid option" where
  "preferred_cpu_ready_task_get rq =
     (case cur_list_item rq (highest_pri rq) of [] \<Rightarrow> None | t # _ \<Rightarrow> Some t)"

section \<open>The calls on the global ready queue\<close>

definition rq_add :: "kernel \<Rightarrow> tid \<Rightarrow> kernel" where
  "rq_add s t = s\<lparr>g_ready_queue := ready_list_add (g_ready_queue s) (prio (tcb s t)) t\<rparr>"

definition rq_add_head :: "kernel \<Rightarrow> tid \<Rightarrow> kernel" where
  "rq_add_head s t = s\<lparr>g_ready_queue := ready_list_add_head (g_ready_queue s) (prio (tcb s t)) t\<rparr>"

definition rq_rm :: "kernel \<Rightarrow> tid \<Rightarrow> kernel" where
  "rq_rm s t =
     (let (rq, e) = ready_list_rm (g_ready_queue s) (prio (tcb s t)) t
      in s\<lparr>g_ready_queue := rq, traps := traps s @ e\<rparr>)"

section \<open>Scheduling\<close>

text \<open>The context switch of the port (\<open>PendSV_Handler\<close>): the preferred task becomes the
  active one.\<close>

definition cpu_task_switch :: "kernel \<Rightarrow> kernel" where
  "cpu_task_switch s = s\<lparr>g_active_task := g_preferred_ready_task s\<rparr>"

definition core_sched :: "kernel \<Rightarrow> kernel" where
  "core_sched s =
     (if g_intrpt_nested_level s > 0 then s
      else if g_sched_lock s > 0 then s
      else case preferred_cpu_ready_task_get (g_ready_queue s) of
             None \<Rightarrow> add_trap s NullDeref
           | Some t \<Rightarrow> if t = g_active_task s then s
                       else cpu_task_switch (s\<lparr>g_preferred_ready_task := t\<rparr>))"

definition krhino_sched_disable :: "kernel \<Rightarrow> kstat \<times> kernel" where
  "krhino_sched_disable s =
     (if g_intrpt_nested_level s > 0 then (RHINO_NOT_CALLED_BY_INTRPT, s)
      else if g_sched_lock s \<ge> SCHED_MAX_LOCK_COUNT then (RHINO_SCHED_LOCK_COUNT_OVF, s)
      else (RHINO_SUCCESS, s\<lparr>g_sched_lock := g_sched_lock s + 1\<rparr>))"

definition krhino_sched_enable :: "kernel \<Rightarrow> kstat \<times> kernel" where
  "krhino_sched_enable s =
     (if g_intrpt_nested_level s > 0 then (RHINO_NOT_CALLED_BY_INTRPT, s)
      else if g_sched_lock s = 0 then (RHINO_SCHED_ALREADY_ENABLED, s)
      else
        let s1 = s\<lparr>g_sched_lock := g_sched_lock s - 1\<rparr>
        in if g_sched_lock s1 > 0 then (RHINO_SCHED_DISABLE, s1)
           else (RHINO_SUCCESS, core_sched s1))"

text \<open>The round-robin step of the tick: always on the task at the head of the active
  task's ring.\<close>

definition time_slice_update :: "kernel \<Rightarrow> kernel" where
  "time_slice_update s =
     (let task_pri = prio (tcb s (g_active_task s)) in
      case cur_list_item (g_ready_queue s) task_pri of
        [] \<Rightarrow> s
      | [task] \<Rightarrow> s
      | task # _ \<Rightarrow>
          if sched_policy (tcb s task) = KSCHED_FIFO then s
          else
            let s1 = (if time_slice_left (tcb s task) > 0
                      then upd_task s task (\<lambda>k. k\<lparr>time_slice_left := time_slice_left k - 1\<rparr>) else s)
            in if time_slice_left (tcb s1 task) > 0 then s1
               else
                 let s2 = s1\<lparr>g_ready_queue :=
                            ready_list_head_to_tail (g_ready_queue s1) (prio (tcb s1 task))\<rparr>
                 in upd_task s2 task (\<lambda>k. k\<lparr>time_slice_left := time_total k\<rparr>))"

section \<open>What the ready queue holds\<close>

definition rq_holds :: "runqueue_t \<Rightarrow> (nat \<Rightarrow> tid set) \<Rightarrow> bool" where
  "rq_holds rq F \<longleftrightarrow>
     length (task_bit_map rq) = NUM_WORDS \<and>
     (\<forall>p. distinct (cur_list_item rq p) \<and> set (cur_list_item rq p) = F p) \<and>
     (\<forall>p. bitmap_test (task_bit_map rq) p \<longleftrightarrow> F p \<noteq> {}) \<and>
     (\<forall>p. F p \<noteq> {} \<longrightarrow> p < RHINO_CONFIG_PRI_MAX \<and> highest_pri rq \<le> p) \<and>
     (F (highest_pri rq) \<noteq> {} \<or> highest_pri rq = RHINO_CONFIG_PRI_MAX \<and> (\<forall>p. F p = {}))"

lemma rq_holds_ring: "rq_holds rq F \<Longrightarrow> distinct (cur_list_item rq p) \<and> set (cur_list_item rq p) = F p"
  by (simp add: rq_holds_def)

lemma rq_holds_highest:
  "rq_holds rq F \<Longrightarrow> F p \<noteq> {} \<Longrightarrow> F (highest_pri rq) \<noteq> {} \<and> highest_pri rq \<le> p"
  by (auto simp: rq_holds_def)

lemma pri_word: "p < RHINO_CONFIG_PRI_MAX \<Longrightarrow> p div 32 < NUM_WORDS"
  by (simp add: config_defs)

lemma ready_list_init_holds:
  assumes "rq_holds rq F" and "F p = {}" and "p < RHINO_CONFIG_PRI_MAX"
  shows "rq_holds (ready_list_init rq p t) (F(p := {t}))"
  using assms bitmap_test_set [of p "task_bit_map rq"] pri_word [OF assms(3)]
  unfolding rq_holds_def ready_list_init_def
  by (auto simp: le_less_trans not_less)

lemma ready_list_add_tail_holds:
  assumes "rq_holds rq F" and "t \<notin> F p" and "p < RHINO_CONFIG_PRI_MAX"
  shows "rq_holds (ready_list_add_tail rq p t) (F(p := insert t (F p)))"
proof (cases "cur_list_item rq p = []")
  case True
  then have "F p = {}" using rq_holds_ring [OF assms(1), of p] by auto
  with ready_list_init_holds [OF assms(1) this assms(3)] True show ?thesis
    by (simp add: ready_list_add_tail_def is_ready_list_empty_def)
next
  case False
  have "F p \<noteq> {}" using rq_holds_ring [OF assms(1), of p] False by auto
  with assms False show ?thesis
    by (auto simp: rq_holds_def ready_list_add_tail_def is_ready_list_empty_def)
qed

lemma ready_list_add_head_holds:
  assumes "rq_holds rq F" and "t \<notin> F p" and "p < RHINO_CONFIG_PRI_MAX"
  shows "rq_holds (ready_list_add_head rq p t) (F(p := insert t (F p)))"
proof (cases "cur_list_item rq p = []")
  case True
  then have "F p = {}" using rq_holds_ring [OF assms(1), of p] by auto
  with ready_list_init_holds [OF assms(1) this assms(3)] True show ?thesis
    by (simp add: ready_list_add_head_def is_ready_list_empty_def)
next
  case False
  have "F p \<noteq> {}" using rq_holds_ring [OF assms(1), of p] False by auto
  with assms False show ?thesis
    by (auto simp: rq_holds_def ready_list_add_head_def is_ready_list_empty_def)
qed

text \<open>Removing a ready task never reads outside the bitmap as long as some other task is
  ready.\<close>

lemma ready_list_rm_shared:
  assumes h: "rq_holds rq F" and t: "t \<in> F p" and more: "F p \<noteq> {t}"
  shows "snd (ready_list_rm rq p t) = [] \<and>
         rq_holds (fst (ready_list_rm rq p t)) (F(p := F p - {t}))"
proof -
  have r: "distinct (cur_list_item rq p)" "set (cur_list_item rq p) = F p"
    using rq_holds_ring [OF h] by auto
  have ne: "F p - {t} \<noteq> {}" "cur_list_item rq p \<noteq> []" using t more r by auto
  have "length (cur_list_item rq p) \<noteq> 1"
  proof
    assume "length (cur_list_item rq p) = 1"
    then obtain x where "cur_list_item rq p = [x]" by (auto simp: length_Suc_conv)
    then have "F p = {x}" using r(2) by simp
    with t more show False by simp
  qed
  with ne have e: "ready_list_rm rq p t =
      (rq\<lparr>cur_list_item := (cur_list_item rq)(p := remove1 t (cur_list_item rq p))\<rparr>, [])"
    by (simp add: ready_list_rm_def)
  have s: "set (remove1 t (cur_list_item rq p)) = F p - {t}" using r by simp
  show ?thesis
    using h ne(1) r(1) s unfolding e rq_holds_def by (auto simp: distinct_remove1)
qed

lemma ready_list_rm_single:
  assumes h: "rq_holds rq F" and one: "F p = {t}" and other: "q \<noteq> p" "F q \<noteq> {}"
  shows "snd (ready_list_rm rq p t) = [] \<and> rq_holds (fst (ready_list_rm rq p t)) (F(p := {}))"
proof -
  have r: "cur_list_item rq p = [t]"
    using rq_holds_ring [OF h, of p] one by (simp add: distinct_set_single)
  let ?G = "F(p := {})" and ?bm = "krhino_bitmap_clear (task_bit_map rq) p"
  have bm: "bitmap_test ?bm r \<longleftrightarrow> ?G r \<noteq> {}" for r
    using h by (auto simp: rq_holds_def bitmap_test_clear)
  show ?thesis
  proof (cases "p = highest_pri rq")
    case False
    with h r bm other show ?thesis by (auto simp: ready_list_rm_def rq_holds_def Let_def)
  next
    case hp: True
    from other bm [of q] find_first_bit_None [of ?bm] obtain i where
      i: "krhino_find_first_bit ?bm = Some i" by (cases "krhino_find_first_bit ?bm") auto
    from find_first_bit_Some [OF i] bm have Gi: "?G i \<noteq> {}" and lo: "\<And>m. ?G m \<noteq> {} \<Longrightarrow> i \<le> m"
      by (auto simp: not_less [symmetric])
    have e: "ready_list_rm rq p t =
        (rq\<lparr>cur_list_item := (cur_list_item rq)(p := []), task_bit_map := ?bm, highest_pri := i\<rparr>, [])"
      using r hp i by (simp add: ready_list_rm_def Let_def)
    have "\<forall>m. ?G m \<noteq> {} \<longrightarrow> m < RHINO_CONFIG_PRI_MAX" using h by (auto simp: rq_holds_def)
    moreover have "\<forall>m. distinct (((cur_list_item rq)(p := [])) m) \<and>
        set (((cur_list_item rq)(p := [])) m) = ?G m" using rq_holds_ring [OF h] by simp
    moreover have "length ?bm = NUM_WORDS" using h by (simp add: rq_holds_def)
    ultimately show ?thesis using bm Gi lo unfolding e rq_holds_def by simp
  qed
qed

lemma ready_list_rm_holds:
  assumes h: "rq_holds rq F" and t: "t \<in> F p" and other: "F q - (if q = p then {t} else {}) \<noteq> {}"
  shows "snd (ready_list_rm rq p t) = [] \<and>
         rq_holds (fst (ready_list_rm rq p t)) (F(p := F p - {t}))"
proof (cases "F p = {t}")
  case True
  with other have "q \<noteq> p" "F q \<noteq> {}" by (auto split: if_splits)
  with ready_list_rm_single [OF h True] True show ?thesis by simp
qed (rule ready_list_rm_shared [OF h t])

lemma ready_list_head_to_tail_holds:
  "rq_holds rq F \<Longrightarrow> rq_holds (ready_list_head_to_tail rq p) F"
  by (auto simp: rq_holds_def ready_list_head_to_tail_def)

lemma preferred_is_highest:
  assumes "rq_holds rq F" and "F p \<noteq> {}"
  shows "\<exists>t. preferred_cpu_ready_task_get rq = Some t \<and> t \<in> F (highest_pri rq) \<and> highest_pri rq \<le> p"
proof -
  have "F (highest_pri rq) \<noteq> {}" "highest_pri rq \<le> p" using rq_holds_highest [OF assms] by auto
  then show ?thesis using rq_holds_ring [OF assms(1), of "highest_pri rq"]
    by (cases "cur_list_item rq (highest_pri rq)") (auto simp: preferred_cpu_ready_task_get_def)
qed

section \<open>Frames\<close>

lemma rq_add_frame [simp]:
  "tcb (rq_add s t) = tcb s" "blk (rq_add s t) = blk s" "g_tick_list (rq_add s t) = g_tick_list s"
  "g_tick_count (rq_add s t) = g_tick_count s" "sems (rq_add s t) = sems s"
  "mutexes (rq_add s t) = mutexes s" "traps (rq_add s t) = traps s"
  "g_active_task (rq_add s t) = g_active_task s" "g_sched_lock (rq_add s t) = g_sched_lock s"
  "g_intrpt_nested_level (rq_add s t) = g_intrpt_nested_level s"
  "event_flags (rq_add s t) = event_flags s" "queues (rq_add s t) = queues s"
  "buf_queues (rq_add s t) = buf_queues s" "cells (rq_add s t) = cells s" "bufs (rq_add s t) = bufs s"
  "g_sys_stat (rq_add s t) = g_sys_stat s" "g_kobj_list (rq_add s t) = g_kobj_list s"
  by (simp_all add: rq_add_def)

lemma rq_rm_frame [simp]:
  "tcb (rq_rm s t) = tcb s" "blk (rq_rm s t) = blk s" "g_tick_list (rq_rm s t) = g_tick_list s"
  "g_tick_count (rq_rm s t) = g_tick_count s" "sems (rq_rm s t) = sems s"
  "mutexes (rq_rm s t) = mutexes s"
  "g_active_task (rq_rm s t) = g_active_task s" "g_sched_lock (rq_rm s t) = g_sched_lock s"
  "g_intrpt_nested_level (rq_rm s t) = g_intrpt_nested_level s"
  "event_flags (rq_rm s t) = event_flags s" "queues (rq_rm s t) = queues s"
  "buf_queues (rq_rm s t) = buf_queues s" "cells (rq_rm s t) = cells s" "bufs (rq_rm s t) = bufs s"
  "g_sys_stat (rq_rm s t) = g_sys_stat s" "g_kobj_list (rq_rm s t) = g_kobj_list s"
  by (simp_all add: rq_rm_def split_def Let_def)

text \<open>The scheduler only moves the processor: it touches neither tasks nor objects.\<close>

lemma core_sched_frame [simp]:
  "tcb (core_sched s) = tcb s" "blk (core_sched s) = blk s"
  "g_ready_queue (core_sched s) = g_ready_queue s" "g_tick_list (core_sched s) = g_tick_list s"
  "g_tick_count (core_sched s) = g_tick_count s" "sems (core_sched s) = sems s"
  "mutexes (core_sched s) = mutexes s" "g_sched_lock (core_sched s) = g_sched_lock s"
  "g_intrpt_nested_level (core_sched s) = g_intrpt_nested_level s"
  "event_flags (core_sched s) = event_flags s" "queues (core_sched s) = queues s"
  "buf_queues (core_sched s) = buf_queues s" "cells (core_sched s) = cells s"
  "bufs (core_sched s) = bufs s" "g_sys_stat (core_sched s) = g_sys_stat s"
  "g_kobj_list (core_sched s) = g_kobj_list s"
  "g_idle_task_spawned (core_sched s) = g_idle_task_spawned s"
  by (simp_all add: core_sched_def cpu_task_switch_def add_trap_def split: option.splits)

end
