(* ===== verification/K_Tick.thy ===== *)
theory K_Tick
  imports K_Sched
begin

text \<open>
  The tick list of \<open>k_tick.c\<close>: tasks with a timeout, ordered by remaining ticks. The order
  is computed on 64-bit words, relative to the current tick. (The tick itself,
  \<open>tick_list_update\<close>, is in theory \<open>K_Time\<close>, since it may change mutex priorities.)
\<close>

definition tick_list_init :: "kernel \<Rightarrow> kernel" where
  "tick_list_init s = s\<lparr>g_tick_list := []\<rparr>"

definition tick_list_pri_insert :: "kernel \<Rightarrow> tid \<Rightarrow> kernel" where
  "tick_list_pri_insert s t =
     (let val = tick_remain (tcb s t)
      in s\<lparr>g_tick_list :=
             insert_before (\<lambda>u. tick_match (tcb s u) - g_tick_count s > val) t (g_tick_list s)\<rparr>)"

definition tick_list_insert :: "kernel \<Rightarrow> tid \<Rightarrow> u64 \<Rightarrow> kernel" where
  "tick_list_insert s t time =
     (if time > 0 then
        let s1 = upd_task s t (\<lambda>k. k\<lparr>tick_match := g_tick_count s + time, tick_remain := time\<rparr>);
            s2 = tick_list_pri_insert s1 t
        in upd_task s2 t (\<lambda>k. k\<lparr>tick_head := True\<rparr>)
      else s)"

definition tick_list_rm :: "kernel \<Rightarrow> tid \<Rightarrow> kernel" where
  "tick_list_rm s t =
     (if tick_head (tcb s t) then
        upd_task (s\<lparr>g_tick_list := remove1 t (g_tick_list s)\<rparr>) t (\<lambda>k. k\<lparr>tick_head := False\<rparr>)
      else s)"

text \<open>The remaining ticks of a task, and the insertion as an ordered insertion by them.\<close>

definition remaining :: "kernel \<Rightarrow> tid \<Rightarrow> u64" where
  "remaining s t = tick_match (tcb s t) - g_tick_count s"

interpretation tick: ordered_list "remaining s"
  "\<lambda>t xs. g_tick_list (tick_list_pri_insert
     (upd_task (s\<lparr>g_tick_list := xs\<rparr>) t (\<lambda>k. k\<lparr>tick_remain := remaining s t\<rparr>)) t)"
  by unfold_locales
    (auto simp: tick_list_pri_insert_def remaining_def Let_def intro!: insert_before_cong)

lemma tick_list_insert_list:
  assumes "0 < time" and "t \<notin> set (g_tick_list s)"
  shows "g_tick_list (tick_list_insert s t time) =
         insert_before (\<lambda>u. time < remaining s u) t (g_tick_list s)"
  using assms unfolding tick_list_insert_def tick_list_pri_insert_def remaining_def
  by (auto simp: Let_def intro!: insert_before_cong)

lemma tick_list_insert_frame [simp]:
  "g_ready_queue (tick_list_insert s t n) = g_ready_queue s" "blk (tick_list_insert s t n) = blk s"
  "g_tick_count (tick_list_insert s t n) = g_tick_count s" "sems (tick_list_insert s t n) = sems s"
  "mutexes (tick_list_insert s t n) = mutexes s" "traps (tick_list_insert s t n) = traps s"
  "g_active_task (tick_list_insert s t n) = g_active_task s"
  "g_sched_lock (tick_list_insert s t n) = g_sched_lock s"
  "g_intrpt_nested_level (tick_list_insert s t n) = g_intrpt_nested_level s"
  "event_flags (tick_list_insert s t n) = event_flags s" "queues (tick_list_insert s t n) = queues s"
  "buf_queues (tick_list_insert s t n) = buf_queues s" "cells (tick_list_insert s t n) = cells s"
  "bufs (tick_list_insert s t n) = bufs s" "g_sys_stat (tick_list_insert s t n) = g_sys_stat s"
  "g_kobj_list (tick_list_insert s t n) = g_kobj_list s"
  by (simp_all add: tick_list_insert_def tick_list_pri_insert_def Let_def)

lemma tick_list_rm_frame [simp]:
  "g_ready_queue (tick_list_rm s t) = g_ready_queue s" "blk (tick_list_rm s t) = blk s"
  "g_tick_count (tick_list_rm s t) = g_tick_count s" "sems (tick_list_rm s t) = sems s"
  "mutexes (tick_list_rm s t) = mutexes s" "traps (tick_list_rm s t) = traps s"
  "g_active_task (tick_list_rm s t) = g_active_task s"
  "g_sched_lock (tick_list_rm s t) = g_sched_lock s"
  "g_intrpt_nested_level (tick_list_rm s t) = g_intrpt_nested_level s"
  "event_flags (tick_list_rm s t) = event_flags s" "queues (tick_list_rm s t) = queues s"
  "buf_queues (tick_list_rm s t) = buf_queues s" "cells (tick_list_rm s t) = cells s"
  "bufs (tick_list_rm s t) = bufs s" "g_sys_stat (tick_list_rm s t) = g_sys_stat s"
  "g_kobj_list (tick_list_rm s t) = g_kobj_list s"
  by (simp_all add: tick_list_rm_def)

lemma tick_list_rm_tcb:
  "tcb (tick_list_rm s t) = (tcb s)(t := (tcb s t)\<lparr>tick_head := False\<rparr>)"
  by (auto simp: tick_list_rm_def fun_eq_iff)

end
