(* ===== verification/K_Pend.thy ===== *)
theory K_Pend
  imports K_Tick
begin

text \<open>
  Blocking and waking, \<open>k_pend.c\<close>: a task joins the block list of an object (by priority
  or in arrival order), leaves it when it is woken, when the object is deleted or when its
  priority changes.
\<close>

definition pend_list_add :: "kernel \<Rightarrow> oid \<Rightarrow> tid \<Rightarrow> kernel" where
  "pend_list_add s ob t =
     upd_blk s ob (\<lambda>b. b\<lparr>blk_list :=
       insert_before (\<lambda>u. prio (tcb s u) > prio (tcb s t)) t (blk_list b)\<rparr>)"

definition pend_task_wakeup :: "kernel \<Rightarrow> tid \<Rightarrow> kernel" where
  "pend_task_wakeup s t =
     (let s1 = (case task_state (tcb s t) of
                  K_PEND \<Rightarrow> upd_task (rq_add (blk_list_rm s t) t) t (\<lambda>k. k\<lparr>task_state := K_RDY\<rparr>)
                | K_PEND_SUSPENDED \<Rightarrow> upd_task (blk_list_rm s t) t (\<lambda>k. k\<lparr>task_state := K_SUSPENDED\<rparr>)
                | _ \<Rightarrow> k_err_proc s RHINO_SYS_FATAL_ERR);
          s2 = tick_list_rm s1 t
      in upd_task s2 t (\<lambda>k. k\<lparr>blk_state := BLK_FINISH, blk_obj := None\<rparr>))"

definition pend_to_blk_obj :: "kernel \<Rightarrow> oid \<Rightarrow> tid \<Rightarrow> u64 \<Rightarrow> kernel" where
  "pend_to_blk_obj s ob t timeout =
     (let s1 = upd_task s t (\<lambda>k. k\<lparr>blk_obj := Some ob\<rparr>);
          s2 = (if timeout \<noteq> RHINO_WAIT_FOREVER then tick_list_insert s1 t timeout else s1);
          s3 = upd_task s2 t (\<lambda>k. k\<lparr>task_state := K_PEND\<rparr>);
          s4 = rq_rm s3 t
      in if blk_policy (blk s4 ob) = BLK_POLICY_FIFO
         then upd_blk s4 ob (\<lambda>b. b\<lparr>blk_list := blk_list b @ [t]\<rparr>)
         else pend_list_add s4 ob t)"

definition pend_task_rm :: "kernel \<Rightarrow> tid \<Rightarrow> kernel" where
  "pend_task_rm s t =
     (let s1 = (case task_state (tcb s t) of
                  K_PEND \<Rightarrow> upd_task (rq_add (blk_list_rm s t) t) t (\<lambda>k. k\<lparr>task_state := K_RDY\<rparr>)
                | K_PEND_SUSPENDED \<Rightarrow> upd_task (blk_list_rm s t) t (\<lambda>k. k\<lparr>task_state := K_SUSPENDED\<rparr>)
                | _ \<Rightarrow> k_err_proc s RHINO_SYS_FATAL_ERR);
          s2 = tick_list_rm s1 t
      in upd_task s2 t (\<lambda>k. k\<lparr>blk_state := BLK_DEL, blk_obj := None\<rparr>))"

definition pend_list_reorder :: "kernel \<Rightarrow> tid \<Rightarrow> kernel" where
  "pend_list_reorder s t =
     (case blk_obj (tcb s t) of
        None \<Rightarrow> add_trap s NullDeref
      | Some ob \<Rightarrow>
          if blk_policy (blk s ob) = BLK_POLICY_PRI
          then pend_list_add (blk_list_rm s t) ob t else s)"

text \<open>The second half of every blocking service, run by the task once it is switched in
  again. The object is \<open>None\<close> for a sleep.\<close>

definition pend_state_end_proc :: "kernel \<Rightarrow> tid \<Rightarrow> oid option \<Rightarrow> kstat \<times> kernel" where
  "pend_state_end_proc s t ob =
     (let (status, s1) = (case blk_state (tcb s t) of
            BLK_FINISH \<Rightarrow> (RHINO_SUCCESS, s)
          | BLK_ABORT \<Rightarrow> (RHINO_BLK_ABORT, s)
          | BLK_TIMEOUT \<Rightarrow> (RHINO_BLK_TIMEOUT, s)
          | BLK_DEL \<Rightarrow> (RHINO_BLK_DEL, s)
          | BLK_INVALID \<Rightarrow> (RHINO_BLK_INV_STATE, k_err_proc s RHINO_BLK_INV_STATE))
      in case ob of
           None \<Rightarrow> (if cancel (tcb s t) = 1 then RHINO_TASK_CANCELED else status, s1)
         | Some o' \<Rightarrow> (if cancel (tcb s t) = 1 \<and> obj_cancel (blk s o') = 1
                      then RHINO_TASK_CANCELED else status, s1))"

text \<open>The loop \<open>while (!is_klist_empty(head)) f(first task)\<close> over a block list. The C loop
  ends only if every call takes the head off the list; the model runs it once per member of
  the list it starts with, and records a divergence if a member is left.\<close>

fun wake_loop :: "(kernel \<Rightarrow> tid \<Rightarrow> kernel) \<Rightarrow> nat \<Rightarrow> oid \<Rightarrow> kernel \<Rightarrow> kernel" where
  "wake_loop f 0 ob s = (if blk_list (blk s ob) = [] then s else add_trap s Diverged)"
| "wake_loop f (Suc n) ob s =
     (case blk_list (blk s ob) of [] \<Rightarrow> s | t # _ \<Rightarrow> wake_loop f n ob (f s t))"

definition wake_all :: "(kernel \<Rightarrow> tid \<Rightarrow> kernel) \<Rightarrow> oid \<Rightarrow> kernel \<Rightarrow> kernel" where
  "wake_all f ob s = wake_loop f (length (blk_list (blk s ob))) ob s"

section \<open>Ordered block lists\<close>

interpretation pend: ordered_list "\<lambda>u. prio (tcb s u)"
  "\<lambda>t xs. blk_list (blk (pend_list_add (upd_blk s ob (\<lambda>b. b\<lparr>blk_list := xs\<rparr>)) ob t) ob)"
  by unfold_locales (simp add: pend_list_add_def)

section \<open>Frames\<close>

lemma blk_list_rm_frame [simp]:
  "tcb (blk_list_rm s t) = tcb s" "g_ready_queue (blk_list_rm s t) = g_ready_queue s"
  "g_tick_list (blk_list_rm s t) = g_tick_list s" "g_tick_count (blk_list_rm s t) = g_tick_count s"
  "sems (blk_list_rm s t) = sems s" "mutexes (blk_list_rm s t) = mutexes s"
  "traps (blk_list_rm s t) = traps s" "g_active_task (blk_list_rm s t) = g_active_task s"
  "g_sched_lock (blk_list_rm s t) = g_sched_lock s"
  "g_intrpt_nested_level (blk_list_rm s t) = g_intrpt_nested_level s"
  "event_flags (blk_list_rm s t) = event_flags s" "queues (blk_list_rm s t) = queues s"
  "buf_queues (blk_list_rm s t) = buf_queues s" "cells (blk_list_rm s t) = cells s"
  "bufs (blk_list_rm s t) = bufs s" "g_sys_stat (blk_list_rm s t) = g_sys_stat s"
  "g_kobj_list (blk_list_rm s t) = g_kobj_list s"
  by (simp_all add: blk_list_rm_def)

lemma blk_list_rm_blk [simp]:
  "blk_list (blk (blk_list_rm s t) ob) = remove1 t (blk_list (blk s ob))"
  "blk_policy (blk (blk_list_rm s t) ob) = blk_policy (blk s ob)"
  "obj_type (blk (blk_list_rm s t) ob) = obj_type (blk s ob)"
  "obj_cancel (blk (blk_list_rm s t) ob) = obj_cancel (blk s ob)"
  "obj_mm_flag (blk (blk_list_rm s t) ob) = obj_mm_flag (blk s ob)"
  by (simp_all add: blk_list_rm_def)

lemma k_err_proc_frame [simp]:
  "tcb (k_err_proc s e) = tcb s" "g_ready_queue (k_err_proc s e) = g_ready_queue s"
  "g_tick_list (k_err_proc s e) = g_tick_list s" "g_tick_count (k_err_proc s e) = g_tick_count s"
  "sems (k_err_proc s e) = sems s" "mutexes (k_err_proc s e) = mutexes s"
  "blk (k_err_proc s e) = blk s" "g_active_task (k_err_proc s e) = g_active_task s"
  "event_flags (k_err_proc s e) = event_flags s" "queues (k_err_proc s e) = queues s"
  "buf_queues (k_err_proc s e) = buf_queues s" "traps (k_err_proc s e) = traps s @ [Fatal e]"
  by (simp_all add: k_err_proc_def add_trap_def)

end
