(* ===== verification/Kernel_Inv.thy ===== *)
theory Kernel_Inv
  imports K_Pend
begin

text \<open>
  The well-formedness invariant of the kernel state: the ready rings hold exactly the ready
  tasks at their priority, each block list exactly the tasks blocked on its object (by
  priority where the policy asks for it), the tick list exactly the tasks with a timeout,
  in order. The section on transitions shows it for the moves every service is built from:
  block, unblock, change of a task's state, change of priority.
\<close>

section \<open>The invariant\<close>

definition ready_set :: "kernel \<Rightarrow> nat \<Rightarrow> tid set" where
  "ready_set s p = {t. task_state (tcb s t) = K_RDY \<and> prio (tcb s t) = p}"

definition wait_set :: "kernel \<Rightarrow> oid \<Rightarrow> tid set" where
  "wait_set s ob = {t. blocked (tcb s t) \<and> blk_obj (tcb s t) = Some ob}"

text \<open>An object in use has waiters only while it has nothing to give: this is what each
  service checks before it blocks its caller. (Deletion clears the type before it wakes the
  waiters; that they are all gone in the end is the predicate \<open>settled\<close> below.)\<close>

definition waitable :: "kernel \<Rightarrow> oid \<Rightarrow> bool" where
  "waitable s ob \<longleftrightarrow>
     (case obj_type (blk s ob) of
        RHINO_SEM_OBJ_TYPE \<Rightarrow> count (sems s ob) = 0
      | RHINO_MUTEX_OBJ_TYPE \<Rightarrow> mutex_task (mutexes s ob) \<noteq> None
      | RHINO_QUEUE_OBJ_TYPE \<Rightarrow> cur_num (msg_q (queues s ob)) = 0
      | RHINO_BUF_QUEUE_OBJ_TYPE \<Rightarrow> bq_cur_num (buf_queues s ob) = 0
      | _ \<Rightarrow> True)"

definition settled :: "kernel \<Rightarrow> bool" where
  "settled s \<longleftrightarrow>
     (\<forall>ob. obj_type (blk s ob) \<in> {RHINO_OBJ_TYPE_NONE, RHINO_TIMER_OBJ_TYPE, RHINO_MM_OBJ_TYPE} \<longrightarrow>
           blk_list (blk s ob) = [])"

lemma waitable_cong:
  "obj_type (blk s' ob) = obj_type (blk s ob) \<Longrightarrow> sems s' = sems s \<Longrightarrow> mutexes s' = mutexes s \<Longrightarrow>
   queues s' = queues s \<Longrightarrow> buf_queues s' = buf_queues s \<Longrightarrow> waitable s' ob = waitable s ob"
  by (simp add: waitable_def split: kobj_type_t.split)

text \<open>Priorities are in range, and only the idle task has the idle priority, for good.\<close>

definition prio_ok :: "ktask \<Rightarrow> bool" where
  "prio_ok k \<longleftrightarrow> prio k < RHINO_CONFIG_PRI_MAX \<and> b_prio k < RHINO_CONFIG_PRI_MAX \<and>
     (prio k = RHINO_IDLE_PRI \<longleftrightarrow> b_prio k = RHINO_IDLE_PRI)"

definition prio_inv :: "kernel \<Rightarrow> bool" where
  "prio_inv s \<longleftrightarrow> (\<forall>t. prio_ok (tcb s t))"

definition rq_inv :: "kernel \<Rightarrow> bool" where
  "rq_inv s \<longleftrightarrow> rq_holds (g_ready_queue s) (ready_set s) \<and> ready_set s RHINO_IDLE_PRI \<noteq> {}"

definition blk_inv :: "kernel \<Rightarrow> bool" where
  "blk_inv s \<longleftrightarrow>
     (\<forall>ob. distinct (blk_list (blk s ob)) \<and> set (blk_list (blk s ob)) = wait_set s ob
         \<and> (blk_policy (blk s ob) = BLK_POLICY_PRI \<longrightarrow>
            sorted_wrt (\<lambda>t u. prio (tcb s t) \<le> prio (tcb s u)) (blk_list (blk s ob)))) \<and>
     (\<forall>t. blocked (tcb s t) \<longrightarrow> blk_obj (tcb s t) \<noteq> None)"

definition tick_inv :: "kernel \<Rightarrow> bool" where
  "tick_inv s \<longleftrightarrow>
     distinct (g_tick_list s) \<and> set (g_tick_list s) = {t. tick_head (tcb s t)} \<and>
     (\<forall>t. tick_head (tcb s t) \<longrightarrow> (blocked (tcb s t) \<or> sleeping (tcb s t)) \<and> remaining s t \<noteq> 0) \<and>
     (\<forall>t. sleeping (tcb s t) \<longrightarrow> tick_head (tcb s t)) \<and>
     sorted_wrt (\<lambda>t u. remaining s t \<le> remaining s u) (g_tick_list s)"

definition obj_inv :: "kernel \<Rightarrow> bool" where
  "obj_inv s \<longleftrightarrow> (\<forall>ob. blk_list (blk s ob) \<noteq> [] \<longrightarrow> waitable s ob)"

definition kinv :: "kernel \<Rightarrow> bool" where
  "kinv s \<longleftrightarrow> prio_inv s \<and> rq_inv s \<and> blk_inv s \<and> tick_inv s \<and> obj_inv s"

lemmas inv_defs = kinv_def prio_inv_def rq_inv_def blk_inv_def tick_inv_def obj_inv_def

text \<open>The invariant reads only these parts of the state.\<close>

definition task_view :: "ktask \<Rightarrow> task_stat_t \<times> nat \<times> nat \<times> oid option \<times> bool \<times> u64" where
  "task_view k = (task_state k, prio k, b_prio k, blk_obj k, tick_head k, tick_match k)"

definition same_view :: "kernel \<Rightarrow> kernel \<Rightarrow> bool" where
  "same_view s s' \<longleftrightarrow>
     (\<forall>t. task_view (tcb s' t) = task_view (tcb s t)) \<and>
     g_ready_queue s' = g_ready_queue s \<and> blk s' = blk s \<and> g_tick_list s' = g_tick_list s \<and>
     g_tick_count s' = g_tick_count s"

lemma kinv_same_view:
  assumes v: "same_view s s'" and k: "kinv s" and w: "\<And>ob. waitable s ob \<Longrightarrow> waitable s' ob"
  shows "kinv s'"
proof -
  have t: "task_state (tcb s' t) = task_state (tcb s t)" "prio (tcb s' t) = prio (tcb s t)"
    "b_prio (tcb s' t) = b_prio (tcb s t)" "blk_obj (tcb s' t) = blk_obj (tcb s t)"
    "tick_head (tcb s' t) = tick_head (tcb s t)" "tick_match (tcb s' t) = tick_match (tcb s t)" for t
    using v by (auto simp: same_view_def task_view_def)
  have e: "ready_set s' = ready_set s" "wait_set s' = wait_set s"
    "\<And>t. blocked (tcb s' t) = blocked (tcb s t)" "\<And>t. sleeping (tcb s' t) = sleeping (tcb s t)"
    "remaining s' = remaining s"
    using v by (auto simp: fun_eq_iff ready_set_def wait_set_def blocked_def sleeping_def remaining_def
        same_view_def t)
  show ?thesis using k v w unfolding inv_defs same_view_def by (simp add: t e prio_ok_def)
qed

lemma kinv_core_sched [simp]: "kinv (core_sched s) = kinv s"
proof -
  have "waitable (core_sched s) = waitable s" by (rule ext) (rule waitable_cong; simp)
  moreover have "same_view s (core_sched s)" "same_view (core_sched s) s" by (simp_all add: same_view_def)
  ultimately show ?thesis using kinv_same_view by metis
qed

lemma kinv_upd_task_view:
  assumes "kinv s" and "task_view (f (tcb s t)) = task_view (tcb s t)"
  shows "kinv (upd_task s t f)"
proof (rule kinv_same_view [OF _ assms(1)])
  show "same_view s (upd_task s t f)" using assms(2) by (simp add: same_view_def)
  show "waitable (upd_task s t f) ob" if "waitable s ob" for ob
    using that waitable_cong [of "upd_task s t f" ob s] by simp
qed

section \<open>Consequences\<close>

lemma kinv_ready:
  "kinv s \<Longrightarrow> rq_holds (g_ready_queue s) (ready_set s) \<and> ready_set s RHINO_IDLE_PRI \<noteq> {}"
  by (simp add: kinv_def rq_inv_def)

lemma kinv_wait_list:
  "kinv s \<Longrightarrow> set (blk_list (blk s ob)) = wait_set s ob \<and> distinct (blk_list (blk s ob))"
  by (simp add: kinv_def blk_inv_def)

lemma kinv_waiting_on:
  "kinv s \<Longrightarrow> t \<in> set (blk_list (blk s ob)) \<Longrightarrow> blocked (tcb s t) \<and> blk_obj (tcb s t) = Some ob"
  using kinv_wait_list [of s ob] by (simp add: wait_set_def)

lemma blocked_exclusive:
  "blocked k \<Longrightarrow> task_state k \<noteq> K_RDY \<and> \<not> sleeping k"
  by (auto simp: blocked_def sleeping_def)

text \<open>Whenever the scheduler is free to choose, the active task is the head of the ready
  ring of the best priority.\<close>

lemma core_sched_best:
  assumes k: "kinv s" and "g_sched_lock s = 0" and "g_intrpt_nested_level s = 0"
  shows "traps (core_sched s) = traps s \<and>
         task_state (tcb (core_sched s) (g_active_task (core_sched s))) = K_RDY \<and>
         (\<forall>t. task_state (tcb s t) = K_RDY \<longrightarrow>
              prio (tcb s (g_active_task (core_sched s))) \<le> prio (tcb s t))"
proof -
  have h: "rq_holds (g_ready_queue s) (ready_set s)" and i: "ready_set s RHINO_IDLE_PRI \<noteq> {}"
    using kinv_ready [OF k] by auto
  obtain t where t: "preferred_cpu_ready_task_get (g_ready_queue s) = Some t"
    and m: "t \<in> ready_set s (highest_pri (g_ready_queue s))"
    using preferred_is_highest [OF h i] by auto
  have a: "g_active_task (core_sched s) = t" "traps (core_sched s) = traps s"
    using assms t by (auto simp: core_sched_def cpu_task_switch_def)
  have "prio (tcb s t) \<le> prio (tcb s u)" if "task_state (tcb s u) = K_RDY" for u
    using that m rq_holds_highest [OF h, of "prio (tcb s u)"] by (auto simp: ready_set_def)
  with a m show ?thesis by (simp add: ready_set_def)
qed

lemma core_sched_traps [simp]: "kinv s \<Longrightarrow> traps (core_sched s) = traps s"
proof (cases "g_intrpt_nested_level s > 0 \<or> g_sched_lock s > 0")
  case True
  then show ?thesis by (auto simp: core_sched_def)
next
  case False
  then have "g_sched_lock s = 0" "g_intrpt_nested_level s = 0" by (simp_all add: word_gt_0)
  then show "kinv s \<Longrightarrow> traps (core_sched s) = traps s" using core_sched_best by blast
qed

section \<open>Transitions\<close>

lemma Collect_fun_upd:
  "{u. P ((f(t := v)) u)} = (if P v then insert t {u. P (f u)} else {u. P (f u)} - {t})"
  by auto

lemma remove1_neq_Nil: "remove1 x xs \<noteq> [] \<Longrightarrow> xs \<noteq> []"
  by auto

text \<open>A task that was not ready leaves its block list and the tick list (if it was on any) and
  becomes ready, suspended or deleted, possibly at another priority. Wake-up, deletion of the
  object, timeout, abort, resume and creation are all this move.\<close>

lemma detach_kinv:
  assumes k: "kinv s" and ns: "task_state (tcb s t) \<noteq> K_RDY"
    and tc: "tcb s' = (tcb s)(t := k')"
    and pr: "prio_ok k'" "\<not> tick_head k'"
    and st: "task_state k' = K_RDY \<and> g_ready_queue s' = ready_list_add (g_ready_queue s) (prio k') t
             \<or> task_state k' \<in> {K_SUSPENDED, K_DELETED} \<and> g_ready_queue s' = g_ready_queue s"
    and bl: "\<And>ob. blk_list (blk s' ob) = remove1 t (blk_list (blk s ob))"
      "\<And>ob. blk_policy (blk s' ob) = blk_policy (blk s ob)"
    and tl: "g_tick_list s' = remove1 t (g_tick_list s)" "g_tick_count s' = g_tick_count s"
    and w: "\<And>ob. waitable s ob \<Longrightarrow> blk_list (blk s' ob) \<noteq> [] \<Longrightarrow> waitable s' ob"
  shows "kinv s'"
proof -
  have nb: "\<not> blocked k'" "\<not> sleeping k'" using st by (auto simp: blocked_def sleeping_def)
  have rs: "ready_set s' = (if task_state k' = K_RDY
      then (ready_set s)(prio k' := insert t (ready_set s (prio k'))) else ready_set s)"
    using ns pr by (auto simp: fun_eq_iff ready_set_def tc)
  have "rq_inv s'"
  proof (cases "task_state k' = K_RDY")
    case True
    then have "g_ready_queue s' = ready_list_add_tail (g_ready_queue s) (prio k') t"
      using st by (auto simp: ready_list_add_def)
    moreover have "t \<notin> ready_set s (prio k')" using ns by (simp add: ready_set_def)
    ultimately have "rq_holds (g_ready_queue s') (ready_set s')"
      using ready_list_add_tail_holds [of "g_ready_queue s" "ready_set s"] kinv_ready [OF k] True rs pr
      by (simp add: prio_ok_def)
    with True rs kinv_ready [OF k] show ?thesis by (auto simp: rq_inv_def)
  next
    case False
    with st have "g_ready_queue s' = g_ready_queue s" by auto
    with k False rs show ?thesis by (simp add: kinv_def rq_inv_def)
  qed
  moreover have "prio_inv s'" using k pr by (auto simp: kinv_def prio_inv_def tc)
  moreover have ws: "wait_set s' ob = wait_set s ob - {t}" for ob
    using nb by (auto simp: wait_set_def tc)
  have pu: "prio (tcb s' u) = prio (tcb s u)" if "u \<noteq> t" for u using that by (simp add: tc)
  have so: "sorted_wrt (\<lambda>u v. prio (tcb s' u) \<le> prio (tcb s' v)) xs
      = sorted_wrt (\<lambda>u v. prio (tcb s u) \<le> prio (tcb s v)) xs" if "t \<notin> set xs" for xs
    using that by (intro sorted_wrt_key_cong) (metis pu)
  have "blk_inv s'"
    using k ws nb so unfolding kinv_def blk_inv_def bl by (auto simp: sorted_wrt_remove1 tc)
  moreover have rm: "remaining s' u = remaining s u" if "u \<noteq> t" for u
    using that by (simp add: remaining_def tc tl)
  have "tick_inv s'"
  proof -
    have d: "distinct (g_tick_list s)" using k by (simp add: kinv_def tick_inv_def)
    have "sorted_wrt (\<lambda>u v. remaining s u \<le> remaining s v) (g_tick_list s')"
      using k tl by (simp add: kinv_def tick_inv_def sorted_wrt_remove1)
    moreover have "t \<notin> set (g_tick_list s')" using d tl by simp
    ultimately have "sorted_wrt (\<lambda>u v. remaining s' u \<le> remaining s' v) (g_tick_list s')"
      using sorted_wrt_key_cong [of "g_tick_list s'" "remaining s'" "remaining s"] rm by metis
    with k tl nb pr rm show ?thesis
      by (auto simp: kinv_def tick_inv_def tc)
  qed
  moreover have "obj_inv s'"
    unfolding obj_inv_def
  proof (intro allI impI)
    fix ob assume ne: "blk_list (blk s' ob) \<noteq> []"
    then have "blk_list (blk s ob) \<noteq> []" using remove1_neq_Nil by (auto simp: bl)
    with k ne w show "waitable s' ob" by (simp add: kinv_def obj_inv_def)
  qed
  ultimately show ?thesis by (simp add: kinv_def)
qed

text \<open>On a task that is on no list, the removals of the lemma above are no-ops.\<close>

lemma not_blocked_remove1:
  "kinv s \<Longrightarrow> \<not> blocked (tcb s t) \<Longrightarrow> remove1 t (blk_list (blk s ob)) = blk_list (blk s ob)"
  using kinv_waiting_on [of s t ob] by (metis remove1_idem)

lemma not_ticking_remove1:
  "kinv s \<Longrightarrow> \<not> tick_head (tcb s t) \<Longrightarrow> remove1 t (g_tick_list s) = g_tick_list s"
  by (metis (mono_tags) kinv_def tick_inv_def mem_Collect_eq remove1_idem)

lemma tick_list_rm_list:
  "kinv s \<Longrightarrow> g_tick_list s' = g_tick_list s \<Longrightarrow> tick_head (tcb s' t) = tick_head (tcb s t) \<Longrightarrow>
   g_tick_list (tick_list_rm s' t) = remove1 t (g_tick_list s)"
  using not_ticking_remove1 [of s t] by (simp add: tick_list_rm_def)

text \<open>A state change that moves no list entry (suspend or resume of a waiting task).\<close>

lemma restate_kinv:
  assumes k: "kinv s"
    and f: "task_state (f (tcb s t)) \<noteq> K_RDY" "task_state (tcb s t) \<noteq> K_RDY"
      "blocked (f (tcb s t)) = blocked (tcb s t)" "sleeping (f (tcb s t)) = sleeping (tcb s t)"
      "prio (f (tcb s t)) = prio (tcb s t)" "b_prio (f (tcb s t)) = b_prio (tcb s t)"
      "blk_obj (f (tcb s t)) = blk_obj (tcb s t)" "tick_head (f (tcb s t)) = tick_head (tcb s t)"
      "tick_match (f (tcb s t)) = tick_match (tcb s t)"
  shows "kinv (upd_task s t f)"
proof -
  let ?s = "upd_task s t f"
  have e: "ready_set ?s = ready_set s" "wait_set ?s = wait_set s" "remaining ?s = remaining s"
    using f by (auto simp: fun_eq_iff ready_set_def wait_set_def remaining_def)
  have v: "prio (tcb ?s u) = prio (tcb s u)" "b_prio (tcb ?s u) = b_prio (tcb s u)"
    "blk_obj (tcb ?s u) = blk_obj (tcb s u)" "blocked (tcb ?s u) = blocked (tcb s u)"
    "sleeping (tcb ?s u) = sleeping (tcb s u)" "tick_head (tcb ?s u) = tick_head (tcb s u)" for u
    using f by auto
  have w: "waitable ?s ob = waitable s ob" for ob by (rule waitable_cong) simp_all
  have po: "prio_ok (tcb ?s u) = prio_ok (tcb s u)" for u unfolding prio_ok_def v by (rule refl)
  show ?thesis using k unfolding inv_defs e po v w by simp
qed

section \<open>Leaving the ready state\<close>

lemma rq_rm_holds:
  assumes k: "kinv s" and r: "task_state (tcb s t) = K_RDY" and p: "prio (tcb s t) \<noteq> RHINO_IDLE_PRI"
  shows "traps (rq_rm s t) = traps s \<and>
         rq_holds (g_ready_queue (rq_rm s t))
           ((ready_set s)(prio (tcb s t) := ready_set s (prio (tcb s t)) - {t}))"
proof -
  have m: "t \<in> ready_set s (prio (tcb s t))" using r by (simp add: ready_set_def)
  have "ready_set s RHINO_IDLE_PRI - (if RHINO_IDLE_PRI = prio (tcb s t) then {t} else {}) \<noteq> {}"
    using kinv_ready [OF k] p by auto
  from ready_list_rm_holds [OF _ m this] kinv_ready [OF k] show ?thesis
    by (auto simp: rq_rm_def Let_def split_def)
qed

lemma ready_not_waiting:
  assumes k: "kinv s" and r: "task_state (tcb s t) = K_RDY"
  shows "\<not> tick_head (tcb s t)" "t \<notin> set (g_tick_list s)" "t \<notin> set (blk_list (blk s ob))"
    "\<not> blocked (tcb s t)" "\<not> sleeping (tcb s t)"
proof -
  show n: "\<not> blocked (tcb s t)" "\<not> sleeping (tcb s t)" using r by (auto simp: blocked_def sleeping_def)
  show h: "\<not> tick_head (tcb s t)" using k n by (auto simp: kinv_def tick_inv_def)
  show "t \<notin> set (g_tick_list s)" using k h by (simp add: kinv_def tick_inv_def)
  show "t \<notin> set (blk_list (blk s ob))" using kinv_waiting_on [OF k] n by blast
qed

text \<open>What becomes of the ready queue when a ready task stops being ready.\<close>

lemma unready_rq_inv:
  assumes k: "kinv s" and r: "task_state (tcb s t) = K_RDY" and p: "prio (tcb s t) \<noteq> RHINO_IDLE_PRI"
    and tc: "tcb s' = (tcb s)(t := k')" and st: "task_state k' \<noteq> K_RDY"
    and q: "g_ready_queue s' = g_ready_queue (rq_rm s t)"
  shows "rq_inv s'"
proof -
  have "ready_set s' = (ready_set s)(prio (tcb s t) := ready_set s (prio (tcb s t)) - {t})"
    using st by (auto simp: fun_eq_iff ready_set_def tc)
  with rq_rm_holds [OF k r p] kinv_ready [OF k] p show ?thesis by (simp add: rq_inv_def q)
qed

lemma retire_kinv:
  assumes k: "kinv s" and r: "task_state (tcb s t) = K_RDY" and p: "prio (tcb s t) \<noteq> RHINO_IDLE_PRI"
    and tc: "tcb s' = (tcb s)(t := k')" and st: "task_state k' \<in> {K_SUSPENDED, K_DELETED}"
    and pr: "prio_ok k'" "\<not> tick_head k'"
    and q: "g_ready_queue s' = g_ready_queue (rq_rm s t)"
    and fr: "blk s' = blk s" "g_tick_list s' = g_tick_list s" "g_tick_count s' = g_tick_count s"
    and w: "\<And>ob. waitable s ob \<Longrightarrow> waitable s' ob"
  shows "kinv s'"
proof -
  note nw = ready_not_waiting [OF k r]
  have nb: "\<not> blocked k'" "\<not> sleeping k'" using st by (auto simp: blocked_def sleeping_def)
  have "rq_inv s'" using unready_rq_inv [OF k r p tc _ q] st by auto
  moreover have "prio_inv s'" using k pr by (auto simp: kinv_def prio_inv_def tc)
  moreover have ws: "wait_set s' ob = wait_set s ob" for ob
    using nb nw by (auto simp: wait_set_def tc)
  have so: "sorted_wrt (\<lambda>u v. prio (tcb s' u) \<le> prio (tcb s' v)) (blk_list (blk s ob))
      = sorted_wrt (\<lambda>u v. prio (tcb s u) \<le> prio (tcb s v)) (blk_list (blk s ob))" for ob
    using nw(3) [of ob] by (intro sorted_wrt_key_cong) (auto simp: tc)
  have "blk_inv s'" using k ws nb so unfolding kinv_def blk_inv_def fr by (auto simp: tc)
  moreover have "tick_inv s'"
  proof -
    have rm: "remaining s' u = remaining s u" if "u \<in> set (g_tick_list s)" for u
      using that nw(2) by (auto simp: remaining_def tc fr)
    have so': "sorted_wrt (\<lambda>u v. remaining s' u \<le> remaining s' v) (g_tick_list s)
        = sorted_wrt (\<lambda>u v. remaining s u \<le> remaining s v) (g_tick_list s)"
      using rm by (intro sorted_wrt_key_cong) auto
    show ?thesis
      using k nw nb pr unfolding tick_inv_def fr so' kinv_def
      by (auto simp: tc remaining_def fr)
  qed
  moreover have "obj_inv s'" using k w by (simp add: kinv_def obj_inv_def fr)
  ultimately show ?thesis by (simp add: kinv_def)
qed

text \<open>Going to sleep or blocking on an object, with or without a timeout.\<close>

lemma enter_wait_kinv:
  assumes k: "kinv s" and r: "task_state (tcb s t) = K_RDY" and p: "prio (tcb s t) \<noteq> RHINO_IDLE_PRI"
    and tc: "tcb s' = (tcb s)(t := k')"
    and pr: "prio k' = prio (tcb s t)" "b_prio k' = b_prio (tcb s t)"
    and q: "g_ready_queue s' = g_ready_queue (rq_rm s t)"
    and bl: "task_state k' = K_PEND \<and> blk_obj k' = Some ob \<and> waitable s ob \<and>
               blk s' = (blk s)(ob := (blk s ob)\<lparr>blk_list :=
                 (if blk_policy (blk s ob) = BLK_POLICY_FIFO then blk_list (blk s ob) @ [t]
                  else insert_before (\<lambda>u. prio (tcb s t) < prio (tcb s u)) t (blk_list (blk s ob)))\<rparr>)
             \<or> task_state k' = K_SLEEP \<and> blk s' = blk s"
    and tl: "tick_head k' \<and> to \<noteq> 0 \<and> tick_match k' = g_tick_count s + to \<and>
               g_tick_list s' = insert_before (\<lambda>u. to < remaining s u) t (g_tick_list s)
             \<or> \<not> tick_head k' \<and> task_state k' = K_PEND \<and> g_tick_list s' = g_tick_list s"
    and fr: "g_tick_count s' = g_tick_count s"
    and w: "\<And>ob. waitable s ob \<Longrightarrow> waitable s' ob"
  shows "kinv s'"
proof -
  note nw = ready_not_waiting [OF k r]
  have st: "task_state k' \<noteq> K_RDY" using bl by auto
  have bs: "blocked k' \<longleftrightarrow> task_state k' = K_PEND" "sleeping k' \<longleftrightarrow> task_state k' = K_SLEEP"
    using bl by (auto simp: blocked_def sleeping_def)
  have pu: "prio (tcb s' u) = prio (tcb s u)" "b_prio (tcb s' u) = b_prio (tcb s u)" for u
    using pr by (simp_all add: tc)
  have "rq_inv s'" by (rule unready_rq_inv [OF k r p tc st q])
  moreover have "prio_inv s'" using k by (simp add: kinv_def prio_inv_def prio_ok_def pu)
  moreover have "blk_inv s'"
  proof (cases "task_state k' = K_PEND")
    case True
    then have b: "blk_obj k' = Some ob" "blk s' = (blk s)(ob := (blk s ob)\<lparr>blk_list :=
                 (if blk_policy (blk s ob) = BLK_POLICY_FIFO then blk_list (blk s ob) @ [t]
                  else insert_before (\<lambda>u. prio (tcb s t) < prio (tcb s u)) t (blk_list (blk s ob)))\<rparr>)"
      using bl by auto
    have ws: "wait_set s' o' = (if o' = ob then insert t (wait_set s ob) else wait_set s o')" for o'
      using True bs b nw by (auto simp: wait_set_def tc)
    have old: "distinct (blk_list (blk s o'))" "set (blk_list (blk s o')) = wait_set s o'"
      "blk_policy (blk s o') = BLK_POLICY_PRI \<longrightarrow>
        sorted_wrt (\<lambda>t u. prio (tcb s t) \<le> prio (tcb s u)) (blk_list (blk s o'))" for o'
      using k by (auto simp: kinv_def blk_inv_def)
    have new: "sorted_wrt (\<lambda>t u. prio (tcb s t) \<le> prio (tcb s u))
        (insert_before (\<lambda>u. prio (tcb s t) < prio (tcb s u)) t (blk_list (blk s ob)))"
      if "blk_policy (blk s ob) = BLK_POLICY_PRI"
      using old(3) [of ob] that by (intro sorted_wrt_insert_before) simp
    have nt: "t \<notin> wait_set s o'" for o' using nw by (simp add: wait_set_def)
    show ?thesis unfolding blk_inv_def pu ws
      using old new nt k b True by (auto simp: kinv_def blk_inv_def tc)
  next
    case False
    then have b: "blk s' = blk s" "\<not> blocked k'" using bl bs by auto
    have ws: "wait_set s' o' = wait_set s o'" for o' using b nw by (auto simp: wait_set_def tc)
    have bo: "blocked (tcb s' u) \<longrightarrow> blk_obj (tcb s' u) \<noteq> None" for u
      using k b by (auto simp: tc kinv_def blk_inv_def)
    show ?thesis using k bo by (simp add: kinv_def blk_inv_def pu ws b(1))
  qed
  moreover have "tick_inv s'"
  proof (cases "tick_head k'")
    case True
    then have h: "to \<noteq> 0" "tick_match k' = g_tick_count s + to"
      "g_tick_list s' = insert_before (\<lambda>u. to < remaining s u) t (g_tick_list s)" using tl by auto
    have rm: "remaining s' u = (if u = t then to else remaining s u)" for u
      using h fr by (simp add: remaining_def tc)
    have "sorted_wrt (\<lambda>u v. remaining s' u \<le> remaining s' v) (g_tick_list s)
        = sorted_wrt (\<lambda>u v. remaining s u \<le> remaining s v) (g_tick_list s)"
      using nw(2) by (intro sorted_wrt_key_cong) (auto simp: rm)
    then have "sorted_wrt (\<lambda>u v. remaining s' u \<le> remaining s' v)
        (insert_before (\<lambda>u. remaining s' t < remaining s' u) t (g_tick_list s))"
      using k by (intro sorted_wrt_insert_before) (simp add: kinv_def tick_inv_def)
    moreover have "insert_before (\<lambda>u. remaining s' t < remaining s' u) t (g_tick_list s) = g_tick_list s'"
      unfolding h using nw(2) by (intro insert_before_cong) (auto simp: rm)
    ultimately have "sorted_wrt (\<lambda>u v. remaining s' u \<le> remaining s' v) (g_tick_list s')" by simp
    moreover have "\<forall>u. sleeping (tcb s u) \<longrightarrow> tick_head (tcb s u)"
      "\<forall>u. tick_head (tcb s u) \<longrightarrow> (blocked (tcb s u) \<or> sleeping (tcb s u)) \<and> remaining s u \<noteq> 0"
      "distinct (g_tick_list s)" "set (g_tick_list s) = {u. tick_head (tcb s u)}"
      using k by (auto simp: kinv_def tick_inv_def)
    ultimately show ?thesis unfolding tick_inv_def
      using True h nw bs bl rm by (auto simp: tc)
  next
    case False
    then have h: "g_tick_list s' = g_tick_list s" "task_state k' = K_PEND" using tl by auto
    have rm: "remaining s' u = remaining s u" if "u \<noteq> t" for u
      using that fr by (simp add: remaining_def tc)
    have so: "sorted_wrt (\<lambda>u v. remaining s' u \<le> remaining s' v) (g_tick_list s)
        = sorted_wrt (\<lambda>u v. remaining s u \<le> remaining s v) (g_tick_list s)"
      using nw(2) rm by (intro sorted_wrt_key_cong) metis
    show ?thesis using k False h nw bs rm unfolding tick_inv_def h(1) so kinv_def
      by (auto simp: tc)
  qed
  moreover have "obj_inv s'"
    using k w bl by (auto simp: kinv_def obj_inv_def split: if_splits)
  ultimately show ?thesis by (simp add: kinv_def)
qed

section \<open>Change of priority\<close>

text \<open>A ready task changes ring; the running task goes to the front of its new ring.\<close>

lemma reprio_ready_kinv:
  assumes k: "kinv s" and r: "task_state (tcb s t) = K_RDY" and p: "prio (tcb s t) \<noteq> RHINO_IDLE_PRI"
    and np: "np < RHINO_IDLE_PRI"
    and add: "add = rq_add \<or> add = rq_add_head"
  defines "s' \<equiv> add (upd_task (rq_rm s t) t (\<lambda>k. k\<lparr>prio := np\<rparr>)) t"
  shows "kinv s' \<and> traps s' = traps s"
proof -
  define F where "F = (ready_set s)(prio (tcb s t) := ready_set s (prio (tcb s t)) - {t})"
  note nw = ready_not_waiting [OF k r]
  have rm: "traps (rq_rm s t) = traps s" "rq_holds (g_ready_queue (rq_rm s t)) F"
    using rq_rm_holds [OF k r p] unfolding F_def by auto
  have npm: "np < RHINO_CONFIG_PRI_MAX" using np by (simp add: config_defs)
  have nF: "t \<notin> F np" by (auto simp: ready_set_def F_def)
  have fr: "tcb s' = (tcb s)(t := (tcb s t)\<lparr>prio := np\<rparr>)" "blk s' = blk s" "g_tick_list s' = g_tick_list s"
    "g_tick_count s' = g_tick_count s" "sems s' = sems s" "mutexes s' = mutexes s"
    "queues s' = queues s" "buf_queues s' = buf_queues s" "traps s' = traps s"
    using add rm(1) unfolding s'_def by (auto simp: rq_add_head_def rq_add_def)
  have "rq_holds (g_ready_queue s') (F(np := insert t (F np)))"
    using add ready_list_add_tail_holds [OF rm(2) nF npm] ready_list_add_head_holds [OF rm(2) nF npm]
    unfolding s'_def by (auto simp: rq_add_head_def rq_add_def ready_list_add_def)
  moreover have "ready_set s' = F(np := insert t (F np))"
    using r by (auto simp: fun_eq_iff ready_set_def fr F_def)
  ultimately have "rq_inv s'"
    using kinv_ready [OF k] p np by (auto simp: rq_inv_def F_def)
  moreover have "prio_inv s'"
    using k p np npm by (auto simp: kinv_def prio_inv_def prio_ok_def fr)
  moreover have so: "sorted_wrt (\<lambda>u v. prio (tcb s' u) \<le> prio (tcb s' v)) (blk_list (blk s ob))
      = sorted_wrt (\<lambda>u v. prio (tcb s u) \<le> prio (tcb s v)) (blk_list (blk s ob))" for ob
    using nw(3) [of ob] by (intro sorted_wrt_key_cong) (auto simp: fr)
  have b: "blocked (tcb s' u) = blocked (tcb s u)" "sleeping (tcb s' u) = sleeping (tcb s u)"
    "blk_obj (tcb s' u) = blk_obj (tcb s u)" "tick_head (tcb s' u) = tick_head (tcb s u)"
    "remaining s' u = remaining s u" for u
    by (auto simp: fr blocked_def sleeping_def remaining_def)
  have ws: "wait_set s' = wait_set s" by (simp add: fun_eq_iff wait_set_def b)
  have "blk_inv s'" using k by (simp add: kinv_def blk_inv_def so ws b fr(2))
  moreover have "tick_inv s'" using k by (simp add: kinv_def tick_inv_def b fr(3))
  moreover have "obj_inv s'"
    using k waitable_cong [of s' _ s] by (simp add: kinv_def obj_inv_def fr)
  ultimately show ?thesis using fr by (simp add: kinv_def)
qed

text \<open>A task that is neither ready nor blocked just takes the new priority.\<close>

lemma reprio_idle_kinv:
  assumes k: "kinv s" and r: "task_state (tcb s t) \<noteq> K_RDY" "\<not> blocked (tcb s t)"
    and ok: "prio_ok ((tcb s t)\<lparr>prio := np\<rparr>)"
  shows "kinv (upd_task s t (\<lambda>k. k\<lparr>prio := np\<rparr>))"
proof -
  let ?s = "upd_task s t (\<lambda>k. k\<lparr>prio := np\<rparr>)"
  have e: "ready_set ?s = ready_set s" "wait_set ?s = wait_set s" "remaining ?s = remaining s"
    using r by (auto simp: fun_eq_iff ready_set_def wait_set_def remaining_def blocked_def)
  have nt: "t \<notin> set (blk_list (blk s ob))" for ob using kinv_waiting_on [OF k] r by blast
  have so: "sorted_wrt (\<lambda>u v. prio (tcb ?s u) \<le> prio (tcb ?s v)) (blk_list (blk s ob))
      = sorted_wrt (\<lambda>u v. prio (tcb s u) \<le> prio (tcb s v)) (blk_list (blk s ob))" for ob
    using nt [of ob] by (intro sorted_wrt_key_cong) auto
  have v: "blk_obj (tcb ?s u) = blk_obj (tcb s u)" "blocked (tcb ?s u) = blocked (tcb s u)"
    "sleeping (tcb ?s u) = sleeping (tcb s u)" "tick_head (tcb ?s u) = tick_head (tcb s u)" for u
    by (auto simp: blocked_def sleeping_def)
  have w: "waitable ?s ob = waitable s ob" for ob by (rule waitable_cong) simp_all
  have "prio_inv ?s" using k ok by (simp add: kinv_def prio_inv_def)
  moreover have "blk_inv ?s" using k by (simp add: kinv_def blk_inv_def so [simplified] e v [simplified])
  ultimately show ?thesis using k unfolding inv_defs e v w by simp
qed

text \<open>A blocked task takes the new priority and its new place in the block list.\<close>

lemma reprio_blocked_kinv:
  assumes k: "kinv s" and b: "blocked (tcb s t)" and ob: "blk_obj (tcb s t) = Some ob"
    and ok: "prio_ok ((tcb s t)\<lparr>prio := np\<rparr>)"
  defines "s' \<equiv> pend_list_reorder (upd_task s t (\<lambda>k. k\<lparr>prio := np\<rparr>)) t"
  shows "kinv s'"
proof -
  have fr: "tcb s' = (tcb s)(t := (tcb s t)\<lparr>prio := np\<rparr>)" "g_ready_queue s' = g_ready_queue s"
    "g_tick_list s' = g_tick_list s" "g_tick_count s' = g_tick_count s" "sems s' = sems s"
    "mutexes s' = mutexes s" "queues s' = queues s" "buf_queues s' = buf_queues s"
    using ob by (simp_all add: s'_def pend_list_reorder_def pend_list_add_def)
  have bl: "blk_list (blk s' o') =
      (if blk_policy (blk s ob) = BLK_POLICY_PRI
       then (if o' = ob then insert_before (\<lambda>u. np < prio (tcb s' u)) t (remove1 t (blk_list (blk s ob)))
             else remove1 t (blk_list (blk s o')))
       else blk_list (blk s o'))" "blk_policy (blk s' o') = blk_policy (blk s o')"
    "obj_type (blk s' o') = obj_type (blk s o')" for o'
    using ob unfolding fr by (simp_all add: s'_def pend_list_reorder_def pend_list_add_def)
  have mem: "t \<in> set (blk_list (blk s o')) \<longleftrightarrow> o' = ob" for o'
    using kinv_wait_list [OF k, of o'] b ob by (auto simp: wait_set_def)
  have v: "blk_obj (tcb s' u) = blk_obj (tcb s u)" "blocked (tcb s' u) = blocked (tcb s u)"
    "sleeping (tcb s' u) = sleeping (tcb s u)" "tick_head (tcb s' u) = tick_head (tcb s u)" for u
    by (auto simp: fr blocked_def sleeping_def)
  have e: "ready_set s' = ready_set s" "wait_set s' = wait_set s" "remaining s' = remaining s"
    using blocked_exclusive [OF b]
    by (auto simp: fun_eq_iff ready_set_def wait_set_def remaining_def fr blocked_def split: if_splits)
  have old: "distinct (blk_list (blk s o'))" "set (blk_list (blk s o')) = wait_set s o'"
    "blk_policy (blk s o') = BLK_POLICY_PRI \<longrightarrow>
      sorted_wrt (\<lambda>t u. prio (tcb s t) \<le> prio (tcb s u)) (blk_list (blk s o'))" for o'
    using k by (auto simp: kinv_def blk_inv_def)
  have so: "sorted_wrt (\<lambda>u v. prio (tcb s' u) \<le> prio (tcb s' v)) xs
      = sorted_wrt (\<lambda>u v. prio (tcb s u) \<le> prio (tcb s v)) xs" if "t \<notin> set xs" for xs
    using that by (intro sorted_wrt_key_cong) (auto simp: fr)
  have st: "blk_policy (blk s o') = BLK_POLICY_PRI \<longrightarrow>
      sorted_wrt (\<lambda>t u. prio (tcb s' t) \<le> prio (tcb s' u)) (blk_list (blk s' o'))" for o'
  proof
    assume pol: "blk_policy (blk s o') = BLK_POLICY_PRI"
    let ?r = "remove1 t (blk_list (blk s o'))"
    have nr: "t \<notin> set ?r" using old(1) by simp
    have sr: "sorted_wrt (\<lambda>t u. prio (tcb s' t) \<le> prio (tcb s' u)) ?r"
      using so [OF nr] old(3) [of o'] pol by (simp add: sorted_wrt_remove1)
    show "sorted_wrt (\<lambda>t u. prio (tcb s' t) \<le> prio (tcb s' u)) (blk_list (blk s' o'))"
    proof (cases "o' = ob")
      case True
      have pt: "prio (tcb s' t) = np" by (simp add: fr)
      from sorted_wrt_insert_before [OF sr, of t] show ?thesis
        using True pol unfolding bl pt by simp
    next
      case False
      then have "?r = blk_list (blk s o')" using mem by (simp add: remove1_idem)
      with sr False show ?thesis unfolding bl by (auto split: if_splits)
    qed
  qed
  have sd: "distinct (blk_list (blk s' o')) \<and> set (blk_list (blk s' o')) = wait_set s o'" for o'
    using old [of o'] old(1,2) [of ob] mem [of o'] b ob
    by (auto simp: bl wait_set_def)
  have "blk_inv s'" using k st sd by (simp add: kinv_def blk_inv_def e v bl(2))
  moreover have "prio_inv s'" using k ok by (simp add: kinv_def prio_inv_def fr)
  moreover have "obj_inv s'"
    unfolding obj_inv_def
  proof (intro allI impI)
    fix o' assume "blk_list (blk s' o') \<noteq> []"
    then have "blk_list (blk s o') \<noteq> []" using sd [of o'] old(2) [of o'] by auto
    with k have "waitable s o'" by (simp add: kinv_def obj_inv_def)
    with waitable_cong [of s' o' s] show "waitable s' o'" by (simp add: bl fr)
  qed
  ultimately show ?thesis using k unfolding kinv_def rq_inv_def tick_inv_def
    by (simp add: e v fr(2,3))
qed

end
