(* ===== verification/K_Prio.thy ===== *)
theory K_Prio
  imports Kernel_Inv
begin

text \<open>
  Priorities and mutex ownership: the priority part of \<open>k_mutex.c\<close>
  (\<open>mutex_pri_limit\<close>, \<open>mutex_pri_look\<close>, \<open>mutex_release\<close>, \<open>mutex_task_pri_reset\<close>) and the
  propagation loop \<open>task_pri_change\<close> of \<open>k_task.c\<close>, which the tick, the mutex services and
  the task services all call. The chain of mutexes a task holds is a list.
\<close>

section \<open>The priority a task is entitled to\<close>

text \<open>Each held mutex contributes the priority of its first waiter; a mutex without waiters
  leaves the running value \<open>pri\<close> as it was.\<close>

definition first_waiter_pri :: "kernel \<Rightarrow> oid \<Rightarrow> nat \<Rightarrow> nat" where
  "first_waiter_pri s m pri =
     (case blk_list (blk s m) of [] \<Rightarrow> pri | t # _ \<Rightarrow> prio (tcb s t))"

fun limit_scan :: "kernel \<Rightarrow> oid list \<Rightarrow> nat \<Rightarrow> nat \<Rightarrow> nat" where
  "limit_scan s [] pri high_pri = high_pri"
| "limit_scan s (m # ms) pri high_pri =
     (let pri' = first_waiter_pri s m pri
      in limit_scan s ms pri' (if pri' < high_pri then pri' else high_pri))"

definition mutex_pri_limit :: "kernel \<Rightarrow> tid \<Rightarrow> nat \<Rightarrow> nat" where
  "mutex_pri_limit s t pri = limit_scan s (mutex_list (tcb s t)) pri pri"

text \<open>The same walk, dropping \<open>mutex_rel\<close> from the chain on the way.\<close>

fun look_scan :: "kernel \<Rightarrow> oid option \<Rightarrow> oid list \<Rightarrow> nat \<Rightarrow> nat \<Rightarrow> nat \<times> oid list" where
  "look_scan s rel [] new_pri pri = (new_pri, [])"
| "look_scan s rel (m # ms) new_pri pri =
     (if Some m = rel then look_scan s rel ms new_pri pri
      else
        let pri' = first_waiter_pri s m pri;
            (np, ms') = look_scan s rel ms (if new_pri > pri' then pri' else new_pri) pri'
        in (np, m # ms'))"

definition mutex_pri_look :: "kernel \<Rightarrow> tid \<Rightarrow> oid option \<Rightarrow> nat \<times> kernel" where
  "mutex_pri_look s t rel =
     (let b = b_prio (tcb s t);
          (np, ms) = look_scan s rel (mutex_list (tcb s t)) b b
      in (np, upd_task s t (\<lambda>k. k\<lparr>mutex_list := ms\<rparr>)))"

section \<open>Propagation along the chain of owners\<close>

text \<open>
  One turn of the loop of \<open>task_pri_change\<close> per unit of fuel. The result of running out is a
  recorded divergence; \<open>task_pri_change\<close> gives it one unit more than there are tasks, which
  is enough unless the tasks wait for each other in a circle (theorem below).
\<close>

fun task_pri_change_loop :: "nat \<Rightarrow> kernel \<Rightarrow> tid \<Rightarrow> nat \<Rightarrow> kstat \<times> kernel" where
  "task_pri_change_loop 0 s t new_pri = (RHINO_SUCCESS, add_trap s Diverged)"
| "task_pri_change_loop (Suc n) s t new_pri =
     (if prio (tcb s t) \<noteq> new_pri then
        (case task_state (tcb s t) of
           K_RDY \<Rightarrow>
             let s1 = upd_task (rq_rm s t) t (\<lambda>k. k\<lparr>prio := new_pri\<rparr>)
             in (RHINO_SUCCESS, if t = g_active_task s then rq_add_head s1 t else rq_add s1 t)
         | K_SLEEP \<Rightarrow> (RHINO_SUCCESS, upd_task s t (\<lambda>k. k\<lparr>prio := new_pri\<rparr>))
         | K_SUSPENDED \<Rightarrow> (RHINO_SUCCESS, upd_task s t (\<lambda>k. k\<lparr>prio := new_pri\<rparr>))
         | K_SLEEP_SUSPENDED \<Rightarrow> (RHINO_SUCCESS, upd_task s t (\<lambda>k. k\<lparr>prio := new_pri\<rparr>))
         | K_SEED \<Rightarrow> (RHINO_INV_TASK_STATE, k_err_proc s RHINO_INV_TASK_STATE)
         | K_DELETED \<Rightarrow> (RHINO_INV_TASK_STATE, k_err_proc s RHINO_INV_TASK_STATE)
         | _ \<Rightarrow>
             let old_pri = prio (tcb s t);
                 s2 = pend_list_reorder (upd_task s t (\<lambda>k. k\<lparr>prio := new_pri\<rparr>)) t
             in case blk_obj (tcb s2 t) of
                  None \<Rightarrow> (RHINO_SUCCESS, s2)
                | Some ob \<Rightarrow>
                    if obj_type (blk s2 ob) = RHINO_MUTEX_OBJ_TYPE then
                      (case mutex_task (mutexes s2 ob) of
                         None \<Rightarrow> (RHINO_SUCCESS, add_trap s2 NullDeref)
                       | Some ow \<Rightarrow>
                           if prio (tcb s2 ow) > prio (tcb s2 t) then
                             task_pri_change_loop n s2 ow new_pri
                           else if prio (tcb s2 ow) = old_pri then
                             (let (np, s3) = mutex_pri_look s2 ow None
                              in if np \<noteq> prio (tcb s3 ow) then task_pri_change_loop n s3 ow np
                                 else (RHINO_SUCCESS, s3))
                           else (RHINO_SUCCESS, s2))
                    else (RHINO_SUCCESS, s2))
      else (RHINO_SUCCESS, s))"

definition task_pri_change :: "kernel \<Rightarrow> tid \<Rightarrow> nat \<Rightarrow> kstat \<times> kernel" where
  "task_pri_change s t new_pri =
     task_pri_change_loop (Suc (length (l_task_head (g_kobj_list s)))) s t new_pri"

definition mutex_release :: "kernel \<Rightarrow> tid \<Rightarrow> oid option \<Rightarrow> kernel" where
  "mutex_release s t rel =
     (let (new_pri, s1) = mutex_pri_look s t rel
      in if new_pri \<noteq> prio (tcb s1 t) then snd (task_pri_change s1 t new_pri) else s1)"

definition mutex_task_pri_reset :: "kernel \<Rightarrow> tid \<Rightarrow> kernel" where
  "mutex_task_pri_reset s t =
     (case blk_obj (tcb s t) of
        None \<Rightarrow> add_trap s NullDeref
      | Some ob \<Rightarrow>
          if obj_type (blk s ob) = RHINO_MUTEX_OBJ_TYPE then
            (case mutex_task (mutexes s ob) of
               None \<Rightarrow> add_trap s NullDeref
             | Some ow \<Rightarrow>
                 if prio (tcb s ow) = prio (tcb s t) then mutex_release s ow None else s)
          else s)"

section \<open>What the scans compute\<close>

lemma look_scan_None: "snd (look_scan s None ms np pri) = ms"
  by (induction ms arbitrary: np pri) (auto simp: Let_def split_def)

lemma look_scan_removes: "snd (look_scan s rel ms np pri) = filter (\<lambda>m. Some m \<noteq> rel) ms"
  by (induction ms arbitrary: np pri) (auto simp: Let_def split_def)

text \<open>The first waiters of a chain of mutexes.\<close>

definition first_waiters :: "kernel \<Rightarrow> oid list \<Rightarrow> tid set" where
  "first_waiters s ms = {t. \<exists>m \<in> set ms. \<exists>ts. blk_list (blk s m) = t # ts}"

lemma first_waiters_Cons:
  "first_waiters s (m # ms) =
     (case blk_list (blk s m) of [] \<Rightarrow> first_waiters s ms | t # _ \<Rightarrow> insert t (first_waiters s ms))"
  by (auto simp: first_waiters_def split: list.splits)

lemma finite_first_waiters [simp]: "finite (first_waiters s ms)"
  by (induction ms) (auto simp: first_waiters_Cons first_waiters_def [of s "[]"] split: list.splits)

lemma Min_insert_min:
  "finite F \<Longrightarrow> Min (insert (min (a::nat) b) F) = Min (insert a (insert b F))"
  by (cases "F = {}") (simp_all add: min.assoc)

lemma look_scan_min:
  "new_pri \<le> pri \<Longrightarrow> fst (look_scan s rel ms new_pri pri) =
     Min (insert new_pri ((\<lambda>t. prio (tcb s t)) ` first_waiters s (filter (\<lambda>m. Some m \<noteq> rel) ms)))"
proof (induction ms arbitrary: new_pri pri)
  case Nil
  then show ?case by (simp add: first_waiters_def)
next
  case (Cons m ms)
  show ?case
  proof (cases "Some m = rel")
    case True
    with Cons show ?thesis by simp
  next
    case False
    define F where "F = (\<lambda>t. prio (tcb s t)) ` first_waiters s (filter (\<lambda>m. Some m \<noteq> rel) ms)"
    define p where "p = first_waiter_pri s m pri"
    have fin: "finite F" by (simp add: F_def)
    have "fst (look_scan s rel (m # ms) new_pri pri) = fst (look_scan s rel ms (min new_pri p) p)"
      using False by (simp add: Let_def split_def min_def not_less not_le p_def)
    also have "\<dots> = Min (insert (min new_pri p) F)" unfolding F_def by (rule Cons.IH) simp
    also have "\<dots> = Min (insert new_pri
        ((\<lambda>t. prio (tcb s t)) ` first_waiters s (filter (\<lambda>m. Some m \<noteq> rel) (m # ms))))"
    proof (cases "blk_list (blk s m)")
      case Nil
      then have "min new_pri p = new_pri" using Cons.prems by (simp add: p_def first_waiter_pri_def)
      with Nil False show ?thesis by (simp add: first_waiters_Cons F_def)
    next
      case (Cons t ts)
      then have "first_waiters s (filter (\<lambda>m. Some m \<noteq> rel) (m # ms))
          = insert t (first_waiters s (filter (\<lambda>m. Some m \<noteq> rel) ms))"
        using False by (simp add: first_waiters_Cons)
      moreover have "p = prio (tcb s t)" using Cons by (simp add: p_def first_waiter_pri_def)
      ultimately show ?thesis using Min_insert_min [OF fin] by (simp add: F_def)
    qed
    finally show ?thesis .
  qed
qed

text \<open>\<open>mutex_pri_look\<close> takes the released mutex off the chain and returns the best of the base
  priority and the first waiters of the mutexes still held.\<close>

lemma mutex_pri_look_result:
  defines "held \<equiv> \<lambda>s t rel. filter (\<lambda>m. Some m \<noteq> rel) (mutex_list (tcb s t))"
  shows "mutex_pri_look s t rel =
    (Min (insert (b_prio (tcb s t)) ((\<lambda>u. prio (tcb s u)) ` first_waiters s (held s t rel))),
     upd_task s t (\<lambda>k. k\<lparr>mutex_list := held s t rel\<rparr>))"
  using look_scan_min [of "b_prio (tcb s t)" "b_prio (tcb s t)" s rel "mutex_list (tcb s t)"]
    look_scan_removes [of s rel "mutex_list (tcb s t)" "b_prio (tcb s t)" "b_prio (tcb s t)"]
  by (simp add: mutex_pri_look_def held_def Let_def split_def)

lemma look_le_b_prio: "fst (mutex_pri_look s t rel) \<le> b_prio (tcb s t)"
  by (simp add: mutex_pri_look_result)

lemma limit_scan_le: "limit_scan s ms pri high \<le> high"
proof (induction ms arbitrary: pri high)
  case (Cons m ms)
  show ?case using Cons [of "first_waiter_pri s m pri" "min high (first_waiter_pri s m pri)"]
    by (auto simp: Let_def min_def split: if_splits)
qed simp

lemma mutex_pri_limit_le: "mutex_pri_limit s t pri \<le> pri"
  by (simp add: mutex_pri_limit_def limit_scan_le)

section \<open>What a change of priority leaves alone\<close>

definition reprio :: "kernel \<Rightarrow> kernel \<Rightarrow> bool" where
  "reprio s s' \<longleftrightarrow>
     (\<forall>t. tcb s' t = (tcb s t)\<lparr>prio := prio (tcb s' t)\<rparr>) \<and>
     (\<forall>ob. blk s' ob = (blk s ob)\<lparr>blk_list := blk_list (blk s' ob)\<rparr>) \<and>
     sems s' = sems s \<and> mutexes s' = mutexes s \<and> event_flags s' = event_flags s \<and>
     queues s' = queues s \<and> buf_queues s' = buf_queues s \<and> cells s' = cells s \<and> bufs s' = bufs s \<and>
     g_tick_list s' = g_tick_list s \<and> g_tick_count s' = g_tick_count s \<and>
     g_kobj_list s' = g_kobj_list s \<and> g_active_task s' = g_active_task s \<and>
     g_sched_lock s' = g_sched_lock s \<and> g_intrpt_nested_level s' = g_intrpt_nested_level s \<and>
     g_sys_stat s' = g_sys_stat s \<and> g_idle_task_spawned s' = g_idle_task_spawned s \<and>
     g_preferred_ready_task s' = g_preferred_ready_task s"

lemma reprio_refl [simp]: "reprio s s"
  by (simp add: reprio_def)

lemma reprio_trans:
  assumes "reprio s s'" "reprio s' s''"
  shows "reprio s s''"
proof -
  have "tcb s'' t = (tcb s t)\<lparr>prio := prio (tcb s'' t)\<rparr>" for t
  proof -
    have "tcb s'' t = (tcb s' t)\<lparr>prio := prio (tcb s'' t)\<rparr>" using assms(2) by (simp add: reprio_def)
    also have "tcb s' t = (tcb s t)\<lparr>prio := prio (tcb s' t)\<rparr>" using assms(1) by (simp add: reprio_def)
    finally show ?thesis by simp
  qed
  moreover have "blk s'' ob = (blk s ob)\<lparr>blk_list := blk_list (blk s'' ob)\<rparr>" for ob
  proof -
    have "blk s'' ob = (blk s' ob)\<lparr>blk_list := blk_list (blk s'' ob)\<rparr>"
      using assms(2) by (simp add: reprio_def)
    also have "blk s' ob = (blk s ob)\<lparr>blk_list := blk_list (blk s' ob)\<rparr>"
      using assms(1) by (simp add: reprio_def)
    finally show ?thesis by simp
  qed
  ultimately show ?thesis using assms unfolding reprio_def by auto
qed

lemma reprio_task:
  assumes "reprio s s'"
  shows "task_state (tcb s' t) = task_state (tcb s t)" "b_prio (tcb s' t) = b_prio (tcb s t)"
    "blk_obj (tcb s' t) = blk_obj (tcb s t)" "mutex_list (tcb s' t) = mutex_list (tcb s t)"
    "tick_head (tcb s' t) = tick_head (tcb s t)" "blocked (tcb s' t) = blocked (tcb s t)"
    "sleeping (tcb s' t) = sleeping (tcb s t)" "cancel (tcb s' t) = cancel (tcb s t)"
    "blk_state (tcb s' t) = blk_state (tcb s t)" "suspend_count (tcb s' t) = suspend_count (tcb s t)"
    "tick_match (tcb s' t) = tick_match (tcb s t)" "task_sem_obj (tcb s' t) = task_sem_obj (tcb s t)"
    "task_mm_flag (tcb s' t) = task_mm_flag (tcb s t)"
proof -
  have e: "tcb s' t = (tcb s t)\<lparr>prio := prio (tcb s' t)\<rparr>" using assms by (simp add: reprio_def)
  show "task_state (tcb s' t) = task_state (tcb s t)" "b_prio (tcb s' t) = b_prio (tcb s t)"
    "blk_obj (tcb s' t) = blk_obj (tcb s t)" "mutex_list (tcb s' t) = mutex_list (tcb s t)"
    "tick_head (tcb s' t) = tick_head (tcb s t)" "blocked (tcb s' t) = blocked (tcb s t)"
    "sleeping (tcb s' t) = sleeping (tcb s t)" "cancel (tcb s' t) = cancel (tcb s t)"
    "blk_state (tcb s' t) = blk_state (tcb s t)" "suspend_count (tcb s' t) = suspend_count (tcb s t)"
    "tick_match (tcb s' t) = tick_match (tcb s t)" "task_sem_obj (tcb s' t) = task_sem_obj (tcb s t)"
    "task_mm_flag (tcb s' t) = task_mm_flag (tcb s t)"
    by (subst e, simp add: blocked_def sleeping_def)+
qed

lemma reprio_obj:
  assumes "reprio s s'"
  shows "obj_type (blk s' ob) = obj_type (blk s ob)" "blk_policy (blk s' ob) = blk_policy (blk s ob)"
    "obj_cancel (blk s' ob) = obj_cancel (blk s ob)" "obj_mm_flag (blk s' ob) = obj_mm_flag (blk s ob)"
proof -
  have e: "blk s' ob = (blk s ob)\<lparr>blk_list := blk_list (blk s' ob)\<rparr>" using assms by (simp add: reprio_def)
  show "obj_type (blk s' ob) = obj_type (blk s ob)" "blk_policy (blk s' ob) = blk_policy (blk s ob)"
    "obj_cancel (blk s' ob) = obj_cancel (blk s ob)" "obj_mm_flag (blk s' ob) = obj_mm_flag (blk s ob)"
    by (subst e, simp)+
qed

lemma reprio_rest:
  assumes "reprio s s'"
  shows "sems s' = sems s" "mutexes s' = mutexes s" "event_flags s' = event_flags s"
    "queues s' = queues s" "buf_queues s' = buf_queues s" "cells s' = cells s" "bufs s' = bufs s"
    "g_tick_list s' = g_tick_list s" "g_tick_count s' = g_tick_count s"
    "g_kobj_list s' = g_kobj_list s" "g_active_task s' = g_active_task s"
    "g_sched_lock s' = g_sched_lock s" "g_intrpt_nested_level s' = g_intrpt_nested_level s"
    "g_sys_stat s' = g_sys_stat s" "g_idle_task_spawned s' = g_idle_task_spawned s"
  using assms by (simp_all add: reprio_def)

lemmas reprio_frame = reprio_task reprio_obj reprio_rest

section \<open>Ownership of mutexes\<close>

text \<open>A mutex and the chain of its owner agree, and owners are live tasks other than the
  idle one.\<close>

definition live :: "ktask \<Rightarrow> bool" where
  "live k \<longleftrightarrow> task_state k \<noteq> K_SEED \<and> task_state k \<noteq> K_DELETED"

definition minv :: "kernel \<Rightarrow> bool" where
  "minv s \<longleftrightarrow>
     (\<forall>t. live (tcb s t) \<longrightarrow> distinct (mutex_list (tcb s t))) \<and>
     (\<forall>t. live (tcb s t) \<longrightarrow> mutex_list (tcb s t) \<noteq> [] \<longrightarrow> b_prio (tcb s t) \<noteq> RHINO_IDLE_PRI) \<and>
     (\<forall>t m. live (tcb s t) \<longrightarrow> (m \<in> set (mutex_list (tcb s t)) \<longleftrightarrow>
        obj_type (blk s m) = RHINO_MUTEX_OBJ_TYPE \<and> mutex_task (mutexes s m) = Some t)) \<and>
     (\<forall>t m. obj_type (blk s m) = RHINO_MUTEX_OBJ_TYPE \<and> mutex_task (mutexes s m) = Some t \<longrightarrow>
        live (tcb s t))"

lemma minv_owner:
  assumes "minv s" "obj_type (blk s m) = RHINO_MUTEX_OBJ_TYPE" "mutex_task (mutexes s m) = Some t"
  shows "live (tcb s t)" "b_prio (tcb s t) \<noteq> RHINO_IDLE_PRI" "m \<in> set (mutex_list (tcb s t))"
proof -
  show l: "live (tcb s t)" using assms by (auto simp: minv_def)
  show m: "m \<in> set (mutex_list (tcb s t))" using assms l by (auto simp: minv_def)
  then have "mutex_list (tcb s t) \<noteq> []" by auto
  with assms(1) l show "b_prio (tcb s t) \<noteq> RHINO_IDLE_PRI" by (simp add: minv_def)
qed

lemma minv_cong:
  assumes "\<And>t. mutex_list (tcb s' t) = mutex_list (tcb s t)"
    "\<And>t. live (tcb s' t) = live (tcb s t)"
    "\<And>t. mutex_list (tcb s t) \<noteq> [] \<Longrightarrow> b_prio (tcb s t) \<noteq> RHINO_IDLE_PRI \<Longrightarrow>
          b_prio (tcb s' t) \<noteq> RHINO_IDLE_PRI"
    "\<And>m. obj_type (blk s' m) = obj_type (blk s m)"
    "\<And>m. mutex_task (mutexes s' m) = mutex_task (mutexes s m)"
    and "minv s"
  shows "minv s'"
  using assms unfolding minv_def by simp

lemma minv_reprio: "reprio s s' \<Longrightarrow> minv s \<Longrightarrow> minv s'"
  by (rule minv_cong [of s' s]) (simp_all add: reprio_frame live_def)

lemma minv_core_sched [simp]: "minv (core_sched s) = minv s"
  by (simp add: minv_def)

section \<open>The propagation loop keeps the invariants\<close>

lemma mutex_pri_look_None: "mutex_pri_look s t None = (fst (mutex_pri_look s t None), s)"
proof -
  have "snd (mutex_pri_look s t None) = upd_task s t (\<lambda>k. k\<lparr>mutex_list := mutex_list (tcb s t)\<rparr>)"
    by (simp add: mutex_pri_look_result)
  also have "\<dots> = s" by (simp add: upd_task_def)
  finally show ?thesis by (metis prod.collapse)
qed

lemma prio_ok_below: "prio_ok k \<Longrightarrow> b_prio k \<noteq> RHINO_IDLE_PRI \<Longrightarrow> b_prio k < RHINO_IDLE_PRI"
  by (simp add: prio_ok_def config_defs)

lemma prio_ok_upd:
  "prio_ok k \<Longrightarrow> b_prio k \<noteq> RHINO_IDLE_PRI \<Longrightarrow> np < RHINO_IDLE_PRI \<Longrightarrow> prio_ok (k\<lparr>prio := np\<rparr>)"
  by (simp add: prio_ok_def config_defs)

lemma kinv_prio_ok: "kinv s \<Longrightarrow> prio_ok (tcb s t)"
  by (simp add: kinv_def prio_inv_def)

lemma kinv_blocked_obj: "kinv s \<Longrightarrow> blocked (tcb s t) \<Longrightarrow> \<exists>ob. blk_obj (tcb s t) = Some ob"
  by (auto simp: kinv_def blk_inv_def)

lemma kinv_blocked_waitable:
  assumes "kinv s" "blocked (tcb s t)" "blk_obj (tcb s t) = Some ob"
  shows "t \<in> set (blk_list (blk s ob)) \<and> waitable s ob"
proof -
  have "t \<in> set (blk_list (blk s ob))" using assms kinv_wait_list [of s ob] by (simp add: wait_set_def)
  moreover then have "blk_list (blk s ob) \<noteq> []" by auto
  ultimately show ?thesis using assms(1) by (simp add: kinv_def obj_inv_def)
qed

lemma waitable_mutex:
  "waitable s ob \<Longrightarrow> obj_type (blk s ob) = RHINO_MUTEX_OBJ_TYPE \<Longrightarrow> mutex_task (mutexes s ob) \<noteq> None"
  by (simp add: waitable_def)

text \<open>The owner the waiting task is waiting for, and one turn of the loop.\<close>

definition waits_for :: "kernel \<Rightarrow> (tid \<times> tid) set" where
  "waits_for s = {(t, ow). blocked (tcb s t) \<and> (\<exists>m. blk_obj (tcb s t) = Some m \<and>
     obj_type (blk s m) = RHINO_MUTEX_OBJ_TYPE \<and> mutex_task (mutexes s m) = Some ow)}"

lemma waits_for_reprio: "reprio s s' \<Longrightarrow> waits_for s' = waits_for s"
  by (simp add: waits_for_def reprio_frame)

lemma reprio_pend_reorder:
  "blk_obj (tcb s t) = Some ob \<Longrightarrow> reprio s (pend_list_reorder (upd_task s t (\<lambda>k. k\<lparr>prio := np\<rparr>)) t)"
  by (auto simp: reprio_def pend_list_reorder_def pend_list_add_def blk_list_rm_def upd_blk_def upd_task_def)

lemma reprio_ready_move:
  assumes "add = rq_add \<or> add = rq_add_head"
  shows "reprio s (add (upd_task (rq_rm s t) t (\<lambda>k. k\<lparr>prio := np\<rparr>)) t)"
  using assms
  by (auto simp: reprio_def rq_add_def rq_add_head_def rq_rm_def upd_task_def split_def Let_def)

lemma reprio_upd_task: "reprio s (upd_task s t (\<lambda>k. k\<lparr>prio := np\<rparr>))"
  by (simp add: reprio_def upd_task_def)

lemma reprio_trap: "reprio s s' \<Longrightarrow> reprio s (add_trap s' e)"
  by (simp add: reprio_def add_trap_def)

lemma traps_add_trap [simp]: "traps (add_trap s e) = traps s @ [e]"
  by (simp add: add_trap_def)

lemma kinv_add_trap [simp]: "kinv (add_trap s e) = kinv s"
proof -
  have "waitable (add_trap s e) ob = waitable s ob" for ob
    by (rule waitable_cong) (simp_all add: add_trap_def)
  moreover have "same_view s (add_trap s e)" "same_view (add_trap s e) s"
    by (simp_all add: same_view_def add_trap_def)
  ultimately show ?thesis using kinv_same_view [of s] kinv_same_view [of "add_trap s e"] by blast
qed

text \<open>What the turn on a blocked task does, with the branches that cannot occur gone.\<close>

lemma pri_change_blocked:
  assumes k: "kinv s" and b: "blocked (tcb s t)" and ne: "prio (tcb s t) \<noteq> np"
    and ob: "blk_obj (tcb s t) = Some ob"
  defines "s2 \<equiv> pend_list_reorder (upd_task s t (\<lambda>k. k\<lparr>prio := np\<rparr>)) t"
  shows "(\<exists>ow v. (t, ow) \<in> waits_for s \<and> v \<le> max np (b_prio (tcb s ow)) \<and>
            task_pri_change_loop (Suc n) s t np = task_pri_change_loop n s2 ow v) \<or>
         task_pri_change_loop (Suc n) s t np = (RHINO_SUCCESS, s2)"
proof -
  have rp: "reprio s s2" unfolding s2_def by (rule reprio_pend_reorder [OF ob])
  have ob2: "blk_obj (tcb s2 t) = Some ob" using ob by (simp add: reprio_frame [OF rp])
  have st: "task_state (tcb s t) = K_PEND \<or> task_state (tcb s t) = K_PEND_SUSPENDED"
    using b by (simp add: blocked_def)
  show ?thesis
  proof (cases "obj_type (blk s ob) = RHINO_MUTEX_OBJ_TYPE")
    case False
    then have "task_pri_change_loop (Suc n) s t np = (RHINO_SUCCESS, s2)"
      using st ne ob2 by (auto simp: Let_def s2_def [symmetric] reprio_frame [OF rp])
    then show ?thesis ..
  next
    case True
    have "mutex_task (mutexes s ob) \<noteq> None"
      using kinv_blocked_waitable [OF k b ob] True waitable_mutex by blast
    then obtain ow where ow: "mutex_task (mutexes s ob) = Some ow" by auto
    have wf: "(t, ow) \<in> waits_for s" using b ob True ow by (simp add: waits_for_def)
    let ?v = "fst (mutex_pri_look s2 ow None)"
    have v: "?v \<le> b_prio (tcb s ow)" using look_le_b_prio [of s2 ow] by (simp add: reprio_frame [OF rp])
    have e: "task_pri_change_loop (Suc n) s t np =
       (if prio (tcb s2 ow) > prio (tcb s2 t) then task_pri_change_loop n s2 ow np
        else if prio (tcb s2 ow) = prio (tcb s t) then
          (if ?v \<noteq> prio (tcb s2 ow) then task_pri_change_loop n s2 ow ?v else (RHINO_SUCCESS, s2))
        else (RHINO_SUCCESS, s2))"
      using st ne ob2 True ow mutex_pri_look_None [of s2 ow]
      by (auto simp: Let_def s2_def [symmetric] reprio_frame [OF rp] split: prod.splits)
    consider "prio (tcb s2 ow) > prio (tcb s2 t)"
      | "\<not> prio (tcb s2 ow) > prio (tcb s2 t)" "prio (tcb s2 ow) = prio (tcb s t)" "?v \<noteq> prio (tcb s2 ow)"
      | "task_pri_change_loop (Suc n) s t np = (RHINO_SUCCESS, s2)"
      unfolding e by (cases "prio (tcb s2 ow) > prio (tcb s2 t)";
        cases "prio (tcb s2 ow) = prio (tcb s t) \<and> ?v \<noteq> prio (tcb s2 ow)") force+
    then show ?thesis
    proof cases
      case 1
      then have "task_pri_change_loop (Suc n) s t np = task_pri_change_loop n s2 ow np"
        unfolding e by simp
      with wf show ?thesis by (metis max.cobounded1)
    next
      case 2
      then have "task_pri_change_loop (Suc n) s t np = task_pri_change_loop n s2 ow ?v"
        unfolding e by simp
      with wf v show ?thesis by (metis max.coboundedI2)
    qed simp
  qed
qed

lemma pri_change_loop_unblocked:
  assumes k: "kinv s" and l: "live (tcb s t)" "\<not> blocked (tcb s t)"
    and b: "b_prio (tcb s t) \<noteq> RHINO_IDLE_PRI" and np: "np < RHINO_IDLE_PRI"
  shows "\<exists>s'. task_pri_change_loop (Suc n) s t np = (RHINO_SUCCESS, s') \<and> kinv s' \<and> reprio s s' \<and>
           traps s' = traps s \<and> prio (tcb s' t) = np \<and> (\<forall>u. u \<noteq> t \<longrightarrow> tcb s' u = tcb s u)"
proof (cases "prio (tcb s t) = np")
  case True
  then show ?thesis using k by simp
next
  case ne: False
  have p: "prio (tcb s t) \<noteq> RHINO_IDLE_PRI" using kinv_prio_ok [OF k, of t] b by (simp add: prio_ok_def)
  have ok: "prio_ok ((tcb s t)\<lparr>prio := np\<rparr>)" by (rule prio_ok_upd [OF kinv_prio_ok [OF k] b np])
  show ?thesis
  proof (cases "task_state (tcb s t) = K_RDY")
    case True
    define add where "add = (if t = g_active_task s then rq_add_head else rq_add)"
    define s' where "s' = add (upd_task (rq_rm s t) t (\<lambda>k. k\<lparr>prio := np\<rparr>)) t"
    have a: "add = rq_add \<or> add = rq_add_head" by (simp add: add_def)
    have "task_pri_change_loop (Suc n) s t np = (RHINO_SUCCESS, s')"
      using True ne by (simp add: s'_def add_def Let_def)
    moreover have "kinv s' \<and> traps s' = traps s"
      unfolding s'_def by (rule reprio_ready_kinv [OF k True p np a])
    moreover have "reprio s s'" unfolding s'_def by (rule reprio_ready_move [OF a])
    moreover have "tcb s' = (tcb s)(t := (tcb s t)\<lparr>prio := np\<rparr>)"
      using a by (auto simp: s'_def rq_add_head_def rq_add_def)
    ultimately show ?thesis by auto
  next
    case False
    then have "task_pri_change_loop (Suc n) s t np =
        (RHINO_SUCCESS, upd_task s t (\<lambda>k. k\<lparr>prio := np\<rparr>))"
      using ne l by (cases "task_state (tcb s t)") (auto simp: live_def blocked_def)
    moreover have "kinv (upd_task s t (\<lambda>k. k\<lparr>prio := np\<rparr>))"
      by (rule reprio_idle_kinv [OF k False l(2) ok])
    ultimately show ?thesis using reprio_upd_task by auto
  qed
qed

lemma waits_for_owner:
  assumes "minv s" "(t, ow) \<in> waits_for s"
  shows "live (tcb s ow)" "b_prio (tcb s ow) \<noteq> RHINO_IDLE_PRI"
  using assms minv_owner by (auto simp: waits_for_def)

lemma pri_change_loop_kinv:
  assumes "kinv s" "minv s" "live (tcb s t)" "b_prio (tcb s t) \<noteq> RHINO_IDLE_PRI" "np < RHINO_IDLE_PRI"
  shows "\<exists>s'. task_pri_change_loop n s t np = (RHINO_SUCCESS, s') \<and> kinv s' \<and> reprio s s' \<and>
           (traps s' = traps s \<or> traps s' = traps s @ [Diverged])"
  using assms
proof (induction n arbitrary: s t np)
  case 0
  then show ?case by (simp add: reprio_trap)
next
  case (Suc n)
  note k = \<open>kinv s\<close> and m = \<open>minv s\<close> and l = \<open>live (tcb s t)\<close>
    and b = \<open>b_prio (tcb s t) \<noteq> RHINO_IDLE_PRI\<close> and np = \<open>np < RHINO_IDLE_PRI\<close>
  show ?case
  proof (cases "blocked (tcb s t) \<and> prio (tcb s t) \<noteq> np")
    case False
    then consider "\<not> blocked (tcb s t)" | "prio (tcb s t) = np" by auto
    then show ?thesis
    proof cases
      case 1
      from pri_change_loop_unblocked [OF k l this b np] show ?thesis by blast
    next
      case 2
      then show ?thesis using k by simp
    qed
  next
    case True
    then have bl: "blocked (tcb s t)" and ne: "prio (tcb s t) \<noteq> np" by auto
    obtain ob where ob: "blk_obj (tcb s t) = Some ob" using kinv_blocked_obj [OF k bl] by auto
    define s2 where "s2 = pend_list_reorder (upd_task s t (\<lambda>k. k\<lparr>prio := np\<rparr>)) t"
    have ok: "prio_ok ((tcb s t)\<lparr>prio := np\<rparr>)" by (rule prio_ok_upd [OF kinv_prio_ok [OF k] b np])
    have k2: "kinv s2" unfolding s2_def by (rule reprio_blocked_kinv [OF k bl ob ok])
    have rp: "reprio s s2" unfolding s2_def by (rule reprio_pend_reorder [OF ob])
    have t2: "traps s2 = traps s"
      using ob by (simp add: s2_def pend_list_reorder_def pend_list_add_def)
    from pri_change_blocked [OF k bl ne ob, of n, folded s2_def]
    show ?thesis
    proof (elim disjE exE conjE)
      fix ow v
      assume wf: "(t, ow) \<in> waits_for s" and v: "v \<le> max np (b_prio (tcb s ow))"
        and e: "task_pri_change_loop (Suc n) s t np = task_pri_change_loop n s2 ow v"
      have bo: "b_prio (tcb s ow) \<noteq> RHINO_IDLE_PRI" "live (tcb s ow)" using waits_for_owner [OF m wf] by auto
      have "v < RHINO_IDLE_PRI" using v np prio_ok_below [OF kinv_prio_ok [OF k] bo(1)] by auto
      moreover have "minv s2" by (rule minv_reprio [OF rp m])
      moreover have "live (tcb s2 ow)" "b_prio (tcb s2 ow) \<noteq> RHINO_IDLE_PRI"
        using bo by (simp_all add: live_def reprio_frame [OF rp])
      ultimately obtain s' where s': "task_pri_change_loop n s2 ow v = (RHINO_SUCCESS, s')" "kinv s'"
        "reprio s2 s'" "traps s' = traps s2 \<or> traps s' = traps s2 @ [Diverged]"
        using Suc.IH [OF k2] by blast
      then show ?thesis using e t2 reprio_trans [OF rp s'(3)] by auto
    next
      assume "task_pri_change_loop (Suc n) s t np = (RHINO_SUCCESS, s2)"
      then show ?thesis using k2 rp t2 by auto
    qed
  qed
qed

text \<open>No task waits for a mutex it owns (the lock is recursive).\<close>

definition no_self :: "kernel \<Rightarrow> bool" where
  "no_self s \<longleftrightarrow> (\<forall>t. (t, t) \<notin> waits_for s)"

lemma no_self_subset: "no_self s \<Longrightarrow> waits_for s' \<subseteq> waits_for s \<Longrightarrow> no_self s'"
  by (auto simp: no_self_def)

lemma waits_for_cong:
  assumes "\<And>t. blocked (tcb s' t) = blocked (tcb s t)" "\<And>t. blk_obj (tcb s' t) = blk_obj (tcb s t)"
    "\<And>m. obj_type (blk s' m) = obj_type (blk s m)" "\<And>m. mutex_task (mutexes s' m) = mutex_task (mutexes s m)"
  shows "waits_for s' = waits_for s"
  unfolding waits_for_def assms by (rule refl)

section \<open>Enough fuel\<close>

text \<open>While no tasks wait for each other in a circle, the loop ends within one turn per task.\<close>

definition task_list_inv :: "kernel \<Rightarrow> bool" where
  "task_list_inv s \<longleftrightarrow>
     distinct (l_task_head (g_kobj_list s)) \<and>
     set (l_task_head (g_kobj_list s)) = {t. live (tcb s t)}"

lemma waiters_live: "(t, u) \<in> waits_for s \<Longrightarrow> live (tcb s t)"
  by (auto simp: waits_for_def blocked_def live_def)

definition rank :: "kernel \<Rightarrow> tid \<Rightarrow> nat" where
  "rank s t = card ((waits_for s)\<^sup>+ `` {t})"

lemma waits_for_range_live:
  assumes "minv s" "(t, u) \<in> (waits_for s)\<^sup>+"
  shows "live (tcb s u)"
  using assms(2)
proof cases
  case base
  then show ?thesis using waits_for_owner(1) [OF assms(1)] by blast
next
  case (step y)
  then show ?thesis using waits_for_owner(1) [OF assms(1)] by blast
qed

definition all_listed :: "kernel \<Rightarrow> bool" where
  "all_listed s \<longleftrightarrow> (\<forall>t. live (tcb s t) \<longrightarrow> t \<in> set (l_task_head (g_kobj_list s)))"

lemma task_list_all_listed: "task_list_inv s \<Longrightarrow> all_listed s"
  by (simp add: task_list_inv_def all_listed_def)

lemma live_finite: "all_listed s \<Longrightarrow> finite {t. live (tcb s t)}"
  by (rule finite_subset [of _ "set (l_task_head (g_kobj_list s))"]) (auto simp: all_listed_def)

lemma rank_decreases:
  assumes "acyclic (waits_for s)" "finite {t. live (tcb s t)}" "minv s" "(t, ow) \<in> waits_for s"
  shows "rank s ow < rank s t"
proof -
  have "(waits_for s)\<^sup>+ `` {t} \<subseteq> {t. live (tcb s t)}" using waits_for_range_live [OF assms(3)] by auto
  then have fin: "finite ((waits_for s)\<^sup>+ `` {t})" using assms(2) finite_subset by blast
  have "ow \<notin> (waits_for s)\<^sup>+ `` {ow}" using assms(1) by (simp add: acyclic_def)
  moreover have "ow \<in> (waits_for s)\<^sup>+ `` {t}" using assms(4) by auto
  moreover have "(waits_for s)\<^sup>+ `` {ow} \<subseteq> (waits_for s)\<^sup>+ `` {t}"
    using assms(4) by (auto intro: trancl_into_trancl2)
  ultimately have "(waits_for s)\<^sup>+ `` {ow} \<subset> (waits_for s)\<^sup>+ `` {t}" by auto
  then show ?thesis unfolding rank_def by (rule psubset_card_mono [OF fin])
qed

lemma rank_bound:
  assumes "acyclic (waits_for s)" "all_listed s" "minv s"
  shows "rank s t \<le> length (l_task_head (g_kobj_list s))"
proof -
  have "(waits_for s)\<^sup>+ `` {t} \<subseteq> set (l_task_head (g_kobj_list s))"
    using waits_for_range_live [OF assms(3)] assms(2) by (auto simp: all_listed_def)
  then have "card ((waits_for s)\<^sup>+ `` {t}) \<le> card (set (l_task_head (g_kobj_list s)))"
    by (simp add: card_mono)
  also have "\<dots> \<le> length (l_task_head (g_kobj_list s))" by (rule card_length)
  finally show ?thesis by (simp add: rank_def)
qed

lemma pri_change_loop_ends:
  assumes "kinv s" "minv s" "live (tcb s t)" "b_prio (tcb s t) \<noteq> RHINO_IDLE_PRI" "np < RHINO_IDLE_PRI"
    and "acyclic (waits_for s)" "finite {t. live (tcb s t)}" "rank s t < n"
  shows "traps (snd (task_pri_change_loop n s t np)) = traps s"
  using assms
proof (induction n arbitrary: s t np)
  case 0
  then show ?case by simp
next
  case (Suc n)
  note k = \<open>kinv s\<close> and m = \<open>minv s\<close> and l = \<open>live (tcb s t)\<close>
    and b = \<open>b_prio (tcb s t) \<noteq> RHINO_IDLE_PRI\<close> and np = \<open>np < RHINO_IDLE_PRI\<close>
    and ac = \<open>acyclic (waits_for s)\<close> and fin = \<open>finite {t. live (tcb s t)}\<close>
    and rk = \<open>rank s t < Suc n\<close>
  show ?case
  proof (cases "blocked (tcb s t) \<and> prio (tcb s t) \<noteq> np")
    case False
    then consider "\<not> blocked (tcb s t)" | "prio (tcb s t) = np" by auto
    then show ?thesis
    proof cases
      case 1
      from pri_change_loop_unblocked [OF k l this b np, of n] show ?thesis by auto
    next
      case 2
      then show ?thesis by simp
    qed
  next
    case True
    then have bl: "blocked (tcb s t)" and ne: "prio (tcb s t) \<noteq> np" by auto
    obtain ob where ob: "blk_obj (tcb s t) = Some ob" using kinv_blocked_obj [OF k bl] by auto
    define s2 where "s2 = pend_list_reorder (upd_task s t (\<lambda>k. k\<lparr>prio := np\<rparr>)) t"
    have ok: "prio_ok ((tcb s t)\<lparr>prio := np\<rparr>)" by (rule prio_ok_upd [OF kinv_prio_ok [OF k] b np])
    have k2: "kinv s2" unfolding s2_def by (rule reprio_blocked_kinv [OF k bl ob ok])
    have rp: "reprio s s2" unfolding s2_def by (rule reprio_pend_reorder [OF ob])
    have t2: "traps s2 = traps s"
      using ob by (simp add: s2_def pend_list_reorder_def pend_list_add_def)
    from pri_change_blocked [OF k bl ne ob, of n, folded s2_def]
    show ?thesis
    proof (elim disjE exE conjE)
      fix ow v
      assume wf: "(t, ow) \<in> waits_for s" and v: "v \<le> max np (b_prio (tcb s ow))"
        and e: "task_pri_change_loop (Suc n) s t np = task_pri_change_loop n s2 ow v"
      have bo: "b_prio (tcb s ow) \<noteq> RHINO_IDLE_PRI" "live (tcb s ow)" using waits_for_owner [OF m wf] by auto
      have vi: "v < RHINO_IDLE_PRI" using v np prio_ok_below [OF kinv_prio_ok [OF k] bo(1)] by auto
      have m2: "minv s2" by (rule minv_reprio [OF rp m])
      have w2: "waits_for s2 = waits_for s" by (rule waits_for_reprio [OF rp])
      have lv: "live (tcb s2 u) = live (tcb s u)" for u by (simp add: live_def reprio_frame [OF rp])
      have r2: "rank s2 ow < n" using rank_decreases [OF ac fin m wf] rk by (simp add: rank_def w2)
      have "traps (snd (task_pri_change_loop n s2 ow v)) = traps s2"
        by (rule Suc.IH [OF k2 m2 _ _ vi _ _ r2])
          (use bo ac fin w2 lv in \<open>simp_all add: reprio_frame [OF rp]\<close>)
      then show ?thesis using e t2 by simp
    next
      assume "task_pri_change_loop (Suc n) s t np = (RHINO_SUCCESS, s2)"
      then show ?thesis using t2 by simp
    qed
  qed
qed

section \<open>The callers' view\<close>

lemma task_pri_change_kinv:
  assumes "kinv s" "minv s" "live (tcb s t)" "b_prio (tcb s t) \<noteq> RHINO_IDLE_PRI" "np < RHINO_IDLE_PRI"
  shows "\<exists>s'. task_pri_change s t np = (RHINO_SUCCESS, s') \<and> kinv s' \<and> minv s' \<and> reprio s s' \<and>
           (traps s' = traps s \<or> traps s' = traps s @ [Diverged]) \<and>
           (all_listed s \<longrightarrow> acyclic (waits_for s) \<longrightarrow> traps s' = traps s)"
proof -
  define n where "n = Suc (length (l_task_head (g_kobj_list s)))"
  obtain s' where s': "task_pri_change_loop n s t np = (RHINO_SUCCESS, s')" "kinv s'" "reprio s s'"
    "traps s' = traps s \<or> traps s' = traps s @ [Diverged]"
    using pri_change_loop_kinv [OF assms, of n] by blast
  have "traps s' = traps s" if "all_listed s" "acyclic (waits_for s)"
    using pri_change_loop_ends [OF assms that(2) live_finite [OF that(1)], of n]
      rank_bound [OF that(2,1) assms(2), of t] s'(1) by (simp add: n_def)
  then show ?thesis using s' minv_reprio [OF s'(3) assms(2)]
    by (auto simp: task_pri_change_def n_def)
qed

text \<open>Dropping a mutex from the chain of a task that is not waiting, with its new priority.\<close>

definition held_pri :: "kernel \<Rightarrow> tid \<Rightarrow> oid list \<Rightarrow> nat" where
  "held_pri s t ms = Min (insert (b_prio (tcb s t)) ((\<lambda>u. prio (tcb s u)) ` first_waiters s ms))"

lemma held_pri_le: "held_pri s t ms \<le> b_prio (tcb s t)"
  by (simp add: held_pri_def)

lemma task_pri_change_unblocked:
  assumes "kinv s" "live (tcb s t)" "\<not> blocked (tcb s t)" "b_prio (tcb s t) \<noteq> RHINO_IDLE_PRI"
    "np < RHINO_IDLE_PRI"
  shows "\<exists>s'. task_pri_change s t np = (RHINO_SUCCESS, s') \<and> kinv s' \<and> reprio s s' \<and>
           traps s' = traps s \<and> prio (tcb s' t) = np \<and> (\<forall>u. u \<noteq> t \<longrightarrow> tcb s' u = tcb s u)"
  unfolding task_pri_change_def by (rule pri_change_loop_unblocked [OF assms])

lemma mutex_release_unblocked:
  assumes k: "kinv s" and l: "live (tcb s t)" "\<not> blocked (tcb s t)"
    and b: "b_prio (tcb s t) \<noteq> RHINO_IDLE_PRI"
    and d: "distinct (mutex_list (tcb s t))" and ms: "ms = remove1 m (mutex_list (tcb s t))"
  shows "kinv (mutex_release s t (Some m)) \<and>
         reprio (upd_task s t (\<lambda>k. k\<lparr>mutex_list := ms\<rparr>)) (mutex_release s t (Some m)) \<and>
         traps (mutex_release s t (Some m)) = traps s \<and>
         prio (tcb (mutex_release s t (Some m)) t) = held_pri s t ms \<and>
         (\<forall>u. u \<noteq> t \<longrightarrow> tcb (mutex_release s t (Some m)) u = tcb s u)"
proof -
  let ?s1 = "upd_task s t (\<lambda>k. k\<lparr>mutex_list := ms\<rparr>)"
  have f: "filter (\<lambda>x. Some x \<noteq> Some m) (mutex_list (tcb s t)) = ms"
    using d by (simp add: ms distinct_remove1_removeAll removeAll_filter_not_eq eq_commute)
  have lk: "mutex_pri_look s t (Some m) = (held_pri s t ms, ?s1)"
    by (simp only: mutex_pri_look_result f held_pri_def)
  have k1: "kinv ?s1" by (rule kinv_upd_task_view [OF k]) (simp add: task_view_def)
  have np: "held_pri s t ms < RHINO_IDLE_PRI"
    using held_pri_le [of s t ms] prio_ok_below [OF kinv_prio_ok [OF k] b] by simp
  have rel: "mutex_release s t (Some m) =
      (if held_pri s t ms \<noteq> prio (tcb s t) then snd (task_pri_change ?s1 t (held_pri s t ms)) else ?s1)"
    unfolding mutex_release_def lk by simp
  show ?thesis
  proof (cases "held_pri s t ms = prio (tcb s t)")
    case True
    then show ?thesis using k1 unfolding rel by simp
  next
    case False
    have "live (tcb ?s1 t)" "\<not> blocked (tcb ?s1 t)" "b_prio (tcb ?s1 t) \<noteq> RHINO_IDLE_PRI"
      using l b by (simp_all add: live_def blocked_def)
    from task_pri_change_unblocked [OF k1 this np]
    obtain s' where s': "task_pri_change ?s1 t (held_pri s t ms) = (RHINO_SUCCESS, s')" "kinv s'"
      "reprio ?s1 s'" "traps s' = traps s" "prio (tcb s' t) = held_pri s t ms"
      "\<forall>u. u \<noteq> t \<longrightarrow> tcb s' u = tcb s u"
      by auto
    then show ?thesis using False unfolding rel by simp
  qed
qed

text \<open>Results a service may have on the trap list: nothing, or the divergence of a deadlock (once
  for each waiter whose priority it resets).\<close>

definition traps_ok :: "kernel \<Rightarrow> kernel \<Rightarrow> bool" where
  "traps_ok s s' \<longleftrightarrow> (\<exists>n. traps s' = traps s @ replicate n Diverged) \<and>
     (all_listed s \<longrightarrow> acyclic (waits_for s) \<longrightarrow> traps s' = traps s)"

lemma traps_ok_one:
  "traps s' = traps s \<or> traps s' = traps s @ [Diverged] \<Longrightarrow>
   (all_listed s \<longrightarrow> acyclic (waits_for s) \<longrightarrow> traps s' = traps s) \<Longrightarrow> traps_ok s s'"
  by (auto simp: traps_ok_def intro: exI [of _ 0] exI [of _ "Suc 0"])

lemma traps_ok_same [simp]: "traps s' = traps s \<Longrightarrow> traps_ok s s'"
  by (rule traps_ok_one) simp_all

lemma mutex_release_None:
  assumes "kinv s" "minv s" "live (tcb s t)" "b_prio (tcb s t) \<noteq> RHINO_IDLE_PRI"
  shows "kinv (mutex_release s t None) \<and> minv (mutex_release s t None) \<and>
         reprio s (mutex_release s t None) \<and> traps_ok s (mutex_release s t None)"
proof -
  let ?v = "fst (mutex_pri_look s t None)"
  have v: "?v < RHINO_IDLE_PRI"
    using look_le_b_prio [of s t None] prio_ok_below [OF kinv_prio_ok [OF assms(1)] assms(4)] by simp
  have rel: "mutex_release s t None = (if ?v \<noteq> prio (tcb s t) then snd (task_pri_change s t ?v) else s)"
    unfolding mutex_release_def by (subst mutex_pri_look_None) simp
  from task_pri_change_kinv [OF assms v] show ?thesis
    using assms(1,2) traps_ok_one unfolding rel by auto
qed

lemma mutex_task_pri_reset_kinv:
  assumes k: "kinv s" and m: "minv s" and ob: "blk_obj (tcb s t) = Some ob"
    and own: "obj_type (blk s ob) = RHINO_MUTEX_OBJ_TYPE \<Longrightarrow> mutex_task (mutexes s ob) \<noteq> None"
  shows "kinv (mutex_task_pri_reset s t) \<and> minv (mutex_task_pri_reset s t) \<and>
         reprio s (mutex_task_pri_reset s t) \<and> traps_ok s (mutex_task_pri_reset s t)"
proof (cases "obj_type (blk s ob) = RHINO_MUTEX_OBJ_TYPE")
  case True
  then obtain ow where ow: "mutex_task (mutexes s ob) = Some ow" using own by auto
  have "mutex_task_pri_reset s t = (if prio (tcb s ow) = prio (tcb s t) then mutex_release s ow None else s)"
    using ob True ow by (simp add: mutex_task_pri_reset_def)
  with mutex_release_None [OF k m minv_owner(1,2) [OF m True ow]] k m show ?thesis
    by simp
next
  case False
  then show ?thesis using k m ob by (simp add: mutex_task_pri_reset_def)
qed

end
