(* ===== verification/Ring_Fifo.thy ===== *)
theory Ring_Fifo
  imports K_Ringbuf
begin

text \<open>
  The ring buffer is a FIFO of messages. The bytes in use are read around the end of the
  memory (\<open>circ\<close>); every copy of the code, split at the end or not, appends to them or takes
  from them, and no copy leaves the memory. The contract \<open>msg_fifo\<close> is met by the three ways
  the kernel uses the buffer: messages of variable length, blocks, and queues of pointers.
\<close>

section \<open>Bytes around the end of the memory\<close>

definition circ :: "'a list \<Rightarrow> nat \<Rightarrow> nat \<Rightarrow> 'a list" where
  "circ m h n = map (\<lambda>i. m ! ((h + i) mod length m)) [0..<n]"

lemma length_circ [simp]: "length (circ m h n) = n"
  by (simp add: circ_def)

lemma nth_circ: "i < n \<Longrightarrow> circ m h n ! i = m ! ((h + i) mod length m)"
  by (simp add: circ_def)

lemma circ_append: "circ m h (a + b) = circ m h a @ circ m (h + a) b"
  by (rule nth_equalityI) (auto simp: nth_circ nth_append add.assoc)

lemma circ_mod: "h mod length m = h' mod length m \<Longrightarrow> circ m h n = circ m h' n"
  unfolding circ_def by (metis (no_types, lifting) map_eq_conv mod_add_left_eq)

lemma circ_contiguous: "h + n \<le> length m \<Longrightarrow> circ m h n = take n (drop h m)"
  by (rule nth_equalityI) (auto simp: nth_circ)

lemma circ_take: "n \<le> k \<Longrightarrow> take n (circ m h k) = circ m h n"
  by (rule nth_equalityI) (auto simp: nth_circ)

lemma circ_drop: "n \<le> k \<Longrightarrow> drop n (circ m h k) = circ m (h + n) (k - n)"
  by (rule nth_equalityI) (auto simp: nth_circ add.assoc)

lemma write_at_nth:
  assumes "write_at m off bs = Some m'"
  shows "length m' = length m \<and> off + length bs \<le> length m \<and>
    (\<forall>k < length m. m' ! k = (if off \<le> k \<and> k < off + length bs then bs ! (k - off) else m ! k))"
  using assms by (auto simp: write_at_def nth_append min_def split: if_splits)

text \<open>\<open>bs\<close> has been written at \<open>t\<close>, around the end, and nothing else has changed.\<close>

definition wrote :: "'a list \<Rightarrow> nat \<Rightarrow> 'a list \<Rightarrow> 'a list \<Rightarrow> bool" where
  "wrote m t bs m' \<longleftrightarrow> length m' = length m \<and>
     (\<forall>j < length bs. m' ! ((t + j) mod length m) = bs ! j) \<and>
     (\<forall>k < length m. (\<forall>j < length bs. k \<noteq> (t + j) mod length m) \<longrightarrow> m' ! k = m ! k)"

lemma mod_apart:
  assumes "(a::nat) < b" "b < a + n"
  shows "a mod n \<noteq> b mod n"
proof
  assume "a mod n = b mod n"
  then have "n dvd b - a" using assms by (metis less_imp_le mod_eq_dvd_iff_nat)
  with assms show False using nat_dvd_not_less [of "b - a" n] by simp
qed

lemma circ_wrote:
  assumes w: "wrote m t bs m'" and N: "0 < length m" and t: "t mod length m = (h + used) mod length m"
    and fit: "used + length bs \<le> length m"
  shows "circ m' h (used + length bs) = circ m h used @ bs"
proof (rule nth_equalityI)
  show "length (circ m' h (used + length bs)) = length (circ m h used @ bs)" by simp
  fix i assume i: "i < length (circ m' h (used + length bs))"
  have l: "length m' = length m" using w by (simp add: wrote_def)
  have pos: "(t + j) mod length m = (h + used + j) mod length m" for j using t by (metis mod_add_left_eq)
  show "circ m' h (used + length bs) ! i = (circ m h used @ bs) ! i"
  proof (cases "i < used")
    case True
    have "(h + i) mod length m \<noteq> (t + j) mod length m" if "j < length bs" for j
      unfolding pos by (rule mod_apart) (use that True fit in auto)
    then have "m' ! ((h + i) mod length m) = m ! ((h + i) mod length m)"
      using w N by (simp add: wrote_def)
    with True i show ?thesis by (simp add: nth_circ nth_append l)
  next
    case False
    then have "i - used < length bs" using i by simp
    then have "m' ! ((t + (i - used)) mod length m) = bs ! (i - used)" using w by (simp add: wrote_def)
    with False i pos [of "i - used"] show ?thesis by (simp add: nth_circ nth_append l)
  qed
qed

lemma wrote_at:
  assumes "write_at m t bs = Some m'"
  shows "wrote m t bs m'"
proof -
  note w = write_at_nth [OF assms]
  have "(t + j) mod length m = t + j" if "j < length bs" for j using w that by simp
  with w show ?thesis unfolding wrote_def by (auto split: if_splits) (metis add_diff_inverse_nat nat_add_left_cancel_less not_less)
qed

lemma wrote_split:
  assumes w1: "write_at m t (take k bs) = Some m1" and w2: "write_at m1 0 (drop k bs) = Some m2"
    and k: "k = length m - t" "k < length bs" and t: "t \<le> length m" and fit: "length bs \<le> length m"
  shows "wrote m t bs m2"
proof -
  note a = write_at_nth [OF w1] and b = write_at_nth [OF w2]
  have l: "length m2 = length m" "length m1 = length m" using a b by auto
  have n1: "m1 ! x = (if t \<le> x \<and> x < t + k then bs ! (x - t) else m ! x)" if "x < length m" for x
    using a that k by (auto simp: min_def)
  have n2: "m2 ! x = (if x < length bs - k then bs ! (k + x) else m1 ! x)" if "x < length m" for x
    using b that k l by auto
  have pos: "(t + j) mod length m = (if j < k then t + j else j - k)" if "j < length bs" for j
  proof (cases "j < k")
    case True
    then show ?thesis using k by simp
  next
    case False
    then have "t + j = (j - k) + length m" using k t by simp
    moreover have "j - k < length m" using that fit k by simp
    ultimately show ?thesis using False by (metis mod_add_self2 mod_less)
  qed
  have "m2 ! ((t + j) mod length m) = bs ! j" if "j < length bs" for j
  proof (cases "j < k")
    case True
    then have "t + j < length m" "\<not> t + j < length bs - k" using k t fit by auto
    then show ?thesis using n2 [of "t + j"] n1 [of "t + j"] pos [OF that] True by simp
  next
    case False
    then have "j - k < length m" "j - k < length bs - k" using that fit k by auto
    then show ?thesis using n2 [of "j - k"] pos [OF that] False by simp
  qed
  moreover have "m2 ! x = m ! x" if "x < length m" "\<forall>j < length bs. x \<noteq> (t + j) mod length m" for x
  proof -
    have "\<not> (t \<le> x \<and> x < t + k)"
    proof
      assume "t \<le> x \<and> x < t + k"
      then have "x - t < length bs" "(t + (x - t)) mod length m = x" using k that(1) by auto
      with that(2) show False by metis
    qed
    moreover have "\<not> x < length bs - k"
    proof
      assume "x < length bs - k"
      then have "k + x < length bs" "(t + (k + x)) mod length m = x" using pos [of "k + x"] by auto
      with that(2) show False by metis
    qed
    ultimately show ?thesis using n1 [OF that(1)] n2 [OF that(1)] by auto
  qed
  ultimately show ?thesis unfolding wrote_def using l by simp
qed

section \<open>The buffer and its free space\<close>

definition rb_wf :: "k_ringbuf \<Rightarrow> nat \<Rightarrow> bool" where
  "rb_wf rb used \<longleftrightarrow> 0 < rb_end rb \<and> length (rb_mem rb) = rb_end rb \<and> rb_head rb \<le> rb_end rb \<and>
     rb_tail rb \<le> rb_end rb \<and> used \<le> rb_end rb \<and>
     rb_tail rb mod rb_end rb = (rb_head rb + used) mod rb_end rb"

definition contents :: "k_ringbuf \<Rightarrow> nat \<Rightarrow> u8 list" where
  "contents rb used = circ (rb_mem rb) (rb_head rb) used"

lemma wrap_tail_wf:
  "rb_wf rb used \<Longrightarrow> rb_wf (wrap_tail rb) used \<and> contents (wrap_tail rb) used = contents rb used \<and>
     rb_tail (wrap_tail rb) < rb_end rb"
  by (auto simp: rb_wf_def wrap_tail_def contents_def)

lemma wrap_head_wf:
  "rb_wf rb used \<Longrightarrow> rb_wf (wrap_head rb) used \<and> contents (wrap_head rb) used = contents rb used \<and>
     rb_head (wrap_head rb) < rb_end rb"
  by (auto simp: rb_wf_def wrap_head_def contents_def intro: circ_mod)

lemma wrap_frame [simp]:
  "rb_end (wrap_tail rb) = rb_end rb" "rb_end (wrap_head rb) = rb_end rb"
  "rb_type (wrap_tail rb) = rb_type rb" "rb_type (wrap_head rb) = rb_type rb"
  "rb_blk_size (wrap_tail rb) = rb_blk_size rb" "rb_blk_size (wrap_head rb) = rb_blk_size rb"
  "rb_freesize (wrap_tail rb) = rb_freesize rb" "rb_freesize (wrap_head rb) = rb_freesize rb"
  by (simp_all add: wrap_tail_def wrap_head_def)

text \<open>Where the tail is ahead of the head the free space is split, otherwise it is in one piece.\<close>

lemma free_in_one_piece:
  assumes w: "rb_wf rb used" and t: "rb_tail rb < rb_end rb" and h: "rb_tail rb < rb_head rb"
    and n: "0 < n" "used + n \<le> rb_end rb"
  shows "rb_tail rb + n \<le> rb_end rb"
proof -
  define N where "N = rb_end rb"
  have b: "rb_head rb + used < 2 * N" using w n by (simp add: rb_wf_def N_def)
  have e: "rb_tail rb = (rb_head rb + used) mod N" using w t by (simp add: rb_wf_def N_def)
  have "\<not> rb_head rb + used < N" using e h by auto
  then have "(rb_head rb + used) mod N = rb_head rb + used - N"
    using b by (simp add: le_mod_geq)
  then have "rb_tail rb + N = rb_head rb + used" using e \<open>\<not> rb_head rb + used < N\<close> by simp
  then show ?thesis using w n by (simp add: rb_wf_def N_def)
qed

lemma copy_in_wf:
  assumes w: "rb_wf rb used" and t: "rb_tail rb < rb_end rb"
    and n: "0 < length bs" "used + length bs \<le> rb_end rb"
  shows "\<exists>rb'. copy_in rb bs = Some rb' \<and> rb_wf rb' (used + length bs) \<and>
     contents rb' (used + length bs) = contents rb used @ bs \<and> rb_end rb' = rb_end rb \<and>
     rb_head rb' = rb_head rb \<and> rb_type rb' = rb_type rb \<and> rb_blk_size rb' = rb_blk_size rb \<and>
     rb_freesize rb' = rb_freesize rb - length bs"
proof -
  define N where "N = rb_end rb"
  define k where "k = N - rb_tail rb"
  have N: "0 < N" "length (rb_mem rb) = N" and tN: "rb_tail rb < N"
    and th: "rb_tail rb mod N = (rb_head rb + used) mod N"
    using w t by (simp_all add: rb_wf_def N_def)
  have k: "0 < k" "rb_tail rb + k = N" using tN by (simp_all add: k_def)
  have tl: "(rb_tail rb + length bs) mod N = (rb_head rb + (used + length bs)) mod N"
    using th by (metis add.assoc mod_add_left_eq)
  show ?thesis
  proof (cases "rb_head rb \<le> rb_tail rb \<and> k < length bs")
    case True
    then have "rb_tail rb + length (take k bs) \<le> length (rb_mem rb)" using k N by simp
    then obtain m1 where m1: "write_at (rb_mem rb) (rb_tail rb) (take k bs) = Some m1"
      by (simp add: write_at_def)
    have m1N: "length m1 = N" using write_at_nth [OF m1] N by simp
    moreover have "length bs - k \<le> N" using n by (simp add: N_def)
    ultimately obtain m2 where m2: "write_at m1 0 (drop k bs) = Some m2"
      by (simp add: write_at_def)
    have "wrote (rb_mem rb) (rb_tail rb) bs m2"
      by (rule wrote_split [OF m1 m2]) (use True N n tN in \<open>auto simp: k_def N_def\<close>)
    moreover have "copy_in rb bs = Some (rb\<lparr>rb_mem := m2, rb_tail := length bs - k,
        rb_freesize := rb_freesize rb - length bs\<rparr>)"
      using True k(1) m1 m2 by (simp add: copy_in_def Let_def k_def N_def)
    moreover have "(length bs - k) mod N = (rb_tail rb + length bs) mod N"
    proof -
      have "rb_tail rb + length bs = (length bs - k) + N" using True k by simp
      then show ?thesis by simp
    qed
    moreover have "length m2 = N" using write_at_nth [OF m2] m1N by simp
    ultimately show ?thesis
      using w n N th tl circ_wrote [of "rb_mem rb" "rb_tail rb" bs m2 "rb_head rb" used]
      by (auto simp: rb_wf_def contents_def N_def)
  next
    case False
    have fit: "rb_tail rb + length bs \<le> N"
    proof (cases "rb_tail rb < rb_head rb")
      case True
      then show ?thesis using free_in_one_piece [OF w t _ n] by (simp add: N_def)
    next
      case F: False
      with False show ?thesis using k by auto
    qed
    then obtain m where m: "write_at (rb_mem rb) (rb_tail rb) bs = Some m"
      using N by (simp add: write_at_def)
    have "copy_in rb bs = Some (rb\<lparr>rb_mem := m, rb_tail := rb_tail rb + length bs,
        rb_freesize := rb_freesize rb - length bs\<rparr>)"
      using False m k by (auto simp: copy_in_def Let_def k_def N_def)
    moreover have "wrote (rb_mem rb) (rb_tail rb) bs m" by (rule wrote_at [OF m])
    moreover have "length m = N" using write_at_nth [OF m] N by simp
    ultimately show ?thesis
      using w n N th tl fit circ_wrote [of "rb_mem rb" "rb_tail rb" bs m "rb_head rb" used]
      by (auto simp: rb_wf_def contents_def N_def)
  qed
qed

text \<open>Reading: the bytes come from the head, around the end.\<close>

lemma read_at_circ: "h + n \<le> length m \<Longrightarrow> read_at m h n = Some (circ m h n)"
  by (simp add: read_at_def circ_contiguous)

lemma read_split:
  assumes "k = length m - h" "k < n" "h \<le> length m" "n \<le> length m"
  shows "\<exists>b1 b2. read_at m h k = Some b1 \<and> read_at m 0 (n - k) = Some b2 \<and> b1 @ b2 = circ m h n"
proof -
  have a: "read_at m h k = Some (circ m h k)" "read_at m 0 (n - k) = Some (circ m 0 (n - k))"
    using assms by (auto intro!: read_at_circ)
  have "h + k = length m" using assms by simp
  then have "circ m (h + k) (n - k) = circ m 0 (n - k)" by (intro circ_mod) simp
  moreover have "circ m h n = circ m h k @ circ m (h + k) (n - k)"
    using circ_append [of m h k "n - k"] assms by simp
  ultimately have "circ m h k @ circ m 0 (n - k) = circ m h n" by simp
  with a show ?thesis by blast
qed

text \<open>The state after \<open>n\<close> bytes are taken.\<close>

lemma take_wf:
  assumes w: "rb_wf rb used" and n: "n \<le> used" and h: "h' \<le> rb_end rb"
    "h' mod rb_end rb = (rb_head rb + n) mod rb_end rb"
  shows "rb_wf (rb\<lparr>rb_head := h', rb_freesize := f\<rparr>) (used - n) \<and>
     contents (rb\<lparr>rb_head := h', rb_freesize := f\<rparr>) (used - n) = drop n (contents rb used) \<and>
     circ (rb_mem rb) (rb_head rb) n = take n (contents rb used)"
proof -
  have N: "length (rb_mem rb) = rb_end rb" using w by (simp add: rb_wf_def)
  have "(h' + (used - n)) mod rb_end rb = (rb_head rb + n + (used - n)) mod rb_end rb"
    using h(2) by (metis mod_add_left_eq)
  then have "rb_wf (rb\<lparr>rb_head := h', rb_freesize := f\<rparr>) (used - n)"
    using w n h(1) by (auto simp: rb_wf_def)
  moreover have "circ (rb_mem rb) h' (used - n) = drop n (contents rb used)"
    using circ_mod [of h' "rb_mem rb" "rb_head rb + n"] h(2) n N by (simp add: contents_def circ_drop)
  moreover have "circ (rb_mem rb) (rb_head rb) n = take n (contents rb used)"
    using n by (simp add: contents_def circ_take)
  ultimately show ?thesis by (simp add: contents_def)
qed

lemma copy_out_len_wf:
  assumes w: "rb_wf rb used" and h: "rb_head rb < rb_end rb" and n: "RING_BUF_LEN \<le> used"
  shows "\<exists>rb'. copy_out_len rb = Some (take RING_BUF_LEN (contents rb used), rb') \<and>
     rb_wf rb' (used - RING_BUF_LEN) \<and> contents rb' (used - RING_BUF_LEN) = drop RING_BUF_LEN (contents rb used) \<and>
     rb_end rb' = rb_end rb \<and> rb_type rb' = rb_type rb \<and> rb_blk_size rb' = rb_blk_size rb \<and>
     rb_freesize rb' = rb_freesize rb + RING_BUF_LEN"
proof -
  define N where "N = rb_end rb"
  define k where "k = N - rb_head rb"
  have N: "length (rb_mem rb) = N" "used \<le> N" using w by (simp_all add: rb_wf_def N_def)
  have k: "0 < k" "rb_head rb + k = N" using h by (simp_all add: k_def N_def)
  show ?thesis
  proof (cases "k < RING_BUF_LEN")
    case True
    obtain b1 b2 where b: "read_at (rb_mem rb) (rb_head rb) k = Some b1"
      "read_at (rb_mem rb) 0 (RING_BUF_LEN - k) = Some b2"
      "b1 @ b2 = circ (rb_mem rb) (rb_head rb) RING_BUF_LEN"
      using read_split [of k "rb_mem rb" "rb_head rb" RING_BUF_LEN] True N n k by (auto simp: k_def)
    have "rb_head rb + RING_BUF_LEN = (RING_BUF_LEN - k) + N" using True k by simp
    then have "(RING_BUF_LEN - k) mod N = (rb_head rb + RING_BUF_LEN) mod N" by simp
    note t = take_wf [OF w n, of "RING_BUF_LEN - k" "rb_freesize rb + RING_BUF_LEN", folded N_def, OF _ this]
    have "copy_out_len rb = Some (b1 @ b2, rb\<lparr>rb_head := RING_BUF_LEN - k,
        rb_freesize := rb_freesize rb + RING_BUF_LEN\<rparr>)"
      using True k b by (simp add: copy_out_len_def Let_def k_def N_def)
    with t b(3) N n show ?thesis by (simp add: N_def)
  next
    case False
    then have "rb_head rb + RING_BUF_LEN \<le> N" using k by simp
    note t = take_wf [OF w n, folded N_def, OF this refl, of "rb_freesize rb + RING_BUF_LEN"]
    have "copy_out_len rb = Some (circ (rb_mem rb) (rb_head rb) RING_BUF_LEN,
        rb\<lparr>rb_head := rb_head rb + RING_BUF_LEN, rb_freesize := rb_freesize rb + RING_BUF_LEN\<rparr>)"
      using False \<open>rb_head rb + RING_BUF_LEN \<le> N\<close> N
      by (simp add: copy_out_len_def Let_def k_def N_def read_at_circ)
    with t show ?thesis by simp
  qed
qed

text \<open>The data is never the whole memory, since the length went before it; so where the head
  is not past the tail it is in one piece.\<close>

lemma copy_out_data_wf:
  assumes w: "rb_wf rb used" and h: "rb_head rb < rb_end rb" and n: "n \<le> used" "used < rb_end rb"
  shows "\<exists>rb'. copy_out_data rb n = Some (take n (contents rb used), rb') \<and>
     rb_wf rb' (used - n) \<and> contents rb' (used - n) = drop n (contents rb used) \<and>
     rb_end rb' = rb_end rb \<and> rb_type rb' = rb_type rb \<and> rb_blk_size rb' = rb_blk_size rb \<and>
     rb_freesize rb' = rb_freesize rb + n"
proof -
  define N where "N = rb_end rb"
  define k where "k = N - rb_head rb"
  have N: "length (rb_mem rb) = N" "used < N" using w n by (simp_all add: rb_wf_def N_def)
  have k: "0 < k" "rb_head rb + k = N" using h by (simp_all add: k_def N_def)
  show ?thesis
  proof (cases "rb_tail rb < rb_head rb \<and> k < n")
    case True
    obtain b1 b2 where b: "read_at (rb_mem rb) (rb_head rb) k = Some b1"
      "read_at (rb_mem rb) 0 (n - k) = Some b2" "b1 @ b2 = circ (rb_mem rb) (rb_head rb) n"
      using read_split [of k "rb_mem rb" "rb_head rb" n] True N n k by (auto simp: k_def)
    have "rb_head rb + n = (n - k) + N" using True k by simp
    then have "(n - k) mod N = (rb_head rb + n) mod N" by simp
    note t = take_wf [OF w n(1), of "n - k" "rb_freesize rb + n", folded N_def, OF _ this]
    have "copy_out_data rb n = Some (b1 @ b2, rb\<lparr>rb_head := n - k, rb_freesize := rb_freesize rb + n\<rparr>)"
      using True k b by (simp add: copy_out_data_def Let_def k_def N_def)
    with t b(3) N n show ?thesis by (simp add: N_def)
  next
    case False
    have "rb_head rb + n \<le> N"
    proof (cases "k < n")
      case True
      with False have hl: "rb_head rb \<le> rb_tail rb" by simp
      have e: "rb_tail rb mod N = (rb_head rb + used) mod N" "rb_tail rb \<le> N"
        using w by (simp_all add: rb_wf_def N_def)
      show ?thesis
      proof (rule ccontr)
        assume "\<not> rb_head rb + n \<le> N"
        then have g: "N < rb_head rb + used" using n by simp
        moreover have "rb_head rb + used < 2 * N" using N h by (simp add: N_def)
        ultimately have m: "(rb_head rb + used) mod N = rb_head rb + used - N" by (simp add: le_mod_geq)
        show False
        proof (cases "rb_tail rb = N")
          case True
          then show False using e m g by simp
        next
          case False
          then have "rb_tail rb = rb_head rb + used - N" using e m by simp
          then show False using hl g N by simp
        qed
      qed
    qed (use k in simp)
    note t = take_wf [OF w n(1), folded N_def, OF this refl, of "rb_freesize rb + n"]
    have "copy_out_data rb n = Some (circ (rb_mem rb) (rb_head rb) n,
        rb\<lparr>rb_head := rb_head rb + n, rb_freesize := rb_freesize rb + n\<rparr>)"
      using False \<open>rb_head rb + n \<le> N\<close> N by (auto simp: copy_out_data_def Let_def k_def N_def read_at_circ)
    with t show ?thesis by simp
  qed
qed

text \<open>A block written in one piece.\<close>

lemma block_in_wf:
  assumes w: "rb_wf rb used" and t: "rb_tail rb + length bs \<le> rb_end rb"
    and n: "used + length bs \<le> rb_end rb"
  shows "\<exists>m. write_at (rb_mem rb) (rb_tail rb) bs = Some m \<and>
     rb_wf (rb\<lparr>rb_mem := m, rb_tail := rb_tail rb + length bs, rb_freesize := f\<rparr>) (used + length bs) \<and>
     contents (rb\<lparr>rb_mem := m, rb_tail := rb_tail rb + length bs, rb_freesize := f\<rparr>) (used + length bs)
       = contents rb used @ bs"
proof -
  have N: "length (rb_mem rb) = rb_end rb" "0 < rb_end rb" using w by (simp_all add: rb_wf_def)
  obtain m where m: "write_at (rb_mem rb) (rb_tail rb) bs = Some m" using t N by (simp add: write_at_def)
  have "length m = rb_end rb" using write_at_nth [OF m] N by simp
  moreover have th: "rb_tail rb mod rb_end rb = (rb_head rb + used) mod rb_end rb"
    using w by (simp add: rb_wf_def)
  moreover have "(rb_tail rb + length bs) mod rb_end rb = (rb_head rb + (used + length bs)) mod rb_end rb"
    using th by (metis add.assoc mod_add_left_eq)
  moreover have "circ m (rb_head rb) (used + length bs) = circ (rb_mem rb) (rb_head rb) used @ bs"
    by (rule circ_wrote [OF wrote_at [OF m]]) (use N th n in simp_all)
  ultimately show ?thesis using w m t n by (auto simp: rb_wf_def contents_def)
qed

section \<open>The contract of a message FIFO\<close>

text \<open>\<open>holds rb ms\<close>: the buffer holds the messages \<open>ms\<close>, oldest first.\<close>

locale msg_fifo =
  fixes push :: "k_ringbuf \<Rightarrow> u8 list \<Rightarrow> k_ringbuf option"
    and pop :: "k_ringbuf \<Rightarrow> (u8 list \<times> k_ringbuf) option"
    and holds :: "k_ringbuf \<Rightarrow> u8 list list \<Rightarrow> bool"
    and fits :: "k_ringbuf \<Rightarrow> u8 list list \<Rightarrow> u8 list \<Rightarrow> bool"
  assumes push_appends: "holds rb ms \<Longrightarrow> fits rb ms m \<Longrightarrow> \<exists>rb'. push rb m = Some rb' \<and> holds rb' (ms @ [m])"
    and pop_takes: "holds rb (m # ms) \<Longrightarrow> \<exists>rb'. pop rb = Some (m, rb') \<and> holds rb' ms"

fun pop_many :: "('rb \<Rightarrow> ('m \<times> 'rb) option) \<Rightarrow> nat \<Rightarrow> 'rb \<Rightarrow> ('m list \<times> 'rb) option" where
  "pop_many pop 0 rb = Some ([], rb)"
| "pop_many pop (Suc n) rb =
     Option.bind (pop rb) (\<lambda>(m, rb'). map_option (\<lambda>(ms, rb''). (m # ms, rb'')) (pop_many pop n rb'))"

context msg_fifo
begin

lemma drain: "holds rb (ms @ rest) \<Longrightarrow> \<exists>rb'. pop_many pop (length ms) rb = Some (ms, rb') \<and> holds rb' rest"
proof (induction ms arbitrary: rb)
  case (Cons m ms)
  from pop_takes [of rb m "ms @ rest"] Cons.prems
  obtain rb1 where p: "pop rb = Some (m, rb1)" "holds rb1 (ms @ rest)" by auto
  from Cons.IH [OF p(2)] p(1) show ?case by auto
qed simp

text \<open>A message comes out after all that were there before it.\<close>

lemma push_then_drain:
  assumes "holds rb ms" "fits rb ms m"
  shows "\<exists>rb' rb''. push rb m = Some rb' \<and> pop_many pop (Suc (length ms)) rb' = Some (ms @ [m], rb'') \<and> holds rb'' []"
proof -
  obtain rb' where p: "push rb m = Some rb'" "holds rb' (ms @ [m])" using push_appends [OF assms] by auto
  with drain [of rb' "ms @ [m]" "[]"] show ?thesis by auto
qed

end

section \<open>Messages of variable length\<close>

definition encode_msg :: "u8 list \<Rightarrow> u8 list" where
  "encode_msg m = size_bytes (length m) @ m"

definition dyn_holds :: "k_ringbuf \<Rightarrow> u8 list list \<Rightarrow> bool" where
  "dyn_holds rb ms \<longleftrightarrow>
     rb_type rb = RINGBUF_TYPE_DYN \<and> rb_end rb < 2 ^ 32 \<and> (\<forall>m \<in> set ms. m \<noteq> []) \<and>
     rb_wf rb (length (concat (map encode_msg ms))) \<and>
     contents rb (length (concat (map encode_msg ms))) = concat (map encode_msg ms) \<and>
     rb_freesize rb = rb_end rb - length (concat (map encode_msg ms))"

definition dyn_fits :: "k_ringbuf \<Rightarrow> u8 list \<Rightarrow> bool" where
  "dyn_fits rb m \<longleftrightarrow> m \<noteq> [] \<and> RING_BUF_LEN + length m \<le> rb_freesize rb"

definition ring_push :: "k_ringbuf \<Rightarrow> u8 list \<Rightarrow> k_ringbuf option" where
  "ring_push rb m = Option.bind (ringbuf_push rb m (length m))
     (\<lambda>(st, rb'). if st = RHINO_SUCCESS then Some rb' else None)"

definition ring_pop :: "k_ringbuf \<Rightarrow> (u8 list \<times> k_ringbuf) option" where
  "ring_pop rb = map_option (\<lambda>(b, n, rb'). (b, rb')) (ringbuf_pop rb)"

lemma length_size_bytes [simp]: "length (size_bytes n) = 4"
  by (simp add: size_bytes_def)

lemma bytes_size_size_bytes:
  assumes "n < 2 ^ 32"
  shows "bytes_size (size_bytes n) = n"
proof -
  have u: "unat (word_of_nat x :: u8) = x mod 256" for x by (simp add: unat_of_nat take_bit_eq_mod)
  have pw: "(256::nat) ^ 0 = 1" "(256::nat) ^ 1 = 256" "(256::nat) ^ 2 = 65536" "(256::nat) ^ 3 = 16777216"
    by simp_all
  have l: "[0..<4] = [0, 1, 2, 3 :: nat]" by (simp add: upt_rec)
  have "bytes_size (size_bytes n) = n mod 256 + 256 * (n div 256 mod 256 +
      256 * (n div 65536 mod 256 + 256 * (n div 16777216 mod 256)))"
    by (simp only: size_bytes_def l list.map bytes_size_def foldr.simps o_apply id_apply u pw div_by_1
        mult_0_right add_0_right)
  also have "n div 16777216 mod 256 = n div 16777216" using assms by simp
  also have "n div 65536 mod 256 + 256 * (n div 16777216) = n div 65536"
    using mod_mult_div_eq [of "n div 65536" 256] by (simp only: div_mult2_eq [symmetric]) simp
  also have "n div 256 mod 256 + 256 * (n div 65536) = n div 256"
    using mod_mult_div_eq [of "n div 256" 256] by (simp only: div_mult2_eq [symmetric]) simp
  also have "n mod 256 + 256 * (n div 256) = n" by simp
  finally show ?thesis .
qed

lemma dyn_push_appends:
  assumes h: "dyn_holds rb ms" and f: "dyn_fits rb m"
  shows "\<exists>rb'. ringbuf_push rb m (length m) = Some (RHINO_SUCCESS, rb') \<and> dyn_holds rb' (ms @ [m]) \<and>
     rb_end rb' = rb_end rb"
proof -
  define used where "used = length (concat (map encode_msg ms))"
  have w: "rb_wf rb used" and c: "contents rb used = concat (map encode_msg ms)"
    and fr: "rb_freesize rb = rb_end rb - used" and N: "rb_end rb < 2 ^ 32" and ty: "rb_type rb = RINGBUF_TYPE_DYN"
    using h by (simp_all add: dyn_holds_def used_def)
  have m: "0 < length m" "used + (4 + length m) \<le> rb_end rb" "4 + length m < 2 ^ 32"
    using f fr N w by (auto simp: dyn_fits_def RING_BUF_LEN_def rb_wf_def)
  let ?t1 = "wrap_tail rb"
  have t1: "rb_wf ?t1 used" "contents ?t1 used = contents rb used" "rb_tail ?t1 < rb_end ?t1"
    using wrap_tail_wf [OF w] by auto
  obtain r1 where r1: "copy_in ?t1 (size_bytes (length m)) = Some r1" "rb_wf r1 (used + 4)"
    "contents r1 (used + 4) = contents rb used @ size_bytes (length m)" "rb_end r1 = rb_end rb"
    "rb_type r1 = rb_type rb" "rb_freesize r1 = rb_freesize rb - 4"
    using copy_in_wf [OF t1(1,3), of "size_bytes (length m)"] m t1(2) by auto
  let ?t2 = "wrap_tail r1"
  have t2: "rb_wf ?t2 (used + 4)" "contents ?t2 (used + 4) = contents r1 (used + 4)" "rb_tail ?t2 < rb_end ?t2"
    using wrap_tail_wf [OF r1(2)] by auto
  obtain r2 where r2: "copy_in ?t2 m = Some r2" "rb_wf r2 (used + 4 + length m)"
    "contents r2 (used + 4 + length m) = contents ?t2 (used + 4) @ m" "rb_end r2 = rb_end rb"
    "rb_type r2 = rb_type rb" "rb_freesize r2 = rb_freesize rb - 4 - length m"
    using copy_in_wf [OF t2(1,3), of m] m r1 by auto
  have "ringbuf_push rb m (length m) = Some (RHINO_SUCCESS, r2)"
    using ty m f r1(1) r2(1)
    by (simp add: ringbuf_push_def RINGBUF_TYPE_DYN_def RINGBUF_TYPE_FIX_def RING_BUF_LEN_def
        dyn_fits_def read_at_def)
  moreover have "dyn_holds r2 (ms @ [m])"
    using r2 r1 t2 c h m ty fr
    by (simp add: dyn_holds_def encode_msg_def used_def [symmetric] add.assoc)
  ultimately show ?thesis using r2(4) by blast
qed

lemma dyn_pop_takes:
  assumes h: "dyn_holds rb (m # ms)"
  shows "\<exists>rb'. ringbuf_pop rb = Some (m, length m, rb') \<and> dyn_holds rb' ms \<and> rb_end rb' = rb_end rb"
proof -
  define rest where "rest = concat (map encode_msg ms)"
  define used where "used = 4 + length m + length rest"
  have w: "rb_wf rb used" and c: "contents rb used = size_bytes (length m) @ m @ rest"
    and fr: "rb_freesize rb = rb_end rb - used" and N: "rb_end rb < 2 ^ 32" and ty: "rb_type rb = RINGBUF_TYPE_DYN"
    and m: "m \<noteq> []" and ne: "\<forall>x \<in> set ms. x \<noteq> []"
    using h by (simp_all add: dyn_holds_def used_def rest_def encode_msg_def add.assoc)
  let ?h1 = "wrap_head rb"
  have h1: "rb_wf ?h1 used" "contents ?h1 used = contents rb used" "rb_head ?h1 < rb_end ?h1"
    using wrap_head_wf [OF w] by auto
  obtain r1 where r1: "copy_out_len ?h1 = Some (size_bytes (length m), r1)" "rb_wf r1 (used - 4)"
    "contents r1 (used - 4) = m @ rest" "rb_end r1 = rb_end rb" "rb_type r1 = rb_type rb"
    "rb_freesize r1 = rb_freesize rb + 4"
    using copy_out_len_wf [OF h1(1,3)] h1(2) c by (auto simp: used_def RING_BUF_LEN_def)
  let ?h2 = "wrap_head r1"
  have h2: "rb_wf ?h2 (used - 4)" "contents ?h2 (used - 4) = m @ rest" "rb_head ?h2 < rb_end ?h2"
    using wrap_head_wf [OF r1(2)] r1(3) by auto
  have u: "length m \<le> used - 4" "used - 4 < rb_end ?h2" using w r1(4) by (auto simp: used_def rb_wf_def)
  obtain r2 where r2: "copy_out_data ?h2 (length m) = Some (m, r2)" "rb_wf r2 (used - 4 - length m)"
    "contents r2 (used - 4 - length m) = rest" "rb_end r2 = rb_end rb" "rb_type r2 = rb_type rb"
    "rb_freesize r2 = rb_freesize rb + 4 + length m"
    using copy_out_data_wf [OF h2(1,3) u] h2(2) r1 by auto
  have "length m < 2 ^ 32" using N w by (simp add: used_def rb_wf_def)
  then have "ringbuf_pop rb = Some (m, length m, r2)"
    using ty r1(1) r2(1)
    by (simp add: ringbuf_pop_def RINGBUF_TYPE_DYN_def RINGBUF_TYPE_FIX_def bytes_size_size_bytes)
  moreover have "used - 4 - length m = length rest" by (simp add: used_def)
  moreover have "rb_freesize r2 = rb_end rb - length rest"
    using r2(6) fr w by (simp add: used_def rb_wf_def)
  ultimately show ?thesis using r2 ty N ne by (simp add: dyn_holds_def rest_def)
qed

interpretation dyn: msg_fifo ring_push ring_pop dyn_holds "\<lambda>rb ms. dyn_fits rb"
proof unfold_locales
  show "\<exists>rb'. ring_push rb m = Some rb' \<and> dyn_holds rb' (ms @ [m])"
    if "dyn_holds rb ms" "dyn_fits rb m" for rb ms m
    using dyn_push_appends [OF that] by (auto simp: ring_push_def)
  show "\<exists>rb'. ring_pop rb = Some (m, rb') \<and> dyn_holds rb' ms" if "dyn_holds rb (m # ms)" for rb m ms
    using dyn_pop_takes [OF that] by (auto simp: ring_pop_def)
qed

section \<open>Blocks of one size\<close>

definition blk_holds :: "k_ringbuf \<Rightarrow> u8 list list \<Rightarrow> bool" where
  "blk_holds rb ms \<longleftrightarrow>
     0 < rb_blk_size rb \<and> rb_blk_size rb dvd rb_end rb \<and> rb_blk_size rb dvd rb_head rb \<and>
     rb_blk_size rb dvd rb_tail rb \<and> (\<forall>m \<in> set ms. length m = rb_blk_size rb) \<and>
     rb_wf rb (rb_blk_size rb * length ms) \<and> contents rb (rb_blk_size rb * length ms) = concat ms"

lemma blk_holds_free [simp]: "blk_holds (rb\<lparr>rb_freesize := f\<rparr>) ms = blk_holds rb ms"
  by (simp add: blk_holds_def rb_wf_def contents_def)

lemma blk_push_appends:
  assumes h: "blk_holds rb ms" and m: "length m = rb_blk_size rb"
    and f: "rb_blk_size rb * Suc (length ms) \<le> rb_end rb"
  defines "t \<equiv> wrap_tail rb"
  shows "\<exists>mem. write_at (rb_mem t) (rb_tail t) m = Some mem \<and>
     blk_holds (t\<lparr>rb_mem := mem, rb_tail := rb_tail t + rb_blk_size rb, rb_freesize := fs\<rparr>) (ms @ [m])"
proof -
  define b where "b = rb_blk_size rb"
  have w: "rb_wf rb (b * length ms)" and b: "0 < b" "b dvd rb_end rb" "b dvd rb_head rb" "b dvd rb_tail rb"
    and c: "contents rb (b * length ms) = concat ms" and l: "\<forall>m \<in> set ms. length m = b"
    using h by (simp_all add: blk_holds_def b_def)
  have t: "rb_wf t (b * length ms)" "contents t (b * length ms) = concat ms" "rb_tail t < rb_end rb"
    "rb_end t = rb_end rb" "b dvd rb_tail t" "rb_head t = rb_head rb" "rb_blk_size t = b"
    using wrap_tail_wf [OF w] c b by (auto simp: t_def wrap_tail_def b_def)
  have "b dvd rb_end rb - rb_tail t" using b(2) t(5) t(3) by (simp add: dvd_diff_nat)
  then have fit: "rb_tail t + length m \<le> rb_end t"
    using t(3,4) m b(1) dvd_imp_le [of b "rb_end rb - rb_tail t"] by (simp add: b_def)
  have "b * length ms + length m \<le> rb_end t" using f m t(4) by (simp add: b_def)
  from block_in_wf [OF t(1) fit this, of fs] m b l t c
  show ?thesis by (auto simp: blk_holds_def b_def [symmetric] algebra_simps)
qed

lemma blk_pop_takes:
  assumes h: "blk_holds rb (m # ms)"
  defines "t \<equiv> wrap_head rb"
  shows "read_at (rb_mem t) (rb_head t) (rb_blk_size rb) = Some m \<and>
     blk_holds (t\<lparr>rb_head := rb_head t + rb_blk_size rb, rb_freesize := fs\<rparr>) ms"
proof -
  define b where "b = rb_blk_size rb"
  define used where "used = b * Suc (length ms)"
  have w: "rb_wf rb used" and b: "0 < b" "b dvd rb_end rb" "b dvd rb_head rb" "b dvd rb_tail rb"
    and c: "contents rb used = m @ concat ms" and l: "\<forall>m \<in> set ms. length m = b" "length m = b"
    using h by (simp_all add: blk_holds_def b_def used_def)
  have t: "rb_wf t used" "contents t used = m @ concat ms" "rb_head t < rb_end rb"
    "rb_end t = rb_end rb" "b dvd rb_head t" "rb_tail t = rb_tail rb" "rb_blk_size t = b"
    using wrap_head_wf [OF w] c b by (auto simp: t_def wrap_head_def b_def)
  have "b dvd rb_end rb - rb_head t" using b(2) t(5) t(3) by (simp add: dvd_diff_nat)
  then have fit: "rb_head t + b \<le> rb_end t"
    using t(3,4) b(1) dvd_imp_le [of b "rb_end rb - rb_head t"] by simp
  have u: "b \<le> used" "used - b = b * length ms" by (simp_all add: used_def)
  have ln: "length (rb_mem t) = rb_end t" using t(1) by (simp add: rb_wf_def)
  note tk = take_wf [OF t(1) u(1) fit refl, of fs]
  have "read_at (rb_mem t) (rb_head t) b = Some m"
    using read_at_circ [of "rb_head t" b "rb_mem t"] fit ln tk t(2) l(2) by simp
  moreover have "blk_holds (t\<lparr>rb_head := rb_head t + b, rb_freesize := fs\<rparr>) ms"
    using tk t b l u(2) by (simp add: blk_holds_def)
  ultimately show ?thesis by (simp add: b_def)
qed

definition fix_holds :: "k_ringbuf \<Rightarrow> u8 list list \<Rightarrow> bool" where
  "fix_holds rb ms \<longleftrightarrow> rb_type rb = RINGBUF_TYPE_FIX \<and> blk_holds rb ms \<and>
     rb_freesize rb = rb_end rb - rb_blk_size rb * length ms"

definition fix_fits :: "k_ringbuf \<Rightarrow> u8 list \<Rightarrow> bool" where
  "fix_fits rb m \<longleftrightarrow> length m = rb_blk_size rb \<and> rb_blk_size rb \<le> rb_freesize rb"

lemma fix_push_appends:
  assumes h: "fix_holds rb ms" and f: "fix_fits rb m"
  shows "\<exists>rb'. ringbuf_push rb m n = Some (RHINO_SUCCESS, rb') \<and> fix_holds rb' (ms @ [m]) \<and>
     rb_end rb' = rb_end rb \<and> rb_blk_size rb' = rb_blk_size rb"
proof -
  let ?t = "wrap_tail rb" and ?b = "rb_blk_size rb"
  have b: "blk_holds rb ms" and ty: "rb_type rb = RINGBUF_TYPE_FIX" and fr: "rb_freesize rb = rb_end rb - ?b * length ms"
    using h by (simp_all add: fix_holds_def)
  have m: "length m = ?b" "?b \<le> rb_freesize rb" using f by (simp_all add: fix_fits_def)
  have "0 < ?b" using b by (simp add: blk_holds_def)
  then have "?b * Suc (length ms) \<le> rb_end rb" using m fr by simp
  from blk_push_appends [OF b m(1) this, of "rb_freesize rb - ?b"]
  obtain mem where mem: "write_at (rb_mem ?t) (rb_tail ?t) m = Some mem"
    "blk_holds (?t\<lparr>rb_mem := mem, rb_tail := rb_tail ?t + ?b, rb_freesize := rb_freesize rb - ?b\<rparr>) (ms @ [m])"
    by auto
  have "ringbuf_push rb m n = Some (RHINO_SUCCESS,
      ?t\<lparr>rb_mem := mem, rb_tail := rb_tail ?t + ?b, rb_freesize := rb_freesize rb - ?b\<rparr>)"
    using ty m mem(1) by (simp add: ringbuf_push_def Let_def read_at_def)
  with mem(2) ty fr show ?thesis by (simp add: fix_holds_def)
qed

lemma fix_pop_takes:
  assumes h: "fix_holds rb (m # ms)"
  shows "\<exists>rb'. ringbuf_pop rb = Some (m, rb_blk_size rb, rb') \<and> fix_holds rb' ms \<and>
     rb_end rb' = rb_end rb \<and> rb_blk_size rb' = rb_blk_size rb"
proof -
  let ?t = "wrap_head rb" and ?b = "rb_blk_size rb"
  have b: "blk_holds rb (m # ms)" and ty: "rb_type rb = RINGBUF_TYPE_FIX"
    and fr: "rb_freesize rb = rb_end rb - ?b * length (m # ms)"
    using h by (simp_all add: fix_holds_def)
  have "?b * length (m # ms) \<le> rb_end rb" using b by (simp add: blk_holds_def rb_wf_def)
  then have "rb_freesize rb + ?b = rb_end rb - ?b * length ms" using fr by simp
  with blk_pop_takes [OF b, of "rb_freesize rb + ?b"] ty show ?thesis
    by (simp add: ringbuf_pop_def Let_def fix_holds_def)
qed

interpretation fixed: msg_fifo ring_push ring_pop fix_holds "\<lambda>rb ms. fix_fits rb"
proof unfold_locales
  show "\<exists>rb'. ring_push rb m = Some rb' \<and> fix_holds rb' (ms @ [m])"
    if "fix_holds rb ms" "fix_fits rb m" for rb ms m
    using fix_push_appends [OF that, of "length m"] by (auto simp: ring_push_def)
  show "\<exists>rb'. ring_pop rb = Some (m, rb') \<and> fix_holds rb' ms" if "fix_holds rb (m # ms)" for rb m ms
    using fix_pop_takes [OF that] by (auto simp: ring_pop_def)
qed

section \<open>Queues of pointers\<close>

lemma queue_push_appends:
  assumes "blk_holds rb ms" "length m = rb_blk_size rb" "rb_blk_size rb * Suc (length ms) \<le> rb_end rb"
  shows "\<exists>rb'. ringbuf_queue_push rb m = Some rb' \<and> blk_holds rb' (ms @ [m]) \<and> rb_end rb' = rb_end rb \<and>
     rb_blk_size rb' = rb_blk_size rb"
proof -
  let ?t = "wrap_tail rb"
  obtain mem where mem: "write_at (rb_mem ?t) (rb_tail ?t) m = Some mem"
    "blk_holds (?t\<lparr>rb_mem := mem, rb_tail := rb_tail ?t + rb_blk_size rb, rb_freesize := rb_freesize ?t\<rparr>) (ms @ [m])"
    using blk_push_appends [OF assms, of "rb_freesize ?t"] by auto
  have "ringbuf_queue_push rb m = Some (?t\<lparr>rb_mem := mem, rb_tail := rb_tail ?t + rb_blk_size rb\<rparr>)"
    using mem(1) assms(2) by (simp add: ringbuf_queue_push_def Let_def read_at_def)
  with mem(2) show ?thesis by simp
qed

lemma queue_pop_takes:
  assumes "blk_holds rb (m # ms)"
  shows "\<exists>rb'. ringbuf_queue_pop rb = Some (m, rb') \<and> blk_holds rb' ms \<and> rb_end rb' = rb_end rb \<and>
     rb_blk_size rb' = rb_blk_size rb"
proof -
  let ?t = "wrap_head rb"
  from blk_pop_takes [OF assms, of "rb_freesize ?t"]
  show ?thesis by (simp add: ringbuf_queue_pop_def Let_def)
qed

interpretation pointers: msg_fifo ringbuf_queue_push ringbuf_queue_pop blk_holds
  "\<lambda>rb ms m. length m = rb_blk_size rb \<and> rb_blk_size rb * Suc (length ms) \<le> rb_end rb"
  using queue_push_appends queue_pop_takes by unfold_locales blast+

text \<open>An empty buffer.\<close>

lemma reset_holds:
  assumes "0 < rb_end rb" "length (rb_mem rb) = rb_end rb"
  shows "rb_type rb = RINGBUF_TYPE_DYN \<Longrightarrow> rb_end rb < 2 ^ 32 \<Longrightarrow> dyn_holds (ringbuf_reset rb) []"
    and "0 < rb_blk_size rb \<Longrightarrow> rb_blk_size rb dvd rb_end rb \<Longrightarrow> blk_holds (ringbuf_reset rb) []"
    and "rb_type rb = RINGBUF_TYPE_FIX \<Longrightarrow> 0 < rb_blk_size rb \<Longrightarrow> rb_blk_size rb dvd rb_end rb \<Longrightarrow>
      fix_holds (ringbuf_reset rb) []"
  using assms by (simp_all add: dyn_holds_def fix_holds_def blk_holds_def ringbuf_reset_def rb_wf_def
      contents_def circ_def)

end
