(* ===== verification/K_Wake.thy ===== *)
theory K_Wake
  imports K_Prio Ring_Fifo
begin

text \<open>
  What the services share: the invariant \<open>kwf\<close> of a kernel state, the loops that empty a
  block list, blocking the running task, and the rules for leaving a critical section with or
  without a reschedule.
\<close>

section \<open>The invariant the services keep\<close>

definition idle_inv :: "kernel \<Rightarrow> bool" where
  "idle_inv s \<longleftrightarrow> (\<forall>t. b_prio (tcb s t) = RHINO_IDLE_PRI \<longrightarrow> task_state (tcb s t) = K_RDY)"

text \<open>The buffer of a queue holds as many messages as the queue counts.\<close>

definition queue_ok :: "kqueue_t \<Rightarrow> bool" where
  "queue_ok q \<longleftrightarrow> (\<exists>ms. blk_holds (q_ringbuf q) ms \<and> length ms = cur_num (msg_q q)) \<and>
     rb_blk_size (q_ringbuf q) = 4 \<and> rb_end (q_ringbuf q) = 4 * q_size (msg_q q) \<and>
     cur_num (msg_q q) \<le> q_size (msg_q q)"

definition bq_msgs :: "kbuf_queue_t \<Rightarrow> u8 list list \<Rightarrow> bool" where
  "bq_msgs q ms \<longleftrightarrow> length ms = bq_cur_num q \<and>
     (dyn_holds (bq_ringbuf q) ms \<or> fix_holds (bq_ringbuf q) ms \<and> rb_blk_size (bq_ringbuf q) = max_msg_size q)"

definition bufq_ok :: "kbuf_queue_t \<Rightarrow> bool" where
  "bufq_ok q \<longleftrightarrow> (\<exists>ms. bq_msgs q ms)"

definition data_inv :: "kernel \<Rightarrow> bool" where
  "data_inv s \<longleftrightarrow>
     (\<forall>ob. (obj_type (blk s ob) = RHINO_QUEUE_OBJ_TYPE \<longrightarrow> queue_ok (queues s ob)) \<and>
           (obj_type (blk s ob) = RHINO_BUF_QUEUE_OBJ_TYPE \<longrightarrow> bufq_ok (buf_queues s ob)))"

definition kwf :: "kernel \<Rightarrow> bool" where
  "kwf s \<longleftrightarrow> kinv s \<and> settled s \<and> minv s \<and> task_list_inv s \<and> idle_inv s \<and> data_inv s \<and> no_self s"

lemma data_inv_cong:
  "(\<And>ob. obj_type (blk s' ob) = obj_type (blk s ob)) \<Longrightarrow> queues s' = queues s \<Longrightarrow>
   buf_queues s' = buf_queues s \<Longrightarrow> data_inv s' = data_inv s"
  by (simp add: data_inv_def)

lemma kwf_blocked_not_idle: "kwf s \<Longrightarrow> blocked (tcb s t) \<Longrightarrow> b_prio (tcb s t) \<noteq> RHINO_IDLE_PRI"
  by (auto simp: kwf_def idle_inv_def blocked_def)

text \<open>The processor runs a ready task. Within an interrupt that may switch when it ends, the
  running task may have been suspended, but it cannot be waiting or deleted.\<close>

definition runnable :: "ktask \<Rightarrow> bool" where
  "runnable k \<longleftrightarrow> task_state k = K_RDY \<or> task_state k = K_SUSPENDED"

definition act_inv :: "kernel \<Rightarrow> bool" where
  "act_inv s \<longleftrightarrow> runnable (tcb s (g_active_task s)) \<and> (g_intrpt_nested_level s = 0 \<or> g_sched_lock s \<noteq> 0 \<longrightarrow>
     task_state (tcb s (g_active_task s)) = K_RDY)"

text \<open>A service that starts in a good state ends in one, and records no fault; only a change
  of priority through a circle of waiting tasks may fail to return.\<close>

definition good :: "kernel \<Rightarrow> kernel \<Rightarrow> bool" where
  "good s s' \<longleftrightarrow> kwf s' \<and> act_inv s' \<and> traps_ok s s'"

lemma kwf_core_sched [simp]: "kwf (core_sched s) = kwf s"
  using waits_for_cong [of "core_sched s" s]
  by (simp add: kwf_def settled_def task_list_inv_def idle_inv_def data_inv_def no_self_def)

lemma live_in_list: "task_list_inv s \<Longrightarrow> live (tcb s t) \<longleftrightarrow> t \<in> set (l_task_head (g_kobj_list s))"
  by (simp add: task_list_inv_def)

lemma runnable_live: "runnable k \<Longrightarrow> live k \<and> \<not> blocked k \<and> \<not> sleeping k"
  by (auto simp: runnable_def live_def blocked_def sleeping_def)

lemma act_inv_core_sched:
  assumes k: "kinv s" and l: "act_inv s \<or> g_sched_lock s = 0 \<and> g_intrpt_nested_level s = 0"
  shows "act_inv (core_sched s)"
proof (cases "g_sched_lock s = 0 \<and> g_intrpt_nested_level s = 0")
  case True
  then show ?thesis using core_sched_best [OF k] by (simp add: act_inv_def runnable_def)
next
  case False
  then have "core_sched s = s" by (auto simp: core_sched_def word_gt_0)
  with False l show ?thesis by (auto simp: act_inv_def)
qed

lemma good_refl: "kwf s \<Longrightarrow> act_inv s \<Longrightarrow> good s s"
  by (simp add: good_def)

lemma good_resched:
  assumes k: "kwf s1" and t: "traps_ok s s1"
    and l: "act_inv s1 \<or> g_sched_lock s1 = 0 \<and> g_intrpt_nested_level s1 = 0"
  shows "good s (core_sched s1)"
proof -
  have ki: "kinv s1" using k by (simp add: kwf_def)
  then show ?thesis
    using k t act_inv_core_sched [OF ki l] core_sched_traps [OF ki] by (simp add: good_def traps_ok_def)
qed

text \<open>Steps that may each change priorities.\<close>

lemma traps_ok_trans:
  assumes a: "traps_ok s s2" and b: "traps_ok s2 s3" and l: "all_listed s2"
    and w: "acyclic (waits_for s) \<Longrightarrow> acyclic (waits_for s2)"
  shows "traps_ok s s3"
proof -
  obtain m n where "traps s2 = traps s @ replicate m Diverged" "traps s3 = traps s2 @ replicate n Diverged"
    using a b by (auto simp: traps_ok_def)
  then have "traps s3 = traps s @ replicate (m + n) Diverged" by (simp add: replicate_add)
  then show ?thesis using a b l w unfolding traps_ok_def by metis
qed

text \<open>Two steps of which only the second may change priorities.\<close>

lemma traps_ok_step:
  assumes "traps_ok s2 s3" "traps s2 = traps s" "all_listed s2" "acyclic (waits_for s) \<Longrightarrow> acyclic (waits_for s2)"
  shows "traps_ok s s3"
  using assms by (auto simp: traps_ok_def)

lemma good_sched:
  assumes a: "act_inv s" and k: "kwf s1" and t: "traps_ok s s1" and ac: "g_active_task s1 = g_active_task s"
    and l: "(runnable (tcb s (g_active_task s)) \<longrightarrow>
               task_state (tcb s1 (g_active_task s)) = task_state (tcb s (g_active_task s))) \<and>
               g_intrpt_nested_level s1 = g_intrpt_nested_level s \<and> g_sched_lock s1 = g_sched_lock s \<or>
            g_sched_lock s1 = 0 \<and> g_intrpt_nested_level s1 = 0"
  shows "good s (core_sched s1)"
proof (rule good_resched [OF k t])
  show "act_inv s1 \<or> g_sched_lock s1 = 0 \<and> g_intrpt_nested_level s1 = 0"
    using a l ac by (auto simp: act_inv_def runnable_def)
qed

lemma good_exit:
  assumes "act_inv s" "kwf s1" "traps s1 = traps s"
    and "task_state (tcb s1 (g_active_task s)) = task_state (tcb s (g_active_task s))"
    and "g_active_task s1 = g_active_task s" "g_sched_lock s1 = g_sched_lock s"
    "g_intrpt_nested_level s1 = g_intrpt_nested_level s"
  shows "good s s1"
  using assms by (simp add: good_def act_inv_def runnable_def)

lemma if_rule: "(c \<Longrightarrow> P a) \<Longrightarrow> (\<not> c \<Longrightarrow> P b) \<Longrightarrow> P (if c then a else b)"
  by simp

text \<open>Changes the invariant does not see.\<close>

lemma kwf_same_view:
  assumes k: "kwf s" and v: "same_view s s'" and w: "\<And>ob. waitable s ob \<Longrightarrow> waitable s' ob"
    and m: "\<And>t. mutex_list (tcb s' t) = mutex_list (tcb s t)"
    and o: "\<And>ob. mutex_task (mutexes s' ob) = mutex_task (mutexes s ob)"
    and l: "l_task_head (g_kobj_list s') = l_task_head (g_kobj_list s)"
    and q: "queues s' = queues s" "buf_queues s' = buf_queues s"
  shows "kwf s'"
proof -
  have t: "task_state (tcb s' t) = task_state (tcb s t)" "b_prio (tcb s' t) = b_prio (tcb s t)"
    "blk_obj (tcb s' t) = blk_obj (tcb s t)" for t
    using v by (auto simp: same_view_def task_view_def)
  have b: "blk s' = blk s" using v by (simp add: same_view_def)
  have "kinv s'" using kinv_same_view [OF v _ w] k by (simp add: kwf_def)
  moreover have "settled s'" using k by (simp add: kwf_def settled_def b)
  moreover have "minv s'"
    by (rule minv_cong [of s' s]) (use k in \<open>simp_all add: kwf_def live_def t b m o\<close>)
  moreover have "task_list_inv s'" using k by (simp add: kwf_def task_list_inv_def l live_def t)
  moreover have "idle_inv s'" using k by (simp add: kwf_def idle_inv_def t)
  moreover have "data_inv s'" using k data_inv_cong [of s' s] q by (simp add: kwf_def b)
  moreover have "no_self s'" using k waits_for_cong [of s' s] by (simp add: kwf_def no_self_def blocked_def t b o)
  ultimately show ?thesis by (simp add: kwf_def)
qed

section \<open>Tasks that leave a block list\<close>

definition left_wait :: "blk_state_t \<Rightarrow> kernel \<Rightarrow> tid set \<Rightarrow> kernel \<Rightarrow> bool" where
  "left_wait bs s T s' \<longleftrightarrow>
     (\<forall>u. u \<notin> T \<longrightarrow> tcb s' u = tcb s u) \<and>
     (\<forall>u \<in> T. blocked (tcb s u) \<and> task_state (tcb s' u) = (if task_state (tcb s u) = K_PEND then K_RDY else K_SUSPENDED) \<and>
        blk_obj (tcb s' u) = None \<and> blk_state (tcb s' u) = bs) \<and>
     (\<forall>u. prio (tcb s' u) = prio (tcb s u) \<and> b_prio (tcb s' u) = b_prio (tcb s u) \<and>
        mutex_list (tcb s' u) = mutex_list (tcb s u) \<and> cancel (tcb s' u) = cancel (tcb s u) \<and>
        suspend_count (tcb s' u) = suspend_count (tcb s u) \<and>
        task_mm_flag (tcb s' u) = task_mm_flag (tcb s u)) \<and>
     (\<forall>ob. blk s' ob = (blk s ob)\<lparr>blk_list := filter (\<lambda>u. u \<notin> T) (blk_list (blk s ob))\<rparr>) \<and>
     sems s' = sems s \<and> mutexes s' = mutexes s \<and> event_flags s' = event_flags s \<and>
     queues s' = queues s \<and> buf_queues s' = buf_queues s \<and> cells s' = cells s \<and> bufs s' = bufs s \<and>
     g_tick_count s' = g_tick_count s \<and> g_kobj_list s' = g_kobj_list s \<and>
     g_active_task s' = g_active_task s \<and> g_sched_lock s' = g_sched_lock s \<and>
     g_intrpt_nested_level s' = g_intrpt_nested_level s \<and> g_sys_stat s' = g_sys_stat s \<and>
     traps s' = traps s"

lemma left_wait_empty [simp]: "left_wait bs s {} s"
  by (simp add: left_wait_def)

lemma left_wait_union:
  assumes a: "left_wait bs s {t} s1" and b: "left_wait bs s1 T s2" and t: "t \<notin> T"
  shows "left_wait bs s (insert t T) s2"
  unfolding left_wait_def
proof (intro conjI allI impI ballI)
  fix u assume "u \<notin> insert t T"
  then show "tcb s2 u = tcb s u" using a b by (simp add: left_wait_def)
next
  fix u assume u: "u \<in> insert t T"
  show "blocked (tcb s u)"
  proof (cases "u = t")
    case False
    then have "tcb s1 u = tcb s u" "u \<in> T" using a u by (simp_all add: left_wait_def)
    with b show ?thesis by (auto simp: left_wait_def)
  qed (use a in \<open>simp add: left_wait_def\<close>)
  have "task_state (tcb s2 u) = (if task_state (tcb s u) = K_PEND then K_RDY else K_SUSPENDED) \<and>
      blk_obj (tcb s2 u) = None \<and> blk_state (tcb s2 u) = bs"
  proof (cases "u = t")
    case True
    then have "tcb s2 u = tcb s1 t" using b t by (simp add: left_wait_def)
    with True a show ?thesis by (simp add: left_wait_def)
  next
    case False
    then have "tcb s1 u = tcb s u" "u \<in> T" using a u by (simp_all add: left_wait_def)
    with b show ?thesis by (simp add: left_wait_def)
  qed
  then show "task_state (tcb s2 u) = (if task_state (tcb s u) = K_PEND then K_RDY else K_SUSPENDED)"
    "blk_obj (tcb s2 u) = None" "blk_state (tcb s2 u) = bs" by auto
next
  fix ob
  have "blk s2 ob = (blk s1 ob)\<lparr>blk_list := filter (\<lambda>u. u \<notin> T) (blk_list (blk s1 ob))\<rparr>"
    using b by (simp add: left_wait_def)
  moreover have "blk s1 ob = (blk s ob)\<lparr>blk_list := filter (\<lambda>u. u \<notin> {t}) (blk_list (blk s ob))\<rparr>"
    using a by (simp add: left_wait_def)
  ultimately show "blk s2 ob = (blk s ob)\<lparr>blk_list := filter (\<lambda>u. u \<notin> insert t T) (blk_list (blk s ob))\<rparr>"
    by (simp add: conj_commute)
qed (use a b in \<open>simp_all add: left_wait_def\<close>)

lemma left_wait_task:
  assumes "left_wait bs s T s'"
  shows "prio (tcb s' u) = prio (tcb s u)" "b_prio (tcb s' u) = b_prio (tcb s u)"
    "mutex_list (tcb s' u) = mutex_list (tcb s u)" "cancel (tcb s' u) = cancel (tcb s u)"
    "u \<notin> T \<Longrightarrow> tcb s' u = tcb s u" "task_mm_flag (tcb s' u) = task_mm_flag (tcb s u)"
    "u \<in> T \<Longrightarrow> task_state (tcb s' u) = (if task_state (tcb s u) = K_PEND then K_RDY else K_SUSPENDED)"
    "u \<in> T \<Longrightarrow> blk_obj (tcb s' u) = None" "u \<in> T \<Longrightarrow> blk_state (tcb s' u) = bs"
  using assms by (auto simp: left_wait_def)

lemma left_wait_obj:
  assumes "left_wait bs s T s'"
  shows "blk_list (blk s' ob) = filter (\<lambda>u. u \<notin> T) (blk_list (blk s ob))"
    "obj_type (blk s' ob) = obj_type (blk s ob)" "blk_policy (blk s' ob) = blk_policy (blk s ob)"
    "obj_cancel (blk s' ob) = obj_cancel (blk s ob)" "obj_mm_flag (blk s' ob) = obj_mm_flag (blk s ob)"
  using assms by (simp_all add: left_wait_def)

lemma left_wait_rest:
  assumes "left_wait bs s T s'"
  shows "sems s' = sems s" "mutexes s' = mutexes s" "event_flags s' = event_flags s"
    "queues s' = queues s" "buf_queues s' = buf_queues s" "cells s' = cells s" "bufs s' = bufs s"
    "g_tick_count s' = g_tick_count s" "g_kobj_list s' = g_kobj_list s"
    "g_active_task s' = g_active_task s" "g_sched_lock s' = g_sched_lock s"
    "g_intrpt_nested_level s' = g_intrpt_nested_level s" "traps s' = traps s" "g_sys_stat s' = g_sys_stat s"
  using assms by (simp_all add: left_wait_def)

lemmas left_wait_frame = left_wait_task(1-4,6) left_wait_obj left_wait_rest

lemma left_wait_runnable:
  assumes "left_wait bs s T s'" "runnable (tcb s u)"
  shows "tcb s' u = tcb s u"
proof -
  have "u \<notin> T" using assms by (auto simp: left_wait_def runnable_def blocked_def)
  with assms(1) show ?thesis by (simp add: left_wait_def)
qed

lemma left_wait_live:
  assumes "left_wait bs s T s'" "\<And>u. u \<in> T \<Longrightarrow> blocked (tcb s u)"
  shows "live (tcb s' u) = live (tcb s u)"
  using left_wait_task [OF assms(1)] assms(2) [of u]
  by (cases "u \<in> T") (auto simp: live_def blocked_def)

lemma minv_left_wait:
  assumes "left_wait bs s T s'" "\<And>u. u \<in> T \<Longrightarrow> blocked (tcb s u)" "minv s"
  shows "minv s'"
  by (rule minv_cong [of s' s])
    (use assms left_wait_live [OF assms(1,2)] in \<open>simp_all add: left_wait_frame [OF assms(1)]\<close>)

lemma task_list_inv_left_wait:
  assumes "left_wait bs s T s'" "\<And>u. u \<in> T \<Longrightarrow> blocked (tcb s u)" "task_list_inv s"
  shows "task_list_inv s'"
  using assms(3) left_wait_live [OF assms(1,2)]
  by (simp add: task_list_inv_def left_wait_frame [OF assms(1)])

lemma idle_inv_left_wait:
  assumes l: "left_wait bs s T s'" and b: "\<And>u. u \<in> T \<Longrightarrow> blocked (tcb s u)" and i: "idle_inv s"
  shows "idle_inv s'"
  unfolding idle_inv_def
proof (intro allI impI)
  fix u assume "b_prio (tcb s' u) = RHINO_IDLE_PRI"
  then have r: "task_state (tcb s u) = K_RDY" using i by (simp add: idle_inv_def left_wait_frame [OF l])
  then have "u \<notin> T" using b [of u] by (auto simp: blocked_def)
  with r show "task_state (tcb s' u) = K_RDY" by (simp add: left_wait_task(5) [OF l])
qed

text \<open>What the wake-ups have in common: the task leaves its block list and the tick list, and
  is ready unless it is also suspended.\<close>

definition wake_with :: "blk_state_t \<Rightarrow> kernel \<Rightarrow> tid \<Rightarrow> kernel" where
  "wake_with bs s t =
     (let s1 = (if task_state (tcb s t) = K_PEND
                then upd_task (rq_add (blk_list_rm s t) t) t (\<lambda>k. k\<lparr>task_state := K_RDY\<rparr>)
                else upd_task (blk_list_rm s t) t (\<lambda>k. k\<lparr>task_state := K_SUSPENDED\<rparr>))
      in upd_task (tick_list_rm s1 t) t (\<lambda>k. k\<lparr>blk_state := bs, blk_obj := None\<rparr>))"

lemma pend_task_wakeup_eq: "blocked (tcb s t) \<Longrightarrow> pend_task_wakeup s t = wake_with BLK_FINISH s t"
  by (auto simp: pend_task_wakeup_def wake_with_def blocked_def Let_def)

lemma pend_task_rm_eq: "blocked (tcb s t) \<Longrightarrow> pend_task_rm s t = wake_with BLK_DEL s t"
  by (auto simp: pend_task_rm_def wake_with_def blocked_def Let_def)

lemma wake_with_tcb:
  "tcb (wake_with bs s t) = (tcb s)(t := (tcb s t)\<lparr>
     task_state := (if task_state (tcb s t) = K_PEND then K_RDY else K_SUSPENDED),
     tick_head := False, blk_state := bs, blk_obj := None\<rparr>)"
  by (auto simp: wake_with_def Let_def tick_list_rm_tcb fun_eq_iff)

lemma wake_with_lists:
  "blk_list (blk (wake_with bs s t) ob) = remove1 t (blk_list (blk s ob))"
  "blk (wake_with bs s t) ob = (blk s ob)\<lparr>blk_list := remove1 t (blk_list (blk s ob))\<rparr>"
  "g_ready_queue (wake_with bs s t) = (if task_state (tcb s t) = K_PEND
     then ready_list_add (g_ready_queue s) (prio (tcb s t)) t else g_ready_queue s)"
  by (simp_all add: wake_with_def Let_def blk_list_rm_def rq_add_def)

lemma wake_with_frame:
  "sems (wake_with bs s t) = sems s" "mutexes (wake_with bs s t) = mutexes s"
  "event_flags (wake_with bs s t) = event_flags s" "queues (wake_with bs s t) = queues s"
  "buf_queues (wake_with bs s t) = buf_queues s" "cells (wake_with bs s t) = cells s"
  "bufs (wake_with bs s t) = bufs s" "g_tick_count (wake_with bs s t) = g_tick_count s"
  "g_kobj_list (wake_with bs s t) = g_kobj_list s" "g_active_task (wake_with bs s t) = g_active_task s"
  "g_sched_lock (wake_with bs s t) = g_sched_lock s"
  "g_intrpt_nested_level (wake_with bs s t) = g_intrpt_nested_level s"
  "g_sys_stat (wake_with bs s t) = g_sys_stat s" "traps (wake_with bs s t) = traps s"
  by (simp_all add: wake_with_def Let_def)

lemma wake_with_left_wait:
  assumes k: "kinv s" and b: "blocked (tcb s t)"
  shows "left_wait bs s {t} (wake_with bs s t)"
proof -
  have "filter (\<lambda>u. u \<notin> {t}) (blk_list (blk s ob)) = remove1 t (blk_list (blk s ob))" for ob
    using kinv_wait_list [OF k, of ob] by (simp add: distinct_remove1_removeAll removeAll_filter_not_eq eq_commute)
  then show ?thesis using b unfolding left_wait_def by (simp add: wake_with_tcb wake_with_lists(2) wake_with_frame)
qed

lemma wake_with_kinv:
  assumes k: "kinv s" and b: "blocked (tcb s t)"
  shows "kinv (wake_with bs s t)"
proof (rule detach_kinv [OF k])
  show "task_state (tcb s t) \<noteq> K_RDY" using blocked_exclusive [OF b] by simp
  show "tcb (wake_with bs s t) = (tcb s)(t := (tcb s t)\<lparr>
     task_state := (if task_state (tcb s t) = K_PEND then K_RDY else K_SUSPENDED),
     tick_head := False, blk_state := bs, blk_obj := None\<rparr>)" (is "_ = (tcb s)(t := ?k)")
    by (rule wake_with_tcb)
  show "prio_ok ?k" using kinv_prio_ok [OF k, of t] by (simp add: prio_ok_def)
  show "\<not> tick_head ?k" by simp
  show "task_state ?k = K_RDY \<and> g_ready_queue (wake_with bs s t) = ready_list_add (g_ready_queue s) (prio ?k) t
      \<or> task_state ?k \<in> {K_SUSPENDED, K_DELETED} \<and> g_ready_queue (wake_with bs s t) = g_ready_queue s"
    by (simp add: wake_with_lists)
  show "blk_list (blk (wake_with bs s t) ob) = remove1 t (blk_list (blk s ob))"
    "blk_policy (blk (wake_with bs s t) ob) = blk_policy (blk s ob)" for ob
    by (simp_all add: wake_with_lists)
  show "g_tick_list (wake_with bs s t) = remove1 t (g_tick_list s)"
    unfolding wake_with_def Let_def by (auto intro!: tick_list_rm_list [OF k])
  show "g_tick_count (wake_with bs s t) = g_tick_count s" by (rule wake_with_frame)
  show "waitable (wake_with bs s t) ob" if "waitable s ob" for ob
    using that waitable_cong [of "wake_with bs s t" ob s] by (simp add: wake_with_lists wake_with_frame)
qed

section \<open>Loops that empty a block list\<close>

text \<open>The contract of the function such a loop calls on the first waiter.\<close>

locale waker =
  fixes f :: "kernel \<Rightarrow> tid \<Rightarrow> kernel" and bs :: blk_state_t
  assumes wakes: "kinv s \<Longrightarrow> blocked (tcb s t) \<Longrightarrow> kinv (f s t) \<and> left_wait bs s {t} (f s t)"
begin

lemma wake_loop_empties:
  "kinv s \<Longrightarrow> length (blk_list (blk s ob)) = n \<Longrightarrow>
   kinv (wake_loop f n ob s) \<and> left_wait bs s (set (blk_list (blk s ob))) (wake_loop f n ob s)"
proof (induction n arbitrary: s)
  case 0
  then show ?case by simp
next
  case (Suc n)
  note k = \<open>kinv s\<close>
  from Suc.prems obtain t ts where l: "blk_list (blk s ob) = t # ts" by (cases "blk_list (blk s ob)") auto
  have b: "blocked (tcb s t)" and d: "t \<notin> set ts"
    using kinv_waiting_on [OF k, of t ob] kinv_wait_list [OF k, of ob] l by auto
  have k1: "kinv (f s t)" and w: "left_wait bs s {t} (f s t)" using wakes [OF k b] by auto
  have l1: "blk_list (blk (f s t) ob) = ts"
    using left_wait_obj(1) [OF w, of ob] l d by (auto simp: filter_id_conv)
  have "kinv (wake_loop f n ob (f s t)) \<and> left_wait bs (f s t) (set ts) (wake_loop f n ob (f s t))"
    using Suc.IH [OF k1] l1 Suc.prems l by simp
  moreover have "left_wait bs s (insert t (set ts)) s'" if "left_wait bs (f s t) (set ts) s'" for s'
    by (rule left_wait_union [OF w that d, simplified])
  ultimately show ?case using l by simp
qed

lemma wake_all_empties:
  "kinv s \<Longrightarrow> kinv (wake_all f ob s) \<and> left_wait bs s (set (blk_list (blk s ob))) (wake_all f ob s)
     \<and> blk_list (blk (wake_all f ob s) ob) = []"
  using wake_loop_empties [of s ob] left_wait_obj(1) [of bs s "set (blk_list (blk s ob))" "wake_all f ob s" ob]
  by (simp add: wake_all_def)

lemma wake_first:
  assumes "kinv s" "blk_list (blk s ob) = t # ts"
  shows "kinv (f s t) \<and> left_wait bs s {t} (f s t) \<and> blk_list (blk (f s t) ob) = ts"
proof -
  have "blocked (tcb s t)" "t \<notin> set ts"
    using kinv_waiting_on [OF assms(1), of t ob] kinv_wait_list [OF assms(1), of ob] assms(2) by auto
  then show ?thesis using wakes [OF assms(1)] left_wait_obj(1) [of bs s "{t}" "f s t" ob] assms(2)
    by (auto simp: filter_id_conv)
qed

end

interpretation wakeup: waker pend_task_wakeup BLK_FINISH
  by unfold_locales (simp add: pend_task_wakeup_eq wake_with_kinv wake_with_left_wait)

interpretation removal: waker pend_task_rm BLK_DEL
  by unfold_locales (simp add: pend_task_rm_eq wake_with_kinv wake_with_left_wait)

lemma list_blocked: "kinv s \<Longrightarrow> u \<in> set (blk_list (blk s ob)) \<Longrightarrow> blocked (tcb s u)"
  using kinv_waiting_on by blast

section \<open>Blocking the running task\<close>

text \<open>The running task may block: it is ready and not the idle task.\<close>

definition can_block :: "kernel \<Rightarrow> bool" where
  "can_block s \<longleftrightarrow> prio (tcb s (g_active_task s)) \<noteq> RHINO_IDLE_PRI"

lemma pend_to_blk_obj_tcb:
  "tcb (pend_to_blk_obj s ob t timeout) = (tcb s)(t := (tcb s t)\<lparr>
     blk_obj := Some ob, task_state := K_PEND,
     tick_match := (if timeout \<noteq> RHINO_WAIT_FOREVER \<and> 0 < timeout then g_tick_count s + timeout
                    else tick_match (tcb s t)),
     tick_remain := (if timeout \<noteq> RHINO_WAIT_FOREVER \<and> 0 < timeout then timeout
                    else tick_remain (tcb s t)),
     tick_head := (if timeout \<noteq> RHINO_WAIT_FOREVER \<and> 0 < timeout then True
                    else tick_head (tcb s t))\<rparr>)"
  by (auto simp: pend_to_blk_obj_def Let_def pend_list_add_def tick_list_insert_def
      tick_list_pri_insert_def fun_eq_iff)

lemma pend_to_blk_obj_frame [simp]:
  "g_tick_count (pend_to_blk_obj s ob t n) = g_tick_count s" "sems (pend_to_blk_obj s ob t n) = sems s"
  "mutexes (pend_to_blk_obj s ob t n) = mutexes s" "g_active_task (pend_to_blk_obj s ob t n) = g_active_task s"
  "g_sched_lock (pend_to_blk_obj s ob t n) = g_sched_lock s"
  "g_intrpt_nested_level (pend_to_blk_obj s ob t n) = g_intrpt_nested_level s"
  "event_flags (pend_to_blk_obj s ob t n) = event_flags s" "queues (pend_to_blk_obj s ob t n) = queues s"
  "buf_queues (pend_to_blk_obj s ob t n) = buf_queues s" "cells (pend_to_blk_obj s ob t n) = cells s"
  "bufs (pend_to_blk_obj s ob t n) = bufs s" "g_kobj_list (pend_to_blk_obj s ob t n) = g_kobj_list s"
  by (simp_all add: pend_to_blk_obj_def Let_def pend_list_add_def)

lemma rq_rm_cong:
  "g_ready_queue s' = g_ready_queue s \<Longrightarrow> prio (tcb s' t) = prio (tcb s t) \<Longrightarrow> traps s' = traps s \<Longrightarrow>
   g_ready_queue (rq_rm s' t) = g_ready_queue (rq_rm s t) \<and> traps (rq_rm s' t) = traps (rq_rm s t)"
  by (simp add: rq_rm_def split_def Let_def)

lemma pend_to_blk_obj_rest:
  "g_ready_queue (pend_to_blk_obj s ob t n) = g_ready_queue (rq_rm s t) \<and>
   traps (pend_to_blk_obj s ob t n) = traps (rq_rm s t)"
proof -
  define s3 where "s3 = upd_task (if n \<noteq> RHINO_WAIT_FOREVER
    then tick_list_insert (upd_task s t (\<lambda>k. k\<lparr>blk_obj := Some ob\<rparr>)) t n
    else upd_task s t (\<lambda>k. k\<lparr>blk_obj := Some ob\<rparr>)) t (\<lambda>k. k\<lparr>task_state := K_PEND\<rparr>)"
  have "g_ready_queue s3 = g_ready_queue s" "traps s3 = traps s" "prio (tcb s3 t) = prio (tcb s t)"
    by (simp_all add: s3_def tick_list_insert_def tick_list_pri_insert_def Let_def)
  from rq_rm_cong [OF this(1,3,2)] show ?thesis
    by (simp add: pend_to_blk_obj_def s3_def [symmetric] Let_def pend_list_add_def)
qed

lemma pend_to_blk_obj_blk:
  assumes "t \<notin> set (blk_list (blk s ob))"
  shows "blk (pend_to_blk_obj s ob t n) = (blk s)(ob := (blk s ob)\<lparr>blk_list :=
     (if blk_policy (blk s ob) = BLK_POLICY_FIFO then blk_list (blk s ob) @ [t]
      else insert_before (\<lambda>u. prio (tcb s t) < prio (tcb s u)) t (blk_list (blk s ob)))\<rparr>)"
proof -
  have "insert_before (\<lambda>u. u \<noteq> t \<and> (u \<noteq> t \<longrightarrow> prio (tcb s t) < prio (tcb s u))) t (blk_list (blk s ob))
      = insert_before (\<lambda>u. prio (tcb s t) < prio (tcb s u)) t (blk_list (blk s ob))"
    using assms by (intro insert_before_cong) auto
  then show ?thesis
    by (auto simp: pend_to_blk_obj_def Let_def pend_list_add_def tick_list_insert_def
        tick_list_pri_insert_def fun_eq_iff)
qed

lemma pend_to_blk_obj_kwf:
  assumes w: "kwf s" and r: "task_state (tcb s t) = K_RDY" and p: "prio (tcb s t) \<noteq> RHINO_IDLE_PRI"
    and ob: "waitable s ob" "obj_type (blk s ob) \<notin> {RHINO_OBJ_TYPE_NONE, RHINO_TIMER_OBJ_TYPE, RHINO_MM_OBJ_TYPE}"
    and ns: "obj_type (blk s ob) = RHINO_MUTEX_OBJ_TYPE \<Longrightarrow> mutex_task (mutexes s ob) \<noteq> Some t"
    and n: "n \<noteq> 0"
  shows "kwf (pend_to_blk_obj s ob t n) \<and> traps (pend_to_blk_obj s ob t n) = traps s"
proof -
  let ?s = "pend_to_blk_obj s ob t n"
  have k: "kinv s" using w by (simp add: kwf_def)
  note nw = ready_not_waiting [OF k r]
  have n0: "0 < n" using n by (simp add: word_gt_0)
  have st: "task_state (tcb ?s u) = (if u = t then K_PEND else task_state (tcb s u))"
    "b_prio (tcb ?s u) = b_prio (tcb s u)" "mutex_list (tcb ?s u) = mutex_list (tcb s u)" for u
    by (auto simp: pend_to_blk_obj_tcb)
  have lv: "live (tcb ?s u) = live (tcb s u)" for u using r by (auto simp: live_def st)
  have bk: "obj_type (blk ?s o') = obj_type (blk s o')" for o'
    using nw(3) by (simp add: pend_to_blk_obj_blk)
  have tl: "g_tick_list ?s = (if n \<noteq> RHINO_WAIT_FOREVER
      then insert_before (\<lambda>u. n < remaining s u) t (g_tick_list s) else g_tick_list s)"
  proof -
    let ?s1 = "upd_task s t (\<lambda>k. k\<lparr>blk_obj := Some ob\<rparr>)"
    have "g_tick_list ?s = (if n \<noteq> RHINO_WAIT_FOREVER then g_tick_list (tick_list_insert ?s1 t n)
        else g_tick_list s)"
      by (simp add: pend_to_blk_obj_def Let_def pend_list_add_def)
    moreover have "g_tick_list (tick_list_insert ?s1 t n)
        = insert_before (\<lambda>u. n < remaining ?s1 u) t (g_tick_list s)"
      using tick_list_insert_list [OF n0, of t ?s1] nw(2) by simp
    moreover have "remaining ?s1 = remaining s" by (simp add: remaining_def fun_eq_iff)
    ultimately show ?thesis by simp
  qed
  have wt: "waitable ?s o'" if "waitable s o'" for o'
    using that waitable_cong [of ?s o' s] bk by simp
  have "kinv ?s"
    by (rule enter_wait_kinv [OF k r p pend_to_blk_obj_tcb, where ob = ob and to = n])
      (use pend_to_blk_obj_rest [of s ob t n] pend_to_blk_obj_blk [OF nw(3)] nw n n0 tl wt ob in auto)
  moreover have "settled ?s"
    using w ob(2) nw(3) unfolding settled_def kwf_def by (auto simp: pend_to_blk_obj_blk)
  moreover have "minv ?s"
    by (rule minv_cong [of ?s s]) (use w in \<open>simp_all add: kwf_def lv st bk\<close>)
  moreover have "task_list_inv ?s" using w by (simp add: kwf_def task_list_inv_def lv)
  moreover have "data_inv ?s" using w data_inv_cong [of ?s s] by (simp add: kwf_def bk)
  moreover have "idle_inv ?s" using w p kinv_prio_ok [OF k, of t] by (auto simp: kwf_def idle_inv_def st prio_ok_def)
  moreover have "no_self ?s"
    using w ns by (auto simp: kwf_def no_self_def waits_for_def pend_to_blk_obj_tcb bk blocked_def split: if_splits)
  moreover have "traps ?s = traps s"
    using pend_to_blk_obj_rest [of s ob t n] rq_rm_holds [OF k r p] by simp
  ultimately show ?thesis by (simp add: kwf_def)
qed

section \<open>Creating and deleting objects\<close>

lemma kwf_fresh_object:
  assumes w: "kwf s" and none: "obj_type (blk s ob) = RHINO_OBJ_TYPE_NONE"
    and same: "tcb s' = tcb s" "g_ready_queue s' = g_ready_queue s" "g_tick_list s' = g_tick_list s"
      "g_tick_count s' = g_tick_count s" "l_task_head (g_kobj_list s') = l_task_head (g_kobj_list s)"
    and b: "blk s' = (blk s)(ob := b)" "blk_list b = []"
    and wt: "\<And>o'. o' \<noteq> ob \<Longrightarrow> waitable s o' \<Longrightarrow> waitable s' o'"
    and mt: "\<And>o'. o' \<noteq> ob \<Longrightarrow> mutex_task (mutexes s' o') = mutex_task (mutexes s o')"
      "obj_type b = RHINO_MUTEX_OBJ_TYPE \<Longrightarrow> mutex_task (mutexes s' ob) = None"
    and q: "\<And>o'. o' \<noteq> ob \<Longrightarrow> queues s' o' = queues s o' \<and> buf_queues s' o' = buf_queues s o'"
      "obj_type b = RHINO_QUEUE_OBJ_TYPE \<Longrightarrow> queue_ok (queues s' ob)"
      "obj_type b = RHINO_BUF_QUEUE_OBJ_TYPE \<Longrightarrow> bufq_ok (buf_queues s' ob)"
  shows "kwf s'"
proof -
  have k: "kinv s" and m: "minv s" and st: "settled s" using w by (simp_all add: kwf_def)
  have e: "blk_list (blk s ob) = []" using st none by (simp add: settled_def)
  have ws: "ready_set s' = ready_set s" "wait_set s' = wait_set s" "remaining s' = remaining s"
    by (simp_all add: fun_eq_iff ready_set_def wait_set_def remaining_def same)
  have nw: "wait_set s ob = {}" using kinv_wait_list [OF k, of ob] e by simp
  have "blk_inv s'"
    using k nw unfolding kinv_def blk_inv_def ws b(1) by (auto simp: same b)
  moreover have "obj_inv s'"
    unfolding obj_inv_def
  proof (intro allI impI)
    fix o' assume "blk_list (blk s' o') \<noteq> []"
    then have "o' \<noteq> ob" "blk_list (blk s o') \<noteq> []" by (auto simp: b split: if_splits)
    with k wt show "waitable s' o'" by (simp add: kinv_def obj_inv_def)
  qed
  moreover have "prio_inv s'" "rq_inv s'" "tick_inv s'"
    using k by (simp_all add: kinv_def prio_inv_def rq_inv_def tick_inv_def ws same)
  ultimately have "kinv s'" by (simp add: kinv_def)
  moreover have "minv s'"
  proof -
    have own: "obj_type (blk s' m) = RHINO_MUTEX_OBJ_TYPE \<and> mutex_task (mutexes s' m) = Some t \<longleftrightarrow>
        obj_type (blk s m) = RHINO_MUTEX_OBJ_TYPE \<and> mutex_task (mutexes s m) = Some t" for m t
      using none mt by (cases "m = ob") (auto simp: b)
    show ?thesis using m unfolding minv_def own same by blast
  qed
  moreover have "settled s'" using st b by (simp add: settled_def)
  moreover have "data_inv s'" using w q by (simp add: kwf_def data_inv_def b)
  moreover have "task_list_inv s'" using w by (simp add: kwf_def task_list_inv_def same)
  moreover have "waits_for s' \<subseteq> waits_for s"
  proof
    fix x assume "x \<in> waits_for s'"
    then obtain t ow m where x: "x = (t, ow)" "blocked (tcb s t)" "blk_obj (tcb s t) = Some m"
      "obj_type (blk s' m) = RHINO_MUTEX_OBJ_TYPE" "mutex_task (mutexes s' m) = Some ow"
      by (auto simp: waits_for_def same)
    have "m \<noteq> ob" using nw x(2,3) by (auto simp: wait_set_def)
    then show "x \<in> waits_for s" using x mt(1) by (simp add: waits_for_def b)
  qed
  then have "no_self s'" using w no_self_subset unfolding kwf_def by blast
  moreover have "idle_inv s'" using w by (simp add: kwf_def idle_inv_def same)
  ultimately show ?thesis by (simp add: kwf_def)
qed

lemma data_inv_left_wait: "left_wait bs s T s' \<Longrightarrow> data_inv s \<Longrightarrow> data_inv s'"
  using data_inv_cong [of s' s] by (simp add: left_wait_frame)

lemma waits_for_left_wait:
  assumes l: "left_wait bs s T s'"
  shows "waits_for s' \<subseteq> waits_for s"
proof -
  have "u \<notin> T" if "blocked (tcb s' u)" for u
    using that left_wait_task(7) [OF l, of u] by (auto simp: blocked_def split: if_splits)
  then show ?thesis using left_wait_task(5) [OF l] by (fastforce simp: waits_for_def left_wait_frame [OF l])
qed

lemma no_self_left_wait: "left_wait bs s T s' \<Longrightarrow> no_self s \<Longrightarrow> no_self s'"
  using no_self_subset waits_for_left_wait by blast

lemma settled_left_wait: "left_wait bs s T s' \<Longrightarrow> settled s \<Longrightarrow> settled s'"
  by (simp add: settled_def left_wait_frame)

lemma kwf_left_wait:
  "kinv s' \<Longrightarrow> left_wait bs s T s' \<Longrightarrow> (\<And>u. u \<in> T \<Longrightarrow> blocked (tcb s u)) \<Longrightarrow> kwf s \<Longrightarrow> kwf s'"
  using minv_left_wait [of bs s T s'] task_list_inv_left_wait [of bs s T s'] settled_left_wait [of bs s T s']
    idle_inv_left_wait [of bs s T s'] data_inv_left_wait [of bs s T s'] no_self_left_wait [of bs s T s']
  by (auto simp: kwf_def)

text \<open>The part of a deletion common to all objects but mutexes.\<close>

lemma kinv_untype: "kinv s \<Longrightarrow> kinv (upd_blk s ob (\<lambda>b. b\<lparr>obj_type := RHINO_OBJ_TYPE_NONE\<rparr>))"
proof -
  assume k: "kinv s"
  let ?s = "upd_blk s ob (\<lambda>b. b\<lparr>obj_type := RHINO_OBJ_TYPE_NONE\<rparr>)"
  have e: "ready_set ?s = ready_set s" "wait_set ?s = wait_set s" "remaining ?s = remaining s"
    by (simp_all add: fun_eq_iff ready_set_def wait_set_def remaining_def)
  have l: "blk_list (blk ?s o') = blk_list (blk s o')" "blk_policy (blk ?s o') = blk_policy (blk s o')" for o'
    by simp_all
  have "waitable ?s o'" if "waitable s o'" for o'
    using that waitable_cong [of ?s o' s] by (cases "o' = ob") (simp_all add: waitable_def)
  with k show "kinv ?s" unfolding inv_defs e l by simp
qed

lemma object_del_kwf:
  assumes w: "kwf s" and nm: "obj_type (blk s ob) \<noteq> RHINO_MUTEX_OBJ_TYPE"
  defines "s1 \<equiv> upd_blk s ob (\<lambda>b. b\<lparr>obj_type := RHINO_OBJ_TYPE_NONE\<rparr>)"
  defines "s' \<equiv> wake_all pend_task_rm ob s1"
  shows "kwf s' \<and> left_wait BLK_DEL s1 (set (blk_list (blk s ob))) s' \<and> blk_list (blk s' ob) = []"
proof -
  have k: "kinv s1" using kinv_untype w by (simp add: s1_def kwf_def)
  have l: "blk_list (blk s1 ob) = blk_list (blk s ob)" by (simp add: s1_def)
  have r: "kinv s'" "left_wait BLK_DEL s1 (set (blk_list (blk s ob))) s'" "blk_list (blk s' ob) = []"
    using removal.wake_all_empties [OF k, of ob] by (simp_all add: s'_def l)
  have m: "minv s1" using w nm by (auto simp: kwf_def minv_def s1_def)
  have t: "task_list_inv s1" "idle_inv s1" "data_inv s1"
    using w by (simp_all add: kwf_def task_list_inv_def idle_inv_def data_inv_def s1_def)
  have "waits_for s1 \<subseteq> waits_for s" by (auto simp: waits_for_def s1_def split: if_splits)
  then have ns: "no_self s1" using w no_self_subset by (auto simp: kwf_def)
  have b: "blocked (tcb s1 u)" if "u \<in> set (blk_list (blk s ob))" for u
    using list_blocked [OF k, of u ob] that l by simp
  have "settled s'"
    using w r(3) unfolding kwf_def settled_def
    by (auto simp: left_wait_frame [OF r(2)] s1_def split: if_splits)
  then show ?thesis
    using r minv_left_wait [OF r(2) b m] task_list_inv_left_wait [OF r(2) b t(1)]
      idle_inv_left_wait [OF r(2) b t(2)] data_inv_left_wait [OF r(2) t(3)] no_self_left_wait [OF r(2) ns]
    by (simp add: kwf_def)
qed

text \<open>The guard \<open>TASK_CANCEL_CHK\<close> of the blocking services.\<close>

definition task_cancel_chk :: "kernel \<Rightarrow> oid \<Rightarrow> bool" where
  "task_cancel_chk s ob \<longleftrightarrow> cancel (tcb s (g_active_task s)) = 1 \<and> obj_cancel (blk s ob) = 1"

text \<open>A change of the object lists other than the task list.\<close>

lemma kwf_kobj_list:
  assumes "kwf s" "l_task_head k = l_task_head (g_kobj_list s)"
  shows "kwf (s\<lparr>g_kobj_list := k\<rparr>)"
proof (rule kwf_same_view [OF assms(1)])
  show "waitable (s\<lparr>g_kobj_list := k\<rparr>) ob" if "waitable s ob" for ob
    using that waitable_cong [of "s\<lparr>g_kobj_list := k\<rparr>" ob s] by simp
qed (use assms(2) in \<open>simp_all add: same_view_def\<close>)

lemma wake_one_kwf:
  assumes w: "kwf s" and l: "blk_list (blk s ob) = t # ts"
  shows "kwf (pend_task_wakeup s t) \<and> left_wait BLK_FINISH s {t} (pend_task_wakeup s t)"
proof -
  have k: "kinv s" using w by (simp add: kwf_def)
  have r: "kinv (pend_task_wakeup s t)" "left_wait BLK_FINISH s {t} (pend_task_wakeup s t)"
    using wakeup.wake_first [OF k l] by auto
  then show ?thesis using kwf_left_wait [OF r(1,2) _ w] list_blocked [OF k, of t ob] l by auto
qed

lemma wake_all_kwf:
  assumes w: "kwf s"
  shows "kwf (wake_all pend_task_wakeup ob s) \<and>
     left_wait BLK_FINISH s (set (blk_list (blk s ob))) (wake_all pend_task_wakeup ob s)"
proof -
  have k: "kinv s" using w by (simp add: kwf_def)
  from wakeup.wake_all_empties [OF k, of ob]
  have r: "kinv (wake_all pend_task_wakeup ob s)"
    "left_wait BLK_FINISH s (set (blk_list (blk s ob))) (wake_all pend_task_wakeup ob s)" by auto
  then show ?thesis using kwf_left_wait [OF r _ w] list_blocked [OF k] by auto
qed

text \<open>Blocking the running task on an object with nothing to give.\<close>

lemma block_good:
  assumes w: "kwf s" "act_inv s" "can_block s" and lk: "g_sched_lock s = 0" "g_intrpt_nested_level s = 0"
    and ob: "waitable s ob" "obj_type (blk s ob) \<notin> {RHINO_OBJ_TYPE_NONE, RHINO_TIMER_OBJ_TYPE, RHINO_MM_OBJ_TYPE}"
    and ns: "obj_type (blk s ob) \<noteq> RHINO_MUTEX_OBJ_TYPE"
    and n: "n \<noteq> 0"
  shows "good s (core_sched (pend_to_blk_obj s ob (g_active_task s) n))"
proof (rule good_sched [OF w(2)])
  have r: "task_state (tcb s (g_active_task s)) = K_RDY" using w(2) lk by (simp add: act_inv_def)
  have "prio (tcb s (g_active_task s)) \<noteq> RHINO_IDLE_PRI" using w(3) by (simp add: can_block_def)
  from pend_to_blk_obj_kwf [OF w(1) r this ob _ n] ns
  show "kwf (pend_to_blk_obj s ob (g_active_task s) n)"
    "traps_ok s (pend_to_blk_obj s ob (g_active_task s) n)" by simp_all
qed (simp_all add: lk)

lemma left_wait_good:
  assumes w: "kwf s" "act_inv s" and l: "left_wait bs s T s1" and k: "kwf s1"
  shows "good s (core_sched s1)"
  by (rule good_sched [OF w(2) k]) (use left_wait_runnable [OF l] in \<open>simp_all add: left_wait_rest [OF l]\<close>)

text \<open>The state of an object may change as long as those who wait for it still have to.\<close>

lemma kwf_object_state:
  assumes w: "kwf s"
    and same: "tcb s' = tcb s" "blk s' = blk s" "g_ready_queue s' = g_ready_queue s"
      "g_tick_list s' = g_tick_list s" "g_tick_count s' = g_tick_count s" "mutexes s' = mutexes s"
      "l_task_head (g_kobj_list s') = l_task_head (g_kobj_list s)"
    and wt: "\<And>o'. blk_list (blk s o') \<noteq> [] \<Longrightarrow> waitable s o' \<Longrightarrow> waitable s' o'"
    and q: "data_inv s'"
  shows "kwf s'"
proof -
  have e': "ready_set s' = ready_set s" "wait_set s' = wait_set s" "remaining s' = remaining s"
    by (simp_all add: fun_eq_iff ready_set_def wait_set_def remaining_def same)
  have "obj_inv s'" using w wt unfolding kwf_def kinv_def obj_inv_def same by metis
  then have "kinv s'" using w unfolding kwf_def inv_defs by (simp add: e' same)
  moreover have "waits_for s' = waits_for s" by (rule waits_for_cong) (simp_all add: same)
  ultimately show ?thesis using w q
    by (simp add: kwf_def settled_def minv_def task_list_inv_def idle_inv_def no_self_def same)
qed

text \<open>Deleting an object: its waiters are woken, the object leaves its list.\<close>

lemma object_del_good:
  assumes w: "kwf s" "act_inv s" and nm: "obj_type (blk s ob) \<noteq> RHINO_MUTEX_OBJ_TYPE"
  defines "s2 \<equiv> wake_all pend_task_rm ob (upd_blk s ob (\<lambda>b. b\<lparr>obj_type := RHINO_OBJ_TYPE_NONE\<rparr>))"
  assumes k: "kwf s2 \<Longrightarrow> blk_list (blk s2 ob) = [] \<Longrightarrow> kwf s3"
    and same: "tcb s3 = tcb s2" "traps s3 = traps s2" "g_active_task s3 = g_active_task s2"
      "g_intrpt_nested_level s3 = g_intrpt_nested_level s2" "g_sched_lock s3 = g_sched_lock s2"
  shows "good s (core_sched s3)"
proof (rule good_sched [OF w(2)])
  from object_del_kwf [OF w(1) nm, folded s2_def]
  have d: "kwf s2" "blk_list (blk s2 ob) = []"
    and l: "left_wait BLK_DEL (upd_blk s ob (\<lambda>b. b\<lparr>obj_type := RHINO_OBJ_TYPE_NONE\<rparr>))
        (set (blk_list (blk s ob))) s2" by auto
  show "kwf s3" by (rule k [OF d])
  show "traps_ok s s3" "g_active_task s3 = g_active_task s"
    by (simp_all add: same left_wait_rest [OF l])
  show "(runnable (tcb s (g_active_task s)) \<longrightarrow>
        task_state (tcb s3 (g_active_task s)) = task_state (tcb s (g_active_task s))) \<and>
        g_intrpt_nested_level s3 = g_intrpt_nested_level s \<and> g_sched_lock s3 = g_sched_lock s \<or>
      g_sched_lock s3 = 0 \<and> g_intrpt_nested_level s3 = 0"
    using left_wait_runnable [OF l] by (simp add: same left_wait_rest [OF l])
qed

text \<open>A live task leaves the lists it waits on, for the ready queue or as suspended.\<close>

lemma kwf_detach:
  assumes w: "kwf s" and ns: "task_state (tcb s t) \<noteq> K_RDY" and lv: "live (tcb s t)"
    and tc: "tcb s' = (tcb s)(t := k')"
    and k': "prio_ok k'" "\<not> tick_head k'" "b_prio k' = b_prio (tcb s t)" "mutex_list k' = mutex_list (tcb s t)"
    and st: "task_state k' = K_RDY \<and> g_ready_queue s' = ready_list_add (g_ready_queue s) (prio k') t
             \<or> task_state k' = K_SUSPENDED \<and> g_ready_queue s' = g_ready_queue s"
    and bl: "\<And>ob. blk_list (blk s' ob) = remove1 t (blk_list (blk s ob))"
      "\<And>ob. blk_policy (blk s' ob) = blk_policy (blk s ob)" "\<And>ob. obj_type (blk s' ob) = obj_type (blk s ob)"
    and tl: "g_tick_list s' = remove1 t (g_tick_list s)" "g_tick_count s' = g_tick_count s"
    and fr: "sems s' = sems s" "mutexes s' = mutexes s" "queues s' = queues s" "buf_queues s' = buf_queues s"
      "l_task_head (g_kobj_list s') = l_task_head (g_kobj_list s)"
  shows "kwf s' \<and> waits_for s' \<subseteq> waits_for s"
proof -
  have k: "kinv s" using w by (simp add: kwf_def)
  have "kinv s'"
    by (rule detach_kinv [OF k ns tc k'(1,2) _ bl(1,2) tl]) (use st waitable_cong [of s' _ s] fr bl in auto)
  moreover have e: "live (tcb s' u) = live (tcb s u)" "b_prio (tcb s' u) = b_prio (tcb s u)"
    "mutex_list (tcb s' u) = mutex_list (tcb s u)" for u
    using lv k' st by (auto simp: tc live_def)
  have "minv s'"
    by (rule minv_cong [of s' s]) (use w in \<open>simp_all add: e bl fr kwf_def\<close>)
  moreover have sub: "waits_for s' \<subseteq> waits_for s"
    using st by (auto simp: waits_for_def tc bl fr blocked_def split: if_splits)
  moreover have "no_self s'" using w no_self_subset [OF _ sub] by (simp add: kwf_def)
  moreover have "settled s'" using w by (simp add: kwf_def settled_def bl)
  moreover have "task_list_inv s'" using w by (simp add: kwf_def task_list_inv_def e fr)
  moreover have "idle_inv s'" using w ns k' by (auto simp: kwf_def idle_inv_def tc)
  moreover have "data_inv s'" using w data_inv_cong [of s' s] by (simp add: kwf_def bl fr)
  ultimately show ?thesis by (simp add: kwf_def)
qed

text \<open>A task that is not blocked forgets the object it was blocked on.\<close>

lemma kinv_blk_obj:
  assumes k: "kinv s" and nb: "\<not> blocked (tcb s t)"
  shows "kinv (upd_task s t (\<lambda>k. k\<lparr>blk_obj := x\<rparr>))"
proof -
  let ?s = "upd_task s t (\<lambda>k. k\<lparr>blk_obj := x\<rparr>)"
  have v: "prio (tcb ?s u) = prio (tcb s u)" "b_prio (tcb ?s u) = b_prio (tcb s u)"
    "blocked (tcb ?s u) = blocked (tcb s u)" "sleeping (tcb ?s u) = sleeping (tcb s u)"
    "tick_head (tcb ?s u) = tick_head (tcb s u)" "task_state (tcb ?s u) = task_state (tcb s u)"
    "blocked (tcb s u) \<Longrightarrow> blk_obj (tcb ?s u) = blk_obj (tcb s u)" for u
    using nb by (auto simp: blocked_def sleeping_def)
  have e: "ready_set ?s = ready_set s" "wait_set ?s = wait_set s" "remaining ?s = remaining s"
    using nb by (auto simp: fun_eq_iff ready_set_def wait_set_def remaining_def blocked_def)
  have po: "prio_ok (tcb ?s u) = prio_ok (tcb s u)" for u unfolding prio_ok_def v by (rule refl)
  have w: "waitable ?s ob = waitable s ob" for ob by (rule waitable_cong) simp_all
  have "blk_inv ?s" using k v(7) unfolding kinv_def blk_inv_def v(1-6) e by (simp del: upd_task_tcb)
  then show ?thesis using k unfolding kinv_def prio_inv_def rq_inv_def tick_inv_def obj_inv_def e po v(1-6) w
    by simp
qed

lemma kwf_blk_obj:
  assumes w: "kwf s" and nb: "\<not> blocked (tcb s t)"
  shows "kwf (upd_task s t (\<lambda>k. k\<lparr>blk_obj := x\<rparr>))"
proof -
  let ?s = "upd_task s t (\<lambda>k. k\<lparr>blk_obj := x\<rparr>)"
  have v: "live (tcb ?s u) = live (tcb s u)" "b_prio (tcb ?s u) = b_prio (tcb s u)"
    "mutex_list (tcb ?s u) = mutex_list (tcb s u)" "task_state (tcb ?s u) = task_state (tcb s u)" for u
    by (simp_all add: live_def)
  have "kinv ?s" using kinv_blk_obj [OF _ nb] w by (simp add: kwf_def)
  moreover have "minv ?s" by (rule minv_cong [of ?s s]) (use w in \<open>simp_all add: v kwf_def del: upd_task_tcb\<close>)
  moreover have "blocked (tcb ?s u) = blocked (tcb s u)" "u \<noteq> t \<Longrightarrow> tcb ?s u = tcb s u" for u
    by (simp_all add: blocked_def)
  then have "waits_for ?s = waits_for s" using nb unfolding waits_for_def upd_task_frame
    by (metis (no_types, lifting))
  moreover have "settled ?s" "data_inv ?s" using w data_inv_cong [of ?s s] by (simp_all add: kwf_def settled_def)
  moreover have "task_list_inv ?s" "idle_inv ?s" using w unfolding kwf_def task_list_inv_def idle_inv_def v by simp_all
  ultimately show ?thesis using w by (simp add: kwf_def no_self_def)
qed

text \<open>A change of priorities.\<close>

lemma rest_reprio:
  assumes k: "kinv s" "kinv s'" and r: "reprio s s'"
  shows "settled s \<Longrightarrow> settled s'" "task_list_inv s \<Longrightarrow> task_list_inv s'" "idle_inv s \<Longrightarrow> idle_inv s'"
    "data_inv s \<Longrightarrow> data_inv s'"
proof -
  have "set (blk_list (blk s' ob)) = set (blk_list (blk s ob))" for ob
    using kinv_wait_list [OF k(2), of ob] kinv_wait_list [OF k(1), of ob]
    by (simp add: wait_set_def reprio_frame [OF r])
  then have e: "blk_list (blk s' ob) = [] \<longleftrightarrow> blk_list (blk s ob) = []" for ob by (metis set_empty)
  show "settled s \<Longrightarrow> settled s'" by (simp add: settled_def reprio_frame [OF r] e)
  show "task_list_inv s \<Longrightarrow> task_list_inv s'" "idle_inv s \<Longrightarrow> idle_inv s'"
    by (simp_all add: task_list_inv_def idle_inv_def live_def reprio_frame [OF r])
  show "data_inv s \<Longrightarrow> data_inv s'" using data_inv_cong [of s' s] by (simp add: reprio_frame [OF r])
qed

lemma kwf_reprio: "kwf s \<Longrightarrow> kinv s' \<Longrightarrow> reprio s s' \<Longrightarrow> kwf s'"
  using rest_reprio [of s s'] minv_reprio [of s s'] waits_for_reprio [of s s']
  by (simp add: kwf_def no_self_def)

lemma runnable_reprio: "reprio s s' \<Longrightarrow> runnable (tcb s' t) = runnable (tcb s t)"
  by (simp add: runnable_def reprio_frame)

end
