(* ===== verification/K_Task.thy ===== *)
theory K_Task
  imports K_Wake
begin

text \<open>
  The task services of \<open>k_task.c\<close> (single core, tasks in memory the caller supplies), and the
  initial stack frame of the port, \<open>cpu_task_stack_init\<close> of
  \<open>platform/arch/arm/armv7m/common/port_c.c\<close>. A stack is the list of its words, lowest
  address first; an access outside of it is recorded as \<open>OutOfBounds\<close>. The code address
  of \<open>krhino_task_deathbed\<close>, which the linker chooses, is the argument \<open>deathbed\<close>.
\<close>

section \<open>The initial stack\<close>

definition stack_top :: "u32 \<Rightarrow> u32 \<Rightarrow> nat" where
  "stack_top base sz = unat (((base + 4 * sz) AND 0xFFFFFFF8) - base) div 4"

definition stack_frame :: "u32 \<Rightarrow> u32 \<Rightarrow> u32 \<Rightarrow> u32 list" where
  "stack_frame arg entry deathbed =
     [0x04040404, 0x05050505, 0x06060606, 0x07070707, 0x08080808, 0x09090909, 0x10101010, 0x11111111,
      0xFFFFFFFD,
      arg, 0x01010101, 0x02020202, 0x03030303, 0x12121212, deathbed, entry, 0x01000000]"

definition cpu_task_stack_init ::
    "u32 \<Rightarrow> u32 \<Rightarrow> u32 list \<Rightarrow> u32 \<Rightarrow> u32 \<Rightarrow> u32 \<Rightarrow> (u32 \<times> u32 list) option" where
  "cpu_task_stack_init base sz ws arg entry deathbed =
     (let top = stack_top base sz
      in if top < 17 \<or> length ws < top then None
         else Some (base + 4 * of_nat (top - 17),
                    take (top - 17) ws @ stack_frame arg entry deathbed @ drop top ws))"

section \<open>Creation\<close>

definition RHINO_TASK_STACK_OVF_MAGIC :: u32 where "RHINO_TASK_STACK_OVF_MAGIC = 0xDEADBEAF"

definition blank_task :: ktask where
  "blank_task = \<lparr>task_name = None, user_info = replicate RHINO_CONFIG_TASK_INFO_NUM 0,
     task_stack = 0, task_stack_base = 0, stack_size = 0, stack_words = [], suspend_count = 0, mutex_list = [],
     tick_match = 0, tick_remain = 0, tick_head = False, msg = 0, bq_msg_size = 0,
     task_state = K_SEED, blk_state = BLK_FINISH, blk_obj = None, task_sem_obj = None,
     time_slice_left = 0, time_total = 0, pend_flags = 0, pend_info = 0, pend_option = 0,
     sched_policy = 0, cancel = 0, prio = 0, b_prio = 0, task_mm_flag = 0\<rparr>"

text \<open>The control block and stack that \<open>task_create\<close> fills in. A stack too small for the
  frame is overrun.\<close>

definition task_init ::
    "u32 \<Rightarrow> string option \<Rightarrow> u32 \<Rightarrow> nat \<Rightarrow> u64 \<Rightarrow> u32 \<Rightarrow> u32 \<Rightarrow> u32 \<Rightarrow> u8 \<Rightarrow> u8 \<Rightarrow> ktask \<times> trap list" where
  "task_init deathbed name arg pri ticks base sz entry autorun flag =
     (let total = (if ticks > 0 then ucast ticks else RHINO_CONFIG_TIME_SLICE_DEFAULT);
          words = (replicate (unat sz) 0)[0 := RHINO_TASK_STACK_OVF_MAGIC];
          (sp, ws, e) = (case cpu_task_stack_init base sz words arg entry deathbed of
                           None \<Rightarrow> (0, words, [OutOfBounds]) | Some (sp, ws) \<Rightarrow> (sp, ws, []))
      in (blank_task\<lparr>time_total := total, time_slice_left := total, sched_policy := KSCHED_RR,
            task_state := (if autorun > 0 then K_RDY else K_SUSPENDED),
            suspend_count := (if autorun > 0 then 0 else 1),
            task_stack_base := base, task_name := name, prio := pri, b_prio := pri, stack_size := sz,
            task_mm_flag := flag, task_stack := sp, stack_words := ws\<rparr>, e))"

definition task_create ::
    "u32 \<Rightarrow> kernel \<Rightarrow> tid option \<Rightarrow> string option \<Rightarrow> u32 \<Rightarrow> nat \<Rightarrow> u64 \<Rightarrow> u32 option \<Rightarrow> u32 \<Rightarrow>
     u32 option \<Rightarrow> u8 \<Rightarrow> u8 \<Rightarrow> kstat \<times> kernel" where
  "task_create deathbed s task name arg pri ticks stack_buf stack_sz entry autorun flag =
     (case (task, name, entry, stack_buf) of
        (Some t, Some _, Some en, Some base) \<Rightarrow>
          if stack_sz = 0 then (RHINO_TASK_INV_STACK_SIZE, s)
          else if pri \<ge> RHINO_CONFIG_PRI_MAX then (RHINO_BEYOND_MAX_PRI, s)
          else if g_intrpt_nested_level s > 0 then (RHINO_NOT_CALLED_BY_INTRPT, s)
          else if pri = RHINO_IDLE_PRI \<and> g_idle_task_spawned s > 0 then (RHINO_IDLE_TASK_EXIST, s)
          else
            let s1 = (if pri = RHINO_IDLE_PRI then s\<lparr>g_idle_task_spawned := 1\<rparr> else s);
                (k, e) = task_init deathbed name arg pri ticks base stack_sz en autorun flag;
                s2 = upd_task (s1\<lparr>traps := traps s1 @ e\<rparr>) t (\<lambda>_. k);
                s3 = s2\<lparr>g_kobj_list := (g_kobj_list s2)\<lparr>l_task_head := l_task_head (g_kobj_list s2) @ [t]\<rparr>\<rparr>
            in if autorun > 0 then
                 let s4 = s3\<lparr>g_ready_queue := ready_list_add_tail (g_ready_queue s3) (prio (tcb s3 t)) t\<rparr>
                 in if g_sys_stat s4 = RHINO_RUNNING then (RHINO_SUCCESS, core_sched s4)
                    else (RHINO_SUCCESS, s4)
               else (RHINO_SUCCESS, s3)
      | _ \<Rightarrow> (RHINO_NULL_PTR, s))"

definition krhino_task_create ::
    "u32 \<Rightarrow> kernel \<Rightarrow> tid option \<Rightarrow> string option \<Rightarrow> u32 \<Rightarrow> nat \<Rightarrow> u64 \<Rightarrow> u32 option \<Rightarrow> u32 \<Rightarrow>
     u32 option \<Rightarrow> u8 \<Rightarrow> kstat \<times> kernel" where
  "krhino_task_create deathbed s task name arg pri ticks stack_buf stack_sz entry autorun =
     task_create deathbed s task name arg pri ticks stack_buf stack_sz entry autorun K_OBJ_STATIC_ALLOC"

text \<open>The check of the running task's stack, which the port makes on every switch (and which
  \<open>cpu_task_switch\<close> leaves out): the check word is intact and the saved stack pointer above it.\<close>

definition krhino_stack_ovf_check :: "kernel \<Rightarrow> kernel" where
  "krhino_stack_ovf_check s =
     (let cur = tcb s (g_active_task s);
          s1 = (if stack_words cur = [] then add_trap s OutOfBounds
                else if hd (stack_words cur) \<noteq> RHINO_TASK_STACK_OVF_MAGIC then k_err_proc s RHINO_TASK_STACK_OVF
                else s)
      in if task_stack cur < task_stack_base cur + 4 then k_err_proc s1 RHINO_TASK_STACK_OVF else s1)"

section \<open>Sleeping and yielding\<close>

definition krhino_task_sleep :: "kernel \<Rightarrow> u64 \<Rightarrow> kstat outcome \<times> kernel" where
  "krhino_task_sleep s ticks =
     (if ticks = 0 then (Ret RHINO_INV_PARAM, s)
      else if g_intrpt_nested_level s > 0 then (Ret RHINO_NOT_CALLED_BY_INTRPT, s)
      else if g_sched_lock s > 0 then (Ret RHINO_SCHED_DISABLE, s)
      else
        let t = g_active_task s;
            s1 = upd_task s t (\<lambda>k. k\<lparr>task_state := K_SLEEP\<rparr>);
            s2 = tick_list_insert s1 t ticks;
            s3 = rq_rm s2 t
        in (Blocked, core_sched s3))"

definition krhino_task_sleep_end :: "kernel \<Rightarrow> kstat \<times> kernel" where
  "krhino_task_sleep_end s = pend_state_end_proc s (g_active_task s) None"

definition krhino_task_yield :: "kernel \<Rightarrow> kstat \<times> kernel" where
  "krhino_task_yield s =
     (let p = prio (tcb s (g_active_task s));
          s1 = (if cur_list_item (g_ready_queue s) p = [] then add_trap s NullDeref
                else s\<lparr>g_ready_queue := ready_list_head_to_tail (g_ready_queue s) p\<rparr>)
      in (RHINO_SUCCESS, core_sched s1))"

definition krhino_cur_task_get :: "kernel \<Rightarrow> tid" where
  "krhino_cur_task_get s = g_active_task s"

section \<open>Suspending and resuming\<close>

definition task_suspend :: "kernel \<Rightarrow> tid \<Rightarrow> kstat \<times> kernel" where
  "task_suspend s t =
     (if t = g_active_task s \<and> g_sched_lock s > 0 then (RHINO_SCHED_DISABLE, s)
      else case task_state (tcb s t) of
        K_RDY \<Rightarrow> (RHINO_SUCCESS,
          core_sched (rq_rm (upd_task s t (\<lambda>k. k\<lparr>suspend_count := 1, task_state := K_SUSPENDED\<rparr>)) t))
      | K_SLEEP \<Rightarrow> (RHINO_SUCCESS,
          core_sched (upd_task s t (\<lambda>k. k\<lparr>suspend_count := 1, task_state := K_SLEEP_SUSPENDED\<rparr>)))
      | K_PEND \<Rightarrow> (RHINO_SUCCESS,
          core_sched (upd_task s t (\<lambda>k. k\<lparr>suspend_count := 1, task_state := K_PEND_SUSPENDED\<rparr>)))
      | K_SEED \<Rightarrow> (RHINO_INV_TASK_STATE, s)
      | K_DELETED \<Rightarrow> (RHINO_INV_TASK_STATE, s)
      | _ \<Rightarrow> if suspend_count (tcb s t) = - 1 then (RHINO_SUSPENDED_COUNT_OVF, s)
             else (RHINO_SUCCESS, core_sched (upd_task s t (\<lambda>k. k\<lparr>suspend_count := suspend_count k + 1\<rparr>))))"

definition krhino_task_suspend :: "kernel \<Rightarrow> tid option \<Rightarrow> kstat \<times> kernel" where
  "krhino_task_suspend s task =
     (case task of None \<Rightarrow> (RHINO_NULL_PTR, s) | Some t \<Rightarrow>
      if prio (tcb s t) = RHINO_IDLE_PRI then (RHINO_TASK_SUSPEND_NOT_ALLOWED, s) else task_suspend s t)"

definition task_resume :: "kernel \<Rightarrow> tid \<Rightarrow> kstat \<times> kernel" where
  "task_resume s t =
     (let s1 = upd_task s t (\<lambda>k. k\<lparr>suspend_count := suspend_count k - 1\<rparr>);
          z = (suspend_count (tcb s1 t) = 0)
      in case task_state (tcb s t) of
        K_SUSPENDED \<Rightarrow> (RHINO_SUCCESS, core_sched
          (if z then rq_add (upd_task s1 t (\<lambda>k. k\<lparr>task_state := K_RDY\<rparr>)) t else s1))
      | K_SLEEP_SUSPENDED \<Rightarrow> (RHINO_SUCCESS, core_sched
          (if z then upd_task s1 t (\<lambda>k. k\<lparr>task_state := K_SLEEP\<rparr>) else s1))
      | K_PEND_SUSPENDED \<Rightarrow> (RHINO_SUCCESS, core_sched
          (if z then upd_task s1 t (\<lambda>k. k\<lparr>task_state := K_PEND\<rparr>) else s1))
      | K_SEED \<Rightarrow> (RHINO_INV_TASK_STATE, s)
      | K_DELETED \<Rightarrow> (RHINO_INV_TASK_STATE, s)
      | _ \<Rightarrow> (RHINO_TASK_NOT_SUSPENDED, s))"

definition krhino_task_resume :: "kernel \<Rightarrow> tid option \<Rightarrow> kstat \<times> kernel" where
  "krhino_task_resume s task = (case task of None \<Rightarrow> (RHINO_NULL_PTR, s) | Some t \<Rightarrow> task_resume s t)"

section \<open>Stack use, priority\<close>

text \<open>The scan of the free words starts behind the check word and runs until a non-zero word;
  on a stack that is all zero it runs past the end.\<close>

definition krhino_task_stack_min_free ::
    "kernel \<Rightarrow> tid option \<Rightarrow> bool \<Rightarrow> kstat \<times> nat option \<times> kernel" where
  "krhino_task_stack_min_free s task free_null =
     (case task of None \<Rightarrow> (RHINO_NULL_PTR, None, s) | Some t \<Rightarrow>
      if free_null then (RHINO_NULL_PTR, None, s)
      else if task_state (tcb s t) = K_DELETED then (RHINO_INV_TASK_STATE, None, s)
      else let ws = drop 1 (stack_words (tcb s t)); n = length (takeWhile (\<lambda>w. w = 0) ws)
           in if n = length ws then (RHINO_SUCCESS, None, add_trap s OutOfBounds)
              else (RHINO_SUCCESS, Some n, s))"

definition krhino_task_pri_change ::
    "kernel \<Rightarrow> tid option \<Rightarrow> nat \<Rightarrow> bool \<Rightarrow> kstat \<times> nat option \<times> kernel" where
  "krhino_task_pri_change s task pri old_null =
     (case task of None \<Rightarrow> (RHINO_NULL_PTR, None, s) | Some t \<Rightarrow>
      if old_null then (RHINO_NULL_PTR, None, s)
      else if prio (tcb s t) \<ge> RHINO_IDLE_PRI then (RHINO_PRI_CHG_NOT_ALLOWED, None, s)
      else if pri \<ge> RHINO_IDLE_PRI then (RHINO_PRI_CHG_NOT_ALLOWED, None, s)
      else if task_state (tcb s t) = K_DELETED then (RHINO_INV_TASK_STATE, None, s)
      else if g_intrpt_nested_level s > 0 then (RHINO_NOT_CALLED_BY_INTRPT, None, s)
      else
        let pri_limit = mutex_pri_limit s t pri;
            s1 = upd_task s t (\<lambda>k. k\<lparr>b_prio := pri\<rparr>);
            old_pri = prio (tcb s1 t);
            (error, s2) = task_pri_change s1 t pri_limit
        in if error \<noteq> RHINO_SUCCESS then (error, Some old_pri, s2)
           else (RHINO_SUCCESS, Some old_pri, core_sched s2))"

section \<open>Abort, deletion, cancellation\<close>

definition krhino_task_wait_abort :: "kernel \<Rightarrow> tid option \<Rightarrow> kstat \<times> kernel" where
  "krhino_task_wait_abort s task =
     (case task of None \<Rightarrow> (RHINO_NULL_PTR, s) | Some t \<Rightarrow>
      if g_intrpt_nested_level s > 0 then (RHINO_NOT_CALLED_BY_INTRPT, s)
      else case task_state (tcb s t) of
        K_RDY \<Rightarrow> (RHINO_SUCCESS, core_sched s)
      | K_SUSPENDED \<Rightarrow> (RHINO_SUCCESS, core_sched (rq_add (upd_task s t (\<lambda>k. k\<lparr>task_state := K_RDY\<rparr>)) t))
      | K_SEED \<Rightarrow> (RHINO_INV_TASK_STATE, s)
      | K_DELETED \<Rightarrow> (RHINO_INV_TASK_STATE, s)
      | st \<Rightarrow>
          if st = K_SLEEP \<or> st = K_SLEEP_SUSPENDED then
            let s1 = rq_add (tick_list_rm s t) t
            in (RHINO_SUCCESS, core_sched (upd_task s1 t (\<lambda>k. k\<lparr>task_state := K_RDY, blk_state := BLK_ABORT\<rparr>)))
          else
            let s1 = rq_add (blk_list_rm (tick_list_rm s t) t) t;
                s2 = upd_task s1 t (\<lambda>k. k\<lparr>task_state := K_RDY, blk_state := BLK_ABORT\<rparr>);
                s3 = mutex_task_pri_reset s2 t
            in (RHINO_SUCCESS, core_sched (upd_task s3 t (\<lambda>k. k\<lparr>blk_obj := None\<rparr>))))"

text \<open>One turn of the loop of \<open>task_mutex_free\<close>, and the loop over the chain of the task. The
  next mutex is read before the current one is handed over, so the loop walks the chain
  as it was. (Of a deleted task, whose chain is not reset, the C code walks the links the
  mutexes have by then; the lemmas below are about live tasks.)\<close>

definition free_one_mutex :: "kernel \<Rightarrow> oid \<Rightarrow> kernel" where
  "free_one_mutex s m =
     (case blk_list (blk s m) of
        next_task # _ \<Rightarrow>
          let s1 = pend_task_wakeup s next_task;
              s2 = s1\<lparr>mutexes := (mutexes s1)(m := (mutexes s1 m)\<lparr>mutex_task := Some next_task\<rparr>)\<rparr>
          in upd_task s2 next_task (\<lambda>k. k\<lparr>mutex_list := m # mutex_list k\<rparr>)
      | [] \<Rightarrow> s\<lparr>mutexes := (mutexes s)(m := (mutexes s m)\<lparr>mutex_task := None\<rparr>)\<rparr>)"

definition task_mutex_free :: "kernel \<Rightarrow> tid \<Rightarrow> kernel" where
  "task_mutex_free s t = foldl free_one_mutex s (mutex_list (tcb s t))"

definition krhino_task_del :: "kernel \<Rightarrow> tid option \<Rightarrow> kstat \<times> kernel" where
  "krhino_task_del s task =
     (if g_intrpt_nested_level s > 0 then (RHINO_NOT_CALLED_BY_INTRPT, s)
      else
        let t = (case task of None \<Rightarrow> g_active_task s | Some t \<Rightarrow> t)
        in if prio (tcb s t) = RHINO_IDLE_PRI then (RHINO_TASK_DEL_NOT_ALLOWED, s)
           else if task_mm_flag (tcb s t) \<noteq> K_OBJ_STATIC_ALLOC then (RHINO_KOBJ_DEL_ERR, s)
           else if t = g_active_task s \<and> g_sched_lock s > 0 then (RHINO_SCHED_DISABLE, s)
           else
             let s1 = task_mutex_free s t;
                 dead = (\<lambda>s. upd_task s t (\<lambda>k. k\<lparr>task_state := K_DELETED\<rparr>));
                 finish = (\<lambda>s. (RHINO_SUCCESS, core_sched
                   (s\<lparr>g_kobj_list := (g_kobj_list s)\<lparr>l_task_head := remove1 t (l_task_head (g_kobj_list s))\<rparr>\<rparr>)))
             in case task_state (tcb s1 t) of
                  K_RDY \<Rightarrow> finish (dead (rq_rm s1 t))
                | K_SUSPENDED \<Rightarrow> finish (dead s1)
                | K_SLEEP \<Rightarrow> finish (dead (tick_list_rm s1 t))
                | K_SLEEP_SUSPENDED \<Rightarrow> finish (dead (tick_list_rm s1 t))
                | K_PEND \<Rightarrow> finish (mutex_task_pri_reset (dead (blk_list_rm (tick_list_rm s1 t) t)) t)
                | K_PEND_SUSPENDED \<Rightarrow> finish (mutex_task_pri_reset (dead (blk_list_rm (tick_list_rm s1 t) t)) t)
                | _ \<Rightarrow> (RHINO_INV_TASK_STATE, s1))"

definition krhino_task_cancel :: "kernel \<Rightarrow> tid option \<Rightarrow> kstat \<times> kernel" where
  "krhino_task_cancel s task =
     (case task of None \<Rightarrow> (RHINO_NULL_PTR, s)
      | Some t \<Rightarrow> krhino_task_wait_abort (upd_task s t (\<lambda>k. k\<lparr>cancel := 1\<rparr>)) (Some t))"

definition krhino_task_cancel_chk :: "kernel \<Rightarrow> bool" where
  "krhino_task_cancel_chk s \<longleftrightarrow> cancel (tcb s (krhino_cur_task_get s)) = 1"

section \<open>Time slice, policy, user information\<close>

definition krhino_task_time_slice_set :: "kernel \<Rightarrow> tid option \<Rightarrow> u32 \<Rightarrow> kstat \<times> kernel" where
  "krhino_task_time_slice_set s task new_slice =
     (case task of None \<Rightarrow> (RHINO_NULL_PTR, s) | Some t \<Rightarrow>
      if g_intrpt_nested_level s > 0 then (RHINO_NOT_CALLED_BY_INTRPT, s)
      else let total = (if new_slice > 0 then new_slice else RHINO_CONFIG_TIME_SLICE_DEFAULT)
           in (RHINO_SUCCESS, upd_task s t (\<lambda>k. k\<lparr>time_slice_left := total, time_total := total\<rparr>)))"

definition krhino_sched_policy_set :: "kernel \<Rightarrow> tid option \<Rightarrow> u8 \<Rightarrow> kstat \<times> kernel" where
  "krhino_sched_policy_set s task policy =
     (case task of None \<Rightarrow> (RHINO_NULL_PTR, s) | Some t \<Rightarrow>
      if policy \<noteq> KSCHED_FIFO \<and> policy \<noteq> KSCHED_RR then (RHINO_INV_SCHED_WAY, s)
      else if g_intrpt_nested_level s > 0 then (RHINO_NOT_CALLED_BY_INTRPT, s)
      else (RHINO_SUCCESS, upd_task s t (\<lambda>k. k\<lparr>sched_policy := policy\<rparr>)))"

definition krhino_sched_policy_get :: "kernel \<Rightarrow> tid option \<Rightarrow> bool \<Rightarrow> kstat \<times> u8 option" where
  "krhino_sched_policy_get s task policy_null =
     (case task of None \<Rightarrow> (RHINO_NULL_PTR, None) | Some t \<Rightarrow>
      if policy_null then (RHINO_NULL_PTR, None)
      else if g_intrpt_nested_level s > 0 then (RHINO_NOT_CALLED_BY_INTRPT, None)
      else (RHINO_SUCCESS, Some (sched_policy (tcb s t))))"

definition krhino_task_info_set :: "kernel \<Rightarrow> tid option \<Rightarrow> nat \<Rightarrow> nat \<Rightarrow> kstat \<times> kernel" where
  "krhino_task_info_set s task idx info =
     (case task of None \<Rightarrow> (RHINO_NULL_PTR, s) | Some t \<Rightarrow>
      if idx \<ge> RHINO_CONFIG_TASK_INFO_NUM then (RHINO_INV_PARAM, s)
      else (RHINO_SUCCESS, upd_task s t (\<lambda>k. k\<lparr>user_info := (user_info k)[idx := info]\<rparr>)))"

definition krhino_task_info_get :: "kernel \<Rightarrow> tid option \<Rightarrow> nat \<Rightarrow> bool \<Rightarrow> kstat \<times> nat option" where
  "krhino_task_info_get s task idx info_null =
     (case task of None \<Rightarrow> (RHINO_NULL_PTR, None) | Some t \<Rightarrow>
      if info_null then (RHINO_NULL_PTR, None)
      else if idx \<ge> RHINO_CONFIG_TASK_INFO_NUM then (RHINO_INV_PARAM, None)
      else (RHINO_SUCCESS, Some (user_info (tcb s t) ! idx)))"

end
