(* ===== verification/K_Mutex.thy ===== *)
theory K_Mutex
  imports K_Wake
begin

text \<open>
  Mutexes with priority inheritance, \<open>k_mutex.c\<close> (its priority computations are in theory
  \<open>K_Prio\<close>): creation, deletion, lock and unlock.
\<close>

section \<open>Operations\<close>

definition upd_mutex :: "kernel \<Rightarrow> oid \<Rightarrow> (kmutex_t \<Rightarrow> kmutex_t) \<Rightarrow> kernel" where
  "upd_mutex s ob f = s\<lparr>mutexes := (mutexes s)(ob := f (mutexes s ob))\<rparr>"

definition mutex_create :: "kernel \<Rightarrow> oid option \<Rightarrow> string option \<Rightarrow> u8 \<Rightarrow> kstat \<times> kernel" where
  "mutex_create s mutex name mm_alloc_flag =
     (case mutex of None \<Rightarrow> (RHINO_NULL_PTR, s) | Some ob \<Rightarrow>
      if name = None then (RHINO_NULL_PTR, s)
      else
        let s1 = upd_blk s ob (\<lambda>_. \<lparr>blk_list = [], obj_name = name, blk_policy = BLK_POLICY_PRI,
                   obj_type = RHINO_MUTEX_OBJ_TYPE, obj_cancel = 0, obj_mm_flag = mm_alloc_flag\<rparr>);
            s2 = upd_mutex s1 ob (\<lambda>_. \<lparr>mutex_task = None, owner_nested = 0\<rparr>)
        in (RHINO_SUCCESS,
            s2\<lparr>g_kobj_list := (g_kobj_list s2)\<lparr>l_mutex_head := l_mutex_head (g_kobj_list s2) @ [ob]\<rparr>\<rparr>))"

definition krhino_mutex_create :: "kernel \<Rightarrow> oid option \<Rightarrow> string option \<Rightarrow> kstat \<times> kernel" where
  "krhino_mutex_create s mutex name = mutex_create s mutex name K_OBJ_STATIC_ALLOC"

definition krhino_mutex_del :: "kernel \<Rightarrow> oid option \<Rightarrow> kstat \<times> kernel" where
  "krhino_mutex_del s mutex =
     (case mutex of None \<Rightarrow> (RHINO_NULL_PTR, s) | Some ob \<Rightarrow>
      if g_intrpt_nested_level s > 0 then (RHINO_NOT_CALLED_BY_INTRPT, s)
      else if obj_type (blk s ob) \<noteq> RHINO_MUTEX_OBJ_TYPE then (RHINO_KOBJ_TYPE_ERR, s)
      else if obj_mm_flag (blk s ob) \<noteq> K_OBJ_STATIC_ALLOC then (RHINO_KOBJ_DEL_ERR, s)
      else
        let s1 = upd_blk s ob (\<lambda>b. b\<lparr>obj_type := RHINO_OBJ_TYPE_NONE\<rparr>);
            s2 = (case mutex_task (mutexes s1 ob) of None \<Rightarrow> s1 | Some ow \<Rightarrow> mutex_release s1 ow (Some ob));
            s3 = wake_all pend_task_rm ob s2;
            s4 = s3\<lparr>g_kobj_list := (g_kobj_list s3)\<lparr>l_mutex_head := remove1 ob (l_mutex_head (g_kobj_list s3))\<rparr>\<rparr>
        in (RHINO_SUCCESS, core_sched s4))"

definition krhino_mutex_lock :: "kernel \<Rightarrow> oid option \<Rightarrow> u64 \<Rightarrow> kstat outcome \<times> kernel" where
  "krhino_mutex_lock s mutex ticks =
     (case mutex of None \<Rightarrow> (Ret RHINO_NULL_PTR, s) | Some ob \<Rightarrow>
      if g_sys_stat s = RHINO_STOPPED then (Ret RHINO_SUCCESS, s)
      else if task_cancel_chk s ob then (Ret RHINO_TASK_CANCELED, s)
      else if g_intrpt_nested_level s > 0 then (Ret RHINO_NOT_CALLED_BY_INTRPT, s)
      else if obj_type (blk s ob) \<noteq> RHINO_MUTEX_OBJ_TYPE then (Ret RHINO_KOBJ_TYPE_ERR, s)
      else if mutex_task (mutexes s ob) = Some (g_active_task s) then
        (if owner_nested (mutexes s ob) = - 1 then
           (Ret RHINO_MUTEX_NESTED_OVF, k_err_proc s RHINO_MUTEX_NESTED_OVF)
         else (Ret RHINO_MUTEX_OWNER_NESTED, upd_mutex s ob (\<lambda>m. m\<lparr>owner_nested := owner_nested m + 1\<rparr>)))
      else (case mutex_task (mutexes s ob) of
        None \<Rightarrow>
          let s1 = upd_mutex s ob (\<lambda>m. m\<lparr>mutex_task := Some (g_active_task s)\<rparr>);
              s2 = upd_task s1 (g_active_task s) (\<lambda>k. k\<lparr>mutex_list := ob # mutex_list k\<rparr>);
              s3 = upd_mutex s2 ob (\<lambda>m. m\<lparr>owner_nested := 1\<rparr>)
          in (Ret RHINO_SUCCESS, s3)
      | Some ow \<Rightarrow>
          if ticks = RHINO_NO_WAIT then (Ret RHINO_NO_PEND_WAIT, s)
          else if g_sched_lock s > 0 then (Ret RHINO_SCHED_DISABLE, s)
          else
            let s1 = (if prio (tcb s (g_active_task s)) < prio (tcb s ow)
                      then snd (task_pri_change s ow (prio (tcb s (g_active_task s)))) else s);
                s2 = pend_to_blk_obj s1 ob (g_active_task s1) ticks
            in (Blocked, core_sched s2)))"

definition krhino_mutex_lock_end :: "kernel \<Rightarrow> oid \<Rightarrow> kstat \<times> kernel" where
  "krhino_mutex_lock_end s ob = pend_state_end_proc s (g_active_task s) (Some ob)"

definition krhino_mutex_unlock :: "kernel \<Rightarrow> oid option \<Rightarrow> kstat \<times> kernel" where
  "krhino_mutex_unlock s mutex =
     (case mutex of None \<Rightarrow> (RHINO_NULL_PTR, s) | Some ob \<Rightarrow>
      if g_sys_stat s = RHINO_STOPPED then (RHINO_SUCCESS, s)
      else if g_intrpt_nested_level s > 0 then (RHINO_NOT_CALLED_BY_INTRPT, s)
      else if obj_type (blk s ob) \<noteq> RHINO_MUTEX_OBJ_TYPE then (RHINO_KOBJ_TYPE_ERR, s)
      else if mutex_task (mutexes s ob) \<noteq> Some (g_active_task s) then
        (RHINO_MUTEX_NOT_RELEASED_BY_OWNER, s)
      else
        let s1 = upd_mutex s ob (\<lambda>m. m\<lparr>owner_nested := owner_nested m - 1\<rparr>)
        in if owner_nested (mutexes s1 ob) > 0 then (RHINO_MUTEX_OWNER_NESTED, s1)
           else
             let s2 = mutex_release s1 (g_active_task s1) (Some ob)
             in case blk_list (blk s2 ob) of
                  [] \<Rightarrow> (RHINO_SUCCESS, upd_mutex s2 ob (\<lambda>m. m\<lparr>mutex_task := None\<rparr>))
                | task # _ \<Rightarrow>
                    let s3 = pend_task_wakeup s2 task;
                        s4 = upd_mutex s3 ob (\<lambda>m. m\<lparr>mutex_task := Some task\<rparr>);
                        s5 = upd_task s4 task (\<lambda>k. k\<lparr>mutex_list := ob # mutex_list k\<rparr>);
                        s6 = upd_mutex s5 ob (\<lambda>m. m\<lparr>owner_nested := 1\<rparr>)
                    in (RHINO_SUCCESS, core_sched s6))"

section \<open>Changes of a mutex and of its owner\<close>

lemma upd_mutex_frame [simp]:
  "tcb (upd_mutex s ob f) = tcb s" "blk (upd_mutex s ob f) = blk s"
  "g_ready_queue (upd_mutex s ob f) = g_ready_queue s"
  "g_tick_list (upd_mutex s ob f) = g_tick_list s" "g_tick_count (upd_mutex s ob f) = g_tick_count s"
  "sems (upd_mutex s ob f) = sems s" "queues (upd_mutex s ob f) = queues s"
  "buf_queues (upd_mutex s ob f) = buf_queues s" "event_flags (upd_mutex s ob f) = event_flags s"
  "g_kobj_list (upd_mutex s ob f) = g_kobj_list s" "g_active_task (upd_mutex s ob f) = g_active_task s"
  "g_sched_lock (upd_mutex s ob f) = g_sched_lock s" "traps (upd_mutex s ob f) = traps s"
  "g_intrpt_nested_level (upd_mutex s ob f) = g_intrpt_nested_level s"
  "mutexes (upd_mutex s ob f) = (mutexes s)(ob := f (mutexes s ob))"
  by (simp_all add: upd_mutex_def)

lemma kinv_upd_mutex:
  assumes k: "kinv s" and f: "blk_list (blk s ob) = [] \<or> mutex_task (f (mutexes s ob)) \<noteq> None"
  shows "kinv (upd_mutex s ob f)"
proof -
  let ?s = "upd_mutex s ob f"
  have e: "ready_set ?s = ready_set s" "wait_set ?s = wait_set s" "remaining ?s = remaining s"
    by (simp_all add: fun_eq_iff ready_set_def wait_set_def remaining_def)
  have "obj_inv ?s"
    unfolding obj_inv_def
  proof (intro allI impI)
    fix o' assume ne: "blk_list (blk ?s o') \<noteq> []"
    then have "waitable s o'" using k by (simp add: kinv_def obj_inv_def)
    with ne f show "waitable ?s o'" by (auto simp: waitable_def split: kobj_type_t.splits)
  qed
  then show ?thesis using k unfolding inv_defs by (simp add: e)
qed

lemma settled_upd_mutex [simp]: "settled (upd_mutex s ob f) = settled s"
  by (simp add: settled_def)

lemma lists_upd_mutex [simp]:
  "task_list_inv (upd_mutex s ob f) = task_list_inv s" "idle_inv (upd_mutex s ob f) = idle_inv s"
  "data_inv (upd_mutex s ob f) = data_inv s"
  by (simp_all add: task_list_inv_def idle_inv_def data_inv_def)

text \<open>The nesting count is not part of the invariant.\<close>

lemma no_self_upd_mutex:
  assumes "no_self s" and t: "\<And>t. mutex_task (f (mutexes s ob)) = Some t \<Longrightarrow> \<not> blocked (tcb s t) \<or> mutex_task (mutexes s ob) = Some t"
  shows "no_self (upd_mutex s ob f)"
  unfolding no_self_def
proof
  fix t show "(t, t) \<notin> waits_for (upd_mutex s ob f)"
    using assms(1) t [of t] by (auto simp: no_self_def waits_for_def split: if_splits)
qed

lemma kwf_nested: "kwf s \<Longrightarrow> kwf (upd_mutex s ob (\<lambda>m. m\<lparr>owner_nested := n m\<rparr>))"
proof (rule kwf_same_view)
  assume "kwf s"
  let ?s = "upd_mutex s ob (\<lambda>m. m\<lparr>owner_nested := n m\<rparr>)"
  show "waitable ?s o'" if "waitable s o'" for o'
  proof -
    have "mutex_task (mutexes ?s o') = mutex_task (mutexes s o')" by simp
    then show ?thesis using that unfolding waitable_def
      by (cases "obj_type (blk s o')") (simp_all del: upd_mutex_frame(15))
  qed
qed (simp_all add: same_view_def)

lemma kwf_chain [simp]: "kinv (upd_task s t (\<lambda>k. k\<lparr>mutex_list := xs k\<rparr>)) = kinv s"
proof -
  have r: "upd_task (upd_task s t (\<lambda>k. k\<lparr>mutex_list := xs k\<rparr>)) t (\<lambda>k. k\<lparr>mutex_list := mutex_list (tcb s t)\<rparr>) = s"
    by (simp add: upd_task_def)
  show ?thesis
    using kinv_upd_task_view [of s _ t] kinv_upd_task_view [of "upd_task s t (\<lambda>k. k\<lparr>mutex_list := xs k\<rparr>)"
        "\<lambda>k. k\<lparr>mutex_list := mutex_list (tcb s t)\<rparr>" t] r
    by (auto simp: task_view_def)
qed

text \<open>Ownership with one mutex left out: it is in nobody's chain, whatever it says itself.
  This is the state between a release and the choice of the next owner.\<close>

definition minv_free :: "oid \<Rightarrow> kernel \<Rightarrow> bool" where
  "minv_free ob s \<longleftrightarrow>
     (\<forall>t. live (tcb s t) \<longrightarrow> distinct (mutex_list (tcb s t)) \<and> ob \<notin> set (mutex_list (tcb s t))) \<and>
     (\<forall>t. live (tcb s t) \<longrightarrow> mutex_list (tcb s t) \<noteq> [] \<longrightarrow> b_prio (tcb s t) \<noteq> RHINO_IDLE_PRI) \<and>
     (\<forall>t m. live (tcb s t) \<longrightarrow> m \<noteq> ob \<longrightarrow> (m \<in> set (mutex_list (tcb s t)) \<longleftrightarrow>
        obj_type (blk s m) = RHINO_MUTEX_OBJ_TYPE \<and> mutex_task (mutexes s m) = Some t)) \<and>
     (\<forall>t m. m \<noteq> ob \<longrightarrow> obj_type (blk s m) = RHINO_MUTEX_OBJ_TYPE \<and> mutex_task (mutexes s m) = Some t \<longrightarrow>
        live (tcb s t))"

lemma minv_free_unowned:
  "minv s \<Longrightarrow> obj_type (blk s ob) \<noteq> RHINO_MUTEX_OBJ_TYPE \<or> mutex_task (mutexes s ob) = None \<Longrightarrow>
   minv_free ob s"
  by (auto simp: minv_def minv_free_def)

lemma minv_free_release:
  assumes m: "minv s" and o: "obj_type (blk s ob) = RHINO_MUTEX_OBJ_TYPE" "mutex_task (mutexes s ob) = Some t"
    and ms: "ms = remove1 ob (mutex_list (tcb s t))"
  shows "minv_free ob (upd_task s t (\<lambda>k. k\<lparr>mutex_list := ms\<rparr>))"
proof -
  let ?s = "upd_task s t (\<lambda>k. k\<lparr>mutex_list := ms\<rparr>)"
  have d: "distinct (mutex_list (tcb s u))" if "live (tcb s u)" for u using m that by (simp add: minv_def)
  have lv: "live (tcb ?s u) = live (tcb s u)" for u by (simp add: live_def)
  have l: "mutex_list (tcb ?s u) = (if u = t then ms else mutex_list (tcb s u))"
    "b_prio (tcb ?s u) = b_prio (tcb s u)" for u by simp_all
  have own: "x \<in> set (mutex_list (tcb s u)) \<longleftrightarrow>
      obj_type (blk s x) = RHINO_MUTEX_OBJ_TYPE \<and> mutex_task (mutexes s x) = Some u" if "live (tcb s u)" for x u
    using m that by (simp add: minv_def)
  have dd: "distinct (mutex_list (tcb ?s u)) \<and> ob \<notin> set (mutex_list (tcb ?s u))" if lu: "live (tcb ?s u)" for u
  proof -
    have v: "live (tcb s u)" using lu lv [of u] by blast
    show ?thesis unfolding l using d [OF v] own [OF v, of ob] o ms d [of t] v
      by (cases "u = t") auto
  qed
  have ne: "b_prio (tcb ?s u) \<noteq> RHINO_IDLE_PRI" if lu: "live (tcb ?s u)" and nl: "mutex_list (tcb ?s u) \<noteq> []" for u
  proof -
    have v: "live (tcb s u)" using lu lv [of u] by blast
    have "mutex_list (tcb s u) \<noteq> []" using nl unfolding l ms by (cases "u = t") auto
    then show ?thesis unfolding l(2) using m v by (simp add: minv_def)
  qed
  have ow: "x \<in> set (mutex_list (tcb ?s u)) \<longleftrightarrow>
      obj_type (blk ?s x) = RHINO_MUTEX_OBJ_TYPE \<and> mutex_task (mutexes ?s x) = Some u"
    if lu: "live (tcb ?s u)" and x: "x \<noteq> ob" for x u
  proof -
    have v: "live (tcb s u)" using lu lv [of u] by blast
    have "x \<in> set (mutex_list (tcb ?s u)) \<longleftrightarrow> x \<in> set (mutex_list (tcb s u))"
      unfolding l ms using x by (cases "u = t") auto
    then show ?thesis using own [OF v, of x] by simp
  qed
  have "live (tcb ?s u)" if "obj_type (blk ?s x) = RHINO_MUTEX_OBJ_TYPE \<and> mutex_task (mutexes ?s x) = Some u" for x u
    using m that unfolding lv by (auto simp: minv_def)
  then show ?thesis unfolding minv_free_def using dd ne ow by blast
qed

lemma minv_free_cong:
  assumes "\<And>t. mutex_list (tcb s' t) = mutex_list (tcb s t)"
    "\<And>t. live (tcb s' t) = live (tcb s t)" "\<And>t. b_prio (tcb s' t) = b_prio (tcb s t)"
    "\<And>m. m \<noteq> ob \<Longrightarrow> obj_type (blk s' m) = obj_type (blk s m)"
    "\<And>m. m \<noteq> ob \<Longrightarrow> mutex_task (mutexes s' m) = mutex_task (mutexes s m)"
  shows "minv_free ob s \<Longrightarrow> minv_free ob s'"
  using assms unfolding minv_free_def by simp

lemma minv_free_reprio: "reprio s s' \<Longrightarrow> minv_free ob s \<Longrightarrow> minv_free ob s'"
  by (rule minv_free_cong [of s' s]) (simp_all add: reprio_frame live_def)

lemma minv_free_left_wait:
  "left_wait bs s T s' \<Longrightarrow> (\<And>u. u \<in> T \<Longrightarrow> blocked (tcb s u)) \<Longrightarrow> minv_free ob s \<Longrightarrow> minv_free ob s'"
  by (rule minv_free_cong [of s' s]) (simp_all add: left_wait_frame left_wait_live)

lemma minv_free_drop:
  assumes m: "minv_free ob s" and o: "obj_type (blk s ob) \<noteq> RHINO_MUTEX_OBJ_TYPE \<or> mutex_task (mutexes s ob) = None"
  shows "minv s"
proof -
  have n: "\<not> (obj_type (blk s ob) = RHINO_MUTEX_OBJ_TYPE \<and> mutex_task (mutexes s ob) = Some t)" for t
    using o by auto
  have "m' \<in> set (mutex_list (tcb s t)) \<longleftrightarrow>
      obj_type (blk s m') = RHINO_MUTEX_OBJ_TYPE \<and> mutex_task (mutexes s m') = Some t"
    if "live (tcb s t)" for m' t
    using m n [of t] that by (cases "m' = ob") (auto simp: minv_free_def)
  moreover have "live (tcb s t)"
    if "obj_type (blk s m') = RHINO_MUTEX_OBJ_TYPE \<and> mutex_task (mutexes s m') = Some t" for m' t
    using m n [of t] that by (cases "m' = ob") (auto simp: minv_free_def)
  ultimately show ?thesis using m unfolding minv_def minv_free_def by blast
qed

lemma minv_give:
  assumes m: "minv_free ob s" and ob: "obj_type (blk s ob) = RHINO_MUTEX_OBJ_TYPE"
    and t: "live (tcb s t)" "b_prio (tcb s t) \<noteq> RHINO_IDLE_PRI"
    and f: "mutex_task (f (mutexes s ob)) = Some t"
  shows "minv (upd_task (upd_mutex s ob f) t (\<lambda>k. k\<lparr>mutex_list := ob # mutex_list k\<rparr>))"
    (is "minv ?s")
proof -
  have lv: "live (tcb ?s u) = live (tcb s u)" for u by (simp add: live_def)
  have l: "mutex_list (tcb ?s u) = (if u = t then ob # mutex_list (tcb s t) else mutex_list (tcb s u))"
    "b_prio (tcb ?s u) = b_prio (tcb s u)" for u by simp_all
  have b: "obj_type (blk ?s x) = obj_type (blk s x)"
    "mutex_task (mutexes ?s x) = (if x = ob then Some t else mutex_task (mutexes s x))" for x
    using f by simp_all
  show ?thesis unfolding minv_def lv l b
    using m ob t unfolding minv_free_def by (auto split: if_splits)
qed

section \<open>The services keep the invariant\<close>

lemma mutex_create_good:
  assumes w: "kwf s" "act_inv s" and none: "\<And>ob. mutex = Some ob \<Longrightarrow> obj_type (blk s ob) = RHINO_OBJ_TYPE_NONE"
  shows "good s (snd (mutex_create s mutex name flag))"
proof (cases "mutex = None \<or> name = None")
  case True
  then show ?thesis using good_refl [OF w] by (auto simp: mutex_create_def split: option.splits)
next
  case False
  then obtain ob nm where ob: "mutex = Some ob" and nm: "name = Some nm" by auto
  let ?s = "snd (mutex_create s mutex name flag)"
  let ?b = "\<lparr>blk_list = [], obj_name = name, blk_policy = BLK_POLICY_PRI,
                   obj_type = RHINO_MUTEX_OBJ_TYPE, obj_cancel = 0, obj_mm_flag = flag\<rparr>"
  have d: "?s = (upd_mutex (upd_blk s ob (\<lambda>_. ?b)) ob (\<lambda>_. \<lparr>mutex_task = None, owner_nested = 0\<rparr>))
      \<lparr>g_kobj_list := (g_kobj_list s)\<lparr>l_mutex_head := l_mutex_head (g_kobj_list s) @ [ob]\<rparr>\<rparr>"
    using nm ob by (simp add: mutex_create_def Let_def)
  have "kwf ?s"
  proof (rule kwf_fresh_object [OF w(1) none [OF ob], where b = ?b])
    show "waitable ?s o'" if "o' \<noteq> ob" "waitable s o'" for o'
      using that unfolding d waitable_def by (simp split: kobj_type_t.splits)
  qed (simp_all add: d)
  then show ?thesis by (rule good_exit [OF w(2)]) (simp_all add: d)
qed

lemma mutex_waiters_empty:
  assumes "kwf s" "obj_type (blk s ob) = RHINO_MUTEX_OBJ_TYPE" "mutex_task (mutexes s ob) = None"
  shows "blk_list (blk s ob) = []"
proof (rule ccontr)
  assume "blk_list (blk s ob) \<noteq> []"
  then have "waitable s ob" using assms(1) by (simp add: kwf_def kinv_def obj_inv_def)
  then show False using waitable_mutex assms(2,3) by blast
qed

lemma chain_frame [simp]:
  "idle_inv (upd_task s t (\<lambda>k. k\<lparr>mutex_list := xs k\<rparr>)) = idle_inv s"
  "settled (upd_task s t (\<lambda>k. k\<lparr>mutex_list := xs k\<rparr>)) = settled s"
  "task_list_inv (upd_task s t (\<lambda>k. k\<lparr>mutex_list := xs k\<rparr>)) = task_list_inv s"
  "data_inv (upd_task s t (\<lambda>k. k\<lparr>mutex_list := xs k\<rparr>)) = data_inv s"
  "no_self (upd_task s t (\<lambda>k. k\<lparr>mutex_list := xs k\<rparr>)) = no_self s"
proof -
  have e: "task_state (tcb (upd_task s t (\<lambda>k. k\<lparr>mutex_list := xs k\<rparr>)) u) = task_state (tcb s u)"
    "b_prio (tcb (upd_task s t (\<lambda>k. k\<lparr>mutex_list := xs k\<rparr>)) u) = b_prio (tcb s u)"
    "blk_obj (tcb (upd_task s t (\<lambda>k. k\<lparr>mutex_list := xs k\<rparr>)) u) = blk_obj (tcb s u)" for u
    by simp_all
  show "idle_inv (upd_task s t (\<lambda>k. k\<lparr>mutex_list := xs k\<rparr>)) = idle_inv s"
    "settled (upd_task s t (\<lambda>k. k\<lparr>mutex_list := xs k\<rparr>)) = settled s"
    "task_list_inv (upd_task s t (\<lambda>k. k\<lparr>mutex_list := xs k\<rparr>)) = task_list_inv s"
    "data_inv (upd_task s t (\<lambda>k. k\<lparr>mutex_list := xs k\<rparr>)) = data_inv s"
    "no_self (upd_task s t (\<lambda>k. k\<lparr>mutex_list := xs k\<rparr>)) = no_self s"
    using waits_for_cong [of "upd_task s t (\<lambda>k. k\<lparr>mutex_list := xs k\<rparr>)" s]
    unfolding no_self_def blocked_def idle_inv_def settled_def task_list_inv_def live_def data_inv_def e by simp_all
qed

text \<open>A task that is running or is just woken becomes the owner of a mutex.\<close>

lemma kwf_give:
  assumes k: "kinv s" and rest: "settled s" "task_list_inv s" "idle_inv s" "data_inv s" and m: "minv_free ob s"
    and ob: "obj_type (blk s ob) = RHINO_MUTEX_OBJ_TYPE"
    and t: "live (tcb s t)" "b_prio (tcb s t) \<noteq> RHINO_IDLE_PRI" and nb: "\<not> blocked (tcb s t)" and ns: "no_self s"
  shows "kwf (upd_mutex (upd_task (upd_mutex s ob (\<lambda>m. m\<lparr>mutex_task := Some t\<rparr>)) t
           (\<lambda>k. k\<lparr>mutex_list := ob # mutex_list k\<rparr>)) ob (\<lambda>m. m\<lparr>owner_nested := 1\<rparr>))"
proof (rule kwf_nested)
  have "minv (upd_task (upd_mutex s ob (\<lambda>m. m\<lparr>mutex_task := Some t\<rparr>)) t
           (\<lambda>k. k\<lparr>mutex_list := ob # mutex_list k\<rparr>))"
    by (rule minv_give [OF m ob t]) simp
  then show "kwf (upd_task (upd_mutex s ob (\<lambda>m. m\<lparr>mutex_task := Some t\<rparr>)) t
           (\<lambda>k. k\<lparr>mutex_list := ob # mutex_list k\<rparr>))"
    using k rest no_self_upd_mutex [OF ns, of "\<lambda>m. m\<lparr>mutex_task := Some t\<rparr>" ob] nb by (simp add: kwf_def kinv_upd_mutex)
qed

lemma can_block_b_prio:
  "kwf s \<Longrightarrow> can_block s \<Longrightarrow> b_prio (tcb s (g_active_task s)) \<noteq> RHINO_IDLE_PRI \<and>
     prio (tcb s (g_active_task s)) < RHINO_IDLE_PRI"
  using kinv_prio_ok [of s "g_active_task s"] by (auto simp: kwf_def can_block_def prio_ok_def config_defs)

text \<open>The waiting half of the lock: the owner inherits the priority, then the caller blocks.\<close>

lemma mutex_block_good:
  assumes w: "kwf s" "act_inv s" "can_block s" and lk: "g_sched_lock s = 0" "g_intrpt_nested_level s = 0"
    and ob: "obj_type (blk s ob) = RHINO_MUTEX_OBJ_TYPE" and ow: "mutex_task (mutexes s ob) = Some ow"
    and self: "ow \<noteq> g_active_task s" and n: "n \<noteq> 0" and s1: "s1 = (if prio (tcb s (g_active_task s)) < prio (tcb s ow)
              then snd (task_pri_change s ow (prio (tcb s (g_active_task s)))) else s)"
  shows "good s (core_sched (pend_to_blk_obj s1 ob (g_active_task s1) n))"
proof -
  let ?a = "g_active_task s"
  have k: "kinv s" and m: "minv s" using w(1) by (simp_all add: kwf_def)
  have np: "prio (tcb s ?a) < RHINO_IDLE_PRI" and bp: "b_prio (tcb s ?a) \<noteq> RHINO_IDLE_PRI"
    using can_block_b_prio [OF w(1,3)] by auto
  from task_pri_change_kinv [OF k m minv_owner(1,2) [OF m ob ow] np]
  obtain s' where s': "task_pri_change s ow (prio (tcb s ?a)) = (RHINO_SUCCESS, s')" "kinv s'" "reprio s s'"
    "traps_ok s s'" using traps_ok_one by blast
  have r: "reprio s s1" "kinv s1" "traps_ok s s1" using s' k by (auto simp: s1)
  have w1: "kwf s1" by (rule kwf_reprio [OF w(1) r(2,1)])
  have a: "g_active_task s1 = ?a" using r(1) by (simp add: reprio_frame)
  have st: "task_state (tcb s1 ?a) = K_RDY" using w(2) lk by (simp add: act_inv_def reprio_frame [OF r(1)])
  have p: "prio (tcb s1 ?a) \<noteq> RHINO_IDLE_PRI"
    using kinv_prio_ok [OF r(2), of ?a] bp by (simp add: prio_ok_def reprio_frame [OF r(1)])
  have wt: "waitable s1 ob" using ob ow by (simp add: waitable_def reprio_frame [OF r(1)])
  from pend_to_blk_obj_kwf [OF w1 st p wt _ _ n] ob ow self
  have b: "kwf (pend_to_blk_obj s1 ob ?a n)" "traps (pend_to_blk_obj s1 ob ?a n) = traps s1"
    by (simp_all add: reprio_frame [OF r(1)])
  show ?thesis unfolding a
    by (rule good_sched [OF w(2) b(1)]) (use r(3) b(2) lk in \<open>simp_all add: reprio_frame [OF r(1)] traps_ok_def\<close>)
qed

lemma krhino_mutex_lock_good:
  assumes w: "kwf s" "act_inv s" "can_block s"
    and novf: "fst (krhino_mutex_lock s mutex ticks) \<noteq> Ret RHINO_MUTEX_NESTED_OVF"
  shows "good s (snd (krhino_mutex_lock s mutex ticks))"
proof (cases mutex)
  case None
  then show ?thesis using good_refl [OF w(1,2)] by (simp add: krhino_mutex_lock_def)
next
  case (Some ob)
  let ?a = "g_active_task s"
  have nest: "good s (upd_mutex s ob (\<lambda>m. m\<lparr>owner_nested := owner_nested m + 1\<rparr>))"
    by (rule good_exit [OF w(2) kwf_nested [OF w(1)]]) simp_all
  have take: "good s (upd_mutex (upd_task (upd_mutex s ob (\<lambda>m. m\<lparr>mutex_task := Some ?a\<rparr>)) ?a
      (\<lambda>k. k\<lparr>mutex_list := ob # mutex_list k\<rparr>)) ob (\<lambda>m. m\<lparr>owner_nested := 1\<rparr>))"
    if "obj_type (blk s ob) = RHINO_MUTEX_OBJ_TYPE" "mutex_task (mutexes s ob) = None"
  proof (rule good_exit [OF w(2) kwf_give])
    show "live (tcb s ?a)" using w(2) runnable_live by (auto simp: act_inv_def)
    show "b_prio (tcb s ?a) \<noteq> RHINO_IDLE_PRI" using can_block_b_prio [OF w(1,3)] by simp
    show "minv_free ob s" using minv_free_unowned w(1) that by (simp add: kwf_def)
    show "\<not> blocked (tcb s ?a)" using w(2) runnable_live by (auto simp: act_inv_def)
  qed (use w(1) that in \<open>simp_all add: kwf_def\<close>)
  have block: "good s (core_sched (pend_to_blk_obj s1 ob (g_active_task s1) ticks))"
    if "\<not> g_sched_lock s > 0" "\<not> g_intrpt_nested_level s > 0" "obj_type (blk s ob) = RHINO_MUTEX_OBJ_TYPE"
      "mutex_task (mutexes s ob) = Some ow" "ow \<noteq> ?a" "ticks \<noteq> RHINO_NO_WAIT"
      "s1 = (if prio (tcb s ?a) < prio (tcb s ow)
             then snd (task_pri_change s ow (prio (tcb s ?a))) else s)" for s1 ow
    by (rule mutex_block_good [OF w _ _ that(3,4,5) _ that(7)])
      (use that(1,2,6) in \<open>simp_all add: word_gt_0 config_defs\<close>)
  show ?thesis
  proof (cases "mutex_task (mutexes s ob)")
    case None
    then show ?thesis using Some take good_refl [OF w(1,2)] by (simp add: krhino_mutex_lock_def Let_def)
  next
    case (Some ow)
    then show ?thesis using \<open>mutex = Some ob\<close> nest block good_refl [OF w(1,2)] novf
      by (auto simp: krhino_mutex_lock_def Let_def split: if_splits)
  qed
qed

text \<open>Unlocking: the owner leaves the inherited priority, then the mutex is free or goes to
  its first waiter.\<close>

lemma unlock_release:
  assumes w: "kwf s" and ob: "obj_type (blk s ob) = RHINO_MUTEX_OBJ_TYPE"
    and ow: "mutex_task (mutexes s ob) = Some t" and t: "\<not> blocked (tcb s t)"
  defines "s2 \<equiv> mutex_release s t (Some ob)"
  defines "sx \<equiv> upd_task s t (\<lambda>k. k\<lparr>mutex_list := remove1 ob (mutex_list (tcb s t))\<rparr>)"
  shows "kinv s2 \<and> settled s2 \<and> task_list_inv s2 \<and> idle_inv s2 \<and> data_inv s2 \<and> minv_free ob s2 \<and> traps s2 = traps s \<and>
     no_self s2 \<and> reprio sx s2"
proof -
  have k: "kinv s" and m: "minv s" using w by (simp_all add: kwf_def)
  have d: "distinct (mutex_list (tcb s t))" using m minv_owner(1) [OF m ob ow] by (simp add: minv_def)
  from mutex_release_unblocked [OF k minv_owner(1) [OF m ob ow] t minv_owner(2) [OF m ob ow] d refl, of ob]
  have r: "kinv s2" "reprio sx s2" "traps s2 = traps s" by (simp_all add: s2_def sx_def)
  have kx: "kinv sx" using k by (simp add: sx_def)
  have "settled sx" "task_list_inv sx" "idle_inv sx" "data_inv sx" "no_self sx" using w by (simp_all add: sx_def kwf_def)
  moreover have "minv_free ob sx" unfolding sx_def by (rule minv_free_release [OF m ob ow refl])
  ultimately show ?thesis
    using r rest_reprio [OF kx r(1,2)] minv_free_reprio [OF r(2)] waits_for_reprio [OF r(2)]
    by (simp add: no_self_def)
qed

lemma krhino_mutex_unlock_good:
  assumes w: "kwf s" "act_inv s"
  shows "good s (snd (krhino_mutex_unlock s mutex))"
proof (cases mutex)
  case None
  then show ?thesis using good_refl [OF w] by (simp add: krhino_mutex_unlock_def)
next
  case (Some ob)
  let ?a = "g_active_task s"
  define s1 where "s1 = upd_mutex s ob (\<lambda>m. m\<lparr>owner_nested := owner_nested m - 1\<rparr>)"
  have w1: "kwf s1" unfolding s1_def by (rule kwf_nested [OF w(1)])
  have nest: "good s s1" by (rule good_exit [OF w(2) w1]) (simp_all add: s1_def)
  define s2 where "s2 = mutex_release s1 ?a (Some ob)"
  show ?thesis
  proof (cases "obj_type (blk s ob) = RHINO_MUTEX_OBJ_TYPE \<and> mutex_task (mutexes s ob) = Some ?a")
    case False
    then show ?thesis using Some good_refl [OF w] by (auto simp: krhino_mutex_unlock_def)
  next
    case True
    then have o1: "obj_type (blk s1 ob) = RHINO_MUTEX_OBJ_TYPE" "mutex_task (mutexes s1 ob) = Some ?a"
      by (simp_all add: s1_def)
    have run: "runnable (tcb s ?a)" using w(2) by (simp add: act_inv_def)
    then have "\<not> blocked (tcb s1 ?a)" using runnable_live by (simp add: s1_def)
    from unlock_release [OF w1 o1 this, folded s2_def]
    have r: "kinv s2" "settled s2" "task_list_inv s2" "idle_inv s2" "minv_free ob s2" "traps s2 = traps s1" "data_inv s2" "no_self s2"
      and rp: "reprio (upd_task s1 ?a (\<lambda>k. k\<lparr>mutex_list := remove1 ob (mutex_list (tcb s1 ?a))\<rparr>)) s2"
      by auto
    have o2: "obj_type (blk s2 ob) = RHINO_MUTEX_OBJ_TYPE" "g_active_task s2 = ?a" "traps s2 = traps s"
      "task_state (tcb s2 ?a) = task_state (tcb s ?a)" "g_sched_lock s2 = g_sched_lock s"
      "g_intrpt_nested_level s2 = g_intrpt_nested_level s"
      using o1 r(6) by (simp_all add: reprio_frame [OF rp]) (simp_all add: s1_def)
    show ?thesis
    proof (cases "blk_list (blk s2 ob)")
      case Nil
      let ?s3 = "upd_mutex s2 ob (\<lambda>m. m\<lparr>mutex_task := None\<rparr>)"
      have "minv ?s3"
      proof (rule minv_free_drop)
        show "minv_free ob ?s3" by (rule minv_free_cong [OF _ _ _ _ _ r(5)]) simp_all
      qed simp
      moreover have "kinv ?s3" by (rule kinv_upd_mutex [OF r(1)]) (simp add: Nil)
      moreover have "no_self ?s3" by (rule no_self_upd_mutex [OF r(8)]) simp
      ultimately have "kwf ?s3" using r by (simp add: kwf_def)
      then have "good s ?s3" by (rule good_exit [OF w(2)]) (simp_all add: o2)
      then show ?thesis using Some True nest Nil good_refl [OF w]
        by (simp add: krhino_mutex_unlock_def Let_def s1_def [symmetric])
          (simp add: s1_def s2_def)
    next
      case (Cons task ts)
      let ?s3 = "pend_task_wakeup s2 task"
      have bl: "blocked (tcb s2 task)" using list_blocked [OF r(1), of task ob] Cons by simp
      from wakeup.wake_first [OF r(1) Cons]
      have k3: "kinv ?s3" and l: "left_wait BLK_FINISH s2 {task} ?s3" by auto
      have bl': "\<And>u. u \<in> {task} \<Longrightarrow> blocked (tcb s2 u)" using bl by simp
      define s6 where "s6 = upd_mutex (upd_task (upd_mutex ?s3 ob (\<lambda>m. m\<lparr>mutex_task := Some task\<rparr>)) task
           (\<lambda>k. k\<lparr>mutex_list := ob # mutex_list k\<rparr>)) ob (\<lambda>m. m\<lparr>owner_nested := 1\<rparr>)"
      have "kwf s6" unfolding s6_def
      proof (rule kwf_give [OF k3])
        show "settled ?s3" "task_list_inv ?s3" "idle_inv ?s3" "minv_free ob ?s3" "data_inv ?s3"
          using settled_left_wait [OF l] task_list_inv_left_wait [OF l bl'] idle_inv_left_wait [OF l bl']
            minv_free_left_wait [OF l bl'] data_inv_left_wait [OF l] r by auto
        show "no_self ?s3" by (rule no_self_left_wait [OF l r(8)])
        show "\<not> blocked (tcb ?s3 task)" using left_wait_task(7) [OF l, of task] by (simp add: blocked_def)
        show "obj_type (blk ?s3 ob) = RHINO_MUTEX_OBJ_TYPE" using o2 by (simp add: left_wait_frame [OF l])
        have "live (tcb s2 task)" using bl by (auto simp: live_def blocked_def)
        then show "live (tcb ?s3 task)" by (subst left_wait_live [OF l bl'])
        show "b_prio (tcb ?s3 task) \<noteq> RHINO_IDLE_PRI"
        proof -
          have "task_state (tcb s2 task) \<noteq> K_RDY" using bl by (auto simp: blocked_def)
          then have "b_prio (tcb s2 task) \<noteq> RHINO_IDLE_PRI" using r(4) by (auto simp: idle_inv_def)
          then show ?thesis by (simp add: left_wait_frame(2) [OF l])
        qed
      qed
      moreover have "task_state (tcb s6 ?a) = task_state (tcb s ?a)"
      proof -
        have "runnable (tcb s2 ?a)" using run o2(4) by (simp add: runnable_def)
        from left_wait_runnable [OF l this] show ?thesis using o2(4) by (auto simp: s6_def)
      qed
      ultimately have "good s (core_sched s6)"
        by (intro good_sched [OF w(2)]) (simp_all add: s6_def o2 left_wait_rest [OF l])
      then show ?thesis using Some True nest Cons good_refl [OF w]
        by (simp add: krhino_mutex_unlock_def Let_def s1_def [symmetric])
          (simp add: s1_def s2_def s6_def)
    qed
  qed
qed

text \<open>Deletion: the owner, who may itself be waiting, gives up what it inherited through this
  mutex, and the waiters are told.\<close>

lemma mutex_release_any:
  assumes k: "kinv s" and d: "distinct (mutex_list (tcb s t))"
    and sx: "sx = upd_task s t (\<lambda>k. k\<lparr>mutex_list := remove1 ob (mutex_list (tcb s t))\<rparr>)"
    and m: "minv sx" and t: "live (tcb s t)" "b_prio (tcb s t) \<noteq> RHINO_IDLE_PRI"
  shows "kinv (mutex_release s t (Some ob)) \<and> minv (mutex_release s t (Some ob)) \<and>
     reprio sx (mutex_release s t (Some ob)) \<and> traps_ok sx (mutex_release s t (Some ob))"
proof -
  let ?ms = "remove1 ob (mutex_list (tcb s t))"
  have f: "filter (\<lambda>x. Some x \<noteq> Some ob) (mutex_list (tcb s t)) = ?ms"
    using d by (simp add: distinct_remove1_removeAll removeAll_filter_not_eq eq_commute)
  have lk: "mutex_pri_look s t (Some ob) = (held_pri s t ?ms, sx)"
    by (simp only: mutex_pri_look_result f held_pri_def sx)
  have kx: "kinv sx" using k by (simp add: sx)
  have np: "held_pri s t ?ms < RHINO_IDLE_PRI"
    using held_pri_le [of s t ?ms] prio_ok_below [OF kinv_prio_ok [OF k] t(2)] by simp
  have tx: "live (tcb sx t)" "b_prio (tcb sx t) \<noteq> RHINO_IDLE_PRI" using t by (simp_all add: sx live_def)
  from task_pri_change_kinv [OF kx m tx np]
  obtain s' where s': "task_pri_change sx t (held_pri s t ?ms) = (RHINO_SUCCESS, s')" "kinv s'" "minv s'"
    "reprio sx s'" "traps_ok sx s'" using traps_ok_one by blast
  show ?thesis using kx m s' unfolding mutex_release_def lk by simp
qed

lemma mutex_del_release:
  assumes w: "kwf s" and ob: "obj_type (blk s ob) = RHINO_MUTEX_OBJ_TYPE"
  defines "s1 \<equiv> upd_blk s ob (\<lambda>b. b\<lparr>obj_type := RHINO_OBJ_TYPE_NONE\<rparr>)"
  defines "s2 \<equiv> (case mutex_task (mutexes s1 ob) of None \<Rightarrow> s1 | Some ow \<Rightarrow> mutex_release s1 ow (Some ob))"
  shows "\<exists>sx. kinv s2 \<and> minv s2 \<and> reprio sx s2 \<and> traps_ok s s2 \<and> task_list_inv s2 \<and> idle_inv s2 \<and>
     data_inv s2 \<and> blk sx = blk s1 \<and> kinv sx \<and> (\<forall>u. task_state (tcb sx u) = task_state (tcb s u)) \<and>
     g_active_task sx = g_active_task s \<and> g_kobj_list sx = g_kobj_list s \<and>
     no_self s2 \<and> g_intrpt_nested_level sx = g_intrpt_nested_level s \<and> g_sched_lock sx = g_sched_lock s"
proof -
  have k: "kinv s" and m: "minv s" using w by (simp_all add: kwf_def)
  have k1: "kinv s1" unfolding s1_def by (rule kinv_untype [OF k])
  have i1: "task_list_inv s1" "idle_inv s1" "data_inv s1"
    using w by (simp_all add: kwf_def task_list_inv_def idle_inv_def data_inv_def s1_def)
  have wf1: "waits_for s1 \<subseteq> waits_for s" by (auto simp: waits_for_def s1_def split: if_splits)
  then have ns1: "no_self s1" using w no_self_subset unfolding kwf_def by blast
  show ?thesis
  proof (cases "mutex_task (mutexes s ob)")
    case None
    then have "s2 = s1" by (simp add: s2_def s1_def)
    moreover have "minv s1" using m None by (auto simp: minv_def s1_def)
    ultimately show ?thesis using k1 i1 ns1 by (intro exI [of _ s1]) (simp add: s1_def)
  next
    case (Some ow)
    let ?sx = "upd_task s1 ow (\<lambda>k. k\<lparr>mutex_list := remove1 ob (mutex_list (tcb s1 ow))\<rparr>)"
    have d: "distinct (mutex_list (tcb s1 ow))"
      using m minv_owner(1) [OF m ob Some] by (simp add: minv_def s1_def)
    have fx: "minv_free ob ?sx"
      using minv_free_cong [OF _ _ _ _ _ minv_free_release [OF m ob Some refl], of ?sx]
      by (simp add: s1_def live_def)
    have mx: "minv ?sx" by (rule minv_free_drop [OF fx]) (simp add: s1_def)
    have t: "live (tcb s1 ow)" "b_prio (tcb s1 ow) \<noteq> RHINO_IDLE_PRI"
      using minv_owner [OF m ob Some] by (simp_all add: s1_def)
    have s2: "s2 = mutex_release s1 ow (Some ob)" using Some by (simp add: s2_def s1_def)
    from mutex_release_any [OF k1 d refl mx t, folded s2]
    have r: "kinv s2" "minv s2" "reprio ?sx s2" "traps_ok ?sx s2" by auto
    have kx: "kinv ?sx" using k1 by simp
    have "blocked (tcb ?sx u) = blocked (tcb s1 u)" "blk_obj (tcb ?sx u) = blk_obj (tcb s1 u)" for u
      by (auto simp: blocked_def)
    then have "waits_for ?sx = waits_for s1" unfolding waits_for_def by simp
    then have "acyclic (waits_for s) \<Longrightarrow> acyclic (waits_for ?sx)" using wf1 acyclic_subset by metis
    moreover have "task_list_inv ?sx" "idle_inv ?sx" using i1 by simp_all
    moreover have "traps ?sx = traps s" by (simp add: s1_def)
    ultimately have "traps_ok s s2" using r(4) task_list_all_listed [of ?sx] by (auto simp: traps_ok_def)
    moreover have "no_self s2" using ns1 waits_for_reprio [OF r(3)] by (simp add: no_self_def \<open>waits_for ?sx = waits_for s1\<close>)
    ultimately show ?thesis using r kx rest_reprio(2,3,4) [OF kx r(1,3)] i1
      by (intro exI [of _ ?sx]) (simp add: s1_def)
  qed
qed

lemma mutex_del_body_good:
  assumes w: "kwf s" "act_inv s" and ob: "obj_type (blk s ob) = RHINO_MUTEX_OBJ_TYPE"
  defines "s1 \<equiv> upd_blk s ob (\<lambda>b. b\<lparr>obj_type := RHINO_OBJ_TYPE_NONE\<rparr>)"
  defines "s2 \<equiv> (case mutex_task (mutexes s1 ob) of None \<Rightarrow> s1 | Some ow \<Rightarrow> mutex_release s1 ow (Some ob))"
  defines "s3 \<equiv> wake_all pend_task_rm ob s2"
  shows "good s (core_sched (s3\<lparr>g_kobj_list := (g_kobj_list s3)\<lparr>l_mutex_head := xs\<rparr>\<rparr>))"
proof -
  from mutex_del_release [OF w(1) ob, folded s1_def, folded s2_def]
  obtain sx where r: "kinv s2" "minv s2" "reprio sx s2" "traps_ok s s2" "task_list_inv s2" "idle_inv s2" "data_inv s2"
    and x: "blk sx = blk s1" "kinv sx" "\<And>u. task_state (tcb sx u) = task_state (tcb s u)"
      "g_active_task sx = g_active_task s" "g_intrpt_nested_level sx = g_intrpt_nested_level s" "no_self s2" "g_sched_lock sx = g_sched_lock s" by auto
  from removal.wake_all_empties [OF r(1), of ob, folded s3_def]
  have k3: "kinv s3" and l: "left_wait BLK_DEL s2 (set (blk_list (blk s2 ob))) s3"
    and e: "blk_list (blk s3 ob) = []" by auto
  have bl: "\<And>u. u \<in> set (blk_list (blk s2 ob)) \<Longrightarrow> blocked (tcb s2 u)" using list_blocked [OF r(1)] by simp
  have ty: "obj_type (blk s3 o') = obj_type (blk s1 o')" for o'
    by (simp add: left_wait_frame [OF l] reprio_frame [OF r(3)] x)
  have sub: "blk_list (blk s1 o') = [] \<Longrightarrow> blk_list (blk s3 o') = []" for o'
  proof -
    have "set (blk_list (blk s2 o')) = set (blk_list (blk sx o'))"
      using kinv_wait_list [OF r(1), of o'] kinv_wait_list [OF x(2), of o']
      by (simp add: wait_set_def reprio_frame [OF r(3)])
    then show "blk_list (blk s1 o') = [] \<Longrightarrow> blk_list (blk s3 o') = []"
      by (simp add: x(1) left_wait_obj(1) [OF l])
  qed
  have "settled s3" unfolding settled_def
  proof (intro allI impI)
    fix o' assume "obj_type (blk s3 o') \<in> {RHINO_OBJ_TYPE_NONE, RHINO_TIMER_OBJ_TYPE, RHINO_MM_OBJ_TYPE}"
    then have "o' = ob \<or> blk_list (blk s1 o') = []"
      using w(1) by (auto simp: ty s1_def kwf_def settled_def)
    then show "blk_list (blk s3 o') = []" using e sub by auto
  qed
  then have w3: "kwf s3"
    using k3 minv_left_wait [OF l bl r(2)] task_list_inv_left_wait [OF l bl r(5)]
      idle_inv_left_wait [OF l bl r(6)] data_inv_left_wait [OF l r(7)] no_self_left_wait [OF l x(6)]
    by (simp add: kwf_def)
  show ?thesis
  proof (rule good_sched [OF w(2) kwf_kobj_list [OF w3]])
    show "traps_ok s (s3\<lparr>g_kobj_list := (g_kobj_list s3)\<lparr>l_mutex_head := xs\<rparr>\<rparr>)"
      using r(4) by (simp add: traps_ok_def left_wait_rest [OF l])
    have "task_state (tcb s3 u) = task_state (tcb s u)" if "runnable (tcb s u)" for u
      using that left_wait_runnable [OF l, of u] by (simp add: runnable_def reprio_frame [OF r(3)] x)
    then show "(runnable (tcb s (g_active_task s)) \<longrightarrow>
       task_state (tcb (s3\<lparr>g_kobj_list := (g_kobj_list s3)\<lparr>l_mutex_head := xs\<rparr>\<rparr>) (g_active_task s)) =
         task_state (tcb s (g_active_task s))) \<and>
       g_intrpt_nested_level (s3\<lparr>g_kobj_list := (g_kobj_list s3)\<lparr>l_mutex_head := xs\<rparr>\<rparr>) = g_intrpt_nested_level s \<and>
       g_sched_lock (s3\<lparr>g_kobj_list := (g_kobj_list s3)\<lparr>l_mutex_head := xs\<rparr>\<rparr>) = g_sched_lock s \<or>
       g_sched_lock (s3\<lparr>g_kobj_list := (g_kobj_list s3)\<lparr>l_mutex_head := xs\<rparr>\<rparr>) = 0 \<and>
       g_intrpt_nested_level (s3\<lparr>g_kobj_list := (g_kobj_list s3)\<lparr>l_mutex_head := xs\<rparr>\<rparr>) = 0"
      by (simp add: left_wait_rest [OF l] reprio_frame [OF r(3)] x)
  qed (simp_all add: left_wait_rest [OF l] reprio_frame [OF r(3)] x)
qed

lemma krhino_mutex_del_good: "kwf s \<Longrightarrow> act_inv s \<Longrightarrow> good s (snd (krhino_mutex_del s mutex))"
  using mutex_del_body_good good_refl by (simp add: krhino_mutex_del_def Let_def split: option.split)

end
