(* ===== verification/Task_Inv.thy ===== *)
theory Task_Inv
  imports K_Task K_Mutex
begin

text \<open>
  The task services keep the invariant: creation, sleep, yield, suspend and resume, change of
  priority, abort of a wait, deletion.
\<close>

section \<open>Creation\<close>

definition stack_fits :: "u32 \<Rightarrow> u32 \<Rightarrow> bool" where
  "stack_fits base sz \<longleftrightarrow> 17 \<le> stack_top base sz \<and> stack_top base sz \<le> unat sz"

lemma task_init_ok:
  assumes "stack_fits base sz"
  shows "snd (task_init deathbed name arg pri ticks base sz entry autorun flag) = []"
  using assms by (simp add: task_init_def cpu_task_stack_init_def stack_fits_def Let_def)

lemma task_init_fields:
  assumes k: "k = fst (task_init deathbed name arg pri ticks base sz entry autorun flag)"
  shows "prio k = pri" "b_prio k = pri" "\<not> tick_head k" "mutex_list k = []" "blk_obj k = None"
    "task_state k = (if autorun > 0 then K_RDY else K_SUSPENDED)" "task_mm_flag k = flag"
  unfolding k
  by (simp_all add: task_init_def blank_task_def Let_def split: option.splits prod.splits)

lemma kwf_new_task:
  assumes w: "kwf s" and nl: "\<not> live (tcb s t)"
    and tc: "tcb s' = (tcb s)(t := k)"
    and k: "prio k = pri" "b_prio k = pri" "\<not> tick_head k" "mutex_list k = []" "blk_obj k = None"
    and pri: "pri < RHINO_CONFIG_PRI_MAX" "pri = RHINO_IDLE_PRI \<Longrightarrow> task_state k = K_RDY"
    and st: "task_state k = K_RDY \<and> g_ready_queue s' = ready_list_add (g_ready_queue s) pri t
             \<or> task_state k = K_SUSPENDED \<and> g_ready_queue s' = g_ready_queue s"
    and fr: "blk s' = blk s" "g_tick_list s' = g_tick_list s" "g_tick_count s' = g_tick_count s"
      "sems s' = sems s" "mutexes s' = mutexes s" "queues s' = queues s" "buf_queues s' = buf_queues s"
      "l_task_head (g_kobj_list s') = l_task_head (g_kobj_list s) @ [t]"
  shows "kwf s'"
proof -
  have ki: "kinv s" and m: "minv s" and tl: "task_list_inv s" using w by (simp_all add: kwf_def)
  have nb: "\<not> blocked (tcb s t)" "\<not> sleeping (tcb s t)" "task_state (tcb s t) \<noteq> K_RDY"
    using nl by (auto simp: live_def blocked_def sleeping_def)
  have nt: "\<not> tick_head (tcb s t)" using ki nb by (auto simp: kinv_def tick_inv_def)
  have pk: "prio_ok k" using k pri by (simp add: prio_ok_def)
  have lk: "live k" using st by (auto simp: live_def)
  have wt: "waitable s' ob = waitable s ob" for ob by (rule waitable_cong) (simp_all add: fr)
  have "kinv s'"
    by (rule detach_kinv [OF ki nb(3) tc pk k(3)])
      (use st k fr wt not_blocked_remove1 [OF ki nb(1)] not_ticking_remove1 [OF ki nt] in auto)
  moreover have "minv s'"
  proof -
    have "mutex_task (mutexes s x) \<noteq> Some t" if "obj_type (blk s x) = RHINO_MUTEX_OBJ_TYPE" for x
      using minv_owner(1) [OF m that, of t] nl by auto
    then show ?thesis using m lk k unfolding minv_def tc fr by (auto split: if_splits)
  qed
  moreover have "task_list_inv s'"
    using tl nl lk by (auto simp: task_list_inv_def fr tc)
  moreover have "idle_inv s'" using w k pri by (auto simp: kwf_def idle_inv_def tc)
  moreover have "data_inv s'" "settled s'" using w data_inv_cong [of s' s] by (simp_all add: kwf_def fr settled_def)
  moreover have "\<not> blocked k" using st by (auto simp: blocked_def)
  then have "waits_for s' \<subseteq> waits_for s" by (auto simp: waits_for_def tc fr split: if_splits)
  then have "no_self s'" using w no_self_subset unfolding kwf_def by blast
  ultimately show ?thesis by (simp add: kwf_def)
qed

lemma task_create_good:
  assumes w: "kwf s" "act_inv s" and nl: "\<And>t. task = Some t \<Longrightarrow> \<not> live (tcb s t)"
    and idle: "pri = RHINO_IDLE_PRI \<Longrightarrow> autorun > 0"
    and fits: "\<And>base. stack_buf = Some base \<Longrightarrow> stack_fits base sz"
  shows "good s (snd (task_create deathbed s task name arg pri ticks stack_buf sz entry autorun flag))"
proof (cases "task = None \<or> name = None \<or> entry = None \<or> stack_buf = None")
  case True
  then show ?thesis using good_refl [OF w] by (auto simp: task_create_def split: option.splits)
next
  case False
  then obtain t nm en base where a: "task = Some t" "name = Some nm" "entry = Some en" "stack_buf = Some base"
    by auto
  define k where "k = fst (task_init deathbed name arg pri ticks base sz en autorun flag)"
  define s1 where "s1 = (if pri = RHINO_IDLE_PRI then s\<lparr>g_idle_task_spawned := 1\<rparr> else s)"
  define s3 where "s3 = (upd_task s1 t (\<lambda>_. k))\<lparr>g_kobj_list := (g_kobj_list s)\<lparr>l_task_head := l_task_head (g_kobj_list s) @ [t]\<rparr>\<rparr>"
  define s4 where "s4 = s3\<lparr>g_ready_queue := ready_list_add_tail (g_ready_queue s) pri t\<rparr>"
  note kf = task_init_fields [OF k_def]
  have ti: "task_init deathbed name arg pri ticks base sz en autorun flag = (k, [])"
    using task_init_ok [OF fits [OF a(4)]] by (metis k_def prod.collapse)
  have s1: "g_ready_queue s1 = g_ready_queue s" "tcb s1 = tcb s" "blk s1 = blk s" "g_tick_list s1 = g_tick_list s"
    "g_tick_count s1 = g_tick_count s" "sems s1 = sems s" "mutexes s1 = mutexes s" "queues s1 = queues s"
    "buf_queues s1 = buf_queues s" "g_kobj_list s1 = g_kobj_list s" "traps s1 = traps s"
    "g_active_task s1 = g_active_task s" "g_sched_lock s1 = g_sched_lock s"
    "g_intrpt_nested_level s1 = g_intrpt_nested_level s" "g_sys_stat s1 = g_sys_stat s"
    by (simp_all add: s1_def)
  have ta: "g_active_task s \<noteq> t" using w(2) nl [OF a(1)] runnable_live by (auto simp: act_inv_def)
  have e: "snd (task_create deathbed s task name arg pri ticks stack_buf sz entry autorun flag) =
      (if sz = 0 \<or> pri \<ge> RHINO_CONFIG_PRI_MAX \<or> g_intrpt_nested_level s > 0 \<or>
          pri = RHINO_IDLE_PRI \<and> g_idle_task_spawned s > 0 then s
       else if autorun > 0 then (if g_sys_stat s = RHINO_RUNNING then core_sched s4 else s4)
       else s3)"
    using a ti kf by (simp add: task_create_def Let_def s1_def s3_def s4_def upd_task_def)
  have act: "g_active_task s4 = g_active_task s" "tcb s4 (g_active_task s) = tcb s (g_active_task s)"
    "g_active_task s3 = g_active_task s" "tcb s3 (g_active_task s) = tcb s (g_active_task s)"
    "traps s3 = traps s" "traps s4 = traps s" "g_sched_lock s4 = g_sched_lock s"
    "g_intrpt_nested_level s4 = g_intrpt_nested_level s" "g_sched_lock s3 = g_sched_lock s"
    "g_intrpt_nested_level s3 = g_intrpt_nested_level s"
    using ta by (simp_all add: s3_def s4_def s1)
  have w4: "kwf s4" if "pri < RHINO_CONFIG_PRI_MAX" "autorun > 0"
    by (rule kwf_new_task [OF w(1) nl [OF a(1)], where k = k and pri = pri])
      (use that kf in \<open>simp_all add: s4_def s3_def s1 ready_list_add_def\<close>)
  have w3: "kwf s3" if "pri < RHINO_CONFIG_PRI_MAX" "\<not> autorun > 0"
    by (rule kwf_new_task [OF w(1) nl [OF a(1)], where k = k and pri = pri])
      (use that kf idle in \<open>simp_all add: s3_def s1\<close>)
  show ?thesis unfolding e
    by (intro if_rule [where P = "good s"])
      (use good_refl [OF w] good_sched [OF w(2) w4] good_exit [OF w(2) w4] good_exit [OF w(2) w3] act in \<open>auto simp: not_le\<close>)
qed

section \<open>Leaving the ready state\<close>

text \<open>The part of \<open>kwf\<close> beyond \<open>kinv\<close> reads few fields of a task.\<close>

lemma kwf_restate:
  assumes w: "kwf s" and ki: "kinv s'" and tc: "tcb s' = (tcb s)(t := k')"
    and lv: "live k' = live (tcb s t)" and mb: "mutex_list k' = mutex_list (tcb s t)" "b_prio k' = b_prio (tcb s t)"
    and id: "b_prio k' = RHINO_IDLE_PRI \<Longrightarrow> task_state k' = K_RDY"
    and wf: "blocked k' \<Longrightarrow> blocked (tcb s t) \<and> blk_obj k' = blk_obj (tcb s t)"
    and bl: "\<And>ob. obj_type (blk s' ob) = obj_type (blk s ob)"
      "\<And>ob. blk_list (blk s ob) = [] \<Longrightarrow> blk_list (blk s' ob) = []"
    and fr: "mutexes s' = mutexes s" "queues s' = queues s" "buf_queues s' = buf_queues s"
      "l_task_head (g_kobj_list s') = l_task_head (g_kobj_list s)"
  shows "kwf s'" "waits_for s' \<subseteq> waits_for s"
proof -
  have e: "live (tcb s' u) = live (tcb s u)" "b_prio (tcb s' u) = b_prio (tcb s u)"
    "mutex_list (tcb s' u) = mutex_list (tcb s u)" for u
    using lv mb by (simp_all add: tc)
  have "minv s'" by (rule minv_cong [of s' s]) (use w in \<open>simp_all add: e bl fr kwf_def\<close>)
  moreover show sub: "waits_for s' \<subseteq> waits_for s"
    using wf by (auto simp: waits_for_def tc bl fr split: if_splits)
  moreover have "no_self s'" using w no_self_subset [OF _ sub] by (simp add: kwf_def)
  moreover have "settled s'" using w bl unfolding kwf_def settled_def by metis
  moreover have "task_list_inv s'" using w by (simp add: kwf_def task_list_inv_def e fr)
  moreover have "idle_inv s'" using w id by (auto simp: kwf_def idle_inv_def tc)
  moreover have "data_inv s'" using w data_inv_cong [of s' s] by (simp add: kwf_def bl fr)
  ultimately show "kwf s'" using ki by (simp add: kwf_def)
qed

lemma sleep_kwf:
  assumes w: "kwf s" and r: "task_state (tcb s t) = K_RDY" and p: "prio (tcb s t) \<noteq> RHINO_IDLE_PRI"
    and n: "n \<noteq> 0"
  defines "s' \<equiv> rq_rm (tick_list_insert (upd_task s t (\<lambda>k. k\<lparr>task_state := K_SLEEP\<rparr>)) t n) t"
  shows "kwf s' \<and> traps s' = traps s"
proof -
  have k: "kinv s" using w by (simp add: kwf_def)
  note nw = ready_not_waiting [OF k r]
  let ?s1 = "upd_task s t (\<lambda>k. k\<lparr>task_state := K_SLEEP\<rparr>)"
  let ?s2 = "tick_list_insert ?s1 t n"
  have n0: "0 < n" using n by (simp add: word_gt_0)
  have t2: "tcb ?s2 = (tcb s)(t := (tcb s t)\<lparr>task_state := K_SLEEP, tick_match := g_tick_count s + n,
      tick_remain := n, tick_head := True\<rparr>)"
    using n0 by (simp add: tick_list_insert_def tick_list_pri_insert_def Let_def fun_eq_iff)
  then have tc: "tcb s' = (tcb s)(t := (tcb s t)\<lparr>task_state := K_SLEEP, tick_match := g_tick_count s + n,
      tick_remain := n, tick_head := True\<rparr>)"
    by (simp add: s'_def)
  have rm: "g_ready_queue s' = g_ready_queue (rq_rm s t) \<and> traps s' = traps (rq_rm s t)"
    unfolding s'_def by (rule rq_rm_cong) (simp_all add: t2)
  have tl: "g_tick_list s' = insert_before (\<lambda>u. n < remaining s u) t (g_tick_list s)"
  proof -
    have "remaining ?s1 = remaining s" by (simp add: remaining_def fun_eq_iff)
    then show ?thesis using tick_list_insert_list [OF n0, of t ?s1] nw(2) by (simp add: s'_def)
  qed
  have fr: "blk s' = blk s" "g_tick_count s' = g_tick_count s" "mutexes s' = mutexes s" "sems s' = sems s"
    "queues s' = queues s" "buf_queues s' = buf_queues s" "g_kobj_list s' = g_kobj_list s"
    by (simp_all add: s'_def)
  have "kinv s'"
    by (rule enter_wait_kinv [OF k r p tc, where ob = 0 and to = n])
      (use rm tl fr n waitable_cong [of s' _ s] in simp_all)
  moreover have "b_prio (tcb s t) \<noteq> RHINO_IDLE_PRI" using kinv_prio_ok [OF k, of t] p by (simp add: prio_ok_def)
  ultimately have "kwf s'"
    by (intro kwf_restate(1) [OF w _ tc]) (use r fr in \<open>simp_all add: live_def blocked_def\<close>)
  then show ?thesis using rm rq_rm_holds [OF k r p] by simp
qed

lemma krhino_task_sleep_good:
  assumes w: "kwf s" "act_inv s" "can_block s"
  shows "good s (snd (krhino_task_sleep s ticks))"
proof -
  let ?a = "g_active_task s"
  define s3 where "s3 = rq_rm (tick_list_insert (upd_task s ?a (\<lambda>k. k\<lparr>task_state := K_SLEEP\<rparr>)) ?a ticks) ?a"
  have "good s (core_sched s3)" if "ticks \<noteq> 0" "g_intrpt_nested_level s = 0" "g_sched_lock s = 0"
  proof -
    have "task_state (tcb s ?a) = K_RDY" using w(2) that by (simp add: act_inv_def)
    from sleep_kwf [OF w(1) this _ that(1), folded s3_def] w(3)
    have "kwf s3" "traps s3 = traps s" by (simp_all add: can_block_def)
    then show ?thesis by (intro good_resched) (use that in \<open>simp_all add: s3_def\<close>)
  qed
  then show ?thesis using good_refl [OF w(1,2)]
    by (simp add: krhino_task_sleep_def Let_def s3_def word_gt_0)
qed

lemma ring_rotate_kwf:
  assumes "kwf s" shows "kwf (s\<lparr>g_ready_queue := ready_list_head_to_tail (g_ready_queue s) p\<rparr>)"
proof -
  let ?s = "s\<lparr>g_ready_queue := ready_list_head_to_tail (g_ready_queue s) p\<rparr>"
  have e: "ready_set ?s = ready_set s" "wait_set ?s = wait_set s" "remaining ?s = remaining s"
    by (simp_all add: fun_eq_iff ready_set_def wait_set_def remaining_def)
  have w: "waitable ?s ob = waitable s ob" for ob by (rule waitable_cong) simp_all
  have "kinv ?s" using assms ready_list_head_to_tail_holds unfolding kwf_def inv_defs e w by simp
  moreover have "waits_for ?s = waits_for s" by (rule waits_for_cong) simp_all
  ultimately show ?thesis using assms
    by (simp add: kwf_def settled_def minv_def task_list_inv_def idle_inv_def data_inv_def no_self_def)
qed

lemma krhino_task_yield_good:
  assumes w: "kwf s" "act_inv s" and r: "task_state (tcb s (g_active_task s)) = K_RDY"
  shows "good s (snd (krhino_task_yield s))"
proof -
  let ?p = "prio (tcb s (g_active_task s))"
  have "g_active_task s \<in> ready_set s ?p" using r by (simp add: ready_set_def)
  then have ne: "cur_list_item (g_ready_queue s) ?p \<noteq> []"
    using w(1) rq_holds_ring [of "g_ready_queue s" "ready_set s" ?p] kinv_ready by (auto simp: kwf_def)
  have "good s (core_sched (s\<lparr>g_ready_queue := ready_list_head_to_tail (g_ready_queue s) ?p\<rparr>))"
    by (rule good_sched [OF w(2) ring_rotate_kwf [OF w(1)]]) simp_all
  with ne show ?thesis by (simp add: krhino_task_yield_def Let_def)
qed

section \<open>Suspend and resume\<close>

lemma suspend_ready_kwf:
  assumes w: "kwf s" and r: "task_state (tcb s t) = K_RDY" and p: "prio (tcb s t) \<noteq> RHINO_IDLE_PRI"
  defines "s' \<equiv> rq_rm (upd_task s t (\<lambda>k. k\<lparr>suspend_count := 1, task_state := K_SUSPENDED\<rparr>)) t"
  shows "kwf s' \<and> traps s' = traps s"
proof -
  have k: "kinv s" using w by (simp add: kwf_def)
  have tc: "tcb s' = (tcb s)(t := (tcb s t)\<lparr>suspend_count := 1, task_state := K_SUSPENDED\<rparr>)"
    by (simp add: s'_def)
  have rm: "g_ready_queue s' = g_ready_queue (rq_rm s t) \<and> traps s' = traps (rq_rm s t)"
    unfolding s'_def by (rule rq_rm_cong) simp_all
  have fr: "blk s' = blk s" "g_tick_count s' = g_tick_count s" "mutexes s' = mutexes s" "sems s' = sems s"
    "queues s' = queues s" "buf_queues s' = buf_queues s" "g_kobj_list s' = g_kobj_list s" "g_tick_list s' = g_tick_list s"
    by (simp_all add: s'_def)
  have "kinv s'"
    by (rule retire_kinv [OF k r p tc])
      (use rm fr kinv_prio_ok [OF k, of t] ready_not_waiting [OF k r] waitable_cong [of s' _ s] in \<open>simp_all add: prio_ok_def\<close>)
  moreover have "b_prio (tcb s t) \<noteq> RHINO_IDLE_PRI" using kinv_prio_ok [OF k, of t] p by (simp add: prio_ok_def)
  ultimately have "kwf s'"
    by (intro kwf_restate(1) [OF w _ tc]) (use r fr in \<open>simp_all add: live_def blocked_def\<close>)
  then show ?thesis using rm rq_rm_holds [OF k r p] by simp
qed

text \<open>Suspending or resuming a task that stays on its lists.\<close>

lemma restate_kwf:
  assumes w: "kwf s"
    and f: "task_state (f (tcb s t)) \<noteq> K_RDY" "task_state (tcb s t) \<noteq> K_RDY" "live (tcb s t)" "live (f (tcb s t))"
      "blocked (f (tcb s t)) = blocked (tcb s t)" "sleeping (f (tcb s t)) = sleeping (tcb s t)"
      "prio (f (tcb s t)) = prio (tcb s t)" "b_prio (f (tcb s t)) = b_prio (tcb s t)"
      "blk_obj (f (tcb s t)) = blk_obj (tcb s t)" "tick_head (f (tcb s t)) = tick_head (tcb s t)"
      "tick_match (f (tcb s t)) = tick_match (tcb s t)" "mutex_list (f (tcb s t)) = mutex_list (tcb s t)"
  shows "kwf (upd_task s t f)"
proof -
  have k: "kinv s" using w by (simp add: kwf_def)
  have nb: "b_prio (tcb s t) \<noteq> RHINO_IDLE_PRI" using w f(2) by (auto simp: kwf_def idle_inv_def)
  show ?thesis
    by (rule kwf_restate(1) [OF w restate_kinv [OF k] upd_task_tcb]) (use f nb in simp_all)
qed

lemma not_ready_not_active:
  "act_inv s \<Longrightarrow> \<not> runnable (tcb s t) \<Longrightarrow> t \<noteq> g_active_task s"
  by (auto simp: act_inv_def)

lemma upd_task_good:
  assumes w: "act_inv s" and k: "kwf (upd_task s t f)"
    and st: "t \<noteq> g_active_task s \<or> task_state (f (tcb s t)) = task_state (tcb s t)"
  shows "good s (core_sched (upd_task s t f))" "good s (upd_task s t f)"
proof -
  have a: "task_state (tcb (upd_task s t f) (g_active_task s)) = task_state (tcb s (g_active_task s))"
    using st by auto
  show "good s (core_sched (upd_task s t f))" by (rule good_sched [OF w k]) (use a in simp_all)
  show "good s (upd_task s t f)" by (rule good_exit [OF w k]) (use a in simp_all)
qed

lemma task_suspend_good:
  assumes w: "kwf s" "act_inv s" and p: "prio (tcb s t) \<noteq> RHINO_IDLE_PRI"
  shows "good s (snd (task_suspend s t))"
proof (cases "t = g_active_task s \<and> g_sched_lock s > 0")
  case True
  then show ?thesis using good_refl [OF w] by (simp add: task_suspend_def)
next
  case nl: False
  have count: "good s (core_sched (upd_task s t (\<lambda>k. k\<lparr>suspend_count := suspend_count k + 1\<rparr>)))"
  proof (rule upd_task_good [OF w(2)])
    show "kwf (upd_task s t (\<lambda>k. k\<lparr>suspend_count := suspend_count k + 1\<rparr>))" (is "kwf ?s")
      by (rule kwf_same_view [OF w(1)]) (use waitable_cong [of ?s _ s] in \<open>auto simp: same_view_def task_view_def\<close>)
  qed simp
  have wait: "good s (core_sched (upd_task s t (\<lambda>k. k\<lparr>suspend_count := 1, task_state := st\<rparr>)))"
    if "task_state (tcb s t) = K_SLEEP \<and> st = K_SLEEP_SUSPENDED \<or> task_state (tcb s t) = K_PEND \<and> st = K_PEND_SUSPENDED"
    for st
    by (rule upd_task_good(1) [OF w(2) restate_kwf [OF w(1)]])
      (use that not_ready_not_active [OF w(2), of t] in \<open>auto simp: live_def blocked_def sleeping_def runnable_def\<close>)
  have ready: "good s (core_sched (rq_rm (upd_task s t (\<lambda>k. k\<lparr>suspend_count := 1, task_state := K_SUSPENDED\<rparr>)) t))"
    (is "good s (core_sched ?s)") if r: "task_state (tcb s t) = K_RDY"
  proof (rule good_resched)
    from suspend_ready_kwf [OF w(1) r p] show "kwf ?s" "traps_ok s ?s" by simp_all
    show "act_inv ?s \<or> g_sched_lock ?s = 0 \<and> g_intrpt_nested_level ?s = 0"
      using nl w(2) by (cases "t = g_active_task s") (auto simp: act_inv_def runnable_def word_gt_0)
  qed
  show ?thesis using nl good_refl [OF w] count wait ready
    by (cases "task_state (tcb s t)") (auto simp: task_suspend_def)
qed

lemma krhino_task_suspend_good:
  "kwf s \<Longrightarrow> act_inv s \<Longrightarrow> good s (snd (krhino_task_suspend s task))"
  using task_suspend_good good_refl by (auto simp: krhino_task_suspend_def split: option.splits)

text \<open>A suspended task that waits for nothing becomes ready.\<close>

lemma ready_again_kwf:
  assumes w: "kwf s" and st: "task_state (tcb s t) = K_SUSPENDED"
    and tc: "tcb s' = (tcb s)(t := k')"
    and k': "task_state k' = K_RDY" "prio k' = prio (tcb s t)" "b_prio k' = b_prio (tcb s t)"
      "mutex_list k' = mutex_list (tcb s t)" "tick_head k' = tick_head (tcb s t)"
    and q: "g_ready_queue s' = ready_list_add (g_ready_queue s) (prio (tcb s t)) t"
    and fr: "blk s' = blk s" "g_tick_list s' = g_tick_list s" "g_tick_count s' = g_tick_count s"
      "sems s' = sems s" "mutexes s' = mutexes s" "queues s' = queues s" "buf_queues s' = buf_queues s"
      "g_kobj_list s' = g_kobj_list s"
  shows "kwf s'"
proof -
  have k: "kinv s" using w by (simp add: kwf_def)
  have nb: "\<not> blocked (tcb s t)" "\<not> sleeping (tcb s t)" using st by (simp_all add: blocked_def sleeping_def)
  then have nt: "\<not> tick_head (tcb s t)" using k by (auto simp: kinv_def tick_inv_def)
  have "prio_ok k'" using kinv_prio_ok [OF k, of t] k' by (simp add: prio_ok_def)
  then show ?thesis
    using kwf_detach [OF w _ _ tc] st k' q fr nt not_blocked_remove1 [OF k nb(1)] not_ticking_remove1 [OF k nt]
    by (simp add: live_def)
qed

lemma task_resume_good:
  assumes w: "kwf s" "act_inv s"
  shows "good s (snd (task_resume s t))"
proof -
  let ?s1 = "upd_task s t (\<lambda>k. k\<lparr>suspend_count := suspend_count k - 1\<rparr>)"
  have w1: "kwf ?s1"
    by (rule kwf_same_view [OF w(1)]) (use waitable_cong [of ?s1 _ s] in \<open>auto simp: same_view_def task_view_def\<close>)
  have keep: "good s (core_sched ?s1)" by (rule upd_task_good [OF w(2) w1]) simp
  have wait: "good s (core_sched (upd_task ?s1 t (\<lambda>k. k\<lparr>task_state := st\<rparr>)))"
    if "task_state (tcb s t) = K_SLEEP_SUSPENDED \<and> st = K_SLEEP \<or> task_state (tcb s t) = K_PEND_SUSPENDED \<and> st = K_PEND"
    for st
  proof -
    have "kwf (upd_task ?s1 t (\<lambda>k. k\<lparr>task_state := st\<rparr>))"
      by (rule restate_kwf [OF w1]) (use that in \<open>auto simp: live_def blocked_def sleeping_def\<close>)
    moreover have "t \<noteq> g_active_task s" using that not_ready_not_active [OF w(2), of t] by (auto simp: runnable_def)
    ultimately show ?thesis by (intro good_sched [OF w(2)]) simp_all
  qed
  have ready: "good s (core_sched (rq_add (upd_task ?s1 t (\<lambda>k. k\<lparr>task_state := K_RDY\<rparr>)) t))" (is "good s (core_sched ?s)")
    if st: "task_state (tcb s t) = K_SUSPENDED"
  proof (rule good_resched)
    show "kwf ?s" by (rule ready_again_kwf [OF w(1) st,
          where k' = "(tcb s t)\<lparr>suspend_count := suspend_count (tcb s t) - 1, task_state := K_RDY\<rparr>"]) (simp_all add: rq_add_def fun_eq_iff)
    show "act_inv ?s \<or> g_sched_lock ?s = 0 \<and> g_intrpt_nested_level ?s = 0"
      using w(2) by (auto simp: act_inv_def runnable_def)
  qed simp
  show ?thesis using good_refl [OF w] keep wait ready
    by (cases "task_state (tcb s t)") (simp_all add: task_resume_def Let_def)
qed

section \<open>Change of priority\<close>

lemma b_prio_kwf:
  assumes w: "kwf s" and p: "b_prio (tcb s t) \<noteq> RHINO_IDLE_PRI" "pri < RHINO_IDLE_PRI"
  shows "kwf (upd_task s t (\<lambda>k. k\<lparr>b_prio := pri\<rparr>))"
proof -
  let ?s = "upd_task s t (\<lambda>k. k\<lparr>b_prio := pri\<rparr>)"
  have k: "kinv s" using w by (simp add: kwf_def)
  have v: "prio (tcb ?s u) = prio (tcb s u)" "blocked (tcb ?s u) = blocked (tcb s u)"
    "sleeping (tcb ?s u) = sleeping (tcb s u)" "tick_head (tcb ?s u) = tick_head (tcb s u)"
    "task_state (tcb ?s u) = task_state (tcb s u)" "blk_obj (tcb ?s u) = blk_obj (tcb s u)"
    "mutex_list (tcb ?s u) = mutex_list (tcb s u)" "live (tcb ?s u) = live (tcb s u)"
    "u \<noteq> t \<Longrightarrow> tcb ?s u = tcb s u" "b_prio (tcb ?s t) = pri" for u
    by (simp_all add: blocked_def sleeping_def live_def)
  have bi: "b_prio (tcb ?s u) = RHINO_IDLE_PRI \<longleftrightarrow> b_prio (tcb s u) = RHINO_IDLE_PRI" for u
    using v(9,10) p by (cases "u = t") auto
  have e: "ready_set ?s = ready_set s" "wait_set ?s = wait_set s" "remaining ?s = remaining s"
    unfolding fun_eq_iff ready_set_def wait_set_def v remaining_def by simp_all
  have po: "prio_ok (tcb ?s u)" for u
    using v(9) kinv_prio_ok [OF k, of u] p by (cases "u = t") (auto simp: prio_ok_def config_defs)
  have wt: "waitable ?s ob = waitable s ob" for ob by (rule waitable_cong) simp_all
  have "kinv ?s"
    using k po unfolding kinv_def prio_inv_def rq_inv_def blk_inv_def tick_inv_def obj_inv_def e v(1-6) wt by simp
  moreover have "minv ?s" by (rule minv_cong [of ?s s]) (use w in \<open>simp_all add: v(7,8) bi kwf_def del: upd_task_tcb\<close>)
  moreover have "waits_for ?s = waits_for s" unfolding waits_for_def v by simp
  moreover have "settled ?s" "data_inv ?s" using w data_inv_cong [of ?s s] by (simp_all add: kwf_def settled_def)
  moreover have "task_list_inv ?s" "idle_inv ?s"
    using w unfolding kwf_def task_list_inv_def idle_inv_def v(5,8) bi by simp_all
  ultimately show ?thesis using w by (simp add: kwf_def no_self_def)
qed

lemma krhino_task_pri_change_good:
  assumes w: "kwf s" "act_inv s" and lv: "\<And>t. task = Some t \<Longrightarrow> task_state (tcb s t) \<noteq> K_SEED"
  shows "good s (snd (snd (krhino_task_pri_change s task pri old_null)))"
proof (cases task)
  case None
  then show ?thesis using good_refl [OF w] by (simp add: krhino_task_pri_change_def)
next
  case (Some t)
  define s1 where "s1 = upd_task s t (\<lambda>k. k\<lparr>b_prio := pri\<rparr>)"
  define lim where "lim = mutex_pri_limit s t pri"
  have main: "\<exists>s2. task_pri_change s1 t lim = (RHINO_SUCCESS, s2) \<and> good s (core_sched s2)"
    if c: "\<not> prio (tcb s t) \<ge> RHINO_IDLE_PRI" "\<not> pri \<ge> RHINO_IDLE_PRI" "task_state (tcb s t) \<noteq> K_DELETED"
  proof -
    have b: "b_prio (tcb s t) \<noteq> RHINO_IDLE_PRI"
      using c(1) kinv_prio_ok [of s t] w(1) by (auto simp: kwf_def prio_ok_def)
    have w1: "kwf s1" unfolding s1_def by (rule b_prio_kwf [OF w(1) b]) (use c in simp)
    then have k1: "kinv s1" "minv s1" "all_listed s1" by (simp_all add: kwf_def task_list_all_listed)
    have l1: "live (tcb s1 t)" "b_prio (tcb s1 t) \<noteq> RHINO_IDLE_PRI"
      using lv [OF Some] c by (simp_all add: s1_def live_def)
    have "lim < RHINO_IDLE_PRI" using mutex_pri_limit_le [of s t pri] c(2) by (simp add: lim_def)
    from task_pri_change_kinv [OF k1(1,2) l1 this]
    obtain s2 where s2: "task_pri_change s1 t lim = (RHINO_SUCCESS, s2)" "kinv s2" "reprio s1 s2" "traps_ok s1 s2"
      using traps_ok_one by blast
    have "waits_for s1 = waits_for s" unfolding s1_def by (rule waits_for_cong) (auto simp: blocked_def)
    then have t: "traps_ok s s2" by (intro traps_ok_step [OF s2(4) _ k1(3)]) (simp_all add: s1_def)
    have "task_state (tcb s2 u) = task_state (tcb s u)" for u
      using reprio_frame(1) [OF s2(3)] by (simp add: s1_def)
    then have "good s (core_sched s2)"
      by (intro good_sched [OF w(2) kwf_reprio [OF w1 s2(2,3)] t])
        (simp_all add: reprio_rest [OF s2(3)], simp_all add: s1_def)
    with s2(1) show ?thesis by blast
  qed
  then show ?thesis using Some good_refl [OF w]
    by (auto simp: krhino_task_pri_change_def Let_def s1_def lim_def)
qed

section \<open>Abort of a wait\<close>

text \<open>A waiting task is taken off its lists, with the result \<open>bs\<close>, and becomes ready or stays
  suspended; it still names the object it waited for.\<close>

definition unwait :: "task_stat_t \<Rightarrow> blk_state_t \<Rightarrow> kernel \<Rightarrow> tid \<Rightarrow> kernel" where
  "unwait st bs s t =
     (let s1 = blk_list_rm (tick_list_rm s t) t
      in upd_task (if st = K_RDY then rq_add s1 t else s1) t (\<lambda>k. k\<lparr>task_state := st, blk_state := bs\<rparr>))"

lemma unwait_tcb:
  "tcb (unwait st bs s t) = (tcb s)(t := (tcb s t)\<lparr>tick_head := False, task_state := st, blk_state := bs\<rparr>)"
  by (simp add: unwait_def tick_list_rm_tcb fun_eq_iff Let_def)

lemma unwait_frame:
  "blk_list (blk (unwait st bs s t) ob) = remove1 t (blk_list (blk s ob))"
  "obj_type (blk (unwait st bs s t) ob) = obj_type (blk s ob)" "blk_policy (blk (unwait st bs s t) ob) = blk_policy (blk s ob)"
  "g_ready_queue (unwait st bs s t) =
     (if st = K_RDY then ready_list_add (g_ready_queue s) (prio (tcb s t)) t else g_ready_queue s)"
  "g_tick_count (unwait st bs s t) = g_tick_count s" "sems (unwait st bs s t) = sems s" "mutexes (unwait st bs s t) = mutexes s"
  "queues (unwait st bs s t) = queues s" "buf_queues (unwait st bs s t) = buf_queues s" "traps (unwait st bs s t) = traps s"
  "g_kobj_list (unwait st bs s t) = g_kobj_list s" "g_active_task (unwait st bs s t) = g_active_task s"
  "g_sched_lock (unwait st bs s t) = g_sched_lock s" "g_intrpt_nested_level (unwait st bs s t) = g_intrpt_nested_level s"
  by (simp_all add: unwait_def rq_add_def tick_list_rm_tcb Let_def)

lemma unwait_tick_list: "kinv s \<Longrightarrow> g_tick_list (unwait st bs s t) = remove1 t (g_tick_list s)"
  by (simp add: unwait_def tick_list_rm_list [of s] Let_def)

lemma unwait_kwf:
  assumes w: "kwf s" and wt: "blocked (tcb s t) \<or> sleeping (tcb s t)" and st: "st = K_RDY \<or> st = K_SUSPENDED"
  shows "kwf (unwait st bs s t) \<and> waits_for (unwait st bs s t) \<subseteq> waits_for s"
proof (rule kwf_detach [OF w])
  have k: "kinv s" using w by (simp add: kwf_def)
  show "task_state (tcb s t) \<noteq> K_RDY" "live (tcb s t)" using wt by (auto simp: blocked_def sleeping_def live_def)
  show "tcb (unwait st bs s t) = (tcb s)(t := (tcb s t)\<lparr>tick_head := False, task_state := st, blk_state := bs\<rparr>)"
    (is "_ = (tcb s)(t := ?k)") by (rule unwait_tcb)
  show "prio_ok ?k" using kinv_prio_ok [OF k, of t] by (simp add: prio_ok_def)
  show "g_tick_list (unwait st bs s t) = remove1 t (g_tick_list s)" by (rule unwait_tick_list [OF k])
qed (use st in \<open>auto simp: unwait_frame\<close>)

text \<open>A sleeper is on no block list.\<close>

lemma unwait_sleeper:
  assumes k: "kinv s" and nb: "\<not> blocked (tcb s t)"
  shows "unwait st bs s t = upd_task (if st = K_RDY then rq_add (tick_list_rm s t) t else tick_list_rm s t) t
     (\<lambda>k. k\<lparr>task_state := st, blk_state := bs\<rparr>)"
proof -
  have "(blk s ob)\<lparr>blk_list := remove1 t (blk_list (blk s ob))\<rparr> = blk s ob" for ob
    using not_blocked_remove1 [OF k nb] by simp
  then have "blk_list_rm (tick_list_rm s t) t = tick_list_rm s t" by (simp add: blk_list_rm_def)
  then show ?thesis by (simp add: unwait_def)
qed

lemma unwait_reset_kwf:
  assumes w: "kwf s" and bl: "blocked (tcb s t)" and st: "st = K_RDY \<or> st = K_SUSPENDED"
    and s'_def: "s' = upd_task (mutex_task_pri_reset (unwait st bs s t) t) t (\<lambda>k. k\<lparr>blk_obj := None\<rparr>)"
  shows "kwf s' \<and> traps_ok s s' \<and> reprio (unwait st bs s t) (mutex_task_pri_reset (unwait st bs s t) t) \<and>
    waits_for s' \<subseteq> waits_for s"
proof -
  let ?s2 = "unwait st bs s t" let ?s3 = "mutex_task_pri_reset ?s2 t"
  have k: "kinv s" using w by (simp add: kwf_def)
  have w2: "kwf ?s2" and sub: "waits_for ?s2 \<subseteq> waits_for s" using unwait_kwf [OF w _ st, of t bs] bl by auto
  then have k2: "kinv ?s2" "minv ?s2" "all_listed ?s2" by (simp_all add: kwf_def task_list_all_listed)
  obtain ob where ob: "blk_obj (tcb s t) = Some ob" using kinv_blocked_obj [OF k bl] by auto
  have o2: "blk_obj (tcb ?s2 t) = Some ob" using ob by (simp add: unwait_tcb)
  have own: "mutex_task (mutexes ?s2 ob) \<noteq> None" if "obj_type (blk ?s2 ob) = RHINO_MUTEX_OBJ_TYPE"
    using kinv_blocked_waitable [OF k bl ob] waitable_mutex [of s ob] that by (simp add: unwait_frame)
  from mutex_task_pri_reset_kinv [OF k2(1,2) o2 own]
  have r: "kinv ?s3" "reprio ?s2 ?s3" "traps_ok ?s2 ?s3" by auto
  have w3: "kwf ?s3" by (rule kwf_reprio [OF w2 r(1,2)])
  have nb: "\<not> blocked (tcb ?s3 t)" using st by (auto simp: reprio_frame [OF r(2)] unwait_tcb blocked_def)
  then have "kwf s'" unfolding s'_def by (rule kwf_blk_obj [OF w3])
  moreover have "traps_ok s ?s3"
    by (rule traps_ok_step [OF r(3) _ k2(3)]) (use acyclic_subset [OF _ sub] in \<open>simp_all add: unwait_frame\<close>)
  moreover have "waits_for s' \<subseteq> waits_for ?s3"
    using nb by (auto simp: s'_def waits_for_def blocked_def split: if_splits)
  ultimately show ?thesis using r(2) sub waits_for_reprio [OF r(2)] by (auto simp: s'_def traps_ok_def)
qed

lemma krhino_task_wait_abort_good:
  assumes w: "kwf s" "act_inv s"
  shows "good s (snd (krhino_task_wait_abort s task))"
proof (cases task)
  case None
  then show ?thesis using good_refl [OF w] by (simp add: krhino_task_wait_abort_def)
next
  case (Some t)
  have k: "kinv s" using w by (simp add: kwf_def)
  have stay: "good s (core_sched s)" by (rule good_sched [OF w(2,1)]) simp_all
  have ready: "good s (core_sched (rq_add (upd_task s t (\<lambda>k. k\<lparr>task_state := K_RDY\<rparr>)) t))" (is "good s (core_sched ?s)")
    if st: "task_state (tcb s t) = K_SUSPENDED"
  proof (rule good_resched)
    show "kwf ?s" by (rule ready_again_kwf [OF w(1) st, where k' = "(tcb s t)\<lparr>task_state := K_RDY\<rparr>"])
      (simp_all add: rq_add_def)
    show "act_inv ?s \<or> g_sched_lock ?s = 0 \<and> g_intrpt_nested_level ?s = 0"
      using w(2) by (auto simp: act_inv_def runnable_def)
  qed simp
  have sleep: "good s (core_sched (upd_task (rq_add (tick_list_rm s t) t) t
      (\<lambda>k. k\<lparr>task_state := K_RDY, blk_state := BLK_ABORT\<rparr>)))" (is "good s (core_sched ?s)")
    if st: "sleeping (tcb s t)"
  proof -
    have nb: "\<not> blocked (tcb s t)" using st by (auto simp: sleeping_def blocked_def)
    have "good s (core_sched (unwait K_RDY BLK_ABORT s t))"
      by (rule good_sched [OF w(2)])
        (use unwait_kwf [OF w(1)] st not_ready_not_active [OF w(2), of t]
          in \<open>auto simp: unwait_frame unwait_tcb runnable_def sleeping_def\<close>)
    then show ?thesis using unwait_sleeper [OF k nb, of K_RDY BLK_ABORT] by simp
  qed
  have pend: "good s (core_sched (upd_task (mutex_task_pri_reset (unwait K_RDY BLK_ABORT s t) t) t (\<lambda>k. k\<lparr>blk_obj := None\<rparr>)))"
    if bl: "blocked (tcb s t)"
  proof -
    from unwait_reset_kwf [OF w(1) bl _ refl, of K_RDY BLK_ABORT]
    have r: "kwf (upd_task (mutex_task_pri_reset (unwait K_RDY BLK_ABORT s t) t) t (\<lambda>k. k\<lparr>blk_obj := None\<rparr>))"
      "traps_ok s (upd_task (mutex_task_pri_reset (unwait K_RDY BLK_ABORT s t) t) t (\<lambda>k. k\<lparr>blk_obj := None\<rparr>))"
      and rp: "reprio (unwait K_RDY BLK_ABORT s t) (mutex_task_pri_reset (unwait K_RDY BLK_ABORT s t) t)" by auto
    have "t \<noteq> g_active_task s" using bl not_ready_not_active [OF w(2), of t] by (auto simp: runnable_def blocked_def)
    then show ?thesis
      by (intro good_sched [OF w(2) r]) (simp_all add: reprio_frame [OF rp], simp_all add: unwait_frame unwait_tcb)
  qed
  show ?thesis using Some good_refl [OF w] stay ready sleep pend
    by (cases "task_state (tcb s t)")
      (simp_all add: krhino_task_wait_abort_def Let_def sleeping_def blocked_def unwait_def)
qed

lemma krhino_task_cancel_good:
  assumes w: "kwf s" "act_inv s"
  shows "good s (snd (krhino_task_cancel s task))"
proof (cases task)
  case None
  then show ?thesis using good_refl [OF w] by (simp add: krhino_task_cancel_def)
next
  case (Some t)
  let ?s = "upd_task s t (\<lambda>k. k\<lparr>cancel := 1\<rparr>)"
  have w1: "kwf ?s"
    by (rule kwf_same_view [OF w(1)]) (use waitable_cong [of ?s _ s] in \<open>auto simp: same_view_def task_view_def\<close>)
  have a1: "act_inv ?s" using w(2) by (auto simp: act_inv_def runnable_def)
  have "waits_for ?s = waits_for s" by (rule waits_for_cong) (auto simp: blocked_def)
  moreover have "all_listed ?s" using w1 by (simp add: kwf_def task_list_all_listed)
  ultimately show ?thesis using krhino_task_wait_abort_good [OF w1 a1, of "Some t"] Some traps_ok_step [of ?s _ s]
    by (simp add: krhino_task_cancel_def good_def)
qed

section \<open>Deletion\<close>

text \<open>While the mutexes of a dying task are handed over, \<open>ms\<close> are those it still owns; its own
  chain is no longer maintained.\<close>

definition minv_dying :: "tid \<Rightarrow> oid list \<Rightarrow> kernel \<Rightarrow> bool" where
  "minv_dying t ms s \<longleftrightarrow>
     (\<forall>u. live (tcb s u) \<longrightarrow> u \<noteq> t \<longrightarrow> distinct (mutex_list (tcb s u)) \<and>
        (mutex_list (tcb s u) \<noteq> [] \<longrightarrow> b_prio (tcb s u) \<noteq> RHINO_IDLE_PRI)) \<and>
     (\<forall>u m. live (tcb s u) \<longrightarrow> u \<noteq> t \<longrightarrow> (m \<in> set (mutex_list (tcb s u)) \<longleftrightarrow>
        obj_type (blk s m) = RHINO_MUTEX_OBJ_TYPE \<and> mutex_task (mutexes s m) = Some u)) \<and>
     (\<forall>m. obj_type (blk s m) = RHINO_MUTEX_OBJ_TYPE \<and> mutex_task (mutexes s m) = Some t \<longleftrightarrow> m \<in> set ms) \<and>
     (\<forall>u m. obj_type (blk s m) = RHINO_MUTEX_OBJ_TYPE \<and> mutex_task (mutexes s m) = Some u \<longrightarrow> live (tcb s u))"

definition dying :: "tid \<Rightarrow> oid list \<Rightarrow> kernel \<Rightarrow> bool" where
  "dying t ms s \<longleftrightarrow> kinv s \<and> settled s \<and> task_list_inv s \<and> idle_inv s \<and> data_inv s \<and> no_self s \<and> minv_dying t ms s"

lemma minv_dying_start: "minv s \<Longrightarrow> live (tcb s t) \<Longrightarrow> minv_dying t (mutex_list (tcb s t)) s"
  unfolding minv_def minv_dying_def by auto

lemma minv_dying_end:
  assumes m: "minv_dying t [] s"
    and u: "\<And>u. u \<noteq> t \<Longrightarrow> live (tcb s' u) = live (tcb s u) \<and>
       mutex_list (tcb s' u) = mutex_list (tcb s u) \<and> b_prio (tcb s' u) = b_prio (tcb s u)"
    and t: "\<not> live (tcb s' t)"
    and b: "\<And>m. obj_type (blk s' m) = obj_type (blk s m)" "mutexes s' = mutexes s"
  shows "minv s'"
proof -
  have l: "u \<noteq> t \<and> live (tcb s u)" if "live (tcb s' u)" for u using that t u by (cases "u = t") auto
  have n: "mutex_task (mutexes s m) \<noteq> Some t" if "obj_type (blk s m) = RHINO_MUTEX_OBJ_TYPE" for m
    using m that by (simp add: minv_dying_def)
  have "distinct (mutex_list (tcb s' u)) \<and> (mutex_list (tcb s' u) \<noteq> [] \<longrightarrow> b_prio (tcb s' u) \<noteq> RHINO_IDLE_PRI)"
    if "live (tcb s' u)" for u
    using m l [OF that] u [of u] by (simp add: minv_dying_def)
  moreover have "x \<in> set (mutex_list (tcb s' u)) \<longleftrightarrow>
      obj_type (blk s' x) = RHINO_MUTEX_OBJ_TYPE \<and> mutex_task (mutexes s' x) = Some u"
    if "live (tcb s' u)" for u x
    using m l [OF that] u [of u] by (simp add: minv_dying_def b)
  moreover have "live (tcb s' u)" if "obj_type (blk s' x) = RHINO_MUTEX_OBJ_TYPE" "mutex_task (mutexes s' x) = Some u" for u x
  proof -
    have "u \<noteq> t" using n [of x] that by (auto simp: b)
    moreover have "live (tcb s u)" using m that by (auto simp: minv_dying_def b)
    ultimately show ?thesis using u [of u] by simp
  qed
  ultimately show ?thesis unfolding minv_def by blast
qed

lemma minv_dying_drop:
  assumes m: "minv_dying t (m # ms) s" and d: "m \<notin> set ms"
    and f: "mutex_task (f (mutexes s m)) = None"
  shows "minv_dying t ms (upd_mutex s m f)" (is "minv_dying t ms ?s")
proof -
  have own: "obj_type (blk s m) = RHINO_MUTEX_OBJ_TYPE" "mutex_task (mutexes s m) = Some t"
    using m by (auto simp: minv_dying_def)
  have b: "tcb ?s = tcb s" "blk ?s = blk s"
    "mutex_task (mutexes ?s x) = (if x = m then None else mutex_task (mutexes s x))" for x
    using f by simp_all
  have "x \<noteq> m" if "mutex_task (mutexes s x) = Some u" "u \<noteq> t" for x u using that own by auto
  then show ?thesis unfolding minv_dying_def b
    using m d own unfolding minv_dying_def by (auto split: if_splits)
qed

lemma minv_dying_give:
  assumes m: "minv_dying t (m # ms) s" and d: "m \<notin> set ms"
    and f: "mutex_task (f (mutexes s m)) = Some u"
    and u: "u \<noteq> t" "live (tcb s u)" "b_prio (tcb s u) \<noteq> RHINO_IDLE_PRI"
  shows "minv_dying t ms (upd_task (upd_mutex s m f) u (\<lambda>k. k\<lparr>mutex_list := m # mutex_list k\<rparr>))" (is "minv_dying t ms ?s")
proof -
  have lv: "live (tcb ?s v) = live (tcb s v)" for v by (simp add: live_def)
  have l: "mutex_list (tcb ?s v) = (if v = u then m # mutex_list (tcb s u) else mutex_list (tcb s v))"
    "b_prio (tcb ?s v) = b_prio (tcb s v)" for v by simp_all
  have b: "obj_type (blk ?s x) = obj_type (blk s x)"
    "mutex_task (mutexes ?s x) = (if x = m then Some u else mutex_task (mutexes s x))" for x
    using f by simp_all
  have own: "obj_type (blk s m) = RHINO_MUTEX_OBJ_TYPE" "mutex_task (mutexes s m) = Some t"
    using m by (auto simp: minv_dying_def)
  show ?thesis unfolding minv_dying_def lv l b
    using m d u own unfolding minv_dying_def by (auto split: if_splits)
qed

lemma minv_dying_cong:
  assumes "\<And>u. mutex_list (tcb s' u) = mutex_list (tcb s u)" "\<And>u. live (tcb s' u) = live (tcb s u)"
    "\<And>u. b_prio (tcb s' u) = b_prio (tcb s u)" "\<And>m. obj_type (blk s' m) = obj_type (blk s m)"
    "\<And>m. mutex_task (mutexes s' m) = mutex_task (mutexes s m)"
  shows "minv_dying t ms s \<Longrightarrow> minv_dying t ms s'"
  unfolding minv_dying_def assms .

text \<open>New edges into a task that waits for nobody close no circle.\<close>

lemma acyclic_sink:
  assumes "acyclic R" "S \<subseteq> R \<union> UNIV \<times> {x}" "\<And>y. (x, y) \<notin> S"
  shows "acyclic S"
proof -
  have "b \<noteq> x \<longrightarrow> (a, b) \<in> R\<^sup>+" if "(a, b) \<in> S\<^sup>+" for a b
    using that
  proof (induction rule: trancl_induct)
    case (base y)
    then show ?case using assms(2) by auto
  next
    case (step y z)
    then have "y \<noteq> x" using assms(3) by auto
    with step assms(2) show ?case by (auto intro: trancl_into_trancl)
  qed
  moreover have "a \<noteq> x" if "(a, a) \<in> S\<^sup>+" for a
  proof
    assume "a = x"
    with that obtain y where "(x, y) \<in> S" by (meson tranclD)
    then show False using assms(3) by blast
  qed
  ultimately show ?thesis using assms(1) by (auto simp: acyclic_def)
qed

lemma free_one_mutex_dying:
  assumes d: "dying t (m # ms) s" and nm: "m \<notin> set ms"
  defines "s' \<equiv> free_one_mutex s m"
  shows "dying t ms s'" "tcb s' t = tcb s t" "runnable (tcb s u) \<Longrightarrow> tcb s' u = tcb s u"
    "traps s' = traps s" "g_active_task s' = g_active_task s" "g_sched_lock s' = g_sched_lock s"
    "g_intrpt_nested_level s' = g_intrpt_nested_level s" "acyclic (waits_for s) \<Longrightarrow> acyclic (waits_for s')"
proof -
  have k: "kinv s" and rest: "settled s" "task_list_inv s" "idle_inv s" "data_inv s" "no_self s"
    and md: "minv_dying t (m # ms) s" using d by (auto simp: dying_def)
  have own: "obj_type (blk s m) = RHINO_MUTEX_OBJ_TYPE" "mutex_task (mutexes s m) = Some t"
    using md by (auto simp: minv_dying_def)
  have all: "dying t ms s' \<and> tcb s' t = tcb s t \<and> (runnable (tcb s u) \<longrightarrow> tcb s' u = tcb s u) \<and>
    traps s' = traps s \<and> g_active_task s' = g_active_task s \<and> g_sched_lock s' = g_sched_lock s \<and>
    g_intrpt_nested_level s' = g_intrpt_nested_level s \<and> (acyclic (waits_for s) \<longrightarrow> acyclic (waits_for s'))"
  proof (cases "blk_list (blk s m)")
    case Nil
    have e: "s' = upd_mutex s m (\<lambda>x. x\<lparr>mutex_task := None\<rparr>)"
      by (simp add: s'_def free_one_mutex_def Nil upd_mutex_def)
    have "kinv s'" unfolding e by (rule kinv_upd_mutex [OF k]) (simp add: Nil)
    moreover have "no_self s'" unfolding e by (rule no_self_upd_mutex [OF rest(5)]) simp
    moreover have "minv_dying t ms s'" unfolding e by (rule minv_dying_drop [OF md nm]) simp
    moreover have "waits_for s' \<subseteq> waits_for s" by (auto simp: e waits_for_def split: if_splits)
    ultimately show ?thesis using rest acyclic_subset by (auto simp: dying_def e)
  next
    case (Cons nt ts)
    define s1 where "s1 = pend_task_wakeup s nt"
    have e: "s' = upd_task (upd_mutex s1 m (\<lambda>x. x\<lparr>mutex_task := Some nt\<rparr>)) nt (\<lambda>k. k\<lparr>mutex_list := m # mutex_list k\<rparr>)"
      by (simp add: s'_def free_one_mutex_def Cons upd_mutex_def s1_def Let_def)
    from wakeup.wake_first [OF k Cons, folded s1_def]
    have k1: "kinv s1" and l: "left_wait BLK_FINISH s {nt} s1" by auto
    have bl: "blocked (tcb s nt)" "blk_obj (tcb s nt) = Some m" using kinv_waiting_on [OF k, of nt m] Cons by auto
    then have "(nt, t) \<in> waits_for s" using own by (simp add: waits_for_def)
    then have nt: "nt \<noteq> t" using rest(5) by (auto simp: no_self_def)
    have bs: "\<And>u. u \<in> {nt} \<Longrightarrow> blocked (tcb s u)" using bl by simp
    have nb1: "\<not> blocked (tcb s1 nt)" using left_wait_task(7) [OF l, of nt] by (simp add: blocked_def)
    have lw: "live (tcb s1 v) = live (tcb s v)" for v by (rule left_wait_live [OF l]) (use bl in simp)
    have lv: "live (tcb s1 nt)" unfolding lw using bl by (auto simp: live_def blocked_def)
    have bp: "b_prio (tcb s1 nt) \<noteq> RHINO_IDLE_PRI"
      using rest(3) bl by (auto simp: idle_inv_def left_wait_frame(2) [OF l] blocked_def)
    have m1: "minv_dying t (m # ms) s1"
      by (rule minv_dying_cong [OF _ _ _ _ _ md]) (simp_all add: left_wait_frame [OF l] lw)
    have "kinv s'" unfolding e
      by (rule kinv_upd_task_view [OF kinv_upd_mutex [OF k1]]) (simp_all add: task_view_def)
    moreover have ns: "no_self (upd_mutex s1 m (\<lambda>x. x\<lparr>mutex_task := Some nt\<rparr>))"
      by (rule no_self_upd_mutex [OF no_self_left_wait [OF l rest(5)]]) (use nb1 in auto)
    moreover have "minv_dying t ms s'" unfolding e by (rule minv_dying_give [OF m1 nm]) (use nt lv bp in simp_all)
    moreover have "settled s'" "task_list_inv s'" "idle_inv s'" "data_inv s'"
      using settled_left_wait [OF l rest(1)] task_list_inv_left_wait [OF l bs rest(2)]
        idle_inv_left_wait [OF l bs rest(3)] data_inv_left_wait [OF l rest(4)] by (simp_all add: e)
    ultimately have "dying t ms s'" by (simp add: dying_def e)
    moreover have "tcb s' v = tcb s v" if "v \<noteq> nt" for v
      using that left_wait_task(5) [OF l, of v] by (simp add: e)
    moreover have "u \<noteq> nt" if "runnable (tcb s u)" using that bl by (auto simp: runnable_def blocked_def)
    moreover have "acyclic (waits_for s')" if ac: "acyclic (waits_for s)"
    proof (rule acyclic_sink [OF ac])
      have w: "waits_for s' = waits_for (upd_mutex s1 m (\<lambda>x. x\<lparr>mutex_task := Some nt\<rparr>))"
        unfolding e by (rule waits_for_cong) (simp_all add: blocked_def)
      have "waits_for (upd_mutex s1 m (\<lambda>x. x\<lparr>mutex_task := Some nt\<rparr>)) \<subseteq> waits_for s1 \<union> UNIV \<times> {nt}"
        by (auto simp: waits_for_def split: if_splits)
      then show "waits_for s' \<subseteq> waits_for s \<union> UNIV \<times> {nt}" unfolding w using waits_for_left_wait [OF l] by blast
      show "(nt, y) \<notin> waits_for s'" for y unfolding w using nb1 by (simp add: waits_for_def)
    qed
    ultimately show ?thesis using nt by (simp add: e left_wait_rest [OF l])
  qed
  then show "dying t ms s'" "tcb s' t = tcb s t" "runnable (tcb s u) \<Longrightarrow> tcb s' u = tcb s u"
    "traps s' = traps s" "g_active_task s' = g_active_task s" "g_sched_lock s' = g_sched_lock s"
    "g_intrpt_nested_level s' = g_intrpt_nested_level s" "acyclic (waits_for s) \<Longrightarrow> acyclic (waits_for s')" by auto
qed

lemma task_mutex_free_dying:
  "dying t ms s \<Longrightarrow> distinct ms \<Longrightarrow> s' = foldl free_one_mutex s ms \<Longrightarrow>
   dying t [] s' \<and> tcb s' t = tcb s t \<and> (\<forall>u. runnable (tcb s u) \<longrightarrow> tcb s' u = tcb s u) \<and>
   traps s' = traps s \<and> g_active_task s' = g_active_task s \<and> g_sched_lock s' = g_sched_lock s \<and>
   g_intrpt_nested_level s' = g_intrpt_nested_level s \<and> (acyclic (waits_for s) \<longrightarrow> acyclic (waits_for s'))"
proof (induction ms arbitrary: s)
  case (Cons m ms)
  have nm: "m \<notin> set ms" using Cons.prems(2) by simp
  note one = free_one_mutex_dying [OF Cons.prems(1) nm]
  from Cons.IH [OF one(1)] Cons.prems(2,3) one(2-) show ?case by simp
qed simp

text \<open>The last step: the task, by now without mutexes, leaves the lists it is on.\<close>

definition dead :: "kernel \<Rightarrow> tid \<Rightarrow> kernel" where
  "dead s t = upd_task s t (\<lambda>k. k\<lparr>task_state := K_DELETED\<rparr>)"

lemma dead_rest:
  assumes d: "dying t [] s" and lv: "live (tcb s t)" and k: "kinv s'"
    and tc: "tcb s' = (tcb s)(t := k')" and k': "task_state k' = K_DELETED" "prio_ok k'" "b_prio k' \<noteq> RHINO_IDLE_PRI"
    and bl: "\<And>ob. obj_type (blk s' ob) = obj_type (blk s ob)"
      "\<And>ob. blk_list (blk s ob) = [] \<Longrightarrow> blk_list (blk s' ob) = []"
    and fr: "mutexes s' = mutexes s" "queues s' = queues s" "buf_queues s' = buf_queues s" "g_kobj_list s' = g_kobj_list s"
  shows "settled s'" "minv s'" "idle_inv s'" "data_inv s'" "no_self s'" "waits_for s' \<subseteq> waits_for s" "all_listed s'"
    "distinct (l_task_head (g_kobj_list s'))"
    "set (l_task_head (g_kobj_list s')) - {t} = {u. live (tcb s' u)}"
proof -
  have nb: "\<not> blocked k'" "\<not> live k'" using k' by (simp_all add: blocked_def live_def)
  show "settled s'" using d bl unfolding dying_def settled_def by metis
  show "minv s'" by (rule minv_dying_end [of t s]) (use d nb bl fr in \<open>simp_all add: dying_def tc\<close>)
  show "idle_inv s'" using d k' by (auto simp: dying_def idle_inv_def tc)
  show "data_inv s'" using d data_inv_cong [of s' s] by (simp add: dying_def bl fr)
  show sub: "waits_for s' \<subseteq> waits_for s" using nb by (auto simp: waits_for_def tc bl fr split: if_splits)
  show "no_self s'" using d no_self_subset [OF _ sub] by (simp add: dying_def)
  have tl: "task_list_inv s" using d by (simp add: dying_def)
  show "all_listed s'" using tl nb by (auto simp: all_listed_def task_list_inv_def tc fr split: if_splits)
  show "distinct (l_task_head (g_kobj_list s'))" using tl by (simp add: task_list_inv_def fr)
  show "set (l_task_head (g_kobj_list s')) - {t} = {u. live (tcb s' u)}"
    using tl nb by (auto simp: task_list_inv_def tc fr split: if_splits)
qed

lemma unlist_kwf:
  assumes k: "kinv s" and m: "minv s" "settled s" "idle_inv s" "data_inv s" "no_self s"
    and l: "distinct (l_task_head (g_kobj_list s))" "set (l_task_head (g_kobj_list s)) - {t} = {u. live (tcb s u)}"
  shows "kwf (s\<lparr>g_kobj_list := (g_kobj_list s)\<lparr>l_task_head := remove1 t (l_task_head (g_kobj_list s))\<rparr>\<rparr>)"
    (is "kwf ?s")
proof -
  have "kinv ?s"
    by (rule kinv_same_view [OF _ k]) (use waitable_cong [of ?s _ s] in \<open>simp_all add: same_view_def\<close>)
  moreover have "waits_for ?s = waits_for s" by (rule waits_for_cong) simp_all
  ultimately show ?thesis using m l
    by (simp add: kwf_def minv_def settled_def idle_inv_def data_inv_def no_self_def task_list_inv_def distinct_remove1)
qed

lemma off_lists_kinv:
  assumes k: "kinv s" and ns: "task_state (tcb s t) \<noteq> K_RDY"
    and s': "s' = dead (blk_list_rm (tick_list_rm s t) t) t"
  shows "kinv s'" "tcb s' = (tcb s)(t := (tcb s t)\<lparr>tick_head := False, task_state := K_DELETED\<rparr>)"
    "blk_list (blk s' ob) = remove1 t (blk_list (blk s ob))" "obj_type (blk s' ob) = obj_type (blk s ob)"
proof -
  show tc: "tcb s' = (tcb s)(t := (tcb s t)\<lparr>tick_head := False, task_state := K_DELETED\<rparr>)" (is "_ = (tcb s)(t := ?k)")
    by (simp add: s' dead_def tick_list_rm_tcb fun_eq_iff)
  have bl: "blk_list (blk s' ob) = remove1 t (blk_list (blk s ob))" "obj_type (blk s' ob) = obj_type (blk s ob)"
    "blk_policy (blk s' ob) = blk_policy (blk s ob)" for ob
    by (simp_all add: s' dead_def)
  show "blk_list (blk s' ob) = remove1 t (blk_list (blk s ob))" "obj_type (blk s' ob) = obj_type (blk s ob)"
    by (fact bl)+
  show "kinv s'"
  proof (rule detach_kinv [OF k ns tc])
    show "prio_ok ?k" using kinv_prio_ok [OF k, of t] by (simp add: prio_ok_def)
    show "g_tick_list s' = remove1 t (g_tick_list s)" by (simp add: s' dead_def tick_list_rm_list [OF k])
    show "waitable s' ob" if "waitable s ob" for ob
      using that waitable_cong [of s' ob s] bl by (simp add: s' dead_def)
  qed (use bl in \<open>simp_all add: s' dead_def\<close>)
qed

lemma not_on_lists:
  assumes k: "kinv s"
  shows "\<not> blocked (tcb s t) \<Longrightarrow> blk_list_rm (tick_list_rm s t) t = tick_list_rm s t"
    "\<not> blocked (tcb s t) \<Longrightarrow> \<not> sleeping (tcb s t) \<Longrightarrow> tick_list_rm s t = s"
proof -
  assume nb: "\<not> blocked (tcb s t)"
  have "(blk s ob)\<lparr>blk_list := remove1 t (blk_list (blk s ob))\<rparr> = blk s ob" for ob
    using not_blocked_remove1 [OF k nb] by simp
  then show "blk_list_rm (tick_list_rm s t) t = tick_list_rm s t" by (simp add: blk_list_rm_def)
  assume "\<not> sleeping (tcb s t)"
  then have "\<not> tick_head (tcb s t)" using k nb by (auto simp: kinv_def tick_inv_def)
  then show "tick_list_rm s t = s" by (simp add: tick_list_rm_def)
qed

text \<open>A dying task that was not ready.\<close>

lemma del_waiting_kwf:
  assumes d: "dying t [] s" and lv: "live (tcb s t)" and ns: "task_state (tcb s t) \<noteq> K_RDY"
  defines "s2 \<equiv> dead (blk_list_rm (tick_list_rm s t) t) t"
  defines "s3 \<equiv> (if blocked (tcb s t) then mutex_task_pri_reset s2 t else s2)"
  shows "kwf (s3\<lparr>g_kobj_list := (g_kobj_list s3)\<lparr>l_task_head := remove1 t (l_task_head (g_kobj_list s3))\<rparr>\<rparr>)"
    "traps_ok s s3" "reprio s2 s3"
proof -
  have k: "kinv s" using d by (simp add: dying_def)
  note o = off_lists_kinv [OF k ns, of s2] 
  have k2: "kinv s2" and tc: "tcb s2 = (tcb s)(t := (tcb s t)\<lparr>tick_head := False, task_state := K_DELETED\<rparr>)"
    and bl: "blk_list (blk s2 ob) = remove1 t (blk_list (blk s ob))" "obj_type (blk s2 ob) = obj_type (blk s ob)" for ob
    using o by (simp_all add: s2_def)
  have fr: "mutexes s2 = mutexes s" "queues s2 = queues s" "buf_queues s2 = buf_queues s" "g_kobj_list s2 = g_kobj_list s"
    "traps s2 = traps s"
    by (simp_all add: s2_def dead_def)
  have bp: "b_prio (tcb s t) \<noteq> RHINO_IDLE_PRI" using d ns by (auto simp: dying_def idle_inv_def)
  have pk: "prio_ok ((tcb s t)\<lparr>tick_head := False, task_state := K_DELETED\<rparr>)"
    using kinv_prio_ok [OF k, of t] by (simp add: prio_ok_def)
  have r2: "settled s2" "minv s2" "idle_inv s2" "data_inv s2" "no_self s2" "waits_for s2 \<subseteq> waits_for s" "all_listed s2"
    "distinct (l_task_head (g_kobj_list s2))" "set (l_task_head (g_kobj_list s2)) - {t} = {u. live (tcb s2 u)}"
    using dead_rest [OF d lv k2 tc] pk bp bl fr by simp_all
  have r3: "kinv s3 \<and> minv s3 \<and> reprio s2 s3 \<and> traps_ok s2 s3"
  proof (cases "blocked (tcb s t)")
    case True
    then obtain ob where ob: "blk_obj (tcb s t) = Some ob" using kinv_blocked_obj [OF k] by auto
    have o2: "blk_obj (tcb s2 t) = Some ob" using ob by (simp add: tc)
    have own: "mutex_task (mutexes s2 ob) \<noteq> None" if "obj_type (blk s2 ob) = RHINO_MUTEX_OBJ_TYPE"
      using kinv_blocked_waitable [OF k True ob] waitable_mutex [of s ob] that by (simp add: bl fr)
    from mutex_task_pri_reset_kinv [OF k2 r2(2) o2 own] True show ?thesis by (simp add: s3_def)
  next
    case False
    then show ?thesis using k2 r2(2) by (simp add: s3_def)
  qed
  then show rp: "reprio s2 s3" and "traps_ok s s3"
    using traps_ok_step [of s2 s3 s] r2(7) acyclic_subset [OF _ r2(6)] by (simp_all add: fr)
  show "kwf (s3\<lparr>g_kobj_list := (g_kobj_list s3)\<lparr>l_task_head := remove1 t (l_task_head (g_kobj_list s3))\<rparr>\<rparr>)"
  proof (rule unlist_kwf)
    show "kinv s3" "minv s3" using r3 by simp_all
    show "settled s3" "idle_inv s3" "data_inv s3" using rest_reprio [OF k2 _ rp] r3 r2 by simp_all
    show "no_self s3" using r2(5) waits_for_reprio [OF rp] by (simp add: no_self_def)
    show "distinct (l_task_head (g_kobj_list s3))" using r2(8) by (simp add: reprio_frame [OF rp])
    show "set (l_task_head (g_kobj_list s3)) - {t} = {u. live (tcb s3 u)}"
      using r2(9) by (simp add: reprio_frame [OF rp] live_def)
  qed
qed

text \<open>A dying task that was ready.\<close>

lemma del_ready_kwf:
  assumes d: "dying t [] s" and r: "task_state (tcb s t) = K_RDY" and p: "prio (tcb s t) \<noteq> RHINO_IDLE_PRI"
  defines "s2 \<equiv> dead (rq_rm s t) t"
  shows "kwf (s2\<lparr>g_kobj_list := (g_kobj_list s2)\<lparr>l_task_head := remove1 t (l_task_head (g_kobj_list s2))\<rparr>\<rparr>)"
    "traps s2 = traps s"
proof -
  have k: "kinv s" using d by (simp add: dying_def)
  have tc: "tcb s2 = (tcb s)(t := (tcb s t)\<lparr>task_state := K_DELETED\<rparr>)" by (simp add: s2_def dead_def)
  have fr: "blk s2 = blk s" "g_tick_count s2 = g_tick_count s" "mutexes s2 = mutexes s" "sems s2 = sems s"
    "queues s2 = queues s" "buf_queues s2 = buf_queues s" "g_kobj_list s2 = g_kobj_list s" "g_tick_list s2 = g_tick_list s"
    "g_ready_queue s2 = g_ready_queue (rq_rm s t)"
    by (simp_all add: s2_def dead_def)
  have pk: "prio_ok ((tcb s t)\<lparr>task_state := K_DELETED\<rparr>)" and bp: "b_prio (tcb s t) \<noteq> RHINO_IDLE_PRI"
    using kinv_prio_ok [OF k, of t] p by (simp_all add: prio_ok_def)
  have k2: "kinv s2"
    by (rule retire_kinv [OF k r p tc])
      (use fr pk ready_not_waiting [OF k r] waitable_cong [of s2 _ s] in simp_all)
  show "traps s2 = traps s" using rq_rm_holds [OF k r p] by (simp add: s2_def dead_def)
  have lv: "live (tcb s t)" using r by (simp add: live_def)
  show "kwf (s2\<lparr>g_kobj_list := (g_kobj_list s2)\<lparr>l_task_head := remove1 t (l_task_head (g_kobj_list s2))\<rparr>\<rparr>)"
    by (rule unlist_kwf) (use k2 dead_rest [OF d lv k2 tc] pk bp fr in simp_all)
qed

text \<open>The task off every list and dead, but still on the list of all tasks: what a deletion does to a live task,
  whatever its state. \<open>unlist\<close> is the rest of it.\<close>

definition task_dead :: "kernel \<Rightarrow> tid \<Rightarrow> kernel" where
  "task_dead s t =
     (let s1 = task_mutex_free s t; s2 = dead (blk_list_rm (tick_list_rm s1 t) t) t
      in if task_state (tcb s t) = K_RDY then dead (rq_rm s1 t) t
         else if blocked (tcb s t) then mutex_task_pri_reset s2 t else s2)"

definition unlist :: "tid \<Rightarrow> kernel \<Rightarrow> kernel" where
  "unlist t s = s\<lparr>g_kobj_list := (g_kobj_list s)\<lparr>l_task_head := remove1 t (l_task_head (g_kobj_list s))\<rparr>\<rparr>"

lemma mutex_free_dying:
  assumes w: "kwf s" and lt: "live (tcb s t)"
  shows "dying t [] (task_mutex_free s t)" "tcb (task_mutex_free s t) t = tcb s t"
    "\<And>u. runnable (tcb s u) \<Longrightarrow> tcb (task_mutex_free s t) u = tcb s u"
    "traps (task_mutex_free s t) = traps s" "g_active_task (task_mutex_free s t) = g_active_task s"
    "g_sched_lock (task_mutex_free s t) = g_sched_lock s"
    "g_intrpt_nested_level (task_mutex_free s t) = g_intrpt_nested_level s"
    "acyclic (waits_for s) \<Longrightarrow> acyclic (waits_for (task_mutex_free s t))"
proof -
  have "dying t (mutex_list (tcb s t)) s"
    using w minv_dying_start [OF _ lt] by (auto simp: dying_def kwf_def)
  moreover have "distinct (mutex_list (tcb s t))" using w lt by (simp add: kwf_def minv_def)
  ultimately show "dying t [] (task_mutex_free s t)" "tcb (task_mutex_free s t) t = tcb s t"
    "\<And>u. runnable (tcb s u) \<Longrightarrow> tcb (task_mutex_free s t) u = tcb s u"
    "traps (task_mutex_free s t) = traps s" "g_active_task (task_mutex_free s t) = g_active_task s"
    "g_sched_lock (task_mutex_free s t) = g_sched_lock s"
    "g_intrpt_nested_level (task_mutex_free s t) = g_intrpt_nested_level s"
    "acyclic (waits_for s) \<Longrightarrow> acyclic (waits_for (task_mutex_free s t))"
    using task_mutex_free_dying [of t "mutex_list (tcb s t)" s "task_mutex_free s t"] by (simp_all add: task_mutex_free_def)
qed

lemma task_dead_good:
  assumes w: "kwf s" "act_inv s" and lt: "live (tcb s t)" and p: "prio (tcb s t) \<noteq> RHINO_IDLE_PRI"
    and g: "g_intrpt_nested_level s = 0" "t = g_active_task s \<Longrightarrow> g_sched_lock s = 0"
  shows "good s (core_sched (unlist t (task_dead s t)))"
proof -
  define s1 where "s1 = task_mutex_free s t"
  define s2 where "s2 = dead (blk_list_rm (tick_list_rm s1 t) t) t"
  define s3 where "s3 = (if blocked (tcb s t) then mutex_task_pri_reset s2 t else s2)"
  note f = mutex_free_dying [OF w(1) lt, folded s1_def]
  have k1: "kinv s1" and al: "all_listed s1" using f(1) by (simp_all add: dying_def task_list_all_listed)
  have fin: "good s (core_sched (unlist t sx))"
    if k: "kwf (unlist t sx)" and tr: "traps_ok s1 sx" and a: "g_active_task sx = g_active_task s" "g_sched_lock sx = g_sched_lock s"
      "g_intrpt_nested_level sx = g_intrpt_nested_level s"
      and st: "\<And>u. u \<noteq> t \<Longrightarrow> task_state (tcb sx u) = task_state (tcb s1 u)" for sx
  proof (rule good_resched [OF k])
    show "traps_ok s (unlist t sx)" using traps_ok_step [OF tr f(4) al f(8)] by (simp add: traps_ok_def unlist_def)
    show "act_inv (unlist t sx) \<or> g_sched_lock (unlist t sx) = 0 \<and> g_intrpt_nested_level (unlist t sx) = 0"
    proof (cases "t = g_active_task s")
      case True
      then show ?thesis using a g by (simp add: unlist_def)
    next
      case False
      have "task_state (tcb sx (g_active_task s)) = task_state (tcb s (g_active_task s))"
        using st [of "g_active_task s"] False f(3) [of "g_active_task s"] w(2) by (simp add: act_inv_def)
      then show ?thesis using w(2) a by (simp add: unlist_def act_inv_def runnable_def)
    qed
  qed
  have wait: "good s (core_sched (unlist t s3))" if ns: "task_state (tcb s t) \<noteq> K_RDY"
  proof -
    have l1: "live (tcb s1 t)" "task_state (tcb s1 t) \<noteq> K_RDY" using lt ns f(2) by simp_all
    note d = del_waiting_kwf [OF f(1) l1, folded s2_def, unfolded f(2), folded s3_def]
    have "tcb s2 = (tcb s1)(t := (tcb s1 t)\<lparr>tick_head := False, task_state := K_DELETED\<rparr>)"
      using off_lists_kinv(2) [OF k1 l1(2)] by (simp add: s2_def)
    moreover have "g_active_task s2 = g_active_task s1" "g_sched_lock s2 = g_sched_lock s1"
      "g_intrpt_nested_level s2 = g_intrpt_nested_level s1" by (simp_all add: s2_def dead_def)
    ultimately show ?thesis
      using d(1,2) f(5-7) g by (intro fin) (simp_all add: unlist_def reprio_frame [OF d(3)])
  qed
  have ready: "good s (core_sched (unlist t (dead (rq_rm s1 t) t)))" if r: "task_state (tcb s t) = K_RDY"
  proof -
    have "task_state (tcb s1 t) = K_RDY" "prio (tcb s1 t) \<noteq> RHINO_IDLE_PRI" using r p f(2) by simp_all
    from del_ready_kwf [OF f(1) this] show ?thesis
      using f(5-7) g by (intro fin) (simp_all add: unlist_def, simp_all add: dead_def)
  qed
  have "task_dead s t = (if task_state (tcb s t) = K_RDY then dead (rq_rm s1 t) t else s3)"
    by (simp add: task_dead_def Let_def s1_def s2_def s3_def)
  then show ?thesis using wait ready by simp
qed

text \<open>The case distinction of the code comes to this for a live task.\<close>

lemma task_dead_cases:
  assumes w: "kwf s" and lt: "live (tcb s t)"
  shows "(case task_state (tcb (task_mutex_free s t) t) of
      K_RDY \<Rightarrow> F (dead (rq_rm (task_mutex_free s t) t) t)
    | K_SUSPENDED \<Rightarrow> F (dead (task_mutex_free s t) t)
    | K_SLEEP \<Rightarrow> F (dead (tick_list_rm (task_mutex_free s t) t) t)
    | K_SLEEP_SUSPENDED \<Rightarrow> F (dead (tick_list_rm (task_mutex_free s t) t) t)
    | K_PEND \<Rightarrow> F (mutex_task_pri_reset (dead (blk_list_rm (tick_list_rm (task_mutex_free s t) t) t) t) t)
    | K_PEND_SUSPENDED \<Rightarrow> F (mutex_task_pri_reset (dead (blk_list_rm (tick_list_rm (task_mutex_free s t) t) t) t) t)
    | _ \<Rightarrow> X) = F (task_dead s t)"
proof -
  define s1 where "s1 = task_mutex_free s t"
  note f = mutex_free_dying(1,2) [OF w lt, folded s1_def]
  have k1: "kinv s1" using f(1) by (simp add: dying_def)
  have q: "blk_list_rm (tick_list_rm s1 t) t = tick_list_rm s1 t" if "\<not> blocked (tcb s t)"
    using not_on_lists(1) [OF k1, of t] that f(2) by simp
  have q': "tick_list_rm s1 t = s1" if "\<not> blocked (tcb s t)" "\<not> sleeping (tcb s t)"
    using not_on_lists(2) [OF k1, of t] that f(2) by simp
  show ?thesis
    using lt f(2) q q' unfolding s1_def [symmetric]
    by (cases "task_state (tcb s t)")
      (simp_all add: task_dead_def Let_def s1_def [symmetric] live_def blocked_def sleeping_def)
qed

lemma krhino_task_del_good:
  assumes w: "kwf s" "act_inv s" and lv: "\<And>t. task = Some t \<Longrightarrow> live (tcb s t)"
  shows "good s (snd (krhino_task_del s task))"
proof -
  define t where "t = (case task of None \<Rightarrow> g_active_task s | Some t \<Rightarrow> t)"
  have lt: "live (tcb s t)" using w(2) lv runnable_live by (auto simp: t_def act_inv_def split: option.splits)
  have e: "snd (krhino_task_del s task) =
      (if g_intrpt_nested_level s > 0 \<or> prio (tcb s t) = RHINO_IDLE_PRI \<or> task_mm_flag (tcb s t) \<noteq> K_OBJ_STATIC_ALLOC \<or>
          t = g_active_task s \<and> g_sched_lock s > 0 then s
       else core_sched (unlist t (task_dead s t)))"
    using task_dead_cases [OF w(1) lt, where F = "\<lambda>s'. core_sched (unlist t s')" and X = "task_mutex_free s t"]
    by (auto simp: krhino_task_del_def Let_def t_def [symmetric] unlist_def dead_def split: task_stat_t.splits)
  show ?thesis unfolding e using good_refl [OF w] task_dead_good [OF w lt] by (auto simp: word_gt_0)
qed

section \<open>Attributes of a task\<close>

text \<open>Changes of fields that no invariant reads.\<close>

lemma attribute_good:
  assumes w: "kwf s" "act_inv s"
    and f: "task_view (f (tcb s t)) = task_view (tcb s t)" "mutex_list (f (tcb s t)) = mutex_list (tcb s t)"
  shows "good s (upd_task s t f)"
proof (rule upd_task_good(2) [OF w(2)])
  have m: "mutex_list (tcb (upd_task s t f) u) = mutex_list (tcb s u)" for u using f by simp
  show "kwf (upd_task s t f)"
    by (rule kwf_same_view [OF w(1)])
      (use f m waitable_cong [of "upd_task s t f" _ s] in \<open>simp_all add: same_view_def\<close>)
  show "t \<noteq> g_active_task s \<or> task_state (f (tcb s t)) = task_state (tcb s t)"
    using f(1) by (simp add: task_view_def)
qed

lemma krhino_task_attributes_good:
  assumes w: "kwf s" "act_inv s"
  shows "good s (snd (krhino_task_time_slice_set s task n))" "good s (snd (krhino_sched_policy_set s task policy))"
    "good s (snd (krhino_task_info_set s task idx info))"
  using good_refl [OF w]
  by (auto simp: krhino_task_time_slice_set_def krhino_sched_policy_set_def krhino_task_info_set_def Let_def task_view_def
      split: option.splits intro!: attribute_good [OF w])

section \<open>What the handing over of mutexes leaves undone\<close>

text \<open>The nesting count of a mutex that changes hands is the one of the owner that died.\<close>

lemma free_one_mutex_nested: "owner_nested (mutexes (free_one_mutex s m) x) = owner_nested (mutexes s x)"
proof -
  have "mutexes (pend_task_wakeup s t) = mutexes s" for t
    by (cases "task_state (tcb s t)") (simp_all add: pend_task_wakeup_def Let_def)
  then show ?thesis by (simp add: free_one_mutex_def Let_def split: list.splits)
qed

lemma task_mutex_free_nested: "owner_nested (mutexes (task_mutex_free s t) x) = owner_nested (mutexes s x)"
proof -
  have "owner_nested (mutexes (foldl free_one_mutex s ms) x) = owner_nested (mutexes s x)" for ms
    by (induction ms arbitrary: s) (simp_all add: free_one_mutex_nested)
  then show ?thesis by (simp add: task_mutex_free_def)
qed

end
