(* ===== verification/K_Time.thy ===== *)
theory K_Time
  imports Task_Inv
begin

text \<open>
  The tick: \<open>tick_list_update\<close> of \<open>k_tick.c\<close> wakes the tasks whose timeout has come, and
  \<open>k_time.c\<close> (\<open>krhino_tick_proc\<close>, the clock and the conversions). The difference of two tick
  counts is read as a signed 64-bit number, as in the source.
\<close>

section \<open>The tick\<close>

definition tick_expire :: "kernel \<Rightarrow> tid \<Rightarrow> kernel" where
  "tick_expire s t =
     (case task_state (tcb s t) of
        K_SLEEP \<Rightarrow>
          rq_add (tick_list_rm (upd_task s t (\<lambda>k. k\<lparr>blk_state := BLK_FINISH, task_state := K_RDY\<rparr>)) t) t
      | K_PEND \<Rightarrow>
          let s1 = rq_add (blk_list_rm (tick_list_rm s t) t) t;
              s2 = upd_task s1 t (\<lambda>k. k\<lparr>blk_state := BLK_TIMEOUT, task_state := K_RDY\<rparr>)
          in upd_task (mutex_task_pri_reset s2 t) t (\<lambda>k. k\<lparr>blk_obj := None\<rparr>)
      | K_PEND_SUSPENDED \<Rightarrow>
          let s1 = blk_list_rm (tick_list_rm s t) t;
              s2 = upd_task s1 t (\<lambda>k. k\<lparr>blk_state := BLK_TIMEOUT, task_state := K_SUSPENDED\<rparr>)
          in upd_task (mutex_task_pri_reset s2 t) t (\<lambda>k. k\<lparr>blk_obj := None\<rparr>)
      | K_SLEEP_SUSPENDED \<Rightarrow>
          tick_list_rm (upd_task s t (\<lambda>k. k\<lparr>task_state := K_SUSPENDED, blk_state := BLK_FINISH\<rparr>)) t
      | _ \<Rightarrow> k_err_proc s RHINO_SYS_FATAL_ERR)"

text \<open>The walk over the list: the successor is read before the task leaves the list, and the walk
  stops at the first task that still has time.\<close>

definition tick_due :: "kernel \<Rightarrow> tid \<Rightarrow> bool" where
  "tick_due s t \<longleftrightarrow> sint (tick_match (tcb s t) - g_tick_count s) \<le> 0"

fun tick_loop :: "kernel \<Rightarrow> tid list \<Rightarrow> kernel" where
  "tick_loop s [] = s"
| "tick_loop s (t # ts) = (if tick_due s t then tick_loop (tick_expire s t) ts else s)"

definition tick_list_update :: "kernel \<Rightarrow> u64 \<Rightarrow> kernel" where
  "tick_list_update s ticks =
     (let s1 = s\<lparr>g_tick_count := g_tick_count s + ticks\<rparr> in tick_loop s1 (g_tick_list s1))"

definition krhino_tick_proc :: "kernel \<Rightarrow> kernel" where
  "krhino_tick_proc s = time_slice_update (tick_list_update s 1)"

section \<open>Reading the clock\<close>

definition krhino_sys_tick_get :: "kernel \<Rightarrow> u64" where
  "krhino_sys_tick_get s = g_tick_count s"

definition krhino_sys_time_get :: "kernel \<Rightarrow> u64" where
  "krhino_sys_time_get s = krhino_sys_tick_get s * 1000 div of_nat RHINO_CONFIG_TICKS_PER_SECOND"

definition krhino_ms_to_ticks :: "u64 \<Rightarrow> u64" where
  "krhino_ms_to_ticks ms =
     (let p = 1000 div RHINO_CONFIG_TICKS_PER_SECOND;
          padding = (if p > 0 then p - 1 else 0)
      in ((ms + of_nat padding) * of_nat RHINO_CONFIG_TICKS_PER_SECOND) div 1000)"

definition krhino_ticks_to_ms :: "u64 \<Rightarrow> u64" where
  "krhino_ticks_to_ms ticks =
     (let p = RHINO_CONFIG_TICKS_PER_SECOND div 1000;
          padding = (if p > 0 then p - 1 else 0)
      in ((ticks + of_nat padding) * 1000) div of_nat RHINO_CONFIG_TICKS_PER_SECOND)"

definition krhino_next_sleep_ticks_get :: "kernel \<Rightarrow> u64" where
  "krhino_next_sleep_ticks_get s =
     (case g_tick_list s of [] \<Rightarrow> RHINO_WAIT_FOREVER | t # _ \<Rightarrow> tick_match (tcb s t) - g_tick_count s)"

section \<open>The count does not matter to what a timeout does\<close>

definition at_count :: "u64 \<Rightarrow> kernel \<Rightarrow> kernel" where
  "at_count c s = s\<lparr>g_tick_count := c\<rparr>"

named_theorems at_count_simps \<open>operations commute with a change of the tick count\<close>

lemma at_count_frame [simp]:
  "tcb (at_count c s) = tcb s" "blk (at_count c s) = blk s" "g_ready_queue (at_count c s) = g_ready_queue s"
  "g_tick_list (at_count c s) = g_tick_list s" "mutexes (at_count c s) = mutexes s"
  "g_active_task (at_count c s) = g_active_task s" "g_kobj_list (at_count c s) = g_kobj_list s"
  "traps (at_count c s) = traps s" "g_tick_count (at_count c s) = c" "sems (at_count c s) = sems s"
  "queues (at_count c s) = queues s" "buf_queues (at_count c s) = buf_queues s"
  "g_sched_lock (at_count c s) = g_sched_lock s" "g_intrpt_nested_level (at_count c s) = g_intrpt_nested_level s"
  by (simp_all add: at_count_def)

lemma at_count_prims [at_count_simps]:
  "upd_task (at_count c s) t f = at_count c (upd_task s t f)"
  "upd_blk (at_count c s) ob g = at_count c (upd_blk s ob g)"
  "rq_add (at_count c s) t = at_count c (rq_add s t)" "rq_add_head (at_count c s) t = at_count c (rq_add_head s t)"
  "rq_rm (at_count c s) t = at_count c (rq_rm s t)" "add_trap (at_count c s) e = at_count c (add_trap s e)"
  "k_err_proc (at_count c s) err = at_count c (k_err_proc s err)"
  "blk_list_rm (at_count c s) t = at_count c (blk_list_rm s t)"
  by (simp_all add: at_count_def upd_task_def upd_blk_def rq_add_def rq_add_head_def rq_rm_def add_trap_def
      k_err_proc_def blk_list_rm_def split_def Let_def)

lemma at_count_lists [at_count_simps]:
  "tick_list_rm (at_count c s) t = at_count c (tick_list_rm s t)"
  "pend_list_add (at_count c s) ob t = at_count c (pend_list_add s ob t)"
  "pend_list_reorder (at_count c s) t = at_count c (pend_list_reorder s t)"
  by (simp_all add: tick_list_rm_def pend_list_add_def pend_list_reorder_def at_count_def upd_task_def upd_blk_def
      add_trap_def blk_list_rm_def split: option.split)

lemma at_count_scan: "first_waiter_pri (at_count c s) m p = first_waiter_pri s m p"
  by (simp add: first_waiter_pri_def split: list.split)

lemma at_count_look_scan: "look_scan (at_count c s) rel ms np p = look_scan s rel ms np p"
  by (induction ms arbitrary: np p) (simp_all add: at_count_scan Let_def split_def)

lemma at_count_look [at_count_simps]:
  "mutex_pri_look (at_count c s) t rel =
     (fst (mutex_pri_look s t rel), at_count c (snd (mutex_pri_look s t rel)))"
  by (simp add: mutex_pri_look_def at_count_look_scan at_count_simps Let_def split_def)

lemma at_count_pri_change_loop:
  "task_pri_change_loop n (at_count c s) t np =
     (fst (task_pri_change_loop n s t np), at_count c (snd (task_pri_change_loop n s t np)))"
proof (induction n arbitrary: s t np)
  case 0
  then show ?case by (simp add: at_count_simps)
next
  case (Suc n)
  show ?case
    by (cases "task_state (tcb s t)")
      (simp_all add: Let_def at_count_simps Suc.IH split_def split: option.split)
qed

lemma at_count_reset [at_count_simps]:
  "mutex_task_pri_reset (at_count c s) t = at_count c (mutex_task_pri_reset s t)"
  by (simp add: mutex_task_pri_reset_def mutex_release_def task_pri_change_def at_count_simps
      at_count_pri_change_loop Let_def split_def split: option.split)

lemma at_count_expire: "tick_expire (at_count c s) t = at_count c (tick_expire s t)"
  by (simp add: tick_expire_def at_count_simps Let_def split: task_stat_t.split)

section \<open>One timeout\<close>

text \<open>Up to the priority, which the timeout of another waiter may lower.\<close>

definition same_but_prio :: "kernel \<Rightarrow> kernel \<Rightarrow> tid \<Rightarrow> bool" where
  "same_but_prio s s' u \<longleftrightarrow> tcb s' u = (tcb s u)\<lparr>prio := prio (tcb s' u)\<rparr>"

text \<open>The wait is over: the task is off the tick list, and ready unless it is also suspended.\<close>

definition released :: "kernel \<Rightarrow> tid \<Rightarrow> kernel \<Rightarrow> bool" where
  "released s u s' \<longleftrightarrow> \<not> tick_head (tcb s' u) \<and>
     task_state (tcb s' u) = (if task_state (tcb s u) = K_PEND \<or> task_state (tcb s u) = K_SLEEP then K_RDY else K_SUSPENDED) \<and>
     blk_state (tcb s' u) = (if blocked (tcb s u) then BLK_TIMEOUT else BLK_FINISH)"

lemma same_but_prio_refl [simp]: "same_but_prio s s u"
  by (simp add: same_but_prio_def)

lemma same_but_prio_fields:
  assumes "same_but_prio s s' u"
  shows "task_state (tcb s' u) = task_state (tcb s u)" "tick_head (tcb s' u) = tick_head (tcb s u)"
    "blk_state (tcb s' u) = blk_state (tcb s u)" "tick_match (tcb s' u) = tick_match (tcb s u)"
    "blk_obj (tcb s' u) = blk_obj (tcb s u)" "blocked (tcb s' u) = blocked (tcb s u)"
proof -
  have e: "tcb s' u = (tcb s u)\<lparr>prio := prio (tcb s' u)\<rparr>" using assms by (simp add: same_but_prio_def)
  show "task_state (tcb s' u) = task_state (tcb s u)" "tick_head (tcb s' u) = tick_head (tcb s u)"
    "blk_state (tcb s' u) = blk_state (tcb s u)" "tick_match (tcb s' u) = tick_match (tcb s u)"
    "blk_obj (tcb s' u) = blk_obj (tcb s u)" "blocked (tcb s' u) = blocked (tcb s u)"
    by (subst e, simp add: blocked_def)+
qed

lemma same_but_prio_trans:
  assumes "same_but_prio s s1 u" "same_but_prio s1 s2 u"
  shows "same_but_prio s s2 u"
proof -
  have "tcb s2 u = (tcb s1 u)\<lparr>prio := prio (tcb s2 u)\<rparr>" using assms(2) by (simp add: same_but_prio_def)
  also have "tcb s1 u = (tcb s u)\<lparr>prio := prio (tcb s1 u)\<rparr>" using assms(1) by (simp add: same_but_prio_def)
  finally show ?thesis by (simp add: same_but_prio_def)
qed

definition expiry_state :: "ktask \<Rightarrow> task_stat_t" where
  "expiry_state k = (if task_state k = K_PEND \<or> task_state k = K_SLEEP then K_RDY else K_SUSPENDED)"

lemma tick_expire_sleeper:
  assumes k: "kinv s" and st: "sleeping (tcb s t)"
  shows "tick_expire s t = unwait (expiry_state (tcb s t)) BLK_FINISH s t"
proof -
  have nb: "\<not> blocked (tcb s t)" using st by (auto simp: sleeping_def blocked_def)
  show ?thesis using st
    by (auto simp: unwait_sleeper [OF k nb] expiry_state_def sleeping_def tick_expire_def tick_list_rm_def upd_task_def
        rq_add_def fun_eq_iff)
qed

lemma state_order:
  "(\<lambda>k :: ktask. k\<lparr>blk_state := a, task_state := b\<rparr>) = (\<lambda>k. k\<lparr>task_state := b, blk_state := a\<rparr>)"
  by (simp add: fun_eq_iff)

lemma tick_expire_waiter:
  assumes "blocked (tcb s t)"
  shows "tick_expire s t = upd_task (mutex_task_pri_reset (unwait (expiry_state (tcb s t)) BLK_TIMEOUT s t) t) t
     (\<lambda>k. k\<lparr>blk_obj := None\<rparr>)"
  using assms
  by (auto simp: blocked_def tick_expire_def unwait_def expiry_state_def Let_def state_order)

definition expire_step :: "kernel \<Rightarrow> tid \<Rightarrow> kernel \<Rightarrow> bool" where
  "expire_step s t s' \<longleftrightarrow> kwf s' \<and> traps_ok s s' \<and> waits_for s' \<subseteq> waits_for s \<and>
     g_tick_list s' = remove1 t (g_tick_list s) \<and> g_tick_count s' = g_tick_count s \<and>
     g_active_task s' = g_active_task s \<and> g_sched_lock s' = g_sched_lock s \<and>
     g_intrpt_nested_level s' = g_intrpt_nested_level s \<and> released s t s' \<and>
     (\<forall>u. u \<noteq> t \<longrightarrow> same_but_prio s s' u)"

lemma tick_expire_step:
  assumes w: "kwf s" and h: "tick_head (tcb s t)"
  shows "expire_step s t (tick_expire s t)"
proof -
  have k: "kinv s" using w by (simp add: kwf_def)
  have e: "expiry_state (tcb s t) = K_RDY \<or> expiry_state (tcb s t) = K_SUSPENDED" by (simp add: expiry_state_def)
  have "blocked (tcb s t) \<or> sleeping (tcb s t)" using k h by (auto simp: kinv_def tick_inv_def)
  then consider "sleeping (tcb s t)" "\<not> blocked (tcb s t)" | "blocked (tcb s t)" by blast
  then show ?thesis
  proof cases
    case 1
    from unwait_kwf [OF w _ e, of t BLK_FINISH] 1 show ?thesis
      unfolding tick_expire_sleeper [OF k 1(1)] expire_step_def
      by (simp add: unwait_frame unwait_tick_list [OF k] unwait_tcb released_def expiry_state_def same_but_prio_def)
  next
    case 2
    let ?s2 = "unwait (expiry_state (tcb s t)) BLK_TIMEOUT s t"
    from unwait_reset_kwf [OF w 2 e refl, of BLK_TIMEOUT]
    have r: "kwf (tick_expire s t)" "traps_ok s (tick_expire s t)" "waits_for (tick_expire s t) \<subseteq> waits_for s"
      and rp: "reprio ?s2 (mutex_task_pri_reset ?s2 t)"
      unfolding tick_expire_waiter [OF 2] by auto
    have "same_but_prio s (tick_expire s t) u" if "u \<noteq> t" for u
    proof -
      have "tcb (mutex_task_pri_reset ?s2 t) u = (tcb ?s2 u)\<lparr>prio := prio (tcb (mutex_task_pri_reset ?s2 t) u)\<rparr>"
        using rp by (simp add: reprio_def)
      moreover have "tcb ?s2 u = tcb s u" using that by (simp add: unwait_tcb)
      moreover have "tcb (tick_expire s t) u = tcb (mutex_task_pri_reset ?s2 t) u"
        using that unfolding tick_expire_waiter [OF 2] by simp
      ultimately show ?thesis unfolding same_but_prio_def by simp
    qed
    moreover have "released s t (tick_expire s t)"
      unfolding tick_expire_waiter [OF 2] released_def
      by (simp add: reprio_frame [OF rp]) (simp add: unwait_tcb expiry_state_def 2)
    ultimately show ?thesis using r unfolding expire_step_def
      by (simp add: tick_expire_waiter [OF 2] reprio_frame [OF rp]) (simp add: unwait_frame unwait_tick_list [OF k])
  qed
qed

section \<open>The walk over the tick list\<close>

definition due :: "kernel \<Rightarrow> tid \<Rightarrow> bool" where
  "due s t \<longleftrightarrow> sint (remaining s t - 1) \<le> 0"

lemma tick_due_at_count: "tick_due (at_count (g_tick_count s + 1) s) t = due s t"
  by (simp add: tick_due_def due_def remaining_def diff_diff_eq)

lemma released_cong:
  "released s1 u s' \<Longrightarrow> same_but_prio s s1 u \<Longrightarrow> released s u s'"
  by (simp add: released_def same_but_prio_fields [of s s1 u])

lemma released_later:
  "released s u s1 \<Longrightarrow> same_but_prio s1 s' u \<Longrightarrow> released s u s'"
  by (simp add: released_def same_but_prio_fields [of s1 s' u])

definition walked :: "kernel \<Rightarrow> kernel \<Rightarrow> bool" where
  "walked s s' \<longleftrightarrow> kwf s' \<and> traps_ok s s' \<and> waits_for s' \<subseteq> waits_for s \<and>
     g_tick_count s' = g_tick_count s \<and> g_active_task s' = g_active_task s \<and>
     g_sched_lock s' = g_sched_lock s \<and> g_intrpt_nested_level s' = g_intrpt_nested_level s \<and>
     (\<forall>u \<in> set (g_tick_list s'). remaining s' u \<noteq> 1) \<and>
     (\<forall>u. \<not> same_but_prio s s' u \<longrightarrow> tick_head (tcb s u) \<and> due s u \<and> released s u s') \<and>
     (\<forall>u. tick_head (tcb s u) \<longrightarrow> remaining s u = 1 \<longrightarrow> released s u s')"

lemma walked_stop:
  assumes w: "kwf s" and l: "g_tick_list s = [] \<or> \<not> due s (hd (g_tick_list s))"
  shows "walked s s"
proof -
  have ti: "tick_inv s" using w by (simp add: kwf_def kinv_def)
  have r: "remaining s u \<noteq> 1" if u: "u \<in> set (g_tick_list s)" for u
  proof
    assume one: "remaining s u = 1"
    let ?t = "hd (g_tick_list s)"
    have ne: "g_tick_list s \<noteq> []" using u by auto
    then have t: "?t \<in> set (g_tick_list s)" by simp
    have "remaining s ?t \<le> 1"
      using sorted_wrt_hd_min [of "remaining s" "g_tick_list s" u] ti u one by (simp add: tick_inv_def)
    moreover have "remaining s ?t \<noteq> 0" using ti t by (auto simp: tick_inv_def)
    ultimately have "unat (remaining s ?t) \<le> 1 \<and> unat (remaining s ?t) \<noteq> 0"
      by (metis unat_1 unat_eq_0 word_le_nat_alt)
    then have "unat (remaining s ?t) = unat (1 :: u64)" by simp
    then have "remaining s ?t = 1" by (simp only: word_unat_eq_iff)
    then show False using l ne by (simp add: due_def)
  qed
  moreover have "u \<in> set (g_tick_list s)" if "tick_head (tcb s u)" for u using ti that by (simp add: tick_inv_def)
  ultimately show ?thesis using w by (auto simp: walked_def)
qed

lemma walked_step:
  assumes a: "expire_step s t s1" and du: "due s t" and h: "tick_head (tcb s t)" and b: "walked s1 s'" and w: "kwf s"
  shows "walked s s'"
proof -
  have sp: "same_but_prio s s1 u" if "u \<noteq> t" for u using a that by (simp add: expire_step_def)
  have ct: "g_tick_count s1 = g_tick_count s" and rl: "released s t s1" and k1: "kwf s1" "traps_ok s s1"
    and sub: "waits_for s1 \<subseteq> waits_for s" using a by (simp_all add: expire_step_def)
  have rm: "remaining s1 u = remaining s u" if "u \<noteq> t" for u
    using same_but_prio_fields(4) [OF sp [OF that]] ct by (simp add: remaining_def)
  have "same_but_prio s1 s' t" using b rl by (auto simp: walked_def released_def)
  then have rt: "released s t s'" using released_later [OF rl] by simp
  have others: "released s u s' \<and> tick_head (tcb s u) \<and> due s u" if "u \<noteq> t" "\<not> same_but_prio s s' u" for u
  proof -
    have "\<not> same_but_prio s1 s' u" using that same_but_prio_trans [OF sp] by blast
    then have "tick_head (tcb s1 u)" "due s1 u" "released s1 u s'" using b by (auto simp: walked_def)
    then show ?thesis using released_cong [OF _ sp [OF that(1)]] rm [OF that(1)]
        same_but_prio_fields(2) [OF sp [OF that(1)]] by (simp add: due_def)
  qed
  have ones: "released s u s'" if "u \<noteq> t" "tick_head (tcb s u)" "remaining s u = 1" for u
  proof -
    have "tick_head (tcb s1 u)" "remaining s1 u = 1"
      using that rm same_but_prio_fields(2) [OF sp [OF that(1)]] by simp_all
    then have "released s1 u s'" using b by (simp add: walked_def)
    then show ?thesis using released_cong [OF _ sp [OF that(1)]] by simp
  qed
  have "all_listed s1" using k1 by (simp add: kwf_def task_list_all_listed)
  then have "traps_ok s s'" using traps_ok_trans [OF k1(2)] b acyclic_subset [OF _ sub] by (simp add: walked_def)
  then show ?thesis using b a rt others ones du h unfolding walked_def expire_step_def by (metis subset_trans)
qed

lemma tick_loop_walked:
  "kwf s \<Longrightarrow> g_tick_list s = ts \<Longrightarrow> c = g_tick_count s + 1 \<Longrightarrow>
   \<exists>s'. tick_loop (at_count c s) ts = at_count c s' \<and> walked s s'"
proof (induction ts arbitrary: s)
  case Nil
  then show ?case using walked_stop [of s] by auto
next
  case (Cons t ts)
  show ?case
  proof (cases "due s t")
    case False
    then have "walked s s" using walked_stop [of s] Cons.prems by simp
    then show ?thesis using False Cons.prems tick_due_at_count [of s t] by auto
  next
    case True
    have h: "tick_head (tcb s t)" using Cons.prems by (auto simp: kwf_def kinv_def tick_inv_def)
    note e = tick_expire_step [OF Cons.prems(1) h]
    have k: "kwf (tick_expire s t)" "g_tick_list (tick_expire s t) = ts" "c = g_tick_count (tick_expire s t) + 1"
      using e Cons.prems by (simp_all add: expire_step_def)
    from Cons.IH [OF k] obtain s' where
      s': "tick_loop (at_count c (tick_expire s t)) ts = at_count c s'" "walked (tick_expire s t) s'" by blast
    have "tick_loop (at_count c s) (t # ts) = at_count c s'"
      using True tick_due_at_count [of s t] Cons.prems(3) s'(1) by (simp add: at_count_expire)
    then show ?thesis using walked_step [OF e True h s'(2) Cons.prems(1)] by blast
  qed
qed

text \<open>Once nobody has exactly one tick left, the clock can advance.\<close>

lemma advance_kwf:
  assumes w: "kwf s" and one: "\<And>u. u \<in> set (g_tick_list s) \<Longrightarrow> remaining s u \<noteq> 1"
  shows "kwf (at_count (g_tick_count s + 1) s)"
proof -
  let ?s = "at_count (g_tick_count s + 1) s"
  have ti: "tick_inv s" using w by (simp add: kwf_def kinv_def)
  have rm: "remaining ?s u = remaining s u - 1" for u by (simp add: remaining_def diff_diff_eq)
  have e: "ready_set ?s = ready_set s" "wait_set ?s = wait_set s"
    by (simp_all add: fun_eq_iff ready_set_def wait_set_def)
  have pos: "2 \<le> unat (remaining s u)" if "u \<in> set (g_tick_list s)" for u
  proof -
    have "remaining s u \<noteq> 0" using ti that by (auto simp: tick_inv_def)
    moreover have "remaining s u \<noteq> 1" by (rule one [OF that])
    ultimately have "unat (remaining s u) \<noteq> 0" "unat (remaining s u) \<noteq> unat (1 :: u64)"
      unfolding word_unat_eq_iff by auto
    then show ?thesis by simp
  qed
  have un: "unat (remaining ?s u) = unat (remaining s u) - 1" if "u \<in> set (g_tick_list s)" for u
  proof -
    have "1 \<le> remaining s u" using pos [OF that] by (simp add: word_le_nat_alt)
    then show ?thesis unfolding rm by (simp add: unat_sub)
  qed
  have "sorted_wrt (\<lambda>t u. remaining ?s t \<le> remaining ?s u) (g_tick_list s)"
  proof (rule sorted_wrt_mono_rel)
    show "sorted_wrt (\<lambda>t u. remaining s t \<le> remaining s u) (g_tick_list s)" using ti by (simp add: tick_inv_def)
    fix t u assume "t \<in> set (g_tick_list s)" "u \<in> set (g_tick_list s)" "remaining s t \<le> remaining s u"
    then show "remaining ?s t \<le> remaining ?s u" by (simp add: word_le_nat_alt un)
  qed
  moreover have "remaining ?s u \<noteq> 0" if "u \<in> set (g_tick_list s)" for u
    using pos [OF that] un [OF that] by (metis One_nat_def Suc_1 Suc_le_lessD less_numeral_extra(3) unat_0 zero_less_diff)
  ultimately have "tick_inv ?s" using ti by (simp add: tick_inv_def)
  moreover have "waitable ?s ob = waitable s ob" for ob by (rule waitable_cong) simp_all
  ultimately have "kinv ?s" using w by (simp add: kwf_def kinv_def prio_inv_def rq_inv_def blk_inv_def obj_inv_def e)
  moreover have "waits_for ?s = waits_for s" by (rule waits_for_cong) simp_all
  ultimately show ?thesis using w
    by (simp add: kwf_def settled_def minv_def task_list_inv_def idle_inv_def data_inv_def no_self_def)
qed

section \<open>The tick keeps the invariant\<close>

lemma time_slice_kwf:
  assumes w: "kwf s"
  shows "kwf (time_slice_update s) \<and> traps (time_slice_update s) = traps s \<and>
     g_active_task (time_slice_update s) = g_active_task s \<and>
     g_intrpt_nested_level (time_slice_update s) = g_intrpt_nested_level s \<and>
     g_sched_lock (time_slice_update s) = g_sched_lock s \<and>
     task_state (tcb (time_slice_update s) u) = task_state (tcb s u)"
proof -
  have slice: "kwf (upd_task s' t (\<lambda>k. k\<lparr>time_slice_left := n k\<rparr>))" if "kwf s'" for s' t n
    by (rule kwf_same_view [OF that])
      (use waitable_cong [of "upd_task s' t (\<lambda>k. k\<lparr>time_slice_left := n k\<rparr>)" _ s']
        in \<open>auto simp: same_view_def task_view_def\<close>)
  show ?thesis
    using w slice [OF w] slice [OF ring_rotate_kwf [OF w]] slice [OF ring_rotate_kwf [OF slice [OF w]]]
    by (simp add: time_slice_update_def Let_def split: list.split)
qed

lemma tick_list_update_walked:
  assumes w: "kwf s"
  shows "\<exists>s'. tick_list_update s 1 = at_count (g_tick_count s + 1) s' \<and> walked s s' \<and> kwf (tick_list_update s 1)"
proof -
  from tick_loop_walked [OF w refl refl] obtain s' where
    s': "tick_loop (at_count (g_tick_count s + 1) s) (g_tick_list s) = at_count (g_tick_count s + 1) s'" "walked s s'"
    by blast
  have "kwf (at_count (g_tick_count s' + 1) s')"
    by (rule advance_kwf) (use s'(2) in \<open>simp_all add: walked_def\<close>)
  then show ?thesis using s' by (auto simp: tick_list_update_def at_count_def [symmetric] walked_def)
qed

lemma walked_runnable:
  assumes w: "kwf s" and k: "walked s s'" and r: "runnable (tcb s u)"
  shows "task_state (tcb s' u) = task_state (tcb s u)"
proof -
  have "\<not> tick_head (tcb s u)"
    using w runnable_live [OF r] by (auto simp: kwf_def kinv_def tick_inv_def)
  then have "same_but_prio s s' u" using k by (auto simp: walked_def)
  then show ?thesis by (rule same_but_prio_fields)
qed

lemma krhino_tick_proc_good:
  assumes w: "kwf s" "act_inv s"
  shows "good s (krhino_tick_proc s)"
proof -
  from tick_list_update_walked [OF w(1)] obtain s' where
    s': "tick_list_update s 1 = at_count (g_tick_count s + 1) s'" "walked s s'" "kwf (tick_list_update s 1)" by blast
  have st: "task_state (tcb s' (g_active_task s)) = task_state (tcb s (g_active_task s))"
    using walked_runnable [OF w(1) s'(2)] w(2) by (simp add: act_inv_def)
  have fr: "g_active_task s' = g_active_task s" "g_intrpt_nested_level s' = g_intrpt_nested_level s" "traps_ok s s'"
    "g_sched_lock s' = g_sched_lock s"
    using s'(2) by (simp_all add: walked_def)
  note t = time_slice_kwf [OF s'(3)]
  have ts: "traps (krhino_tick_proc s) = traps s'" using t s'(1) by (simp add: krhino_tick_proc_def)
  have "act_inv (krhino_tick_proc s)"
    using w(2) t [of "g_active_task s"] s'(1) st fr by (simp add: krhino_tick_proc_def act_inv_def runnable_def)
  moreover have "traps_ok s (krhino_tick_proc s)" using fr(3) unfolding traps_ok_def ts .
  ultimately show ?thesis using t by (simp add: good_def krhino_tick_proc_def)
qed

end
