(* ===== verification/K_Sys.thy ===== *)
theory K_Sys
  imports Task_Inv K_Time
begin

text \<open>
  Interrupts and the start of the kernel, \<open>k_sys.c\<close> (single core; the boot sequence
  \<open>krhino_init\<close> is in theory \<open>K_Boot\<close>, after the components it starts), and the scheduler lock of
  \<open>k_sched.c\<close>: each keeps the invariant.
\<close>

section \<open>Operations\<close>

definition krhino_intrpt_enter :: "kernel \<Rightarrow> kstat \<times> kernel" where
  "krhino_intrpt_enter s =
     (RHINO_SUCCESS, s\<lparr>g_intrpt_nested_level := g_intrpt_nested_level s + 1\<rparr>)"

text \<open>The switch at the end of an interrupt, \<open>cpu_intrpt_switch\<close>, is the one \<open>core_sched\<close> asks
  for: the preferred task becomes the active one.\<close>

definition krhino_intrpt_exit :: "kernel \<Rightarrow> kernel" where
  "krhino_intrpt_exit s =
     (let s1 = s\<lparr>g_intrpt_nested_level := g_intrpt_nested_level s - 1\<rparr>
      in if g_intrpt_nested_level s1 > 0 then s1
         else if g_sched_lock s1 > 0 then s1
         else case preferred_cpu_ready_task_get (g_ready_queue s1) of
                None \<Rightarrow> add_trap s1 NullDeref
              | Some t \<Rightarrow> if t = g_active_task s1 then s1
                          else cpu_task_switch (s1\<lparr>g_preferred_ready_task := t\<rparr>))"

text \<open>The first task starts and \<open>krhino_start\<close> does not return (\<open>None\<close>), unless the kernel
  is running already.\<close>

definition krhino_start :: "kernel \<Rightarrow> kstat option \<times> kernel" where
  "krhino_start s =
     (if g_sys_stat s = RHINO_STOPPED then
        (case preferred_cpu_ready_task_get (g_ready_queue s) of
           None \<Rightarrow> (None, add_trap s NullDeref)
         | Some t \<Rightarrow> (None, s\<lparr>g_preferred_ready_task := t, g_active_task := t, g_sys_stat := RHINO_RUNNING\<rparr>))
      else (Some RHINO_RUNNING, s))"

definition krhino_version_get :: u32 where
  "krhino_version_get = 12000"

section \<open>The invariant is kept\<close>

lemma kwf_processor:
  assumes "kwf s" "tcb s' = tcb s" "blk s' = blk s" "g_ready_queue s' = g_ready_queue s"
    "g_tick_list s' = g_tick_list s" "g_tick_count s' = g_tick_count s" "mutexes s' = mutexes s"
    "sems s' = sems s" "queues s' = queues s" "buf_queues s' = buf_queues s" "g_kobj_list s' = g_kobj_list s"
  shows "kwf s'"
  by (rule kwf_same_view [OF assms(1)])
    (use waitable_cong [of s' _ s] in \<open>simp_all add: same_view_def assms(2-)\<close>)

text \<open>An interrupt may be entered at any depth the counter can hold.\<close>

lemma krhino_intrpt_enter_good:
  assumes w: "kwf s" "act_inv s" and n: "g_intrpt_nested_level s \<noteq> - 1"
  shows "good s (snd (krhino_intrpt_enter s))"
proof -
  have "g_intrpt_nested_level s + 1 \<noteq> 0" using n by (metis add_eq_0_iff minus_equation_iff)
  then show ?thesis using w kwf_processor [OF w(1)]
    by (auto simp: krhino_intrpt_enter_def good_def act_inv_def runnable_def)
qed

lemma intrpt_exit_outermost:
  assumes "g_intrpt_nested_level s = 1"
  shows "krhino_intrpt_exit s = core_sched (s\<lparr>g_intrpt_nested_level := 0\<rparr>)"
  using assms by (simp add: krhino_intrpt_exit_def core_sched_def Let_def split: option.split)

lemma krhino_intrpt_exit_good:
  assumes w: "kwf s" "act_inv s"
  shows "good s (krhino_intrpt_exit s)"
proof (cases "g_intrpt_nested_level s = 1")
  case True
  let ?s = "s\<lparr>g_intrpt_nested_level := 0\<rparr>"
  have "good s (core_sched ?s)"
  proof (rule good_resched)
    show "kwf ?s" by (rule kwf_processor [OF w(1)]) simp_all
    show "act_inv ?s \<or> g_sched_lock ?s = 0 \<and> g_intrpt_nested_level ?s = 0"
      using w(2) by (auto simp: act_inv_def)
  qed simp
  then show ?thesis by (simp add: intrpt_exit_outermost [OF True])
next
  case False
  then have n: "g_intrpt_nested_level s - 1 \<noteq> 0" by simp
  then have e: "krhino_intrpt_exit s = s\<lparr>g_intrpt_nested_level := g_intrpt_nested_level s - 1\<rparr>"
    by (simp add: krhino_intrpt_exit_def Let_def word_gt_0)
  have "kwf (krhino_intrpt_exit s)" unfolding e by (rule kwf_processor [OF w(1)]) simp_all
  then show ?thesis using w(2) n by (auto simp: good_def e act_inv_def)
qed

lemma krhino_sched_disable_good:
  assumes w: "kwf s" "act_inv s"
  shows "good s (snd (krhino_sched_disable s))"
proof -
  let ?s = "s\<lparr>g_sched_lock := g_sched_lock s + 1\<rparr>"
  have "kwf ?s" by (rule kwf_processor [OF w(1)]) simp_all
  then have "good s ?s" if "g_intrpt_nested_level s = 0"
    using w(2) that by (auto simp: good_def act_inv_def)
  then show ?thesis using good_refl [OF w] by (simp add: krhino_sched_disable_def word_gt_0)
qed

lemma krhino_sched_enable_good:
  assumes w: "kwf s" "act_inv s"
  shows "good s (snd (krhino_sched_enable s))"
proof -
  define s1 where "s1 = s\<lparr>g_sched_lock := g_sched_lock s - 1\<rparr>"
  have k: "kwf s1" unfolding s1_def by (rule kwf_processor [OF w(1)]) simp_all
  have "act_inv s1" if "g_intrpt_nested_level s = 0" using w(2) that by (auto simp: act_inv_def s1_def)
  moreover have "traps_ok s s1" by (simp add: s1_def)
  ultimately have "good s s1 \<and> good s (core_sched s1)" if "g_intrpt_nested_level s = 0"
    using k that good_resched [OF k, of s] by (simp add: good_def)
  then show ?thesis using good_refl [OF w]
    unfolding krhino_sched_enable_def s1_def [symmetric] by (simp add: word_gt_0)
qed

text \<open>The start on a kernel in which a task is ready.\<close>

lemma krhino_start_runs:
  assumes w: "kwf s" and st: "g_sys_stat s = RHINO_STOPPED"
  shows "kwf (snd (krhino_start s)) \<and> act_inv (snd (krhino_start s)) \<and>
    traps (snd (krhino_start s)) = traps s \<and> g_sys_stat (snd (krhino_start s)) = RHINO_RUNNING"
proof -
  have h: "rq_holds (g_ready_queue s) (ready_set s)" and i: "ready_set s RHINO_IDLE_PRI \<noteq> {}"
    using w kinv_ready by (auto simp: kwf_def)
  obtain t where t: "preferred_cpu_ready_task_get (g_ready_queue s) = Some t"
    and m: "t \<in> ready_set s (highest_pri (g_ready_queue s))"
    using preferred_is_highest [OF h i] by auto
  let ?s = "s\<lparr>g_preferred_ready_task := t, g_active_task := t, g_sys_stat := RHINO_RUNNING\<rparr>"
  have "kwf ?s" by (rule kwf_processor [OF w]) simp_all
  then show ?thesis using st t m by (simp add: krhino_start_def act_inv_def runnable_def ready_set_def)
qed

end
