(* ===== verification/K_Sem.thy ===== *)
theory K_Sem
  imports K_Wake
begin

text \<open>
  Counting semaphores, \<open>k_sem.c\<close>. A take with nothing to give blocks the caller; the second
  half of the call, run when the caller is switched in again, is \<open>krhino_sem_take_end\<close>.
\<close>

section \<open>Operations\<close>

definition upd_sem :: "kernel \<Rightarrow> oid \<Rightarrow> (ksem_t \<Rightarrow> ksem_t) \<Rightarrow> kernel" where
  "upd_sem s ob f = s\<lparr>sems := (sems s)(ob := f (sems s ob))\<rparr>"

definition sem_create :: "kernel \<Rightarrow> oid option \<Rightarrow> string option \<Rightarrow> u32 \<Rightarrow> u8 \<Rightarrow> kstat \<times> kernel" where
  "sem_create s sem name cnt mm_alloc_flag =
     (case sem of None \<Rightarrow> (RHINO_NULL_PTR, s) | Some ob \<Rightarrow>
      if name = None then (RHINO_NULL_PTR, s)
      else
        let s1 = upd_blk s ob (\<lambda>_. \<lparr>blk_list = [], obj_name = name, blk_policy = BLK_POLICY_PRI,
                   obj_type = RHINO_SEM_OBJ_TYPE, obj_cancel = 1, obj_mm_flag = mm_alloc_flag\<rparr>);
            s2 = upd_sem s1 ob (\<lambda>_. \<lparr>count = cnt, peak_count = cnt\<rparr>)
        in (RHINO_SUCCESS,
            s2\<lparr>g_kobj_list := (g_kobj_list s2)\<lparr>l_sem_head := l_sem_head (g_kobj_list s2) @ [ob]\<rparr>\<rparr>))"

definition krhino_sem_create :: "kernel \<Rightarrow> oid option \<Rightarrow> string option \<Rightarrow> u32 \<Rightarrow> kstat \<times> kernel" where
  "krhino_sem_create s sem name cnt = sem_create s sem name cnt K_OBJ_STATIC_ALLOC"

definition krhino_sem_del :: "kernel \<Rightarrow> oid option \<Rightarrow> kstat \<times> kernel" where
  "krhino_sem_del s sem =
     (case sem of None \<Rightarrow> (RHINO_NULL_PTR, s) | Some ob \<Rightarrow>
      if g_intrpt_nested_level s > 0 then (RHINO_NOT_CALLED_BY_INTRPT, s)
      else if obj_type (blk s ob) \<noteq> RHINO_SEM_OBJ_TYPE then (RHINO_KOBJ_TYPE_ERR, s)
      else if obj_mm_flag (blk s ob) \<noteq> K_OBJ_STATIC_ALLOC then (RHINO_KOBJ_DEL_ERR, s)
      else
        let s1 = upd_blk s ob (\<lambda>b. b\<lparr>obj_type := RHINO_OBJ_TYPE_NONE\<rparr>);
            s2 = wake_all pend_task_rm ob s1;
            s3 = s2\<lparr>g_kobj_list := (g_kobj_list s2)\<lparr>l_sem_head := remove1 ob (l_sem_head (g_kobj_list s2))\<rparr>\<rparr>
        in (RHINO_SUCCESS, core_sched s3))"

definition sem_give :: "kernel \<Rightarrow> oid \<Rightarrow> bool \<Rightarrow> kstat \<times> kernel" where
  "sem_give s ob opt_wake_all =
     (if obj_type (blk s ob) \<noteq> RHINO_SEM_OBJ_TYPE then (RHINO_KOBJ_TYPE_ERR, s)
      else (case blk_list (blk s ob) of
        [] \<Rightarrow>
          if count (sems s ob) = - 1 then (RHINO_SEM_OVF, s)
          else
            let s1 = upd_sem s ob (\<lambda>m. m\<lparr>count := count m + 1\<rparr>);
                s2 = (if count (sems s1 ob) > peak_count (sems s1 ob)
                      then upd_sem s1 ob (\<lambda>m. m\<lparr>peak_count := count m\<rparr>) else s1)
            in (RHINO_SUCCESS, s2)
      | task # _ \<Rightarrow>
          let s1 = (if opt_wake_all then wake_all pend_task_wakeup ob s else pend_task_wakeup s task)
          in (RHINO_SUCCESS, core_sched s1)))"

definition krhino_sem_give :: "kernel \<Rightarrow> oid option \<Rightarrow> kstat \<times> kernel" where
  "krhino_sem_give s sem =
     (case sem of None \<Rightarrow> (RHINO_NULL_PTR, s) | Some ob \<Rightarrow> sem_give s ob False)"

definition krhino_sem_give_all :: "kernel \<Rightarrow> oid option \<Rightarrow> kstat \<times> kernel" where
  "krhino_sem_give_all s sem =
     (case sem of None \<Rightarrow> (RHINO_NULL_PTR, s) | Some ob \<Rightarrow> sem_give s ob True)"

definition krhino_sem_take :: "kernel \<Rightarrow> oid option \<Rightarrow> u64 \<Rightarrow> kstat outcome \<times> kernel" where
  "krhino_sem_take s sem ticks =
     (case sem of None \<Rightarrow> (Ret RHINO_NULL_PTR, s) | Some ob \<Rightarrow>
      if task_cancel_chk s ob then (Ret RHINO_TASK_CANCELED, s)
      else if g_intrpt_nested_level s > 0 then (Ret RHINO_NOT_CALLED_BY_INTRPT, s)
      else if obj_type (blk s ob) \<noteq> RHINO_SEM_OBJ_TYPE then (Ret RHINO_KOBJ_TYPE_ERR, s)
      else if count (sems s ob) > 0 then
        (Ret RHINO_SUCCESS, upd_sem s ob (\<lambda>m. m\<lparr>count := count m - 1\<rparr>))
      else if ticks = RHINO_NO_WAIT then (Ret RHINO_NO_PEND_WAIT, s)
      else if g_sched_lock s > 0 then (Ret RHINO_SCHED_DISABLE, s)
      else (Blocked, core_sched (pend_to_blk_obj s ob (g_active_task s) ticks)))"

definition krhino_sem_take_end :: "kernel \<Rightarrow> oid \<Rightarrow> kstat \<times> kernel" where
  "krhino_sem_take_end s ob = pend_state_end_proc s (g_active_task s) (Some ob)"

definition krhino_sem_count_set :: "kernel \<Rightarrow> oid option \<Rightarrow> u32 \<Rightarrow> kstat \<times> kernel" where
  "krhino_sem_count_set s sem sem_count =
     (case sem of None \<Rightarrow> (RHINO_NULL_PTR, s) | Some ob \<Rightarrow>
      if g_intrpt_nested_level s > 0 then (RHINO_NOT_CALLED_BY_INTRPT, s)
      else if obj_type (blk s ob) \<noteq> RHINO_SEM_OBJ_TYPE then (RHINO_KOBJ_TYPE_ERR, s)
      else if \<not> count (sems s ob) > 0 \<and> blk_list (blk s ob) \<noteq> [] then (RHINO_SEM_TASK_WAITING, s)
      else
        let s1 = upd_sem s ob (\<lambda>m. m\<lparr>count := sem_count\<rparr>);
            s2 = (if count (sems s1 ob) > peak_count (sems s1 ob)
                  then upd_sem s1 ob (\<lambda>m. m\<lparr>peak_count := count m\<rparr>) else s1)
        in (RHINO_SUCCESS, s2))"

text \<open>The count is written through the second pointer, here the second result.\<close>

definition krhino_sem_count_get :: "kernel \<Rightarrow> oid option \<Rightarrow> bool \<Rightarrow> kstat \<times> u32 option" where
  "krhino_sem_count_get s sem count_ptr_null =
     (case sem of None \<Rightarrow> (RHINO_NULL_PTR, None) | Some ob \<Rightarrow>
      if count_ptr_null then (RHINO_NULL_PTR, None)
      else (RHINO_SUCCESS, Some (count (sems s ob))))"

section \<open>The invariant is kept\<close>

lemma upd_sem_frame [simp]:
  "tcb (upd_sem s ob f) = tcb s" "blk (upd_sem s ob f) = blk s" "g_ready_queue (upd_sem s ob f) = g_ready_queue s"
  "g_tick_list (upd_sem s ob f) = g_tick_list s" "g_tick_count (upd_sem s ob f) = g_tick_count s"
  "mutexes (upd_sem s ob f) = mutexes s" "queues (upd_sem s ob f) = queues s"
  "buf_queues (upd_sem s ob f) = buf_queues s" "event_flags (upd_sem s ob f) = event_flags s"
  "g_kobj_list (upd_sem s ob f) = g_kobj_list s" "g_active_task (upd_sem s ob f) = g_active_task s"
  "g_sched_lock (upd_sem s ob f) = g_sched_lock s" "traps (upd_sem s ob f) = traps s"
  "g_intrpt_nested_level (upd_sem s ob f) = g_intrpt_nested_level s"
  "sems (upd_sem s ob f) = (sems s)(ob := f (sems s ob))"
  by (simp_all add: upd_sem_def)

text \<open>The count of a semaphore nobody waits for may change freely.\<close>

lemma upd_sem_kwf:
  assumes w: "kwf s" and e: "blk_list (blk s ob) = []"
  shows "kwf (upd_sem s ob f)"
proof (rule kwf_object_state [OF w])
  show "waitable (upd_sem s ob f) o'" if "blk_list (blk s o') \<noteq> []" "waitable s o'" for o'
    using that e by (auto simp: waitable_def split: kobj_type_t.splits)
  show "data_inv (upd_sem s ob f)" using w data_inv_cong [of "upd_sem s ob f" s] by (simp add: kwf_def)
qed simp_all

lemma upd_sem_good:
  "kwf s \<Longrightarrow> act_inv s \<Longrightarrow> blk_list (blk s ob) = [] \<Longrightarrow> good s (upd_sem s ob f)"
  by (rule good_exit) (simp_all add: upd_sem_kwf)

lemma upd_sem_twice: "upd_sem (upd_sem s ob f) ob g = upd_sem s ob (g \<circ> f)"
  by (simp add: upd_sem_def)

lemma sem_waiters_empty:
  assumes "kwf s" "obj_type (blk s ob) = RHINO_SEM_OBJ_TYPE" "0 < count (sems s ob)"
  shows "blk_list (blk s ob) = []"
proof (rule ccontr)
  assume "blk_list (blk s ob) \<noteq> []"
  then have "waitable s ob" using assms(1) by (simp add: kwf_def kinv_def obj_inv_def)
  then show False using assms(2,3) by (simp add: waitable_def)
qed

lemma sem_create_good:
  assumes w: "kwf s" "act_inv s" and none: "\<And>ob. sem = Some ob \<Longrightarrow> obj_type (blk s ob) = RHINO_OBJ_TYPE_NONE"
  shows "good s (snd (sem_create s sem name cnt flag))"
proof (cases sem)
  case None
  then show ?thesis using good_refl [OF w] by (simp add: sem_create_def)
next
  case (Some ob)
  show ?thesis
  proof (cases name)
    case None
    then show ?thesis using good_refl [OF w] Some by (simp add: sem_create_def)
  next
    case (Some nm)
    let ?s = "snd (sem_create s sem name cnt flag)"
    let ?b = "\<lparr>blk_list = [], obj_name = name, blk_policy = BLK_POLICY_PRI,
                   obj_type = RHINO_SEM_OBJ_TYPE, obj_cancel = 1, obj_mm_flag = flag\<rparr>"
    have d: "?s = (upd_sem (upd_blk s ob (\<lambda>_. ?b)) ob (\<lambda>_. \<lparr>count = cnt, peak_count = cnt\<rparr>))
      \<lparr>g_kobj_list := (g_kobj_list s)\<lparr>l_sem_head := l_sem_head (g_kobj_list s) @ [ob]\<rparr>\<rparr>"
      using \<open>sem = Some ob\<close> Some by (simp add: sem_create_def Let_def)
    have "kwf ?s"
    proof (rule kwf_fresh_object [OF w(1) none [OF \<open>sem = Some ob\<close>], where b = ?b])
      show "waitable ?s o'" if "o' \<noteq> ob" "waitable s o'" for o'
        using that unfolding d waitable_def by (simp split: kobj_type_t.splits)
    qed (simp_all add: d)
    then show ?thesis by (rule good_exit [OF w(2)]) (simp_all add: d)
  qed
qed

lemma krhino_sem_create_good:
  "kwf s \<Longrightarrow> act_inv s \<Longrightarrow> (\<And>ob. sem = Some ob \<Longrightarrow> obj_type (blk s ob) = RHINO_OBJ_TYPE_NONE) \<Longrightarrow>
   good s (snd (krhino_sem_create s sem name cnt))"
  unfolding krhino_sem_create_def by (rule sem_create_good)

text \<open>The common part of the deletions.\<close>

lemma sem_del_body_good:
  assumes w: "kwf s" "act_inv s" and ty: "obj_type (blk s ob) = RHINO_SEM_OBJ_TYPE"
  defines "s2 \<equiv> wake_all pend_task_rm ob (upd_blk s ob (\<lambda>b. b\<lparr>obj_type := RHINO_OBJ_TYPE_NONE\<rparr>))"
  shows "good s (core_sched (s2\<lparr>g_kobj_list := (g_kobj_list s2)\<lparr>l_sem_head := xs\<rparr>\<rparr>))"
  unfolding s2_def by (rule object_del_good [OF w, of ob]) (simp_all add: ty kwf_kobj_list)

lemma krhino_sem_del_good: "kwf s \<Longrightarrow> act_inv s \<Longrightarrow> good s (snd (krhino_sem_del s sem))"
  using sem_del_body_good good_refl by (simp add: krhino_sem_del_def Let_def split: option.split)

lemma sem_give_good:
  assumes w: "kwf s" "act_inv s"
  shows "good s (snd (sem_give s ob all))"
proof (cases "blk_list (blk s ob)")
  case Nil
  then show ?thesis using good_refl [OF w] upd_sem_good [OF w Nil]
    by (simp add: sem_give_def Let_def upd_sem_twice)
next
  case (Cons t ts)
  have "good s (core_sched (if all then wake_all pend_task_wakeup ob s else pend_task_wakeup s t))"
    using wake_one_kwf [OF w(1) Cons] wake_all_kwf [OF w(1), of ob] left_wait_good [OF w] by auto
  then show ?thesis using good_refl [OF w] Cons by (simp add: sem_give_def)
qed

lemma krhino_sem_give_good:
  "kwf s \<Longrightarrow> act_inv s \<Longrightarrow> good s (snd (krhino_sem_give s sem)) \<and> good s (snd (krhino_sem_give_all s sem))"
  using sem_give_good good_refl
  by (auto simp: krhino_sem_give_def krhino_sem_give_all_def split: option.splits)

lemma krhino_sem_take_good:
  assumes w: "kwf s" "act_inv s" "can_block s"
  shows "good s (snd (krhino_sem_take s sem ticks))"
proof (cases sem)
  case None
  then show ?thesis using good_refl [OF w(1,2)] by (simp add: krhino_sem_take_def)
next
  case (Some ob)
  have b: "good s (core_sched (pend_to_blk_obj s ob (g_active_task s) ticks))"
    if "\<not> g_sched_lock s > 0" "\<not> g_intrpt_nested_level s > 0" "obj_type (blk s ob) = RHINO_SEM_OBJ_TYPE"
      "\<not> count (sems s ob) > 0" "ticks \<noteq> RHINO_NO_WAIT"
  proof (rule block_good [OF w])
    show "g_sched_lock s = 0" "g_intrpt_nested_level s = 0" using that(1,2) by (simp_all add: word_gt_0)
    show "waitable s ob" using that(3,4) by (simp add: waitable_def word_gt_0)
    show "ticks \<noteq> 0" using that(5) by (simp add: config_defs)
  qed (simp_all add: that(3))
  have "good s (upd_sem s ob f)" if "obj_type (blk s ob) = RHINO_SEM_OBJ_TYPE" "count (sems s ob) > 0" for f
    by (rule upd_sem_good [OF w(1,2) sem_waiters_empty [OF w(1) that]])
  then show ?thesis using Some b good_refl [OF w(1,2)] by (simp add: krhino_sem_take_def)
qed

lemma krhino_sem_count_set_good:
  assumes w: "kwf s" "act_inv s"
  shows "good s (snd (krhino_sem_count_set s sem c))"
proof (cases sem)
  case None
  then show ?thesis using good_refl [OF w] by (simp add: krhino_sem_count_set_def)
next
  case (Some ob)
  have e: "blk_list (blk s ob) = []"
    if "obj_type (blk s ob) = RHINO_SEM_OBJ_TYPE" "count (sems s ob) > 0 \<or> blk_list (blk s ob) = []"
    using sem_waiters_empty [OF w(1) that(1)] that(2) by auto
  then show ?thesis using Some good_refl [OF w] upd_sem_good [OF w]
    by (auto simp: krhino_sem_count_set_def Let_def upd_sem_twice)
qed

end
