(* ===== verification/K_Event.thy ===== *)
theory K_Event
  imports K_Wake
begin

text \<open>
  Event groups, \<open>k_event.c\<close>: 32 flags a task may wait for, all or any of them, clearing them
  on success or not. \<open>pend_info\<close> of a waiting task is the address (a cell of the model) where
  the flags are stored when it is woken.
\<close>

section \<open>Operations\<close>

unbundle bit_operations_syntax

definition RHINO_FLAGS_AND_MASK :: u8 where "RHINO_FLAGS_AND_MASK = 2"
definition RHINO_FLAGS_CLEAR_MASK :: u8 where "RHINO_FLAGS_CLEAR_MASK = 1"
definition RHINO_AND :: u8 where "RHINO_AND = 2"
definition RHINO_AND_CLEAR :: u8 where "RHINO_AND_CLEAR = 3"
definition RHINO_OR :: u8 where "RHINO_OR = 0"
definition RHINO_OR_CLEAR :: u8 where "RHINO_OR_CLEAR = 1"

lemmas event_opts = RHINO_FLAGS_AND_MASK_def RHINO_FLAGS_CLEAR_MASK_def RHINO_AND_def
  RHINO_AND_CLEAR_def RHINO_OR_def RHINO_OR_CLEAR_def

definition upd_event :: "kernel \<Rightarrow> oid \<Rightarrow> (u32 \<Rightarrow> u32) \<Rightarrow> kernel" where
  "upd_event s ob f = s\<lparr>event_flags := (event_flags s)(ob := f (event_flags s ob))\<rparr>"

definition event_create :: "kernel \<Rightarrow> oid option \<Rightarrow> string option \<Rightarrow> u32 \<Rightarrow> u8 \<Rightarrow> kstat \<times> kernel" where
  "event_create s event name flags mm_alloc_flag =
     (case event of None \<Rightarrow> (RHINO_NULL_PTR, s) | Some ob \<Rightarrow>
      if name = None then (RHINO_NULL_PTR, s)
      else
        let s1 = upd_blk s ob (\<lambda>_. \<lparr>blk_list = [], obj_name = name, blk_policy = BLK_POLICY_PRI,
                   obj_type = RHINO_EVENT_OBJ_TYPE, obj_cancel = 1, obj_mm_flag = mm_alloc_flag\<rparr>);
            s2 = upd_event s1 ob (\<lambda>_. flags)
        in (RHINO_SUCCESS,
            s2\<lparr>g_kobj_list := (g_kobj_list s2)\<lparr>l_event_head := l_event_head (g_kobj_list s2) @ [ob]\<rparr>\<rparr>))"

definition krhino_event_create :: "kernel \<Rightarrow> oid option \<Rightarrow> string option \<Rightarrow> u32 \<Rightarrow> kstat \<times> kernel" where
  "krhino_event_create s event name flags = event_create s event name flags K_OBJ_STATIC_ALLOC"

definition krhino_event_del :: "kernel \<Rightarrow> oid option \<Rightarrow> kstat \<times> kernel" where
  "krhino_event_del s event =
     (case event of None \<Rightarrow> (RHINO_NULL_PTR, s) | Some ob \<Rightarrow>
      if g_intrpt_nested_level s > 0 then (RHINO_NOT_CALLED_BY_INTRPT, s)
      else if obj_type (blk s ob) \<noteq> RHINO_EVENT_OBJ_TYPE then (RHINO_KOBJ_TYPE_ERR, s)
      else if obj_mm_flag (blk s ob) \<noteq> K_OBJ_STATIC_ALLOC then (RHINO_KOBJ_DEL_ERR, s)
      else
        let s1 = upd_blk s ob (\<lambda>b. b\<lparr>obj_type := RHINO_OBJ_TYPE_NONE\<rparr>);
            s2 = wake_all pend_task_rm ob s1;
            s3 = upd_event s2 ob (\<lambda>_. 0);
            s4 = s3\<lparr>g_kobj_list := (g_kobj_list s3)\<lparr>l_event_head := remove1 ob (l_event_head (g_kobj_list s3))\<rparr>\<rparr>
        in (RHINO_SUCCESS, core_sched s4))"

text \<open>Whether the flags satisfy a request.\<close>

definition event_match :: "u32 \<Rightarrow> u32 \<Rightarrow> u8 \<Rightarrow> bool" where
  "event_match cur flags opt =
     (if opt AND RHINO_FLAGS_AND_MASK \<noteq> 0 then cur AND flags = flags else cur AND flags > 0)"

definition krhino_event_get ::
    "kernel \<Rightarrow> oid option \<Rightarrow> u32 \<Rightarrow> u8 \<Rightarrow> nat option \<Rightarrow> u64 \<Rightarrow> kstat outcome \<times> kernel" where
  "krhino_event_get s event flags opt actl_flags ticks =
     (case event of None \<Rightarrow> (Ret RHINO_NULL_PTR, s) | Some ob \<Rightarrow>
      (case actl_flags of None \<Rightarrow> (Ret RHINO_NULL_PTR, s) | Some c \<Rightarrow>
      if opt \<noteq> RHINO_AND \<and> opt \<noteq> RHINO_OR \<and> opt \<noteq> RHINO_AND_CLEAR \<and> opt \<noteq> RHINO_OR_CLEAR then
        (Ret RHINO_NO_THIS_EVENT_OPT, s)
      else if task_cancel_chk s ob then (Ret RHINO_TASK_CANCELED, s)
      else if g_intrpt_nested_level s > 0 then (Ret RHINO_NOT_CALLED_BY_INTRPT, s)
      else if obj_type (blk s ob) \<noteq> RHINO_EVENT_OBJ_TYPE then (Ret RHINO_KOBJ_TYPE_ERR, s)
      else if event_match (event_flags s ob) flags opt then
        let s1 = s\<lparr>cells := (cells s)(c := event_flags s ob)\<rparr>
        in (Ret RHINO_SUCCESS,
            if opt AND RHINO_FLAGS_CLEAR_MASK \<noteq> 0
            then upd_event s1 ob (\<lambda>e. e AND NOT flags) else s1)
      else if ticks = RHINO_NO_WAIT then (Ret RHINO_NO_PEND_WAIT, s)
      else if g_sched_lock s > 0 then (Ret RHINO_SCHED_DISABLE, s)
      else
        let s1 = upd_task s (g_active_task s) (\<lambda>k. k\<lparr>pend_option := opt, pend_flags := flags, pend_info := c\<rparr>)
        in (Blocked, core_sched (pend_to_blk_obj s1 ob (g_active_task s1) ticks))))"

definition krhino_event_get_end :: "kernel \<Rightarrow> oid \<Rightarrow> kstat \<times> kernel" where
  "krhino_event_get_end s ob = pend_state_end_proc s (g_active_task s) (Some ob)"

text \<open>The walk over the waiting tasks. The next task is read before the current one is woken,
  so the walk is over the list as it was; all requests are compared with the flags as they
  were set, while the flags to clear are taken from the event as it is.\<close>

definition event_wake :: "kernel \<Rightarrow> oid \<Rightarrow> u32 \<Rightarrow> tid \<Rightarrow> kernel" where
  "event_wake s ob cur task =
     (let s1 = s\<lparr>cells := (cells s)(pend_info (tcb s task) := cur)\<rparr>;
          s2 = pend_task_wakeup s1 task
      in if pend_option (tcb s2 task) AND RHINO_FLAGS_CLEAR_MASK \<noteq> 0
         then upd_event s2 ob (\<lambda>e. e AND NOT (pend_flags (tcb s2 task))) else s2)"

fun event_set_loop :: "kernel \<Rightarrow> oid \<Rightarrow> u32 \<Rightarrow> tid list \<Rightarrow> kernel" where
  "event_set_loop s ob cur [] = s"
| "event_set_loop s ob cur (task # rest) =
     (if event_match cur (pend_flags (tcb s task)) (pend_option (tcb s task))
      then event_set_loop (event_wake s ob cur task) ob cur rest
      else event_set_loop s ob cur rest)"

definition event_set :: "kernel \<Rightarrow> oid \<Rightarrow> u32 \<Rightarrow> u8 \<Rightarrow> kstat \<times> kernel" where
  "event_set s ob flags opt =
     (if obj_type (blk s ob) \<noteq> RHINO_EVENT_OBJ_TYPE then (RHINO_KOBJ_TYPE_ERR, s)
      else if opt AND RHINO_FLAGS_AND_MASK \<noteq> 0 then
        (RHINO_SUCCESS, upd_event s ob (\<lambda>e. e AND flags))
      else
        let s1 = upd_event s ob (\<lambda>e. e OR flags)
        in (RHINO_SUCCESS, core_sched (event_set_loop s1 ob (event_flags s1 ob) (blk_list (blk s1 ob)))))"

definition krhino_event_set :: "kernel \<Rightarrow> oid option \<Rightarrow> u32 \<Rightarrow> u8 \<Rightarrow> kstat \<times> kernel" where
  "krhino_event_set s event flags opt =
     (case event of None \<Rightarrow> (RHINO_NULL_PTR, s) | Some ob \<Rightarrow>
      if opt \<noteq> RHINO_AND \<and> opt \<noteq> RHINO_OR then (RHINO_NO_THIS_EVENT_OPT, s)
      else event_set s ob flags opt)"

section \<open>The services keep the invariant\<close>

lemma upd_event_frame [simp]:
  "tcb (upd_event s ob f) = tcb s" "blk (upd_event s ob f) = blk s"
  "g_ready_queue (upd_event s ob f) = g_ready_queue s" "traps (upd_event s ob f) = traps s"
  "g_tick_list (upd_event s ob f) = g_tick_list s" "g_tick_count (upd_event s ob f) = g_tick_count s"
  "mutexes (upd_event s ob f) = mutexes s" "queues (upd_event s ob f) = queues s"
  "buf_queues (upd_event s ob f) = buf_queues s" "sems (upd_event s ob f) = sems s"
  "g_kobj_list (upd_event s ob f) = g_kobj_list s" "g_active_task (upd_event s ob f) = g_active_task s"
  "g_sched_lock (upd_event s ob f) = g_sched_lock s"
  "g_intrpt_nested_level (upd_event s ob f) = g_intrpt_nested_level s"
  "event_flags (upd_event s ob f) = (event_flags s)(ob := f (event_flags s ob))"
  "cells (upd_event s ob f) = cells s"
  by (simp_all add: upd_event_def)

lemma kwf_upd_event [simp]: "kwf (upd_event s ob f) = kwf s"
proof -
  have w: "waitable (upd_event s ob f) o' = waitable s o'" for o' by (rule waitable_cong) simp_all
  have "kwf (upd_event s ob f)" if "kwf s"
    by (rule kwf_same_view [OF that]) (simp_all add: same_view_def w)
  moreover have "kwf s" if "kwf (upd_event s ob f)"
    by (rule kwf_same_view [OF that]) (simp_all add: same_view_def w)
  ultimately show ?thesis by blast
qed

lemma kwf_cells [simp]: "kwf (s\<lparr>cells := c\<rparr>) = kwf s"
proof -
  have w: "waitable (s\<lparr>cells := c\<rparr>) o' = waitable s o'" for o' by (rule waitable_cong) simp_all
  have "kwf (s\<lparr>cells := c\<rparr>)" if "kwf s"
    by (rule kwf_same_view [OF that]) (simp_all add: same_view_def w)
  moreover have "kwf s" if "kwf (s\<lparr>cells := c\<rparr>)"
    by (rule kwf_same_view [OF that]) (simp_all add: same_view_def w)
  ultimately show ?thesis by blast
qed

lemma event_create_good:
  assumes w: "kwf s" "act_inv s" and none: "\<And>ob. event = Some ob \<Longrightarrow> obj_type (blk s ob) = RHINO_OBJ_TYPE_NONE"
  shows "good s (snd (event_create s event name flags mf))"
proof (cases "event = None \<or> name = None")
  case True
  then show ?thesis using good_refl [OF w] by (auto simp: event_create_def split: option.splits)
next
  case False
  then obtain ob nm where ob: "event = Some ob" and nm: "name = Some nm" by auto
  let ?s = "snd (event_create s event name flags mf)"
  let ?b = "\<lparr>blk_list = [], obj_name = name, blk_policy = BLK_POLICY_PRI,
                   obj_type = RHINO_EVENT_OBJ_TYPE, obj_cancel = 1, obj_mm_flag = mf\<rparr>"
  have d: "?s = (upd_event (upd_blk s ob (\<lambda>_. ?b)) ob (\<lambda>_. flags))
      \<lparr>g_kobj_list := (g_kobj_list s)\<lparr>l_event_head := l_event_head (g_kobj_list s) @ [ob]\<rparr>\<rparr>"
    using nm ob by (simp add: event_create_def Let_def)
  have "kwf ?s"
  proof (rule kwf_fresh_object [OF w(1) none [OF ob], where b = ?b])
    show "waitable ?s o'" if "o' \<noteq> ob" "waitable s o'" for o'
      using that unfolding d waitable_def by (simp split: kobj_type_t.splits)
  qed (simp_all add: d)
  then show ?thesis by (rule good_exit [OF w(2)]) (simp_all add: d)
qed

lemma event_del_body_good:
  assumes w: "kwf s" "act_inv s" and ty: "obj_type (blk s ob) = RHINO_EVENT_OBJ_TYPE"
  defines "s2 \<equiv> wake_all pend_task_rm ob (upd_blk s ob (\<lambda>b. b\<lparr>obj_type := RHINO_OBJ_TYPE_NONE\<rparr>))"
  shows "good s (core_sched ((upd_event s2 ob (\<lambda>_. 0))\<lparr>g_kobj_list := (g_kobj_list s2)\<lparr>l_event_head := xs\<rparr>\<rparr>))"
  unfolding s2_def by (rule object_del_good [OF w, of ob]) (simp_all add: ty kwf_kobj_list)

lemma krhino_event_del_good: "kwf s \<Longrightarrow> act_inv s \<Longrightarrow> good s (snd (krhino_event_del s event))"
  using event_del_body_good good_refl by (simp add: krhino_event_del_def Let_def split: option.split)

lemma upd_task_pend_kwf:
  "kwf s \<Longrightarrow> kwf (upd_task s t (\<lambda>k. k\<lparr>pend_option := a, pend_flags := b, pend_info := c\<rparr>))"
proof (rule kwf_same_view)
  let ?s = "upd_task s t (\<lambda>k. k\<lparr>pend_option := a, pend_flags := b, pend_info := c\<rparr>)"
  show "waitable ?s o'" if "waitable s o'" for o' using that waitable_cong [of ?s o' s] by simp
qed (auto simp: same_view_def task_view_def)

lemma good_trans_view:
  assumes "good s1 s2" "traps s1 = traps s" "task_list_inv s1"
    "waits_for s1 = waits_for s"
  shows "good s s2"
  using assms task_list_all_listed [OF assms(3)] by (simp add: good_def traps_ok_def)

lemma krhino_event_get_good:
  assumes w: "kwf s" "act_inv s" "can_block s"
  shows "good s (snd (krhino_event_get s event flags opt actl ticks))"
proof (cases "event = None \<or> actl = None")
  case True
  then show ?thesis using good_refl [OF w(1,2)] by (auto simp: krhino_event_get_def split: option.splits)
next
  case False
  then obtain ob c where ob: "event = Some ob" and c: "actl = Some c" by auto
  let ?s1 = "upd_task s (g_active_task s) (\<lambda>k. k\<lparr>pend_option := opt, pend_flags := flags, pend_info := c\<rparr>)"
  have w1: "kwf ?s1" by (rule upd_task_pend_kwf [OF w(1)])
  have a1: "act_inv ?s1" using w(2) by (simp add: act_inv_def runnable_def)
  have c1: "can_block ?s1" using w(3) by (simp add: can_block_def)
  have block: "good s (core_sched (pend_to_blk_obj ?s1 ob (g_active_task s) ticks))"
    if "\<not> g_sched_lock s > 0" "\<not> g_intrpt_nested_level s > 0" "obj_type (blk s ob) = RHINO_EVENT_OBJ_TYPE"
      "ticks \<noteq> RHINO_NO_WAIT"
  proof (rule good_trans_view)
    have "good ?s1 (core_sched (pend_to_blk_obj ?s1 ob (g_active_task ?s1) ticks))"
      by (rule block_good [OF w1 a1 c1])
        (use that in \<open>simp_all add: waitable_def word_gt_0 config_defs\<close>)
    then show "good ?s1 (core_sched (pend_to_blk_obj ?s1 ob (g_active_task s) ticks))" by simp
    have "blocked (tcb ?s1 u) = blocked (tcb s u)" "blk_obj (tcb ?s1 u) = blk_obj (tcb s u)" for u
      by (auto simp: blocked_def)
    then show "waits_for ?s1 = waits_for s" unfolding waits_for_def by simp
    show "task_list_inv ?s1" using w1 by (simp add: kwf_def)
  qed simp
  have take: "good s (s\<lparr>cells := x\<rparr>)" "good s (upd_event (s\<lparr>cells := x\<rparr>) ob f)" for x f
    by (rule good_exit [OF w(2)]; simp add: w(1))+
  show ?thesis
    unfolding krhino_event_get_def ob c option.case Let_def if_distrib [of snd] snd_conv
    by (intro if_rule [where P = "good s"]; use good_refl [OF w(1,2)] block take in simp)
qed

lemma event_wake_kwf:
  assumes w: "kwf s" and t: "t \<in> set (blk_list (blk s ob))"
  shows "kwf (event_wake s ob cur t) \<and> traps (event_wake s ob cur t) = traps s \<and>
     g_active_task (event_wake s ob cur t) = g_active_task s \<and>
     blk_list (blk (event_wake s ob cur t) ob) = remove1 t (blk_list (blk s ob)) \<and>
     g_intrpt_nested_level (event_wake s ob cur t) = g_intrpt_nested_level s \<and>
     g_sched_lock (event_wake s ob cur t) = g_sched_lock s \<and>
     (runnable (tcb s u) \<longrightarrow> tcb (event_wake s ob cur t) u = tcb s u) \<and>
     (u \<noteq> t \<longrightarrow> tcb (event_wake s ob cur t) u = tcb s u)"
proof -
  let ?s1 = "s\<lparr>cells := (cells s)(pend_info (tcb s t) := cur)\<rparr>"
  have w1: "kwf ?s1" using w by simp
  then have k1: "kinv ?s1" by (simp add: kwf_def)
  have b: "blocked (tcb ?s1 t)" using list_blocked [OF k1, of t ob] t by simp
  have e: "pend_task_wakeup ?s1 t = wake_with BLK_FINISH ?s1 t" by (rule pend_task_wakeup_eq [OF b])
  have k2: "kinv (pend_task_wakeup ?s1 t)" unfolding e by (rule wake_with_kinv [OF k1 b])
  have l: "left_wait BLK_FINISH ?s1 {t} (pend_task_wakeup ?s1 t)"
    unfolding e by (rule wake_with_left_wait [OF k1 b])
  have "kwf (pend_task_wakeup ?s1 t)" using kwf_left_wait [OF k2 l _ w1] b by simp
  moreover have "blk_list (blk (pend_task_wakeup ?s1 t) ob) = remove1 t (blk_list (blk s ob))"
    unfolding e by (simp add: wake_with_lists)
  moreover have "runnable (tcb s u) \<longrightarrow> tcb (pend_task_wakeup ?s1 t) u = tcb s u"
    using left_wait_runnable [OF l, of u] by simp
  moreover have "u \<noteq> t \<longrightarrow> tcb (pend_task_wakeup ?s1 t) u = tcb s u"
    using left_wait_task(5) [OF l, of u] by simp
  ultimately show ?thesis by (simp add: event_wake_def Let_def left_wait_rest [OF l])
qed

lemma event_set_loop_kwf:
  "kwf s \<Longrightarrow> distinct ts \<Longrightarrow> set ts \<subseteq> set (blk_list (blk s ob)) \<Longrightarrow>
   kwf (event_set_loop s ob cur ts) \<and> traps (event_set_loop s ob cur ts) = traps s \<and>
   g_active_task (event_set_loop s ob cur ts) = g_active_task s \<and>
   g_intrpt_nested_level (event_set_loop s ob cur ts) = g_intrpt_nested_level s \<and>
   g_sched_lock (event_set_loop s ob cur ts) = g_sched_lock s \<and>
   (runnable (tcb s u) \<longrightarrow> tcb (event_set_loop s ob cur ts) u = tcb s u)"
proof (induction ts arbitrary: s)
  case Nil
  then show ?case by simp
next
  case (Cons t ts)
  show ?case
  proof (cases "event_match cur (pend_flags (tcb s t)) (pend_option (tcb s t))")
    case False
    with Cons show ?thesis by simp
  next
    case True
    let ?s = "event_wake s ob cur t"
    have t: "t \<in> set (blk_list (blk s ob))" using Cons.prems by simp
    note e = event_wake_kwf [OF Cons.prems(1) t, of cur u]
    have "distinct (blk_list (blk s ob))" using Cons.prems(1) kinv_wait_list by (simp add: kwf_def)
    then have "set ts \<subseteq> set (blk_list (blk ?s ob))" using Cons.prems e by auto
    with Cons.IH [of ?s] Cons.prems e have "kwf (event_set_loop ?s ob cur ts) \<and>
        traps (event_set_loop ?s ob cur ts) = traps ?s \<and>
        g_active_task (event_set_loop ?s ob cur ts) = g_active_task ?s \<and>
        g_intrpt_nested_level (event_set_loop ?s ob cur ts) = g_intrpt_nested_level ?s \<and>
        g_sched_lock (event_set_loop ?s ob cur ts) = g_sched_lock ?s \<and>
        (runnable (tcb ?s u) \<longrightarrow> tcb (event_set_loop ?s ob cur ts) u = tcb ?s u)" by simp
    with e True show ?thesis by auto
  qed
qed

lemma event_set_good:
  assumes w: "kwf s" "act_inv s"
  shows "good s (snd (event_set s ob flags opt))"
proof -
  let ?s1 = "upd_event s ob (\<lambda>e. e OR flags)"
  let ?s2 = "event_set_loop ?s1 ob (event_flags ?s1 ob) (blk_list (blk ?s1 ob))"
  have w1: "kwf ?s1" using w by simp
  then have d: "distinct (blk_list (blk ?s1 ob))" using kinv_wait_list [of ?s1 ob] by (simp add: kwf_def)
  note l = event_set_loop_kwf [OF w1 d subset_refl, of "event_flags ?s1 ob" "g_active_task s"]
  have "good s (core_sched ?s2)"
    by (rule good_sched [OF w(2)]) (use l in simp_all)
  moreover have "good s (upd_event s ob (\<lambda>e. e AND flags))"
    by (rule good_exit [OF w(2)]) (simp_all add: w(1))
  ultimately show ?thesis using good_refl [OF w] by (simp add: event_set_def Let_def)
qed

lemma krhino_event_set_good:
  "kwf s \<Longrightarrow> act_inv s \<Longrightarrow> good s (snd (krhino_event_set s event flags opt))"
  using event_set_good good_refl by (simp add: krhino_event_set_def split: option.splits)

end
