(* ===== verification/K_Queue.thy ===== *)
theory K_Queue
  imports K_Wake
begin

text \<open>
  Queues of pointers, \<open>k_queue.c\<close>. A pointer is a 32-bit word; in the ring buffer it is its
  four bytes. A receiver that finds the queue empty blocks and gets the message of the sender
  that wakes it through its \<open>msg\<close> field.
\<close>

section \<open>Operations\<close>

definition upd_queue :: "kernel \<Rightarrow> oid \<Rightarrow> (kqueue_t \<Rightarrow> kqueue_t) \<Rightarrow> kernel" where
  "upd_queue s ob f = s\<lparr>queues := (queues s)(ob := f (queues s ob))\<rparr>"

text \<open>The object of a pointer in memory.\<close>

definition ptr_bytes :: "u32 \<Rightarrow> u8 list" where
  "ptr_bytes p = size_bytes (unat p)"

definition bytes_ptr :: "u8 list \<Rightarrow> u32" where
  "bytes_ptr b = word_of_nat (bytes_size b)"

definition task_msg_recv :: "kernel \<Rightarrow> tid \<Rightarrow> u32 \<Rightarrow> kernel" where
  "task_msg_recv s t p = pend_task_wakeup (upd_task s t (\<lambda>k. k\<lparr>msg := p\<rparr>)) t"

definition queue_create ::
    "kernel \<Rightarrow> oid option \<Rightarrow> string option \<Rightarrow> u8 list option \<Rightarrow> nat \<Rightarrow> u8 \<Rightarrow> kstat \<times> kernel" where
  "queue_create s queue name start msg_num mm_alloc_flag =
     (case queue of None \<Rightarrow> (RHINO_NULL_PTR, s) | Some ob \<Rightarrow>
      (case start of None \<Rightarrow> (RHINO_NULL_PTR, s) | Some mem \<Rightarrow>
      if name = None then (RHINO_NULL_PTR, s)
      else if msg_num = 0 then (RHINO_INV_PARAM, s)
      else
        let s1 = upd_blk s ob (\<lambda>_. \<lparr>blk_list = [], obj_name = name, blk_policy = BLK_POLICY_PRI,
                   obj_type = RHINO_QUEUE_OBJ_TYPE, obj_cancel = 1, obj_mm_flag = mm_alloc_flag\<rparr>);
            s2 = upd_queue s1 ob (\<lambda>_. \<lparr>msg_q = \<lparr>q_size = msg_num, cur_num = 0, peak_num = 0\<rparr>,
                   q_ringbuf = ringbuf_init mem ((msg_num * 4) mod 2 ^ 32) RINGBUF_TYPE_FIX 4\<rparr>)
        in (RHINO_SUCCESS,
            s2\<lparr>g_kobj_list := (g_kobj_list s2)\<lparr>l_queue_head := l_queue_head (g_kobj_list s2) @ [ob]\<rparr>\<rparr>)))"

definition krhino_queue_create ::
    "kernel \<Rightarrow> oid option \<Rightarrow> string option \<Rightarrow> u8 list option \<Rightarrow> nat \<Rightarrow> kstat \<times> kernel" where
  "krhino_queue_create s queue name start msg_num =
     queue_create s queue name start msg_num K_OBJ_STATIC_ALLOC"

definition krhino_queue_del :: "kernel \<Rightarrow> oid option \<Rightarrow> kstat \<times> kernel" where
  "krhino_queue_del s queue =
     (case queue of None \<Rightarrow> (RHINO_NULL_PTR, s) | Some ob \<Rightarrow>
      if g_intrpt_nested_level s > 0 then (RHINO_NOT_CALLED_BY_INTRPT, s)
      else if obj_type (blk s ob) \<noteq> RHINO_QUEUE_OBJ_TYPE then (RHINO_KOBJ_TYPE_ERR, s)
      else if obj_mm_flag (blk s ob) \<noteq> K_OBJ_STATIC_ALLOC then (RHINO_KOBJ_DEL_ERR, s)
      else
        let s1 = upd_blk s ob (\<lambda>b. b\<lparr>obj_type := RHINO_OBJ_TYPE_NONE\<rparr>);
            s2 = wake_all pend_task_rm ob s1;
            s3 = s2\<lparr>g_kobj_list := (g_kobj_list s2)\<lparr>l_queue_head := remove1 ob (l_queue_head (g_kobj_list s2))\<rparr>\<rparr>;
            s4 = upd_queue s3 ob (\<lambda>q. q\<lparr>q_ringbuf := ringbuf_reset (q_ringbuf q)\<rparr>)
        in (RHINO_SUCCESS, core_sched s4))"

definition msg_send :: "kernel \<Rightarrow> oid option \<Rightarrow> u32 \<Rightarrow> bool \<Rightarrow> kstat \<times> kernel" where
  "msg_send s p_q p_void opt_wake_all =
     (case p_q of None \<Rightarrow> (RHINO_NULL_PTR, s) | Some ob \<Rightarrow>
      if obj_type (blk s ob) \<noteq> RHINO_QUEUE_OBJ_TYPE then (RHINO_KOBJ_TYPE_ERR, s)
      else if cur_num (msg_q (queues s ob)) \<ge> q_size (msg_q (queues s ob)) then (RHINO_QUEUE_FULL, s)
      else (case blk_list (blk s ob) of
        [] \<Rightarrow>
          let s1 = upd_queue s ob (\<lambda>q. q\<lparr>msg_q := (msg_q q)\<lparr>cur_num := cur_num (msg_q q) + 1\<rparr>\<rparr>);
              s2 = (if cur_num (msg_q (queues s1 ob)) > peak_num (msg_q (queues s1 ob))
                    then upd_queue s1 ob (\<lambda>q. q\<lparr>msg_q := (msg_q q)\<lparr>peak_num := cur_num (msg_q q)\<rparr>\<rparr>)
                    else s1)
          in (RHINO_SUCCESS,
              case ringbuf_queue_push (q_ringbuf (queues s2 ob)) (ptr_bytes p_void) of
                None \<Rightarrow> add_trap s2 OutOfBounds
              | Some rb \<Rightarrow> upd_queue s2 ob (\<lambda>q. q\<lparr>q_ringbuf := rb\<rparr>))
      | task # _ \<Rightarrow>
          (RHINO_SUCCESS,
           core_sched (if opt_wake_all then wake_all (\<lambda>s t. task_msg_recv s t p_void) ob s
                       else task_msg_recv s task p_void))))"

definition krhino_queue_back_send :: "kernel \<Rightarrow> oid option \<Rightarrow> u32 \<Rightarrow> kstat \<times> kernel" where
  "krhino_queue_back_send s queue p = msg_send s queue p False"

definition krhino_queue_all_send :: "kernel \<Rightarrow> oid option \<Rightarrow> u32 \<Rightarrow> kstat \<times> kernel" where
  "krhino_queue_all_send s queue p = msg_send s queue p True"

text \<open>The message goes through the caller's pointer: the second component is what is stored
  there, if anything is.\<close>

definition krhino_queue_recv ::
    "kernel \<Rightarrow> oid option \<Rightarrow> u64 \<Rightarrow> bool \<Rightarrow> kstat outcome \<times> u32 option \<times> kernel" where
  "krhino_queue_recv s queue ticks msg_null =
     (case queue of None \<Rightarrow> (Ret RHINO_NULL_PTR, None, s) | Some ob \<Rightarrow>
      if msg_null then (Ret RHINO_NULL_PTR, None, s)
      else if task_cancel_chk s ob then (Ret RHINO_TASK_CANCELED, None, s)
      else if g_intrpt_nested_level s > 0 \<and> ticks \<noteq> RHINO_NO_WAIT then
        (Ret RHINO_NOT_CALLED_BY_INTRPT, None, s)
      else if obj_type (blk s ob) \<noteq> RHINO_QUEUE_OBJ_TYPE then (Ret RHINO_KOBJ_TYPE_ERR, None, s)
      else if cur_num (msg_q (queues s ob)) > 0 then
        (case ringbuf_queue_pop (q_ringbuf (queues s ob)) of
           None \<Rightarrow> (Ret RHINO_SUCCESS, None, add_trap s OutOfBounds)
         | Some (b, rb) \<Rightarrow>
             (Ret RHINO_SUCCESS, Some (bytes_ptr b),
              upd_queue s ob (\<lambda>q. q\<lparr>q_ringbuf := rb, msg_q := (msg_q q)\<lparr>cur_num := cur_num (msg_q q) - 1\<rparr>\<rparr>)))
      else if ticks = RHINO_NO_WAIT then (Ret RHINO_NO_PEND_WAIT, Some 0, s)
      else if g_sched_lock s > 0 then (Ret RHINO_SCHED_DISABLE, Some 0, s)
      else (Blocked, None, core_sched (pend_to_blk_obj s ob (g_active_task s) ticks)))"

definition krhino_queue_recv_end :: "kernel \<Rightarrow> oid \<Rightarrow> kstat \<times> u32 \<times> kernel" where
  "krhino_queue_recv_end s ob =
     (let (ret, s1) = pend_state_end_proc s (g_active_task s) (Some ob)
      in (ret, if ret = RHINO_SUCCESS then msg (tcb s1 (g_active_task s1)) else 0, s1))"

definition krhino_queue_is_full :: "kernel \<Rightarrow> oid option \<Rightarrow> kstat" where
  "krhino_queue_is_full s queue =
     (case queue of None \<Rightarrow> RHINO_NULL_PTR | Some ob \<Rightarrow>
      if obj_type (blk s ob) \<noteq> RHINO_QUEUE_OBJ_TYPE then RHINO_KOBJ_TYPE_ERR
      else if cur_num (msg_q (queues s ob)) \<ge> q_size (msg_q (queues s ob)) then RHINO_QUEUE_FULL
      else RHINO_QUEUE_NOT_FULL)"

definition krhino_queue_flush :: "kernel \<Rightarrow> oid option \<Rightarrow> kstat \<times> kernel" where
  "krhino_queue_flush s queue =
     (case queue of None \<Rightarrow> (RHINO_NULL_PTR, s) | Some ob \<Rightarrow>
      if g_intrpt_nested_level s > 0 then (RHINO_NOT_CALLED_BY_INTRPT, s)
      else if obj_type (blk s ob) \<noteq> RHINO_QUEUE_OBJ_TYPE then (RHINO_KOBJ_TYPE_ERR, s)
      else (RHINO_SUCCESS,
            upd_queue s ob (\<lambda>q. q\<lparr>msg_q := (msg_q q)\<lparr>cur_num := 0\<rparr>,
                                  q_ringbuf := ringbuf_reset (q_ringbuf q)\<rparr>)))"

text \<open>The information record: the counters and the first waiting task.\<close>

definition krhino_queue_info_get ::
    "kernel \<Rightarrow> oid option \<Rightarrow> bool \<Rightarrow> kstat \<times> (msg_q_t \<times> tid option) option" where
  "krhino_queue_info_get s queue info_null =
     (case queue of None \<Rightarrow> (RHINO_NULL_PTR, None) | Some ob \<Rightarrow>
      if info_null then (RHINO_NULL_PTR, None)
      else if obj_type (blk s ob) \<noteq> RHINO_QUEUE_OBJ_TYPE then (RHINO_KOBJ_TYPE_ERR, None)
      else (RHINO_SUCCESS, Some (msg_q (queues s ob),
              case blk_list (blk s ob) of [] \<Rightarrow> None | t # _ \<Rightarrow> Some t)))"

section \<open>The services keep the invariant\<close>

lemma upd_queue_frame [simp]:
  "tcb (upd_queue s ob f) = tcb s" "blk (upd_queue s ob f) = blk s"
  "g_ready_queue (upd_queue s ob f) = g_ready_queue s" "traps (upd_queue s ob f) = traps s"
  "g_tick_list (upd_queue s ob f) = g_tick_list s" "g_tick_count (upd_queue s ob f) = g_tick_count s"
  "mutexes (upd_queue s ob f) = mutexes s" "sems (upd_queue s ob f) = sems s"
  "buf_queues (upd_queue s ob f) = buf_queues s" "event_flags (upd_queue s ob f) = event_flags s"
  "g_kobj_list (upd_queue s ob f) = g_kobj_list s" "g_active_task (upd_queue s ob f) = g_active_task s"
  "g_sched_lock (upd_queue s ob f) = g_sched_lock s"
  "g_intrpt_nested_level (upd_queue s ob f) = g_intrpt_nested_level s"
  "queues (upd_queue s ob f) = (queues s)(ob := f (queues s ob))"
  by (simp_all add: upd_queue_def)

lemma upd_queue_kwf:
  assumes w: "kwf s" and e: "blk_list (blk s ob) = [] \<or> cur_num (msg_q (f (queues s ob))) = 0"
    and q: "obj_type (blk s ob) = RHINO_QUEUE_OBJ_TYPE \<Longrightarrow> queue_ok (f (queues s ob))"
  shows "kwf (upd_queue s ob f)"
proof (rule kwf_object_state [OF w])
  show "waitable (upd_queue s ob f) o'" if "blk_list (blk s o') \<noteq> []" "waitable s o'" for o'
    using that e by (auto simp add: waitable_def split: kobj_type_t.splits)
  show "data_inv (upd_queue s ob f)" using w q by (simp add: kwf_def data_inv_def)
qed simp_all

lemma upd_queue_good:
  "kwf s \<Longrightarrow> act_inv s \<Longrightarrow> blk_list (blk s ob) = [] \<or> cur_num (msg_q (f (queues s ob))) = 0 \<Longrightarrow>
   (obj_type (blk s ob) = RHINO_QUEUE_OBJ_TYPE \<Longrightarrow> queue_ok (f (queues s ob))) \<Longrightarrow> good s (upd_queue s ob f)"
  by (rule good_exit) (simp_all add: upd_queue_kwf)

lemma queue_waiters_empty:
  assumes "kwf s" "obj_type (blk s ob) = RHINO_QUEUE_OBJ_TYPE" "0 < cur_num (msg_q (queues s ob))"
  shows "blk_list (blk s ob) = []"
proof (rule ccontr)
  assume "blk_list (blk s ob) \<noteq> []"
  then have "waitable s ob" using assms(1) by (simp add: kwf_def kinv_def obj_inv_def)
  then show False using assms(2,3) by (simp add: waitable_def)
qed

lemma kwf_queue_ok:
  "kwf s \<Longrightarrow> obj_type (blk s ob) = RHINO_QUEUE_OBJ_TYPE \<Longrightarrow> queue_ok (queues s ob)"
  by (simp add: kwf_def data_inv_def)

text \<open>The memory given to a queue has the size the queue is created with.\<close>

lemma queue_create_good:
  assumes w: "kwf s" "act_inv s" and none: "\<And>ob. queue = Some ob \<Longrightarrow> obj_type (blk s ob) = RHINO_OBJ_TYPE_NONE"
    and mem: "\<And>m. start = Some m \<Longrightarrow> length m = msg_num * 4" and sz: "msg_num * 4 < 2 ^ 32"
  shows "good s (snd (queue_create s queue name start msg_num mf))"
proof (cases "queue = None \<or> start = None \<or> name = None \<or> msg_num = 0")
  case True
  then show ?thesis using good_refl [OF w] by (auto simp: queue_create_def split: option.splits)
next
  case False
  then obtain ob nm m where ob: "queue = Some ob" and nm: "name = Some nm" and m: "start = Some m"
    and n: "0 < msg_num" by auto
  let ?s = "snd (queue_create s queue name start msg_num mf)"
  let ?b = "\<lparr>blk_list = [], obj_name = name, blk_policy = BLK_POLICY_PRI,
                   obj_type = RHINO_QUEUE_OBJ_TYPE, obj_cancel = 1, obj_mm_flag = mf\<rparr>"
  let ?q = "\<lparr>msg_q = \<lparr>q_size = msg_num, cur_num = 0, peak_num = 0\<rparr>,
                   q_ringbuf = ringbuf_init m (msg_num * 4) RINGBUF_TYPE_FIX 4\<rparr>"
  have d: "?s = (upd_queue (upd_blk s ob (\<lambda>_. ?b)) ob (\<lambda>_. ?q))
      \<lparr>g_kobj_list := (g_kobj_list s)\<lparr>l_queue_head := l_queue_head (g_kobj_list s) @ [ob]\<rparr>\<rparr>"
    using nm ob m n sz by (simp add: queue_create_def Let_def)
  have "queue_ok ?q"
    using reset_holds(2) [of "\<lparr>rb_mem = m, rb_end = msg_num * 4, rb_head = 0, rb_tail = 0,
        rb_freesize = 0, rb_type = RINGBUF_TYPE_FIX, rb_blk_size = 4\<rparr>"] n mem [OF m]
    by (auto simp: queue_ok_def ringbuf_init_def ringbuf_reset_def)
  then have "kwf ?s"
    by (intro kwf_fresh_object [OF w(1) none [OF ob], where b = ?b])
      (simp_all add: d waitable_def split: kobj_type_t.splits)
  then show ?thesis by (rule good_exit [OF w(2)]) (simp_all add: d)
qed

lemma queue_del_body_good:
  assumes w: "kwf s" "act_inv s" and ty: "obj_type (blk s ob) = RHINO_QUEUE_OBJ_TYPE"
  defines "s2 \<equiv> wake_all pend_task_rm ob (upd_blk s ob (\<lambda>b. b\<lparr>obj_type := RHINO_OBJ_TYPE_NONE\<rparr>))"
  shows "good s (core_sched (upd_queue (s2\<lparr>g_kobj_list := (g_kobj_list s2)\<lparr>l_queue_head := xs\<rparr>\<rparr>) ob f))"
proof (rule object_del_good [OF w, of ob, folded s2_def])
  have "left_wait BLK_DEL (upd_blk s ob (\<lambda>b. b\<lparr>obj_type := RHINO_OBJ_TYPE_NONE\<rparr>)) (set (blk_list (blk s ob))) s2"
    using object_del_kwf [OF w(1), of ob] ty by (simp add: s2_def)
  from left_wait_obj(2) [OF this, of ob] have "obj_type (blk s2 ob) = RHINO_OBJ_TYPE_NONE" by simp
  then show "kwf (upd_queue (s2\<lparr>g_kobj_list := (g_kobj_list s2)\<lparr>l_queue_head := xs\<rparr>\<rparr>) ob f)"
    if "kwf s2" "blk_list (blk s2 ob) = []"
    by (intro upd_queue_kwf kwf_kobj_list that) (simp_all add: that)
qed (simp_all add: ty)

lemma krhino_queue_del_good: "kwf s \<Longrightarrow> act_inv s \<Longrightarrow> good s (snd (krhino_queue_del s queue))"
  using queue_del_body_good good_refl by (simp add: krhino_queue_del_def Let_def split: option.split)

lemma left_wait_prepared:
  assumes "left_wait bs (upd_task s t f) {t} s'"
    and "\<And>k. task_state (f k) = task_state k" "\<And>k. prio (f k) = prio k" "\<And>k. b_prio (f k) = b_prio k"
      "\<And>k. mutex_list (f k) = mutex_list k" "\<And>k. cancel (f k) = cancel k"
      "\<And>k. suspend_count (f k) = suspend_count k" "\<And>k. task_mm_flag (f k) = task_mm_flag k"
  shows "left_wait bs s {t} s'"
  using assms unfolding left_wait_def blocked_def by simp

lemma task_msg_recv_wakes:
  assumes k: "kinv s" and b: "blocked (tcb s t)"
  shows "kinv (task_msg_recv s t p) \<and> left_wait BLK_FINISH s {t} (task_msg_recv s t p)"
proof -
  let ?s1 = "upd_task s t (\<lambda>k. k\<lparr>msg := p\<rparr>)"
  have k1: "kinv ?s1" by (rule kinv_upd_task_view [OF k]) (simp add: task_view_def)
  have b1: "blocked (tcb ?s1 t)" using b by (simp add: blocked_def)
  have l: "left_wait BLK_FINISH ?s1 {t} (pend_task_wakeup ?s1 t)" and k2: "kinv (pend_task_wakeup ?s1 t)"
    using wakeup.wakes [OF k1 b1] by auto
  have "left_wait BLK_FINISH s {t} (pend_task_wakeup ?s1 t)"
    by (rule left_wait_prepared [OF l]) simp_all
  with k2 show ?thesis by (simp add: task_msg_recv_def)
qed

interpretation msg_recv: waker "\<lambda>s t. task_msg_recv s t p" BLK_FINISH
  by unfold_locales (rule task_msg_recv_wakes)

lemma msg_send_good:
  assumes w: "kwf s" "act_inv s"
  shows "good s (snd (msg_send s queue p all))"
proof (cases queue)
  case None
  then show ?thesis using good_refl [OF w] by (simp add: msg_send_def)
next
  case (Some ob)
  have k: "kinv s" using w by (simp add: kwf_def)
  consider "obj_type (blk s ob) \<noteq> RHINO_QUEUE_OBJ_TYPE \<or> cur_num (msg_q (queues s ob)) \<ge> q_size (msg_q (queues s ob))"
    | "obj_type (blk s ob) = RHINO_QUEUE_OBJ_TYPE" "cur_num (msg_q (queues s ob)) < q_size (msg_q (queues s ob))"
    by fastforce
  then show ?thesis
  proof cases
    case 1
    then show ?thesis using good_refl [OF w] Some by (auto simp: msg_send_def)
  next
    case 2
    show ?thesis
    proof (cases "blk_list (blk s ob)")
      case (Cons t ts)
      have one: "kwf (task_msg_recv s t p)" "left_wait BLK_FINISH s {t} (task_msg_recv s t p)"
        using msg_recv.wake_first [OF k Cons, of p] kwf_left_wait [of "task_msg_recv s t p" BLK_FINISH s "{t}"]
          w(1) list_blocked [OF k, of t ob] Cons by auto
      define s' where "s' = wake_all (\<lambda>s t. task_msg_recv s t p) ob s"
      have l: "left_wait BLK_FINISH s (set (blk_list (blk s ob))) s'" and k': "kinv s'"
        using msg_recv.wake_all_empties [OF k, of p ob] by (simp_all add: s'_def)
      have "kwf s'" using kwf_left_wait [OF k' l _ w(1)] list_blocked [OF k] by auto
      then show ?thesis using Some 2 Cons left_wait_good [OF w one(2,1)] left_wait_good [OF w l]
        by (simp add: msg_send_def s'_def)
    next
      case Nil
      define q where "q = queues s ob"
      define mq where "mq = msg_q q"
      have ok: "queue_ok q" using kwf_queue_ok [OF w(1) 2(1)] by (simp add: q_def)
      then obtain ms where ms: "blk_holds (q_ringbuf q) ms" "length ms = cur_num mq"
        by (auto simp: queue_ok_def mq_def)
      have sz: "rb_blk_size (q_ringbuf q) = 4" "rb_end (q_ringbuf q) = 4 * q_size mq"
        using ok by (simp_all add: queue_ok_def mq_def)
      have lt: "cur_num mq < q_size mq" using 2 by (simp add: q_def mq_def)
      obtain rb where rb: "ringbuf_queue_push (q_ringbuf q) (ptr_bytes p) = Some rb"
        "blk_holds rb (ms @ [ptr_bytes p])" "rb_end rb = 4 * q_size mq" "rb_blk_size rb = 4"
        using queue_push_appends [OF ms(1), of "ptr_bytes p"] sz ms(2) lt by (auto simp: ptr_bytes_def)
      define pk where "pk = (if cur_num mq + 1 > peak_num mq then cur_num mq + 1 else peak_num mq)"
      have "snd (msg_send s queue p all) = upd_queue s ob (\<lambda>q. q\<lparr>
          msg_q := mq\<lparr>cur_num := cur_num mq + 1, peak_num := pk\<rparr>, q_ringbuf := rb\<rparr>)"
        using Some 2 Nil rb(1) by (auto simp: msg_send_def Let_def pk_def q_def mq_def upd_queue_def)
      moreover have "good s (upd_queue s ob (\<lambda>q. q\<lparr>
          msg_q := mq\<lparr>cur_num := cur_num mq + 1, peak_num := pk\<rparr>, q_ringbuf := rb\<rparr>))"
        by (rule upd_queue_good [OF w disjI1 [OF Nil]])
          (use rb ms lt in \<open>auto simp: queue_ok_def intro!: exI [of _ "ms @ [ptr_bytes p]"]\<close>)
      ultimately show ?thesis by simp
    qed
  qed
qed

lemma krhino_queue_recv_good:
  assumes w: "kwf s" "act_inv s" "can_block s"
  shows "good s (snd (snd (krhino_queue_recv s queue ticks nul)))"
proof (cases "queue = None \<or> nul")
  case True
  then show ?thesis using good_refl [OF w(1,2)] by (auto simp: krhino_queue_recv_def split: option.splits)
next
  case False
  then obtain ob where ob: "queue = Some ob" by auto
  have b: "good s (core_sched (pend_to_blk_obj s ob (g_active_task s) ticks))"
    if "\<not> g_sched_lock s > 0" "\<not> (g_intrpt_nested_level s > 0 \<and> ticks \<noteq> RHINO_NO_WAIT)"
      "obj_type (blk s ob) = RHINO_QUEUE_OBJ_TYPE" "\<not> cur_num (msg_q (queues s ob)) > 0" "ticks \<noteq> RHINO_NO_WAIT"
  proof (rule block_good [OF w])
    show "g_sched_lock s = 0" "g_intrpt_nested_level s = 0" using that by (simp_all add: word_gt_0)
    show "waitable s ob" using that(3,4) by (simp add: waitable_def)
    show "ticks \<noteq> 0" using that(5) by (simp add: config_defs)
  qed (simp_all add: that(3))
  have pop: "\<exists>b rb. ringbuf_queue_pop (q_ringbuf (queues s ob)) = Some (b, rb) \<and>
      good s (upd_queue s ob (\<lambda>q. q\<lparr>q_ringbuf := rb, msg_q := (msg_q q)\<lparr>cur_num := cur_num (msg_q q) - 1\<rparr>\<rparr>))"
    if ty: "obj_type (blk s ob) = RHINO_QUEUE_OBJ_TYPE" and n: "cur_num (msg_q (queues s ob)) > 0"
  proof -
    define q where "q = queues s ob"
    have ok: "queue_ok q" using kwf_queue_ok [OF w(1) ty] by (simp add: q_def)
    then obtain ms where ms: "blk_holds (q_ringbuf q) ms" "length ms = cur_num (msg_q q)"
      by (auto simp: queue_ok_def)
    then obtain m ms' where m: "ms = m # ms'" using n by (cases ms) (auto simp: q_def)
    from queue_pop_takes [OF ms(1) [unfolded m]]
    obtain rb where rb: "ringbuf_queue_pop (q_ringbuf q) = Some (m, rb)" "blk_holds rb ms'"
      "rb_end rb = rb_end (q_ringbuf q)" "rb_blk_size rb = rb_blk_size (q_ringbuf q)" by auto
    have "good s (upd_queue s ob (\<lambda>q. q\<lparr>q_ringbuf := rb, msg_q := (msg_q q)\<lparr>cur_num := cur_num (msg_q q) - 1\<rparr>\<rparr>))"
      by (rule upd_queue_good [OF w(1,2) disjI1 [OF queue_waiters_empty [OF w(1) ty n]]])
        (use rb ms(2) m ok in \<open>auto simp: queue_ok_def q_def [symmetric] intro!: exI [of _ ms']\<close>)
    with rb(1) show ?thesis by (simp add: q_def)
  qed
  show ?thesis
  proof (cases "obj_type (blk s ob) = RHINO_QUEUE_OBJ_TYPE \<and> cur_num (msg_q (queues s ob)) > 0")
    case True
    with pop obtain b' rb where "ringbuf_queue_pop (q_ringbuf (queues s ob)) = Some (b', rb)"
      "good s (upd_queue s ob (\<lambda>q. q\<lparr>q_ringbuf := rb, msg_q := (msg_q q)\<lparr>cur_num := cur_num (msg_q q) - 1\<rparr>\<rparr>))"
      by auto
    then show ?thesis using ob False good_refl [OF w(1,2)] True by (simp add: krhino_queue_recv_def)
  next
    case F: False
    then show ?thesis using ob False good_refl [OF w(1,2)] b
      by (auto simp: krhino_queue_recv_def)
  qed
qed

lemma krhino_queue_flush_good:
  assumes w: "kwf s" "act_inv s"
  shows "good s (snd (krhino_queue_flush s queue))"
proof (cases queue)
  case None
  then show ?thesis using good_refl [OF w] by (simp add: krhino_queue_flush_def)
next
  case (Some ob)
  have "good s (upd_queue s ob (\<lambda>q. q\<lparr>msg_q := (msg_q q)\<lparr>cur_num := 0\<rparr>, q_ringbuf := ringbuf_reset (q_ringbuf q)\<rparr>))"
    if ty: "obj_type (blk s ob) = RHINO_QUEUE_OBJ_TYPE"
  proof (rule upd_queue_good [OF w])
    have ok: "queue_ok (queues s ob)" by (rule kwf_queue_ok [OF w(1) ty])
    then obtain ms where ms: "blk_holds (q_ringbuf (queues s ob)) ms" by (auto simp: queue_ok_def)
    have "blk_holds (ringbuf_reset (q_ringbuf (queues s ob))) []"
      by (rule reset_holds(2)) (use ms in \<open>simp_all add: blk_holds_def rb_wf_def\<close>)
    then show "queue_ok ((queues s ob)\<lparr>msg_q := (msg_q (queues s ob))\<lparr>cur_num := 0\<rparr>,
        q_ringbuf := ringbuf_reset (q_ringbuf (queues s ob))\<rparr>)"
      using ok by (auto simp: queue_ok_def ringbuf_reset_def intro!: exI [of _ "[]"])
  qed simp
  then show ?thesis using Some good_refl [OF w] by (simp add: krhino_queue_flush_def)
qed

end
