(* ===== verification/K_BufQueue.thy ===== *)
theory K_BufQueue
  imports K_Wake
begin

text \<open>
  Queues that copy their messages, \<open>k_buf_queue.c\<close>: of variable length (ring buffer of type
  \<open>DYN\<close>) or of one size (type \<open>FIX\<close>). A blocked receiver leaves the address of its buffer in
  \<open>msg\<close>; the sender copies straight into it. \<open>bufs\<close> maps an address to the bytes stored there.
\<close>

section \<open>Operations\<close>

definition upd_bq :: "kernel \<Rightarrow> oid \<Rightarrow> (kbuf_queue_t \<Rightarrow> kbuf_queue_t) \<Rightarrow> kernel" where
  "upd_bq s ob f = s\<lparr>buf_queues := (buf_queues s)(ob := f (buf_queues s ob))\<rparr>"

definition buf_queue_create ::
    "kernel \<Rightarrow> oid option \<Rightarrow> string option \<Rightarrow> u8 list option \<Rightarrow> nat \<Rightarrow> nat \<Rightarrow> u8 \<Rightarrow> nat \<Rightarrow> kstat \<times> kernel" where
  "buf_queue_create s queue name buf sz max_msg mm_alloc_flag type =
     (case queue of None \<Rightarrow> (RHINO_NULL_PTR, s) | Some ob \<Rightarrow>
      (case buf of None \<Rightarrow> (RHINO_NULL_PTR, s) | Some mem \<Rightarrow>
      if name = None then (RHINO_NULL_PTR, s)
      else if max_msg = 0 then (RHINO_INV_PARAM, s)
      else if sz = 0 then (RHINO_BUF_QUEUE_SIZE_ZERO, s)
      else
        let s1 = upd_blk s ob (\<lambda>_. \<lparr>blk_list = [], obj_name = name, blk_policy = BLK_POLICY_PRI,
                   obj_type = RHINO_BUF_QUEUE_OBJ_TYPE, obj_cancel = 1, obj_mm_flag = mm_alloc_flag\<rparr>);
            s2 = s1\<lparr>g_kobj_list := (g_kobj_list s1)\<lparr>l_buf_queue_head := l_buf_queue_head (g_kobj_list s1) @ [ob]\<rparr>\<rparr>;
            rb = ringbuf_init mem sz type max_msg
        in (RHINO_SUCCESS,
            upd_bq s2 ob (\<lambda>_. \<lparr>bq_ringbuf = rb, max_msg_size = max_msg, bq_cur_num = 0,
                               bq_peak_num = 0, min_free_buf_size = rb_freesize rb\<rparr>))))"

definition krhino_buf_queue_create ::
    "kernel \<Rightarrow> oid option \<Rightarrow> string option \<Rightarrow> u8 list option \<Rightarrow> nat \<Rightarrow> nat \<Rightarrow> kstat \<times> kernel" where
  "krhino_buf_queue_create s queue name buf sz max_msg =
     buf_queue_create s queue name buf sz max_msg K_OBJ_STATIC_ALLOC RINGBUF_TYPE_DYN"

definition krhino_fix_buf_queue_create ::
    "kernel \<Rightarrow> oid option \<Rightarrow> string option \<Rightarrow> u8 list option \<Rightarrow> nat \<Rightarrow> nat \<Rightarrow> kstat \<times> kernel" where
  "krhino_fix_buf_queue_create s queue name buf msg_size msg_num =
     buf_queue_create s queue name buf ((msg_size * msg_num) mod 2 ^ 32) msg_size K_OBJ_STATIC_ALLOC
       RINGBUF_TYPE_FIX"

definition krhino_buf_queue_del :: "kernel \<Rightarrow> oid option \<Rightarrow> kstat \<times> kernel" where
  "krhino_buf_queue_del s queue =
     (case queue of None \<Rightarrow> (RHINO_NULL_PTR, s) | Some ob \<Rightarrow>
      if g_intrpt_nested_level s > 0 then (RHINO_NOT_CALLED_BY_INTRPT, s)
      else if obj_type (blk s ob) \<noteq> RHINO_BUF_QUEUE_OBJ_TYPE then (RHINO_KOBJ_TYPE_ERR, s)
      else if obj_mm_flag (blk s ob) \<noteq> K_OBJ_STATIC_ALLOC then (RHINO_KOBJ_DEL_ERR, s)
      else
        let s1 = upd_blk s ob (\<lambda>b. b\<lparr>obj_type := RHINO_OBJ_TYPE_NONE\<rparr>);
            s2 = wake_all pend_task_rm ob s1;
            s3 = s2\<lparr>g_kobj_list := (g_kobj_list s2)\<lparr>l_buf_queue_head := remove1 ob (l_buf_queue_head (g_kobj_list s2))\<rparr>\<rparr>;
            s4 = upd_bq s3 ob (\<lambda>q. q\<lparr>bq_ringbuf := ringbuf_reset (bq_ringbuf q)\<rparr>)
        in (RHINO_SUCCESS, core_sched s4))"

definition buf_queue_send :: "kernel \<Rightarrow> oid \<Rightarrow> u8 list \<Rightarrow> nat \<Rightarrow> kstat \<times> kernel" where
  "buf_queue_send s ob data msg_size =
     (if obj_type (blk s ob) \<noteq> RHINO_BUF_QUEUE_OBJ_TYPE then (RHINO_KOBJ_TYPE_ERR, s)
      else if msg_size > max_msg_size (buf_queues s ob) then (RHINO_BUF_QUEUE_MSG_SIZE_OVERFLOW, s)
      else if msg_size = 0 then (RHINO_INV_PARAM, s)
      else (case blk_list (blk s ob) of
        [] \<Rightarrow>
          (case ringbuf_push (bq_ringbuf (buf_queues s ob)) data msg_size of
             None \<Rightarrow> (RHINO_SUCCESS, add_trap s OutOfBounds)
           | Some (err, rb) \<Rightarrow>
               let s1 = upd_bq s ob (\<lambda>q. q\<lparr>bq_ringbuf := rb\<rparr>) in
               if err \<noteq> RHINO_SUCCESS then
                 (if err = RHINO_RINGBUF_FULL then RHINO_BUF_QUEUE_FULL else err, s1)
               else
                 let s2 = upd_bq s1 ob (\<lambda>q. q\<lparr>bq_cur_num := bq_cur_num q + 1\<rparr>);
                     s3 = (if bq_peak_num (buf_queues s2 ob) < bq_cur_num (buf_queues s2 ob)
                           then upd_bq s2 ob (\<lambda>q. q\<lparr>bq_peak_num := bq_cur_num q\<rparr>) else s2);
                     s4 = (if min_free_buf_size (buf_queues s3 ob) > rb_freesize (bq_ringbuf (buf_queues s3 ob))
                           then upd_bq s3 ob (\<lambda>q. q\<lparr>min_free_buf_size := rb_freesize (bq_ringbuf q)\<rparr>) else s3)
                 in (RHINO_SUCCESS, s4))
      | task # _ \<Rightarrow>
          (case read_at data 0 msg_size of
             None \<Rightarrow> (RHINO_SUCCESS, add_trap s OutOfBounds)
           | Some bs \<Rightarrow>
               let s1 = s\<lparr>bufs := (bufs s)(unat (msg (tcb s task)) := bs)\<rparr>;
                   s2 = upd_task s1 task (\<lambda>k. k\<lparr>bq_msg_size := msg_size\<rparr>)
               in (RHINO_SUCCESS, core_sched (pend_task_wakeup s2 task)))))"

definition krhino_buf_queue_send :: "kernel \<Rightarrow> oid option \<Rightarrow> u8 list option \<Rightarrow> nat \<Rightarrow> kstat \<times> kernel" where
  "krhino_buf_queue_send s queue data sz =
     (case queue of None \<Rightarrow> (RHINO_NULL_PTR, s) | Some ob \<Rightarrow>
      (case data of None \<Rightarrow> (RHINO_NULL_PTR, s) | Some bs \<Rightarrow> buf_queue_send s ob bs sz))"

text \<open>The second component is the value stored through the size pointer, if one is.\<close>

definition krhino_buf_queue_recv ::
    "kernel \<Rightarrow> oid option \<Rightarrow> u64 \<Rightarrow> u32 option \<Rightarrow> bool \<Rightarrow> kstat outcome \<times> nat option \<times> kernel" where
  "krhino_buf_queue_recv s queue ticks msg_addr size_null =
     (case queue of None \<Rightarrow> (Ret RHINO_NULL_PTR, None, s) | Some ob \<Rightarrow>
      (case msg_addr of None \<Rightarrow> (Ret RHINO_NULL_PTR, None, s) | Some a \<Rightarrow>
      if size_null then (Ret RHINO_NULL_PTR, None, s)
      else if task_cancel_chk s ob then (Ret RHINO_TASK_CANCELED, None, s)
      else if g_intrpt_nested_level s > 0 \<and> ticks \<noteq> RHINO_NO_WAIT then
        (Ret RHINO_NOT_CALLED_BY_INTRPT, None, s)
      else if obj_type (blk s ob) \<noteq> RHINO_BUF_QUEUE_OBJ_TYPE then (Ret RHINO_KOBJ_TYPE_ERR, None, s)
      else if bq_cur_num (buf_queues s ob) > 0 then
        (case ringbuf_pop (bq_ringbuf (buf_queues s ob)) of
           None \<Rightarrow> (Ret RHINO_SUCCESS, None, add_trap s OutOfBounds)
         | Some (b, n, rb) \<Rightarrow>
             (Ret RHINO_SUCCESS, Some n,
              upd_bq (s\<lparr>bufs := (bufs s)(unat a := b)\<rparr>) ob
                (\<lambda>q. q\<lparr>bq_ringbuf := rb, bq_cur_num := bq_cur_num q - 1\<rparr>)))
      else if ticks = RHINO_NO_WAIT then (Ret RHINO_NO_PEND_WAIT, Some 0, s)
      else if g_sched_lock s > 0 then (Ret RHINO_SCHED_DISABLE, Some 0, s)
      else
        let s1 = upd_task s (g_active_task s) (\<lambda>k. k\<lparr>msg := a\<rparr>)
        in (Blocked, None, core_sched (pend_to_blk_obj s1 ob (g_active_task s1) ticks))))"

definition krhino_buf_queue_recv_end :: "kernel \<Rightarrow> oid \<Rightarrow> kstat \<times> nat \<times> kernel" where
  "krhino_buf_queue_recv_end s ob =
     (let (ret, s1) = pend_state_end_proc s (g_active_task s) (Some ob)
      in (ret, if ret = RHINO_SUCCESS then bq_msg_size (tcb s1 (g_active_task s1)) else 0, s1))"

definition krhino_buf_queue_flush :: "kernel \<Rightarrow> oid option \<Rightarrow> kstat \<times> kernel" where
  "krhino_buf_queue_flush s queue =
     (case queue of None \<Rightarrow> (RHINO_NULL_PTR, s) | Some ob \<Rightarrow>
      if g_intrpt_nested_level s > 0 then (RHINO_NOT_CALLED_BY_INTRPT, s)
      else if obj_type (blk s ob) \<noteq> RHINO_BUF_QUEUE_OBJ_TYPE then (RHINO_KOBJ_TYPE_ERR, s)
      else (RHINO_SUCCESS,
            upd_bq s ob (\<lambda>q. q\<lparr>bq_ringbuf := ringbuf_reset (bq_ringbuf q), bq_cur_num := 0, bq_peak_num := 0,
                               min_free_buf_size := rb_freesize (ringbuf_reset (bq_ringbuf q))\<rparr>)))"

record kbuf_queue_info_t =
  bqi_buf_size :: nat
  bqi_max_msg_size :: nat
  bqi_cur_num :: nat
  bqi_peak_num :: nat
  bqi_free_buf_size :: nat
  bqi_min_free_buf_size :: nat

definition krhino_buf_queue_info_get ::
    "kernel \<Rightarrow> oid option \<Rightarrow> bool \<Rightarrow> kstat \<times> kbuf_queue_info_t option" where
  "krhino_buf_queue_info_get s queue info_null =
     (case queue of None \<Rightarrow> (RHINO_NULL_PTR, None) | Some ob \<Rightarrow>
      if info_null then (RHINO_NULL_PTR, None)
      else if obj_type (blk s ob) \<noteq> RHINO_BUF_QUEUE_OBJ_TYPE then (RHINO_KOBJ_TYPE_ERR, None)
      else let q = buf_queues s ob in
        (RHINO_SUCCESS, Some \<lparr>bqi_buf_size = rb_end (bq_ringbuf q), bqi_max_msg_size = max_msg_size q,
           bqi_cur_num = bq_cur_num q, bqi_peak_num = bq_peak_num q,
           bqi_free_buf_size = rb_freesize (bq_ringbuf q), bqi_min_free_buf_size = min_free_buf_size q\<rparr>))"

section \<open>The services keep the invariant\<close>

lemma upd_bq_frame [simp]:
  "tcb (upd_bq s ob f) = tcb s" "blk (upd_bq s ob f) = blk s"
  "g_ready_queue (upd_bq s ob f) = g_ready_queue s" "traps (upd_bq s ob f) = traps s"
  "g_tick_list (upd_bq s ob f) = g_tick_list s" "g_tick_count (upd_bq s ob f) = g_tick_count s"
  "mutexes (upd_bq s ob f) = mutexes s" "sems (upd_bq s ob f) = sems s"
  "queues (upd_bq s ob f) = queues s" "event_flags (upd_bq s ob f) = event_flags s"
  "g_kobj_list (upd_bq s ob f) = g_kobj_list s" "g_active_task (upd_bq s ob f) = g_active_task s"
  "g_sched_lock (upd_bq s ob f) = g_sched_lock s"
  "g_intrpt_nested_level (upd_bq s ob f) = g_intrpt_nested_level s"
  "buf_queues (upd_bq s ob f) = (buf_queues s)(ob := f (buf_queues s ob))" "bufs (upd_bq s ob f) = bufs s"
  by (simp_all add: upd_bq_def)

lemma upd_bq_kwf:
  assumes w: "kwf s" and e: "blk_list (blk s ob) = [] \<or> bq_cur_num (f (buf_queues s ob)) = 0"
    and q: "obj_type (blk s ob) = RHINO_BUF_QUEUE_OBJ_TYPE \<Longrightarrow> bufq_ok (f (buf_queues s ob))"
  shows "kwf (upd_bq s ob f)"
proof (rule kwf_object_state [OF w])
  show "waitable (upd_bq s ob f) o'" if "blk_list (blk s o') \<noteq> []" "waitable s o'" for o'
    using that e by (auto simp: waitable_def split: kobj_type_t.splits)
  show "data_inv (upd_bq s ob f)" using w q by (simp add: kwf_def data_inv_def)
qed simp_all

lemma upd_bq_good:
  "kwf s \<Longrightarrow> act_inv s \<Longrightarrow> blk_list (blk s ob) = [] \<or> bq_cur_num (f (buf_queues s ob)) = 0 \<Longrightarrow>
   (obj_type (blk s ob) = RHINO_BUF_QUEUE_OBJ_TYPE \<Longrightarrow> bufq_ok (f (buf_queues s ob))) \<Longrightarrow> good s (upd_bq s ob f)"
  by (rule good_exit) (simp_all add: upd_bq_kwf)

lemma kwf_bufs: "kwf s \<Longrightarrow> kwf (s\<lparr>bufs := b\<rparr>)"
proof (rule kwf_same_view)
  show "waitable (s\<lparr>bufs := b\<rparr>) o'" if "waitable s o'" for o'
    using that waitable_cong [of "s\<lparr>bufs := b\<rparr>" o' s] by simp
qed (simp_all add: same_view_def)

lemma bufq_waiters_empty:
  assumes "kwf s" "obj_type (blk s ob) = RHINO_BUF_QUEUE_OBJ_TYPE" "0 < bq_cur_num (buf_queues s ob)"
  shows "blk_list (blk s ob) = []"
proof (rule ccontr)
  assume "blk_list (blk s ob) \<noteq> []"
  then have "waitable s ob" using assms(1) by (simp add: kwf_def kinv_def obj_inv_def)
  then show False using assms(2,3) by (simp add: waitable_def)
qed

lemma kwf_bufq_ok:
  "kwf s \<Longrightarrow> obj_type (blk s ob) = RHINO_BUF_QUEUE_OBJ_TYPE \<Longrightarrow> bufq_ok (buf_queues s ob)"
  by (simp add: kwf_def data_inv_def)

lemma bufq_reset:
  assumes "bufq_ok q"
  shows "bufq_ok (q\<lparr>bq_ringbuf := ringbuf_reset (bq_ringbuf q), bq_cur_num := 0, bq_peak_num := p,
    min_free_buf_size := m\<rparr>)"
proof -
  obtain ms where "bq_msgs q ms" using assms by (auto simp: bufq_ok_def)
  then have h: "dyn_holds (bq_ringbuf q) ms \<or> fix_holds (bq_ringbuf q) ms \<and> rb_blk_size (bq_ringbuf q) = max_msg_size q"
    by (simp add: bq_msgs_def)
  have "dyn_holds (ringbuf_reset (bq_ringbuf q)) [] \<or>
      fix_holds (ringbuf_reset (bq_ringbuf q)) [] \<and> rb_blk_size (ringbuf_reset (bq_ringbuf q)) = max_msg_size q"
    using h reset_holds [of "bq_ringbuf q"]
    by (auto simp: dyn_holds_def fix_holds_def blk_holds_def rb_wf_def ringbuf_reset_def)
  then show ?thesis by (auto simp: bufq_ok_def bq_msgs_def intro!: exI [of _ "[]"])
qed

text \<open>The memory given to the queue has the size the queue is created with; for blocks, a
  number of whole blocks.\<close>

lemma buf_queue_create_good:
  assumes w: "kwf s" "act_inv s" and none: "\<And>ob. queue = Some ob \<Longrightarrow> obj_type (blk s ob) = RHINO_OBJ_TYPE_NONE"
    and mem: "\<And>m. buf = Some m \<Longrightarrow> length m = sz" and szb: "sz < 2 ^ 32"
    and ty: "type = RINGBUF_TYPE_DYN \<or> type = RINGBUF_TYPE_FIX \<and> max_msg dvd sz"
  shows "good s (snd (buf_queue_create s queue name buf sz max_msg mf type))"
proof (cases "queue = None \<or> buf = None \<or> name = None \<or> max_msg = 0 \<or> sz = 0")
  case True
  then show ?thesis using good_refl [OF w] by (auto simp: buf_queue_create_def split: option.splits)
next
  case False
  then obtain ob nm m where ob: "queue = Some ob" and nm: "name = Some nm" and m: "buf = Some m"
    and n: "0 < max_msg" "0 < sz" by auto
  let ?s = "snd (buf_queue_create s queue name buf sz max_msg mf type)"
  let ?b = "\<lparr>blk_list = [], obj_name = name, blk_policy = BLK_POLICY_PRI,
                   obj_type = RHINO_BUF_QUEUE_OBJ_TYPE, obj_cancel = 1, obj_mm_flag = mf\<rparr>"
  define rb where "rb = ringbuf_init m sz type max_msg"
  let ?q = "\<lparr>bq_ringbuf = rb, max_msg_size = max_msg, bq_cur_num = 0, bq_peak_num = 0,
    min_free_buf_size = rb_freesize rb\<rparr>"
  have d: "?s = upd_bq ((upd_blk s ob (\<lambda>_. ?b))
      \<lparr>g_kobj_list := (g_kobj_list s)\<lparr>l_buf_queue_head := l_buf_queue_head (g_kobj_list s) @ [ob]\<rparr>\<rparr>) ob (\<lambda>_. ?q)"
    using nm ob m n by (simp add: buf_queue_create_def Let_def rb_def)
  define r0 where "r0 = \<lparr>rb_mem = m, rb_end = sz, rb_head = 0, rb_tail = 0, rb_freesize = 0,
    rb_type = type, rb_blk_size = max_msg\<rparr>"
  have r0: "0 < rb_end r0" "length (rb_mem r0) = rb_end r0" "rb = ringbuf_reset r0"
    using n mem [OF m] by (simp_all add: r0_def rb_def ringbuf_init_def)
  have "dyn_holds rb [] \<or> fix_holds rb [] \<and> rb_blk_size rb = max_msg"
    using reset_holds(1,3) [OF r0(1,2)] ty szb n unfolding r0(3)
    by (auto simp: r0_def ringbuf_reset_def)
  then have "bufq_ok ?q" by (auto simp: bufq_ok_def bq_msgs_def intro!: exI [of _ "[]"])
  then have "kwf ?s"
    by (intro kwf_fresh_object [OF w(1) none [OF ob], where b = ?b])
      (simp_all add: d waitable_def split: kobj_type_t.splits)
  then show ?thesis by (rule good_exit [OF w(2)]) (simp_all add: d)
qed

lemma buf_queue_del_body_good:
  assumes w: "kwf s" "act_inv s" and ty: "obj_type (blk s ob) = RHINO_BUF_QUEUE_OBJ_TYPE"
  defines "s2 \<equiv> wake_all pend_task_rm ob (upd_blk s ob (\<lambda>b. b\<lparr>obj_type := RHINO_OBJ_TYPE_NONE\<rparr>))"
  shows "good s (core_sched (upd_bq (s2\<lparr>g_kobj_list := (g_kobj_list s2)\<lparr>l_buf_queue_head := xs\<rparr>\<rparr>) ob f))"
proof (rule object_del_good [OF w, of ob, folded s2_def])
  have "left_wait BLK_DEL (upd_blk s ob (\<lambda>b. b\<lparr>obj_type := RHINO_OBJ_TYPE_NONE\<rparr>)) (set (blk_list (blk s ob))) s2"
    using object_del_kwf [OF w(1), of ob] ty by (simp add: s2_def)
  from left_wait_obj(2) [OF this, of ob] have "obj_type (blk s2 ob) = RHINO_OBJ_TYPE_NONE" by simp
  then show "kwf (upd_bq (s2\<lparr>g_kobj_list := (g_kobj_list s2)\<lparr>l_buf_queue_head := xs\<rparr>\<rparr>) ob f)"
    if "kwf s2" "blk_list (blk s2 ob) = []"
    by (intro upd_bq_kwf kwf_kobj_list that) (simp_all add: that)
qed (simp_all add: ty)

lemma krhino_buf_queue_del_good: "kwf s \<Longrightarrow> act_inv s \<Longrightarrow> good s (snd (krhino_buf_queue_del s queue))"
  using buf_queue_del_body_good good_refl by (simp add: krhino_buf_queue_del_def Let_def split: option.split)

lemma krhino_buf_queue_flush_good:
  assumes w: "kwf s" "act_inv s"
  shows "good s (snd (krhino_buf_queue_flush s queue))"
proof (cases queue)
  case None
  then show ?thesis using good_refl [OF w] by (simp add: krhino_buf_queue_flush_def)
next
  case (Some ob)
  have "good s (upd_bq s ob (\<lambda>q. q\<lparr>bq_ringbuf := ringbuf_reset (bq_ringbuf q), bq_cur_num := 0, bq_peak_num := 0,
      min_free_buf_size := rb_freesize (ringbuf_reset (bq_ringbuf q))\<rparr>))"
    if ty: "obj_type (blk s ob) = RHINO_BUF_QUEUE_OBJ_TYPE"
    by (rule upd_bq_good [OF w]) (simp_all add: bufq_reset kwf_bufq_ok [OF w(1)])
  then show ?thesis using Some good_refl [OF w] by (simp add: krhino_buf_queue_flush_def)
qed

text \<open>Pushing a message into a well-formed queue: it is taken whole, or the queue is full.\<close>

lemma bq_push:
  assumes ms: "bq_msgs q ms" and m: "0 < length m" "length m \<le> max_msg_size q"
    and fx: "rb_type (bq_ringbuf q) = RINGBUF_TYPE_FIX \<Longrightarrow> length m = max_msg_size q"
    and b: "length m < 2 ^ 32 - 4"
  shows "\<exists>rb. ringbuf_push (bq_ringbuf q) m (length m) = Some (RHINO_SUCCESS, rb) \<and>
           bq_msgs (q\<lparr>bq_ringbuf := rb, bq_cur_num := bq_cur_num q + 1, bq_peak_num := p,
             min_free_buf_size := f\<rparr>) (ms @ [m]) \<or>
         ringbuf_push (bq_ringbuf q) m (length m) = Some (RHINO_RINGBUF_FULL, bq_ringbuf q)"
proof -
  let ?r = "bq_ringbuf q"
  from ms consider "dyn_holds ?r ms" | "fix_holds ?r ms" "rb_blk_size ?r = max_msg_size q"
    by (auto simp: bq_msgs_def)
  then show ?thesis
  proof cases
    case 1
    then have ty: "rb_type ?r = RINGBUF_TYPE_DYN" by (simp add: dyn_holds_def)
    show ?thesis
    proof (cases "dyn_fits ?r m")
      case True
      with dyn_push_appends [OF 1 True] ms show ?thesis by (auto simp: bq_msgs_def)
    next
      case False
      then have "ringbuf_push ?r m (length m) = Some (RHINO_RINGBUF_FULL, ?r)"
        using ty m(1) b by (auto simp: dyn_fits_def ringbuf_push_def RINGBUF_TYPE_DYN_def RINGBUF_TYPE_FIX_def
            RING_BUF_LEN_def)
      then show ?thesis by blast
    qed
  next
    case 2
    then have ty: "rb_type ?r = RINGBUF_TYPE_FIX" by (simp add: fix_holds_def)
    show ?thesis
    proof (cases "fix_fits ?r m")
      case True
      with fix_push_appends [OF 2(1) True, of "length m"] ms 2(2) show ?thesis by (auto simp: bq_msgs_def)
    next
      case False
      then have "ringbuf_push ?r m (length m) = Some (RHINO_RINGBUF_FULL, ?r)"
        using ty fx [OF ty] 2(2) by (auto simp: fix_fits_def ringbuf_push_def)
      then show ?thesis by blast
    qed
  qed
qed

lemma buf_queue_send_good:
  assumes w: "kwf s" "act_inv s" and d: "length data = sz" and b: "sz < 2 ^ 32 - 4"
    and fx: "rb_type (bq_ringbuf (buf_queues s ob)) = RINGBUF_TYPE_FIX \<Longrightarrow> sz = max_msg_size (buf_queues s ob)"
  shows "good s (snd (buf_queue_send s ob data sz))"
proof -
  consider "obj_type (blk s ob) \<noteq> RHINO_BUF_QUEUE_OBJ_TYPE \<or> sz > max_msg_size (buf_queues s ob) \<or> sz = 0"
    | "obj_type (blk s ob) = RHINO_BUF_QUEUE_OBJ_TYPE" "sz \<le> max_msg_size (buf_queues s ob)" "0 < sz"
    by fastforce
  then show ?thesis
  proof cases
    case 1
    then show ?thesis using good_refl [OF w] by (auto simp: buf_queue_send_def)
  next
    case 2
    have k: "kinv s" using w by (simp add: kwf_def)
    show ?thesis
    proof (cases "blk_list (blk s ob)")
      case (Cons t ts)
      define s2 where "s2 = upd_task (s\<lparr>bufs := (bufs s)(unat (msg (tcb s t)) := data)\<rparr>) t (\<lambda>k. k\<lparr>bq_msg_size := sz\<rparr>)"
      have bl: "blocked (tcb s t)" using list_blocked [OF k, of t ob] Cons by simp
      have w2: "kwf s2" unfolding s2_def
      proof (rule kwf_same_view [OF w(1)])
        let ?s2 = "upd_task (s\<lparr>bufs := (bufs s)(unat (msg (tcb s t)) := data)\<rparr>) t (\<lambda>k. k\<lparr>bq_msg_size := sz\<rparr>)"
        show "waitable ?s2 o'" if "waitable s o'" for o'
          using that waitable_cong [of ?s2 o' s] by simp
      qed (simp_all add: same_view_def task_view_def)
      then have k2: "kinv s2" by (simp add: kwf_def)
      have "blk_list (blk s2 ob) = t # ts" using Cons by (simp add: s2_def)
      from wake_one_kwf [OF w2 this]
      have r: "kwf (pend_task_wakeup s2 t)" "left_wait BLK_FINISH s2 {t} (pend_task_wakeup s2 t)" by auto
      have fr: "traps (pend_task_wakeup s2 t) = traps s" "g_active_task (pend_task_wakeup s2 t) = g_active_task s"
        unfolding left_wait_rest [OF r(2)] by (simp_all add: s2_def)
      have "good s (core_sched (pend_task_wakeup s2 t))"
      proof (rule good_sched [OF w(2) r(1)])
        have "runnable (tcb s2 u) = runnable (tcb s u)" for u by (simp add: s2_def runnable_def)
        then show "(runnable (tcb s (g_active_task s)) \<longrightarrow>
            task_state (tcb (pend_task_wakeup s2 t) (g_active_task s)) = task_state (tcb s (g_active_task s))) \<and>
            g_intrpt_nested_level (pend_task_wakeup s2 t) = g_intrpt_nested_level s \<and>
            g_sched_lock (pend_task_wakeup s2 t) = g_sched_lock s \<or>
            g_sched_lock (pend_task_wakeup s2 t) = 0 \<and> g_intrpt_nested_level (pend_task_wakeup s2 t) = 0"
          using left_wait_runnable [OF r(2), of "g_active_task s"] left_wait_rest(11,12) [OF r(2)]
          by (simp add: s2_def)
      qed (simp_all add: fr)
      then show ?thesis using 2 Cons d
        by (simp add: buf_queue_send_def Let_def read_at_def s2_def)
    next
      case Nil
      define q where "q = buf_queues s ob"
      obtain ms where ms: "bq_msgs q ms" using kwf_bufq_ok [OF w(1) 2(1)] by (auto simp: bufq_ok_def q_def)
      have m: "0 < length data" "length data \<le> max_msg_size q" "length data < 2 ^ 32 - 4"
        "rb_type (bq_ringbuf q) = RINGBUF_TYPE_FIX \<Longrightarrow> length data = max_msg_size q"
        using 2 d b fx by (simp_all add: q_def)
      note p = bq_push [OF ms m(1,2,4,3)]
      consider rb where "ringbuf_push (bq_ringbuf q) data sz = Some (RHINO_SUCCESS, rb)"
          "\<And>p f. bufq_ok (q\<lparr>bq_ringbuf := rb, bq_cur_num := bq_cur_num q + 1, bq_peak_num := p, min_free_buf_size := f\<rparr>)"
        | "ringbuf_push (bq_ringbuf q) data sz = Some (RHINO_RINGBUF_FULL, bq_ringbuf q)"
      proof (cases "ringbuf_push (bq_ringbuf q) data sz = Some (RHINO_RINGBUF_FULL, bq_ringbuf q)")
        case False
        then obtain rb where rb: "ringbuf_push (bq_ringbuf q) data sz = Some (RHINO_SUCCESS, rb)"
          using p d by auto
        have "bufq_ok (q\<lparr>bq_ringbuf := rb, bq_cur_num := bq_cur_num q + 1, bq_peak_num := p', min_free_buf_size := f'\<rparr>)"
          for p' f' using p [of f' p'] d rb by (auto simp: bufq_ok_def)
        with rb show thesis by (rule that(1))
      qed (rule that(2))
      then show ?thesis
      proof cases
        case 1
        define pk where "pk = (if bq_peak_num q < bq_cur_num q + 1 then bq_cur_num q + 1 else bq_peak_num q)"
        define mf where "mf = (if min_free_buf_size q > rb_freesize rb then rb_freesize rb else min_free_buf_size q)"
        have "snd (buf_queue_send s ob data sz) = upd_bq s ob (\<lambda>_. q\<lparr>bq_ringbuf := rb,
            bq_cur_num := bq_cur_num q + 1, bq_peak_num := pk, min_free_buf_size := mf\<rparr>)"
          using 2 Nil 1(1) by (auto simp: buf_queue_send_def Let_def pk_def mf_def q_def upd_bq_def)
        moreover have "good s (upd_bq s ob (\<lambda>_. q\<lparr>bq_ringbuf := rb, bq_cur_num := bq_cur_num q + 1,
            bq_peak_num := pk, min_free_buf_size := mf\<rparr>))"
          by (rule upd_bq_good [OF w disjI1 [OF Nil]]) (rule 1(2))
        ultimately show ?thesis by simp
      next
        case F: 2
        have "snd (buf_queue_send s ob data sz) = upd_bq s ob (\<lambda>q. q\<lparr>bq_ringbuf := bq_ringbuf q\<rparr>)"
          using 2 Nil F by (simp add: buf_queue_send_def Let_def q_def upd_bq_def)
        also have "\<dots> = s" by (simp add: upd_bq_def)
        finally show ?thesis using good_refl [OF w] by simp
      qed
    qed
  qed
qed

lemma bq_pop:
  assumes "bq_msgs q (m # ms)"
  shows "\<exists>rb. ringbuf_pop (bq_ringbuf q) = Some (m, length m, rb) \<and>
     bq_msgs (q\<lparr>bq_ringbuf := rb, bq_cur_num := bq_cur_num q - 1\<rparr>) ms"
proof -
  from assms consider "dyn_holds (bq_ringbuf q) (m # ms)"
    | "fix_holds (bq_ringbuf q) (m # ms)" "rb_blk_size (bq_ringbuf q) = max_msg_size q"
    by (auto simp: bq_msgs_def)
  then show ?thesis
  proof cases
    case 1
    from dyn_pop_takes [OF this] assms show ?thesis by (auto simp: bq_msgs_def)
  next
    case 2
    have "length m = rb_blk_size (bq_ringbuf q)" using 2(1) by (simp add: fix_holds_def blk_holds_def)
    with fix_pop_takes [OF 2(1)] 2(2) assms show ?thesis by (auto simp: bq_msgs_def)
  qed
qed

lemma krhino_buf_queue_recv_good:
  assumes w: "kwf s" "act_inv s" "can_block s"
  shows "good s (snd (snd (krhino_buf_queue_recv s queue ticks addr nul)))"
proof (cases "queue = None \<or> addr = None \<or> nul")
  case True
  then show ?thesis using good_refl [OF w(1,2)] by (auto simp: krhino_buf_queue_recv_def split: option.splits)
next
  case False
  then obtain ob a where ob: "queue = Some ob" and a: "addr = Some a" by auto
  let ?s1 = "upd_task s (g_active_task s) (\<lambda>k. k\<lparr>msg := a\<rparr>)"
  have w1: "kwf ?s1"
  proof (rule kwf_same_view [OF w(1)])
    show "waitable ?s1 o'" if "waitable s o'" for o' using that waitable_cong [of ?s1 o' s] by simp
  qed (simp_all add: same_view_def task_view_def)
  have a1: "act_inv ?s1" and c1: "can_block ?s1" using w by (simp_all add: act_inv_def runnable_def can_block_def)
  have b: "good s (core_sched (pend_to_blk_obj ?s1 ob (g_active_task s) ticks))"
    if "\<not> g_sched_lock s > 0" "\<not> (g_intrpt_nested_level s > 0 \<and> ticks \<noteq> RHINO_NO_WAIT)"
      "obj_type (blk s ob) = RHINO_BUF_QUEUE_OBJ_TYPE" "\<not> bq_cur_num (buf_queues s ob) > 0" "ticks \<noteq> RHINO_NO_WAIT"
  proof -
    have g: "good ?s1 (core_sched (pend_to_blk_obj ?s1 ob (g_active_task ?s1) ticks))"
      by (rule block_good [OF w1 a1 c1])
        (use that in \<open>simp_all add: waitable_def word_gt_0 config_defs\<close>)
    have "blocked (tcb ?s1 u) = blocked (tcb s u)" "blk_obj (tcb ?s1 u) = blk_obj (tcb s u)" for u
      by (auto simp: blocked_def)
    then have "waits_for ?s1 = waits_for s" unfolding waits_for_def by simp
    moreover have "task_list_inv ?s1" using w1 by (simp add: kwf_def)
    ultimately show ?thesis using g task_list_all_listed [of ?s1] by (simp add: good_def traps_ok_def)
  qed
  have pop: "\<exists>b n rb. ringbuf_pop (bq_ringbuf (buf_queues s ob)) = Some (b, n, rb) \<and>
      (\<forall>x. good s (upd_bq (s\<lparr>bufs := x\<rparr>) ob (\<lambda>q. q\<lparr>bq_ringbuf := rb, bq_cur_num := bq_cur_num q - 1\<rparr>)))"
    if ty: "obj_type (blk s ob) = RHINO_BUF_QUEUE_OBJ_TYPE" and n: "bq_cur_num (buf_queues s ob) > 0"
  proof -
    obtain ms where ms: "bq_msgs (buf_queues s ob) ms" using kwf_bufq_ok [OF w(1) ty] by (auto simp: bufq_ok_def)
    then obtain m ms' where m: "ms = m # ms'" using n by (cases ms) (auto simp: bq_msgs_def)
    from bq_pop [OF ms [unfolded m]] obtain rb where
      rb: "ringbuf_pop (bq_ringbuf (buf_queues s ob)) = Some (m, length m, rb)"
      "bufq_ok ((buf_queues s ob)\<lparr>bq_ringbuf := rb, bq_cur_num := bq_cur_num (buf_queues s ob) - 1\<rparr>)"
      by (auto simp: bufq_ok_def)
    have "good s (upd_bq (s\<lparr>bufs := x\<rparr>) ob (\<lambda>q. q\<lparr>bq_ringbuf := rb, bq_cur_num := bq_cur_num q - 1\<rparr>))" for x
    proof (rule good_exit [OF w(2) upd_bq_kwf [OF kwf_bufs [OF w(1)]]])
      show "blk_list (blk (s\<lparr>bufs := x\<rparr>) ob) = [] \<or>
        bq_cur_num ((buf_queues (s\<lparr>bufs := x\<rparr>) ob)\<lparr>bq_ringbuf := rb,
          bq_cur_num := bq_cur_num (buf_queues (s\<lparr>bufs := x\<rparr>) ob) - 1\<rparr>) = 0"
        using bufq_waiters_empty [OF w(1) ty n] by simp
    qed (use rb(2) in simp_all)
    with rb(1) show ?thesis by blast
  qed
  show ?thesis
  proof (cases "obj_type (blk s ob) = RHINO_BUF_QUEUE_OBJ_TYPE \<and> bq_cur_num (buf_queues s ob) > 0")
    case True
    with pop obtain b' n rb where "ringbuf_pop (bq_ringbuf (buf_queues s ob)) = Some (b', n, rb)"
      "\<And>x. good s (upd_bq (s\<lparr>bufs := x\<rparr>) ob (\<lambda>q. q\<lparr>bq_ringbuf := rb, bq_cur_num := bq_cur_num q - 1\<rparr>))"
      by auto
    then show ?thesis using ob a False good_refl [OF w(1,2)] True by (simp add: krhino_buf_queue_recv_def)
  next
    case F: False
    then show ?thesis using ob a False good_refl [OF w(1,2)] b
      by (auto simp: krhino_buf_queue_recv_def Let_def)
  qed
qed

end
