(* ===== verification/K_TaskSem.thy ===== *)
theory K_TaskSem
  imports K_Sem Task_Inv
begin

text \<open>
  The task semaphores of \<open>k_task_sem.c\<close>: a semaphore attached to a task. Every operation but the
  creation is the semaphore operation on the object the task names.
\<close>

definition krhino_task_sem_create ::
    "kernel \<Rightarrow> tid option \<Rightarrow> oid option \<Rightarrow> string option \<Rightarrow> u32 \<Rightarrow> kstat \<times> kernel" where
  "krhino_task_sem_create s task sem name cnt =
     (case task of None \<Rightarrow> (RHINO_NULL_PTR, s) | Some t \<Rightarrow>
      let (ret, s1) = krhino_sem_create s sem name cnt
      in (ret, upd_task s1 t (\<lambda>k. k\<lparr>task_sem_obj := (if ret = RHINO_SUCCESS then sem else None)\<rparr>)))"

definition krhino_task_sem_del :: "kernel \<Rightarrow> tid option \<Rightarrow> kstat \<times> kernel" where
  "krhino_task_sem_del s task =
     (case task of None \<Rightarrow> (RHINO_NULL_PTR, s) | Some t \<Rightarrow> krhino_sem_del s (task_sem_obj (tcb s t)))"

definition krhino_task_sem_give :: "kernel \<Rightarrow> tid option \<Rightarrow> kstat \<times> kernel" where
  "krhino_task_sem_give s task =
     (case task of None \<Rightarrow> (RHINO_NULL_PTR, s) | Some t \<Rightarrow> krhino_sem_give s (task_sem_obj (tcb s t)))"

definition krhino_task_sem_take :: "kernel \<Rightarrow> u64 \<Rightarrow> kstat outcome \<times> kernel" where
  "krhino_task_sem_take s ticks = krhino_sem_take s (task_sem_obj (tcb s (krhino_cur_task_get s))) ticks"

definition krhino_task_sem_count_set :: "kernel \<Rightarrow> tid option \<Rightarrow> u32 \<Rightarrow> kstat \<times> kernel" where
  "krhino_task_sem_count_set s task cnt =
     (case task of None \<Rightarrow> (RHINO_NULL_PTR, s) | Some t \<Rightarrow> krhino_sem_count_set s (task_sem_obj (tcb s t)) cnt)"

definition krhino_task_sem_count_get :: "kernel \<Rightarrow> tid option \<Rightarrow> bool \<Rightarrow> kstat \<times> u32 option" where
  "krhino_task_sem_count_get s task cnt_null =
     (case task of None \<Rightarrow> (RHINO_NULL_PTR, None)
      | Some t \<Rightarrow> krhino_sem_count_get s (task_sem_obj (tcb s t)) cnt_null)"

section \<open>The invariant is kept\<close>

lemma krhino_task_sem_create_good:
  assumes w: "kwf s" "act_inv s" and none: "\<And>ob. sem = Some ob \<Longrightarrow> obj_type (blk s ob) = RHINO_OBJ_TYPE_NONE"
  shows "good s (snd (krhino_task_sem_create s task sem name cnt))"
proof (cases task)
  case None
  then show ?thesis using good_refl [OF w] by (simp add: krhino_task_sem_create_def)
next
  case (Some t)
  obtain ret s1 where e: "krhino_sem_create s sem name cnt = (ret, s1)" by force
  have g: "good s s1" using krhino_sem_create_good [OF w none] by (metis e snd_conv)
  then have "good s1 (upd_task s1 t (\<lambda>k. k\<lparr>task_sem_obj := x\<rparr>))" for x
    by (intro attribute_good) (simp_all add: good_def task_view_def)
  moreover have "good s s2" if "good s1 s2" "traps s2 = traps s1" for s2
    using g that by (simp add: good_def traps_ok_def)
  ultimately show ?thesis using Some e by (simp add: krhino_task_sem_create_def)
qed

lemma krhino_task_sem_good:
  assumes w: "kwf s" "act_inv s"
  shows "good s (snd (krhino_task_sem_del s task))" "good s (snd (krhino_task_sem_give s task))"
    "good s (snd (krhino_task_sem_count_set s task cnt))"
    "can_block s \<Longrightarrow> good s (snd (krhino_task_sem_take s ticks))"
  using good_refl [OF w] krhino_sem_del_good [OF w] krhino_sem_give_good [OF w] krhino_sem_count_set_good [OF w]
    krhino_sem_take_good [OF w]
  by (auto simp: krhino_task_sem_del_def krhino_task_sem_give_def krhino_task_sem_count_set_def
      krhino_task_sem_take_def split: option.splits)

end
