(* ===== verification/Kernel_Steps.thy ===== *)
theory Kernel_Steps
  imports K_Sys K_Mutex K_Sem K_Event K_Queue K_BufQueue K_TaskSem
begin

text \<open>
  The kernel as a state machine: one step is a call of any service, by the running task or by
  an interrupt handler, or a tick. The premises are what the callers owe the services: memory
  given to a create function is not in use as an object and has the size it is said to have,
  the idle task does not block, a task that is deleted exists, the tick is an interrupt. Everything else (null pointers,
  wrong types, wrong context, sizes out of range) the services check themselves.
\<close>

definition unused :: "kernel \<Rightarrow> oid option \<Rightarrow> bool" where
  "unused s ob \<longleftrightarrow> (\<forall>o'. ob = Some o' \<longrightarrow> obj_type (blk s o') = RHINO_OBJ_TYPE_NONE)"

definition buffer_of :: "u8 list option \<Rightarrow> nat \<Rightarrow> bool" where
  "buffer_of buf n \<longleftrightarrow> n < 2 ^ 32 \<and> (\<forall>m. buf = Some m \<longrightarrow> length m = n)"

definition new_task :: "kernel \<Rightarrow> tid option \<Rightarrow> u32 option \<Rightarrow> u32 \<Rightarrow> bool" where
  "new_task s task buf sz \<longleftrightarrow> (\<forall>t. task = Some t \<longrightarrow> \<not> live (tcb s t)) \<and>
     (\<forall>base. buf = Some base \<longrightarrow> stack_fits base sz)"

text \<open>The message and its length; into a queue of blocks every message is a whole block.\<close>

definition sendable :: "kernel \<Rightarrow> oid option \<Rightarrow> u8 list option \<Rightarrow> nat \<Rightarrow> bool" where
  "sendable s queue data sz \<longleftrightarrow> sz < 2 ^ 32 - 4 \<and> (\<forall>bs. data = Some bs \<longrightarrow> length bs = sz) \<and>
     (\<forall>ob. queue = Some ob \<longrightarrow> rb_type (bq_ringbuf (buf_queues s ob)) = RINGBUF_TYPE_FIX \<longrightarrow>
        sz = max_msg_size (buf_queues s ob))"

section \<open>Steps\<close>

inductive kernel_step :: "kernel \<Rightarrow> kernel \<Rightarrow> bool" where
  task_create: "new_task s task buf sz \<Longrightarrow> pri = RHINO_IDLE_PRI \<longrightarrow> autorun > 0 \<Longrightarrow>
    kernel_step s (snd (krhino_task_create deathbed s task name arg pri ticks buf sz entry autorun))"
| task_del: "\<forall>t. task = Some t \<longrightarrow> live (tcb s t) \<Longrightarrow> kernel_step s (snd (krhino_task_del s task))"
| task_sleep: "can_block s \<Longrightarrow> kernel_step s (snd (krhino_task_sleep s ticks))"
| task_yield: "task_state (tcb s (g_active_task s)) = K_RDY \<Longrightarrow> kernel_step s (snd (krhino_task_yield s))"
| task_suspend: "kernel_step s (snd (krhino_task_suspend s task))"
| task_resume: "kernel_step s (snd (krhino_task_resume s task))"
| task_pri_change: "\<forall>t. task = Some t \<longrightarrow> task_state (tcb s t) \<noteq> K_SEED \<Longrightarrow>
    kernel_step s (snd (snd (krhino_task_pri_change s task pri old_null)))"
| task_wait_abort: "kernel_step s (snd (krhino_task_wait_abort s task))"
| task_cancel: "kernel_step s (snd (krhino_task_cancel s task))"
| task_time_slice_set: "kernel_step s (snd (krhino_task_time_slice_set s task n))"
| sched_policy_set: "kernel_step s (snd (krhino_sched_policy_set s task policy))"
| task_info_set: "kernel_step s (snd (krhino_task_info_set s task idx info))"
| sem_create: "unused s sem \<Longrightarrow> kernel_step s (snd (krhino_sem_create s sem name cnt))"
| sem_del: "kernel_step s (snd (krhino_sem_del s sem))"
| sem_give: "kernel_step s (snd (krhino_sem_give s sem))"
| sem_give_all: "kernel_step s (snd (krhino_sem_give_all s sem))"
| sem_take: "can_block s \<Longrightarrow> kernel_step s (snd (krhino_sem_take s sem ticks))"
| sem_count_set: "kernel_step s (snd (krhino_sem_count_set s sem cnt))"
| task_sem_create: "unused s sem \<Longrightarrow> kernel_step s (snd (krhino_task_sem_create s task sem name cnt))"
| task_sem_del: "kernel_step s (snd (krhino_task_sem_del s task))"
| task_sem_give: "kernel_step s (snd (krhino_task_sem_give s task))"
| task_sem_take: "can_block s \<Longrightarrow> kernel_step s (snd (krhino_task_sem_take s ticks))"
| task_sem_count_set: "kernel_step s (snd (krhino_task_sem_count_set s task cnt))"
| mutex_create: "unused s mutex \<Longrightarrow> kernel_step s (snd (krhino_mutex_create s mutex name))"
| mutex_del: "kernel_step s (snd (krhino_mutex_del s mutex))"
| mutex_lock: "can_block s \<Longrightarrow> fst (krhino_mutex_lock s mutex ticks) \<noteq> Ret RHINO_MUTEX_NESTED_OVF \<Longrightarrow>
    kernel_step s (snd (krhino_mutex_lock s mutex ticks))"
| mutex_unlock: "kernel_step s (snd (krhino_mutex_unlock s mutex))"
| event_create: "unused s event \<Longrightarrow> kernel_step s (snd (krhino_event_create s event name flags))"
| event_del: "kernel_step s (snd (krhino_event_del s event))"
| event_get: "can_block s \<Longrightarrow> kernel_step s (snd (krhino_event_get s event flags opt actl ticks))"
| event_set: "kernel_step s (snd (krhino_event_set s event flags opt))"
| queue_create: "unused s queue \<Longrightarrow> buffer_of start (msg_num * 4) \<Longrightarrow>
    kernel_step s (snd (krhino_queue_create s queue name start msg_num))"
| queue_del: "kernel_step s (snd (krhino_queue_del s queue))"
| queue_back_send: "kernel_step s (snd (krhino_queue_back_send s queue m))"
| queue_all_send: "kernel_step s (snd (krhino_queue_all_send s queue m))"
| queue_recv: "can_block s \<Longrightarrow> kernel_step s (snd (snd (krhino_queue_recv s queue ticks null)))"
| queue_flush: "kernel_step s (snd (krhino_queue_flush s queue))"
| buf_queue_create: "unused s queue \<Longrightarrow> buffer_of buf sz \<Longrightarrow>
    kernel_step s (snd (krhino_buf_queue_create s queue name buf sz max_msg))"
| fix_buf_queue_create: "unused s queue \<Longrightarrow> buffer_of buf (msg_size * msg_num) \<Longrightarrow>
    kernel_step s (snd (krhino_fix_buf_queue_create s queue name buf msg_size msg_num))"
| buf_queue_del: "kernel_step s (snd (krhino_buf_queue_del s queue))"
| buf_queue_send: "sendable s queue data sz \<Longrightarrow> kernel_step s (snd (krhino_buf_queue_send s queue data sz))"
| buf_queue_recv: "can_block s \<Longrightarrow> kernel_step s (snd (snd (krhino_buf_queue_recv s queue ticks addr null)))"
| buf_queue_flush: "kernel_step s (snd (krhino_buf_queue_flush s queue))"
| sched_disable: "kernel_step s (snd (krhino_sched_disable s))"
| sched_enable: "kernel_step s (snd (krhino_sched_enable s))"
| intrpt_enter: "g_intrpt_nested_level s \<noteq> - 1 \<Longrightarrow> kernel_step s (snd (krhino_intrpt_enter s))"
| intrpt_exit: "kernel_step s (krhino_intrpt_exit s)"
| tick: "g_intrpt_nested_level s > 0 \<Longrightarrow> kernel_step s (krhino_tick_proc s)"

section \<open>Every step keeps the invariant\<close>

lemma create_good:
  assumes w: "kwf s" "act_inv s"
  shows "unused s o1 \<Longrightarrow> good s (snd (krhino_sem_create s o1 name cnt))"
    "unused s o1 \<Longrightarrow> good s (snd (krhino_task_sem_create s task o1 name cnt))"
    "unused s o1 \<Longrightarrow> good s (snd (krhino_mutex_create s o1 name))"
    "unused s o1 \<Longrightarrow> good s (snd (krhino_event_create s o1 name flags))"
    "unused s o1 \<Longrightarrow> buffer_of buf (n * 4) \<Longrightarrow> good s (snd (krhino_queue_create s o1 name buf n))"
    "unused s o1 \<Longrightarrow> buffer_of buf sz \<Longrightarrow> good s (snd (krhino_buf_queue_create s o1 name buf sz max_msg))"
    "unused s o1 \<Longrightarrow> buffer_of buf (sz * n) \<Longrightarrow> good s (snd (krhino_fix_buf_queue_create s o1 name buf sz n))"
  unfolding krhino_mutex_create_def krhino_event_create_def krhino_queue_create_def
    krhino_buf_queue_create_def krhino_fix_buf_queue_create_def unused_def buffer_of_def
  by (auto intro!: krhino_sem_create_good krhino_task_sem_create_good mutex_create_good event_create_good
      queue_create_good buf_queue_create_good w)

lemma task_create_step_good:
  assumes "kwf s" "act_inv s" "new_task s task buf sz" "pri = RHINO_IDLE_PRI \<longrightarrow> autorun > 0"
  shows "good s (snd (krhino_task_create deathbed s task name arg pri ticks buf sz entry autorun))"
  unfolding krhino_task_create_def
  by (rule task_create_good [OF assms(1,2)]) (use assms(3,4) in \<open>auto simp: new_task_def\<close>)

lemma send_good:
  assumes w: "kwf s" "act_inv s"
  shows "good s (snd (krhino_queue_back_send s queue m))" "good s (snd (krhino_queue_all_send s queue m))"
    "sendable s bq data sz \<Longrightarrow> good s (snd (krhino_buf_queue_send s bq data sz))"
  using msg_send_good [OF w] good_refl [OF w] buf_queue_send_good [OF w]
  by (auto simp: krhino_queue_back_send_def krhino_queue_all_send_def krhino_buf_queue_send_def sendable_def
      split: option.splits)

lemmas service_good = create_good task_create_step_good send_good krhino_task_del_good krhino_task_sleep_good
  krhino_task_yield_good krhino_task_suspend_good krhino_task_pri_change_good
  krhino_task_wait_abort_good krhino_task_cancel_good krhino_task_attributes_good krhino_sem_del_good
  krhino_sem_give_good [THEN conjunct1] krhino_sem_give_good [THEN conjunct2] krhino_sem_take_good
  krhino_sem_count_set_good krhino_task_sem_good krhino_mutex_del_good krhino_mutex_lock_good
  krhino_mutex_unlock_good krhino_event_del_good krhino_event_get_good krhino_event_set_good
  krhino_queue_del_good krhino_queue_recv_good krhino_queue_flush_good krhino_buf_queue_del_good
  krhino_buf_queue_recv_good krhino_buf_queue_flush_good krhino_sched_disable_good
  krhino_sched_enable_good krhino_intrpt_enter_good krhino_intrpt_exit_good krhino_tick_proc_good

lemma resume_good: "kwf s \<Longrightarrow> act_inv s \<Longrightarrow> good s (snd (krhino_task_resume s task))"
  using task_resume_good good_refl by (simp add: krhino_task_resume_def split: option.split)

lemma kernel_step_good:
  assumes "kernel_step s s'" and w: "kwf s" "act_inv s"
  shows "good s s'"
  using assms(1) by cases (auto intro!: service_good resume_good w)

section \<open>Runs\<close>

text \<open>\<open>runs s s'\<close>: some sequence of steps leads from \<open>s\<close> to \<open>s'\<close>. \<open>free_runs\<close> are the runs in which
  no tasks wait for each other in a circle.\<close>

inductive runs :: "kernel \<Rightarrow> kernel \<Rightarrow> bool" where
  runs_start: "runs s s"
| runs_step: "runs s s1 \<Longrightarrow> kernel_step s1 s2 \<Longrightarrow> runs s s2"

inductive free_runs :: "kernel \<Rightarrow> kernel \<Rightarrow> bool" where
  free_start: "free_runs s s"
| free_step: "free_runs s s1 \<Longrightarrow> acyclic (waits_for s1) \<Longrightarrow> kernel_step s1 s2 \<Longrightarrow> free_runs s s2"

lemma free_runs_runs: "free_runs s s' \<Longrightarrow> runs s s'"
  by (induction rule: free_runs.induct) (auto intro: runs.intros)

lemma runs_good:
  assumes "runs s s'" "kwf s" "act_inv s"
  shows "kwf s' \<and> act_inv s' \<and> (\<exists>n. traps s' = traps s @ replicate n Diverged)"
  using assms
proof (induction rule: runs.induct)
  case (runs_start s)
  then show ?case by (auto intro: exI [of _ 0])
next
  case (runs_step s s1 s2)
  then obtain m where m: "kwf s1" "act_inv s1" "traps s1 = traps s @ replicate m Diverged" by auto
  from kernel_step_good [OF runs_step(2) m(1,2)] obtain n where
    n: "kwf s2" "act_inv s2" "traps s2 = traps s1 @ replicate n Diverged" by (auto simp: good_def traps_ok_def)
  then have "traps s2 = traps s @ replicate (m + n) Diverged" using m(3) by (simp add: replicate_add)
  with n(1,2) show ?case by blast
qed

lemma free_runs_no_traps:
  assumes "free_runs s s'" "kwf s" "act_inv s"
  shows "traps s' = traps s"
  using assms
proof (induction rule: free_runs.induct)
  case (free_step s s1 s2)
  from runs_good [OF free_runs_runs [OF free_step(1)] free_step(5,6)] have w: "kwf s1" "act_inv s1" by auto
  then have "all_listed s1" using task_list_all_listed by (simp add: kwf_def)
  with kernel_step_good [OF free_step(3) w] free_step show ?case by (simp add: good_def traps_ok_def)
qed simp

end
