(* ===== verification/K_Timer.thy ===== *)
theory K_Timer
  imports K_BufQueue K_Time
begin

text \<open>
  Software timers, \<open>k_timer.c\<close>. Callers send commands through the buffer queue
  \<open>g_timer_queue\<close> (messages are the bytes of a \<open>k_timer_queue_cb\<close>); the timer task receives
  them, keeps the list of running timers and calls the callbacks. The state is the kernel's
  with the timers beside it, and is extensible, since theory \<open>K_Workqueue\<close> adds to it. Code the
  kernel does not contain is an argument: the callbacks, and what is left on the stack where a
  command is built. The difference of two 64-bit times is read as signed where the source
  casts it.
\<close>

section \<open>State\<close>

datatype k_timer_state_t = TIMER_DEACTIVE | TIMER_ACTIVE

record ktimer =
  to_head :: bool
  tm_name :: "string option"
  tm_cb :: u32
  timer_cb_arg :: u32
  tm_match :: u64
  tm_remain :: u64
  init_count :: u64
  round_ticks :: u64
  tm_priv :: u32
  tm_obj_type :: kobj_type_t
  timer_state :: k_timer_state_t
  tm_mm_flag :: u8

record tsys =
  krn :: kernel
  timers :: "u32 \<Rightarrow> ktimer"
  g_timer_head :: "u32 list"
  g_timer_count :: u64

text \<open>The address of the queue (the linker chooses it).\<close>

definition g_timer_queue :: oid where "g_timer_queue = 2"

definition upd_timer :: "'a tsys_scheme \<Rightarrow> u32 \<Rightarrow> (ktimer \<Rightarrow> ktimer) \<Rightarrow> 'a tsys_scheme" where
  "upd_timer s t f = s\<lparr>timers := (timers s)(t := f (timers s t))\<rparr>"

section \<open>Commands\<close>

definition TIMER_CMD_START :: u8 where "TIMER_CMD_START = 1"
definition TIMER_CMD_STOP :: u8 where "TIMER_CMD_STOP = 2"
definition TIMER_CMD_CHG :: u8 where "TIMER_CMD_CHG = 3"
definition TIMER_ARG_CHG :: u8 where "TIMER_ARG_CHG = 4"
definition TIMER_ARG_CHG_AUTO :: u8 where "TIMER_ARG_CHG_AUTO = 5"
definition TIMER_CMD_DEL :: u8 where "TIMER_CMD_DEL = 6"
definition TIMER_CMD_DYN_DEL :: u8 where "TIMER_CMD_DYN_DEL = 7"

lemmas timer_cmds = TIMER_CMD_START_def TIMER_CMD_STOP_def TIMER_CMD_CHG_def TIMER_ARG_CHG_def
  TIMER_ARG_CHG_AUTO_def TIMER_CMD_DEL_def TIMER_CMD_DYN_DEL_def

text \<open>\<open>cb_u\<close> is the union as a 64-bit word: \<open>u.round\<close> is all of it, \<open>u.arg\<close> the low half.\<close>

record k_timer_queue_cb =
  cb_timer :: u32
  cb_num :: u8
  cb_first :: u64
  cb_u :: u64

definition set_arg :: "u32 \<Rightarrow> u64 \<Rightarrow> u64" where
  "set_arg a u = push_bit 32 (drop_bit 32 u) OR ucast a"

definition get_arg :: "u64 \<Rightarrow> u32" where
  "get_arg u = ucast u"

text \<open>The 24 bytes of the structure (three are padding, here zero).\<close>

definition u32_bytes :: "u32 \<Rightarrow> u8 list" where "u32_bytes x = size_bytes (unat x)"
definition bytes_u32 :: "u8 list \<Rightarrow> u32" where "bytes_u32 b = word_of_nat (bytes_size b)"
definition u64_bytes :: "u64 \<Rightarrow> u8 list" where
  "u64_bytes x = u32_bytes (ucast x) @ u32_bytes (ucast (drop_bit 32 x))"
definition bytes_u64 :: "u8 list \<Rightarrow> u64" where
  "bytes_u64 b = push_bit 32 (ucast (bytes_u32 (drop 4 b))) OR ucast (bytes_u32 (take 4 b))"

definition cb_bytes :: "k_timer_queue_cb \<Rightarrow> u8 list" where
  "cb_bytes c = u32_bytes (cb_timer c) @ [cb_num c, 0, 0, 0] @ u64_bytes (cb_first c) @ u64_bytes (cb_u c)"

definition bytes_cb :: "u8 list \<Rightarrow> k_timer_queue_cb" where
  "bytes_cb b = \<lparr>cb_timer = bytes_u32 (take 4 b), cb_num = b ! 4, cb_first = bytes_u64 (take 8 (drop 8 b)),
     cb_u = bytes_u64 (take 8 (drop 16 b))\<rparr>"

definition sizeof_cb :: nat where "sizeof_cb = 24"

definition send_cmd :: "'a tsys_scheme \<Rightarrow> k_timer_queue_cb \<Rightarrow> kstat \<times> 'a tsys_scheme" where
  "send_cmd s c =
     (let (r, k) = krhino_buf_queue_send (krn s) (Some g_timer_queue) (Some (cb_bytes c)) sizeof_cb
      in (r, s\<lparr>krn := k\<rparr>))"

section \<open>The services\<close>

text \<open>\<open>junk\<close> is what the local \<open>cb\<close> holds before its fields are assigned.\<close>

definition krhino_timer_start ::
    "k_timer_queue_cb \<Rightarrow> 'a tsys_scheme \<Rightarrow> u32 option \<Rightarrow> kstat \<times> 'a tsys_scheme" where
  "krhino_timer_start junk s timer =
     (case timer of None \<Rightarrow> (RHINO_NULL_PTR, s)
      | Some t \<Rightarrow> send_cmd s (junk\<lparr>cb_timer := t, cb_num := TIMER_CMD_START\<rparr>))"

definition krhino_timer_stop ::
    "k_timer_queue_cb \<Rightarrow> 'a tsys_scheme \<Rightarrow> u32 option \<Rightarrow> kstat \<times> 'a tsys_scheme" where
  "krhino_timer_stop junk s timer =
     (case timer of None \<Rightarrow> (RHINO_NULL_PTR, s)
      | Some t \<Rightarrow> send_cmd s (junk\<lparr>cb_timer := t, cb_num := TIMER_CMD_STOP\<rparr>))"

definition krhino_timer_del ::
    "k_timer_queue_cb \<Rightarrow> 'a tsys_scheme \<Rightarrow> u32 option \<Rightarrow> kstat \<times> 'a tsys_scheme" where
  "krhino_timer_del junk s timer =
     (case timer of None \<Rightarrow> (RHINO_NULL_PTR, s)
      | Some t \<Rightarrow> send_cmd s (junk\<lparr>cb_timer := t, cb_num := TIMER_CMD_DEL\<rparr>))"

definition krhino_timer_dyn_del ::
    "k_timer_queue_cb \<Rightarrow> 'a tsys_scheme \<Rightarrow> u32 option \<Rightarrow> kstat \<times> 'a tsys_scheme" where
  "krhino_timer_dyn_del junk s timer =
     (case timer of None \<Rightarrow> (RHINO_NULL_PTR, s)
      | Some t \<Rightarrow> send_cmd s (junk\<lparr>cb_timer := t, cb_num := TIMER_CMD_DYN_DEL\<rparr>))"

definition krhino_timer_change ::
    "k_timer_queue_cb \<Rightarrow> 'a tsys_scheme \<Rightarrow> u32 option \<Rightarrow> u64 \<Rightarrow> u64 \<Rightarrow> kstat \<times> 'a tsys_scheme" where
  "krhino_timer_change junk s timer first round =
     (case timer of None \<Rightarrow> (RHINO_NULL_PTR, s) | Some t \<Rightarrow>
      if first = 0 then (RHINO_INV_PARAM, s)
      else if first \<ge> MAX_TIMER_TICKS then (RHINO_INV_PARAM, s)
      else if round \<ge> MAX_TIMER_TICKS then (RHINO_INV_PARAM, s)
      else send_cmd s (junk\<lparr>cb_timer := t, cb_first := first, cb_u := round, cb_num := TIMER_CMD_CHG\<rparr>))"

definition krhino_timer_arg_change ::
    "k_timer_queue_cb \<Rightarrow> 'a tsys_scheme \<Rightarrow> u32 option \<Rightarrow> u32 \<Rightarrow> kstat \<times> 'a tsys_scheme" where
  "krhino_timer_arg_change junk s timer arg =
     (case timer of None \<Rightarrow> (RHINO_NULL_PTR, s)
      | Some t \<Rightarrow> send_cmd s (junk\<lparr>cb_timer := t, cb_u := set_arg arg (cb_u junk), cb_num := TIMER_ARG_CHG\<rparr>))"

definition krhino_timer_arg_change_auto ::
    "k_timer_queue_cb \<Rightarrow> 'a tsys_scheme \<Rightarrow> u32 option \<Rightarrow> u32 \<Rightarrow> kstat \<times> 'a tsys_scheme" where
  "krhino_timer_arg_change_auto junk s timer arg =
     (case timer of None \<Rightarrow> (RHINO_NULL_PTR, s)
      | Some t \<Rightarrow> send_cmd s (junk\<lparr>cb_timer := t, cb_u := set_arg arg (cb_u junk), cb_num := TIMER_ARG_CHG_AUTO\<rparr>))"

definition timer_create ::
    "k_timer_queue_cb \<Rightarrow> 'a tsys_scheme \<Rightarrow> u32 option \<Rightarrow> string option \<Rightarrow> u32 \<Rightarrow> u64 \<Rightarrow> u64 \<Rightarrow> u32 \<Rightarrow> u8 \<Rightarrow> u8 \<Rightarrow>
     kstat \<times> 'a tsys_scheme" where
  "timer_create junk s timer name cb first round arg auto_run mm_alloc_flag =
     (case timer of None \<Rightarrow> (RHINO_NULL_PTR, s) | Some t \<Rightarrow>
      if name = None then (RHINO_NULL_PTR, s)
      else if cb = 0 then (RHINO_NULL_PTR, s)
      else if first = 0 then (RHINO_INV_PARAM, s)
      else if first \<ge> MAX_TIMER_TICKS then (RHINO_INV_PARAM, s)
      else if round \<ge> MAX_TIMER_TICKS then (RHINO_INV_PARAM, s)
      else
        let s1 = upd_timer s t (\<lambda>m. m\<lparr>tm_name := name, tm_cb := cb, init_count := first, round_ticks := round,
                   tm_remain := 0, tm_match := 0, timer_state := TIMER_DEACTIVE, to_head := False,
                   tm_mm_flag := mm_alloc_flag, timer_cb_arg := arg, tm_obj_type := RHINO_TIMER_OBJ_TYPE\<rparr>)
        in if auto_run > 0 then krhino_timer_start junk s1 (Some t) else (RHINO_SUCCESS, s1))"

definition krhino_timer_create ::
    "k_timer_queue_cb \<Rightarrow> 'a tsys_scheme \<Rightarrow> u32 option \<Rightarrow> string option \<Rightarrow> u32 \<Rightarrow> u64 \<Rightarrow> u64 \<Rightarrow> u32 \<Rightarrow> u8 \<Rightarrow>
     kstat \<times> 'a tsys_scheme" where
  "krhino_timer_create junk s timer name cb first round arg auto_run =
     timer_create junk s timer name cb first round arg auto_run K_OBJ_STATIC_ALLOC"

text \<open>\<open>mem\<close> is the address \<open>krhino_mm_alloc\<close> returned (0 for NULL). The third component is what is
  stored through \<open>timer\<close>.\<close>

definition krhino_timer_dyn_create ::
    "k_timer_queue_cb \<Rightarrow> u32 \<Rightarrow> 'a tsys_scheme \<Rightarrow> bool \<Rightarrow> string option \<Rightarrow> u32 \<Rightarrow> u64 \<Rightarrow> u64 \<Rightarrow> u32 \<Rightarrow> u8 \<Rightarrow>
     kstat \<times> 'a tsys_scheme \<times> u32 option" where
  "krhino_timer_dyn_create junk mem s timer_null name cb first round arg auto_run =
     (if timer_null then (RHINO_NULL_PTR, s, None)
      else if mem = 0 then (RHINO_NO_MEM, s, None)
      else
        let (ret, s1) = timer_create junk s (Some mem) name cb first round arg auto_run K_OBJ_DYN_ALLOC
        in if ret \<noteq> RHINO_SUCCESS then (ret, s1, None) else (ret, s1, Some mem))"

section \<open>The list of running timers\<close>

definition timer_list_pri_insert :: "'a tsys_scheme \<Rightarrow> u32 \<Rightarrow> 'a tsys_scheme" where
  "timer_list_pri_insert s t =
     (let val = tm_remain (timers s t)
      in s\<lparr>g_timer_head :=
             insert_before (\<lambda>u. tm_match (timers s u) - g_timer_count s > val) t (g_timer_head s)\<rparr>)"

definition timer_list_rm :: "'a tsys_scheme \<Rightarrow> u32 \<Rightarrow> 'a tsys_scheme" where
  "timer_list_rm s t =
     (if to_head (timers s t)
      then upd_timer (s\<lparr>g_timer_head := remove1 t (g_timer_head s)\<rparr>) t (\<lambda>m. m\<lparr>to_head := False\<rparr>)
      else s)"

text \<open>The successor of a node, \<open>None\<close> for the list head.\<close>

fun succ_in :: "'a list \<Rightarrow> 'a \<Rightarrow> 'a option" where
  "succ_in [] t = None"
| "succ_in (x # xs) t = (if x = t then (case xs of [] \<Rightarrow> None | y # _ \<Rightarrow> Some y) else succ_in xs t)"

text \<open>The walk of \<open>timer_cb_proc\<close>, one turn per unit of fuel, \<open>None\<close> when it runs out. It goes on
  at \<open>q->next\<close>: of a timer that was put back, its new successor; of one that was not, the one it
  had when it was unlinked. \<open>call\<close> is the environment's code at an address.\<close>

type_synonym 'a callbacks = "u32 \<Rightarrow> u32 \<Rightarrow> u32 \<Rightarrow> 'a tsys_scheme \<Rightarrow> 'a tsys_scheme"

text \<open>One turn on a timer that is due: the state and the place to go on from.\<close>

definition fire :: "'a callbacks \<Rightarrow> 'a tsys_scheme \<Rightarrow> u32 \<Rightarrow> 'a tsys_scheme \<times> u32 option" where
  "fire call s t =
     (let s1 = call (tm_cb (timers s t)) t (timer_cb_arg (timers s t)) s;
          after = succ_in (g_timer_head s1) t;
          s2 = timer_list_rm s1 t
      in if round_ticks (timers s2 t) > 0 then
           let s3 = upd_timer s2 t (\<lambda>m. m\<lparr>tm_remain := round_ticks m,
                      tm_match := g_timer_count s2 + round_ticks m, to_head := True\<rparr>);
               s4 = timer_list_pri_insert s3 t
           in (s4, succ_in (g_timer_head s4) t)
         else (upd_timer s2 t (\<lambda>m. m\<lparr>timer_state := TIMER_DEACTIVE\<rparr>), after))"

fun timer_cb_loop :: "'a callbacks \<Rightarrow> nat \<Rightarrow> 'a tsys_scheme \<Rightarrow> u32 option \<Rightarrow> 'a tsys_scheme option" where
  "timer_cb_loop call n s None = Some s"
| "timer_cb_loop call 0 s (Some t) = None"
| "timer_cb_loop call (Suc n) s (Some t) =
     (if sint (tm_match (timers s t) - g_timer_count s) \<le> 0
      then timer_cb_loop call n (fst (fire call s t)) (snd (fire call s t))
      else Some s)"

text \<open>One turn for each timer and one to see that the rest is not due.\<close>

definition timer_cb_proc :: "'a callbacks \<Rightarrow> 'a tsys_scheme \<Rightarrow> 'a tsys_scheme" where
  "timer_cb_proc call s =
     (case timer_cb_loop call (Suc (length (g_timer_head s))) s
             (case g_timer_head s of [] \<Rightarrow> None | t # _ \<Rightarrow> Some t) of
        Some s' \<Rightarrow> s' | None \<Rightarrow> s\<lparr>krn := add_trap (krn s) Diverged\<rparr>)"

section \<open>The timer task\<close>

definition cmd_proc :: "'a tsys_scheme \<Rightarrow> k_timer_queue_cb \<Rightarrow> u8 \<Rightarrow> 'a tsys_scheme" where
  "cmd_proc s cb cmd =
     (let t = cb_timer cb; m = timers s t in
      if cmd = TIMER_CMD_START then
        (if tm_obj_type m \<noteq> RHINO_TIMER_OBJ_TYPE then s
         else if timer_state m = TIMER_ACTIVE then s
         else
           let s1 = upd_timer s t (\<lambda>m. m\<lparr>tm_match := g_timer_count s + init_count m, tm_remain := init_count m,
                                        to_head := True\<rparr>);
               s2 = timer_list_pri_insert s1 t
           in upd_timer s2 t (\<lambda>m. m\<lparr>timer_state := TIMER_ACTIVE\<rparr>))
      else if cmd = TIMER_CMD_STOP then
        (if tm_obj_type m \<noteq> RHINO_TIMER_OBJ_TYPE then s
         else if timer_state m = TIMER_DEACTIVE then s
         else upd_timer (timer_list_rm s t) t (\<lambda>m. m\<lparr>timer_state := TIMER_DEACTIVE\<rparr>))
      else if cmd = TIMER_CMD_CHG then
        (if cb_first cb = 0 then s
         else if tm_obj_type m \<noteq> RHINO_TIMER_OBJ_TYPE then s
         else if timer_state m \<noteq> TIMER_DEACTIVE then s
         else upd_timer s t (\<lambda>m. m\<lparr>init_count := cb_first cb, round_ticks := cb_u cb\<rparr>))
      else if cmd = TIMER_ARG_CHG then
        (if tm_obj_type m \<noteq> RHINO_TIMER_OBJ_TYPE then s
         else if timer_state m \<noteq> TIMER_DEACTIVE then s
         else upd_timer s t (\<lambda>m. m\<lparr>timer_cb_arg := get_arg (cb_u cb)\<rparr>))
      else if cmd = TIMER_CMD_DEL then
        (if tm_obj_type m \<noteq> RHINO_TIMER_OBJ_TYPE then s
         else if timer_state m \<noteq> TIMER_DEACTIVE then s
         else if tm_mm_flag m \<noteq> K_OBJ_STATIC_ALLOC then s
         else upd_timer s t (\<lambda>m. m\<lparr>tm_obj_type := RHINO_OBJ_TYPE_NONE\<rparr>))
      else if cmd = TIMER_CMD_DYN_DEL then
        (if tm_obj_type m \<noteq> RHINO_TIMER_OBJ_TYPE then s
         else if timer_state m \<noteq> TIMER_DEACTIVE then s
         else if tm_mm_flag m \<noteq> K_OBJ_DYN_ALLOC then s
         else upd_timer s t (\<lambda>m. m\<lparr>tm_obj_type := RHINO_OBJ_TYPE_NONE\<rparr>))
      else s\<lparr>krn := k_err_proc (krn s) RHINO_SYS_FATAL_ERR\<rparr>)"

definition timer_cmd_proc :: "'a tsys_scheme \<Rightarrow> k_timer_queue_cb \<Rightarrow> 'a tsys_scheme" where
  "timer_cmd_proc s cb =
     (if cb_num cb = TIMER_ARG_CHG_AUTO then
        cmd_proc (cmd_proc (cmd_proc s cb TIMER_CMD_STOP) cb TIMER_ARG_CHG) cb TIMER_CMD_START
      else cmd_proc s cb (cb_num cb))"

text \<open>
  The body of the task, cut at its two receives. \<open>timer_task_first\<close> runs when the outer receive
  has returned \<open>err\<close> with the message; then, as long as the list is not empty,
  \<open>timer_task_wait\<close> is the timeout of the inner receive (\<open>None\<close> when the first timer is due and the
  task does not wait), and \<open>timer_task_woken\<close> or \<open>timer_task_due\<close> is the rest of the turn.
\<close>

definition timer_task_first :: "'a tsys_scheme \<Rightarrow> kstat \<Rightarrow> u8 list \<Rightarrow> 'a tsys_scheme" where
  "timer_task_first s err m =
     (let tick_end = krhino_sys_tick_get (krn s);
          s1 = (if err = RHINO_SUCCESS then s\<lparr>g_timer_count := tick_end\<rparr>
                else s\<lparr>krn := k_err_proc (krn s) RHINO_SYS_FATAL_ERR\<rparr>)
      in timer_cmd_proc s1 (bytes_cb m))"

definition timer_task_wait :: "'a tsys_scheme \<Rightarrow> u64 option" where
  "timer_task_wait s =
     (let delta = tm_match (timers s (hd (g_timer_head s))) - krhino_sys_tick_get (krn s)
      in if sint delta > 0 then Some delta else None)"

definition timer_task_due ::
    "'a callbacks \<Rightarrow> 'a tsys_scheme \<Rightarrow> 'a tsys_scheme" where
  "timer_task_due call s = timer_cb_proc call (s\<lparr>g_timer_count := krhino_sys_tick_get (krn s)\<rparr>)"

definition timer_task_woken ::
    "'a callbacks \<Rightarrow> 'a tsys_scheme \<Rightarrow> kstat \<Rightarrow> u8 list \<Rightarrow> 'a tsys_scheme" where
  "timer_task_woken call s err m =
     (let tick_end = krhino_sys_tick_get (krn s);
          s1 = (if err = RHINO_BLK_TIMEOUT then s\<lparr>g_timer_count := tick_end\<rparr>
                else if err = RHINO_SUCCESS then timer_cmd_proc (s\<lparr>g_timer_count := tick_end\<rparr>) (bytes_cb m)
                else s\<lparr>krn := k_err_proc (krn s) RHINO_SYS_FATAL_ERR\<rparr>)
      in timer_cb_proc call s1)"

section \<open>The timer list as an ordered list\<close>

definition time_left :: "'a tsys_scheme \<Rightarrow> u32 \<Rightarrow> u64" where
  "time_left s t = tm_match (timers s t) - g_timer_count s"

interpretation timer_order: ordered_list "time_left s"
  "\<lambda>t xs. g_timer_head (timer_list_pri_insert
     (upd_timer (s\<lparr>g_timer_head := xs\<rparr>) t (\<lambda>m. m\<lparr>tm_remain := time_left s t\<rparr>)) t)"
  by unfold_locales
    (auto simp: timer_list_pri_insert_def time_left_def Let_def upd_timer_def intro!: insert_before_cong)

definition ordered :: "'a tsys_scheme \<Rightarrow> bool" where
  "ordered s \<longleftrightarrow> sorted_wrt (\<lambda>t u. time_left s t \<le> time_left s u) (g_timer_head s)"

text \<open>The list holds exactly the active timers, each with times the services accept.\<close>

definition timer_ok :: "ktimer \<Rightarrow> bool" where
  "timer_ok m \<longleftrightarrow> (to_head m \<longleftrightarrow> timer_state m = TIMER_ACTIVE) \<and>
     (tm_obj_type m = RHINO_TIMER_OBJ_TYPE \<longrightarrow> 0 < init_count m \<and> init_count m < MAX_TIMER_TICKS \<and> round_ticks m < MAX_TIMER_TICKS) \<and>
     (to_head m \<longrightarrow> tm_obj_type m = RHINO_TIMER_OBJ_TYPE)"

definition tinv :: "'a tsys_scheme \<Rightarrow> bool" where
  "tinv s \<longleftrightarrow> distinct (g_timer_head s) \<and> set (g_timer_head s) = {t. to_head (timers s t)} \<and> (\<forall>t. timer_ok (timers s t))"

lemma upd_timer_frame [simp]:
  "krn (upd_timer s t f) = krn s" "g_timer_head (upd_timer s t f) = g_timer_head s"
  "g_timer_count (upd_timer s t f) = g_timer_count s" "timers (upd_timer s t f) = (timers s)(t := f (timers s t))"
  by (simp_all add: upd_timer_def)

lemma pri_insert_frame [simp]:
  "krn (timer_list_pri_insert s t) = krn s" "g_timer_count (timer_list_pri_insert s t) = g_timer_count s"
  "timers (timer_list_pri_insert s t) = timers s" "set (g_timer_head (timer_list_pri_insert s t)) = insert t (set (g_timer_head s))"
  "distinct (g_timer_head (timer_list_pri_insert s t)) \<longleftrightarrow> t \<notin> set (g_timer_head s) \<and> distinct (g_timer_head s)"
  by (simp_all add: timer_list_pri_insert_def Let_def)

lemma timer_rm_frame:
  "krn (timer_list_rm s t) = krn s" "g_timer_count (timer_list_rm s t) = g_timer_count s"
  "timers (timer_list_rm s t) = (timers s)(t := (timers s t)\<lparr>to_head := False\<rparr>)"
  "tinv s \<Longrightarrow> g_timer_head (timer_list_rm s t) = remove1 t (g_timer_head s)"
  by (auto simp: timer_list_rm_def fun_eq_iff tinv_def intro: remove1_idem [symmetric])

section \<open>Commands keep the list\<close>

text \<open>A change command carries the times \<open>krhino_timer_change\<close> has checked.\<close>

definition cmd_ok :: "k_timer_queue_cb \<Rightarrow> u8 \<Rightarrow> bool" where
  "cmd_ok c cmd \<longleftrightarrow> cmd = TIMER_CMD_CHG \<longrightarrow> cb_first c < MAX_TIMER_TICKS \<and> cb_u c < MAX_TIMER_TICKS"

lemma cmd_proc_tinv:
  assumes i: "tinv s" and c: "cmd_ok cb cmd"
  shows "tinv (cmd_proc s cb cmd)"
proof -
  let ?t = "cb_timer cb"
  have d: "distinct (g_timer_head s)" "set (g_timer_head s) = {t. to_head (timers s t)}"
    and ok: "timer_ok (timers s t)" for t using i by (simp_all add: tinv_def)
  show ?thesis
    using d ok [of ?t] ok c timer_rm_frame [of s ?t] i
    unfolding cmd_proc_def Let_def
    by (auto simp: tinv_def timer_ok_def cmd_ok_def timer_cmds timer_rm_frame word_gt_0)
qed

section \<open>A pass over the due timers\<close>

definition dues :: "'a tsys_scheme \<Rightarrow> u32 set" where
  "dues s = {t \<in> set (g_timer_head s). sint (time_left s t) \<le> 0}"

text \<open>No timer of the list is past its time.\<close>

definition on_time :: "'a tsys_scheme \<Rightarrow> bool" where
  "on_time s \<longleftrightarrow> (\<forall>t \<in> set (g_timer_head s). time_left s t < MAX_TIMER_TICKS)"

lemma max_ticks: "MAX_TIMER_TICKS = 2 ^ 63 - 1"
  by (simp add: MAX_TIMER_TICKS_def mask_eq_exp_minus_1)

lemma small_positive:
  assumes "0 < r" "r < MAX_TIMER_TICKS"
  shows "0 < sint r"
proof -
  have u: "unat r < 2 ^ 63 - 1" using assms(2) by (simp add: word_less_nat_alt max_ticks)
  have "0 < unat r" using assms(1) by (simp add: word_less_nat_alt)
  then have "int 0 < int (unat r)" "int (unat r) < int (2 ^ 63)" using u unfolding of_nat_less_iff by simp_all
  then have x: "0 < uint r" "uint r < 2 ^ 63" unfolding uint_nat by simp_all
  then have "sint r = uint r" unfolding sint_uint by (intro signed_take_bit_int_eq_self) simp_all
  with x show ?thesis by simp
qed

lemma succ_in_member: "succ_in xs t = Some u \<Longrightarrow> distinct xs \<Longrightarrow> u \<in> set (remove1 t xs)"
  by (induction xs t rule: succ_in.induct) (auto split: if_splits list.splits)

lemma succ_in_set: "succ_in xs t = Some u \<Longrightarrow> u \<in> set xs"
  by (induction xs t rule: succ_in.induct) (auto split: if_splits list.splits)

text \<open>What the callbacks owe the timer task: they leave the timers to it. (Services of this file
  that a callback calls only send commands.)\<close>

locale quiet_callbacks =
  fixes call :: "'a callbacks"
  assumes quiet: "timers (call f t a s) = timers s" "g_timer_head (call f t a s) = g_timer_head s"
    "g_timer_count (call f t a s) = g_timer_count s"
begin

lemma fire_due:
  assumes i: "tinv s" and t: "t \<in> set (g_timer_head s)"
  defines "s' \<equiv> fst (fire call s t)"
  shows "tinv s' \<and> g_timer_count s' = g_timer_count s \<and> dues s' = dues s - {t} \<and>
    (\<forall>u. snd (fire call s t) = Some u \<longrightarrow> u \<in> set (g_timer_head s')) \<and>
    (ordered s \<longrightarrow> ordered s') \<and> (on_time s \<longrightarrow> on_time s') \<and>
    (\<forall>u. u \<noteq> t \<longrightarrow> timers s' u = timers s u)"
proof -
  define s1 where "s1 = call (tm_cb (timers s t)) t (timer_cb_arg (timers s t)) s"
  define s2 where "s2 = timer_list_rm s1 t"
  have q1: "timers s1 = timers s" "g_timer_head s1 = g_timer_head s" "g_timer_count s1 = g_timer_count s"
    by (simp_all add: s1_def quiet)
  have i1: "tinv s1" using i by (simp add: tinv_def q1)
  have f2: "timers s2 = (timers s)(t := (timers s t)\<lparr>to_head := False\<rparr>)" "g_timer_head s2 = remove1 t (g_timer_head s)"
    "g_timer_count s2 = g_timer_count s"
    using timer_rm_frame [of s1 t] i1 by (simp_all add: s2_def q1)
  have d: "distinct (g_timer_head s)" "set (g_timer_head s) = {t. to_head (timers s t)}"
    and ok: "timer_ok (timers s u)" for u using i by (simp_all add: tinv_def)
  have tt: "to_head (timers s t)" "tm_obj_type (timers s t) = RHINO_TIMER_OBJ_TYPE" "timer_state (timers s t) = TIMER_ACTIVE"
    "round_ticks (timers s t) < MAX_TIMER_TICKS"
    using t d(2) ok [of t] by (auto simp: timer_ok_def)
  have l2: "time_left s2 u = time_left s u" for u by (simp add: time_left_def f2)
  have o2: "sorted_wrt (\<lambda>t u. time_left s t \<le> time_left s u) (remove1 t (g_timer_head s))" if "ordered s"
    using that by (simp add: ordered_def sorted_wrt_remove1)
  show ?thesis
  proof (cases "round_ticks (timers s t) > 0")
    case False
    define s3 where "s3 = upd_timer s2 t (\<lambda>m. m\<lparr>timer_state := TIMER_DEACTIVE\<rparr>)"
    have e: "fire call s t = (s3, succ_in (g_timer_head s) t)"
      using False by (simp add: fire_def s1_def [symmetric] s2_def [symmetric] s3_def Let_def f2 q1)
    have l3: "time_left s3 u = time_left s u" for u by (simp add: time_left_def s3_def f2)
    have "tinv s3" using d ok tt by (auto simp: tinv_def s3_def f2 timer_ok_def)
    moreover have "dues s3 = dues s - {t}" using d by (auto simp: dues_def l3) (auto simp: s3_def f2)
    moreover have "ordered s \<Longrightarrow> ordered s3" using o2 by (simp add: ordered_def l3) (simp add: s3_def f2)
    moreover have "on_time s \<Longrightarrow> on_time s3" using d by (auto simp: on_time_def l3) (auto simp: s3_def f2)
    ultimately show ?thesis using succ_in_member [of "g_timer_head s" t] d(1)
      by (simp add: s'_def e) (simp add: s3_def f2)
  next
    case True
    let ?r = "round_ticks (timers s t)"
    define s3 where "s3 = upd_timer s2 t (\<lambda>m. m\<lparr>tm_remain := round_ticks m, tm_match := g_timer_count s2 + round_ticks m, to_head := True\<rparr>)"
    define s4 where "s4 = timer_list_pri_insert s3 t"
    have e: "fire call s t = (s4, succ_in (g_timer_head s4) t)"
      using True by (simp add: fire_def s1_def [symmetric] s2_def [symmetric] Let_def f2 q1 s4_def s3_def)
    have tm: "timers s4 = (timers s)(t := (timers s t)\<lparr>tm_remain := ?r, tm_match := g_timer_count s + ?r, to_head := True\<rparr>)"
      "g_timer_count s4 = g_timer_count s"
      by (simp_all add: s4_def s3_def f2 fun_eq_iff)
    have l4: "time_left s4 u = (if u = t then ?r else time_left s u)" for u
      by (simp add: time_left_def tm)
    have nt: "t \<notin> set (remove1 t (g_timer_head s))" using d(1) by simp
    have h4: "g_timer_head s4 = insert_before (\<lambda>u. time_left s4 t < time_left s4 u) t (remove1 t (g_timer_head s))"
    proof -
      have "g_timer_head s4 = insert_before (\<lambda>u. tm_match (timers s3 u) - g_timer_count s3 > tm_remain (timers s3 t)) t (g_timer_head s3)"
        by (simp add: s4_def timer_list_pri_insert_def Let_def)
      also have "(\<lambda>u. tm_match (timers s3 u) - g_timer_count s3 > tm_remain (timers s3 t)) = (\<lambda>u. time_left s4 t < time_left s4 u)"
        unfolding l4 by (simp add: s3_def f2 time_left_def fun_eq_iff)
      also have "g_timer_head s3 = remove1 t (g_timer_head s)" by (simp add: s3_def f2)
      finally show ?thesis .
    qed
    have st: "set (g_timer_head s4) = set (g_timer_head s)" using t d(1) by (auto simp: h4)
    have "tinv s4" using d ok tt nt st by (auto simp: tinv_def tm timer_ok_def h4)
    moreover have "0 < sint ?r" using small_positive True tt by simp
    then have "dues s4 = dues s - {t}" using st by (auto simp: dues_def l4)
    moreover have "ordered s4" if "ordered s"
    proof -
      have "sorted_wrt (\<lambda>t u. time_left s4 t \<le> time_left s4 u) (remove1 t (g_timer_head s))"
        using o2 [OF that] sorted_wrt_key_cong [of "remove1 t (g_timer_head s)" "time_left s4" "time_left s"] nt
        by (metis l4)
      then show ?thesis unfolding ordered_def h4 by (rule sorted_wrt_insert_before)
    qed
    moreover have "on_time s \<Longrightarrow> on_time s4" using st tt(4) by (auto simp: on_time_def l4)
    ultimately show ?thesis using succ_in_set [of "g_timer_head s4" t]
      by (simp add: s'_def e) (simp add: tm)
  qed
qed

text \<open>The walk ends, and every timer that was due and is not any more has been called.\<close>

lemma loop_ends:
  "tinv s \<Longrightarrow> card (dues s) < n \<Longrightarrow> (\<forall>t. q = Some t \<longrightarrow> t \<in> set (g_timer_head s)) \<Longrightarrow>
   \<exists>s'. timer_cb_loop call n s q = Some s' \<and> tinv s' \<and> g_timer_count s' = g_timer_count s \<and> dues s' \<subseteq> dues s \<and>
     (ordered s \<longrightarrow> ordered s') \<and> (on_time s \<longrightarrow> on_time s')"
proof (induction n arbitrary: s q)
  case (Suc n)
  show ?case
  proof (cases "\<exists>t. q = Some t \<and> sint (tm_match (timers s t) - g_timer_count s) \<le> 0")
    case False
    then have "timer_cb_loop call (Suc n) s q = Some s" by (cases q) auto
    with Suc.prems show ?thesis by auto
  next
    case True
    then obtain t where q: "q = Some t" and du: "sint (tm_match (timers s t) - g_timer_count s) \<le> 0" by auto
    have t: "t \<in> set (g_timer_head s)" using Suc.prems(3) q by simp
    note f = fire_due [OF Suc.prems(1) t]
    let ?s = "fst (fire call s t)"
    have "finite (dues s)" "t \<in> dues s" using t du by (simp_all add: dues_def time_left_def)
    from card_Diff1_less [OF this] have "card (dues ?s) < n" using f Suc.prems(2) by simp
    from Suc.IH [OF _ this, of "snd (fire call s t)"] f obtain s' where
      s': "timer_cb_loop call n ?s (snd (fire call s t)) = Some s'" "tinv s'" "g_timer_count s' = g_timer_count ?s"
        "dues s' \<subseteq> dues ?s" "ordered ?s \<longrightarrow> ordered s'" "on_time ?s \<longrightarrow> on_time s'" by auto
    have "timer_cb_loop call (Suc n) s q = Some s'" using q du s'(1) by simp
    then show ?thesis using s' f by auto
  qed
qed simp

lemma dues_bound: "card (dues s) \<le> length (g_timer_head s)"
proof -
  have "card (dues s) \<le> card (set (g_timer_head s))" by (rule card_mono) (auto simp: dues_def)
  then show ?thesis using card_length [of "g_timer_head s"] by simp
qed

lemma pass_ends:
  assumes i: "tinv s"
  shows "\<exists>s'. timer_cb_loop call (Suc (length (g_timer_head s))) s (case g_timer_head s of [] \<Rightarrow> None | t # _ \<Rightarrow> Some t) = Some s'"
    "tinv (timer_cb_proc call s)" "g_timer_count (timer_cb_proc call s) = g_timer_count s"
    "dues (timer_cb_proc call s) \<subseteq> dues s" "ordered s \<Longrightarrow> ordered (timer_cb_proc call s)"
    "on_time s \<Longrightarrow> on_time (timer_cb_proc call s)"
proof -
  define q where "q = (case g_timer_head s of [] \<Rightarrow> None | t # _ \<Rightarrow> Some t)"
  have m: "\<forall>t. q = Some t \<longrightarrow> t \<in> set (g_timer_head s)" by (simp add: q_def split: list.split)
  have "card (dues s) < Suc (length (g_timer_head s))" using dues_bound [of s] by simp
  from loop_ends [OF i this m]
  obtain s' where s': "timer_cb_loop call (Suc (length (g_timer_head s))) s (case g_timer_head s of [] \<Rightarrow> None | t # _ \<Rightarrow> Some t) = Some s'"
    "tinv s'" "g_timer_count s' = g_timer_count s" "dues s' \<subseteq> dues s" "ordered s \<longrightarrow> ordered s'" "on_time s \<longrightarrow> on_time s'"
    unfolding q_def by blast
  then show "\<exists>s'. timer_cb_loop call (Suc (length (g_timer_head s))) s (case g_timer_head s of [] \<Rightarrow> None | t # _ \<Rightarrow> Some t) = Some s'"
    "tinv (timer_cb_proc call s)" "g_timer_count (timer_cb_proc call s) = g_timer_count s"
    "dues (timer_cb_proc call s) \<subseteq> dues s" "ordered s \<Longrightarrow> ordered (timer_cb_proc call s)"
    "on_time s \<Longrightarrow> on_time (timer_cb_proc call s)"
    by (auto simp: timer_cb_proc_def)
qed

end

end
