(* ===== verification/K_Workqueue.thy ===== *)
theory K_Workqueue
  imports K_Timer K_Sem
begin

text \<open>
  Work queues, \<open>k_workqueue.c\<close>: each has a worker task that takes works off its list, one for
  every count of its semaphore, and runs them; a work with a delay is put on the list by the
  callback of its timer. The state is the one of the timers with works and queues beside it;
  the address 0 is NULL. Where the linker put \<open>work_timer_cb\<close> and the default queue, and
  the member addresses of a queue (its worker and its semaphore), are given with the state.
\<close>

section \<open>State\<close>

record kwork_t =
  wk_handle :: u32
  wk_arg :: u32
  wk_dly :: u64
  wk_timer :: u32
  wk_wq :: u32
  work_exit :: u8

record kworkqueue_t =
  work_list :: "u32 list"
  work_current :: u32
  wq_name :: "string option"
  wq_worker :: tid
  wq_sem :: oid

record wsys = tsys +
  works :: "u32 \<Rightarrow> kwork_t"
  workqueues :: "u32 \<Rightarrow> kworkqueue_t"
  g_workqueue_list_head :: "u32 list"

definition g_workqueue_default :: u32 where "g_workqueue_default = 0x20002000"
definition work_timer_cb_addr :: u32 where "work_timer_cb_addr = 0x08001001"

definition upd_work :: "'a wsys_scheme \<Rightarrow> u32 \<Rightarrow> (kwork_t \<Rightarrow> kwork_t) \<Rightarrow> 'a wsys_scheme" where
  "upd_work s w f = s\<lparr>works := (works s)(w := f (works s w))\<rparr>"

definition upd_wq :: "'a wsys_scheme \<Rightarrow> u32 \<Rightarrow> (kworkqueue_t \<Rightarrow> kworkqueue_t) \<Rightarrow> 'a wsys_scheme" where
  "upd_wq s q f = s\<lparr>workqueues := (workqueues s)(q := f (workqueues s q))\<rparr>"

text \<open>\<open>klist_rm_init(&work->work_node)\<close>: the node leaves the list it is on, wherever that is.\<close>

definition work_node_rm :: "'a wsys_scheme \<Rightarrow> u32 \<Rightarrow> 'a wsys_scheme" where
  "work_node_rm s w = s\<lparr>workqueues := (\<lambda>q. (workqueues s q)\<lparr>work_list := remove1 w (work_list (workqueues s q))\<rparr>)\<rparr>"

definition on_kernel :: "'a wsys_scheme \<Rightarrow> kstat \<times> kernel \<Rightarrow> kstat \<times> 'a wsys_scheme" where
  "on_kernel s r = (fst r, s\<lparr>krn := snd r\<rparr>)"

section \<open>Operations\<close>

definition workqueue_is_exist :: "'a wsys_scheme \<Rightarrow> u32 \<Rightarrow> kstat" where
  "workqueue_is_exist s q =
     (if q \<in> set (g_workqueue_list_head s) then RHINO_WORKQUEUE_EXIST else RHINO_WORKQUEUE_NOT_EXIST)"

text \<open>The worker's loop, cut at the semaphore: what it does when the take has returned \<open>ret\<close>, up
  to the call of the work's handle, whose address and argument are returned; and after the call.\<close>

definition worker_task_take :: "'a wsys_scheme \<Rightarrow> u32 \<Rightarrow> kstat \<Rightarrow> (u32 \<times> u32) option \<times> 'a wsys_scheme" where
  "worker_task_take s q ret =
     (let s1 = (if ret \<noteq> RHINO_SUCCESS then s\<lparr>krn := k_err_proc (krn s) ret\<rparr> else s)
      in case work_list (workqueues s1 q) of
           [] \<Rightarrow> (None, s1\<lparr>krn := add_trap (krn s1) OutOfBounds\<rparr>)
         | w # _ \<Rightarrow>
             let s2 = work_node_rm s1 w;
                 s3 = upd_wq s2 q (\<lambda>x. x\<lparr>work_current := w\<rparr>);
                 s4 = upd_work s3 w (\<lambda>x. x\<lparr>work_exit := 0\<rparr>)
             in (Some (wk_handle (works s4 w), wk_arg (works s4 w)), s4))"

definition worker_task_done :: "'a wsys_scheme \<Rightarrow> u32 \<Rightarrow> 'a wsys_scheme" where
  "worker_task_done s q = upd_wq s q (\<lambda>x. x\<lparr>work_current := 0\<rparr>)"

text \<open>\<open>entry\<close> is the address of \<open>worker_task\<close>.\<close>

definition krhino_workqueue_create ::
    "u32 \<Rightarrow> u32 \<Rightarrow> 'a wsys_scheme \<Rightarrow> u32 \<Rightarrow> string option \<Rightarrow> nat \<Rightarrow> u32 option \<Rightarrow> u32 \<Rightarrow> kstat \<times> 'a wsys_scheme" where
  "krhino_workqueue_create deathbed entry s q name pri stack_buf stack_sz =
     (if q = 0 then (RHINO_NULL_PTR, s)
      else if name = None then (RHINO_NULL_PTR, s)
      else if stack_buf = None then (RHINO_NULL_PTR, s)
      else if pri \<ge> RHINO_CONFIG_PRI_MAX then (RHINO_BEYOND_MAX_PRI, s)
      else if stack_sz = 0 then (RHINO_TASK_INV_STACK_SIZE, s)
      else if workqueue_is_exist s q = RHINO_WORKQUEUE_EXIST then (RHINO_WORKQUEUE_EXIST, s)
      else
        let s1 = upd_wq s q (\<lambda>x. x\<lparr>work_list := [], work_current := 0, wq_name := name\<rparr>);
            (ret, s2) = on_kernel s1 (krhino_sem_create (krn s1) (Some (wq_sem (workqueues s1 q))) (Some ''WORKQUEUE-SEM'') 0)
        in if ret \<noteq> RHINO_SUCCESS then (ret, s2)
           else
             let s3 = s2\<lparr>g_workqueue_list_head := g_workqueue_list_head s2 @ [q]\<rparr>;
                 (ret2, s4) = on_kernel s3 (krhino_task_create deathbed (krn s3) (Some (wq_worker (workqueues s3 q)))
                    name q pri 0 stack_buf stack_sz (Some entry) 1)
             in if ret2 \<noteq> RHINO_SUCCESS then
                  let s5 = s4\<lparr>g_workqueue_list_head := remove1 q (g_workqueue_list_head s4)\<rparr>
                  in (ret2, snd (on_kernel s5 (krhino_sem_del (krn s5) (Some (wq_sem (workqueues s5 q))))))
                else (RHINO_SUCCESS, s4))"

text \<open>Putting a work at the end of a list, common to \<open>krhino_work_run\<close> and the timer callback.\<close>

definition work_enqueue :: "'a wsys_scheme \<Rightarrow> u32 \<Rightarrow> u32 \<Rightarrow> 'a wsys_scheme" where
  "work_enqueue s q w =
     (let s1 = work_node_rm s w;
          s2 = upd_wq s1 q (\<lambda>x. x\<lparr>work_list := work_list x @ [w]\<rparr>)
      in upd_work s2 w (\<lambda>x. x\<lparr>wk_wq := q, work_exit := 1\<rparr>))"

definition work_timer_cb :: "u32 \<Rightarrow> u32 \<Rightarrow> 'a wsys_scheme \<Rightarrow> 'a wsys_scheme" where
  "work_timer_cb timer arg s =
     (let w = tm_priv (timers s timer); q = arg
      in if work_current (workqueues s q) = w then s
         else if work_exit (works s w) = 1 then s
         else
           let s1 = work_enqueue s q w
           in snd (on_kernel s1 (krhino_sem_give (krn s1) (Some (wq_sem (workqueues s1 q))))))"

definition krhino_work_init ::
    "k_timer_queue_cb \<Rightarrow> u32 \<Rightarrow> 'a wsys_scheme \<Rightarrow> u32 \<Rightarrow> u32 \<Rightarrow> u32 \<Rightarrow> u64 \<Rightarrow> kstat \<times> 'a wsys_scheme" where
  "krhino_work_init junk mem s w handle arg dly =
     (if w = 0 then (RHINO_NULL_PTR, s)
      else if handle = 0 then (RHINO_NULL_PTR, s)
      else
        let s1 = upd_work s w (\<lambda>_. \<lparr>wk_handle = handle, wk_arg = arg, wk_dly = dly, wk_timer = 0, wk_wq = 0, work_exit = 0\<rparr>)
        in if dly > 0 then
             let (ret, s2, tm) = krhino_timer_dyn_create junk mem s1 False (Some ''WORK-TIMER'') work_timer_cb_addr
                   (wk_dly (works s1 w)) 0 w 0;
                 s3 = (case tm of None \<Rightarrow> s2 | Some t \<Rightarrow> upd_work s2 w (\<lambda>x. x\<lparr>wk_timer := t\<rparr>))
             in if ret \<noteq> RHINO_SUCCESS then (ret, s3) else (RHINO_SUCCESS, s3)
           else (RHINO_SUCCESS, s1))"

definition krhino_work_run :: "k_timer_queue_cb \<Rightarrow> 'a wsys_scheme \<Rightarrow> u32 \<Rightarrow> u32 \<Rightarrow> kstat \<times> 'a wsys_scheme" where
  "krhino_work_run junk s q w =
     (if q = 0 then (RHINO_NULL_PTR, s)
      else if w = 0 then (RHINO_NULL_PTR, s)
      else if wk_dly (works s w) = 0 then
        (if work_current (workqueues s q) = w then (RHINO_WORKQUEUE_WORK_RUNNING, s)
         else if work_exit (works s w) = 1 then (RHINO_WORKQUEUE_WORK_EXIST, s)
         else
           let s1 = work_enqueue s q w
           in on_kernel s1 (krhino_sem_give (krn s1) (Some (wq_sem (workqueues s1 q)))))
      else
        let s1 = upd_timer s (wk_timer (works s w)) (\<lambda>m. m\<lparr>tm_priv := w\<rparr>)
        in krhino_timer_arg_change_auto junk s1 (Some (wk_timer (works s1 w))) q)"

definition krhino_work_sched :: "k_timer_queue_cb \<Rightarrow> 'a wsys_scheme \<Rightarrow> u32 \<Rightarrow> kstat \<times> 'a wsys_scheme" where
  "krhino_work_sched junk s w = krhino_work_run junk s g_workqueue_default w"

definition krhino_work_cancel :: "k_timer_queue_cb \<Rightarrow> 'a wsys_scheme \<Rightarrow> u32 \<Rightarrow> kstat \<times> 'a wsys_scheme" where
  "krhino_work_cancel junk s w =
     (if w = 0 then (RHINO_NULL_PTR, s)
      else
        let q = wk_wq (works s w)
        in if q = 0 then
             (RHINO_SUCCESS,
              if wk_dly (works s w) > 0 then snd (krhino_timer_stop junk s (Some (wk_timer (works s w)))) else s)
           else if work_current (workqueues s q) = w then (RHINO_WORKQUEUE_WORK_RUNNING, s)
           else if work_exit (works s w) = 1 then (RHINO_WORKQUEUE_WORK_EXIST, s)
           else (RHINO_SUCCESS, upd_work (work_node_rm s w) w (\<lambda>x. x\<lparr>wk_wq := 0\<rparr>)))"

definition RHINO_CONFIG_WORKQUEUE_TASK_PRIO :: nat where "RHINO_CONFIG_WORKQUEUE_TASK_PRIO = 20"
definition RHINO_CONFIG_WORKQUEUE_STACK_SIZE :: u32 where "RHINO_CONFIG_WORKQUEUE_STACK_SIZE = 768"

text \<open>\<open>stack\<close> is the address of \<open>g_workqueue_stack\<close>.\<close>

definition workqueue_init :: "u32 \<Rightarrow> u32 \<Rightarrow> u32 \<Rightarrow> 'a wsys_scheme \<Rightarrow> 'a wsys_scheme" where
  "workqueue_init deathbed entry stack s =
     snd (krhino_workqueue_create deathbed entry (s\<lparr>g_workqueue_list_head := []\<rparr>) g_workqueue_default
       (Some ''DEFAULT-WORKQUEUE'') RHINO_CONFIG_WORKQUEUE_TASK_PRIO (Some stack) RHINO_CONFIG_WORKQUEUE_STACK_SIZE)"

section \<open>The callbacks of the kernel\<close>

text \<open>What a timer calls: the kernel's own callback at its address, the user's code elsewhere.\<close>

definition callbacks :: "(u32 \<Rightarrow> u32 \<Rightarrow> u32 \<Rightarrow> 'a wsys_scheme \<Rightarrow> 'a wsys_scheme) \<Rightarrow> u32 \<Rightarrow> u32 \<Rightarrow> u32 \<Rightarrow> 'a wsys_scheme \<Rightarrow> 'a wsys_scheme" where
  "callbacks user f timer arg s =
     (if f = work_timer_cb_addr then work_timer_cb timer arg s else user f timer arg s)"

lemma upd_work_frame [simp]:
  "krn (upd_work s w f) = krn s" "timers (upd_work s w f) = timers s" "g_timer_head (upd_work s w f) = g_timer_head s"
  "g_timer_count (upd_work s w f) = g_timer_count s" "workqueues (upd_work s w f) = workqueues s"
  "g_workqueue_list_head (upd_work s w f) = g_workqueue_list_head s" "works (upd_work s w f) = (works s)(w := f (works s w))"
  by (simp_all add: upd_work_def)

lemma upd_wq_frame [simp]:
  "krn (upd_wq s q g) = krn s" "timers (upd_wq s q g) = timers s" "g_timer_head (upd_wq s q g) = g_timer_head s"
  "g_timer_count (upd_wq s q g) = g_timer_count s" "works (upd_wq s q g) = works s"
  "g_workqueue_list_head (upd_wq s q g) = g_workqueue_list_head s" "workqueues (upd_wq s q g) = (workqueues s)(q := g (workqueues s q))"
  by (simp_all add: upd_wq_def)

lemma work_node_rm_frame [simp]:
  "krn (work_node_rm s w) = krn s" "timers (work_node_rm s w) = timers s" "g_timer_head (work_node_rm s w) = g_timer_head s"
  "g_timer_count (work_node_rm s w) = g_timer_count s" "works (work_node_rm s w) = works s"
  "g_workqueue_list_head (work_node_rm s w) = g_workqueue_list_head s"
  "workqueues (work_node_rm s w) q = (workqueues s q)\<lparr>work_list := remove1 w (work_list (workqueues s q))\<rparr>"
  by (simp_all add: work_node_rm_def)

lemma on_kernel_frame [simp]:
  "fst (on_kernel s r) = fst r" "krn (snd (on_kernel s r)) = snd r" "timers (snd (on_kernel s r)) = timers s"
  "g_timer_head (snd (on_kernel s r)) = g_timer_head s" "g_timer_count (snd (on_kernel s r)) = g_timer_count s"
  "works (snd (on_kernel s r)) = works s" "workqueues (snd (on_kernel s r)) = workqueues s"
  by (simp_all add: on_kernel_def)

text \<open>The contract of theory \<open>K_Timer\<close> holds of the callbacks when it holds of the user's.\<close>

locale user_callbacks = user: quiet_callbacks user for user :: "u32 \<Rightarrow> u32 \<Rightarrow> u32 \<Rightarrow> 'a wsys_scheme \<Rightarrow> 'a wsys_scheme"
begin

lemma work_timer_quiet:
  "timers (work_timer_cb t a s) = timers s \<and> g_timer_head (work_timer_cb t a s) = g_timer_head s \<and>
   g_timer_count (work_timer_cb t a s) = g_timer_count s"
  by (simp add: work_timer_cb_def work_enqueue_def Let_def)

end

sublocale user_callbacks \<subseteq> all: quiet_callbacks "callbacks user"
  by unfold_locales (simp_all add: callbacks_def work_timer_quiet user.quiet)

text \<open>The kernel alone: timers whose callback does nothing of its own.\<close>

interpretation kernel_callbacks: user_callbacks "\<lambda>f t a s. s"
  by unfold_locales simp_all

section \<open>Works on lists\<close>

text \<open>\<open>work_exit\<close> marks exactly the works that wait on a list, each on one list, once.\<close>

definition works_inv :: "'a wsys_scheme \<Rightarrow> bool" where
  "works_inv s \<longleftrightarrow>
     (\<forall>q. distinct (work_list (workqueues s q))) \<and>
     (\<forall>q w. w \<in> set (work_list (workqueues s q)) \<longleftrightarrow> work_exit (works s w) = 1 \<and> wk_wq (works s w) = q)"

lemma work_enqueue_inv:
  assumes i: "works_inv s" and n: "work_exit (works s w) \<noteq> 1"
  shows "works_inv (work_enqueue s q w)"
    "work_list (workqueues (work_enqueue s q w) q) = work_list (workqueues s q) @ [w]"
    "q' \<noteq> q \<Longrightarrow> work_list (workqueues (work_enqueue s q w) q') = work_list (workqueues s q')"
proof -
  have "w \<notin> set (work_list (workqueues s q'))" for q' using i n by (auto simp: works_inv_def)
  then have rm: "remove1 w (work_list (workqueues s q')) = work_list (workqueues s q')" for q' by (simp add: remove1_idem)
  show "works_inv (work_enqueue s q w)" using i n by (auto simp: works_inv_def work_enqueue_def Let_def rm)
  show "work_list (workqueues (work_enqueue s q w) q) = work_list (workqueues s q) @ [w]"
    "q' \<noteq> q \<Longrightarrow> work_list (workqueues (work_enqueue s q w) q') = work_list (workqueues s q')"
    by (simp_all add: work_enqueue_def Let_def rm)
qed

lemma works_inv_cong: "works s' = works s \<Longrightarrow> workqueues s' = workqueues s \<Longrightarrow> works_inv s' = works_inv s"
  by (simp add: works_inv_def)

lemma send_cmd_frame [simp]:
  "works (snd (send_cmd s c)) = works s" "workqueues (snd (send_cmd s c)) = workqueues s" "timers (snd (send_cmd s c)) = timers s"
  by (simp_all add: send_cmd_def split_def Let_def)

lemma krhino_work_run_inv:
  assumes i: "works_inv s"
  shows "works_inv (snd (krhino_work_run junk s q w))"
proof -
  have "works_inv (snd (on_kernel (work_enqueue s q w) r))" if "work_exit (works s w) \<noteq> 1" for r
    using works_inv_cong [of "snd (on_kernel (work_enqueue s q w) r)" "work_enqueue s q w"] work_enqueue_inv(1) [OF i that] by simp
  moreover have "works_inv (snd (krhino_timer_arg_change_auto junk (upd_timer s t f) (Some u) q))" for t f u
    using i works_inv_cong [of "snd (send_cmd (upd_timer s t f) c)" s for c]
    by (simp add: krhino_timer_arg_change_auto_def) (simp add: upd_timer_def)
  ultimately show ?thesis using i by (simp add: krhino_work_run_def Let_def)
qed

lemma work_timer_cb_inv:
  assumes i: "works_inv s"
  shows "works_inv (work_timer_cb t q s)"
proof -
  have "works_inv (snd (on_kernel (work_enqueue s q w) r))" if "work_exit (works s w) \<noteq> 1" for r w
    using works_inv_cong [of "snd (on_kernel (work_enqueue s q w) r)" "work_enqueue s q w"] work_enqueue_inv(1) [OF i that] by simp
  then show ?thesis using i by (simp add: work_timer_cb_def Let_def)
qed

lemma worker_take_inv:
  assumes i: "works_inv s" and l: "work_list (workqueues s q) = w # ws"
  shows "works_inv (snd (worker_task_take s q RHINO_SUCCESS))"
    "fst (worker_task_take s q RHINO_SUCCESS) = Some (wk_handle (works s w), wk_arg (works s w))"
    "work_list (workqueues (snd (worker_task_take s q RHINO_SUCCESS)) q) = ws"
    "work_current (workqueues (snd (worker_task_take s q RHINO_SUCCESS)) q) = w"
    "krn (snd (worker_task_take s q RHINO_SUCCESS)) = krn s"
proof -
  have d: "distinct (work_list (workqueues s q'))" for q' using i by (simp add: works_inv_def)
  have m: "w' \<in> set (work_list (workqueues s q')) \<longleftrightarrow> work_exit (works s w') = 1 \<and> wk_wq (works s w') = q'" for w' q'
    using i by (simp add: works_inv_def)
  have w: "w \<notin> set ws" "distinct ws" "work_exit (works s w) = 1" "wk_wq (works s w) = q" using d [of q] m [of w q] l by auto
  have ws: "w' \<in> set ws \<longleftrightarrow> w' \<noteq> w \<and> work_exit (works s w') = 1 \<and> wk_wq (works s w') = q" for w'
    using m [of w' q] l w by auto
  let ?s = "snd (worker_task_take s q RHINO_SUCCESS)"
  have wl: "work_list (workqueues ?s q') = (if q' = q then ws else work_list (workqueues s q'))" for q'
    using l m [of w q'] w(4) by (simp add: worker_task_take_def Let_def remove1_idem)
  have wk: "work_exit (works ?s w') = (if w' = w then 0 else work_exit (works s w'))" "wk_wq (works ?s w') = wk_wq (works s w')" for w'
    using l by (simp_all add: worker_task_take_def Let_def)
  show "works_inv ?s" unfolding works_inv_def wl wk using d m ws w by auto
  show "fst (worker_task_take s q RHINO_SUCCESS) = Some (wk_handle (works s w), wk_arg (works s w))"
    "work_list (workqueues (snd (worker_task_take s q RHINO_SUCCESS)) q) = ws"
    "work_current (workqueues (snd (worker_task_take s q RHINO_SUCCESS)) q) = w"
    "krn (snd (worker_task_take s q RHINO_SUCCESS)) = krn s"
    using l by (simp_all add: worker_task_take_def Let_def)
qed

lemma krhino_work_cancel_inv:
  assumes i: "works_inv s"
  shows "works_inv (snd (krhino_work_cancel junk s w))"
proof -
  have "works_inv (snd (krhino_timer_stop junk s (Some t)))" for t
    using i works_inv_cong [of "snd (send_cmd s c)" s for c] by (simp add: krhino_timer_stop_def)
  moreover have "works_inv (upd_work (work_node_rm s w) w (\<lambda>x. x\<lparr>wk_wq := 0\<rparr>))" if "work_exit (works s w) \<noteq> 1"
    using i that by (auto simp: works_inv_def distinct_remove1)
  ultimately show ?thesis using i by (simp add: krhino_work_cancel_def Let_def)
qed

end
