(* ===== verification/K_Boot.thy ===== *)
theory K_Boot
  imports Kernel_Steps K_Workqueue
begin

text \<open>
  The boot, \<open>krhino_init\<close> in \<open>k_sys.c\<close>: the lists, the semaphore and task that release dynamic
  memory, the idle task, the default work queue with its worker, the timer queue and its task.
  It starts from zeroed memory, with the addresses the linker chose. (The calls that set up the heap and
  the list of blocks to release are in theory \<open>K_Dyn\<close>, whose state has both.) The state it leaves is
  well formed, so that everything shown of runs holds from the start of the system.
\<close>

section \<open>The image\<close>

record image =
  im_deathbed :: u32
  im_dyn_entry :: u32
  im_idle_entry :: u32
  im_worker_entry :: u32
  im_timer_entry :: u32
  im_dyn_stack :: u32
  im_idle_stack :: u32
  im_workqueue_stack :: u32
  im_timer_stack :: u32
  im_dyn_task :: tid
  im_idle_task :: tid
  im_worker :: tid
  im_timer_task :: tid
  im_res_sem :: oid
  im_worker_sem :: oid

definition RHINO_CONFIG_K_DYN_MEM_TASK_PRI :: nat where "RHINO_CONFIG_K_DYN_MEM_TASK_PRI = 6"
definition RHINO_CONFIG_K_DYN_TASK_STACK :: u32 where "RHINO_CONFIG_K_DYN_TASK_STACK = 256"
definition RHINO_CONFIG_IDLE_TASK_STACK_SIZE :: u32 where "RHINO_CONFIG_IDLE_TASK_STACK_SIZE = 200"
definition RHINO_CONFIG_TIMER_TASK_PRI :: nat where "RHINO_CONFIG_TIMER_TASK_PRI = 5"
definition RHINO_CONFIG_TIMER_TASK_STACK_SIZE :: u32 where "RHINO_CONFIG_TIMER_TASK_STACK_SIZE = 300"
definition RHINO_CONFIG_TIMER_MSG_NUM :: nat where "RHINO_CONFIG_TIMER_MSG_NUM = 20"

lemmas boot_config = RHINO_CONFIG_K_DYN_MEM_TASK_PRI_def RHINO_CONFIG_K_DYN_TASK_STACK_def
  RHINO_CONFIG_IDLE_TASK_STACK_SIZE_def RHINO_CONFIG_TIMER_TASK_PRI_def RHINO_CONFIG_TIMER_TASK_STACK_SIZE_def
  RHINO_CONFIG_TIMER_MSG_NUM_def RHINO_CONFIG_WORKQUEUE_TASK_PRIO_def RHINO_CONFIG_WORKQUEUE_STACK_SIZE_def

text \<open>Zeroed memory. (The state of an unused task, type of an unused object, \<open>NULL\<close> lists.)\<close>

definition zero_kernel :: kernel where
  "zero_kernel = \<lparr>g_sys_stat = RHINO_SUCCESS, g_idle_task_spawned = 0,
     g_ready_queue = \<lparr>cur_list_item = (\<lambda>_. []), task_bit_map = [0, 0], highest_pri = 0\<rparr>,
     g_sched_lock = 0, g_intrpt_nested_level = 0, g_preferred_ready_task = 0, g_active_task = 0,
     g_tick_count = 0, g_tick_list = [],
     g_kobj_list = \<lparr>l_task_head = [], l_mutex_head = [], l_sem_head = [],
       l_queue_head = [], l_event_head = [], l_buf_queue_head = []\<rparr>,
     tcb = (\<lambda>_. blank_task),
     blk = (\<lambda>_. \<lparr>blk_list = [], obj_name = None, blk_policy = BLK_POLICY_PRI, obj_type = RHINO_OBJ_TYPE_NONE,
       obj_cancel = 0, obj_mm_flag = 0\<rparr>),
     sems = (\<lambda>_. \<lparr>count = 0, peak_count = 0\<rparr>),
     mutexes = (\<lambda>_. \<lparr>mutex_task = None, owner_nested = 0\<rparr>),
     event_flags = (\<lambda>_. 0),
     queues = (\<lambda>_. \<lparr>msg_q = \<lparr>q_size = 0, cur_num = 0, peak_num = 0\<rparr>, q_ringbuf = ringbuf_init [] 0 0 0\<rparr>),
     buf_queues = (\<lambda>_. \<lparr>bq_ringbuf = ringbuf_init [] 0 0 0, max_msg_size = 0, bq_cur_num = 0,
       bq_peak_num = 0, min_free_buf_size = 0\<rparr>),
     cells = (\<lambda>_. 0), bufs = (\<lambda>_. []), traps = []\<rparr>"

definition zero_memory :: "image \<Rightarrow> wsys" where
  "zero_memory im = \<lparr>krn = zero_kernel,
     timers = (\<lambda>_. \<lparr>to_head = False, tm_name = None, tm_cb = 0, timer_cb_arg = 0, tm_match = 0, tm_remain = 0,
       init_count = 0, round_ticks = 0, tm_priv = 0, tm_obj_type = RHINO_OBJ_TYPE_NONE,
       timer_state = TIMER_DEACTIVE, tm_mm_flag = 0\<rparr>),
     g_timer_head = [], g_timer_count = 0,
     works = (\<lambda>_. \<lparr>wk_handle = 0, wk_arg = 0, wk_dly = 0, wk_timer = 0, wk_wq = 0, work_exit = 0\<rparr>),
     workqueues = (\<lambda>_. \<lparr>work_list = [], work_current = 0, wq_name = None, wq_worker = im_worker im, wq_sem = im_worker_sem im\<rparr>),
     g_workqueue_list_head = []\<rparr>"

section \<open>Initialisation\<close>

definition kobj_list_init :: "kobj_list_t" where
  "kobj_list_init = \<lparr>l_task_head = [], l_mutex_head = [], l_sem_head = [], l_queue_head = [], l_event_head = [], l_buf_queue_head = []\<rparr>"

definition dyn_mem_proc_task_start :: "image \<Rightarrow> kernel \<Rightarrow> kernel" where
  "dyn_mem_proc_task_start im s =
     snd (krhino_task_create (im_deathbed im) s (Some (im_dyn_task im)) (Some ''dyn_mem_proc_task'') 0
       RHINO_CONFIG_K_DYN_MEM_TASK_PRI 0 (Some (im_dyn_stack im)) RHINO_CONFIG_K_DYN_TASK_STACK (Some (im_dyn_entry im)) 1)"

definition ktimer_init :: "image \<Rightarrow> 'a wsys_scheme \<Rightarrow> 'a wsys_scheme" where
  "ktimer_init im s =
     (let s1 = s\<lparr>g_timer_head := []\<rparr>;
          s2 = snd (on_kernel s1 (krhino_fix_buf_queue_create (krn s1) (Some g_timer_queue) (Some ''timer_queue'')
                 (Some (replicate (sizeof_cb * RHINO_CONFIG_TIMER_MSG_NUM) 0)) sizeof_cb RHINO_CONFIG_TIMER_MSG_NUM))
      in snd (on_kernel s2 (krhino_task_create (im_deathbed im) (krn s2) (Some (im_timer_task im)) (Some ''timer_task'') 0
           RHINO_CONFIG_TIMER_TASK_PRI 0 (Some (im_timer_stack im)) RHINO_CONFIG_TIMER_TASK_STACK_SIZE
           (Some (im_timer_entry im)) 1)))"

definition krhino_init :: "image \<Rightarrow> 'a wsys_scheme \<Rightarrow> kstat \<times> 'a wsys_scheme" where
  "krhino_init im s =
     (let k1 = (krn s)\<lparr>g_sys_stat := RHINO_STOPPED\<rparr>;
          k2 = k1\<lparr>g_ready_queue := runqueue_init (g_ready_queue k1)\<rparr>;
          k3 = tick_list_init k2;
          k4 = k3\<lparr>g_kobj_list := kobj_list_init\<rparr>;
          k5 = snd (krhino_sem_create k4 (Some (im_res_sem im)) (Some ''res_sem'') 0);
          k6 = dyn_mem_proc_task_start im k5;
          k7 = snd (krhino_task_create (im_deathbed im) k6 (Some (im_idle_task im)) (Some ''idle_task'') 0
                 RHINO_IDLE_PRI 0 (Some (im_idle_stack im)) RHINO_CONFIG_IDLE_TASK_STACK_SIZE (Some (im_idle_entry im)) 1);
          s1 = workqueue_init (im_deathbed im) (im_worker_entry im) (im_workqueue_stack im) (s\<lparr>krn := k7\<rparr>);
          s2 = ktimer_init im s1
      in (RHINO_SUCCESS, s2))"

definition booted :: "image \<Rightarrow> wsys" where
  "booted im = snd (krhino_init im (zero_memory im))"

text \<open>The linker gives every object its own memory.\<close>

definition image_ok :: "image \<Rightarrow> bool" where
  "image_ok im \<longleftrightarrow>
     distinct [im_dyn_task im, im_idle_task im, im_worker im, im_timer_task im] \<and>
     distinct [im_res_sem im, im_worker_sem im, g_timer_queue] \<and>
     stack_fits (im_dyn_stack im) RHINO_CONFIG_K_DYN_TASK_STACK \<and>
     stack_fits (im_idle_stack im) RHINO_CONFIG_IDLE_TASK_STACK_SIZE \<and>
     stack_fits (im_workqueue_stack im) RHINO_CONFIG_WORKQUEUE_STACK_SIZE \<and>
     stack_fits (im_timer_stack im) RHINO_CONFIG_TIMER_TASK_STACK_SIZE"

section \<open>The state after it\<close>

text \<open>A state in which nothing has run: some tasks are ready, nobody waits, no mutex exists.\<close>

definition fresh :: "tid list \<Rightarrow> kernel \<Rightarrow> bool" where
  "fresh ts s \<longleftrightarrow> g_sys_stat s = RHINO_STOPPED \<and> g_sched_lock s = 0 \<and> g_intrpt_nested_level s = 0 \<and> traps s = [] \<and>
     distinct ts \<and> l_task_head (g_kobj_list s) = ts \<and> g_tick_list s = [] \<and>
     (\<forall>t. if t \<in> set ts then task_state (tcb s t) = K_RDY \<and> b_prio (tcb s t) = prio (tcb s t) \<and>
            prio (tcb s t) < RHINO_CONFIG_PRI_MAX \<and> \<not> tick_head (tcb s t) \<and> mutex_list (tcb s t) = []
          else tcb s t = blank_task) \<and>
     rq_holds (g_ready_queue s) (ready_set s) \<and>
     (\<forall>ob. blk_list (blk s ob) = [] \<and> obj_type (blk s ob) \<noteq> RHINO_MUTEX_OBJ_TYPE \<and>
           obj_type (blk s ob) \<noteq> RHINO_QUEUE_OBJ_TYPE \<and>
           (obj_type (blk s ob) = RHINO_BUF_QUEUE_OBJ_TYPE \<longrightarrow> bufq_ok (buf_queues s ob)))"

lemma fresh_ready: "fresh ts s \<Longrightarrow> task_state (tcb s t) = K_RDY \<longleftrightarrow> t \<in> set ts"
  by (cases "t \<in> set ts") (auto simp: fresh_def blank_task_def dest: spec [of _ t])

lemma fresh_kwf:
  assumes f: "fresh ts s" and i: "i \<in> set ts" "prio (tcb s i) = RHINO_IDLE_PRI"
  shows "kwf s"
proof -
  have t: "task_state (tcb s t) = (if t \<in> set ts then K_RDY else K_SEED)" "b_prio (tcb s t) = prio (tcb s t)"
    "prio (tcb s t) < RHINO_CONFIG_PRI_MAX" "\<not> tick_head (tcb s t)" "mutex_list (tcb s t) = []" for t
    using f by (auto simp: fresh_def blank_task_def config_defs split: if_splits)
  have b: "blk_list (blk s ob) = []" "obj_type (blk s ob) \<noteq> RHINO_MUTEX_OBJ_TYPE" "obj_type (blk s ob) \<noteq> RHINO_QUEUE_OBJ_TYPE"
    "obj_type (blk s ob) = RHINO_BUF_QUEUE_OBJ_TYPE \<Longrightarrow> bufq_ok (buf_queues s ob)" for ob
    using f by (simp_all add: fresh_def)
  have nb: "\<not> blocked (tcb s t)" "\<not> sleeping (tcb s t)" "live (tcb s t) \<longleftrightarrow> t \<in> set ts" for t
    using t by (auto simp: blocked_def sleeping_def live_def)
  have idle: "t \<in> set ts" if "prio (tcb s t) = RHINO_IDLE_PRI" for t
    using that f by (auto simp: fresh_def blank_task_def config_defs split: if_splits)
  have "i \<in> ready_set s RHINO_IDLE_PRI" using i t by (simp add: ready_set_def)
  then have "rq_inv s" using f by (auto simp: rq_inv_def fresh_def)
  moreover have "prio_inv s" using t by (simp add: prio_inv_def prio_ok_def)
  moreover have "blk_inv s" using b nb by (simp add: blk_inv_def wait_set_def)
  moreover have "tick_inv s" using t nb f by (simp add: tick_inv_def fresh_def)
  moreover have "obj_inv s" using b by (simp add: obj_inv_def)
  moreover have "settled s" using b by (simp add: settled_def)
  moreover have "minv s" using t b by (simp add: minv_def)
  moreover have "task_list_inv s" using f nb by (simp add: task_list_inv_def fresh_def)
  moreover have "idle_inv s" using t idle by (auto simp: idle_inv_def)
  moreover have "data_inv s" using b by (simp add: data_inv_def)
  moreover have "no_self s" using nb by (simp add: no_self_def waits_for_def)
  ultimately show ?thesis by (simp add: kwf_def kinv_def)
qed

text \<open>Each call of the boot adds one task or object to a fresh state.\<close>

lemma fresh_task:
  assumes f: "fresh ts s" and t: "t \<notin> set ts" and fit: "stack_fits base sz" and sz: "sz \<noteq> 0" and p: "pri < RHINO_CONFIG_PRI_MAX"
    and idle: "pri = RHINO_IDLE_PRI \<Longrightarrow> g_idle_task_spawned s = 0"
    and r_def: "r = krhino_task_create deathbed s (Some t) (Some name) arg pri ticks (Some base) sz (Some entry) 1"
  shows "fst r = RHINO_SUCCESS \<and> fresh (ts @ [t]) (snd r) \<and> prio (tcb (snd r) t) = pri \<and>
    (\<forall>u. u \<noteq> t \<longrightarrow> tcb (snd r) u = tcb s u) \<and> blk (snd r) = blk s \<and> buf_queues (snd r) = buf_queues s \<and>
    (pri \<noteq> RHINO_IDLE_PRI \<longrightarrow> g_idle_task_spawned (snd r) = g_idle_task_spawned s)"
proof -
  define k where "k = fst (task_init deathbed (Some name) arg pri ticks base sz entry 1 K_OBJ_STATIC_ALLOC)"
  note kf = task_init_fields [OF k_def]
  have ti: "task_init deathbed (Some name) arg pri ticks base sz entry 1 K_OBJ_STATIC_ALLOC = (k, [])"
    using task_init_ok [OF fit] by (metis k_def prod.collapse)
  define s1 where "s1 = (if pri = RHINO_IDLE_PRI then s\<lparr>g_idle_task_spawned := 1\<rparr> else s)"
  define s2 where "s2 = (upd_task s1 t (\<lambda>_. k))\<lparr>g_kobj_list := (g_kobj_list s)\<lparr>l_task_head := ts @ [t]\<rparr>,
     g_ready_queue := ready_list_add_tail (g_ready_queue s) pri t\<rparr>"
  have g: "g_sys_stat s = RHINO_STOPPED" "g_sched_lock s = 0" "g_intrpt_nested_level s = 0" "traps s = []"
    "l_task_head (g_kobj_list s) = ts" "distinct ts" "tcb s t = blank_task" "rq_holds (g_ready_queue s) (ready_set s)"
    using f t by (auto simp: fresh_def)
  have np: "\<not> RHINO_CONFIG_PRI_MAX \<le> pri" using p by simp
  have e: "r = (RHINO_SUCCESS, s2)" unfolding r_def
    using g sz np idle ti kf by (simp add: krhino_task_create_def task_create_def Let_def s1_def s2_def upd_task_def)
  have rs: "ready_set s2 = (ready_set s)(pri := insert t (ready_set s pri))"
    using g(7) kf by (auto simp: fun_eq_iff ready_set_def s2_def s1_def blank_task_def)
  have "t \<notin> ready_set s pri" using g(7) by (simp add: ready_set_def blank_task_def)
  then have "rq_holds (g_ready_queue s2) (ready_set s2)"
    using ready_list_add_tail_holds [OF g(8), of t pri] p rs by (simp add: s2_def)
  then have "fresh (ts @ [t]) s2" using f t kf p by (auto simp: fresh_def s2_def s1_def)
  then show ?thesis using kf by (simp add: e s2_def s1_def)
qed

text \<open>A new object does not touch the tasks.\<close>

lemma fresh_sem:
  assumes f: "fresh ts s" and r_def: "r = krhino_sem_create s (Some ob) (Some name) 0"
  shows "fst r = RHINO_SUCCESS \<and> fresh ts (snd r) \<and> tcb (snd r) = tcb s \<and>
    (\<forall>o'. o' \<noteq> ob \<longrightarrow> obj_type (blk (snd r) o') = obj_type (blk s o')) \<and> g_idle_task_spawned (snd r) = g_idle_task_spawned s"
proof -
  have "ready_set (snd r) = ready_set s"
    by (simp add: r_def krhino_sem_create_def sem_create_def upd_sem_def Let_def fun_eq_iff ready_set_def)
  then have "fresh ts (snd r)"
    using f by (simp add: fresh_def r_def krhino_sem_create_def sem_create_def upd_sem_def Let_def)
  then show ?thesis by (simp add: r_def krhino_sem_create_def sem_create_def upd_sem_def Let_def)
qed

lemma fresh_buf_queue:
  assumes f: "fresh ts s" and n: "0 < m" "0 < n" "m * n < 2 ^ 32"
    and r_def: "r = krhino_fix_buf_queue_create s (Some ob) (Some name) (Some (replicate (m * n) 0)) m n"
  shows "fst r = RHINO_SUCCESS \<and> fresh ts (snd r) \<and> tcb (snd r) = tcb s \<and> g_idle_task_spawned (snd r) = g_idle_task_spawned s \<and>
    obj_type (blk (snd r) ob) = RHINO_BUF_QUEUE_OBJ_TYPE \<and> max_msg_size (buf_queues (snd r) ob) = m"
proof -
  define r0 :: k_ringbuf where "r0 = \<lparr>rb_mem = replicate (m * n) 0, rb_end = m * n, rb_head = 0, rb_tail = 0, rb_freesize = 0,
    rb_type = RINGBUF_TYPE_FIX, rb_blk_size = m\<rparr>"
  have rb: "ringbuf_init (replicate (m * n) 0) (m * n) RINGBUF_TYPE_FIX m = ringbuf_reset r0"
    by (simp add: ringbuf_init_def r0_def)
  have r0: "0 < rb_end r0" "length (rb_mem r0) = rb_end r0" using n by (simp_all add: r0_def)
  have "fix_holds (ringbuf_reset r0) [] \<and> rb_blk_size (ringbuf_reset r0) = m"
    using reset_holds(3) [OF r0] n by (simp add: r0_def ringbuf_reset_def)
  then have q: "bufq_ok \<lparr>bq_ringbuf = ringbuf_reset r0, max_msg_size = m, bq_cur_num = 0, bq_peak_num = 0,
      min_free_buf_size = x\<rparr>" for x
    by (auto simp: bufq_ok_def bq_msgs_def intro!: exI [of _ "[]"])
  have e: "m \<noteq> 0" "m * n \<noteq> 0" "(m * n) mod 4294967296 = m * n" using n by simp_all
  have "ready_set (snd r) = ready_set s"
    using e by (simp add: r_def krhino_fix_buf_queue_create_def buf_queue_create_def upd_bq_def Let_def fun_eq_iff ready_set_def)
  then have "fresh ts (snd r)"
    using f e q by (simp add: fresh_def r_def krhino_fix_buf_queue_create_def buf_queue_create_def upd_bq_def Let_def rb)
  then show ?thesis
    using e by (simp add: r_def krhino_fix_buf_queue_create_def buf_queue_create_def upd_bq_def Let_def)
qed

section \<open>The whole boot\<close>

lemma fresh_zero: "fresh [] (((zero_kernel\<lparr>g_sys_stat := RHINO_STOPPED\<rparr>)
    \<lparr>g_ready_queue := runqueue_init (g_ready_queue zero_kernel), g_tick_list := [], g_kobj_list := kobj_list_init\<rparr>))"
proof -
  have "\<not> bitmap_test [0, 0] p" for p by (auto simp: bitmap_test_def nth_Cons')
  then have "rq_holds (runqueue_init (g_ready_queue zero_kernel)) (\<lambda>_. {})"
    by (simp add: rq_holds_def NUM_WORDS_def RHINO_CONFIG_PRI_MAX_def runqueue_init_def zero_kernel_def)
  moreover have "ready_set s = (\<lambda>_. {})" if "tcb s = (\<lambda>_. blank_task)" for s
    using that by (simp add: ready_set_def fun_eq_iff blank_task_def)
  ultimately show ?thesis by (simp add: fresh_def zero_kernel_def kobj_list_init_def)
qed

lemma workqueue_init_fresh:
  assumes f: "fresh ts (krn s)" and t: "wq_worker (workqueues s g_workqueue_default) \<notin> set ts"
    and fit: "stack_fits stack RHINO_CONFIG_WORKQUEUE_STACK_SIZE"
    and s'_def: "s' = workqueue_init deathbed entry stack s"
  shows "fresh (ts @ [wq_worker (workqueues s g_workqueue_default)]) (krn s') \<and>
    (\<forall>u \<in> set ts. tcb (krn s') u = tcb (krn s) u) \<and>
    prio (tcb (krn s') (wq_worker (workqueues s g_workqueue_default))) = RHINO_CONFIG_WORKQUEUE_TASK_PRIO \<and>
    timers s' = timers s \<and> works s' = works s \<and>
    workqueues s' = (workqueues s)(g_workqueue_default := (workqueues s g_workqueue_default)
      \<lparr>work_list := [], work_current := 0, wq_name := Some ''DEFAULT-WORKQUEUE''\<rparr>) \<and>
    g_workqueue_list_head s' = [g_workqueue_default] \<and> g_timer_count s' = g_timer_count s"
proof -
  let ?q = "workqueues s g_workqueue_default"
  define r1 where "r1 = krhino_sem_create (krn s) (Some (wq_sem ?q)) (Some ''WORKQUEUE-SEM'') 0"
  define r2 where "r2 = krhino_task_create deathbed (snd r1) (Some (wq_worker ?q)) (Some ''DEFAULT-WORKQUEUE'')
    g_workqueue_default RHINO_CONFIG_WORKQUEUE_TASK_PRIO 0 (Some stack) RHINO_CONFIG_WORKQUEUE_STACK_SIZE (Some entry) 1"
  note a = fresh_sem [OF f r1_def]
  have b: "fst r2 = RHINO_SUCCESS \<and> fresh (ts @ [wq_worker ?q]) (snd r2) \<and>
      prio (tcb (snd r2) (wq_worker ?q)) = RHINO_CONFIG_WORKQUEUE_TASK_PRIO \<and>
      (\<forall>u. u \<noteq> wq_worker ?q \<longrightarrow> tcb (snd r2) u = tcb (snd r1) u)"
    using fresh_task [OF _ t fit _ _ _ r2_def] a by (simp add: boot_config config_defs)
  have e: "krn s' = snd r2" "timers s' = timers s" "works s' = works s" "g_timer_count s' = g_timer_count s"
    "workqueues s' = (workqueues s)(g_workqueue_default := ?q\<lparr>work_list := [], work_current := 0, wq_name := Some ''DEFAULT-WORKQUEUE''\<rparr>)"
    "g_workqueue_list_head s' = [g_workqueue_default]"
    using a b
    by (simp_all add: s'_def workqueue_init_def krhino_workqueue_create_def workqueue_is_exist_def Let_def split_def
        r1_def r2_def boot_config config_defs upd_wq_def g_workqueue_default_def on_kernel_def)
  have "u \<noteq> wq_worker ?q" if "u \<in> set ts" for u using t that by auto
  then show ?thesis using a b e by simp
qed

lemma ktimer_init_fresh:
  assumes f: "fresh ts (krn s)" and t: "im_timer_task im \<notin> set ts"
    and fit: "stack_fits (im_timer_stack im) RHINO_CONFIG_TIMER_TASK_STACK_SIZE"
    and s'_def: "s' = ktimer_init im s"
  shows "fresh (ts @ [im_timer_task im]) (krn s') \<and> (\<forall>u \<in> set ts. tcb (krn s') u = tcb (krn s) u) \<and>
    prio (tcb (krn s') (im_timer_task im)) = RHINO_CONFIG_TIMER_TASK_PRI \<and>
    obj_type (blk (krn s') g_timer_queue) = RHINO_BUF_QUEUE_OBJ_TYPE \<and>
    max_msg_size (buf_queues (krn s') g_timer_queue) = sizeof_cb \<and>
    timers s' = timers s \<and> g_timer_head s' = [] \<and> g_timer_count s' = g_timer_count s \<and>
    works s' = works s \<and> workqueues s' = workqueues s"
proof -
  define r1 where "r1 = krhino_fix_buf_queue_create (krn s) (Some g_timer_queue) (Some ''timer_queue'')
    (Some (replicate (sizeof_cb * RHINO_CONFIG_TIMER_MSG_NUM) 0)) sizeof_cb RHINO_CONFIG_TIMER_MSG_NUM"
  define r2 where "r2 = krhino_task_create (im_deathbed im) (snd r1) (Some (im_timer_task im)) (Some ''timer_task'') 0
    RHINO_CONFIG_TIMER_TASK_PRI 0 (Some (im_timer_stack im)) RHINO_CONFIG_TIMER_TASK_STACK_SIZE (Some (im_timer_entry im)) 1"
  have a: "fresh ts (snd r1)" "tcb (snd r1) = tcb (krn s)" "obj_type (blk (snd r1) g_timer_queue) = RHINO_BUF_QUEUE_OBJ_TYPE"
    "max_msg_size (buf_queues (snd r1) g_timer_queue) = sizeof_cb"
    using fresh_buf_queue [OF f _ _ _ r1_def] by (simp_all add: boot_config sizeof_cb_def)
  have "fst r2 = RHINO_SUCCESS \<and> fresh (ts @ [im_timer_task im]) (snd r2) \<and>
      prio (tcb (snd r2) (im_timer_task im)) = RHINO_CONFIG_TIMER_TASK_PRI \<and>
      (\<forall>u. u \<noteq> im_timer_task im \<longrightarrow> tcb (snd r2) u = tcb (snd r1) u) \<and> blk (snd r2) = blk (snd r1) \<and>
      buf_queues (snd r2) = buf_queues (snd r1)"
    using fresh_task [OF a(1) t fit _ _ _ r2_def] by (simp add: boot_config config_defs)
  moreover have "krn s' = snd r2" "timers s' = timers s" "g_timer_head s' = []" "g_timer_count s' = g_timer_count s"
    "works s' = works s" "workqueues s' = workqueues s"
    by (simp_all add: s'_def ktimer_init_def Let_def r1_def r2_def)
  moreover have "u \<noteq> im_timer_task im" if "u \<in> set ts" for u using t that by auto
  ultimately show ?thesis using a by simp
qed

text \<open>After the boot the four tasks of the kernel are ready, and nothing else exists.\<close>

lemma booted_fresh:
  assumes im: "image_ok im"
  shows "fst (krhino_init im (zero_memory im)) = RHINO_SUCCESS \<and>
    fresh [im_dyn_task im, im_idle_task im, im_worker im, im_timer_task im] (krn (booted im)) \<and>
    map (\<lambda>t. prio (tcb (krn (booted im)) t)) [im_dyn_task im, im_idle_task im, im_worker im, im_timer_task im] =
      [RHINO_CONFIG_K_DYN_MEM_TASK_PRI, RHINO_IDLE_PRI, RHINO_CONFIG_WORKQUEUE_TASK_PRIO, RHINO_CONFIG_TIMER_TASK_PRI] \<and>
    works_inv (booted im) \<and> g_timer_head (booted im) = [] \<and> timers (booted im) = timers (zero_memory im) \<and>
    obj_type (blk (krn (booted im)) g_timer_queue) = RHINO_BUF_QUEUE_OBJ_TYPE \<and>
    max_msg_size (buf_queues (krn (booted im)) g_timer_queue) = sizeof_cb"
proof -
  define k4 where "k4 = ((zero_kernel\<lparr>g_sys_stat := RHINO_STOPPED\<rparr>)
    \<lparr>g_ready_queue := runqueue_init (g_ready_queue zero_kernel), g_tick_list := [], g_kobj_list := kobj_list_init\<rparr>)"
  define r5 where "r5 = krhino_sem_create k4 (Some (im_res_sem im)) (Some ''res_sem'') 0"
  define r6 where "r6 = krhino_task_create (im_deathbed im) (snd r5) (Some (im_dyn_task im)) (Some ''dyn_mem_proc_task'') 0
       RHINO_CONFIG_K_DYN_MEM_TASK_PRI 0 (Some (im_dyn_stack im)) RHINO_CONFIG_K_DYN_TASK_STACK (Some (im_dyn_entry im)) 1"
  define r7 where "r7 = krhino_task_create (im_deathbed im) (snd r6) (Some (im_idle_task im)) (Some ''idle_task'') 0
       RHINO_IDLE_PRI 0 (Some (im_idle_stack im)) RHINO_CONFIG_IDLE_TASK_STACK_SIZE (Some (im_idle_entry im)) 1"
  define s7 where "s7 = (zero_memory im)\<lparr>krn := snd r7\<rparr>"
  define s8 where "s8 = workqueue_init (im_deathbed im) (im_worker_entry im) (im_workqueue_stack im) s7"
  define s9 where "s9 = ktimer_init im s8"
  have b: "krhino_init im (zero_memory im) = (RHINO_SUCCESS, s9)"
    by (simp add: krhino_init_def Let_def s9_def s8_def s7_def r7_def r6_def r5_def k4_def tick_list_init_def
        dyn_mem_proc_task_start_def zero_memory_def)
  have d: "distinct [im_dyn_task im, im_idle_task im, im_worker im, im_timer_task im]"
    and fits: "stack_fits (im_dyn_stack im) RHINO_CONFIG_K_DYN_TASK_STACK"
      "stack_fits (im_idle_stack im) RHINO_CONFIG_IDLE_TASK_STACK_SIZE"
      "stack_fits (im_workqueue_stack im) RHINO_CONFIG_WORKQUEUE_STACK_SIZE"
      "stack_fits (im_timer_stack im) RHINO_CONFIG_TIMER_TASK_STACK_SIZE"
    using im by (simp_all add: image_ok_def)
  note f5 = fresh_sem [OF fresh_zero [folded k4_def] r5_def]
  have i5: "g_idle_task_spawned (snd r5) = 0" using f5 by (simp add: k4_def zero_kernel_def)
  have f6: "fresh [im_dyn_task im] (snd r6) \<and> prio (tcb (snd r6) (im_dyn_task im)) = RHINO_CONFIG_K_DYN_MEM_TASK_PRI \<and>
      g_idle_task_spawned (snd r6) = 0"
    using fresh_task [OF conjunct1 [OF conjunct2 [OF f5]] _ fits(1) _ _ _ r6_def] i5 by (simp add: boot_config config_defs)
  then have f7: "fresh [im_dyn_task im, im_idle_task im] (snd r7) \<and> prio (tcb (snd r7) (im_idle_task im)) = RHINO_IDLE_PRI \<and>
      tcb (snd r7) (im_dyn_task im) = tcb (snd r6) (im_dyn_task im)"
    using fresh_task [OF conjunct1 [OF f6] _ fits(2) _ _ _ r7_def] d by (simp add: boot_config config_defs)
  have w7: "wq_worker (workqueues s7 g_workqueue_default) = im_worker im" "krn s7 = snd r7"
    by (simp_all add: s7_def zero_memory_def)
  have f8: "fresh [im_dyn_task im, im_idle_task im, im_worker im] (krn s8)"
      "\<forall>u \<in> {im_dyn_task im, im_idle_task im}. tcb (krn s8) u = tcb (snd r7) u"
      "prio (tcb (krn s8) (im_worker im)) = RHINO_CONFIG_WORKQUEUE_TASK_PRIO"
      "works s8 = works s7" "\<forall>q. work_list (workqueues s8 q) = []" "timers s8 = timers s7"
    using workqueue_init_fresh [of "[im_dyn_task im, im_idle_task im]" s7, OF _ _ fits(3) s8_def] f7 d
    by (simp_all add: w7 s7_def zero_memory_def)
  have f9: "fresh [im_dyn_task im, im_idle_task im, im_worker im, im_timer_task im] (krn s9)"
      "\<forall>u \<in> {im_dyn_task im, im_idle_task im, im_worker im}. tcb (krn s9) u = tcb (krn s8) u"
      "prio (tcb (krn s9) (im_timer_task im)) = RHINO_CONFIG_TIMER_TASK_PRI" "works s9 = works s8"
      "workqueues s9 = workqueues s8" "g_timer_head s9 = []" "timers s9 = timers s8"
      "obj_type (blk (krn s9) g_timer_queue) = RHINO_BUF_QUEUE_OBJ_TYPE"
      "max_msg_size (buf_queues (krn s9) g_timer_queue) = sizeof_cb"
    using ktimer_init_fresh [OF f8(1) _ fits(4) s9_def] d by simp_all
  have "timers s9 = timers (zero_memory im)" using f8 f9 by (simp add: s7_def)
  moreover have "works_inv s9" using f8 f9 by (simp add: works_inv_def s7_def zero_memory_def)
  ultimately show ?thesis unfolding booted_def b using f6 f7 f8 f9 by simp
qed

definition started :: "image \<Rightarrow> kernel" where
  "started im = snd (krhino_start (krn (booted im)))"

text \<open>\<open>krhino_start\<close> then runs the timer task, whose priority is the best of the four.\<close>

lemma started_good:
  assumes im: "image_ok im"
  shows "kwf (krn (booted im)) \<and> kwf (started im) \<and> act_inv (started im) \<and> traps (started im) = [] \<and>
    g_sys_stat (started im) = RHINO_RUNNING \<and> g_active_task (started im) = im_timer_task im"
proof -
  let ?s = "krn (booted im)"
  let ?ts = "[im_dyn_task im, im_idle_task im, im_worker im, im_timer_task im]"
  have f: "fresh ?ts ?s" and p: "prio (tcb ?s (im_dyn_task im)) = 6" "prio (tcb ?s (im_idle_task im)) = 61"
    "prio (tcb ?s (im_worker im)) = 20" "prio (tcb ?s (im_timer_task im)) = 5"
    using booted_fresh [OF im] by (simp_all add: boot_config config_defs)
  have w: "kwf ?s" by (rule fresh_kwf [OF f, of "im_idle_task im"]) (simp_all add: p config_defs)
  have st: "g_sys_stat ?s = RHINO_STOPPED" "traps ?s = []" using f by (simp_all add: fresh_def)
  note run = krhino_start_runs [OF w st(1)]
  have h: "rq_holds (g_ready_queue ?s) (ready_set ?s)" and i: "ready_set ?s RHINO_IDLE_PRI \<noteq> {}"
    using w kinv_ready by (auto simp: kwf_def)
  obtain t where t: "preferred_cpu_ready_task_get (g_ready_queue ?s) = Some t"
    and m: "t \<in> ready_set ?s (highest_pri (g_ready_queue ?s))"
    using preferred_is_highest [OF h i] by auto
  have "t \<in> set ?ts" using m fresh_ready [OF f] by (simp add: ready_set_def)
  moreover have "im_timer_task im \<in> ready_set ?s 5" using fresh_ready [OF f] p by (simp add: ready_set_def)
  then have "highest_pri (g_ready_queue ?s) \<le> 5" using rq_holds_highest [OF h, of 5] by blast
  then have "prio (tcb ?s t) \<le> 5" using m by (simp add: ready_set_def)
  ultimately have "t = im_timer_task im" using p by auto
  then have "g_active_task (started im) = im_timer_task im" using st t by (simp add: started_def krhino_start_def)
  then show ?thesis using w run st by (simp add: started_def)
qed

lemma runs_from_boot:
  assumes "image_ok im" "runs (started im) s"
  shows "kwf s \<and> act_inv s \<and> set (traps s) \<subseteq> {Diverged}"
  using runs_good [OF assms(2)] started_good [OF assms(1)] by auto

lemma free_runs_from_boot:
  assumes "image_ok im" "free_runs (started im) s"
  shows "traps s = []"
  using free_runs_no_traps [OF assms(2)] started_good [OF assms(1)] by auto

text \<open>An image as a linker might lay it out.\<close>

definition sample_image :: image where
  "sample_image = \<lparr>im_deathbed = 0x08000001, im_dyn_entry = 0x08000101, im_idle_entry = 0x08000201,
     im_worker_entry = 0x08000301, im_timer_entry = 0x08000401, im_dyn_stack = 0x20004000,
     im_idle_stack = 0x20005000, im_workqueue_stack = 0x20006000, im_timer_stack = 0x20007000,
     im_dyn_task = 10, im_idle_task = 11, im_worker = 12, im_timer_task = 13, im_res_sem = 10, im_worker_sem = 11\<rparr>"

lemma sample_image_ok: "image_ok sample_image"
  by (simp add: image_ok_def sample_image_def g_timer_queue_def stack_fits_def stack_top_def boot_config)

text \<open>Nobody waits yet.\<close>

lemma started_waits: "image_ok im \<Longrightarrow> waits_for (started im) = {}"
proof -
  assume im: "image_ok im"
  have f: "fresh [im_dyn_task im, im_idle_task im, im_worker im, im_timer_task im] (krn (booted im))"
    using booted_fresh [OF im] by blast
  have b: "tcb (started im) = tcb (krn (booted im))" by (simp add: started_def krhino_start_def add_trap_def split: option.split)
  have "\<not> blocked (tcb (started im) t)" for t
    using fresh_ready [OF f, of t] f by (cases "task_state (tcb (krn (booted im)) t) = K_RDY")
      (auto simp: b blocked_def fresh_def blank_task_def dest: spec [of _ t])
  then show ?thesis by (simp add: waits_for_def)
qed

lemma sample_runs:
  "free_runs (started sample_image) (snd (krhino_sched_disable (started sample_image)))"
  using started_waits [OF sample_image_ok] by (intro free_step [OF free_start] kernel_step.intros) (simp add: acyclic_def)

end
