(* ===== verification/Sample.thy ===== *)
theory Sample
  imports K_Sys K_Mutex K_Sem K_Event K_Queue K_BufQueue K_TaskSem
begin

text \<open>
  A concrete kernel state for the examples: the idle task 0; tasks 8 and 6 ready at priority 10,
  task 8 running and owning mutex 2 (its own priority is 20, it runs at that of its waiter);
  task 2 blocked on semaphore 6 with a timeout, task 3 on mutex 2 without; task 4 asleep for
  one more tick; task 5 suspended; task 7 blocked on the flags of event 5; an empty
  queue 3 of two pointers and an empty queue 4 for messages of up to 6 bytes.
\<close>

definition sample_tcb :: "tid \<Rightarrow> ktask" where
  "sample_tcb = (\<lambda>_. blank_task)
    (0 := blank_task\<lparr>task_state := K_RDY, prio := 61, b_prio := 61, task_mm_flag := 1\<rparr>,
     8 := blank_task\<lparr>task_state := K_RDY, prio := 10, b_prio := 20, mutex_list := [2], task_mm_flag := 1,
            sched_policy := KSCHED_RR, time_slice_left := 1, time_total := 50\<rparr>,
     2 := blank_task\<lparr>task_state := K_PEND, prio := 12, b_prio := 12, blk_obj := Some 6, tick_head := True,
            tick_match := 105, tick_remain := 5, task_mm_flag := 1\<rparr>,
     3 := blank_task\<lparr>task_state := K_PEND, prio := 10, b_prio := 10, blk_obj := Some 2, task_mm_flag := 1\<rparr>,
     4 := blank_task\<lparr>task_state := K_SLEEP, prio := 5, b_prio := 5, tick_head := True,
            tick_match := 101, tick_remain := 1, task_mm_flag := 1\<rparr>,
     5 := blank_task\<lparr>task_state := K_SUSPENDED, prio := 30, b_prio := 30, suspend_count := 1, task_mm_flag := 1\<rparr>,
     6 := blank_task\<lparr>task_state := K_RDY, prio := 10, b_prio := 10, task_mm_flag := 1\<rparr>,
     7 := blank_task\<lparr>task_state := K_PEND, prio := 12, b_prio := 12, blk_obj := Some 5, pend_flags := 6,
            pend_option := 2, pend_info := 40, task_mm_flag := 1\<rparr>)"

definition sample_obj :: "kobj_type_t \<Rightarrow> tid list \<Rightarrow> blk_obj_t" where
  "sample_obj ty ws = \<lparr>blk_list = ws, obj_name = Some ''o'', blk_policy = BLK_POLICY_PRI, obj_type = ty,
     obj_cancel = 1, obj_mm_flag = 1\<rparr>"

definition sample_rq :: runqueue_t where
  "sample_rq = ready_list_add_tail (ready_list_add_tail (ready_list_add_tail
     \<lparr>cur_list_item = (\<lambda>_. []), task_bit_map = [0, 0], highest_pri = 62\<rparr> 61 0) 10 8) 10 6"

definition sample_base :: kernel where
  "sample_base = \<lparr>g_sys_stat = RHINO_RUNNING, g_idle_task_spawned = 1, g_ready_queue = sample_rq,
     g_sched_lock = 0, g_intrpt_nested_level = 0, g_preferred_ready_task = 8, g_active_task = 8,
     g_tick_count = 100, g_tick_list = [4, 2],
     g_kobj_list = \<lparr>l_task_head = [0, 8, 2, 3, 4, 5, 6, 7], l_mutex_head = [2], l_sem_head = [6],
       l_queue_head = [], l_event_head = [5], l_buf_queue_head = []\<rparr>,
     tcb = sample_tcb,
     blk = (\<lambda>_. sample_obj RHINO_OBJ_TYPE_NONE [])
       (6 := sample_obj RHINO_SEM_OBJ_TYPE [2], 2 := sample_obj RHINO_MUTEX_OBJ_TYPE [3],
        5 := sample_obj RHINO_EVENT_OBJ_TYPE [7]),
     sems = (\<lambda>_. \<lparr>count = 0, peak_count = 0\<rparr>),
     mutexes = (\<lambda>_. \<lparr>mutex_task = None, owner_nested = 0\<rparr>)(2 := \<lparr>mutex_task = Some 8, owner_nested = 1\<rparr>),
     event_flags = (\<lambda>_. 0)(5 := 1),
     queues = (\<lambda>_. \<lparr>msg_q = \<lparr>q_size = 0, cur_num = 0, peak_num = 0\<rparr>, q_ringbuf = ringbuf_init [] 0 0 0\<rparr>),
     buf_queues = (\<lambda>_. \<lparr>bq_ringbuf = ringbuf_init [] 0 0 0, max_msg_size = 0, bq_cur_num = 0,
       bq_peak_num = 0, min_free_buf_size = 0\<rparr>),
     cells = (\<lambda>_. 0), bufs = (\<lambda>_. []), traps = []\<rparr>"

definition sample_fifo :: kernel where
  "sample_fifo = snd (krhino_queue_create sample_base (Some 3) (Some ''q'') (Some (replicate 8 0)) 2)"

definition sample :: kernel where
  "sample = snd (krhino_buf_queue_create sample_fifo (Some 4) (Some ''b'') (Some (replicate 32 0)) 32 6)"

section \<open>The state is well formed\<close>

lemma sample_rq_holds:
  "rq_holds sample_rq ((\<lambda>_. {})(61 := {0}, 10 := {8, 6}))"
proof -
  let ?e = "\<lparr>cur_list_item = (\<lambda>_. []), task_bit_map = [0, 0], highest_pri = 62\<rparr>"
  have "\<not> bitmap_test [0, 0] p" for p by (auto simp: bitmap_test_def nth_Cons')
  then have "rq_holds ?e (\<lambda>_. {})" by (simp add: rq_holds_def NUM_WORDS_def RHINO_CONFIG_PRI_MAX_def)
  from ready_list_add_tail_holds [OF this, of 0 61]
  have "rq_holds (ready_list_add_tail ?e 61 0) ((\<lambda>_. {})(61 := {0}))" by (simp add: config_defs)
  from ready_list_add_tail_holds [OF this, of 8 10]
  have "rq_holds (ready_list_add_tail (ready_list_add_tail ?e 61 0) 10 8) ((\<lambda>_. {})(61 := {0}, 10 := {8}))"
    by (simp add: config_defs)
  from ready_list_add_tail_holds [OF this, of 6 10] show ?thesis
    by (simp add: config_defs sample_rq_def insert_commute)
qed

lemmas sample_simps = sample_base_def sample_tcb_def sample_obj_def blank_task_def

lemma sample_base_tcb: "tcb sample_base = sample_tcb" by (simp add: sample_base_def)

lemma sample_kinv: "kinv sample_base"
proof -
  have "prio_inv sample_base" by (simp add: prio_inv_def prio_ok_def sample_simps config_defs)
  moreover have "ready_set sample_base = (\<lambda>_. {})(61 := {0}, 10 := {8, 6})"
    by (auto simp: fun_eq_iff ready_set_def sample_simps)
  then have "rq_inv sample_base" using sample_rq_holds by (simp add: rq_inv_def sample_base_def config_defs)
  moreover have "blk_inv sample_base"
    by (auto simp: blk_inv_def wait_set_def blocked_def sample_simps)
  moreover have "tick_inv sample_base"
    by (auto simp: tick_inv_def blocked_def sleeping_def remaining_def sample_simps)
  moreover have "obj_inv sample_base" by (simp add: obj_inv_def waitable_def sample_simps)
  ultimately show ?thesis by (simp add: kinv_def)
qed

lemma sample_base_kwf: "kwf sample_base"
proof -
  have "settled sample_base" by (simp add: settled_def sample_simps)
  moreover have "minv sample_base" by (simp add: minv_def live_def sample_simps config_defs)
  moreover have "task_list_inv sample_base" by (auto simp: task_list_inv_def live_def sample_simps)
  moreover have "idle_inv sample_base" by (simp add: idle_inv_def sample_simps config_defs)
  moreover have "data_inv sample_base" by (simp add: data_inv_def sample_simps)
  moreover have "no_self sample_base" by (simp add: no_self_def waits_for_def blocked_def sample_simps)
  ultimately show ?thesis using sample_kinv by (simp add: kwf_def)
qed

lemma sample_base_act_inv: "act_inv sample_base"
  by (simp add: act_inv_def runnable_def sample_simps)

lemma sample_fifo_good: "good sample_base sample_fifo"
  unfolding sample_fifo_def krhino_queue_create_def
  by (rule queue_create_good [OF sample_base_kwf sample_base_act_inv])
    (auto simp: sample_base_def sample_obj_def)

lemma sample_good: "kwf sample \<and> act_inv sample"
proof -
  have f: "kwf sample_fifo" "act_inv sample_fifo" using sample_fifo_good by (auto simp: good_def)
  have "obj_type (blk sample_fifo 4) = RHINO_OBJ_TYPE_NONE"
    by (simp add: sample_fifo_def krhino_queue_create_def queue_create_def sample_simps)
  then have "good sample_fifo sample" unfolding sample_def krhino_buf_queue_create_def
    by (intro buf_queue_create_good [OF f(1,2)]) auto
  then show ?thesis by (simp add: good_def)
qed

lemma sample_kwf [simp]: "kwf sample" and sample_act_inv [simp]: "act_inv sample"
  using sample_good by simp_all

text \<open>The fields an example reads.\<close>

lemma sample_fields [simp]:
  "g_sys_stat sample = RHINO_RUNNING" "g_sched_lock sample = 0" "g_intrpt_nested_level sample = 0"
  "g_active_task sample = 8" "g_tick_count sample = 100" "g_tick_list sample = [4, 2]"
  "tcb sample = sample_tcb" "traps sample = []" "g_ready_queue sample = sample_rq"
  "event_flags sample = (\<lambda>_. 0)(5 := 1)" "sems sample = (\<lambda>_. \<lparr>count = 0, peak_count = 0\<rparr>)"
  "mutexes sample = (\<lambda>_. \<lparr>mutex_task = None, owner_nested = 0\<rparr>)(2 := \<lparr>mutex_task = Some 8, owner_nested = 1\<rparr>)"
  "blk sample = (\<lambda>_. sample_obj RHINO_OBJ_TYPE_NONE [])
       (6 := sample_obj RHINO_SEM_OBJ_TYPE [2], 2 := sample_obj RHINO_MUTEX_OBJ_TYPE [3],
        5 := sample_obj RHINO_EVENT_OBJ_TYPE [7],
        3 := (sample_obj RHINO_QUEUE_OBJ_TYPE [])\<lparr>obj_name := Some ''q''\<rparr>,
        4 := (sample_obj RHINO_BUF_QUEUE_OBJ_TYPE [])\<lparr>obj_name := Some ''b''\<rparr>)"
  "l_task_head (g_kobj_list sample) = [0, 8, 2, 3, 4, 5, 6, 7]"
  by (simp_all add: sample_def krhino_buf_queue_create_def buf_queue_create_def sample_fifo_def
      krhino_queue_create_def queue_create_def upd_bq_def upd_queue_def upd_blk_def Let_def sample_base_def sample_obj_def K_OBJ_STATIC_ALLOC_def)

lemma sample_acyclic: "acyclic (waits_for sample)"
proof -
  have "waits_for sample \<subseteq> {(3, 8)}"
    by (auto simp: waits_for_def blocked_def sample_obj_def sample_tcb_def blank_task_def split: if_splits)
  moreover have "acyclic {(3 :: tid, 8 :: tid)}" by (auto simp: acyclic_def trancl_insert)
  ultimately show ?thesis by (rule acyclic_subset [rotated])
qed

end
