(* ===== verification/Sync_Props.thy ===== *)
theory Sync_Props
  imports Kernel_Steps Sample
begin

text \<open>
  What the semaphores, mutexes and event groups promise their callers, stated on the state
  after a whole call (the reschedule included).
\<close>

section \<open>Blocking and being woken\<close>

text \<open>The reschedule at the end of a service changes neither tasks nor objects, so what a call
  did is read off the state it returns.\<close>

lemma first_waiter_best:
  assumes "kwf s" "blk_list (blk s ob) = t # ts" "blk_policy (blk s ob) = BLK_POLICY_PRI"
  shows "\<forall>u \<in> set ts. prio (tcb s t) \<le> prio (tcb s u)"
proof -
  have "sorted_wrt (\<lambda>t u. prio (tcb s t) \<le> prio (tcb s u)) (blk_list (blk s ob))"
    using assms(1,3) by (simp add: kwf_def kinv_def blk_inv_def)
  then show ?thesis by (simp add: assms(2))
qed

definition woken :: "ktask \<Rightarrow> task_stat_t" where
  "woken k = (if task_state k = K_PEND then K_RDY else K_SUSPENDED)"

lemma sem_give_wake:
  assumes w: "kwf s" and ob: "obj_type (blk s ob) = RHINO_SEM_OBJ_TYPE" and l: "blk_list (blk s ob) = t # ts"
  shows "\<exists>s'. krhino_sem_give s (Some ob) = (RHINO_SUCCESS, core_sched s') \<and>
     left_wait BLK_FINISH s {t} s' \<and> blk_list (blk s' ob) = ts"
proof -
  have k: "kinv s" using w by (simp add: kwf_def)
  from wakeup.wake_first [OF k l] show ?thesis
    by (auto simp: krhino_sem_give_def sem_give_def ob l)
qed

lemma mutex_release_blk:
  assumes "\<not> blocked (tcb s t)"
  shows "blk (mutex_release s t rel) = blk s"
proof -
  have one: "blk (snd (task_pri_change s1 t np)) = blk s1" if "\<not> blocked (tcb s1 t)" for s1 np
    using that by (auto simp: task_pri_change_def blocked_def Let_def rq_add_head_def split: task_stat_t.split)
  show ?thesis using assms one by (simp add: mutex_release_def mutex_pri_look_result blocked_def)
qed

text \<open>Unlocking a mutex that others wait for.\<close>

lemma mutex_unlock_wake:
  fixes s ob defines "a \<equiv> g_active_task s"
  assumes w: "kwf s" "act_inv s" and lv: "g_sys_stat s = RHINO_RUNNING" "g_intrpt_nested_level s = 0"
    and ob: "obj_type (blk s ob) = RHINO_MUTEX_OBJ_TYPE" "mutex_task (mutexes s ob) = Some a"
      "owner_nested (mutexes s ob) = 1" and l: "blk_list (blk s ob) = t # ts"
  shows "\<exists>s'. krhino_mutex_unlock s (Some ob) = (RHINO_SUCCESS, core_sched s') \<and>
     mutex_task (mutexes s' ob) = Some t \<and> owner_nested (mutexes s' ob) = 1 \<and> blk_list (blk s' ob) = ts \<and>
     task_state (tcb s' t) = woken (tcb s t) \<and> mutex_list (tcb s' t) = ob # mutex_list (tcb s t) \<and>
     prio (tcb s' t) = prio (tcb s t) \<and> mutex_list (tcb s' a) = remove1 ob (mutex_list (tcb s a)) \<and>
     prio (tcb s' a) = held_pri s a (remove1 ob (mutex_list (tcb s a)))"
proof -
  define s1 where "s1 = upd_mutex s ob (\<lambda>m. m\<lparr>owner_nested := owner_nested m - 1\<rparr>)"
  define s2 where "s2 = mutex_release s1 a (Some ob)"
  define s3 where "s3 = pend_task_wakeup s2 t"
  define s' where "s' = upd_mutex (upd_task (upd_mutex s3 ob (\<lambda>m. m\<lparr>mutex_task := Some t\<rparr>)) t
    (\<lambda>k. k\<lparr>mutex_list := ob # mutex_list k\<rparr>)) ob (\<lambda>m. m\<lparr>owner_nested := 1\<rparr>)"
  have w1: "kwf s1" unfolding s1_def by (rule kwf_nested [OF w(1)])
  then have k1: "kinv s1" "minv s1" by (simp_all add: kwf_def)
  have run: "\<not> blocked (tcb s1 a)" using w(2) runnable_live by (simp add: s1_def act_inv_def a_def)
  have o1: "obj_type (blk s1 ob) = RHINO_MUTEX_OBJ_TYPE" "mutex_task (mutexes s1 ob) = Some a"
    using ob by (simp_all add: s1_def)
  note ow = minv_owner [OF k1(2) o1]
  have d: "distinct (mutex_list (tcb s1 a))" using k1(2) ow(1) by (simp add: minv_def)
  note rel = mutex_release_unblocked [OF k1(1) ow(1) run ow(2) d refl, of ob, folded s2_def]
  have b2: "blk s2 = blk s" unfolding s2_def mutex_release_blk [OF run] by (simp add: s1_def)
  have rp: "reprio (upd_task s1 a (\<lambda>k. k\<lparr>mutex_list := remove1 ob (mutex_list (tcb s1 a))\<rparr>)) s2" using rel by simp
  have wt: "t \<in> set (blk_list (blk s ob))" using l by simp
  have ta: "t \<noteq> a" using list_blocked [of s t ob] wt w(1) run by (auto simp: kwf_def s1_def)
  have t2: "tcb s2 t = tcb s t" using rel ta by (simp add: s1_def)
  have l2: "blk_list (blk s2 ob) = t # ts" using b2 l by simp
  have k2: "kinv s2" using rel by simp
  from wakeup.wake_first [OF k2 l2] have lw: "left_wait BLK_FINISH s2 {t} s3" and l3: "blk_list (blk s3 ob) = ts"
    by (simp_all add: s3_def)
  have "krhino_mutex_unlock s (Some ob) = (RHINO_SUCCESS, core_sched s')"
    using lv ob l2 by (simp add: krhino_mutex_unlock_def Let_def a_def [symmetric] s1_def [symmetric])
      (simp add: s1_def a_def s2_def s3_def s'_def)
  moreover have "tcb s' a = tcb s2 a" using ta left_wait_task(5) [OF lw, of a] by (simp add: s'_def)
  moreover have "held_pri s1 a = held_pri s a" by (simp add: held_pri_def first_waiters_def s1_def fun_eq_iff)
  moreover have "mutex_list (tcb s2 a) = remove1 ob (mutex_list (tcb s a))"
    using reprio_frame(4) [OF rp, of a] by (simp add: s1_def)
  moreover have "task_state (tcb s' t) = woken (tcb s t)" "mutex_list (tcb s' t) = ob # mutex_list (tcb s t)"
    "prio (tcb s' t) = prio (tcb s t)"
    using left_wait_task [OF lw, of t] t2 by (simp_all add: s'_def woken_def)
  moreover have "mutex_task (mutexes s' ob) = Some t" "owner_nested (mutexes s' ob) = 1" "blk_list (blk s' ob) = ts"
    using l3 by (simp_all add: s'_def)
  ultimately show ?thesis using rel by (intro exI [of _ s']) (simp add: s1_def)
qed

text \<open>Blocking on a mutex whose owner does not wait itself.\<close>

lemma mutex_lock_raise:
  fixes s ob defines "a \<equiv> g_active_task s"
  assumes w: "kwf s" "act_inv s" "can_block s"
    and c: "\<not> task_cancel_chk s ob" "g_sys_stat s = RHINO_RUNNING" "g_intrpt_nested_level s = 0"
      "g_sched_lock s = 0" "ticks \<noteq> RHINO_NO_WAIT"
    and ob: "obj_type (blk s ob) = RHINO_MUTEX_OBJ_TYPE" "mutex_task (mutexes s ob) = Some ow" "ow \<noteq> a"
    and nb: "\<not> blocked (tcb s ow)"
  shows "\<exists>s'. krhino_mutex_lock s (Some ob) ticks = (Blocked, core_sched s') \<and>
     prio (tcb s' ow) = min (prio (tcb s ow)) (prio (tcb s a)) \<and>
     task_state (tcb s' a) = K_PEND \<and> a \<in> set (blk_list (blk s' ob)) \<and> mutexes s' = mutexes s"
proof -
  have k: "kinv s" "minv s" using w(1) by (simp_all add: kwf_def)
  define s1 where "s1 = (if prio (tcb s a) < prio (tcb s ow) then snd (task_pri_change s ow (prio (tcb s a))) else s)"
  have st: "task_state (tcb s a) = K_RDY" using w(2) c(3) by (simp add: act_inv_def a_def)
  have pa: "prio (tcb s a) < RHINO_IDLE_PRI"
    using kinv_prio_ok [OF k(1), of a] w(3) by (auto simp: prio_ok_def can_block_def a_def RHINO_IDLE_PRI_def)
  from task_pri_change_unblocked [OF k(1) minv_owner(1) [OF k(2) ob(1,2)] nb minv_owner(2) [OF k(2) ob(1,2)] pa]
  have s1: "prio (tcb s1 ow) = min (prio (tcb s ow)) (prio (tcb s a)) \<and> reprio s s1 \<and> tcb s1 a = tcb s a"
    using ob(3) by (auto simp: s1_def)
  then have r: "reprio s s1" by simp
  define s' where "s' = pend_to_blk_obj s1 ob a ticks"
  have ga: "g_active_task s1 = a" by (simp add: reprio_rest [OF r] a_def)
  have "krhino_mutex_lock s (Some ob) ticks = (Blocked, core_sched s')"
    using c ob(1,2,3) ga unfolding krhino_mutex_lock_def Let_def
    by (simp add: a_def [symmetric]) (auto simp: s'_def s1_def split: if_splits)
  moreover have "a \<in> set (blk_list (blk s' ob))"
    by (simp add: s'_def pend_to_blk_obj_def Let_def pend_list_add_def)
  moreover have "task_state (tcb s' a) = K_PEND" "prio (tcb s' ow) = prio (tcb s1 ow)" "mutexes s' = mutexes s"
    using ob(3) reprio_rest(2) [OF r] by (simp_all add: s'_def pend_to_blk_obj_tcb)
  ultimately show ?thesis using s1 by auto
qed

section \<open>Setting event flags\<close>

definition event_hit :: "kernel \<Rightarrow> u32 \<Rightarrow> tid \<Rightarrow> bool" where
  "event_hit s cur t \<longleftrightarrow> event_match cur (pend_flags (tcb s t)) (pend_option (tcb s t))"

lemma event_wake_tcb:
  assumes "blocked (tcb s t)"
  shows "tcb (event_wake s ob cur t) = (tcb s)(t := (tcb s t)\<lparr>task_state := woken (tcb s t),
     tick_head := False, blk_state := BLK_FINISH, blk_obj := None\<rparr>)"
    "cells (event_wake s ob cur t) = (cells s)(pend_info (tcb s t) := cur)"
    "blk_list (blk (event_wake s ob cur t) ob) = remove1 t (blk_list (blk s ob))"
  using assms pend_task_wakeup_eq [of "s\<lparr>cells := (cells s)(pend_info (tcb s t) := cur)\<rparr>" t]
  by (simp_all add: event_wake_def Let_def wake_with_tcb wake_with_frame wake_with_lists woken_def upd_event_def)

text \<open>\<open>woke s cur T s'\<close>: of the tasks \<open>T\<close>, those whose request the flags satisfy have been woken and
  told the flags; nobody else has changed.\<close>

definition woke :: "kernel \<Rightarrow> oid \<Rightarrow> u32 \<Rightarrow> tid set \<Rightarrow> kernel \<Rightarrow> bool" where
  "woke s ob cur T s' \<longleftrightarrow>
     (\<forall>u. u \<in> T \<and> event_hit s cur u \<longrightarrow> task_state (tcb s' u) = woken (tcb s u) \<and>
        blk_state (tcb s' u) = BLK_FINISH \<and> u \<notin> set (blk_list (blk s' ob)) \<and> cells s' (pend_info (tcb s u)) = cur) \<and>
     (\<forall>u. \<not> (u \<in> T \<and> event_hit s cur u) \<longrightarrow> tcb s' u = tcb s u \<and>
        (u \<in> set (blk_list (blk s' ob)) \<longleftrightarrow> u \<in> set (blk_list (blk s ob)))) \<and>
     (\<forall>c. cells s' c = cells s c \<or> cells s' c = cur)"

lemma event_set_loop_woke:
  "kwf s \<Longrightarrow> distinct ts \<Longrightarrow> set ts \<subseteq> set (blk_list (blk s ob)) \<Longrightarrow>
   woke s ob cur (set ts) (event_set_loop s ob cur ts)"
proof (induction ts arbitrary: s)
  case Nil
  then show ?case by (simp add: woke_def)
next
  case (Cons t ts)
  show ?case
  proof (cases "event_hit s cur t")
    case False
    then have "woke s ob cur (set ts) (event_set_loop s ob cur ts)" using Cons by simp
    with False show ?thesis by (auto simp: woke_def event_hit_def)
  next
    case True
    let ?s = "event_wake s ob cur t"
    have t: "t \<in> set (blk_list (blk s ob))" "t \<notin> set ts" using Cons.prems by auto
    have k: "kinv s" using Cons.prems(1) by (simp add: kwf_def)
    note e = event_wake_tcb [OF list_blocked [OF k t(1)], of ob cur]
    have d: "set (blk_list (blk ?s ob)) = set (blk_list (blk s ob)) - {t}"
      using kinv_wait_list [OF k, of ob] by (simp add: e)
    have hit: "event_hit ?s cur u = event_hit s cur u" "u \<noteq> t \<Longrightarrow> tcb ?s u = tcb s u" for u
      by (simp_all add: event_hit_def e)
    have w: "woke ?s ob cur (set ts) (event_set_loop ?s ob cur ts)"
      by (rule Cons.IH) (use Cons.prems event_wake_kwf [OF Cons.prems(1) t(1)] d in auto)
    have "event_set_loop s ob cur (t # ts) = event_set_loop ?s ob cur ts"
      using True by (simp add: event_hit_def)
    moreover have "woke s ob cur (set (t # ts)) (event_set_loop ?s ob cur ts)"
      unfolding woke_def
    proof (intro conjI allI impI)
      let ?f = "event_set_loop ?s ob cur ts"
      have there: "tcb ?f u = tcb ?s u \<and> (u \<in> set (blk_list (blk ?f ob)) \<longleftrightarrow> u \<in> set (blk_list (blk ?s ob)))"
        if "u \<notin> set ts" for u using w that unfolding woke_def by blast
      have cell: "cells ?f c = cur" if "cells ?s c = cur" for c using w that unfolding woke_def by metis
      have later: "task_state (tcb ?f u) = woken (tcb ?s u) \<and> blk_state (tcb ?f u) = BLK_FINISH \<and>
          u \<notin> set (blk_list (blk ?f ob)) \<and> cells ?f (pend_info (tcb ?s u)) = cur"
        if "u \<in> set ts" "event_hit ?s cur u" for u using w that unfolding woke_def by blast
      fix u assume u: "u \<in> set (t # ts) \<and> event_hit s cur u"
      have "task_state (tcb ?f u) = woken (tcb s u) \<and> blk_state (tcb ?f u) = BLK_FINISH \<and>
          u \<notin> set (blk_list (blk ?f ob)) \<and> cells ?f (pend_info (tcb s u)) = cur"
      proof (cases "u = t")
        case True
        then show ?thesis using there [OF t(2)] cell e d by simp
      next
        case False
        then show ?thesis using u later [of u] hit by simp
      qed
      then show "task_state (tcb ?f u) = woken (tcb s u)" "blk_state (tcb ?f u) = BLK_FINISH"
        "u \<notin> set (blk_list (blk ?f ob))" "cells ?f (pend_info (tcb s u)) = cur" by auto
    next
      fix u assume "\<not> (u \<in> set (t # ts) \<and> event_hit s cur u)"
      then have "u \<noteq> t" "\<not> (u \<in> set ts \<and> event_hit ?s cur u)" using True hit by auto
      then show "tcb (event_set_loop ?s ob cur ts) u = tcb s u"
        "(u \<in> set (blk_list (blk (event_set_loop ?s ob cur ts) ob))) = (u \<in> set (blk_list (blk s ob)))"
        using w hit d unfolding woke_def by auto
    next
      fix c show "cells (event_set_loop ?s ob cur ts) c = cells s c \<or> cells (event_set_loop ?s ob cur ts) c = cur"
        using w e(2) unfolding woke_def by (metis fun_upd_apply)
    qed
    ultimately show ?thesis by simp
  qed
qed

lemma event_set_woke:
  assumes w: "kwf s" and ob: "obj_type (blk s ob) = RHINO_EVENT_OBJ_TYPE"
  shows "\<exists>s'. krhino_event_set s (Some ob) flags RHINO_OR = (RHINO_SUCCESS, core_sched s') \<and>
     woke s ob (event_flags s ob OR flags) (set (blk_list (blk s ob))) s'"
proof -
  let ?s1 = "upd_event s ob (\<lambda>e. e OR flags)"
  let ?c = "event_flags s ob OR flags"
  have w1: "kwf ?s1" using w by simp
  have "distinct (blk_list (blk ?s1 ob))" using w kinv_wait_list [of s ob] by (simp add: kwf_def)
  from event_set_loop_woke [OF w1 this subset_refl]
  have "woke ?s1 ob ?c (set (blk_list (blk s ob))) (event_set_loop ?s1 ob ?c (blk_list (blk s ob)))" by simp
  then have "woke s ob ?c (set (blk_list (blk s ob))) (event_set_loop ?s1 ob ?c (blk_list (blk s ob)))"
    by (simp add: woke_def event_hit_def)
  moreover have "krhino_event_set s (Some ob) flags RHINO_OR =
      (RHINO_SUCCESS, core_sched (event_set_loop ?s1 ob ?c (blk_list (blk s ob))))"
    by (simp add: krhino_event_set_def event_set_def ob event_opts Let_def)
  ultimately show ?thesis by blast
qed

section \<open>Deleting an object\<close>

text \<open>The waiters of a deleted semaphore learn of it: all are woken, and the second half of their
  call returns \<open>RHINO_BLK_DEL\<close> (or that the task was cancelled).\<close>

lemma sem_del_wakes:
  assumes w: "kwf s" and ob: "obj_type (blk s ob) = RHINO_SEM_OBJ_TYPE" "obj_mm_flag (blk s ob) = K_OBJ_STATIC_ALLOC"
    and n: "g_intrpt_nested_level s = 0"
  shows "\<exists>s'. krhino_sem_del s (Some ob) = (RHINO_SUCCESS, core_sched s') \<and>
     (\<forall>u \<in> set (blk_list (blk s ob)). task_state (tcb s' u) = woken (tcb s u) \<and> blk_state (tcb s' u) = BLK_DEL) \<and>
     (\<forall>u. u \<notin> set (blk_list (blk s ob)) \<longrightarrow> tcb s' u = tcb s u) \<and>
     blk_list (blk s' ob) = [] \<and> obj_type (blk s' ob) = RHINO_OBJ_TYPE_NONE"
proof -
  let ?s1 = "upd_blk s ob (\<lambda>b. b\<lparr>obj_type := RHINO_OBJ_TYPE_NONE\<rparr>)"
  define s2 where "s2 = wake_all pend_task_rm ob ?s1"
  have "obj_type (blk s ob) \<noteq> RHINO_MUTEX_OBJ_TYPE" using ob by simp
  from object_del_kwf [OF w this] have l: "left_wait BLK_DEL ?s1 (set (blk_list (blk s ob))) s2"
    and e: "blk_list (blk s2 ob) = []" by (simp_all add: s2_def)
  let ?s' = "s2\<lparr>g_kobj_list := (g_kobj_list s2)\<lparr>l_sem_head := remove1 ob (l_sem_head (g_kobj_list s2))\<rparr>\<rparr>"
  have "krhino_sem_del s (Some ob) = (RHINO_SUCCESS, core_sched ?s')"
    using ob n by (simp add: krhino_sem_del_def Let_def s2_def)
  then show ?thesis
    using left_wait_task [OF l] left_wait_obj(2) [OF l, of ob] e by (intro exI [of _ ?s']) (simp add: woken_def)
qed

end
