(* ===== verification/Time_Props.thy ===== *)
theory Time_Props
  imports Kernel_Steps Sample
begin

text \<open>
  What the tick promises: whose timeout ends and when, the rotation of tasks of one priority,
  and the conversions between ticks and milliseconds.
\<close>

section \<open>One tick\<close>

lemma time_slice_tcb:
  "tcb (time_slice_update s) u = (tcb s u)\<lparr>time_slice_left := time_slice_left (tcb (time_slice_update s) u)\<rparr> \<and>
   g_tick_list (time_slice_update s) = g_tick_list s \<and> g_tick_count (time_slice_update s) = g_tick_count s"
  by (simp add: time_slice_update_def Let_def split: list.split)

lemma time_slice_fields:
  "task_state (tcb (time_slice_update s) u) = task_state (tcb s u)"
  "tick_head (tcb (time_slice_update s) u) = tick_head (tcb s u)"
  "tick_match (tcb (time_slice_update s) u) = tick_match (tcb s u)"
  "blk_state (tcb (time_slice_update s) u) = blk_state (tcb s u)"
  "blk_obj (tcb (time_slice_update s) u) = blk_obj (tcb s u)"
  by (subst time_slice_tcb [THEN conjunct1], simp)+

lemma tick_proc_walked:
  assumes w: "kwf s"
  shows "kwf (krhino_tick_proc s) \<and> g_tick_count (krhino_tick_proc s) = g_tick_count s + 1 \<and>
    (tick_head (tcb s u) \<and> remaining s u = 1 \<longrightarrow> released s u (krhino_tick_proc s)) \<and>
    (\<not> (tick_head (tcb s u) \<and> due s u) \<longrightarrow>
       task_state (tcb (krhino_tick_proc s) u) = task_state (tcb s u) \<and>
       tick_head (tcb (krhino_tick_proc s) u) = tick_head (tcb s u) \<and>
       tick_match (tcb (krhino_tick_proc s) u) = tick_match (tcb s u) \<and>
       blk_state (tcb (krhino_tick_proc s) u) = blk_state (tcb s u) \<and>
       blk_obj (tcb (krhino_tick_proc s) u) = blk_obj (tcb s u))"
proof -
  from tick_list_update_walked [OF w] obtain s' where
    s': "tick_list_update s 1 = at_count (g_tick_count s + 1) s'" "walked s s'" "kwf (tick_list_update s 1)" by blast
  have r: "released s u s' \<Longrightarrow> released s u (krhino_tick_proc s)"
    by (simp add: released_def krhino_tick_proc_def s'(1) time_slice_fields)
  have c: "g_tick_count (krhino_tick_proc s) = g_tick_count s + 1"
    by (simp add: krhino_tick_proc_def s'(1) time_slice_tcb at_count_def)
  have "same_but_prio s s' u" if "\<not> (tick_head (tcb s u) \<and> due s u)" using s'(2) that by (auto simp: walked_def)
  note same_but_prio_fields [OF this]
  then show ?thesis using s'(2) time_slice_kwf [OF s'(3)] r c
    by (simp add: walked_def krhino_tick_proc_def time_slice_fields s'(1))
qed

text \<open>A wait with \<open>n\<close> ticks left ends with the \<open>n\<close>-th tick and not before. (Beyond \<open>2^63\<close> ticks the
  signed comparison of the source takes it for over.)\<close>

lemma remaining_small:
  assumes "1 < unat r" "unat r \<le> 2 ^ 63"
  shows "0 < sint (r - (1 :: u64))" "unat (r - 1) = unat r - 1"
proof -
  have "1 \<le> r" using assms(1) by (simp add: word_le_nat_alt)
  then show u: "unat (r - 1) = unat r - 1" by (simp add: unat_sub)
  then have "unat (r - 1) < 2 ^ 63" "0 < unat (r - 1)" using assms by simp_all
  moreover define x where "x = r - 1"
  ultimately have "int (unat x) < int (2 ^ 63)" "int 0 < int (unat x)" unfolding of_nat_less_iff by simp_all
  then have x: "uint x < 2 ^ 63" "0 < uint x" unfolding uint_nat by simp_all
  then have "sint x = uint x" unfolding sint_uint by (intro signed_take_bit_int_eq_self) simp_all
  with x show "0 < sint (r - 1)" by (simp add: x_def)
qed

lemma tick_waits:
  assumes w: "kwf s" and h: "tick_head (tcb s u)" and n: "unat (remaining s u) = Suc (Suc n)" "Suc (Suc n) \<le> 2 ^ 63"
  shows "kwf (krhino_tick_proc s) \<and> tick_head (tcb (krhino_tick_proc s) u) \<and>
     unat (remaining (krhino_tick_proc s) u) = Suc n \<and>
     task_state (tcb (krhino_tick_proc s) u) = task_state (tcb s u) \<and>
     blocked (tcb (krhino_tick_proc s) u) = blocked (tcb s u)"
proof -
  note r = remaining_small [of "remaining s u"]
  have "\<not> due s u" using r n by (simp add: due_def)
  then have "\<not> (tick_head (tcb s u) \<and> due s u)" by simp
  moreover have "remaining (krhino_tick_proc s) u = remaining s u - 1"
    if "tick_match (tcb (krhino_tick_proc s) u) = tick_match (tcb s u)" "g_tick_count (krhino_tick_proc s) = g_tick_count s + 1"
    using that by (simp add: remaining_def diff_diff_eq)
  ultimately show ?thesis using tick_proc_walked [OF w, of u] r n h by (simp add: blocked_def)
qed

lemma ticks_release:
  "kwf s \<Longrightarrow> tick_head (tcb s u) \<Longrightarrow> unat (remaining s u) = Suc n \<Longrightarrow> Suc n \<le> 2 ^ 63 \<Longrightarrow>
   (\<forall>k \<le> n. task_state (tcb ((krhino_tick_proc ^^ k) s) u) = task_state (tcb s u)) \<and>
   released s u ((krhino_tick_proc ^^ Suc n) s)"
proof (induction n arbitrary: s)
  case 0
  then have "remaining s u = 1" by (simp add: word_unat_eq_iff)
  with 0 tick_proc_walked [of s u] show ?case by simp
next
  case (Suc n)
  note t = tick_waits [OF Suc.prems]
  let ?s = "krhino_tick_proc s"
  from Suc.IH [of ?s] t Suc.prems(4)
  have i: "\<forall>k \<le> n. task_state (tcb ((krhino_tick_proc ^^ k) ?s) u) = task_state (tcb s u)"
    "released ?s u ((krhino_tick_proc ^^ Suc n) ?s)" by auto
  have sw: "(krhino_tick_proc ^^ k) ?s = (krhino_tick_proc ^^ Suc k) s" for k
    by (simp only: funpow_Suc_right o_apply)
  have "task_state (tcb ((krhino_tick_proc ^^ k) s) u) = task_state (tcb s u)" if "k \<le> Suc n" for k
    using that i(1) sw [of "k - 1"] by (cases k) auto
  moreover have "released s u ((krhino_tick_proc ^^ Suc n) ?s)"
    using i(2) t by (simp add: released_def)
  ultimately show ?case using sw [of "Suc n"] by simp
qed

section \<open>Round robin\<close>

lemma time_slice_rotate:
  fixes s defines "p \<equiv> prio (tcb s (g_active_task s))"
  assumes r: "cur_list_item (g_ready_queue s) p = t # u # rest"
    and k: "kwf s" and f: "sched_policy (tcb s t) \<noteq> KSCHED_FIFO"
  shows "(time_slice_left (tcb s t) \<le> 1 \<longrightarrow>
      cur_list_item (g_ready_queue (time_slice_update s)) p = u # rest @ [t] \<and>
      time_slice_left (tcb (time_slice_update s) t) = time_total (tcb s t)) \<and>
    (1 < time_slice_left (tcb s t) \<longrightarrow> g_ready_queue (time_slice_update s) = g_ready_queue s \<and>
      time_slice_left (tcb (time_slice_update s) t) = time_slice_left (tcb s t) - 1)"
proof -
  have "t \<in> ready_set s p"
    using rq_holds_ring [of "g_ready_queue s" "ready_set s" p] kinv_ready k r by (auto simp: kwf_def)
  then have pt: "prio (tcb s t) = p" by (simp add: ready_set_def)
  have one: "x \<le> 1 \<longleftrightarrow> x = 0 \<or> x = 1" "1 < x \<longleftrightarrow> 0 < x \<and> 0 < x - 1" for x :: u32
  proof -
    show a: "x \<le> 1 \<longleftrightarrow> x = 0 \<or> x = 1" by (auto simp: word_le_nat_alt word_unat_eq_iff)
    have "0 < x - 1 \<longleftrightarrow> x \<noteq> 1" by (simp add: word_gt_0)
    then show "1 < x \<longleftrightarrow> 0 < x \<and> 0 < x - 1" using a by (auto simp: not_le [symmetric] word_gt_0)
  qed
  show ?thesis using r f pt unfolding one
    by (auto simp: time_slice_update_def Let_def p_def [symmetric] ready_list_head_to_tail_def)
qed

section \<open>Ticks and milliseconds\<close>

lemma ms_to_ticks_ceiling:
  assumes "unat ms < 2 ^ 57"
  shows "unat (krhino_ms_to_ticks ms) = (unat ms + 9) div 10"
proof -
  have "unat (ms + 9) = unat ms + 9" using assms by (simp add: unat_word_ariths)
  then have "unat ((ms + 9) * 100) = (unat ms + 9) * 100" using assms by (simp add: unat_word_ariths)
  then show ?thesis by (simp add: krhino_ms_to_ticks_def RHINO_CONFIG_TICKS_PER_SECOND_def unat_div)
qed

lemma ticks_to_ms_exact:
  assumes "unat t < 2 ^ 54"
  shows "unat (krhino_ticks_to_ms t) = unat t * 10"
proof -
  have "unat (t * 1000) = unat t * 1000" using assms by (simp add: unat_word_ariths)
  then show ?thesis by (simp add: krhino_ticks_to_ms_def RHINO_CONFIG_TICKS_PER_SECOND_def unat_div)
qed

end
