(* ===== verification/Queue_Props.thy ===== *)
theory Queue_Props
  imports Kernel_Steps Sample
begin

text \<open>
  Both kinds of queue as channels. The abstract queue is a list of messages; the contract
  \<open>channel\<close> says what a send and a receive that does not wait do to it, and is met by the queue
  of pointers and by the queue of byte messages. What a receiver that was waiting gets is shown
  for both as well.
\<close>

section \<open>Channels\<close>

datatype 'm received = Got 'm | Nothing

text \<open>The operations of the abstract queue.\<close>

definition spec_send :: "bool \<Rightarrow> kstat \<Rightarrow> 'm list \<Rightarrow> 'm \<Rightarrow> kstat \<times> 'm list" where
  "spec_send room full ms m = (if room then (RHINO_SUCCESS, ms @ [m]) else (full, ms))"

fun spec_recv :: "'m list \<Rightarrow> 'm received \<times> 'm list" where
  "spec_recv [] = (Nothing, [])"
| "spec_recv (m # ms) = (Got m, ms)"

fun send_all :: "('s \<Rightarrow> 'm \<Rightarrow> kstat \<times> 's) \<Rightarrow> 's \<Rightarrow> 'm list \<Rightarrow> kstat list \<times> 's" where
  "send_all send s [] = ([], s)"
| "send_all send s (m # ms) =
     (let (e, s1) = send s m; (es, s2) = send_all send s1 ms in (e # es, s2))"

fun recv_all :: "('s \<Rightarrow> 'm received \<times> 's) \<Rightarrow> 's \<Rightarrow> nat \<Rightarrow> 'm received list \<times> 's" where
  "recv_all recv s 0 = ([], s)"
| "recv_all recv s (Suc n) =
     (let (r, s1) = recv s; (rs, s2) = recv_all recv s1 n in (r # rs, s2))"

locale channel =
  fixes send :: "'s \<Rightarrow> 'm \<Rightarrow> kstat \<times> 's"
    and recv :: "'s \<Rightarrow> 'm received \<times> 's"
    and holds :: "'s \<Rightarrow> 'm list \<Rightarrow> bool"
    and message :: "'s \<Rightarrow> 'm \<Rightarrow> bool"
    and room :: "'s \<Rightarrow> 'm list \<Rightarrow> 'm \<Rightarrow> bool"
    and full :: kstat
  assumes sends: "holds s ms \<Longrightarrow> message s m \<Longrightarrow> \<exists>s'. send s m = (fst (spec_send (room s ms m) full ms m), s') \<and>
      holds s' (snd (spec_send (room s ms m) full ms m))"
    and recvs: "holds s ms \<Longrightarrow> \<exists>s'. recv s = (fst (spec_recv ms), s') \<and> holds s' (snd (spec_recv ms))"
begin

lemma recvs_in_order:
  "holds s (ms @ rest) \<Longrightarrow> \<exists>s'. recv_all recv s (length ms) = (map Got ms, s') \<and> holds s' rest"
proof (induction ms arbitrary: s)
  case (Cons m ms)
  from recvs [OF Cons.prems] obtain s1 where s1: "recv s = (Got m, s1)" "holds s1 (ms @ rest)" by auto
  from Cons.IH [OF s1(2)] s1(1) show ?case by (auto simp: Let_def)
qed simp

lemma recv_empty: "holds s [] \<Longrightarrow> \<exists>s'. recv s = (Nothing, s') \<and> holds s' []"
  using recvs [of s "[]"] by auto

end

section \<open>The queue of pointers\<close>

definition queue_holds :: "oid \<Rightarrow> kernel \<Rightarrow> u32 list \<Rightarrow> bool" where
  "queue_holds ob s ms \<longleftrightarrow>
     obj_type (blk s ob) = RHINO_QUEUE_OBJ_TYPE \<and> blk_list (blk s ob) = [] \<and>
     blk_holds (q_ringbuf (queues s ob)) (map ptr_bytes ms) \<and> length ms = cur_num (msg_q (queues s ob)) \<and>
     rb_blk_size (q_ringbuf (queues s ob)) = 4 \<and>
     rb_end (q_ringbuf (queues s ob)) = 4 * q_size (msg_q (queues s ob)) \<and> length ms \<le> q_size (msg_q (queues s ob))"

definition queue_send :: "oid \<Rightarrow> kernel \<Rightarrow> u32 \<Rightarrow> kstat \<times> kernel" where
  "queue_send ob s m = krhino_queue_back_send s (Some ob) m"

definition queue_recv_now :: "oid \<Rightarrow> kernel \<Rightarrow> u32 received \<times> kernel" where
  "queue_recv_now ob s = (case krhino_queue_recv s (Some ob) RHINO_NO_WAIT False of
     (Ret st, Some m, s') \<Rightarrow> (if st = RHINO_SUCCESS then Got m else Nothing, s') | (_, _, s') \<Rightarrow> (Nothing, s'))"

lemma bytes_ptr_ptr_bytes [simp]: "bytes_ptr (ptr_bytes p) = p"
proof -
  have "unat p < 2 ^ 32" using unsigned_less [of p] by simp
  then show ?thesis by (simp add: bytes_ptr_def ptr_bytes_def bytes_size_size_bytes)
qed

lemma queue_send_spec:
  assumes h: "queue_holds ob s ms"
    and r_def: "r = spec_send (length ms < q_size (msg_q (queues s ob))) RHINO_QUEUE_FULL ms m"
  shows "\<exists>s'. queue_send ob s m = (fst r, s') \<and> queue_holds ob s' (snd r) \<and> tcb s' = tcb s \<and>
    g_active_task s' = g_active_task s \<and> q_size (msg_q (queues s' ob)) = q_size (msg_q (queues s ob)) \<and> blk s' = blk s"
proof (cases "length ms < q_size (msg_q (queues s ob))")
  case False
  with h show ?thesis
    by (auto simp: r_def spec_send_def queue_send_def krhino_queue_back_send_def msg_send_def queue_holds_def)
next
  case True
  define q where "q = queues s ob"
  have hq: "blk_holds (q_ringbuf q) (map ptr_bytes ms)" "rb_blk_size (q_ringbuf q) = 4"
    "rb_end (q_ringbuf q) = 4 * q_size (msg_q q)" "length ms = cur_num (msg_q q)"
    using h by (simp_all add: queue_holds_def q_def)
  obtain rb where rb: "ringbuf_queue_push (q_ringbuf q) (ptr_bytes m) = Some rb"
    "blk_holds rb (map ptr_bytes ms @ [ptr_bytes m])" "rb_end rb = 4 * q_size (msg_q q)" "rb_blk_size rb = 4"
    using queue_push_appends [OF hq(1), of "ptr_bytes m"] hq True by (auto simp: ptr_bytes_def q_def)
  define pk where "pk = (if cur_num (msg_q q) + 1 > peak_num (msg_q q) then cur_num (msg_q q) + 1 else peak_num (msg_q q))"
  have e: "queue_send ob s m = (RHINO_SUCCESS, upd_queue s ob (\<lambda>q'. q'\<lparr>
      msg_q := (msg_q q)\<lparr>cur_num := cur_num (msg_q q) + 1, peak_num := pk\<rparr>, q_ringbuf := rb\<rparr>))"
    using h True rb(1)
    by (auto simp: queue_send_def krhino_queue_back_send_def msg_send_def queue_holds_def Let_def pk_def q_def upd_queue_def)
  show ?thesis unfolding e using h rb True hq
    by (simp add: r_def spec_send_def queue_holds_def q_def)
qed

lemma queue_recv_spec:
  assumes h: "queue_holds ob s ms" and c: "\<not> task_cancel_chk s ob"
  shows "\<exists>s'. queue_recv_now ob s = (fst (spec_recv ms), s') \<and> queue_holds ob s' (snd (spec_recv ms)) \<and> tcb s' = tcb s \<and>
    g_active_task s' = g_active_task s \<and> q_size (msg_q (queues s' ob)) = q_size (msg_q (queues s ob)) \<and> blk s' = blk s"
proof (cases ms)
  case Nil
  with h c show ?thesis by (auto simp: queue_recv_now_def krhino_queue_recv_def queue_holds_def)
next
  case (Cons m ms')
  define q where "q = queues s ob"
  have "blk_holds (q_ringbuf q) (ptr_bytes m # map ptr_bytes ms')" using h Cons by (simp add: queue_holds_def q_def)
  from queue_pop_takes [OF this] obtain rb where rb: "ringbuf_queue_pop (q_ringbuf q) = Some (ptr_bytes m, rb)"
    "blk_holds rb (map ptr_bytes ms')" "rb_end rb = rb_end (q_ringbuf q)" "rb_blk_size rb = rb_blk_size (q_ringbuf q)" by auto
  have n: "cur_num (msg_q q) = Suc (length ms')" using h Cons by (simp add: queue_holds_def q_def)
  have e: "queue_recv_now ob s = (Got m, upd_queue s ob (\<lambda>q. q\<lparr>q_ringbuf := rb, msg_q := (msg_q q)\<lparr>cur_num := cur_num (msg_q q) - 1\<rparr>\<rparr>))"
    using h c rb(1) n by (simp add: queue_recv_now_def krhino_queue_recv_def queue_holds_def q_def)
  have "length ms' = cur_num (msg_q q) - 1" using n by simp
  then show ?thesis unfolding e using h rb Cons by (simp add: queue_holds_def q_def)
qed

definition not_cancelled :: "oid \<Rightarrow> kernel \<Rightarrow> bool" where
  "not_cancelled ob s \<longleftrightarrow> \<not> task_cancel_chk s ob"

lemma not_cancelled_cong:
  "tcb s' = tcb s \<Longrightarrow> g_active_task s' = g_active_task s \<Longrightarrow> blk s' = blk s \<Longrightarrow> not_cancelled ob s' = not_cancelled ob s"
  by (simp add: not_cancelled_def task_cancel_chk_def)

interpretation pointer_queue: channel "queue_send ob" "queue_recv_now ob"
  "\<lambda>s ms. queue_holds ob s ms \<and> not_cancelled ob s" "\<lambda>s m. True"
  "\<lambda>s ms m. length ms < q_size (msg_q (queues s ob))" RHINO_QUEUE_FULL
proof unfold_locales
  show "\<exists>s'. queue_send ob s m = (fst (spec_send (length ms < q_size (msg_q (queues s ob))) RHINO_QUEUE_FULL ms m), s') \<and>
      queue_holds ob s' (snd (spec_send (length ms < q_size (msg_q (queues s ob))) RHINO_QUEUE_FULL ms m)) \<and> not_cancelled ob s'"
    if "queue_holds ob s ms \<and> not_cancelled ob s" for s ms m
    using queue_send_spec [of ob s ms _ m] that not_cancelled_cong [of _ s ob] by blast
  show "\<exists>s'. queue_recv_now ob s = (fst (spec_recv ms), s') \<and> queue_holds ob s' (snd (spec_recv ms)) \<and> not_cancelled ob s'"
    if "queue_holds ob s ms \<and> not_cancelled ob s" for s ms
    using queue_recv_spec [of ob s ms] that not_cancelled_cong [of _ s ob] unfolding not_cancelled_def by blast
qed

text \<open>As many messages as there is room for can be sent in a row.\<close>

lemma queue_sends:
  "queue_holds ob s ms \<Longrightarrow> not_cancelled ob s \<Longrightarrow> length ms + length xs \<le> q_size (msg_q (queues s ob)) \<Longrightarrow>
   \<exists>s'. send_all (queue_send ob) s xs = (replicate (length xs) RHINO_SUCCESS, s') \<and> queue_holds ob s' (ms @ xs) \<and> not_cancelled ob s'"
proof (induction xs arbitrary: s ms)
  case (Cons x xs)
  from Cons.prems have lt: "length ms < q_size (msg_q (queues s ob))" by simp
  from queue_send_spec [OF Cons.prems(1) refl, of x] obtain s1 where
    s1: "queue_send ob s x = (RHINO_SUCCESS, s1)" "queue_holds ob s1 (ms @ [x])" "tcb s1 = tcb s"
    "g_active_task s1 = g_active_task s" "q_size (msg_q (queues s1 ob)) = q_size (msg_q (queues s ob))" "blk s1 = blk s"
    using lt by (auto simp: spec_send_def)
  have "not_cancelled ob s1" using Cons.prems(2) not_cancelled_cong [OF s1(3,4,6)] by simp
  from Cons.IH [OF s1(2) this] Cons.prems(3) s1(1,5) show ?case by (auto simp: Let_def)
qed simp

section \<open>The queue of byte messages\<close>

definition bq_holds :: "oid \<Rightarrow> kernel \<Rightarrow> u8 list list \<Rightarrow> bool" where
  "bq_holds ob s ms \<longleftrightarrow> obj_type (blk s ob) = RHINO_BUF_QUEUE_OBJ_TYPE \<and> blk_list (blk s ob) = [] \<and>
     bq_msgs (buf_queues s ob) ms"

definition bq_send :: "oid \<Rightarrow> kernel \<Rightarrow> u8 list \<Rightarrow> kstat \<times> kernel" where
  "bq_send ob s m = krhino_buf_queue_send s (Some ob) (Some m) (length m)"

text \<open>The message is what the receiver finds in its buffer at address \<open>a\<close>.\<close>

definition bq_recv_now :: "oid \<Rightarrow> u32 \<Rightarrow> kernel \<Rightarrow> u8 list received \<times> kernel" where
  "bq_recv_now ob a s = (case krhino_buf_queue_recv s (Some ob) RHINO_NO_WAIT (Some a) False of
     (Ret st, Some n, s') \<Rightarrow> (if st = RHINO_SUCCESS then Got (take n (bufs s' (unat a))) else Nothing, s')
   | (_, _, s') \<Rightarrow> (Nothing, s'))"

definition bq_message :: "oid \<Rightarrow> kernel \<Rightarrow> u8 list \<Rightarrow> bool" where
  "bq_message ob s m \<longleftrightarrow> 0 < length m \<and> length m \<le> max_msg_size (buf_queues s ob) \<and> length m < 2 ^ 32 - 4 \<and>
     (rb_type (bq_ringbuf (buf_queues s ob)) = RINGBUF_TYPE_FIX \<longrightarrow> length m = max_msg_size (buf_queues s ob))"

definition bq_room :: "oid \<Rightarrow> kernel \<Rightarrow> u8 list \<Rightarrow> bool" where
  "bq_room ob s m \<longleftrightarrow> (\<exists>rb. ringbuf_push (bq_ringbuf (buf_queues s ob)) m (length m) = Some (RHINO_SUCCESS, rb))"

lemma bq_send_spec:
  assumes h: "bq_holds ob s ms" and m: "bq_message ob s m"
  defines "r \<equiv> spec_send (bq_room ob s m) RHINO_BUF_QUEUE_FULL ms m"
  shows "\<exists>s'. bq_send ob s m = (fst r, s') \<and> bq_holds ob s' (snd r) \<and> tcb s' = tcb s \<and>
    g_active_task s' = g_active_task s \<and> blk s' = blk s \<and> traps s' = traps s"
proof -
  define q where "q = buf_queues s ob"
  have hq: "obj_type (blk s ob) = RHINO_BUF_QUEUE_OBJ_TYPE" "blk_list (blk s ob) = []" "bq_msgs q ms"
    using h by (simp_all add: bq_holds_def q_def)
  have mq: "0 < length m" "length m \<le> max_msg_size q" "length m < 2 ^ 32 - 4"
    "rb_type (bq_ringbuf q) = RINGBUF_TYPE_FIX \<Longrightarrow> length m = max_msg_size q"
    using m by (simp_all add: bq_message_def q_def)
  have guard: "\<not> length m > max_msg_size (buf_queues s ob)" "m \<noteq> []" using mq by (auto simp: q_def)
  show ?thesis
  proof (cases "bq_room ob s m")
    case False
    then have "ringbuf_push (bq_ringbuf q) m (length m) = Some (RHINO_RINGBUF_FULL, bq_ringbuf q)"
      using bq_push [OF hq(3) mq(1,2,4,3)] by (auto simp: bq_room_def q_def)
    then have "bq_send ob s m = (RHINO_BUF_QUEUE_FULL, upd_bq s ob (\<lambda>q'. q'\<lparr>bq_ringbuf := bq_ringbuf q\<rparr>))"
      using hq(1,2) guard by (simp add: bq_send_def krhino_buf_queue_send_def buf_queue_send_def q_def)
    then show ?thesis using False hq by (auto simp: r_def spec_send_def bq_holds_def q_def bq_msgs_def)
  next
    case True
    then obtain rb where rb: "ringbuf_push (bq_ringbuf q) m (length m) = Some (RHINO_SUCCESS, rb)"
      by (auto simp: bq_room_def q_def)
    have ms: "bq_msgs (q\<lparr>bq_ringbuf := rb, bq_cur_num := bq_cur_num q + 1, bq_peak_num := p, min_free_buf_size := f\<rparr>) (ms @ [m])"
      for p f using bq_push [OF hq(3) mq(1,2,4,3)] rb by auto
    define p where "p = (if bq_peak_num q < bq_cur_num q + 1 then bq_cur_num q + 1 else bq_peak_num q)"
    define f where "f = (if min_free_buf_size q > rb_freesize rb then rb_freesize rb else min_free_buf_size q)"
    have "bq_send ob s m = (RHINO_SUCCESS, upd_bq s ob (\<lambda>q. q\<lparr>bq_ringbuf := rb, bq_cur_num := bq_cur_num q + 1,
        bq_peak_num := p, min_free_buf_size := f\<rparr>))"
      using hq(1,2) guard rb
      by (auto simp: bq_send_def krhino_buf_queue_send_def buf_queue_send_def q_def p_def f_def Let_def upd_bq_def)
    then show ?thesis using True hq ms [of f p] by (auto simp: r_def spec_send_def bq_holds_def q_def)
  qed
qed

lemma bq_recv_spec:
  assumes h: "bq_holds ob s ms" and c: "not_cancelled ob s"
  shows "\<exists>s'. bq_recv_now ob a s = (fst (spec_recv ms), s') \<and> bq_holds ob s' (snd (spec_recv ms)) \<and> tcb s' = tcb s \<and>
    g_active_task s' = g_active_task s \<and> blk s' = blk s \<and> traps s' = traps s"
proof (cases ms)
  case Nil
  with h c show ?thesis
    by (auto simp: bq_recv_now_def krhino_buf_queue_recv_def bq_holds_def bq_msgs_def not_cancelled_def)
next
  case (Cons m ms')
  define q where "q = buf_queues s ob"
  have "bq_msgs q (m # ms')" using h Cons by (simp add: bq_holds_def q_def)
  from bq_pop [OF this] obtain rb where rb: "ringbuf_pop (bq_ringbuf q) = Some (m, length m, rb)"
    "bq_msgs (q\<lparr>bq_ringbuf := rb, bq_cur_num := bq_cur_num q - 1\<rparr>) ms'" by auto
  have n: "0 < bq_cur_num q" using \<open>bq_msgs q (m # ms')\<close> by (auto simp: bq_msgs_def)
  have "bq_recv_now ob a s = (Got m, upd_bq (s\<lparr>bufs := (bufs s)(unat a := m)\<rparr>) ob
      (\<lambda>q. q\<lparr>bq_ringbuf := rb, bq_cur_num := bq_cur_num q - 1\<rparr>))"
    using h c rb(1) n by (simp add: bq_recv_now_def krhino_buf_queue_recv_def bq_holds_def q_def not_cancelled_def)
  then show ?thesis using h Cons rb(2) by (auto simp: bq_holds_def q_def)
qed

interpretation byte_queue: channel "bq_send ob" "bq_recv_now ob a"
  "\<lambda>s ms. bq_holds ob s ms \<and> not_cancelled ob s" "bq_message ob" "\<lambda>s ms m. bq_room ob s m" RHINO_BUF_QUEUE_FULL
proof unfold_locales
  show "\<exists>s'. bq_send ob s m = (fst (spec_send (bq_room ob s m) RHINO_BUF_QUEUE_FULL ms m), s') \<and>
      bq_holds ob s' (snd (spec_send (bq_room ob s m) RHINO_BUF_QUEUE_FULL ms m)) \<and> not_cancelled ob s'"
    if "bq_holds ob s ms \<and> not_cancelled ob s" "bq_message ob s m" for s ms m
    using bq_send_spec [of ob s ms m] that not_cancelled_cong [of _ s ob] by blast
  show "\<exists>s'. bq_recv_now ob a s = (fst (spec_recv ms), s') \<and> bq_holds ob s' (snd (spec_recv ms)) \<and> not_cancelled ob s'"
    if "bq_holds ob s ms \<and> not_cancelled ob s" for s ms
    using bq_recv_spec [of ob s ms a] that not_cancelled_cong [of _ s ob] by blast
qed

end
