(* ===== verification/Task_Props.thy ===== *)
theory Task_Props
  imports Kernel_Steps Sample
begin

text \<open>
  The life of a task: what its creation puts on its stack, suspension and resumption, and what
  its deletion leaves behind.
\<close>

section \<open>A new task\<close>

lemma created_task:
  assumes n: "g_intrpt_nested_level s = 0" and sz: "sz \<noteq> 0" and pri: "pri < RHINO_IDLE_PRI" and fit: "stack_fits base sz"
  shows "\<exists>s'. krhino_task_create deathbed s (Some t) (Some name) arg pri ticks (Some base) sz (Some entry) autorun =
      (RHINO_SUCCESS, s') \<and> tcb s' t = fst (task_init deathbed (Some name) arg pri ticks base sz entry autorun K_OBJ_STATIC_ALLOC) \<and>
      l_task_head (g_kobj_list s') = l_task_head (g_kobj_list s) @ [t]"
proof -
  have "\<not> pri \<ge> RHINO_CONFIG_PRI_MAX" "pri \<noteq> RHINO_IDLE_PRI" using pri by (simp_all add: RHINO_IDLE_PRI_def)
  then show ?thesis using n sz
    by (simp add: krhino_task_create_def task_create_def Let_def split_def)
qed

lemma new_stack:
  assumes "stack_fits base sz" and k_def: "k = fst (task_init deathbed name arg pri ticks base sz entry autorun flag)"
  shows "task_stack k = base + 4 * of_nat (stack_top base sz - 17)"
    "stack_words k = take (stack_top base sz - 17) ((replicate (unat sz) 0)[0 := RHINO_TASK_STACK_OVF_MAGIC]) @
       stack_frame arg entry deathbed @ drop (stack_top base sz) ((replicate (unat sz) 0)[0 := RHINO_TASK_STACK_OVF_MAGIC])"
    "task_stack_base k = base" "stack_size k = sz"
  using assms(1) by (simp_all add: k_def task_init_def cpu_task_stack_init_def stack_fits_def Let_def blank_task_def)

lemma new_stack_frame:
  assumes "stack_fits base sz"
  shows "take 17 (drop (stack_top base sz - 17) (stack_words (fst (task_init deathbed name arg pri ticks base sz entry autorun flag))))
    = stack_frame arg entry deathbed"
    "length (stack_words (fst (task_init deathbed name arg pri ticks base sz entry autorun flag))) = unat sz"
  using assms by (auto simp: new_stack [OF assms refl] stack_fits_def stack_frame_def min_def)

text \<open>One word more than the frame leaves room for the check word.\<close>

lemma new_stack_words:
  assumes f: "stack_fits base sz" and top: "18 \<le> stack_top base sz"
  shows "stack_words (fst (task_init deathbed name arg pri ticks base sz entry autorun flag)) =
    RHINO_TASK_STACK_OVF_MAGIC # replicate (stack_top base sz - 18) 0 @ stack_frame arg entry deathbed @
      replicate (unat sz - stack_top base sz) 0"
proof -
  obtain n where n: "stack_top base sz = 18 + n" using top by (metis le_add_diff_inverse)
  obtain m where m: "unat sz = 18 + n + m" using f n by (metis le_add_diff_inverse stack_fits_def)
  have "(replicate (unat sz) 0)[0 := RHINO_TASK_STACK_OVF_MAGIC] = RHINO_TASK_STACK_OVF_MAGIC # replicate (17 + n + m) 0"
  proof -
    have "18 + n + m = Suc (17 + n + m)" by simp
    then show ?thesis unfolding m by (simp only: replicate_Suc list_update_code)
  qed
  then show ?thesis unfolding new_stack(2) [OF f refl]
    by (simp add: n m take_Cons' drop_Cons')
qed

lemma new_min_free:
  assumes f: "stack_fits base sz" and top: "18 \<le> stack_top base sz"
    and k: "tcb s t = fst (task_init deathbed name arg pri ticks base sz entry autorun flag)"
  shows "krhino_task_stack_min_free s (Some t) False = (RHINO_SUCCESS, Some (stack_top base sz - 18), s)"
proof -
  let ?ws = "drop 1 (stack_words (tcb s t))"
  have "?ws = replicate (stack_top base sz - 18) 0 @ stack_frame arg entry deathbed @ replicate (unat sz - stack_top base sz) 0"
    by (simp add: k new_stack_words [OF f top])
  then have "length (takeWhile (\<lambda>w. w = 0) ?ws) = stack_top base sz - 18"
    "length ?ws = stack_top base sz - 18 + 17 + (unat sz - stack_top base sz)"
    by (simp_all add: stack_frame_def takeWhile_append)
  moreover have "task_state (tcb s t) \<noteq> K_DELETED" by (simp add: task_init_fields(6) [OF k])
  ultimately show ?thesis by (simp add: krhino_task_stack_min_free_def Let_def)
qed

text \<open>The stack check of the running task finds nothing wrong with it.\<close>

lemma new_stack_check:
  assumes f: "stack_fits base sz" and top: "18 \<le> stack_top base sz" and b: "unat base + 4 * unat sz < 2 ^ 32"
    and k: "tcb s (g_active_task s) = fst (task_init deathbed name arg pri ticks base sz entry autorun flag)"
  shows "krhino_stack_ovf_check s = s"
proof -
  let ?n = "stack_top base sz - 17"
  have n: "?n \<le> unat sz" "1 \<le> ?n" using f top by (simp_all add: stack_fits_def)
  define off :: u32 where "off = of_nat (4 * ?n)"
  have sp: "base + 4 * of_nat ?n = base + off" by (simp add: off_def)
  have "4 * ?n < 2 ^ 32" using n(1) b by simp
  then have "unat off = 4 * ?n" unfolding off_def by (simp add: unat_of_nat del: of_nat_mult)
  then have u: "unat (base + off) = unat base + 4 * ?n" "unat (base + 4) = unat base + 4"
    using n b by (simp_all add: unat_word_ariths)
  then have "\<not> base + off < base + 4" using n(2) by (simp add: word_less_nat_alt)
  then show ?thesis
    by (simp add: krhino_stack_ovf_check_def Let_def k new_stack(1,3) [OF f refl, unfolded sp] new_stack_words [OF f top])
qed

section \<open>Suspension\<close>

text \<open>Suspending a task and resuming it leaves it in the state it was in.\<close>

lemma suspend_resume:
  assumes w: "kwf s" "act_inv s" and st: "task_state (tcb s t) \<in> {K_RDY, K_PEND, K_SLEEP}"
    and p: "prio (tcb s t) \<noteq> RHINO_IDLE_PRI" and nl: "\<not> (t = g_active_task s \<and> g_sched_lock s > 0)"
  defines "s1 \<equiv> snd (krhino_task_suspend s (Some t))"
  shows "fst (krhino_task_suspend s (Some t)) = RHINO_SUCCESS"
    "task_state (tcb s1 t) \<in> {K_SUSPENDED, K_PEND_SUSPENDED, K_SLEEP_SUSPENDED}"
    "fst (krhino_task_resume s1 (Some t)) = RHINO_SUCCESS"
    "task_state (tcb (snd (krhino_task_resume s1 (Some t))) t) = task_state (tcb s t)"
  using st p nl
  by (auto simp: s1_def krhino_task_suspend_def task_suspend_def krhino_task_resume_def task_resume_def Let_def)

section \<open>Deletion\<close>

lemma deleted_state:
  assumes w: "kwf s" "act_inv s" and lv: "live (tcb s t)" and n: "g_intrpt_nested_level s = 0"
    and p: "prio (tcb s t) \<noteq> RHINO_IDLE_PRI" "task_mm_flag (tcb s t) = K_OBJ_STATIC_ALLOC"
    and nl: "\<not> (t = g_active_task s \<and> g_sched_lock s > 0)"
  shows "fst (krhino_task_del s (Some t)) = RHINO_SUCCESS \<and> task_state (tcb (snd (krhino_task_del s (Some t))) t) = K_DELETED"
proof -
  define s1 where "s1 = task_mutex_free s t"
  have "dying t (mutex_list (tcb s t)) s" using w(1) minv_dying_start [OF _ lv] by (auto simp: dying_def kwf_def)
  moreover have "distinct (mutex_list (tcb s t))" using w(1) lv by (simp add: kwf_def minv_def)
  ultimately have f: "dying t [] s1" "tcb s1 t = tcb s t"
    using task_mutex_free_dying [of t "mutex_list (tcb s t)" s s1] by (simp_all add: s1_def task_mutex_free_def)
  define s2 where "s2 = upd_task (blk_list_rm (tick_list_rm s1 t) t) t (\<lambda>k. k\<lparr>task_state := K_DELETED\<rparr>)"
  have "task_state (tcb (mutex_task_pri_reset s2 t) t) = K_DELETED" if b: "blocked (tcb s t)"
  proof -
    have l1: "live (tcb s1 t)" "task_state (tcb s1 t) \<noteq> K_RDY" using lv b f(2) by (auto simp: blocked_def)
    have "reprio s2 (mutex_task_pri_reset s2 t)"
      using del_waiting_kwf(3) [OF f(1) l1] b f(2) by (simp add: s2_def dead_def)
    from reprio_frame(1) [OF this, of t] show ?thesis by (simp add: s2_def)
  qed
  then show ?thesis using n p nl lv f(2)
    by (cases "task_state (tcb s t)")
      (simp_all add: krhino_task_del_def Let_def s1_def [symmetric] s2_def live_def blocked_def)
qed

text \<open>A deleted task is on no list and owns nothing.\<close>

lemma dead_nowhere:
  assumes w: "kwf s" and d: "task_state (tcb s t) = K_DELETED"
  shows "(\<forall>p. t \<notin> set (cur_list_item (g_ready_queue s) p)) \<and> t \<notin> set (g_tick_list s) \<and>
    (\<forall>ob. t \<notin> set (blk_list (blk s ob))) \<and> t \<notin> set (l_task_head (g_kobj_list s)) \<and>
    (\<forall>m. obj_type (blk s m) = RHINO_MUTEX_OBJ_TYPE \<longrightarrow> mutex_task (mutexes s m) \<noteq> Some t)"
proof -
  have k: "kinv s" "minv s" "task_list_inv s" using w by (simp_all add: kwf_def)
  have nl: "\<not> live (tcb s t)" "\<not> blocked (tcb s t)" "\<not> sleeping (tcb s t)"
    using d by (simp_all add: live_def blocked_def sleeping_def)
  have "t \<notin> ready_set s p" for p using d by (simp add: ready_set_def)
  then have "t \<notin> set (cur_list_item (g_ready_queue s) p)" for p
    using rq_holds_ring [of "g_ready_queue s" "ready_set s" p] kinv_ready [OF k(1)] by auto
  moreover have "t \<notin> set (g_tick_list s)" using k(1) nl by (auto simp: kinv_def tick_inv_def)
  moreover have "t \<notin> set (blk_list (blk s ob))" for ob using list_blocked [OF k(1), of t ob] nl by auto
  moreover have "t \<notin> set (l_task_head (g_kobj_list s))" using k(3) nl by (simp add: task_list_inv_def)
  ultimately show ?thesis using minv_owner(1) [OF k(2)] nl by auto
qed

end
