(* ===== verification/Timer_Props.thy ===== *)
theory Timer_Props
  imports K_Boot Queue_Props
begin

text \<open>
  Timers as their users see them: a command arrives as it was sent, starting a timer puts it on the
  list in its place, and what happens to a timer that is already late when another one is started.
\<close>

section \<open>Commands travel as bytes\<close>

lemma bytes_u32_u32_bytes [simp]: "bytes_u32 (u32_bytes x) = x"
proof -
  have "unat x < 2 ^ 32" using unsigned_less [of x] by simp
  then show ?thesis by (simp add: bytes_u32_def u32_bytes_def bytes_size_size_bytes)
qed

lemma length_u32_bytes [simp]: "length (u32_bytes x) = 4"
  by (simp add: u32_bytes_def)

lemma halves: "push_bit 32 (ucast (ucast (drop_bit 32 (x :: u64)) :: u32)) OR ucast (ucast x :: u32) = x"
  by (rule bit_eqI) (auto simp: bit_simps)

lemma bytes_u64_u64_bytes [simp]: "bytes_u64 (u64_bytes x) = x"
  by (simp add: bytes_u64_def u64_bytes_def halves)

lemma length_u64_bytes [simp]: "length (u64_bytes x) = 8"
  by (simp add: u64_bytes_def)

lemma bytes_cb_cb_bytes: "bytes_cb (cb_bytes c) = c \<and> length (cb_bytes c) = sizeof_cb"
proof -
  have "drop 8 (cb_bytes c) = u64_bytes (cb_first c) @ u64_bytes (cb_u c)"
    "drop 16 (cb_bytes c) = u64_bytes (cb_u c)" "take 4 (cb_bytes c) = u32_bytes (cb_timer c)" "cb_bytes c ! 4 = cb_num c"
    by (simp_all add: cb_bytes_def nth_append)
  then show ?thesis by (simp add: bytes_cb_def) (simp add: cb_bytes_def sizeof_cb_def)
qed

lemma get_set_arg [simp]: "get_arg (set_arg a u) = a"
  by (rule bit_eqI) (auto simp: get_arg_def set_arg_def bit_simps)

section \<open>Starting a timer\<close>

lemma start_inserts:
  assumes t: "tm_obj_type (timers s t) = RHINO_TIMER_OBJ_TYPE" "timer_state (timers s t) = TIMER_DEACTIVE"
    and c: "cb_timer c = t" and n: "t \<notin> set (g_timer_head s)"
  shows "g_timer_head (cmd_proc s c TIMER_CMD_START) =
      insert_before (\<lambda>u. init_count (timers s t) < time_left s u) t (g_timer_head s)"
    "timers (cmd_proc s c TIMER_CMD_START) = (timers s)(t := (timers s t)\<lparr>tm_match := g_timer_count s + init_count (timers s t),
       tm_remain := init_count (timers s t), to_head := True, timer_state := TIMER_ACTIVE\<rparr>)"
    "g_timer_count (cmd_proc s c TIMER_CMD_START) = g_timer_count s"
proof -
  define s1 where "s1 = upd_timer s t (\<lambda>m. m\<lparr>tm_match := g_timer_count s + init_count m, tm_remain := init_count m, to_head := True\<rparr>)"
  have e: "cmd_proc s c TIMER_CMD_START = upd_timer (timer_list_pri_insert s1 t) t (\<lambda>m. m\<lparr>timer_state := TIMER_ACTIVE\<rparr>)"
    using t c by (simp add: cmd_proc_def s1_def Let_def)
  show "timers (cmd_proc s c TIMER_CMD_START) = (timers s)(t := (timers s t)\<lparr>tm_match := g_timer_count s + init_count (timers s t),
       tm_remain := init_count (timers s t), to_head := True, timer_state := TIMER_ACTIVE\<rparr>)"
    "g_timer_count (cmd_proc s c TIMER_CMD_START) = g_timer_count s"
    by (simp_all add: e s1_def)
  have "g_timer_head (cmd_proc s c TIMER_CMD_START) =
      insert_before (\<lambda>u. tm_match (timers s1 u) - g_timer_count s1 > tm_remain (timers s1 t)) t (g_timer_head s)"
    by (simp add: e timer_list_pri_insert_def s1_def Let_def)
  also have "\<dots> = insert_before (\<lambda>u. init_count (timers s t) < time_left s u) t (g_timer_head s)"
    using n by (intro insert_before_cong) (auto simp: s1_def time_left_def)
  finally show "g_timer_head (cmd_proc s c TIMER_CMD_START) =
      insert_before (\<lambda>u. init_count (timers s t) < time_left s u) t (g_timer_head s)" .
qed

text \<open>A timer that is late counts as one far in the future, so that a timer started now comes before it,
  and the walk, which stops at the first timer that is not due, does not reach it.\<close>

lemma late_is_far:
  assumes "sint (r :: u64) < 0" "c < MAX_TIMER_TICKS"
  shows "c < r"
proof -
  have "\<not> unat r < 2 ^ 63"
  proof
    assume "unat r < 2 ^ 63"
    then have "int (unat r) < int (2 ^ 63)" unfolding of_nat_less_iff .
    then have "uint r < 2 ^ 63" unfolding uint_nat by simp
    moreover have "- (2 ^ 63) \<le> uint r" by (rule order_trans [of _ 0]) simp_all
    ultimately have "sint r = uint r" unfolding sint_uint by (intro signed_take_bit_int_eq_self) simp_all
    moreover have "0 \<le> uint r" by simp
    ultimately show False using assms(1) by simp
  qed
  moreover have "unat c < 2 ^ 63 - 1" using assms(2) by (simp add: word_less_nat_alt max_ticks)
  ultimately show ?thesis by (simp add: word_less_nat_alt)
qed

lemma start_overtakes_late:
  assumes i: "tinv s" and h: "g_timer_head s = u # us" and late: "sint (time_left s u) < 0"
    and t: "tm_obj_type (timers s t) = RHINO_TIMER_OBJ_TYPE" "timer_state (timers s t) = TIMER_DEACTIVE" and c: "cb_timer c = t"
  defines "s' \<equiv> cmd_proc s c TIMER_CMD_START"
  shows "g_timer_head s' = t # u # us \<and> timer_cb_proc call s' = s' \<and> u \<in> dues s'"
proof -
  have ok: "timer_ok (timers s t)" and m: "set (g_timer_head s) = {t. to_head (timers s t)}" using i by (simp_all add: tinv_def)
  have n: "t \<notin> set (g_timer_head s)" using ok m t by (auto simp: timer_ok_def)
  have ic: "0 < init_count (timers s t)" "init_count (timers s t) < MAX_TIMER_TICKS" using ok t by (simp_all add: timer_ok_def)
  note st = start_inserts [OF t c n, folded s'_def]
  have hd: "g_timer_head s' = t # u # us" using st(1) h late_is_far [OF late ic(2)] by simp
  have "time_left s' t = init_count (timers s t)" using st by (simp add: time_left_def)
  then have "0 < sint (time_left s' t)" using small_positive [OF ic] by simp
  then have nd: "\<not> sint (tm_match (timers s' t) - g_timer_count s') \<le> 0" by (simp add: time_left_def)
  have "timer_cb_loop call (Suc k) s' (Some t) = Some s'" for k unfolding timer_cb_loop.simps if_not_P [OF nd] by (rule refl)
  then have "timer_cb_proc call s' = s'" unfolding timer_cb_proc_def hd by simp
  moreover have "time_left s' u = time_left s u" using n h st by (auto simp: time_left_def)
  then have "u \<in> dues s'" using late hd by (simp add: dues_def)
  ultimately show ?thesis using hd by simp
qed

text \<open>The list stays in order.\<close>

lemma start_ordered:
  assumes i: "tinv s" "ordered s" and t: "tm_obj_type (timers s t) = RHINO_TIMER_OBJ_TYPE" "timer_state (timers s t) = TIMER_DEACTIVE"
    and c: "cb_timer c = t"
  defines "s' \<equiv> cmd_proc s c TIMER_CMD_START"
  shows "ordered s' \<and> tinv s' \<and> time_left s' t = init_count (timers s t)"
proof -
  have ok: "timer_ok (timers s t)" and m: "set (g_timer_head s) = {t. to_head (timers s t)}" using i by (simp_all add: tinv_def)
  have n: "t \<notin> set (g_timer_head s)" using ok m t by (auto simp: timer_ok_def)
  note st = start_inserts [OF t c n, folded s'_def]
  have l: "time_left s' u = (if u = t then init_count (timers s t) else time_left s u)" for u
    by (simp add: time_left_def st)
  have "sorted_wrt (\<lambda>t u. time_left s' t \<le> time_left s' u) (g_timer_head s)"
    using i(2) sorted_wrt_key_cong [of "g_timer_head s" "time_left s'" "time_left s"] n unfolding ordered_def by (metis l)
  moreover have "g_timer_head s' = insert_before (\<lambda>u. time_left s' t < time_left s' u) t (g_timer_head s)"
    unfolding st(1) using n by (intro insert_before_cong) (auto simp: l)
  ultimately have "ordered s'" unfolding ordered_def using sorted_wrt_insert_before [of "time_left s'" "g_timer_head s" t] by simp
  moreover have "cmd_ok c TIMER_CMD_START" by (simp add: cmd_ok_def timer_cmds)
  then have "tinv s'" unfolding s'_def by (rule cmd_proc_tinv [OF i(1)])
  ultimately show ?thesis by (simp add: l)
qed

text \<open>The boot leaves no timer at all.\<close>

lemma booted_timers:
  assumes "image_ok im"
  shows "tinv (booted im) \<and> ordered (booted im) \<and> on_time (booted im)"
proof -
  have "g_timer_head (booted im) = []" "timers (booted im) = timers (zero_memory im)" using booted_fresh [OF assms] by simp_all
  then show ?thesis by (simp add: tinv_def ordered_def on_time_def timer_ok_def zero_memory_def)
qed

text \<open>An example: timer 7 was created with ten ticks to its first call, timer 8 is on the list with three
  left, timer 9 is late by one.\<close>

definition sample_timer :: "u64 \<Rightarrow> u64 \<Rightarrow> bool \<Rightarrow> ktimer" where
  "sample_timer cnt m act = \<lparr>to_head = act, tm_name = None, tm_cb = 0x08003001, timer_cb_arg = 0, tm_match = m, tm_remain = 0,
     init_count = cnt, round_ticks = 0, tm_priv = 0, tm_obj_type = RHINO_TIMER_OBJ_TYPE,
     timer_state = (if act then TIMER_ACTIVE else TIMER_DEACTIVE), tm_mm_flag = 1\<rparr>"

definition sample_timers :: "wsys \<Rightarrow> wsys" where
  "sample_timers s = s\<lparr>timers := (timers s)(7 := sample_timer 10 0 False, 8 := sample_timer 3 103 True),
     g_timer_head := [8], g_timer_count := 100\<rparr>"

definition late_timers :: "wsys \<Rightarrow> wsys" where
  "late_timers s = s\<lparr>timers := (timers s)(7 := sample_timer 10 0 False, 9 := sample_timer 3 99 True),
     g_timer_head := [9], g_timer_count := 100\<rparr>"

lemma sample_timers_ok:
  "tinv (sample_timers (booted sample_image))" "ordered (sample_timers (booted sample_image))" "tinv (late_timers (booted sample_image))"
proof -
  have "timers (booted sample_image) = timers (zero_memory sample_image)" using booted_fresh [OF sample_image_ok] by simp
  then show "tinv (sample_timers (booted sample_image))" "ordered (sample_timers (booted sample_image))" "tinv (late_timers (booted sample_image))"
    by (auto simp: tinv_def ordered_def sample_timers_def late_timers_def timer_ok_def zero_memory_def sample_timer_def max_ticks)
qed

end
