(* ===== verification/K_MmBlk.thy ===== *)
theory K_MmBlk
  imports K_Err
begin

text \<open>
  The fixed-size block pool of \<open>k_mm_blk.c\<close>. The free blocks form a linked list whose links are
  the first words of the blocks; memory is the function \<open>word_at\<close> from addresses to 32-bit
  words, and the addresses of the pool are 32-bit words that wrap.
\<close>

record mblk_pool =
  pool_name :: "string option"
  pool_end :: u32
  pool_start :: u32
  pool_blk_size :: u32
  blk_avail :: u32
  blk_whole :: u32
  avail_list :: u32

record mem =
  word_at :: "u32 \<Rightarrow> u32"
  pool :: mblk_pool

definition store :: "'a mem_scheme \<Rightarrow> u32 \<Rightarrow> u32 \<Rightarrow> 'a mem_scheme" where
  "store m a v = m\<lparr>word_at := (word_at m)(a := v)\<rparr>"

section \<open>The operations\<close>

text \<open>The loop that chains the blocks, one turn per unit of fuel; \<open>None\<close> when the fuel runs out.
  It returns the memory, the number of blocks linked, the current and the next address.\<close>

fun chain_blocks :: "nat \<Rightarrow> 'a mem_scheme \<Rightarrow> u32 \<Rightarrow> u32 \<Rightarrow> u32 \<Rightarrow> u32 \<Rightarrow> u32 \<Rightarrow> ('a mem_scheme \<times> u32 \<times> u32 \<times> u32) option" where
  "chain_blocks n m sz pend blks cur nxt =
     (if nxt < pend then
        (case n of 0 \<Rightarrow> None
         | Suc n' \<Rightarrow> chain_blocks n' (store m cur nxt) sz pend (blks + 1) nxt (nxt + sz))
      else Some (m, blks, cur, nxt))"

declare chain_blocks.simps [simp del]

definition krhino_mblk_pool_init ::
    "nat \<Rightarrow> 'a mem_scheme \<Rightarrow> bool \<Rightarrow> string option \<Rightarrow> u32 \<Rightarrow> u32 \<Rightarrow> u32 \<Rightarrow> (kstat \<times> 'a mem_scheme) option" where
  "krhino_mblk_pool_init fuel m pool_null name start bsz psz =
     (if pool_null \<or> name = None \<or> start = 0 then Some (RHINO_NULL_PTR, m)
      else if psz < push_bit 1 bsz then Some (RHINO_BLK_POOL_SIZE_ERR, m)
      else if start AND 3 > 0 then Some (RHINO_INV_ALIGN, m)
      else if bsz AND 3 > 0 then Some (RHINO_INV_ALIGN, m)
      else if psz AND 3 > 0 then Some (RHINO_INV_ALIGN, m)
      else
        let pend = start + psz
        in case chain_blocks fuel m bsz pend 0 start (start + bsz) of
             None \<Rightarrow> None
           | Some (m1, blks, cur, nxt) \<Rightarrow>
               let blks' = (if nxt = pend then blks + 1 else blks);
                   m2 = store m1 cur 0
               in Some (RHINO_SUCCESS, m2\<lparr>pool := \<lparr>pool_name = name, pool_end = pend, pool_start = start,
                    pool_blk_size = bsz, blk_avail = blks', blk_whole = blks', avail_list = start\<rparr>\<rparr>))"

text \<open>The second component is what is stored through \<open>blk\<close>.\<close>

definition krhino_mblk_alloc :: "'a mem_scheme \<Rightarrow> bool \<Rightarrow> bool \<Rightarrow> kstat \<times> u32 option \<times> 'a mem_scheme" where
  "krhino_mblk_alloc m pool_null blk_null =
     (if pool_null \<or> blk_null then (RHINO_NULL_PTR, None, m)
      else if blk_avail (pool m) > 0 then
        let b = avail_list (pool m)
        in (RHINO_SUCCESS, Some b,
            m\<lparr>pool := (pool m)\<lparr>avail_list := word_at m b, blk_avail := blk_avail (pool m) - 1\<rparr>\<rparr>)
      else (RHINO_NO_MEM, Some 0, m))"

definition krhino_mblk_free :: "'a mem_scheme \<Rightarrow> bool \<Rightarrow> u32 \<Rightarrow> kstat \<times> 'a mem_scheme" where
  "krhino_mblk_free m pool_null b =
     (if pool_null \<or> b = 0 then (RHINO_NULL_PTR, m)
      else
        let m1 = store m b (avail_list (pool m))
        in (RHINO_SUCCESS,
            m1\<lparr>pool := (pool m1)\<lparr>avail_list := b, blk_avail := blk_avail (pool m1) + 1\<rparr>\<rparr>))"

definition krhino_mblk_check :: "'a mem_scheme \<Rightarrow> bool \<Rightarrow> u32 \<Rightarrow> bool" where
  "krhino_mblk_check m pool_null b \<longleftrightarrow> \<not> pool_null \<and> pool_start (pool m) \<le> b \<and> b < pool_end (pool m)"

section \<open>The free list\<close>

text \<open>\<open>chain m a bs\<close>: the links from address \<open>a\<close> lead through exactly the blocks \<open>bs\<close> to NULL.\<close>

fun chain :: "'a mem_scheme \<Rightarrow> u32 \<Rightarrow> u32 list \<Rightarrow> bool" where
  "chain m a [] \<longleftrightarrow> a = 0"
| "chain m a (b # bs) \<longleftrightarrow> a = b \<and> b \<noteq> 0 \<and> chain m (word_at m b) bs"

text \<open>The pool can hand out exactly the blocks \<open>bs\<close>, in this order. When the size of the pool is
  not a multiple of that of its blocks, one incomplete block stays at the end of the chain.\<close>

definition pool_holds :: "'a mem_scheme \<Rightarrow> u32 list \<Rightarrow> bool" where
  "pool_holds m bs \<longleftrightarrow> (\<exists>rest. chain m (avail_list (pool m)) (bs @ rest) \<and> distinct (bs @ rest)) \<and>
     length bs < 2 ^ 32 \<and> blk_avail (pool m) = of_nat (length bs)"

lemma chain_store_other: "a \<notin> set bs \<Longrightarrow> chain (store m a v) x bs = chain m x bs"
  by (induction bs arbitrary: x) (auto simp: store_def)

lemma chain_cong: "word_at m' = word_at m \<Longrightarrow> chain m' x bs = chain m x bs"
  by (induction bs arbitrary: x) auto

lemma mblk_alloc_takes:
  assumes h: "pool_holds m bs"
  shows "case bs of
      [] \<Rightarrow> krhino_mblk_alloc m False False = (RHINO_NO_MEM, Some 0, m)
    | b # bs' \<Rightarrow> \<exists>m'. krhino_mblk_alloc m False False = (RHINO_SUCCESS, Some b, m') \<and> pool_holds m' bs' \<and>
        word_at m' = word_at m"
proof (cases bs)
  case Nil
  then show ?thesis using h by (simp add: pool_holds_def krhino_mblk_alloc_def)
next
  case (Cons b bs')
  obtain rest where rest: "chain m (avail_list (pool m)) (bs @ rest)" "distinct (bs @ rest)"
    using h by (auto simp: pool_holds_def)
  define m' where "m' = m\<lparr>pool := (pool m)\<lparr>avail_list := word_at m b, blk_avail := blk_avail (pool m) - 1\<rparr>\<rparr>"
  have av: "blk_avail (pool m) = of_nat (length bs)" and ln: "length bs < 2 ^ 32" using h by (simp_all add: pool_holds_def)
  then have "unat (blk_avail (pool m)) = length bs" using ln by (simp add: unat_of_nat)
  then have pos: "blk_avail (pool m) > 0" using Cons by (metis length_0_conv list.distinct(1) unat_0 word_gt_0)
  have "chain m' (word_at m b) (bs' @ rest)" using rest(1) Cons chain_cong [of m' m] by (simp add: m'_def)
  moreover have "blk_avail (pool m) - 1 = of_nat (length bs')" using av Cons by simp
  ultimately have "pool_holds m' bs'" using rest(2) ln Cons by (auto simp: pool_holds_def m'_def)
  moreover have "krhino_mblk_alloc m False False = (RHINO_SUCCESS, Some b, m')"
    using pos rest(1) Cons by (simp add: krhino_mblk_alloc_def Let_def m'_def)
  ultimately show ?thesis using Cons by (auto simp: m'_def)
qed

text \<open>A block that is not in the chain goes to its front.\<close>

definition outside :: "'a mem_scheme \<Rightarrow> u32 \<Rightarrow> bool" where
  "outside m b \<longleftrightarrow> (\<forall>bs. chain m (avail_list (pool m)) bs \<longrightarrow> b \<notin> set bs)"

lemma mblk_free_gives:
  assumes h: "pool_holds m bs" and b: "b \<noteq> 0" "outside m b" "length bs + 1 < 2 ^ 32"
  shows "\<exists>m'. krhino_mblk_free m False b = (RHINO_SUCCESS, m') \<and> pool_holds m' (b # bs)"
proof -
  obtain rest where rest: "chain m (avail_list (pool m)) (bs @ rest)" "distinct (bs @ rest)"
    using h by (auto simp: pool_holds_def)
  have nb: "b \<notin> set (bs @ rest)" using b(2) rest(1) by (auto simp: outside_def)
  define m1 where "m1 = store m b (avail_list (pool m))"
  define m' where "m' = m1\<lparr>pool := (pool m1)\<lparr>avail_list := b, blk_avail := blk_avail (pool m1) + 1\<rparr>\<rparr>"
  have "chain m1 (avail_list (pool m)) (bs @ rest)"
    using rest(1) by (simp add: m1_def chain_store_other [OF nb])
  then have "chain m' (avail_list (pool m)) (bs @ rest)" using chain_cong [of m' m1] by (simp add: m'_def)
  moreover have "word_at m' b = avail_list (pool m)" by (simp add: m'_def m1_def store_def)
  ultimately have "chain m' (avail_list (pool m')) ((b # bs) @ rest)" using b by (simp add: m'_def)
  moreover have "distinct ((b # bs) @ rest)" using rest(2) nb by simp
  moreover have "blk_avail (pool m') = of_nat (length (b # bs))"
    using h by (simp_all add: m'_def m1_def store_def pool_holds_def)
  ultimately have "pool_holds m' (b # bs)" using b by (auto simp only: pool_holds_def list.size)
  moreover have "krhino_mblk_free m False b = (RHINO_SUCCESS, m')"
    using b by (simp add: krhino_mblk_free_def Let_def m1_def m'_def)
  ultimately show ?thesis by blast
qed

section \<open>Setting up a pool\<close>

text \<open>The address of the block with index \<open>i\<close>.\<close>

definition blk_at :: "u32 \<Rightarrow> u32 \<Rightarrow> nat \<Rightarrow> u32" where
  "blk_at start bsz i = start + of_nat i * bsz"

lemma blk_at_Suc: "blk_at start bsz (Suc i) = blk_at start bsz i + bsz"
  by (simp add: blk_at_def algebra_simps)

lemma unat_blk_at:
  assumes "unat start + i * unat bsz < 2 ^ 32"
  shows "unat (blk_at start bsz i) = unat start + i * unat bsz"
proof (cases "unat bsz = 0")
  case True
  then have "bsz = 0" by (simp add: unat_eq_0)
  then show ?thesis by (simp add: blk_at_def)
next
  case False
  have "i * 1 \<le> i * unat bsz" by (rule mult_le_mono) (use False in simp_all)
  then have "i < 2 ^ 32" using assms by linarith
  then have "unat (of_nat i :: u32) = i" by (simp add: unat_of_nat)
  then show ?thesis using assms by (simp add: blk_at_def unat_word_ariths)
qed

fun linked :: "'a mem_scheme \<Rightarrow> u32 \<Rightarrow> u32 \<Rightarrow> nat \<Rightarrow> nat \<Rightarrow> 'a mem_scheme" where
  "linked m start bsz k 0 = m"
| "linked m start bsz k (Suc n) = linked (store m (blk_at start bsz k) (blk_at start bsz (Suc k))) start bsz (Suc k) n"

lemma chain_blocks_links:
  assumes "\<And>i. i \<le> L \<Longrightarrow> (blk_at start bsz (Suc i) < pend) = (i < L)"
  shows "k \<le> L \<Longrightarrow> L - k \<le> n \<Longrightarrow>
    chain_blocks n m bsz pend blks (blk_at start bsz k) (blk_at start bsz (Suc k)) =
      Some (linked m start bsz k (L - k), blks + of_nat (L - k), blk_at start bsz L, blk_at start bsz (Suc L))"
proof (induction "L - k" arbitrary: k n m blks)
  case 0
  then have "k = L" by simp
  then show ?case using assms [of L] by (subst chain_blocks.simps) simp
next
  case (Suc d)
  then obtain n' where n: "n = Suc n'" and k: "k < L" "d = L - Suc k" by (cases n) auto
  have c: "blk_at start bsz (Suc k) < pend" using assms [of k] k by simp
  have "chain_blocks n m bsz pend blks (blk_at start bsz k) (blk_at start bsz (Suc k)) =
      chain_blocks n' (store m (blk_at start bsz k) (blk_at start bsz (Suc k))) bsz pend (blks + 1)
        (blk_at start bsz (Suc k)) (blk_at start bsz (Suc (Suc k)))"
    using c by (subst chain_blocks.simps) (simp add: n blk_at_Suc)
  also have "\<dots> = Some (linked (store m (blk_at start bsz k) (blk_at start bsz (Suc k))) start bsz (Suc k) (L - Suc k),
      blks + 1 + of_nat (L - Suc k), blk_at start bsz L, blk_at start bsz (Suc L))"
    by (rule Suc.hyps(1)) (use k Suc.prems n in simp_all)
  also have "L - k = Suc (L - Suc k)" using k by simp
  ultimately show ?case by (simp add: add.assoc)
qed

lemma linked_word:
  assumes inj: "\<And>i j. i \<le> L \<Longrightarrow> j \<le> L \<Longrightarrow> blk_at start bsz i = blk_at start bsz j \<Longrightarrow> i = j"
  shows "k + n \<le> L \<Longrightarrow> i \<le> L \<Longrightarrow> word_at (linked m start bsz k n) (blk_at start bsz i) =
    (if k \<le> i \<and> i < k + n then blk_at start bsz (Suc i) else word_at m (blk_at start bsz i))"
proof (induction n arbitrary: k m)
  case (Suc n)
  have "word_at (store m (blk_at start bsz k) v) (blk_at start bsz i) = (if i = k then v else word_at m (blk_at start bsz i))" for v
    using inj [of i k] Suc.prems by (auto simp: store_def)
  then show ?case using Suc.IH [of "Suc k"] Suc.prems by auto
qed auto

lemma chain_of_links:
  "(\<And>i. i \<le> L \<Longrightarrow> blk_at start bsz i \<noteq> 0) \<Longrightarrow>
   (\<And>i. i < L \<Longrightarrow> word_at m (blk_at start bsz i) = blk_at start bsz (Suc i)) \<Longrightarrow> word_at m (blk_at start bsz L) = 0 \<Longrightarrow>
   k \<le> L \<Longrightarrow> chain m (blk_at start bsz k) (map (blk_at start bsz) [k..<Suc L])"
proof (induction "L - k" arbitrary: k)
  case (Suc d)
  then have "k < L" "d = L - Suc k" by auto
  with Suc.hyps(1) [of "Suc k"] Suc.prems have "chain m (blk_at start bsz (Suc k)) (map (blk_at start bsz) [Suc k..<Suc L])" by simp
  moreover have "[k..<Suc L] = k # [Suc k..<Suc L]" using \<open>k < L\<close> by (simp only: upt_conv_Cons)
  ultimately show ?case using Suc.prems \<open>k < L\<close> by simp
qed (simp add: upt_conv_Cons)

text \<open>With a pool that leaves room for one block behind it in the address space, the set-up ends
  within as many turns as there are blocks, and the pool holds all of them.\<close>

lemma pool_init_holds:
  assumes b: "unat start + unat psz + unat bsz < 2 ^ 32" "start \<noteq> 0" "0 < unat bsz" "2 * unat bsz \<le> unat psz"
    and al: "start AND 3 = 0" "bsz AND 3 = 0" "psz AND 3 = 0"
    and fuel: "unat psz div unat bsz \<le> fuel"
  shows "\<exists>m'. krhino_mblk_pool_init fuel m False (Some name) start bsz psz = Some (RHINO_SUCCESS, m') \<and>
    pool_holds m' (map (blk_at start bsz) [0..<unat psz div unat bsz])"
proof -
  define S where "S = unat start" define B where "B = unat bsz" define P where "P = unat psz"
  note d = S_def [symmetric] B_def [symmetric] P_def [symmetric]
  have b': "S + P + B < 2 ^ 32" "0 < B" "2 * B \<le> P" using b by (simp_all add: d)
  define L where "L = (P - 1) div B"
  have PL: "L * B < P" "P \<le> Suc L * B"
  proof -
    have "L * B \<le> P - 1" by (simp add: L_def)
    then show "L * B < P" using b' by simp
    have "P - 1 < Suc L * B" using dividend_less_div_times [of B "P - 1"] b'(2) by (simp add: L_def)
    then show "P \<le> Suc L * B" by simp
  qed
  have un: "unat (blk_at start bsz i) = S + i * B" if "i \<le> Suc L" for i
  proof -
    have "i * B \<le> Suc L * B" using that by (rule mult_le_mono1)
    also have "\<dots> < P + B" using PL(1) by simp
    finally show ?thesis using unat_blk_at [of start i bsz] b'(1) by (simp add: d)
  qed
  have pend: "unat (start + psz) = S + P" using b'(1) by (simp add: unat_word_ariths d)
  have lt: "(blk_at start bsz (Suc i) < start + psz) = (i < L)" if "i \<le> L" for i
  proof -
    have "(blk_at start bsz (Suc i) < start + psz) = (Suc i * B < P)"
      using un [of "Suc i"] that pend by (simp add: word_less_nat_alt)
    also have "\<dots> = (i < L)"
    proof
      assume "i < L"
      then have "Suc i * B \<le> L * B" by (intro mult_le_mono1) simp
      then show "Suc i * B < P" using PL(1) by simp
    next
      assume "Suc i * B < P"
      then have "i \<noteq> L" using PL(2) by auto
      then show "i < L" using that by simp
    qed
    finally show ?thesis .
  qed
  have inj: "i = j" if "i \<le> L" "j \<le> L" "blk_at start bsz i = blk_at start bsz j" for i j
  proof -
    have "unat (blk_at start bsz i) = unat (blk_at start bsz j)" using that(3) by (rule arg_cong)
    moreover have "i \<le> Suc L" "j \<le> Suc L" using that(1,2) by simp_all
    ultimately have "S + i * B = S + j * B" using un [of i] un [of j] by presburger
    then show ?thesis using b'(2) by simp
  qed
  have nz: "blk_at start bsz i \<noteq> 0" if "i \<le> L" for i
  proof
    assume "blk_at start bsz i = 0"
    then have "S + i * B = 0" using un [of i] that by simp
    then show False using b(2) by (simp add: S_def unat_eq_0)
  qed
  have "L \<le> P div B" unfolding L_def by (intro div_le_mono) simp
  then have Lf: "L \<le> fuel" using fuel by (simp add: d)
  have b0: "blk_at start bsz 0 = start" "blk_at start bsz (Suc 0) = start + bsz" by (simp_all add: blk_at_def)
  define m1 where "m1 = linked m start bsz 0 L"
  have run: "chain_blocks fuel m bsz (start + psz) 0 start (start + bsz) =
      Some (m1, of_nat L, blk_at start bsz L, blk_at start bsz (Suc L))"
    using chain_blocks_links [OF lt, of 0 fuel m 0] Lf by (simp add: b0 m1_def)
  define m2 where "m2 = store m1 (blk_at start bsz L) 0"
  have "word_at m2 (blk_at start bsz i) = (if i = L then 0 else blk_at start bsz (Suc i))" if i: "i \<le> L" for i
  proof (cases "i = L")
    case True
    then show ?thesis by (simp add: m2_def store_def)
  next
    case False
    then have "blk_at start bsz i \<noteq> blk_at start bsz L" using inj [OF i order_refl] by metis
    then have "word_at m2 (blk_at start bsz i) = word_at m1 (blk_at start bsz i)" by (simp add: m2_def store_def)
    also have "\<dots> = blk_at start bsz (Suc i)"
      unfolding m1_def by (subst linked_word [OF inj]) (use i False in simp_all)
    finally show ?thesis using False by simp
  qed
  then have ch: "chain m2 start (map (blk_at start bsz) [0..<Suc L])"
    using chain_of_links [of L start bsz m2 0] nz b0(1) by simp
  define blks :: u32 where "blks = (if blk_at start bsz (Suc L) = start + psz then of_nat L + 1 else of_nat L)"
  define m' where "m' = m2\<lparr>pool := \<lparr>pool_name = Some name, pool_end = start + psz, pool_start = start,
    pool_blk_size = bsz, blk_avail = blks, blk_whole = blks, avail_list = start\<rparr>\<rparr>"
  have "push_bit 1 bsz = bsz * 2" by (simp add: push_bit_eq_mult)
  moreover have "unat (bsz * 2) = B * 2" using b' by (simp add: unat_word_ariths d)
  ultimately have "\<not> psz < push_bit 1 bsz" using b'(3) by (simp add: word_less_nat_alt d)
  then have ok: "krhino_mblk_pool_init fuel m False (Some name) start bsz psz = Some (RHINO_SUCCESS, m')"
    using b(2) al by (simp add: krhino_mblk_pool_init_def run Let_def m'_def m2_def blks_def)
  define N where "N = P div B"
  have end_eq: "(blk_at start bsz (Suc L) = start + psz) = (Suc L * B = P)"
    using un [of "Suc L"] pend by (simp add: word_unat_eq_iff)
  have N: "N = (if Suc L * B = P then Suc L else L)"
  proof (cases "Suc L * B = P")
    case True
    then have "N = Suc L * B div B" by (simp only: N_def)
    also have "\<dots> = Suc L" using b'(2) by (intro nonzero_mult_div_cancel_right) simp
    finally show ?thesis using True by simp
  next
    case False
    then have "P < Suc L * B" using PL(2) by simp
    then have "P div B = L" using PL(1) b'(2) by (intro div_nat_eqI) (simp_all add: mult.commute)
    with False show ?thesis by (simp add: N_def)
  qed
  have blks: "blks = of_nat N" using end_eq N by (simp add: blks_def)
  have "N \<le> Suc L" using N by simp
  then have split: "map (blk_at start bsz) [0..<N] @ map (blk_at start bsz) [N..<Suc L] = map (blk_at start bsz) [0..<Suc L]"
    using upt_add_eq_append [of 0 N "Suc L - N"] by simp
  have "distinct (map (blk_at start bsz) [0..<Suc L])"
    unfolding distinct_map set_upt by (intro conjI distinct_upt inj_onI inj) simp_all
  moreover have "chain m' start (map (blk_at start bsz) [0..<Suc L])" using ch chain_cong [of m' m2] by (simp add: m'_def)
  moreover have "N < 2 ^ 32"
  proof -
    have "N \<le> P" by (simp add: N_def)
    then show ?thesis using b'(1) by simp
  qed
  ultimately have "pool_holds m' (map (blk_at start bsz) [0..<N])"
    unfolding pool_holds_def
    by (intro conjI exI [of _ "map (blk_at start bsz) [N..<Suc L]"]) (simp_all only: split, simp_all add: m'_def blks)
  with ok show ?thesis by (simp add: N_def d)
qed

text \<open>With blocks of size 0 the loop does not end, whatever the fuel.\<close>

lemma chain_blocks_stuck: "cur < pend \<Longrightarrow> chain_blocks n m 0 pend blks x cur = None"
proof (induction n arbitrary: m blks x)
  case 0
  then show ?case by (subst chain_blocks.simps) simp
next
  case (Suc n)
  then show ?case by (subst chain_blocks.simps) simp
qed

end
