(* ===== verification/K_Mm.thy ===== *)
theory K_Mm
  imports K_MmBlk K_Bitmap
begin

text \<open>
  The heap of \<open>k_mm.c\<close>: regions of memory tiled by blocks with boundary tags, free blocks on one
  doubly linked list per power of two, a bitmap of the lists that are not empty, neighbours that
  are free merged at once, and small requests served from a pool of fixed blocks (\<open>k_mm_blk.c\<close>). The
  configuration has heap debugging on (the dyes), the block pool on, and the search that tries the
  own list of a size first (\<open>RHINO_CONFIG_MM_QUICK = 0\<close>); the critical sections disable interrupts.

  Memory is the function \<open>word_at\<close> of theory \<open>K_MmBlk\<close> from addresses to words, the headers of the
  blocks are words of it at the offsets of \<open>k_mm_list_t\<close>, and NULL is 0. The head (\<open>k_mm_head\<close>) is the record
  itself; there is one, \<open>g_kmm_head\<close>.
\<close>

section \<open>Configuration and block headers\<close>

definition RHINO_CONFIG_MM_TLF_BLK_SIZE :: u32 where "RHINO_CONFIG_MM_TLF_BLK_SIZE = 8192"
definition RHINO_CONFIG_MM_BLK_SIZE :: u32 where "RHINO_CONFIG_MM_BLK_SIZE = 32"
definition MM_MAX_BIT :: nat where "MM_MAX_BIT = 20"
definition MM_MAX_SIZE :: u32 where "MM_MAX_SIZE = push_bit MM_MAX_BIT 1"
definition MM_MIN_BIT :: nat where "MM_MIN_BIT = 6"
definition MM_MIN_SIZE :: u32 where "MM_MIN_SIZE = push_bit (MM_MIN_BIT - 1) 1"
definition MM_BIT_LEVEL :: nat where "MM_BIT_LEVEL = MM_MAX_BIT - MM_MIN_BIT + 2"
definition MIN_FREE_MEMORY_SIZE :: u32 where "MIN_FREE_MEMORY_SIZE = 1024"
definition RHINO_MM_FREE :: u32 where "RHINO_MM_FREE = 1"
definition RHINO_MM_ALLOCED :: u32 where "RHINO_MM_ALLOCED = 0"
definition RHINO_MM_PREVFREE :: u32 where "RHINO_MM_PREVFREE = 2"
definition RHINO_MM_PREVALLOCED :: u32 where "RHINO_MM_PREVALLOCED = 0"
definition RHINO_MM_PRESTAT_MASK :: u32 where "RHINO_MM_PRESTAT_MASK = 2"
definition RHINO_MM_CORRUPT_DYE :: u32 where "RHINO_MM_CORRUPT_DYE = 0xFEFEFEFE"
definition RHINO_MM_FREE_DYE :: u32 where "RHINO_MM_FREE_DYE = 0xABABABAB"
definition MM_ALIGN_MASK :: u32 where "MM_ALIGN_MASK = 7"
definition MM_ALIGN_UP :: "u32 \<Rightarrow> u32" where "MM_ALIGN_UP a = (a + MM_ALIGN_MASK) AND NOT MM_ALIGN_MASK"
definition MM_ALIGN_DOWN :: "u32 \<Rightarrow> u32" where "MM_ALIGN_DOWN a = a AND NOT MM_ALIGN_MASK"

text \<open>The sizes of \<open>k_mm_head\<close>, \<open>k_mm_region_info_t\<close>, \<open>k_mm_list_t\<close> less its union, and \<open>mblk_pool_t\<close>.\<close>

definition sizeof_mm_head :: u32 where "sizeof_mm_head = 156"
definition sizeof_region_info :: u32 where "sizeof_region_info = 8"
definition MMLIST_HEAD_SIZE :: u32 where "MMLIST_HEAD_SIZE = MM_ALIGN_UP 16"
definition sizeof_mblk_pool :: u32 where "sizeof_mblk_pool = 40"

lemmas mm_consts = RHINO_CONFIG_MM_TLF_BLK_SIZE_def RHINO_CONFIG_MM_BLK_SIZE_def MM_MAX_BIT_def MM_MAX_SIZE_def
  MM_MIN_BIT_def MM_MIN_SIZE_def MM_BIT_LEVEL_def MIN_FREE_MEMORY_SIZE_def RHINO_MM_FREE_def RHINO_MM_ALLOCED_def
  RHINO_MM_PREVFREE_def RHINO_MM_PREVALLOCED_def RHINO_MM_PRESTAT_MASK_def RHINO_MM_CORRUPT_DYE_def
  RHINO_MM_FREE_DYE_def MM_ALIGN_MASK_def sizeof_mm_head_def sizeof_region_info_def sizeof_mblk_pool_def

record heap = mem +
  regioninfo :: u32
  fix_pool :: u32
  used_size :: u32
  maxused_size :: u32
  free_size :: u32
  alloc_times :: "u32 list"
  free_bitmap :: u32
  freelist :: "u32 list"
  dumped :: bool
  reallocdumped :: bool
  mm_traps :: "trap list"

definition mm_trap :: "trap \<Rightarrow> heap \<Rightarrow> heap" where
  "mm_trap t h = h\<lparr>mm_traps := mm_traps h @ [t]\<rparr>"

text \<open>The members of the header at \<open>b\<close>: \<open>dye\<close>, \<open>owner\<close>, \<open>prev\<close>, \<open>buf_size\<close>, and the links of a free block, which lie in
  its buffer.\<close>

definition dye_at :: "u32 \<Rightarrow> u32" where "dye_at b = b"
definition owner_at :: "u32 \<Rightarrow> u32" where "owner_at b = b + 4"
definition prev_at :: "u32 \<Rightarrow> u32" where "prev_at b = b + 8"
definition size_at :: "u32 \<Rightarrow> u32" where "size_at b = b + 12"
definition fprev_at :: "u32 \<Rightarrow> u32" where "fprev_at b = b + 16"
definition fnext_at :: "u32 \<Rightarrow> u32" where "fnext_at b = b + 20"
definition buf_of :: "u32 \<Rightarrow> u32" where "buf_of b = b + 16"

lemmas at_defs = dye_at_def owner_at_def prev_at_def size_at_def fprev_at_def fnext_at_def buf_of_def

definition MM_GET_BUF_SIZE :: "heap \<Rightarrow> u32 \<Rightarrow> u32" where
  "MM_GET_BUF_SIZE h b = word_at h (size_at b) AND NOT MM_ALIGN_MASK"

definition MM_GET_BLK_SIZE :: "heap \<Rightarrow> u32 \<Rightarrow> u32" where
  "MM_GET_BLK_SIZE h b = MM_GET_BUF_SIZE h b + MMLIST_HEAD_SIZE"

definition MM_GET_NEXT_BLK :: "heap \<Rightarrow> u32 \<Rightarrow> u32" where
  "MM_GET_NEXT_BLK h b = buf_of b + MM_GET_BUF_SIZE h b"

definition MM_GET_THIS_BLK :: "u32 \<Rightarrow> u32" where
  "MM_GET_THIS_BLK buf = buf - MMLIST_HEAD_SIZE"

definition is_free :: "heap \<Rightarrow> u32 \<Rightarrow> bool" where
  "is_free h b \<longleftrightarrow> word_at h (size_at b) AND RHINO_MM_FREE \<noteq> 0"

definition prev_is_free :: "heap \<Rightarrow> u32 \<Rightarrow> bool" where
  "prev_is_free h b \<longleftrightarrow> word_at h (size_at b) AND RHINO_MM_PREVFREE \<noteq> 0"

section \<open>Levels and statistics\<close>

definition size_to_level :: "u32 \<Rightarrow> int" where
  "size_to_level sz =
     (let cnt = 32 - krhino_clz32 sz
      in if cnt < MM_MIN_BIT then 0
         else if cnt > MM_MAX_BIT then - 1
         else int cnt - int MM_MIN_BIT)"

definition addsize :: "heap \<Rightarrow> u32 \<Rightarrow> u32 \<Rightarrow> heap" where
  "addsize h sz req_size =
     (let h1 = h\<lparr>free_size := (if free_size h > sz then free_size h - sz else 0)\<rparr>;
          h2 = h1\<lparr>used_size := used_size h1 + sz\<rparr>;
          h3 = (if used_size h2 > maxused_size h2 then h2\<lparr>maxused_size := used_size h2\<rparr> else h2)
      in if req_size > 0 \<and> size_to_level req_size \<noteq> - 1
         then (let l = nat (size_to_level req_size) in h3\<lparr>alloc_times := (alloc_times h3)[l := alloc_times h3 ! l + 1]\<rparr>)
         else h3)"

definition removesize :: "heap \<Rightarrow> u32 \<Rightarrow> heap" where
  "removesize h sz =
     (let h1 = h\<lparr>used_size := (if used_size h > sz then used_size h - sz else 0)\<rparr>
      in h1\<lparr>free_size := free_size h1 + sz\<rparr>)"

section \<open>Free lists\<close>

definition k_mm_freelist_insert :: "heap \<Rightarrow> u32 \<Rightarrow> heap" where
  "k_mm_freelist_insert h b =
     (let level = size_to_level (MM_GET_BUF_SIZE h b)
      in if level < 0 \<or> level \<ge> int MM_BIT_LEVEL then h
         else
           let l = nat level;
               h1 = store h (fprev_at b) 0;
               h2 = store h1 (fnext_at b) (freelist h1 ! l);
               h3 = (if freelist h2 ! l \<noteq> 0 then store h2 (fprev_at (freelist h2 ! l)) b else h2);
               h4 = h3\<lparr>freelist := (freelist h3)[l := b]\<rparr>
           in h4\<lparr>free_bitmap := free_bitmap h4 OR push_bit l 1\<rparr>)"

definition k_mm_freelist_delete :: "heap \<Rightarrow> u32 \<Rightarrow> heap" where
  "k_mm_freelist_delete h b =
     (let level = size_to_level (MM_GET_BUF_SIZE h b)
      in if level < 0 \<or> level \<ge> int MM_BIT_LEVEL then h
         else
           let l = nat level;
               h1 = (if word_at h (fnext_at b) \<noteq> 0
                     then store h (fprev_at (word_at h (fnext_at b))) (word_at h (fprev_at b)) else h);
               h2 = (if word_at h1 (fprev_at b) \<noteq> 0
                     then store h1 (fnext_at (word_at h1 (fprev_at b))) (word_at h1 (fnext_at b)) else h1);
               h3 = (if freelist h2 ! l = b then
                       (let h' = h2\<lparr>freelist := (freelist h2)[l := word_at h2 (fnext_at b)]\<rparr>
                        in if freelist h' ! l = 0 then h'\<lparr>free_bitmap := free_bitmap h' AND NOT (push_bit l 1)\<rparr> else h')
                     else h2);
               h4 = store h3 (fprev_at b) 0
           in store h4 (fnext_at b) 0)"

definition find_up_level :: "heap \<Rightarrow> int \<Rightarrow> u32" where
  "find_up_level h level =
     (let l = krhino_ctz32 (free_bitmap h AND push_bit (nat (level + 1)) 0xFFFFFFFF)
      in if l < MM_BIT_LEVEL then freelist h ! l else 0)"

text \<open>The search of a list for a block that is large enough, one turn per unit of fuel; \<open>None\<close> when the fuel runs
  out. There are no more than \<open>2\<^sup>29\<close> multiples of 8 to lie at, so it does not.\<close>

fun find_fit :: "nat \<Rightarrow> heap \<Rightarrow> u32 \<Rightarrow> u32 \<Rightarrow> u32 option" where
  "find_fit n h sz b =
     (if b = 0 then Some 0
      else if MM_GET_BUF_SIZE h b \<ge> sz then Some b
      else case n of 0 \<Rightarrow> None | Suc n' \<Rightarrow> find_fit n' h sz (word_at h (fnext_at b)))"

declare find_fit.simps [simp del]

definition search_fuel :: nat where "search_fuel = 2 ^ 29"

section \<open>Small blocks\<close>

definition k_mm_smallblk_alloc :: "heap \<Rightarrow> bool \<Rightarrow> u32 \<Rightarrow> u32 \<times> heap" where
  "k_mm_smallblk_alloc h mm_null sz =
     (if mm_null then (0, h)
      else case krhino_mblk_alloc h (fix_pool h = 0) False of (sta, tmp, h1) \<Rightarrow>
        if sta \<noteq> RHINO_SUCCESS then (0, h1)
        else (case_option 0 id tmp, addsize h1 RHINO_CONFIG_MM_BLK_SIZE 0))"

definition k_mm_smallblk_free :: "heap \<Rightarrow> bool \<Rightarrow> u32 \<Rightarrow> heap" where
  "k_mm_smallblk_free h mm_null ptr =
     (if mm_null \<or> ptr = 0 then h
      else
        let (sta, h1) = krhino_mblk_free h (fix_pool h = 0) ptr;
            h2 = (if sta \<noteq> RHINO_SUCCESS then mm_trap (Fatal RHINO_SYS_FATAL_ERR) h1 else h1)
        in removesize h2 RHINO_CONFIG_MM_BLK_SIZE)"

section \<open>Allocation\<close>

text \<open>The block \<open>b\<close> is cut behind \<open>sz\<close> bytes of buffer; the rest, with \<open>left\<close> bytes, is the free block that is returned,
  and the block behind it, \<open>nxt\<close>, points back to it.\<close>

definition split_block :: "heap \<Rightarrow> u32 \<Rightarrow> u32 \<Rightarrow> u32 \<Rightarrow> u32 \<Rightarrow> u32 \<times> heap" where
  "split_block h b sz left nxt =
     (let h1 = store h (size_at b) (sz OR (word_at h (size_at b) AND RHINO_MM_PRESTAT_MASK));
          new_b = MM_GET_NEXT_BLK h1 b;
          h2 = store h1 (prev_at new_b) b;
          h3 = store h2 (size_at new_b) (left OR RHINO_MM_FREE OR RHINO_MM_PREVALLOCED);
          h4 = store h3 (dye_at new_b) RHINO_MM_FREE_DYE;
          h5 = store h4 (owner_at new_b) 0
      in (new_b, store h5 (prev_at nxt) new_b))"

text \<open>A request of \<open>sz\<close> bytes takes the free block \<open>b\<close>, or its front if the rest makes a block.\<close>

definition take_block :: "heap \<Rightarrow> u32 \<Rightarrow> u32 \<Rightarrow> u32 \<Rightarrow> u32 \<times> heap" where
  "take_block h b sz req_size =
     (let h1 = k_mm_freelist_delete h b;
          next_b = MM_GET_NEXT_BLK h1 b;
          h2 = (if MM_GET_BUF_SIZE h1 b \<ge> sz + MMLIST_HEAD_SIZE + MM_MIN_SIZE then
                  (let (new_b, h') = split_block h1 b sz (MM_GET_BUF_SIZE h1 b - sz - MMLIST_HEAD_SIZE) next_b
                   in k_mm_freelist_insert h' new_b)
                else store h1 (size_at next_b) (word_at h1 (size_at next_b) AND NOT RHINO_MM_PREVFREE));
          h3 = store h2 (size_at b) (word_at h2 (size_at b) AND NOT RHINO_MM_FREE);
          h4 = store (store h3 (dye_at b) RHINO_MM_CORRUPT_DYE) (owner_at b) 0
      in (buf_of b, if buf_of b \<noteq> 0 then addsize h4 (MM_GET_BLK_SIZE h4 b) req_size else h4))"

definition aligned_request :: "u32 \<Rightarrow> u32" where
  "aligned_request sz = (let s = MM_ALIGN_UP sz in if s < MM_MIN_SIZE then MM_MIN_SIZE else s)"

definition k_mm_alloc :: "heap \<Rightarrow> bool \<Rightarrow> u32 \<Rightarrow> u32 \<times> heap" where
  "k_mm_alloc h mm_null req_size =
     (if mm_null \<or> req_size = 0 then (0, h)
      else
        let (small, h1) = (if fix_pool h \<noteq> 0 \<and> req_size \<le> RHINO_CONFIG_MM_BLK_SIZE \<and> blk_avail (pool h) > 0
                           then k_mm_smallblk_alloc h False req_size else (0, h))
        in if small \<noteq> 0 then (small, h1)
           else
             let sz = aligned_request req_size;
                 level = size_to_level sz
             in if level = - 1 then (0, h1)
                else case find_fit search_fuel h1 sz (freelist h1 ! nat level) of
                       None \<Rightarrow> (0, mm_trap Diverged h1)
                     | Some b \<Rightarrow>
                         let get_b = (if b = 0 then find_up_level h1 level else b)
                         in if get_b = 0 then (0, h1) else take_block h1 get_b sz req_size)"

section \<open>Release\<close>

text \<open>The block is marked free and counted, merged with the next block and with the previous one if they are free,
  and put on a list.\<close>

definition mark_free :: "heap \<Rightarrow> u32 \<Rightarrow> heap" where
  "mark_free h free_b =
     (let h3 = store (store h (dye_at free_b) RHINO_MM_FREE_DYE) (owner_at free_b) 0
      in store h3 (size_at free_b) (word_at h3 (size_at free_b) OR RHINO_MM_FREE))"

definition merge_next :: "heap \<Rightarrow> u32 \<Rightarrow> heap" where
  "merge_next h free_b =
     (let next_b = MM_GET_NEXT_BLK h free_b
      in if is_free h next_b then
           (let h' = k_mm_freelist_delete h next_b
            in store h' (size_at free_b) (word_at h' (size_at free_b) + MM_GET_BLK_SIZE h' next_b))
         else h)"

definition merge_prev :: "heap \<Rightarrow> u32 \<Rightarrow> u32 \<times> heap" where
  "merge_prev h free_b =
     (if prev_is_free h free_b then
        (let prev_b = word_at h (prev_at free_b);
             h' = (if word_at h (dye_at prev_b) \<noteq> RHINO_MM_FREE_DYE then mm_trap (Fatal RHINO_SYS_FATAL_ERR) h else h);
             h'' = k_mm_freelist_delete h' prev_b
         in (prev_b, store h'' (size_at prev_b) (word_at h'' (size_at prev_b) + MM_GET_BLK_SIZE h'' free_b)))
      else (free_b, h))"

definition list_free :: "heap \<Rightarrow> u32 \<Rightarrow> heap" where
  "list_free h free_b =
     (let h8 = k_mm_freelist_insert h free_b;
          next_b = MM_GET_NEXT_BLK h8 free_b;
          h9 = (if word_at h8 (dye_at next_b) \<noteq> RHINO_MM_FREE_DYE \<and> word_at h8 (dye_at next_b) \<noteq> RHINO_MM_CORRUPT_DYE
                then mm_trap (Fatal RHINO_SYS_FATAL_ERR) h8 else h8);
          h10 = store h9 (prev_at next_b) free_b
      in store h10 (size_at next_b) (word_at h10 (size_at next_b) OR RHINO_MM_PREVFREE))"

definition k_mm_free :: "heap \<Rightarrow> bool \<Rightarrow> u32 \<Rightarrow> heap" where
  "k_mm_free h mm_null ptr =
     (if ptr = 0 \<or> mm_null then h
      else if krhino_mblk_check h (fix_pool h = 0) ptr then k_mm_smallblk_free h False ptr
      else
        let free_b = MM_GET_THIS_BLK ptr;
            h1 = (if word_at h (dye_at free_b) = RHINO_MM_FREE_DYE then mm_trap (Fatal RHINO_SYS_FATAL_ERR) h else h);
            h2 = (if word_at h1 (dye_at free_b) \<noteq> RHINO_MM_CORRUPT_DYE then mm_trap (Fatal RHINO_SYS_FATAL_ERR) h1 else h1);
            h4 = mark_free h2 free_b;
            h5 = removesize h4 (MM_GET_BLK_SIZE h4 free_b);
            (free_b', h7) = merge_prev (merge_next h5 free_b) free_b
        in list_free h7 free_b')"

section \<open>Reallocation\<close>

text \<open>\<open>memcpy\<close> and \<open>memset\<close> to zero, of \<open>n\<close> words.\<close>

fun copy_words :: "nat \<Rightarrow> heap \<Rightarrow> u32 \<Rightarrow> u32 \<Rightarrow> heap" where
  "copy_words 0 h dst src = h"
| "copy_words (Suc n) h dst src = copy_words n (store h dst (word_at h src)) (dst + 4) (src + 4)"

fun zero_words :: "nat \<Rightarrow> heap \<Rightarrow> u32 \<Rightarrow> heap" where
  "zero_words 0 h dst = h"
| "zero_words (Suc n) h dst = zero_words n (store h dst 0) (dst + 4)"

text \<open>The end of both ways to resize in place: what is left behind \<open>new_size\<close> bytes becomes a free block, if
  it is large enough; \<open>avail\<close> is the size of the buffer with what has been merged.\<close>

definition resize_split :: "heap \<Rightarrow> u32 \<Rightarrow> u32 \<Rightarrow> u32 \<Rightarrow> u32 \<Rightarrow> heap" where
  "resize_split h b avail new_size next_b =
     (if avail \<ge> new_size + MMLIST_HEAD_SIZE + MM_MIN_SIZE then
        let (split_b, h1) = split_block h b new_size (avail - new_size - MMLIST_HEAD_SIZE) next_b;
            h2 = store h1 (size_at next_b) (word_at h1 (size_at next_b) OR RHINO_MM_PREVFREE)
        in k_mm_freelist_insert h2 split_b
      else h)"

definition shrink_block :: "heap \<Rightarrow> u32 \<Rightarrow> u32 \<Rightarrow> u32 \<Rightarrow> heap" where
  "shrink_block h this_b new_size req_size =
     (let old_size = MM_GET_BUF_SIZE h this_b;
          next_b = MM_GET_NEXT_BLK h this_b;
          h1 = removesize h (MM_GET_BLK_SIZE h this_b);
          (h2, avail, next') =
            (if is_free h1 next_b then
               (let h' = k_mm_freelist_delete h1 next_b
                in (h', old_size + MM_GET_BLK_SIZE h' next_b, MM_GET_NEXT_BLK h' next_b))
             else (h1, old_size, next_b));
          h3 = resize_split h2 this_b avail new_size next'
      in addsize h3 (MM_GET_BLK_SIZE h3 this_b) req_size)"

definition enlarge_block :: "heap \<Rightarrow> u32 \<Rightarrow> u32 \<Rightarrow> u32 \<Rightarrow> heap" where
  "enlarge_block h this_b new_size req_size =
     (let next_b = MM_GET_NEXT_BLK h this_b;
          h1 = removesize h (MM_GET_BLK_SIZE h this_b);
          h2 = k_mm_freelist_delete h1 next_b;
          h3 = store h2 (size_at this_b) (word_at h2 (size_at this_b) + MM_GET_BLK_SIZE h2 next_b);
          next' = MM_GET_NEXT_BLK h3 this_b;
          h4 = store h3 (prev_at next') this_b;
          h5 = store h4 (size_at next') (word_at h4 (size_at next') AND NOT RHINO_MM_PREVFREE);
          h6 = resize_split h5 this_b (MM_GET_BUF_SIZE h5 this_b) new_size next'
      in addsize h6 (MM_GET_BLK_SIZE h6 this_b) req_size)"

definition k_mm_realloc :: "heap \<Rightarrow> bool \<Rightarrow> u32 \<Rightarrow> u32 \<Rightarrow> u32 \<times> heap" where
  "k_mm_realloc h mm_null oldmem req_size =
     (if oldmem = 0 then (if req_size > 0 then k_mm_alloc h mm_null req_size else (0, h))
      else if req_size = 0 then (0, k_mm_free h mm_null oldmem)
      else if mm_null then (0, mm_trap NullDeref h)
      else if krhino_mblk_check h (fix_pool h = 0) oldmem then
        (if req_size \<le> RHINO_CONFIG_MM_BLK_SIZE then (oldmem, h)
         else
           let (p, h1) = k_mm_alloc h False req_size
           in if p \<noteq> 0 then (p, k_mm_smallblk_free (copy_words (unat RHINO_CONFIG_MM_BLK_SIZE div 4) h1 p oldmem) False oldmem)
              else (p, h1))
      else
        let this_b = MM_GET_THIS_BLK oldmem;
            old_size = MM_GET_BUF_SIZE h this_b;
            next_b = MM_GET_NEXT_BLK h this_b;
            new_size = aligned_request req_size;
            (ptr_aux, h1) =
              (if new_size \<le> old_size then (buf_of this_b, shrink_block h this_b new_size req_size)
               else if is_free h next_b \<and> new_size \<le> old_size + MM_GET_BLK_SIZE h next_b then
                 (buf_of this_b, enlarge_block h this_b new_size req_size)
               else (0, h))
        in if ptr_aux \<noteq> 0 then (ptr_aux, store h1 (dye_at this_b) RHINO_MM_CORRUPT_DYE)
           else
             let (p, h2) = k_mm_alloc h1 False new_size
             in if p = 0 then (0, h2)
                else
                  let cpsize = (if MM_GET_BUF_SIZE h2 this_b > new_size then new_size else MM_GET_BUF_SIZE h2 this_b)
                  in (p, k_mm_free (copy_words (unat cpsize div 4) h2 p oldmem) False oldmem))"

section \<open>Regions\<close>

text \<open>Three blocks: one that holds the region's information, the memory itself, and an empty one at
  the end that stops merging. The result is the first.\<close>

definition init_mm_region :: "heap \<Rightarrow> u32 \<Rightarrow> u32 \<Rightarrow> u32 \<times> heap" where
  "init_mm_region h regionaddr len =
     (let firstblk = regionaddr;
          h1 = store h (prev_at firstblk) 0;
          h2 = store h1 (size_at firstblk) (MM_ALIGN_UP sizeof_region_info OR RHINO_MM_ALLOCED OR RHINO_MM_PREVALLOCED);
          h3 = store (store h2 (dye_at firstblk) RHINO_MM_CORRUPT_DYE) (owner_at firstblk) 0;
          lastblk = regionaddr + len - MMLIST_HEAD_SIZE;
          midblk = MM_GET_NEXT_BLK h3 firstblk;
          h4 = store h3 (size_at midblk) ((lastblk - buf_of midblk) OR RHINO_MM_ALLOCED OR RHINO_MM_PREVALLOCED);
          h5 = store (store h4 (fnext_at midblk) 0) (fprev_at midblk) 0;
          h6 = store h5 (prev_at lastblk) midblk;
          h7 = store h6 (size_at lastblk) (0 OR RHINO_MM_ALLOCED OR RHINO_MM_PREVFREE);
          h8 = store (store h7 (dye_at lastblk) RHINO_MM_CORRUPT_DYE) (owner_at lastblk) 0;
          region = buf_of firstblk;
          h9 = store h8 (region + 4) 0
      in (firstblk, store h9 region lastblk))"

text \<open>The head is zeroed, its memory being that of the record. (\<open>ppmmhead\<close> is \<open>&g_kmm_head\<close> or NULL.)\<close>

definition zero_mm_head :: "heap \<Rightarrow> heap" where
  "zero_mm_head h = h\<lparr>regioninfo := 0, fix_pool := 0, used_size := 0, maxused_size := 0, free_size := 0,
     alloc_times := replicate MM_BIT_LEVEL 0, free_bitmap := 0, freelist := replicate MM_BIT_LEVEL 0\<rparr>"

definition init_fix_pool :: "heap \<Rightarrow> heap" where
  "init_fix_pool h =
     (let (mmblk_pool, h1) = k_mm_alloc h False (RHINO_CONFIG_MM_TLF_BLK_SIZE + MM_ALIGN_UP sizeof_mblk_pool)
      in if mmblk_pool = 0 then h1
         else
           let h4 = (case krhino_mblk_pool_init (unat RHINO_CONFIG_MM_TLF_BLK_SIZE) h1 False (Some ''fixed_mm_blk'')
                        (mmblk_pool + MM_ALIGN_UP sizeof_mblk_pool) RHINO_CONFIG_MM_BLK_SIZE RHINO_CONFIG_MM_TLF_BLK_SIZE of
                       None \<Rightarrow> mm_trap Diverged h1
                     | Some (stat, h2) \<Rightarrow>
                         if stat = RHINO_SUCCESS
                         then removesize (h2\<lparr>fix_pool := mmblk_pool\<rparr>) RHINO_CONFIG_MM_TLF_BLK_SIZE
                         else k_mm_free h2 False mmblk_pool)
           in h4\<lparr>maxused_size := used_size h4\<rparr>)"

definition krhino_init_mm_head :: "heap \<Rightarrow> bool \<Rightarrow> u32 \<Rightarrow> u32 \<Rightarrow> kstat \<times> heap" where
  "krhino_init_mm_head h ppmmhead_null addr0 len0 =
     (if ppmmhead_null \<or> addr0 = 0 then (RHINO_NULL_PTR, h)
      else
        let addr = MM_ALIGN_UP addr0;
            len = MM_ALIGN_DOWN (len0 - (addr - addr0))
        in if len = 0 \<or> len < MIN_FREE_MEMORY_SIZE + RHINO_CONFIG_MM_TLF_BLK_SIZE \<or> len > MM_MAX_SIZE
           then (RHINO_MM_POOL_SIZE_ERR, h)
           else
             let h1 = zero_mm_head h;
                 (firstblk, h2) = init_mm_region h1 (addr + MM_ALIGN_UP sizeof_mm_head) (MM_ALIGN_DOWN (len - sizeof_mm_head));
                 h3 = h2\<lparr>regioninfo := buf_of firstblk\<rparr>;
                 nextblk = MM_GET_NEXT_BLK h3 firstblk;
                 h4 = store (store h3 (dye_at nextblk) RHINO_MM_CORRUPT_DYE) (owner_at nextblk) 0;
                 h5 = k_mm_free h4 False (buf_of nextblk);
                 h6 = h5\<lparr>free_size := MM_GET_BUF_SIZE h5 nextblk, used_size := len - MM_GET_BUF_SIZE h5 nextblk\<rparr>;
                 h7 = h6\<lparr>maxused_size := used_size h6\<rparr>
             in (RHINO_SUCCESS, init_fix_pool h7))"

definition krhino_deinit_mm_head :: "heap \<Rightarrow> kstat \<times> heap" where
  "krhino_deinit_mm_head h = (RHINO_SUCCESS, zero_mm_head h)"

definition krhino_add_mm_region :: "heap \<Rightarrow> bool \<Rightarrow> u32 \<Rightarrow> u32 \<Rightarrow> kstat \<times> heap" where
  "krhino_add_mm_region h mm_null addr0 len0 =
     (if mm_null \<or> addr0 = 0 then (RHINO_NULL_PTR, h)
      else
        let addr = MM_ALIGN_UP addr0;
            len = MM_ALIGN_DOWN (len0 - (addr - addr0))
        in if len = 0 \<or> len < sizeof_region_info + MMLIST_HEAD_SIZE * 3 + MM_MIN_SIZE then (RHINO_MM_POOL_SIZE_ERR, h)
           else
             let h1 = zero_words (unat len div 4) h addr;
                 (firstblk, h2) = init_mm_region h1 addr len;
                 nextblk = MM_GET_NEXT_BLK h2 firstblk;
                 region = buf_of firstblk;
                 h3 = (store h2 (region + 4) (regioninfo h2))\<lparr>regioninfo := region\<rparr>;
                 h4 = store (store h3 (dye_at nextblk) RHINO_MM_CORRUPT_DYE) (owner_at nextblk) 0;
                 h5 = h4\<lparr>used_size := used_size h4 + MM_GET_BLK_SIZE h4 nextblk\<rparr>
             in (RHINO_SUCCESS, k_mm_free h5 False (buf_of nextblk)))"

text \<open>The regions of the board: start and length of each (\<open>g_mm_region\<close>); the first one gets the head.\<close>

definition k_mm_init :: "heap \<Rightarrow> (u32 \<times> u32) list \<Rightarrow> heap" where
  "k_mm_init h regions =
     (case regions of [] \<Rightarrow> mm_trap OutOfBounds h
      | (start, len) # rest \<Rightarrow>
          foldl (\<lambda>h (start, len). snd (krhino_add_mm_region h False start len)) (snd (krhino_init_mm_head h False start len)) rest)"

section \<open>The kernel's heap\<close>

definition AOS_UNSIGNED_INT_MSB :: u32 where "AOS_UNSIGNED_INT_MSB = push_bit 31 1"

definition krhino_owner_attach :: "heap \<Rightarrow> u32 \<Rightarrow> u32 \<Rightarrow> heap" where
  "krhino_owner_attach h addr allocator =
     (if addr = 0 then h
      else if krhino_mblk_check h (fix_pool h = 0) addr then h
      else store h (owner_at (MM_GET_THIS_BLK addr)) allocator)"

text \<open>\<open>ra\<close> is the return address that is noted as owner, unless the caller set the highest bit of the size. The
  first failure is reported as a fatal error.\<close>

definition krhino_mm_alloc :: "u32 \<Rightarrow> heap \<Rightarrow> u32 \<Rightarrow> u32 \<times> heap" where
  "krhino_mm_alloc ra h size0 =
     (let app_malloc = size0 AND AOS_UNSIGNED_INT_MSB;
          sz = size0 AND NOT AOS_UNSIGNED_INT_MSB
      in if sz = 0 then (0, h)
         else
           let (tmp, h0) = k_mm_alloc h False sz;
               h1 = (if tmp = 0 \<and> fix_pool h0 = 0 then mm_trap NullDeref h0 else h0)
           in if tmp = 0 \<and> dumped h1 then (tmp, h1)
              else
                let h2 = (if tmp = 0 then mm_trap (Fatal RHINO_NO_MEM) (h1\<lparr>dumped := True\<rparr>) else h1)
                in (tmp, if app_malloc = 0 then krhino_owner_attach h2 tmp ra else h2))"

definition krhino_mm_free :: "heap \<Rightarrow> u32 \<Rightarrow> heap" where
  "krhino_mm_free h ptr = k_mm_free h False ptr"

definition krhino_mm_realloc :: "u32 \<Rightarrow> heap \<Rightarrow> u32 \<Rightarrow> u32 \<Rightarrow> u32 \<times> heap" where
  "krhino_mm_realloc ra h oldmem newsize0 =
     (let app_malloc = newsize0 AND AOS_UNSIGNED_INT_MSB;
          newsize = newsize0 AND NOT AOS_UNSIGNED_INT_MSB;
          (tmp, h1) = k_mm_realloc h False oldmem newsize;
          h2 = (if app_malloc = 0 then krhino_owner_attach h1 tmp ra else h1)
      in if tmp = 0 \<and> newsize \<noteq> 0 \<and> \<not> reallocdumped h2
         then (tmp, mm_trap (Fatal RHINO_SYS_FATAL_ERR) (h2\<lparr>reallocdumped := True\<rparr>))
         else (tmp, h2))"

fun max_buf_size :: "nat \<Rightarrow> heap \<Rightarrow> u32 \<Rightarrow> u32 \<Rightarrow> u32" where
  "max_buf_size n h b best =
     (if b = 0 then best
      else case n of 0 \<Rightarrow> best
           | Suc n' \<Rightarrow> max_buf_size n' h (word_at h (fnext_at b))
               (if best < MM_GET_BUF_SIZE h b then MM_GET_BUF_SIZE h b else best))"

declare max_buf_size.simps [simp del]

definition krhino_mm_max_free_size_get :: "heap \<Rightarrow> u32" where
  "krhino_mm_max_free_size_get h =
     foldl (\<lambda>best i. max_buf_size search_fuel h (freelist h ! i) best) 0 [0..<MM_BIT_LEVEL]"

end
