(* ===== verification/Mm_Tags.thy ===== *)
theory Mm_Tags
  imports K_Mm
begin

text \<open>
  The boundary tags of the heap: where blocks lie, which are free, and what the tags say of the
  neighbours. The predicates are about the tags as functions of the address, so that they
  hold for the heap before and after an operation and for the four moves every operation is
  made of: take a free block, absorb the next block, split off a free rest, release a block.
\<close>

section \<open>Flags in a size word\<close>

lemma bit_7: "bit (7 :: u32) n \<longleftrightarrow> n < 3"
proof -
  have "(7 :: u32) = mask 3" by (simp add: mask_numeral)
  then show ?thesis by (auto simp only: bit_mask_iff) (simp_all add: possible_bit_def)
qed

lemma bit_2: "bit (2 :: u32) n \<longleftrightarrow> n = 1"
  by (simp add: bit_2_iff) auto

lemma bit_1': "bit (1 :: u32) n \<longleftrightarrow> n = 0"
  by (simp add: bit_1_iff)

text \<open>A word is aligned when it is a multiple of 8.\<close>

definition aligned :: "u32 \<Rightarrow> bool" where
  "aligned s \<longleftrightarrow> s AND 7 = 0"

lemma aligned_bits: "aligned s \<longleftrightarrow> (\<forall>n < 3. \<not> bit s n)"
proof
  assume a: "aligned s"
  have "bit (s AND 7) n = False" for n using a by (simp only: aligned_def bit_0_eq bot_fun_def) simp
  then show "\<forall>n < 3. \<not> bit s n" unfolding bit_and_iff bit_7 by blast
next
  assume "\<forall>n < 3. \<not> bit s n"
  then have "s AND 7 = 0" by (intro bit_word_eqI) (simp only: bit_and_iff bit_7, auto)
  then show "aligned s" by (simp only: aligned_def)
qed

lemma aligned_dvd: "aligned s \<longleftrightarrow> 8 dvd unat s"
proof -
  have "(7 :: u32) = mask 3" by (simp add: mask_numeral)
  then have "aligned s \<longleftrightarrow> take_bit 3 s = 0" by (simp only: aligned_def take_bit_eq_mask)
  also have "\<dots> \<longleftrightarrow> unat (take_bit 3 s) = 0" by (simp only: unat_eq_0)
  also have "\<dots> \<longleftrightarrow> take_bit 3 (unat s) = 0" by (simp only: unsigned_take_bit_eq)
  also have "\<dots> \<longleftrightarrow> unat s mod 2 ^ 3 = 0" by (simp only: take_bit_eq_mod)
  also have "\<dots> \<longleftrightarrow> 8 dvd unat s" by (simp add: dvd_eq_mod_eq_0)
  finally show ?thesis .
qed

text \<open>The masks as words of which only the bits are known.\<close>

lemma mask_laws:
  fixes m p q w s :: u32
  assumes m: "\<And>n. bit m n \<longleftrightarrow> n < 3" and p: "\<And>n. bit p n \<longleftrightarrow> n = 0" and q: "\<And>n. bit q n \<longleftrightarrow> n = 1"
  shows "(w AND NOT p) AND NOT m = w AND NOT m" "(w AND NOT p) AND p = 0" "(w AND NOT p) AND q = w AND q"
    "(w AND NOT q) AND NOT m = w AND NOT m" "(w AND NOT q) AND p = w AND p" "(w AND NOT q) AND q = 0"
    "(w OR p) AND NOT m = w AND NOT m" "(w OR p) AND p = p" "(w OR p) AND q = w AND q"
    "(w OR q) AND NOT m = w AND NOT m" "(w OR q) AND p = w AND p" "(w OR q) AND q = q"
    and "\<forall>n < 3. \<not> bit s n \<Longrightarrow> (s OR (w AND q)) AND NOT m = s" "\<forall>n < 3. \<not> bit s n \<Longrightarrow> (s OR (w AND q)) AND p = 0"
      "\<forall>n < 3. \<not> bit s n \<Longrightarrow> (s OR (w AND q)) AND q = w AND q" "\<forall>n < 3. \<not> bit s n \<Longrightarrow> (s OR p) AND NOT m = s"
      "\<forall>n < 3. \<not> bit s n \<Longrightarrow> (s OR p) AND p = p" "\<forall>n < 3. \<not> bit s n \<Longrightarrow> (s OR p) AND q = 0"
    and "(w AND NOT m) + (w AND m) = w" "\<forall>n < 3. \<not> bit (w AND NOT m) n"
    and "\<forall>n < 3. \<not> bit s n \<Longrightarrow> s + (w AND m) = s OR (w AND m)"
    and "\<forall>n < 3. \<not> bit s n \<Longrightarrow> (s OR (w AND m)) AND NOT m = s" "\<forall>n < 3. \<not> bit s n \<Longrightarrow> (s OR (w AND m)) AND p = w AND p"
      "\<forall>n < 3. \<not> bit s n \<Longrightarrow> (s OR (w AND m)) AND q = w AND q"
proof -
  have "(w AND NOT m) + (w AND m) = (w AND NOT m) OR (w AND m)"
    by (rule disjunctive_add) (auto simp: bit_simps)
  also have "\<dots> = w" by (auto simp: bit_eq_iff bit_simps)
  finally show "(w AND NOT m) + (w AND m) = w" .
  show "s + (w AND m) = s OR (w AND m)" if "\<forall>n < 3. \<not> bit s n"
    using that by (intro disjunctive_add) (auto simp: bit_simps m)
qed (rule bit_word_eqI, auto simp: bit_simps m p q)+

lemmas flag_laws = mask_laws [OF bit_7 bit_1' bit_2]
lemmas change_flags = flag_laws(1-12)
lemmas new_flags = flag_laws(13-18) [folded aligned_bits]

text \<open>As the simplifier writes them.\<close>

lemma flags_simp:
  fixes w :: u32
  shows "(w AND - 2) AND - 8 = w AND - 8" "(w AND - 2) AND 1 = 0" "(w AND - 2) AND 2 = w AND 2"
    "(w AND - 3) AND - 8 = w AND - 8" "(w AND - 3) AND 1 = w AND 1" "(w AND - 3) AND 2 = 0"
    "(w OR 1) AND - 8 = w AND - 8" "(w OR 1) AND 1 = 1" "(w OR 1) AND 2 = w AND 2"
    "(w OR 2) AND - 8 = w AND - 8" "(w OR 2) AND 1 = w AND 1" "(w OR 2) AND 2 = 2"
proof -
  have "NOT 1 = (- 2 :: u32)" "NOT 2 = (- 3 :: u32)" "NOT 7 = (- 8 :: u32)" by simp_all
  note c = change_flags [of w, unfolded this]
  show "(w AND - 2) AND - 8 = w AND - 8" "(w AND - 2) AND 1 = 0" "(w AND - 2) AND 2 = w AND 2"
    "(w AND - 3) AND - 8 = w AND - 8" "(w AND - 3) AND 1 = w AND 1" "(w AND - 3) AND 2 = 0"
    "(w OR 1) AND - 8 = w AND - 8" "(w OR 1) AND 1 = 1" "(w OR 1) AND 2 = w AND 2"
    "(w OR 2) AND - 8 = w AND - 8" "(w OR 2) AND 1 = w AND 1" "(w OR 2) AND 2 = 2" by (rule c)+
qed

lemma flag_idle:
  fixes w :: u32
  shows "w AND 2 \<noteq> 0 \<Longrightarrow> w OR 2 = w" "w AND 1 = 0 \<Longrightarrow> w AND NOT 1 = w"
proof -
  show "w OR 2 = w" if "w AND 2 \<noteq> 0"
  proof -
    have "bit w 1"
    proof (rule ccontr)
      assume "\<not> bit w 1"
      then have "w AND 2 = 0" by (intro bit_word_eqI) (simp only: bit_and_iff bit_2 bit_0_eq bot_apply, auto)
      with that show False by simp
    qed
    then show ?thesis by (intro bit_word_eqI) (auto simp only: bit_or_iff bit_2)
  qed
  show "w AND NOT 1 = w" if "w AND 1 = 0"
  proof -
    have "bit (w AND 1) 0 = False" using that by simp
    then have "\<not> bit w 0" by (simp only: bit_and_iff bit_1') simp
    then show ?thesis by (intro bit_word_eqI) (simp only: bit_and_iff bit_not_iff bit_1' possible_bit_word, metis)
  qed
qed

lemma aligned_buf: "aligned (w AND NOT 7)"
  using flag_laws(20) by (simp only: aligned_bits)

lemma aligned_add: "aligned a \<Longrightarrow> aligned b \<Longrightarrow> aligned (a + b)"
proof -
  assume ab: "aligned a" "aligned b"
  have "8 dvd (unat a + unat b) mod 2 ^ 32" using ab by (simp add: aligned_dvd dvd_mod)
  then show ?thesis by (simp add: aligned_dvd unat_word_ariths)
qed

lemma add_flags:
  assumes k: "aligned k"
  shows "(w + k) AND NOT 7 = (w AND NOT 7) + k" "(w + k) AND 1 = w AND 1" "(w + k) AND 2 = w AND (2 :: u32)"
proof -
  have "aligned ((w AND NOT 7) + k)" using aligned_add [OF aligned_buf k] .
  then have a: "\<forall>n < 3. \<not> bit ((w AND NOT 7) + k) n" unfolding aligned_bits .
  have "w + k = ((w AND NOT 7) + k) + (w AND 7)" using flag_laws(19) [of w] by (metis add.assoc add.commute)
  also have "\<dots> = ((w AND NOT 7) + k) OR (w AND 7)" by (rule flag_laws(21) [OF a])
  finally have e: "w + k = ((w AND NOT 7) + k) OR (w AND 7)" .
  show "(w + k) AND NOT 7 = (w AND NOT 7) + k" "(w + k) AND 1 = w AND 1" "(w + k) AND 2 = w AND (2 :: u32)"
    unfolding e using flag_laws(22-24) [OF a] by blast+
qed

section \<open>Stores\<close>

lemma word_at_store: "word_at (store m a v) x = (if x = a then v else word_at m x)"
  by (simp add: store_def)

lemma store_frame [simp]:
  fixes h :: heap
  shows "pool (store h a v) = pool h" "freelist (store h a v) = freelist h" "free_bitmap (store h a v) = free_bitmap h"
    "fix_pool (store h a v) = fix_pool h" "mm_traps (store h a v) = mm_traps h" "regioninfo (store h a v) = regioninfo h"
    "used_size (store h a v) = used_size h" "maxused_size (store h a v) = maxused_size h" "free_size (store h a v) = free_size h"
    "alloc_times (store h a v) = alloc_times h" "dumped (store h a v) = dumped h" "reallocdumped (store h a v) = reallocdumped h"
  by (simp_all add: store_def)

definition words_only :: "heap \<Rightarrow> heap \<Rightarrow> bool" where
  "words_only h h' \<longleftrightarrow> h' = h\<lparr>word_at := word_at h'\<rparr>"

lemma words_only_refl [simp]: "words_only h h"
  by (simp add: words_only_def)

lemma words_only_store [simp]: "words_only h h' \<Longrightarrow> words_only h (store h' a v)"
  by (cases h; cases h') (simp add: words_only_def store_def)

lemma words_only_trans: "words_only h h1 \<Longrightarrow> words_only h1 h2 \<Longrightarrow> words_only h h2"
  by (cases h; cases h1; cases h2) (simp add: words_only_def)

lemma words_only_frame:
  assumes "words_only h h'"
  shows "pool h' = pool h" "freelist h' = freelist h" "free_bitmap h' = free_bitmap h" "fix_pool h' = fix_pool h"
    "mm_traps h' = mm_traps h" "regioninfo h' = regioninfo h"
  using assms by (cases h; cases h'; simp add: words_only_def)+

section \<open>Where blocks lie\<close>

text \<open>Blocks \<open>B\<close> with buffers of \<open>sz\<close> bytes and sentinels \<open>E\<close>, at multiples of 8. A block is followed at once by a block
  or a sentinel, and nothing lies between.\<close>

definition succ :: "(u32 \<Rightarrow> u32) \<Rightarrow> u32 \<Rightarrow> u32" where
  "succ sz b = b + 16 + sz b"

definition tiled :: "u32 set \<Rightarrow> u32 set \<Rightarrow> (u32 \<Rightarrow> u32) \<Rightarrow> bool" where
  "tiled B E sz \<longleftrightarrow> finite B \<and> B \<inter> E = {} \<and> 0 \<notin> B \<and>
     (\<forall>b \<in> B \<union> E. aligned b \<and> unat b + 16 \<le> 2 ^ 32) \<and>
     (\<forall>b \<in> B. aligned (sz b) \<and> 8 \<le> unat (sz b) \<and> unat b + 16 + unat (sz b) < 2 ^ 32 \<and> succ sz b \<in> B \<union> E \<and>
        (\<forall>c \<in> B \<union> E. unat b < unat c \<longrightarrow> unat b + 16 + unat (sz b) \<le> unat c)) \<and>
     (\<forall>e \<in> E. \<forall>c \<in> B \<union> E. unat e < unat c \<longrightarrow> unat e + 16 \<le> unat c)"

lemma tiled_block:
  assumes "tiled B E sz" "b \<in> B"
  shows "aligned b" "aligned (sz b)" "8 \<le> unat (sz b)" "unat b + 16 + unat (sz b) < 2 ^ 32" "succ sz b \<in> B \<union> E"
    "c \<in> B \<union> E \<Longrightarrow> unat b < unat c \<Longrightarrow> unat b + 16 + unat (sz b) \<le> unat c" "b \<noteq> 0" "b \<notin> E"
    "unat (succ sz b) = unat b + 16 + unat (sz b)"
  using assms by (auto simp: tiled_def succ_def unat_word_ariths)

lemma tiled_inj: "tiled B E sz \<Longrightarrow> b \<in> B \<Longrightarrow> c \<in> B \<Longrightarrow> succ sz b = succ sz c \<longleftrightarrow> b = c"
proof -
  assume t: "tiled B E sz" "b \<in> B" "c \<in> B"
  have "unat b = unat c" if "succ sz b = succ sz c"
  proof (rule ccontr)
    assume "unat b \<noteq> unat c"
    then consider "unat b < unat c" | "unat c < unat b" by linarith
    then show False
      using tiled_block(6,9) [OF t(1,2)] tiled_block(6,9) [OF t(1,3)] t(2,3) that by cases fastforce+
  qed
  then have "succ sz b = succ sz c \<Longrightarrow> b = c" by (simp add: word_unat_eq_iff)
  then show ?thesis by blast
qed

lemma tiled_succ_neq: "tiled B E sz \<Longrightarrow> b \<in> B \<Longrightarrow> succ sz b \<noteq> b"
  using tiled_block(9) [of B E sz b] by (metis add_less_same_cancel1 le_add1 less_le_trans linorder_not_less not_add_less1 zero_less_numeral add.assoc trans_less_add1 nat_neq_iff less_add_same_cancel1)

lemma tiled_cong: "(\<And>b. b \<in> B \<Longrightarrow> sz' b = sz b) \<Longrightarrow> tiled B E sz' = tiled B E sz"
  by (simp add: tiled_def succ_def)

lemma tiled_split:
  assumes t: "tiled B E sz" "b \<in> B" and s: "aligned s" "8 \<le> unat s" and r: "aligned r" "8 \<le> unat r"
    and sz: "unat (sz b) = unat s + 16 + unat r" and n_def: "n = b + 16 + s"
  shows "tiled (insert n B) E (sz(b := s, n := r))" "n \<notin> B" "n \<notin> E" "succ (sz(b := s, n := r)) b = n"
    "succ (sz(b := s, n := r)) n = succ sz b"
proof -
  note tb = tiled_block [OF t]
  have n: "unat n = unat b + 16 + unat s" using tb(4) sz by (simp add: n_def unat_word_ariths)
  have nb: "n \<noteq> b" using n by auto
  show nB: "n \<notin> B" "n \<notin> E" using tb(6) [of n] n sz r(2) by auto
  have an: "aligned n" unfolding n_def using tb(1) s(1) by (intro aligned_add) (simp_all add: aligned_def)
  show sb: "succ (sz(b := s, n := r)) b = n" using nb by (simp add: succ_def n_def)
  have "unat (n + 16 + r) = unat (succ sz b)" using n sz tb(4,9) by (simp add: unat_word_ariths)
  then show sn: "succ (sz(b := s, n := r)) n = succ sz b" by (simp add: succ_def word_unat_eq_iff)
  have old: "succ (sz(b := s, n := r)) c = succ sz c" if "c \<in> B" "c \<noteq> b" for c
    using that nB by (auto simp: succ_def)
  have before: "unat c + 16 + unat (sz c) \<le> unat n" if "c \<in> B" "c \<noteq> b" "unat c < unat n" for c
  proof (cases "unat c < unat b")
    case True
    then show ?thesis using tiled_block(6) [OF t(1) that(1), of b] t(2) n by simp
  next
    case False
    then have "unat b < unat c" using that(2) by (metis linorder_neqE_nat word_unat_eq_iff)
    then show ?thesis using tb(6) [of c] that n sz by simp
  qed
  have sent: "unat e + 16 \<le> unat n" if "e \<in> E" "unat e < unat n" for e
  proof (cases "unat e < unat b")
    case True
    then show ?thesis using t that n by (auto simp: tiled_def)
  next
    case False
    moreover have "e \<noteq> b" using that(1) tb(8) by auto
    ultimately have "unat b < unat e" by (metis linorder_neqE_nat word_unat_eq_iff)
    then show ?thesis using tb(6) [of e] that n sz by simp
  qed
  have behind: "unat n + 16 + unat r \<le> unat c" if "c \<in> B \<union> E" "unat n < unat c" for c
    using tb(6) [OF that(1)] that(2) n sz by simp
  have blocks: "aligned (sz' c) \<and> 8 \<le> unat (sz' c) \<and> unat c + 16 + unat (sz' c) < 2 ^ 32 \<and> succ sz' c \<in> insert n B \<union> E \<and>
      (\<forall>d \<in> insert n B \<union> E. unat c < unat d \<longrightarrow> unat c + 16 + unat (sz' c) \<le> unat d)"
    if c: "c \<in> insert n B" and sz'_def: "sz' = sz(b := s, n := r)" for c sz'
  proof -
    consider "c = n" | "c = b" | "c \<in> B" "c \<noteq> b" "c \<noteq> n" using c nB by auto
    then show ?thesis
    proof cases
      case 1
      then show ?thesis using r n sz tb(4,5) sn behind nb by (auto simp: sz'_def)
    next
      case 2
      have "unat b + 16 + unat s \<le> unat d" if "d \<in> insert n B \<union> E" "unat b < unat d" for d
        using that tb(6) [of d] n sz by auto
      then show ?thesis using 2 s n sz tb(4) sb nb by (auto simp: sz'_def)
    next
      case 3
      then show ?thesis using tiled_block [OF t(1) 3(1)] old [OF 3(1,2)] before [OF 3(1,2)] by (auto simp: sz'_def)
    qed
  qed
  show "tiled (insert n B) E (sz(b := s, n := r))"
    unfolding tiled_def
  proof (intro conjI ballI impI)
    show "finite (insert n B)" "insert n B \<inter> E = {}" "0 \<notin> insert n B"
      using t(1) nB n by (auto simp: tiled_def)
    show "aligned c" if "c \<in> insert n B \<union> E" for c using that t(1) an by (auto simp: tiled_def)
    show "unat c + 16 \<le> 2 ^ 32" if "c \<in> insert n B \<union> E" for c using that t(1) n sz tb(4) by (auto simp: tiled_def)
    show "unat e + 16 \<le> unat c" if "e \<in> E" "c \<in> insert n B \<union> E" "unat e < unat c" for e c
      using that t(1) sent by (auto simp: tiled_def)
  qed (use blocks [OF _ refl] in blast)+
qed

lemma tiled_merge:
  assumes t: "tiled B E sz" "b \<in> B" "c \<in> B" and c: "c = succ sz b"
  shows "tiled (B - {c}) E (sz(b := sz b + 16 + sz c))" "unat (sz b + 16 + sz c) = unat (sz b) + 16 + unat (sz c)"
    "succ (sz(b := sz b + 16 + sz c)) b = succ sz c"
proof -
  note tb = tiled_block [OF t(1,2)] and tc = tiled_block [OF t(1,3)]
  have uc: "unat c = unat b + 16 + unat (sz b)" using tb(9) c by simp
  show us: "unat (sz b + 16 + sz c) = unat (sz b) + 16 + unat (sz c)"
    using tc(4) uc by (simp add: unat_word_ariths)
  show sb: "succ (sz(b := sz b + 16 + sz c)) b = succ sz c"
    using c by (simp add: succ_def algebra_simps)
  have cb: "c \<noteq> b" using uc by auto
  have al: "aligned (sz b + 16 + sz c)" using tb(2) tc(2) by (intro aligned_add) (simp_all add: aligned_def)
  have "succ sz x \<noteq> c" if "x \<in> B" "x \<noteq> b" for x using tiled_inj [OF t(1) that(1) t(2)] that c by auto
  then have old: "succ (sz(b := sz b + 16 + sz c)) x \<in> B - {c} \<union> E" if "x \<in> B" "x \<noteq> b" for x
    using tiled_block(5) [OF t(1) that(1)] that by (auto simp: succ_def)
  have sbB: "succ sz c \<in> B - {c} \<union> E" using tc(5) tiled_succ_neq [OF t(1,3)] by auto
  have behind: "unat b + 16 + unat (sz b + 16 + sz c) \<le> unat d" if "d \<in> B - {c} \<union> E" "unat b < unat d" for d
  proof -
    have "d \<noteq> c" using that(1) tc(8) by auto
    moreover have "d \<in> B \<union> E" using that(1) by blast
    then have "unat c \<le> unat d" using tb(6) [of d] that(2) uc by simp
    ultimately have "unat c < unat d" by (metis le_neq_implies_less word_unat_eq_iff)
    then show ?thesis using tc(6) [OF \<open>d \<in> B \<union> E\<close>] us uc by simp
  qed
  have blocks: "aligned (sz' x) \<and> 8 \<le> unat (sz' x) \<and> unat x + 16 + unat (sz' x) < 2 ^ 32 \<and> succ sz' x \<in> B - {c} \<union> E \<and>
      (\<forall>d \<in> B - {c} \<union> E. unat x < unat d \<longrightarrow> unat x + 16 + unat (sz' x) \<le> unat d)"
    if x: "x \<in> B - {c}" and sz'_def: "sz' = sz(b := sz b + 16 + sz c)" for x sz'
  proof (cases "x = b")
    case True
    then show ?thesis using al us tb(3) tc(4) uc sb sbB behind by (auto simp: sz'_def)
  next
    case False
    then show ?thesis using x tiled_block [OF t(1), of x] old [of x] by (auto simp: sz'_def)
  qed
  show "tiled (B - {c}) E (sz(b := sz b + 16 + sz c))"
    unfolding tiled_def
  proof (intro conjI ballI impI)
    show "finite (B - {c})" "(B - {c}) \<inter> E = {}" "0 \<notin> B - {c}" using t(1) by (auto simp: tiled_def)
  qed (use blocks [OF _ refl] t(1) in \<open>auto simp: tiled_def\<close>)
qed

section \<open>What the tags say\<close>

text \<open>\<open>fr\<close>: the block is free; \<open>pf\<close> and \<open>pv\<close>: a block is told whether the one before it is free, and then where it is. Two free
  blocks are never neighbours, and the size of a free block has a level.\<close>

definition tagged :: "u32 set \<Rightarrow> u32 set \<Rightarrow> (u32 \<Rightarrow> u32) \<Rightarrow> (u32 \<Rightarrow> bool) \<Rightarrow> (u32 \<Rightarrow> bool) \<Rightarrow> (u32 \<Rightarrow> u32) \<Rightarrow> bool" where
  "tagged B E sz fr pf pv \<longleftrightarrow> tiled B E sz \<and> (\<forall>e \<in> E. \<not> fr e) \<and>
     (\<forall>c \<in> B \<union> E. pf c \<longleftrightarrow> (\<exists>b \<in> B. fr b \<and> succ sz b = c)) \<and>
     (\<forall>b \<in> B. fr b \<longrightarrow> pv (succ sz b) = b \<and> \<not> fr (succ sz b) \<and> 32 \<le> unat (sz b) \<and> unat (sz b) < 2 ^ 20)"

lemma tagged_tiled: "tagged B E sz fr pf pv \<Longrightarrow> tiled B E sz"
  by (simp add: tagged_def)

lemma tagged_free:
  assumes "tagged B E sz fr pf pv" "b \<in> B" "fr b"
  shows "pf (succ sz b)" "pv (succ sz b) = b" "\<not> fr (succ sz b)" "32 \<le> unat (sz b)" "unat (sz b) < 2 ^ 20"
  using assms tiled_block(5) [OF tagged_tiled [OF assms(1)] assms(2)] by (auto simp: tagged_def)

text \<open>A free predecessor is where the tag says it is.\<close>

lemma tagged_prev:
  assumes "tagged B E sz fr pf pv" "c \<in> B \<union> E" "pf c"
  shows "pv c \<in> B" "fr (pv c)" "succ sz (pv c) = c"
  using assms by (auto simp: tagged_def)

lemma tagged_next_free: "tagged B E sz fr pf pv \<Longrightarrow> b \<in> B \<Longrightarrow> fr (succ sz b) \<Longrightarrow> succ sz b \<in> B"
proof -
  assume a: "tagged B E sz fr pf pv" "b \<in> B" "fr (succ sz b)"
  have "succ sz b \<in> B \<union> E" using tiled_block(5) [OF tagged_tiled [OF a(1)] a(2)] .
  with a(1,3) show ?thesis by (auto simp: tagged_def)
qed

lemma tagged_cong:
  assumes "tagged B E sz fr pf pv"
    and s: "\<And>b. b \<in> B \<Longrightarrow> sz' b = sz b" and f: "\<And>b. b \<in> B \<union> E \<Longrightarrow> fr' b = fr b" and p: "\<And>b. b \<in> B \<union> E \<Longrightarrow> pf' b = pf b"
    and v: "\<And>b. b \<in> B \<Longrightarrow> fr b \<Longrightarrow> pv' (succ sz b) = pv (succ sz b)"
  shows "tagged B E sz' fr' pf' pv'"
proof -
  have t: "tiled B E sz" using assms(1) by (rule tagged_tiled)
  have sc: "b \<in> B \<Longrightarrow> succ sz' b = succ sz b" for b using s by (simp add: succ_def)
  have fs: "b \<in> B \<Longrightarrow> fr' (succ sz b) = fr (succ sz b)" for b using tiled_block(5) [OF t] f by blast
  have ex: "(\<exists>b \<in> B. fr' b \<and> succ sz' b = c) \<longleftrightarrow> (\<exists>b \<in> B. fr b \<and> succ sz b = c)" for c
    by (rule bex_cong) (simp_all add: f sc)
  have "tiled B E sz'" using t tiled_cong [of B sz' sz E] s by simp
  moreover have "\<forall>e \<in> E. \<not> fr' e" using assms(1) f by (simp add: tagged_def)
  moreover have "\<forall>c \<in> B \<union> E. pf' c \<longleftrightarrow> (\<exists>b \<in> B. fr' b \<and> succ sz' b = c)" unfolding ex using assms(1) p by (simp add: tagged_def)
  moreover have "\<forall>b \<in> B. fr' b \<longrightarrow> pv' (succ sz' b) = b \<and> \<not> fr' (succ sz' b) \<and> 32 \<le> unat (sz' b) \<and> unat (sz' b) < 2 ^ 20"
  proof (intro ballI impI)
    fix b assume b: "b \<in> B" "fr' b"
    then have "fr b" using f by simp
    with b show "pv' (succ sz' b) = b \<and> \<not> fr' (succ sz' b) \<and> 32 \<le> unat (sz' b) \<and> unat (sz' b) < 2 ^ 20"
      using tagged_free [OF assms(1) b(1)] by (simp add: v s sc fs)
  qed
  ultimately show ?thesis unfolding tagged_def by blast
qed

text \<open>The four moves.\<close>

lemma tagged_take:
  assumes t: "tagged B E sz fr pf pv" "b \<in> B" "fr b"
  shows "tagged B E sz (fr(b := False)) (pf(succ sz b := False)) pv"
proof -
  have "succ sz x = succ sz b \<longleftrightarrow> x = b" if "x \<in> B" for x using tiled_inj [OF tagged_tiled [OF t(1)] that t(2)] .
  then show ?thesis using t unfolding tagged_def by auto
qed

lemma tagged_release:
  assumes t: "tagged B E sz fr pf pv" "b \<in> B" "\<not> fr (succ sz b)" "\<not> pf b" "32 \<le> unat (sz b)" "unat (sz b) < 2 ^ 20"
  shows "tagged B E sz (fr(b := True)) (pf(succ sz b := True)) (pv(succ sz b := b))"
proof -
  note ti = tagged_tiled [OF t(1)]
  have inj: "succ sz x = succ sz b \<longleftrightarrow> x = b" if "x \<in> B" for x using tiled_inj [OF ti that t(2)] .
  have "succ sz x \<noteq> b" if "x \<in> B" "fr x" for x using t that by (auto simp: tagged_def)
  moreover have "succ sz b \<noteq> b" using tiled_succ_neq [OF ti t(2)] .
  moreover have "b \<notin> E" using tiled_block(8) [OF ti t(2)] .
  ultimately show ?thesis using t inj unfolding tagged_def by auto
qed

lemma tagged_absorb:
  assumes t: "tagged B E sz fr pf pv" "b \<in> B" "\<not> fr b" "c \<in> B" and c: "c = succ sz b"
  shows "tagged (B - {c}) E (sz(b := sz b + 16 + sz c)) fr (pf(succ sz c := False)) pv"
proof -
  note ti = tagged_tiled [OF t(1)]
  let ?s = "sz(b := sz b + 16 + sz c)"
  note m = tiled_merge [OF ti t(2,4) c]
  have old: "succ ?s x = succ sz x" if "x \<noteq> b" for x using that by (simp add: succ_def)
  have nc: "succ sz x \<noteq> c" if "x \<in> B" "x \<noteq> b" for x using tiled_inj [OF ti that(1) t(2)] that c by auto
  have nsc: "succ sz x = succ sz c \<longleftrightarrow> x = c" if "x \<in> B" for x using tiled_inj [OF ti that t(4)] .
  have pf: "(pf(succ sz c := False)) y \<longleftrightarrow> (\<exists>x \<in> B - {c}. fr x \<and> succ ?s x = y)" if y: "y \<in> B - {c} \<union> E" for y
  proof -
    have "(\<exists>x \<in> B - {c}. fr x \<and> succ ?s x = y) \<longleftrightarrow> (\<exists>x \<in> B - {c}. fr x \<and> succ sz x = y)"
      using old t(3) by metis
    also have "\<dots> \<longleftrightarrow> pf y \<and> y \<noteq> succ sz c" using t(1) y nsc unfolding tagged_def by blast
    finally show ?thesis by auto
  qed
  have fr: "pv (succ ?s x) = x \<and> \<not> fr (succ ?s x) \<and> 32 \<le> unat (?s x) \<and> unat (?s x) < 2 ^ 20"
    if "x \<in> B - {c}" "fr x" for x
  proof -
    have "x \<noteq> b" using that t(3) by auto
    with that t(1) old [OF this] show ?thesis by (auto simp: tagged_def)
  qed
  show ?thesis unfolding tagged_def using m(1) pf fr t(1) by (auto simp: tagged_def)
qed

lemma tagged_split:
  assumes t: "tagged B E sz fr pf pv" "b \<in> B" "\<not> fr b" "\<not> fr (succ sz b)"
    and s: "aligned s" "8 \<le> unat s" and r: "aligned r" "32 \<le> unat r" "unat r < 2 ^ 20"
    and sz: "unat (sz b) = unat s + 16 + unat r" and n: "n = b + 16 + s"
  shows "tagged (insert n B) E (sz(b := s, n := r)) (fr(n := True)) (pf(n := False, succ sz b := True)) (pv(n := v, succ sz b := n))"
proof -
  note ti = tagged_tiled [OF t(1)]
  let ?s = "sz(b := s, n := r)"
  have r8: "8 \<le> unat r" using r(2) by simp
  note sp = tiled_split [OF ti t(2) s r(1) r8 sz n]
  have nb: "n \<noteq> b" using sp(2) t(2) by auto
  have old: "succ ?s x = succ sz x" if "x \<in> B" "x \<noteq> b" for x using that sp(2) by (auto simp: succ_def)
  have inB: "succ sz x \<in> B \<union> E" if "x \<in> B" for x using tiled_block(5) [OF ti that] .
  then have nn: "succ sz x \<noteq> n" if "x \<in> B" for x using that sp(2,3) by auto
  have inj: "succ sz x = succ sz b \<longleftrightarrow> x = b" if "x \<in> B" for x using tiled_inj [OF ti that t(2)] .
  have pf: "(pf(n := False, succ sz b := True)) y \<longleftrightarrow> (\<exists>x \<in> insert n B. (fr(n := True)) x \<and> succ ?s x = y)"
    if y: "y \<in> insert n B \<union> E" for y
  proof -
    have "(\<exists>x \<in> insert n B. (fr(n := True)) x \<and> succ ?s x = y) \<longleftrightarrow>
        succ sz b = y \<or> (\<exists>x \<in> B. fr x \<and> succ sz x = y)"
      using sp(2,5) old t(3) by (metis (no_types, lifting) fun_upd_apply insert_iff)
    moreover have "n \<noteq> succ sz b" using nn [OF t(2)] by simp
    ultimately show ?thesis using t(1) y nn by (auto simp: tagged_def)
  qed
  have fr: "(pv(n := v, succ sz b := n)) (succ ?s x) = x \<and> \<not> (fr(n := True)) (succ ?s x) \<and> 32 \<le> unat (?s x) \<and> unat (?s x) < 2 ^ 20"
    if x: "x \<in> insert n B" "(fr(n := True)) x" for x
  proof (cases "x = n")
    case True
    have "succ sz b \<noteq> n" using nn t(2) by auto
    with True show ?thesis using sp(5) t(4) r by simp
  next
    case False
    then have x': "x \<in> B" "fr x" "x \<noteq> b" using x t(3) by auto
    then have "succ sz x \<noteq> succ sz b" "succ sz x \<noteq> n" using inj nn by auto
    then show ?thesis using old [OF x'(1,3)] x' False tagged_free [OF t(1) x'(1,2)] by simp
  qed
  show ?thesis unfolding tagged_def using sp(1,3) pf fr t(1) by (auto simp: tagged_def)
qed

section \<open>Regions are bounded\<close>

text \<open>Every block is followed by a sentinel within \<open>2\<^sup>20\<close> bytes, so that every size has a level.\<close>

definition bounded :: "u32 set \<Rightarrow> u32 set \<Rightarrow> bool" where
  "bounded B E \<longleftrightarrow> (\<forall>b \<in> B. \<exists>e \<in> E. unat b < unat e \<and> unat e \<le> unat b + 2 ^ 20)"

lemma bounded_size: "bounded B E \<Longrightarrow> tiled B E sz \<Longrightarrow> b \<in> B \<Longrightarrow> unat (sz b) + 16 \<le> 2 ^ 20"
  using tiled_block(6) [of B E sz b] by (fastforce simp: bounded_def)

lemma bounded_subset: "bounded B E \<Longrightarrow> C \<subseteq> B \<Longrightarrow> bounded C E"
  by (auto simp: bounded_def)

lemma bounded_insert:
  assumes "bounded B E" "tiled B E sz" "b \<in> B" "unat b \<le> unat n" "unat n < unat b + 16 + unat (sz b)"
  shows "bounded (insert n B) E"
proof -
  obtain e where e: "e \<in> E" "unat b < unat e" "unat e \<le> unat b + 2 ^ 20" using assms(1,3) by (auto simp: bounded_def)
  then have "unat b + 16 + unat (sz b) \<le> unat e" using tiled_block(6) [OF assms(2,3), of e] by auto
  with e assms(4,5) have "unat n < unat e" "unat e \<le> unat n + 2 ^ 20" by linarith+
  with assms(1) e(1) show ?thesis by (auto simp: bounded_def)
qed

end
