(* ===== verification/Mm_Lists.thy ===== *)
theory Mm_Lists
  imports Mm_Tags
begin

text \<open>
  The free lists of the heap: the addresses of the members of headers never coincide, the level of
  a size, doubly linked lists in memory, and that \<open>k_mm_freelist_insert\<close> and \<open>k_mm_freelist_delete\<close> keep one
  list per level with exactly the free blocks of that level, and the bitmap with them.
\<close>

section \<open>Members of headers\<close>

definition fld :: "u32 \<Rightarrow> nat \<Rightarrow> u32" where
  "fld b i = b + of_nat i"

lemma at_fld: "dye_at b = fld b 0" "owner_at b = fld b 4" "prev_at b = fld b 8" "size_at b = fld b 12"
    "fprev_at b = fld b 16" "fnext_at b = fld b 20"
  by (simp_all add: at_defs fld_def)

text \<open>The first 16 bytes of a header are its own, and the links too where there is a block.\<close>

lemma unat_fld:
  assumes "tiled B E sz" "b \<in> B \<union> E" "i < 16 \<or> b \<in> B \<and> i < 16 + unat (sz b)"
  shows "unat (fld b i) = unat b + i"
proof -
  have "unat b + i < 2 ^ 32"
  proof (cases "i < 16")
    case True
    have "unat b + 16 \<le> 2 ^ 32" using assms(1,2) unfolding tiled_def by blast
    with True show ?thesis by linarith
  next
    case False
    then show ?thesis using assms(3) tiled_block(4) [OF assms(1), of b] by linarith
  qed
  moreover from this have "unat (of_nat i :: u32) = i" by (simp add: unat_of_nat)
  ultimately show ?thesis by (simp add: fld_def unat_word_ariths)
qed

lemma fld_eq:
  assumes t: "tiled B E sz" and bc: "b \<in> B \<union> E" "c \<in> B \<union> E"
    and i: "i < 16 \<or> b \<in> B \<and> i < 16 + unat (sz b)" and j: "j < 16 \<or> c \<in> B \<and> j < 16 + unat (sz c)"
  shows "fld b i = fld c j \<longleftrightarrow> b = c \<and> i = j"
proof -
  have u: "unat (fld b i) = unat b + i" "unat (fld c j) = unat c + j" using unat_fld [OF t] bc i j by blast+
  have apart: "unat x + k < unat y" if "x \<in> B \<union> E" "y \<in> B \<union> E" "unat x < unat y" "k < 16 \<or> x \<in> B \<and> k < 16 + unat (sz x)" for x y k
  proof (cases "x \<in> B")
    case True
    then show ?thesis using tiled_block(6) [OF t True that(2,3)] that(4) by auto
  next
    case False
    then have "unat x + 16 \<le> unat y" using t that unfolding tiled_def by blast
    then show ?thesis using that(4) False by simp
  qed
  show ?thesis
  proof
    assume e: "fld b i = fld c j"
    then have s: "unat b + i = unat c + j" using u by simp
    have "\<not> unat b < unat c" using apart [OF bc _ i] s by fastforce
    moreover have "\<not> unat c < unat b" using apart [OF bc(2,1) _ j] s by fastforce
    ultimately have "unat b = unat c" by simp
    with s show "b = c \<and> i = j" by (simp add: word_unat_eq_iff)
  qed (use u in simp)
qed

lemma link_in_block: "tiled B E sz \<Longrightarrow> b \<in> B \<Longrightarrow> 8 \<le> unat (sz b)"
  by (rule tiled_block(3))

section \<open>Levels\<close>

definition level :: "u32 \<Rightarrow> nat" where
  "level s = nat (size_to_level s)"

lemma clz_digits:
  assumes "s \<noteq> 0"
  shows "32 - krhino_clz32 s \<le> k \<longleftrightarrow> unat s < 2 ^ k"
proof -
  define z where "z = krhino_clz32 s"
  have b: "2 ^ 31 \<le> unat s * 2 ^ z" "unat s * 2 ^ z < (2 ^ 32 :: nat)" using krhino_clz32_bounds [OF assms] by (simp_all add: z_def)
  have z: "z < 32"
  proof (rule ccontr)
    assume "\<not> z < 32"
    then have "(2 :: nat) ^ 32 \<le> 2 ^ z" by (intro power_increasing) simp_all
    also have "\<dots> \<le> unat s * 2 ^ z" using assms by (simp add: unat_gt_0 Suc_leI)
    finally show False using b(2) by simp
  qed
  show ?thesis
  proof
    assume "32 - krhino_clz32 s \<le> k"
    then have "(2 :: nat) ^ 32 \<le> 2 ^ k * 2 ^ z" unfolding power_add [symmetric] by (intro power_increasing) (simp_all add: z_def)
    with b(2) have "unat s * 2 ^ z < 2 ^ k * 2 ^ z" by linarith
    then show "unat s < 2 ^ k" by simp
  next
    assume "unat s < 2 ^ k"
    then have "unat s * 2 ^ z < 2 ^ k * 2 ^ z" by simp
    from le_less_trans [OF b(1) this] have "(2 :: nat) ^ 31 < 2 ^ (k + z)" by (simp only: power_add)
    then have "31 < k + z" by (simp only: power_strict_increasing_iff [of 2] one_less_numeral_iff semiring_norm)
    then show "32 - krhino_clz32 s \<le> k" by (simp add: z_def)
  qed
qed

text \<open>Level 0 has the sizes below 64, level \<open>l\<close> those from \<open>2\<^bsup>l + 5\<^esup>\<close> to \<open>2\<^bsup>l + 6\<^esup>\<close>, and there is none from \<open>2\<^sup>20\<close> on.\<close>

lemma size_to_level_iff:
  assumes "s \<noteq> 0"
  shows "size_to_level s = - 1 \<longleftrightarrow> 2 ^ 20 \<le> unat s"
    and "unat s < 2 ^ 20 \<Longrightarrow> size_to_level s = int (level s) \<and> level s < 15 \<and> unat s < 2 ^ (level s + 6) \<and> (level s = 0 \<or> 2 ^ (level s + 5) \<le> unat s)"
proof -
  define cnt where "cnt = 32 - krhino_clz32 s"
  note c = clz_digits [OF assms, folded cnt_def]
  have l: "size_to_level s = (if cnt < 6 then 0 else if 20 < cnt then - 1 else int cnt - 6)"
    by (simp add: size_to_level_def cnt_def MM_MIN_BIT_def MM_MAX_BIT_def Let_def)
  show "size_to_level s = - 1 \<longleftrightarrow> 2 ^ 20 \<le> unat s" using c [of 20] unfolding l by (auto simp: not_le not_less)
  assume "unat s < 2 ^ 20"
  then have c20: "cnt \<le> 20" using c [of 20] by simp
  show "size_to_level s = int (level s) \<and> level s < 15 \<and> unat s < 2 ^ (level s + 6) \<and> (level s = 0 \<or> 2 ^ (level s + 5) \<le> unat s)"
  proof (cases "cnt < 6")
    case True
    then show ?thesis using c [of 6] l by (simp add: level_def)
  next
    case False
    define k where "k = cnt - 6"
    have k: "cnt = k + 6" "k < 15" using False c20 by (simp_all add: k_def)
    have "size_to_level s = int k" "level s = k" using l k by (simp_all add: level_def)
    moreover have "unat s < 2 ^ (k + 6)" using c [of "k + 6"] k by simp
    moreover have "\<not> unat s < 2 ^ (k + 5)" using c [of "k + 5"] k by simp
    ultimately show ?thesis using k(2) by (simp add: not_less)
  qed
qed

lemma level_less:
  assumes "level a < level b" "a \<noteq> 0" "b \<noteq> 0" "unat a < 2 ^ 20" "unat b < 2 ^ 20"
  shows "unat a < unat b"
proof -
  have "unat a < 2 ^ (level a + 6)" using size_to_level_iff(2) [OF assms(2,4)] by simp
  also have "\<dots> \<le> 2 ^ (level b + 5)" using assms(1) by (intro power_increasing) simp_all
  also have "\<dots> \<le> unat b" using size_to_level_iff(2) [OF assms(3,5)] assms(1) by auto
  finally show ?thesis .
qed

section \<open>Doubly linked lists\<close>

text \<open>Along the links \<open>fp\<close> and \<open>fn\<close>, \<open>xs\<close> leads from \<open>a\<close>, whose predecessor is \<open>p\<close>, to the member \<open>q\<close>, whose successor is \<open>e\<close>.\<close>

fun dlseg :: "(u32 \<Rightarrow> u32) \<Rightarrow> (u32 \<Rightarrow> u32) \<Rightarrow> u32 \<Rightarrow> u32 \<Rightarrow> u32 list \<Rightarrow> u32 \<Rightarrow> u32 \<Rightarrow> bool" where
  "dlseg fp fn p a [] q e \<longleftrightarrow> q = p \<and> e = a"
| "dlseg fp fn p a (b # bs) q e \<longleftrightarrow> a = b \<and> b \<noteq> 0 \<and> fp b = p \<and> dlseg fp fn b (fn b) bs q e"

definition dlist :: "(u32 \<Rightarrow> u32) \<Rightarrow> (u32 \<Rightarrow> u32) \<Rightarrow> u32 \<Rightarrow> u32 list \<Rightarrow> bool" where
  "dlist fp fn a xs \<longleftrightarrow> dlseg fp fn 0 a xs (last (0 # xs)) 0"

lemma dlseg_append: "dlseg fp fn p a (xs @ ys) q e \<longleftrightarrow> (\<exists>m n. dlseg fp fn p a xs m n \<and> dlseg fp fn m n ys q e)"
  by (induction xs arbitrary: p a) auto

lemma dlseg_cong:
  "(\<And>x. x \<in> set xs \<Longrightarrow> fp' x = fp x) \<Longrightarrow> (\<And>x. x \<in> set xs \<Longrightarrow> fn' x = fn x) \<Longrightarrow>
   dlseg fp' fn' p a xs q e = dlseg fp fn p a xs q e"
  by (induction xs arbitrary: p a) auto

lemma dlist_cong:
  "(\<And>x. x \<in> set xs \<Longrightarrow> fp' x = fp x) \<Longrightarrow> (\<And>x. x \<in> set xs \<Longrightarrow> fn' x = fn x) \<Longrightarrow> dlist fp' fn' a xs = dlist fp fn a xs"
  unfolding dlist_def by (rule dlseg_cong)

lemma dlseg_first: "dlseg fp fn p a xs q e \<Longrightarrow> a = (case xs of [] \<Rightarrow> e | x # _ \<Rightarrow> x)"
  by (cases xs) auto

lemma dlseg_last: "dlseg fp fn p a xs q e \<Longrightarrow> q = last (p # xs)"
  by (induction xs arbitrary: p a) auto

lemma dlist_nonzero: "dlist fp fn a xs \<Longrightarrow> 0 \<notin> set xs"
proof -
  have "dlseg fp fn p a xs q e \<Longrightarrow> 0 \<notin> set xs" for p q e by (induction xs arbitrary: p a) auto
  then show "dlist fp fn a xs \<Longrightarrow> 0 \<notin> set xs" by (auto simp: dlist_def)
qed

lemma dlist_head: "dlist fp fn a xs \<Longrightarrow> a = (case xs of [] \<Rightarrow> 0 | x # _ \<Rightarrow> x)"
  by (auto simp: dlist_def dest: dlseg_first)

lemma dlist_empty: "dlist fp fn a xs \<Longrightarrow> a = 0 \<longleftrightarrow> xs = []"
  using dlist_head [of fp fn a xs] dlist_nonzero [of fp fn a xs] by (auto split: list.splits)

lemma dlist_cons:
  assumes "dlist fp fn a xs" "b \<notin> set xs" "b \<noteq> 0" "distinct xs"
  shows "dlist ((if a \<noteq> 0 then fp(a := b) else fp)(b := 0)) (fn(b := a)) b (b # xs)"
proof (cases xs)
  case Nil
  then show ?thesis using assms by (simp add: dlist_def)
next
  case (Cons x ys)
  then have d: "a = x" "x \<noteq> 0" "dlseg fp fn x (fn x) ys (last (0 # xs)) 0" using assms(1) by (simp_all add: dlist_def)
  have "dlseg ((fp(x := b))(b := 0)) (fn(b := x)) x (fn x) ys (last (0 # xs)) 0"
    using d(3) assms(2,4) Cons by (subst dlseg_cong [where fp = fp and fn = fn]) auto
  then show ?thesis using d assms(2,3) Cons by (auto simp: dlist_def)
qed

text \<open>What taking out \<open>b\<close> does to the links of its neighbours, and to the head.\<close>

lemma dlist_remove:
  assumes l: "dlist fp fn a (us @ b # vs)" and d: "distinct (us @ b # vs)"
  defines "p \<equiv> fp b" and "n \<equiv> fn b"
  shows "dlist (if n \<noteq> 0 then fp(n := p) else fp) (if p \<noteq> 0 then fn(p := n) else fn) (if a = b then n else a) (us @ vs)"
    and "p = last (0 # us)" "n = (case vs of [] \<Rightarrow> 0 | v # _ \<Rightarrow> v)" "a = b \<longleftrightarrow> us = []"
proof -
  let ?fp = "if n \<noteq> 0 then fp(n := p) else fp" and ?fn = "if p \<noteq> 0 then fn(p := n) else fn"
  obtain m where s: "dlseg fp fn 0 a us m b" "b \<noteq> 0" "fp b = m" "dlseg fp fn b n vs (last (b # vs)) 0"
    using l by (auto simp: dlist_def dlseg_append n_def)
  have m: "m = p" using s(3) by (simp add: p_def)
  show p: "p = last (0 # us)" using dlseg_last [OF s(1)] m by simp
  show n: "n = (case vs of [] \<Rightarrow> 0 | v # _ \<Rightarrow> v)" using dlseg_first [OF s(4)] .
  have a: "a = (case us of [] \<Rightarrow> b | u # _ \<Rightarrow> u)" using dlseg_first [OF s(1)] .
  show ab: "a = b \<longleftrightarrow> us = []" using a d by (auto split: list.splits)
  have nz: "0 \<notin> set us" "0 \<notin> set vs" using dlist_nonzero [OF l] by auto
  have rear: "dlseg ?fp ?fn p n vs (last (p # vs)) 0"
  proof (cases vs)
    case Nil
    then show ?thesis using n by simp
  next
    case (Cons v ws)
    have nv: "n = v" "v \<noteq> 0" using n nz Cons by auto
    have "p \<notin> set ws" "p \<noteq> v" using p d nz Cons by (cases us rule: rev_cases; auto)+
    then have "dlseg ?fp ?fn v (fn v) ws q 0 = dlseg fp fn v (fn v) ws q 0" for q
      using d Cons nv by (intro dlseg_cong) auto
    then show ?thesis using s(4) Cons nv \<open>p \<noteq> v\<close> by auto
  qed
  have "dlseg ?fp ?fn 0 (if a = b then n else a) us p n"
  proof (cases us rule: rev_cases)
    case Nil
    then show ?thesis using p ab by simp
  next
    case (snoc ys y)
    have py: "p = y" "y \<noteq> 0" using p nz snoc by auto
    have "n \<notin> set us" using n d nz by (auto split: list.splits)
    then have "dlseg ?fp ?fn 0 a ys q e = dlseg fp fn 0 a ys q e" for q e
      using d snoc py by (intro dlseg_cong) auto
    then show ?thesis using s(1) ab snoc py \<open>n \<notin> set us\<close> by (auto simp: dlseg_append)
  qed
  moreover have "last (p # vs) = last (0 # us @ vs)" using p by auto
  ultimately show "dlist ?fp ?fn (if a = b then n else a) (us @ vs)"
    using rear unfolding dlist_def dlseg_append by metis
qed

section \<open>The lists of free blocks\<close>

abbreviation fprevs :: "heap \<Rightarrow> u32 \<Rightarrow> u32" where "fprevs h b \<equiv> word_at h (fprev_at b)"
abbreviation fnexts :: "heap \<Rightarrow> u32 \<Rightarrow> u32" where "fnexts h b \<equiv> word_at h (fnext_at b)"

definition freelists :: "heap \<Rightarrow> u32 set \<Rightarrow> bool" where
  "freelists h F \<longleftrightarrow> length (freelist h) = MM_BIT_LEVEL \<and>
     (\<forall>l < MM_BIT_LEVEL. \<exists>xs. dlist (fprevs h) (fnexts h) (freelist h ! l) xs \<and> distinct xs \<and>
        set xs = {b \<in> F. level (MM_GET_BUF_SIZE h b) = l} \<and> bit (free_bitmap h) l = (xs \<noteq> [])) \<and>
     (\<forall>l \<ge> MM_BIT_LEVEL. \<not> bit (free_bitmap h) l)"

text \<open>Only the links of the blocks \<open>F\<close>, the heads of the lists and the bitmap change.\<close>

definition links_only :: "heap \<Rightarrow> heap \<Rightarrow> u32 set \<Rightarrow> bool" where
  "links_only h h' F \<longleftrightarrow> (\<forall>a. (\<forall>x \<in> F. a \<noteq> fprev_at x \<and> a \<noteq> fnext_at x) \<longrightarrow> word_at h' a = word_at h a) \<and>
     h' = h\<lparr>word_at := word_at h', freelist := freelist h', free_bitmap := free_bitmap h'\<rparr>"

lemma freelists_level:
  assumes "freelists h F" "l < MM_BIT_LEVEL"
  obtains xs where "dlist (fprevs h) (fnexts h) (freelist h ! l) xs" "distinct xs"
    "set xs = {b \<in> F. level (MM_GET_BUF_SIZE h b) = l}" "bit (free_bitmap h) l = (xs \<noteq> [])"
proof -
  have "\<exists>xs. dlist (fprevs h) (fnexts h) (freelist h ! l) xs \<and> distinct xs \<and>
      set xs = {b \<in> F. level (MM_GET_BUF_SIZE h b) = l} \<and> bit (free_bitmap h) l = (xs \<noteq> [])"
    using assms unfolding freelists_def by blast
  then show ?thesis using that by blast
qed

lemma freelists_cong:
  assumes "freelists h F" "freelist h' = freelist h" "free_bitmap h' = free_bitmap h"
    and "\<And>b. b \<in> F \<Longrightarrow> fprevs h' b = fprevs h b \<and> fnexts h' b = fnexts h b \<and> MM_GET_BUF_SIZE h' b = MM_GET_BUF_SIZE h b"
  shows "freelists h' F"
proof -
  have "\<exists>xs. dlist (fprevs h') (fnexts h') (freelist h' ! l) xs \<and> distinct xs \<and>
      set xs = {b \<in> F. level (MM_GET_BUF_SIZE h' b) = l} \<and> bit (free_bitmap h') l = (xs \<noteq> [])" if l: "l < MM_BIT_LEVEL" for l
  proof -
    obtain xs where xs: "dlist (fprevs h) (fnexts h) (freelist h ! l) xs" "distinct xs"
      "set xs = {b \<in> F. level (MM_GET_BUF_SIZE h b) = l}" "bit (free_bitmap h) l = (xs \<noteq> [])"
      by (rule freelists_level [OF assms(1) l])
    have "dlist (fprevs h') (fnexts h') (freelist h ! l) xs"
      by (rule iffD2 [OF dlist_cong xs(1)]) (use assms(4) xs(3) in auto)
    then show ?thesis using xs assms(2-4) by (intro exI [of _ xs]) auto
  qed
  then show ?thesis using assms(1-3) by (simp add: freelists_def)
qed

lemma links_only_tags:
  assumes "links_only h h' F" "tiled B E sz" "F \<subseteq> B" "c \<in> B \<union> E" "i < 16 \<or> c \<in> B - F \<and> i < 16 + unat (sz c)"
  shows "word_at h' (fld c i) = word_at h (fld c i)"
proof -
  have "fld c i \<noteq> fprev_at x \<and> fld c i \<noteq> fnext_at x" if "x \<in> F" for x
  proof -
    have x: "x \<in> B" "8 \<le> unat (sz x)" using that assms(3) tiled_block(3) [OF assms(2)] by auto
    have "i < 16 \<or> x \<noteq> c" using assms(5) that by blast
    then show ?thesis
      unfolding at_fld using fld_eq [OF assms(2,4), of x i 16] fld_eq [OF assms(2,4), of x i 20] x assms(5) by auto
  qed
  then show ?thesis using assms(1) by (simp add: links_only_def)
qed

lemma links_only_frame:
  assumes "links_only h h' F"
  shows "pool h' = pool h" "fix_pool h' = fix_pool h" "used_size h' = used_size h" "free_size h' = free_size h"
    "maxused_size h' = maxused_size h" "alloc_times h' = alloc_times h" "mm_traps h' = mm_traps h" "regioninfo h' = regioninfo h"
    "dumped h' = dumped h" "reallocdumped h' = reallocdumped h"
proof -
  have h': "h' = h\<lparr>word_at := word_at h', freelist := freelist h', free_bitmap := free_bitmap h'\<rparr>"
    using assms by (simp add: links_only_def)
  show "pool h' = pool h" "fix_pool h' = fix_pool h" "used_size h' = used_size h" "free_size h' = free_size h"
    "maxused_size h' = maxused_size h" "alloc_times h' = alloc_times h" "mm_traps h' = mm_traps h" "regioninfo h' = regioninfo h"
    "dumped h' = dumped h" "reallocdumped h' = reallocdumped h"
    by (subst h', simp)+
qed

lemma bit_or_level: "l < 32 \<Longrightarrow> bit (m OR 2 ^ l :: u32) k \<longleftrightarrow> bit m k \<or> k = l"
  by (auto simp: bit_simps)

lemma bit_clear_level: "bit (m AND NOT (2 ^ l) :: u32) k \<longleftrightarrow> bit m k \<and> k \<noteq> l"
  by (auto simp: bit_simps dest: bit_imp_le_length)

lemma freelist_insert:
  assumes t: "tiled B E (MM_GET_BUF_SIZE h)" and F: "F \<subseteq> B" "b \<in> B" "b \<notin> F" and f: "freelists h F"
    and sz: "unat (MM_GET_BUF_SIZE h b) < 2 ^ 20"
  shows "freelists (k_mm_freelist_insert h b) (insert b F)" "links_only h (k_mm_freelist_insert h b) (insert b F)"
proof -
  define l where "l = level (MM_GET_BUF_SIZE h b)"
  have nz: "MM_GET_BUF_SIZE h b \<noteq> 0" using tiled_block(3) [OF t F(2)] by auto
  note lv = size_to_level_iff(2) [OF nz sz, folded l_def]
  have l16: "l < MM_BIT_LEVEL" "l < 32" using lv by (simp_all add: mm_consts)
  have len: "length (freelist h) = MM_BIT_LEVEL" using f by (simp add: freelists_def)
  define a where "a = freelist h ! l"
  define h3 where "h3 = (let h2 = store (store h (fprev_at b) 0) (fnext_at b) a in if a \<noteq> 0 then store h2 (fprev_at a) b else h2)"
  define h' where "h' = h3\<lparr>freelist := (freelist h)[l := b], free_bitmap := free_bitmap h OR push_bit l 1\<rparr>"
  have h': "k_mm_freelist_insert h b = h'"
    using lv l16 unfolding k_mm_freelist_insert_def h'_def h3_def by (simp add: Let_def store_def a_def l_def [symmetric] MM_BIT_LEVEL_def)
  obtain xs where "dlist (fprevs h) (fnexts h) (freelist h ! l) xs" "distinct xs"
    "set xs = {x \<in> F. level (MM_GET_BUF_SIZE h x) = l}" "bit (free_bitmap h) l = (xs \<noteq> [])"
    by (rule freelists_level [OF f l16(1)])
  note xs = this [folded a_def]
  have aF: "a \<in> F" if "a \<noteq> 0" using dlist_head [OF xs(1)] that xs(3) by (auto split: list.splits)
  have at: "fld x i = fld y j \<longleftrightarrow> x = y \<and> i = j" if "x \<in> B \<union> E" "y \<in> B" "i < 16 \<or> x \<in> B \<and> i < 24" "j < 24" for x y i j
    using that tiled_block(3) [OF t, of x] tiled_block(3) [OF t, of y] by (intro fld_eq [OF t]) auto
  have fp: "fprevs h' x = ((if a \<noteq> 0 then (fprevs h)(a := b) else fprevs h)(b := 0)) x" if "x \<in> B" for x
    using that F aF xs(3) by (auto simp: h'_def h3_def store_def at_fld at Let_def)
  have fn: "fnexts h' x = ((fnexts h)(b := a)) x" if "x \<in> B" for x
    using that F aF by (auto simp: h'_def h3_def store_def at_fld at Let_def)
  have bs: "MM_GET_BUF_SIZE h' x = MM_GET_BUF_SIZE h x" if "x \<in> B" for x
    using that F aF by (auto simp: MM_GET_BUF_SIZE_def h'_def h3_def store_def at_fld at Let_def)
  show "links_only h (k_mm_freelist_insert h b) (insert b F)"
    unfolding h' links_only_def by (auto simp: h'_def h3_def store_def Let_def aF)
  show "freelists (k_mm_freelist_insert h b) (insert b F)"
    unfolding h' freelists_def
  proof (intro conjI allI impI)
    show "length (freelist h') = MM_BIT_LEVEL" using len by (simp add: h'_def)
    show "\<not> bit (free_bitmap h') k" if "MM_BIT_LEVEL \<le> k" for k
      using f that l16 by (simp add: freelists_def h'_def bit_or_level)
    fix k assume k: "k < MM_BIT_LEVEL"
    show "\<exists>xs. dlist (fprevs h') (fnexts h') (freelist h' ! k) xs \<and> distinct xs \<and>
        set xs = {x \<in> insert b F. level (MM_GET_BUF_SIZE h' x) = k} \<and> bit (free_bitmap h') k = (xs \<noteq> [])"
    proof (cases "k = l")
      case True
      have b: "b \<notin> set xs" "b \<noteq> 0" using xs(3) F(3) tiled_block(7) [OF t F(2)] by auto
      have "dlist (fprevs h') (fnexts h') b (b # xs)"
        by (rule iffD2 [OF dlist_cong dlist_cons [OF xs(1) b xs(2)]]) (use fp fn F xs(3) in auto)
      moreover have "set (b # xs) = {x \<in> insert b F. level (MM_GET_BUF_SIZE h' x) = k}"
        using xs(3) bs F True by (auto simp: l_def)
      ultimately show ?thesis using True b(1) xs(2) len l16 k
        by (intro exI [of _ "b # xs"]) (simp add: h'_def bit_or_level)
    next
      case False
      obtain ys where ys: "dlist (fprevs h) (fnexts h) (freelist h ! k) ys" "distinct ys"
        "set ys = {x \<in> F. level (MM_GET_BUF_SIZE h x) = k}" "bit (free_bitmap h) k = (ys \<noteq> [])"
        by (rule freelists_level [OF f k])
      have "a \<notin> set ys" if "a \<noteq> 0" using dlist_head [OF xs(1)] that xs(3) ys(3) False by (auto split: list.splits)
      then have "x \<in> B" "x \<noteq> b" "a \<noteq> 0 \<Longrightarrow> x \<noteq> a" if "x \<in> set ys" for x using that ys(3) F by auto
      then have "fprevs h' x = fprevs h x" "fnexts h' x = fnexts h x" if "x \<in> set ys" for x
        using that fp [of x] fn [of x] by simp_all
      then have "dlist (fprevs h') (fnexts h') (freelist h ! k) ys" by (rule iffD2 [OF dlist_cong ys(1)])
      then show ?thesis using ys(2-4) False bs F l16
        by (intro exI [of _ ys]) (auto simp: h'_def bit_or_level l_def)
    qed
  qed
qed

lemma freelist_delete:
  assumes t: "tiled B E (MM_GET_BUF_SIZE h)" and F: "F \<subseteq> B" "b \<in> F" and f: "freelists h F"
    and sz: "unat (MM_GET_BUF_SIZE h b) < 2 ^ 20"
  shows "freelists (k_mm_freelist_delete h b) (F - {b})" "links_only h (k_mm_freelist_delete h b) F"
proof -
  define l where "l = level (MM_GET_BUF_SIZE h b)"
  have bB: "b \<in> B" using F by blast
  have nz: "MM_GET_BUF_SIZE h b \<noteq> 0" using tiled_block(3) [OF t bB] by auto
  note lv = size_to_level_iff(2) [OF nz sz, folded l_def]
  have l16: "l < MM_BIT_LEVEL" "l < 32" using lv by (simp_all add: mm_consts)
  have len: "length (freelist h) = MM_BIT_LEVEL" using f by (simp add: freelists_def)
  define a where "a = freelist h ! l"
  define p where "p = fprevs h b"
  define n where "n = fnexts h b"
  obtain xs where "dlist (fprevs h) (fnexts h) (freelist h ! l) xs" "distinct xs"
    "set xs = {x \<in> F. level (MM_GET_BUF_SIZE h x) = l}" "bit (free_bitmap h) l = (xs \<noteq> [])"
    by (rule freelists_level [OF f l16(1)])
  note xs = this [folded a_def]
  have "b \<in> set xs" using xs(3) F l_def by simp
  then obtain us vs where uv: "xs = us @ b # vs" by (meson split_list)
  have d: "distinct (us @ b # vs)" "dlist (fprevs h) (fnexts h) a (us @ b # vs)" using xs(1,2) uv by simp_all
  note r = dlist_remove [OF d(2,1), folded p_def n_def]
  have pF: "p \<in> set us" if "p \<noteq> 0" using r(2) that by (cases us rule: rev_cases) auto
  have nF: "n \<in> set vs" if "n \<noteq> 0" using r(3) that by (cases vs) auto
  have uvF: "set us \<subseteq> F" "set vs \<subseteq> F" "b \<notin> set us" "b \<notin> set vs" using xs(3) uv d(1) by auto
  have pn: "p \<in> F" "p \<noteq> b" if "p \<noteq> 0" using pF [OF that] uvF by auto
  have nn: "n \<in> F" "n \<noteq> b" if "n \<noteq> 0" using nF [OF that] uvF by auto
  have at: "fld x i = fld y j \<longleftrightarrow> x = y \<and> i = j" if "x \<in> B \<union> E" "y \<in> B" "i < 16 \<or> x \<in> B \<and> i < 24" "j < 24" for x y i j
    using that tiled_block(3) [OF t, of x] tiled_block(3) [OF t, of y] by (intro fld_eq [OF t]) auto
  define h1 where "h1 = (if n \<noteq> 0 then store h (fprev_at n) p else h)"
  define h2 where "h2 = (if p \<noteq> 0 then store h1 (fnext_at p) n else h1)"
  define hd where "hd = (if a = b then n else a)"
  define bm where "bm = (if a = b \<and> n = 0 then free_bitmap h AND NOT (2 ^ l) else free_bitmap h)"
  define h' where "h' = (store (store h2 (fprev_at b) 0) (fnext_at b) 0)\<lparr>freelist := (freelist h)[l := hd], free_bitmap := bm\<rparr>"
  have n1: "word_at h1 (fnext_at b) = n" "word_at h1 (fprev_at b) = p" "word_at h2 (fnext_at b) = n"
    using bB F pn nn by (auto simp: h1_def h2_def n_def p_def store_def at_fld at subset_eq)
  have fl: "freelist h2 = freelist h" "free_bitmap h2 = free_bitmap h" by (auto simp: h1_def h2_def store_def)
  have c2: "(if p \<noteq> 0 then store h1 (fnext_at p) (word_at h1 (fnext_at b)) else h1) = h2" by (simp add: h2_def n1)
  have h': "k_mm_freelist_delete h b = h'"
  proof -
    have "\<not> (size_to_level (MM_GET_BUF_SIZE h b) < 0 \<or> int MM_BIT_LEVEL \<le> size_to_level (MM_GET_BUF_SIZE h b))"
      "nat (size_to_level (MM_GET_BUF_SIZE h b)) = l" using lv l16 by auto
    then show ?thesis
      unfolding k_mm_freelist_delete_def Let_def n_def [symmetric] p_def [symmetric] h1_def [symmetric] n1(2) c2 n1(3)
      using l16 len fl by (auto simp: h'_def hd_def bm_def store_def a_def list_update_same_conv)
  qed
  have fp: "fprevs h' x = (if n \<noteq> 0 then (fprevs h)(n := p) else fprevs h) x" if "x \<in> B" "x \<noteq> b" for x
    using that F bB pn nn by (auto simp: h'_def h2_def h1_def store_def at_fld at subset_eq)
  have fn: "fnexts h' x = (if p \<noteq> 0 then (fnexts h)(p := n) else fnexts h) x" if "x \<in> B" "x \<noteq> b" for x
    using that F bB pn nn by (auto simp: h'_def h2_def h1_def store_def at_fld at subset_eq)
  have bs: "MM_GET_BUF_SIZE h' x = MM_GET_BUF_SIZE h x" if "x \<in> B" for x
    using that F bB pn nn by (auto simp: MM_GET_BUF_SIZE_def h'_def h2_def h1_def store_def at_fld at subset_eq)
  show "links_only h (k_mm_freelist_delete h b) F"
    unfolding h' links_only_def using F(2) pn(1) nn(1) by (auto simp: h'_def h2_def h1_def store_def)
  show "freelists (k_mm_freelist_delete h b) (F - {b})"
    unfolding h' freelists_def
  proof (intro conjI allI impI)
    show "length (freelist h') = MM_BIT_LEVEL" using len by (simp add: h'_def)
    show "\<not> bit (free_bitmap h') k" if "MM_BIT_LEVEL \<le> k" for k
      using f that by (simp add: freelists_def h'_def bm_def bit_clear_level)
    fix k assume k: "k < MM_BIT_LEVEL"
    have lev: "{x \<in> F - {b}. level (MM_GET_BUF_SIZE h' x) = k} = {x \<in> F. level (MM_GET_BUF_SIZE h x) = k} - {b}"
      using bs F by auto
    show "\<exists>xs. dlist (fprevs h') (fnexts h') (freelist h' ! k) xs \<and> distinct xs \<and>
        set xs = {x \<in> F - {b}. level (MM_GET_BUF_SIZE h' x) = k} \<and> bit (free_bitmap h') k = (xs \<noteq> [])"
    proof (cases "k = l")
      case True
      have "dlist (fprevs h') (fnexts h') hd (us @ vs)"
        unfolding hd_def by (rule iffD2 [OF dlist_cong r(1)]) (rule fp fn; use F uvF in auto)+
      moreover have "set (us @ vs) = set xs - {b}" using uv uvF(3,4) by auto
      then have "set (us @ vs) = {x \<in> F - {b}. level (MM_GET_BUF_SIZE h' x) = k}" unfolding xs(3) True [symmetric] lev .
      moreover have "a = b \<and> n = 0 \<longleftrightarrow> us @ vs = []"
        using r(3,4) dlist_nonzero [OF d(2)] by (auto split: list.splits)
      ultimately show ?thesis using True d(1) len l16 k xs(4) uv
        by (intro exI [of _ "us @ vs"]) (auto simp: h'_def bm_def bit_clear_level)
    next
      case False
      obtain ys where ys: "dlist (fprevs h) (fnexts h) (freelist h ! k) ys" "distinct ys"
        "set ys = {x \<in> F. level (MM_GET_BUF_SIZE h x) = k}" "bit (free_bitmap h) k = (ys \<noteq> [])"
        by (rule freelists_level [OF f k])
      have yl: "x \<in> B" "x \<noteq> b" "x \<notin> set xs" if "x \<in> set ys" for x
        using that ys(3) xs(3) F False by (auto simp: l_def)
      have "x \<noteq> n" "x \<noteq> p" if "x \<in> set ys" for x
        using yl [OF that] uv nF pF dlist_nonzero [OF ys(1)] that by auto
      then have "dlist (fprevs h') (fnexts h') (freelist h ! k) ys"
        by (intro iffD2 [OF dlist_cong ys(1)]) (use fp yl in simp, use fn yl in simp)
      moreover have "set ys = set ys - {b}" using yl(2) by auto
      then have "set ys = {x \<in> F - {b}. level (MM_GET_BUF_SIZE h' x) = k}" unfolding lev ys(3) .
      ultimately show ?thesis using ys(2,4) False
        by (intro exI [of _ ys]) (auto simp: h'_def bm_def bit_clear_level)
    qed
  qed
qed

end
