(* ===== verification/Mm_Heap.thy ===== *)
theory Mm_Heap
  imports Mm_Lists
begin

text \<open>
  The invariant of the heap, \<open>heap_ok\<close>: the tags of the blocks agree with where the blocks lie, the free lists
  hold exactly the free blocks, the dyes tell which are free. What allocation and release do: they
  keep it, change no byte of a buffer that is in use, and hand out what was free.
\<close>

section \<open>The invariant\<close>

abbreviation prevs :: "heap \<Rightarrow> u32 \<Rightarrow> u32" where "prevs h b \<equiv> word_at h (prev_at b)"
abbreviation dyes :: "heap \<Rightarrow> u32 \<Rightarrow> u32" where "dyes h b \<equiv> word_at h (dye_at b)"

abbreviation tags_ok :: "heap \<Rightarrow> u32 set \<Rightarrow> u32 set \<Rightarrow> bool" where
  "tags_ok h B E \<equiv> tagged B E (MM_GET_BUF_SIZE h) (is_free h) (prev_is_free h) (prevs h)"

definition free_blocks :: "heap \<Rightarrow> u32 set \<Rightarrow> u32 set" where
  "free_blocks h B = {b \<in> B. is_free h b}"

definition used_blocks :: "heap \<Rightarrow> u32 set \<Rightarrow> u32 set" where
  "used_blocks h B = {b \<in> B. \<not> is_free h b}"

definition dyed :: "heap \<Rightarrow> u32 set \<Rightarrow> u32 set \<Rightarrow> bool" where
  "dyed h B E \<longleftrightarrow> (\<forall>b \<in> B \<union> E. dyes h b = (if is_free h b then RHINO_MM_FREE_DYE else RHINO_MM_CORRUPT_DYE))"

definition heap_ok :: "heap \<Rightarrow> u32 set \<Rightarrow> u32 set \<Rightarrow> bool" where
  "heap_ok h B E \<longleftrightarrow> tags_ok h B E \<and> freelists h (free_blocks h B) \<and> dyed h B E \<and> bounded B E"

text \<open>No byte of the buffers of the blocks \<open>U\<close> changes, nor the size of one.\<close>

definition keeps :: "heap \<Rightarrow> heap \<Rightarrow> u32 set \<Rightarrow> bool" where
  "keeps h h' U \<longleftrightarrow> (\<forall>b \<in> U. MM_GET_BUF_SIZE h' b = MM_GET_BUF_SIZE h b \<and>
     (\<forall>i. 16 \<le> i \<and> i < 16 + unat (MM_GET_BUF_SIZE h b) \<longrightarrow> word_at h' (fld b i) = word_at h (fld b i)))"

lemma keeps_refl: "keeps h h U"
  by (simp add: keeps_def)

lemma keeps_trans: "keeps h h1 U \<Longrightarrow> keeps h1 h2 U \<Longrightarrow> keeps h h2 U"
  by (simp add: keeps_def)

lemma keeps_subset: "keeps h h' U \<Longrightarrow> V \<subseteq> U \<Longrightarrow> keeps h h' V"
  by (auto simp: keeps_def)

text \<open>A size word and what it says.\<close>

lemma size_word:
  assumes "word_at h' (fld x 12) = w"
  shows "MM_GET_BUF_SIZE h' x = w AND NOT 7" "is_free h' x \<longleftrightarrow> w AND 1 \<noteq> 0" "prev_is_free h' x \<longleftrightarrow> w AND 2 \<noteq> 0"
  using assms by (simp_all add: MM_GET_BUF_SIZE_def is_free_def prev_is_free_def at_fld mm_consts)

lemma same_tags:
  assumes "\<And>i. i < 16 \<Longrightarrow> word_at h' (fld x i) = word_at h (fld x i)"
  shows "MM_GET_BUF_SIZE h' x = MM_GET_BUF_SIZE h x" "is_free h' x = is_free h x" "prev_is_free h' x = prev_is_free h x"
    "prevs h' x = prevs h x" "dyes h' x = dyes h x"
  using assms by (simp_all add: MM_GET_BUF_SIZE_def is_free_def prev_is_free_def at_fld)

lemma next_blk: "MM_GET_NEXT_BLK h b = succ (MM_GET_BUF_SIZE h) b"
  by (simp add: MM_GET_NEXT_BLK_def succ_def buf_of_def)

lemma head_size: "MMLIST_HEAD_SIZE = 16"
  by (simp add: MMLIST_HEAD_SIZE_def MM_ALIGN_UP_def MM_ALIGN_MASK_def)

lemma buf_size_aligned: "aligned (MM_GET_BUF_SIZE h b)"
  unfolding MM_GET_BUF_SIZE_def MM_ALIGN_MASK_def by (rule aligned_buf)

text \<open>The lists while links change and nothing else of interest.\<close>

lemma links_only_same:
  assumes l: "links_only h h' F" and t: "tiled B E (MM_GET_BUF_SIZE h)" "F \<subseteq> B" and c: "c \<in> B \<union> E"
  shows "MM_GET_BUF_SIZE h' c = MM_GET_BUF_SIZE h c" "is_free h' c = is_free h c" "prev_is_free h' c = prev_is_free h c"
    "prevs h' c = prevs h c" "dyes h' c = dyes h c"
  by (rule same_tags; rule links_only_tags [OF l t c]; simp)+

lemma links_only_keeps:
  assumes l: "links_only h h' F" and t: "tiled B E (MM_GET_BUF_SIZE h)" "F \<subseteq> B" and U: "U \<subseteq> B - F"
  shows "keeps h h' U"
  unfolding keeps_def
proof (intro ballI conjI allI impI)
  fix b assume b: "b \<in> U"
  then show "MM_GET_BUF_SIZE h' b = MM_GET_BUF_SIZE h b" using links_only_same(1) [OF l t] U by blast
  fix i assume "16 \<le> i \<and> i < 16 + unat (MM_GET_BUF_SIZE h b)"
  then show "word_at h' (fld b i) = word_at h (fld b i)" using b U by (intro links_only_tags [OF l t]) auto
qed

section \<open>Splitting a block\<close>

lemma split_block_effect:
  assumes t: "tiled B E (MM_GET_BUF_SIZE h)" "b \<in> B"
    and s: "aligned s" "8 \<le> unat s" and r: "aligned r" "8 \<le> unat r"
    and sz: "unat (MM_GET_BUF_SIZE h b) = unat s + 16 + unat r"
    and nx: "nx = succ (MM_GET_BUF_SIZE h) b" and sp: "split_block h b s r nx = (n, h')"
  shows "n = b + 16 + s" "n \<notin> B" "n \<notin> E" "tiled (insert n B) E (MM_GET_BUF_SIZE h')"
    "x \<in> insert n B \<union> E \<Longrightarrow> MM_GET_BUF_SIZE h' x = ((MM_GET_BUF_SIZE h)(b := s, n := r)) x"
    "x \<in> insert n B \<union> E \<Longrightarrow> is_free h' x = ((is_free h)(b := False, n := True)) x"
    "x \<in> insert n B \<union> E \<Longrightarrow> prev_is_free h' x = ((prev_is_free h)(n := False)) x"
    "x \<in> insert n B \<union> E \<Longrightarrow> prevs h' x = ((prevs h)(n := b, nx := n)) x"
    "x \<in> insert n B \<union> E \<Longrightarrow> dyes h' x = ((dyes h)(n := RHINO_MM_FREE_DYE)) x"
    "x \<in> B \<Longrightarrow> 16 \<le> i \<Longrightarrow> i < 16 + unat (MM_GET_BUF_SIZE h' x) \<Longrightarrow> word_at h' (fld x i) = word_at h (fld x i)"
    "words_only h h'"
proof -
  define n' where "n' = b + 16 + s"
  define w where "w = s OR (word_at h (size_at b) AND 2)"
  note nf = new_flags(1-3) [OF s(1)]
  have wb: "w AND NOT 7 = s" unfolding w_def by (rule nf)
  have "MM_GET_NEXT_BLK (store h (size_at b) w) b = n'"
    using wb by (simp add: MM_GET_NEXT_BLK_def MM_GET_BUF_SIZE_def store_def n'_def buf_of_def mm_consts)
  then have h': "n = n'" "h' = store (store (store (store (store (store h (size_at b) w) (prev_at n') b)
      (size_at n') (r OR 1)) (dye_at n') RHINO_MM_FREE_DYE) (owner_at n') 0) (prev_at nx) n'"
    using sp by (auto simp: split_block_def Let_def w_def mm_consts)
  then show n: "n = b + 16 + s" by (simp add: n'_def)
  note ts = tiled_split [OF t s r sz n]
  show nB: "n \<notin> B" "n \<notin> E" by (rule ts)+
  have nb: "n \<noteq> b" using nB t(2) by auto
  have nxB: "nx \<in> B \<union> E" "nx \<noteq> n" "nx \<noteq> b" using tiled_block(5) [OF t] nB tiled_succ_neq [OF t] by (auto simp: nx)
  let ?sz = "(MM_GET_BUF_SIZE h)(b := s, n := r)"
  have at: "fld x i = fld y j \<longleftrightarrow> x = y \<and> i = j"
    if "x \<in> insert n B \<union> E" "y \<in> insert n B \<union> E" "i < 16 \<or> x \<in> insert n B \<and> i < 16 + unat (?sz x)" "j < 16" for x y i j
    using that by (intro fld_eq [OF ts(1)]) auto
  have bB: "b \<in> insert n B \<union> E" "n \<in> insert n B \<union> E" "nx \<in> insert n B \<union> E" using t(2) nxB by auto
  have word: "word_at h' (fld x i) =
      (if x = nx \<and> i = 8 then n else if x = n \<and> i = 4 then 0 else if x = n \<and> i = 0 then RHINO_MM_FREE_DYE
       else if x = n \<and> i = 12 then r OR 1 else if x = n \<and> i = 8 then b else if x = b \<and> i = 12 then w else word_at h (fld x i))"
    if "x \<in> insert n B \<union> E" "i < 16 \<or> x \<in> insert n B \<and> i < 16 + unat (?sz x)" for x i
  proof -
    note e = at [OF that(1) _ that(2)]
    have "fld x i = fld b 12 \<longleftrightarrow> x = b \<and> i = 12" "fld x i = fld n 8 \<longleftrightarrow> x = n \<and> i = 8" "fld x i = fld n 12 \<longleftrightarrow> x = n \<and> i = 12"
      "fld x i = fld n 0 \<longleftrightarrow> x = n \<and> i = 0" "fld x i = fld n 4 \<longleftrightarrow> x = n \<and> i = 4" "fld x i = fld nx 8 \<longleftrightarrow> x = nx \<and> i = 8"
      by (rule e; use bB in simp)+
    then show ?thesis unfolding h'(2) h'(1) [symmetric] at_fld by (simp only: word_at_store)
  qed
  have sizes: "MM_GET_BUF_SIZE h' x = ?sz x" "is_free h' x = ((is_free h)(b := False, n := True)) x"
      "prev_is_free h' x = ((prev_is_free h)(n := False)) x" if x: "x \<in> insert n B \<union> E" for x
  proof -
    have w12: "word_at h' (fld x 12) = (if x = b then w else if x = n then r OR 1 else word_at h (fld x 12))"
      using word [OF x, of 12] nb by auto
    note old = size_word [OF refl, of h]
    show "MM_GET_BUF_SIZE h' x = ?sz x" "is_free h' x = ((is_free h)(b := False, n := True)) x"
      "prev_is_free h' x = ((prev_is_free h)(n := False)) x"
      using wb nf new_flags(4-6) [OF r(1)] nb
      unfolding size_word [OF w12] by (auto simp: old w_def at_fld)
  qed
  show "x \<in> insert n B \<union> E \<Longrightarrow> MM_GET_BUF_SIZE h' x = ?sz x" for x by (rule sizes)
  show "x \<in> insert n B \<union> E \<Longrightarrow> is_free h' x = ((is_free h)(b := False, n := True)) x" for x by (rule sizes)
  show "x \<in> insert n B \<union> E \<Longrightarrow> prev_is_free h' x = ((prev_is_free h)(n := False)) x" for x by (rule sizes)
  show "x \<in> insert n B \<union> E \<Longrightarrow> prevs h' x = ((prevs h)(n := b, nx := n)) x"
    using word [of x 8] nxB(2) by (auto simp: at_fld)
  show "x \<in> insert n B \<union> E \<Longrightarrow> dyes h' x = ((dyes h)(n := RHINO_MM_FREE_DYE)) x"
    using word [of x 0] by (auto simp: at_fld)
  show "tiled (insert n B) E (MM_GET_BUF_SIZE h')" by (rule iffD2 [OF tiled_cong ts(1)]) (rule sizes, blast)
  show "x \<in> B \<Longrightarrow> 16 \<le> i \<Longrightarrow> i < 16 + unat (MM_GET_BUF_SIZE h' x) \<Longrightarrow> word_at h' (fld x i) = word_at h (fld x i)"
    using word [of x i] sizes(1) [of x] by auto
  show "words_only h h'" unfolding h'(2) by simp
qed

section \<open>Statistics\<close>

text \<open>What an operation on blocks leaves alone, and what the statistics do.\<close>

definition core_frame :: "heap \<Rightarrow> heap \<Rightarrow> bool" where
  "core_frame h h' \<longleftrightarrow> pool h' = pool h \<and> fix_pool h' = fix_pool h \<and> mm_traps h' = mm_traps h \<and> regioninfo h' = regioninfo h \<and>
     dumped h' = dumped h \<and> reallocdumped h' = reallocdumped h"

definition same_blocks :: "heap \<Rightarrow> heap \<Rightarrow> bool" where
  "same_blocks h h' \<longleftrightarrow> word_at h' = word_at h \<and> freelist h' = freelist h \<and> free_bitmap h' = free_bitmap h"

lemma core_frame_refl [simp]: "core_frame h h"
  by (simp add: core_frame_def)

lemma core_frame_trans: "core_frame h h1 \<Longrightarrow> core_frame h1 h2 \<Longrightarrow> core_frame h h2"
  by (simp add: core_frame_def)

lemma core_frame_store [simp]: "core_frame h (store h' a v) = core_frame h h'"
  by (simp add: core_frame_def)

lemma core_frame_links: "links_only h h' F \<Longrightarrow> core_frame h h'"
  by (simp add: core_frame_def links_only_frame)

lemma core_frame_words: "words_only h h' \<Longrightarrow> core_frame h h'"
  by (cases h; cases h') (simp add: words_only_def core_frame_def)

lemma stats_frame [simp]:
  "core_frame h (addsize h' sz r) = core_frame h h'" "core_frame h (removesize h' sz) = core_frame h h'"
  "word_at (addsize h' sz r) = word_at h'" "word_at (removesize h' sz) = word_at h'"
  "freelist (addsize h' sz r) = freelist h'" "freelist (removesize h' sz) = freelist h'"
  "free_bitmap (addsize h' sz r) = free_bitmap h'" "free_bitmap (removesize h' sz) = free_bitmap h'"
  "pool (addsize h' sz r) = pool h'" "pool (removesize h' sz) = pool h'"
  "fix_pool (addsize h' sz r) = fix_pool h'" "fix_pool (removesize h' sz) = fix_pool h'"
  by (simp_all add: core_frame_def addsize_def removesize_def Let_def)

lemma same_blocks_ok:
  assumes "same_blocks h h'"
  shows "heap_ok h' B E = heap_ok h B E" "used_blocks h' B = used_blocks h B" "free_blocks h' B = free_blocks h B"
    "keeps g h' U = keeps g h U" "MM_GET_BUF_SIZE h' = MM_GET_BUF_SIZE h" "is_free h' = is_free h"
proof -
  have w: "word_at h' = word_at h" "freelist h' = freelist h" "free_bitmap h' = free_bitmap h"
    using assms by (simp_all add: same_blocks_def)
  have e: "MM_GET_BUF_SIZE h' = MM_GET_BUF_SIZE h" "is_free h' = is_free h" "prev_is_free h' = prev_is_free h"
    by (simp_all add: fun_eq_iff MM_GET_BUF_SIZE_def is_free_def prev_is_free_def w)
  show "MM_GET_BUF_SIZE h' = MM_GET_BUF_SIZE h" "is_free h' = is_free h" by (rule e)+
  show "used_blocks h' B = used_blocks h B" "free_blocks h' B = free_blocks h B" by (simp_all add: used_blocks_def free_blocks_def e)
  then show "heap_ok h' B E = heap_ok h B E" by (simp add: heap_ok_def freelists_def dyed_def e w)
  show "keeps g h' U = keeps g h U" by (simp add: keeps_def e w)
qed

lemma same_blocks_stats [simp]: "same_blocks h (addsize h sz r)" "same_blocks h (removesize h sz)"
  by (simp_all add: same_blocks_def)

section \<open>Taking a free block\<close>

lemma heap_ok_parts:
  assumes "heap_ok h B E"
  shows "tags_ok h B E" "tiled B E (MM_GET_BUF_SIZE h)" "freelists h (free_blocks h B)" "dyed h B E" "bounded B E"
  using assms by (auto simp: heap_ok_def tagged_def)

text \<open>The tags of a heap are those of \<open>tagged B E sz fr pf pv\<close>, and the lists have been kept up to date.\<close>

lemma heap_okI:
  assumes "tagged B E sz fr pf pv" "freelists h {b \<in> B. fr b}" and bd: "bounded B E"
    and "\<And>x. x \<in> B \<union> E \<Longrightarrow> MM_GET_BUF_SIZE h x = sz x" "\<And>x. x \<in> B \<union> E \<Longrightarrow> is_free h x = fr x"
    and "\<And>x. x \<in> B \<union> E \<Longrightarrow> prev_is_free h x = pf x" "\<And>x. x \<in> B \<union> E \<Longrightarrow> prevs h x = pv x"
    and "\<And>x. x \<in> B \<union> E \<Longrightarrow> dyes h x = (if fr x then RHINO_MM_FREE_DYE else RHINO_MM_CORRUPT_DYE)"
  shows "heap_ok h B E"
proof -
  have "free_blocks h B = {b \<in> B. fr b}" using assms(5) by (auto simp: free_blocks_def)
  moreover have "tags_ok h B E"
    using tiled_block(5) [OF tagged_tiled [OF assms(1)]] by (intro tagged_cong [OF assms(1)]) (auto simp: assms)
  ultimately show ?thesis using assms(2,5,8) bd by (simp add: heap_ok_def dyed_def)
qed

lemma take_whole:
  assumes ok: "heap_ok h B E" and b: "b \<in> free_blocks h B" and h1: "h1 = k_mm_freelist_delete h b"
    and nx: "nx = succ (MM_GET_BUF_SIZE h) b"
    and h2: "h2 = store h1 (size_at nx) (word_at h1 (size_at nx) AND NOT RHINO_MM_PREVFREE)"
    and h3: "h3 = store h2 (size_at b) (word_at h2 (size_at b) AND NOT RHINO_MM_FREE)"
    and h4: "h4 = store (store h3 (dye_at b) RHINO_MM_CORRUPT_DYE) (owner_at b) 0"
  shows "heap_ok h4 B E" "used_blocks h4 B = insert b (used_blocks h B)" "keeps h h4 (used_blocks h B)" "core_frame h h4"
    "MM_GET_BUF_SIZE h4 b = MM_GET_BUF_SIZE h b"
proof -
  note ok' = heap_ok_parts [OF ok]
  have bB: "b \<in> B" "is_free h b" using b by (auto simp: free_blocks_def)
  note tf = tagged_free [OF ok'(1) bB]
  have FB: "free_blocks h B \<subseteq> B" by (auto simp: free_blocks_def)
  note d = freelist_delete [OF ok'(2) FB b ok'(3) tf(5), folded h1]
  have nxB: "nx \<in> B \<union> E" "nx \<noteq> b" using tiled_block(5) [OF ok'(2) bB(1)] tiled_succ_neq [OF ok'(2) bB(1)] by (auto simp: nx)
  have bBE: "b \<in> B \<union> E" using bB by blast
  note lt = links_only_tags [OF d(2) ok'(2) FB]
  have w1: "word_at h1 (fld b 12) = word_at h (fld b 12)" "word_at h1 (fld nx 12) = word_at h (fld nx 12)"
    using lt [OF bBE] lt [OF nxB(1)] by simp_all
  have word: "word_at h4 (fld x i) = (if x = b \<and> i = 4 then 0 else if x = b \<and> i = 0 then RHINO_MM_CORRUPT_DYE
      else if x = b \<and> i = 12 then word_at h (fld b 12) AND NOT 1 else if x = nx \<and> i = 12 then word_at h (fld nx 12) AND NOT 2
      else word_at h1 (fld x i))"
    if x: "x \<in> B \<union> E" "i < 16 \<or> x \<in> B \<and> i < 16 + unat (MM_GET_BUF_SIZE h x)" for x i
  proof -
    have "fld x i = fld b 0 \<longleftrightarrow> x = b \<and> i = 0" "fld x i = fld b 4 \<longleftrightarrow> x = b \<and> i = 4" "fld x i = fld b 12 \<longleftrightarrow> x = b \<and> i = 12"
      "fld x i = fld nx 12 \<longleftrightarrow> x = nx \<and> i = 12" "fld b 12 = fld nx 12 \<longleftrightarrow> b = nx \<and> (12 :: nat) = 12"
      by (rule fld_eq [OF ok'(2)]; use x bBE nxB in simp)+
    then show ?thesis using nxB(2) w1 unfolding h4 h3 h2 at_fld mm_consts by (simp only: word_at_store simp_thms if_False eq_commute)
  qed
  have tag: "MM_GET_BUF_SIZE h4 x = MM_GET_BUF_SIZE h x" "is_free h4 x = ((is_free h)(b := False)) x"
      "prev_is_free h4 x = ((prev_is_free h)(nx := False)) x" "prevs h4 x = prevs h x"
      "dyes h4 x = ((dyes h)(b := RHINO_MM_CORRUPT_DYE)) x" if x: "x \<in> B \<union> E" for x
  proof -
    have w12: "word_at h4 (fld x 12) = (if x = b then word_at h (fld b 12) AND NOT 1
        else if x = nx then word_at h (fld nx 12) AND NOT 2 else word_at h (fld x 12))"
      using word [OF x, of 12] lt [OF x, of 12] by auto
    note old = size_word [OF refl, of h]
    show "MM_GET_BUF_SIZE h4 x = MM_GET_BUF_SIZE h x" "is_free h4 x = ((is_free h)(b := False)) x"
      "prev_is_free h4 x = ((prev_is_free h)(nx := False)) x"
      using nxB(2) unfolding size_word [OF w12] by (auto simp: old flags_simp)
    show "prevs h4 x = prevs h x" "dyes h4 x = ((dyes h)(b := RHINO_MM_CORRUPT_DYE)) x"
      using word [OF x, of 8] word [OF x, of 0] lt [OF x, of 8] lt [OF x, of 0] by (auto simp: at_fld)
  qed
  have F: "{x \<in> B. ((is_free h)(b := False)) x} = free_blocks h B - {b}" by (auto simp: free_blocks_def)
  have "freelists h4 (free_blocks h B - {b})"
  proof (rule freelists_cong [OF d(1)])
    show "freelist h4 = freelist h1" "free_bitmap h4 = free_bitmap h1" by (simp_all add: h4 h3 h2)
    fix x assume x: "x \<in> free_blocks h B - {b}"
    then have xB: "x \<in> B" "x \<in> B \<union> E" "8 \<le> unat (MM_GET_BUF_SIZE h x)" using FB tiled_block(3) [OF ok'(2)] by auto
    show "fprevs h4 x = fprevs h1 x \<and> fnexts h4 x = fnexts h1 x \<and> MM_GET_BUF_SIZE h4 x = MM_GET_BUF_SIZE h1 x"
      using word [OF xB(2), of 16] word [OF xB(2), of 20] xB x tag(1) [OF xB(2)] links_only_same(1) [OF d(2) ok'(2) FB xB(2)]
      by (simp add: at_fld)
  qed
  then show "heap_ok h4 B E"
    using heap_okI [OF tagged_take [OF ok'(1) bB], of h4, unfolded F nx [symmetric]] tag ok'(4,5) by (auto simp: dyed_def)
  show "used_blocks h4 B = insert b (used_blocks h B)" using tag(2) bB by (auto simp: used_blocks_def split: if_splits)
  show "MM_GET_BUF_SIZE h4 b = MM_GET_BUF_SIZE h b" using tag(1) bBE by blast
  show "core_frame h h4" using core_frame_links [OF d(2)] by (simp add: h4 h3 h2)
  show "keeps h h4 (used_blocks h B)"
    unfolding keeps_def
  proof (intro ballI conjI allI impI)
    fix x i assume x: "x \<in> used_blocks h B"
    then have xB: "x \<in> B \<union> E" "x \<in> B - free_blocks h B" by (auto simp: used_blocks_def free_blocks_def)
    show "MM_GET_BUF_SIZE h4 x = MM_GET_BUF_SIZE h x" using tag(1) xB by blast
    assume i: "16 \<le> i \<and> i < 16 + unat (MM_GET_BUF_SIZE h x)"
    then show "word_at h4 (fld x i) = word_at h (fld x i)" using word [OF xB(1), of i] lt [OF xB(1), of i] xB(2) by auto
  qed
qed

lemma store_same: "word_at h a = v \<Longrightarrow> store (h :: heap) a v = h"
  by (simp add: store_def fun_upd_idem)

text \<open>The dye of a block in use is restored.\<close>

lemma redye:
  assumes t: "tags_ok h B E" and f: "freelists h (free_blocks h B)" and d: "dyed h (B - {b}) E" and b: "b \<in> used_blocks h B" and bd: "bounded B E"
    and h': "h' = store (store h (dye_at b) RHINO_MM_CORRUPT_DYE) (owner_at b) o'"
  shows "heap_ok h' B E" "used_blocks h' B = used_blocks h B" "keeps h h' B" "core_frame h h'" "MM_GET_BUF_SIZE h' b = MM_GET_BUF_SIZE h b"
proof -
  note ti = tagged_tiled [OF t]
  have bB: "b \<in> B" "b \<in> B \<union> E" "\<not> is_free h b" using b by (auto simp: used_blocks_def)
  have word: "word_at h' (fld x i) = (if x = b \<and> i = 4 then o' else if x = b \<and> i = 0 then RHINO_MM_CORRUPT_DYE else word_at h (fld x i))"
    if x: "x \<in> B \<union> E" "i < 16 \<or> x \<in> B \<and> i < 16 + unat (MM_GET_BUF_SIZE h x)" for x i
  proof -
    have "fld x i = fld b 0 \<longleftrightarrow> x = b \<and> i = 0" "fld x i = fld b 4 \<longleftrightarrow> x = b \<and> i = 4"
      by (rule fld_eq [OF ti]; use x bB in simp)+
    then show ?thesis unfolding h' at_fld by (simp only: word_at_store)
  qed
  have tag: "MM_GET_BUF_SIZE h' x = MM_GET_BUF_SIZE h x" "is_free h' x = is_free h x" "prev_is_free h' x = prev_is_free h x"
    "prevs h' x = prevs h x" "dyes h' x = (if x = b then RHINO_MM_CORRUPT_DYE else dyes h x)" if x: "x \<in> B \<union> E" for x
    using word [OF x, of 12] word [OF x, of 8] word [OF x, of 0]
    by (simp_all add: MM_GET_BUF_SIZE_def is_free_def prev_is_free_def at_fld)
  have "freelists h' {x \<in> B. is_free h x}"
  proof (rule freelists_cong [OF f [unfolded free_blocks_def]])
    show "freelist h' = freelist h" "free_bitmap h' = free_bitmap h" by (simp_all add: h')
    fix x assume "x \<in> {x \<in> B. is_free h x}"
    then have x: "x \<in> B" "x \<in> B \<union> E" "8 \<le> unat (MM_GET_BUF_SIZE h x)" using tiled_block(3) [OF ti] by auto
    then show "fprevs h' x = fprevs h x \<and> fnexts h' x = fnexts h x \<and> MM_GET_BUF_SIZE h' x = MM_GET_BUF_SIZE h x"
      using word [OF x(2), of 16] word [OF x(2), of 20] tag(1) [OF x(2)] by (simp add: at_fld)
  qed
  then show "heap_ok h' B E"
    by (rule heap_okI [OF t]; use tag d bB bd in \<open>auto simp: dyed_def\<close>)
  show "used_blocks h' B = used_blocks h B" using tag(2) by (auto simp: used_blocks_def)
  show "keeps h h' B" using word tag(1) by (auto simp: keeps_def)
  show "core_frame h h'" by (simp add: h')
  show "MM_GET_BUF_SIZE h' b = MM_GET_BUF_SIZE h b" using tag(1) bB by blast
qed

text \<open>The block \<open>b\<close>, about to be in use, keeps \<open>s\<close> bytes; the rest becomes a free block behind it.\<close>

lemma split_off:
  assumes t: "tagged B E (MM_GET_BUF_SIZE h) ((is_free h)(b := False)) ((prev_is_free h)(nx := False)) (prevs h)" "b \<in> B"
    and nx: "nx = succ (MM_GET_BUF_SIZE h) b" "\<not> is_free h nx"
    and f: "freelists h (free_blocks h B - {b})" and d: "dyed h (B - {b}) E"
    and s: "aligned s" "8 \<le> unat s" and r: "aligned r" "32 \<le> unat r" "unat r < 2 ^ 20"
    and sz: "unat (MM_GET_BUF_SIZE h b) = unat s + 16 + unat r" and sp: "split_block h b s r nx = (n, h1)"
    and h2: "h2 = store h1 (size_at nx) (word_at h1 (size_at nx) OR RHINO_MM_PREVFREE)" and h3: "h3 = k_mm_freelist_insert h2 n"
  shows "tags_ok h3 (insert n B) E" "freelists h3 (free_blocks h3 (insert n B))" "dyed h3 (insert n B - {b}) E"
    "used_blocks h3 (insert n B) = insert b (used_blocks h B)" "MM_GET_BUF_SIZE h3 b = s" "dyes h3 b = dyes h b"
    "keeps h h3 (used_blocks h B - {b})" "core_frame h h3" "n \<notin> B"
    "16 \<le> i \<Longrightarrow> i < 16 + unat s \<Longrightarrow> word_at h3 (fld b i) = word_at h (fld b i)"
proof -
  note ti = tagged_tiled [OF t(1)]
  have r8: "8 \<le> unat r" using r(2) by simp
  note e = split_block_effect [OF ti t(2) s r(1) r8 sz nx(1) sp]
  have nb: "n \<noteq> b" using e(2) t(2) by auto
  have nxB: "nx \<in> B \<union> E" "nx \<noteq> n" "nx \<noteq> b" using tiled_block(5) [OF ti t(2)] e(2,3) tiled_succ_neq [OF ti t(2)] by (auto simp: nx)
  let ?B = "insert n B" and ?sz = "(MM_GET_BUF_SIZE h)(b := s, n := r)"
  have word: "word_at h2 (fld x i) = (if x = nx \<and> i = 12 then word_at h1 (fld nx 12) OR 2 else word_at h1 (fld x i))"
    if x: "x \<in> ?B \<union> E" "i < 16 \<or> x \<in> ?B \<and> i < 16 + unat (MM_GET_BUF_SIZE h1 x)" for x i
  proof -
    have "fld x i = fld nx 12 \<longleftrightarrow> x = nx \<and> i = 12" by (rule fld_eq [OF e(4)]; use x nxB in simp)
    then show ?thesis unfolding h2 at_fld mm_consts by (simp only: word_at_store)
  qed
  have tag2: "MM_GET_BUF_SIZE h2 x = ?sz x" "is_free h2 x = ((is_free h)(b := False, n := True)) x"
      "prev_is_free h2 x = ((prev_is_free h)(n := False, nx := True)) x" "prevs h2 x = ((prevs h)(n := b, nx := n)) x"
      "dyes h2 x = ((dyes h)(n := RHINO_MM_FREE_DYE)) x" if x: "x \<in> ?B \<union> E" for x
  proof -
    have w12: "word_at h2 (fld x 12) = (if x = nx then word_at h1 (fld nx 12) OR 2 else word_at h1 (fld x 12))"
      using word [OF x, of 12] by simp
    have old: "word_at h1 (fld y 12) AND NOT 7 = MM_GET_BUF_SIZE h1 y" "(word_at h1 (fld y 12) AND 1 \<noteq> 0) = is_free h1 y"
      "(word_at h1 (fld y 12) AND 2 \<noteq> 0) = prev_is_free h1 y" for y
      by (rule size_word [OF refl, symmetric])+
    have "MM_GET_BUF_SIZE h2 x = MM_GET_BUF_SIZE h1 x" "is_free h2 x = is_free h1 x" "prev_is_free h2 x = (x = nx \<or> prev_is_free h1 x)"
      unfolding size_word [OF w12] old [symmetric] by (auto simp: flags_simp)
    then show "MM_GET_BUF_SIZE h2 x = ?sz x" "is_free h2 x = ((is_free h)(b := False, n := True)) x"
      "prev_is_free h2 x = ((prev_is_free h)(n := False, nx := True)) x"
      using e(5-7) [OF x] nxB(2) by auto
    show "prevs h2 x = ((prevs h)(n := b, nx := n)) x" "dyes h2 x = ((dyes h)(n := RHINO_MM_FREE_DYE)) x"
      using word [OF x, of 8] word [OF x, of 0] e(8,9) [OF x] by (auto simp: at_fld)
  qed
  have t2: "tiled ?B E (MM_GET_BUF_SIZE h2)"
    by (rule iffD2 [OF tiled_cong tagged_tiled [OF tagged_split [OF t(1,2) _ _ s r sz e(1)]]])
      (use tag2(1) nx nxB in auto)
  have F: "free_blocks h B - {b} \<subseteq> ?B" "n \<notin> free_blocks h B - {b}" using e(2) by (auto simp: free_blocks_def)
  have "freelists h2 (free_blocks h B - {b})"
  proof (rule freelists_cong [OF f])
    have "core_frame h h1" "freelist h1 = freelist h" "free_bitmap h1 = free_bitmap h" using words_only_frame [OF e(11)] by (simp_all add: core_frame_def core_frame_words [OF e(11), unfolded core_frame_def])
    then show "freelist h2 = freelist h" "free_bitmap h2 = free_bitmap h" by (simp_all add: h2)
    fix x assume "x \<in> free_blocks h B - {b}"
    then have x: "x \<in> B" "x \<in> ?B \<union> E" "x \<noteq> b" "x \<noteq> n" "8 \<le> unat (MM_GET_BUF_SIZE h x)"
      using F(2) tiled_block(3) [OF ti] by (auto simp: free_blocks_def)
    then have "MM_GET_BUF_SIZE h1 x = MM_GET_BUF_SIZE h x" using e(5) [OF x(2)] by simp
    then show "fprevs h2 x = fprevs h x \<and> fnexts h2 x = fnexts h x \<and> MM_GET_BUF_SIZE h2 x = MM_GET_BUF_SIZE h x"
      using word [OF x(2), of 16] word [OF x(2), of 20] e(10) [OF x(1), of 16] e(10) [OF x(1), of 20] tag2(1) [OF x(2)] x by (simp add: at_fld)
  qed
  note ins = freelist_insert [OF t2 F(1) insertI1 F(2) this, folded h3]
  have "unat (MM_GET_BUF_SIZE h2 n) < 2 ^ 20" using tag2(1) [of n] r nb by simp
  note ins = ins [OF this]
  have F3: "insert n (free_blocks h B - {b}) \<subseteq> ?B" using F by blast
  note same = links_only_same [OF ins(2) t2 F3]
  have tag: "MM_GET_BUF_SIZE h3 x = ?sz x" "is_free h3 x = ((is_free h)(b := False, n := True)) x"
      "prev_is_free h3 x = ((prev_is_free h)(nx := False, n := False, nx := True)) x" "prevs h3 x = ((prevs h)(n := b, nx := n)) x"
      "dyes h3 x = ((dyes h)(n := RHINO_MM_FREE_DYE)) x" if x: "x \<in> ?B \<union> E" for x
    using tag2 [OF x] same [OF x] by simp_all
  show "tags_ok h3 ?B E"
    by (rule tagged_cong [OF tagged_split [OF t(1,2) _ _ s r sz e(1), where v = b]])
      (use tag nx nxB tiled_block(5) [OF tagged_tiled [OF tagged_split [OF t(1,2) _ _ s r sz e(1), where v = b]]] in auto)
  have "free_blocks h3 ?B = insert n (free_blocks h B - {b})"
    using tag(2) e(2) nb by (auto simp: free_blocks_def split: if_splits)
  then show "freelists h3 (free_blocks h3 ?B)" using ins(1) by simp
  show "dyed h3 (?B - {b}) E" using d tag(2,5) e(2,3) tiled_block(8) [OF ti t(2)]
    by (auto simp: dyed_def split: if_splits)
  show "used_blocks h3 ?B = insert b (used_blocks h B)" using tag(2) e(2) nb t(2) by (auto simp: used_blocks_def split: if_splits)
  show "MM_GET_BUF_SIZE h3 b = s" "dyes h3 b = dyes h b" using tag(1,5) [of b] nb t(2) by auto
  show "core_frame h h3" using core_frame_trans [OF core_frame_words [OF e(11)]] core_frame_links [OF ins(2)]
    by (simp add: core_frame_def h2)
  show "n \<notin> B" by (rule e(2))
  have bytes: "word_at h3 (fld x i) = word_at h (fld x i)"
    if x: "x \<in> B" "x \<notin> free_blocks h B - {b}" "16 \<le> i" "i < 16 + unat (MM_GET_BUF_SIZE h3 x)" for x i
  proof -
    have xB: "x \<in> ?B \<union> E" "x \<in> ?B - insert n (free_blocks h B - {b})" using x(1,2) e(2) by auto
    have sz3: "MM_GET_BUF_SIZE h3 x = MM_GET_BUF_SIZE h1 x" "MM_GET_BUF_SIZE h3 x = MM_GET_BUF_SIZE h2 x" using tag(1) [OF xB(1)] e(5) [OF xB(1)] tag2(1) [OF xB(1)] by simp_all
    have "word_at h3 (fld x i) = word_at h2 (fld x i)"
      by (rule links_only_tags [OF ins(2) t2 F3 xB(1)]) (use xB x sz3 in simp)
    also have "\<dots> = word_at h1 (fld x i)" using word [OF xB(1), of i] x sz3 by auto
    also have "\<dots> = word_at h (fld x i)" using e(10) [OF x(1,3)] x(4) sz3 by simp
    finally show ?thesis .
  qed
  show "16 \<le> i \<Longrightarrow> i < 16 + unat s \<Longrightarrow> word_at h3 (fld b i) = word_at h (fld b i)"
    using bytes [of b i] t(2) \<open>MM_GET_BUF_SIZE h3 b = s\<close> by simp
  show "keeps h h3 (used_blocks h B - {b})"
    unfolding keeps_def
  proof (intro ballI conjI allI impI)
    fix x i assume x: "x \<in> used_blocks h B - {b}"
    then have x': "x \<in> B" "x \<notin> free_blocks h B - {b}" "x \<noteq> b" "x \<noteq> n" using e(2) by (auto simp: used_blocks_def free_blocks_def)
    then show sx: "MM_GET_BUF_SIZE h3 x = MM_GET_BUF_SIZE h x" using tag(1) [of x] by simp
    show "16 \<le> i \<and> i < 16 + unat (MM_GET_BUF_SIZE h x) \<Longrightarrow> word_at h3 (fld x i) = word_at h (fld x i)"
      using bytes [OF x'(1,2), of i] sx by simp
  qed
qed

lemma size_flags: "is_free h b \<longleftrightarrow> word_at h (size_at b) AND 1 \<noteq> 0" "prev_is_free h b \<longleftrightarrow> word_at h (size_at b) AND 2 \<noteq> 0"
  by (simp_all add: is_free_def prev_is_free_def mm_consts)

text \<open>What an allocation of \<open>s\<close> bytes from the free block \<open>b\<close> gives.\<close>

definition allocated :: "heap \<Rightarrow> heap \<Rightarrow> u32 set \<Rightarrow> u32 set \<Rightarrow> u32 \<Rightarrow> u32 \<Rightarrow> bool" where
  "allocated h h' B E b s \<longleftrightarrow> (\<exists>B'. heap_ok h' B' E \<and> B \<subseteq> B' \<and> used_blocks h' B' = insert b (used_blocks h B)) \<and>
     s \<le> MM_GET_BUF_SIZE h' b \<and> keeps h h' (used_blocks h B) \<and> core_frame h h'"

lemma allocated_stats: "allocated h h' B E b s \<Longrightarrow> allocated h (addsize h' m r) B E b s"
  by (simp add: allocated_def same_blocks_ok [OF same_blocks_stats(1)])

lemma take_block_ok:
  assumes ok: "heap_ok h B E" and b: "b \<in> free_blocks h B" and s: "aligned s" "32 \<le> unat s" "s \<le> MM_GET_BUF_SIZE h b"
    and tb: "take_block h b s req = (p, h')"
  shows "p = buf_of b \<and> allocated h h' B E b s"
proof -
  note ok' = heap_ok_parts [OF ok]
  have bB: "b \<in> B" "is_free h b" "b \<in> B \<union> E" using b by (auto simp: free_blocks_def)
  note tf = tagged_free [OF ok'(1) bB(1,2)]
  have FB: "free_blocks h B \<subseteq> B" by (auto simp: free_blocks_def)
  define h1 where "h1 = k_mm_freelist_delete h b"
  note d = freelist_delete [OF ok'(2) FB b ok'(3) tf(5), folded h1_def]
  note same = links_only_same [OF d(2) ok'(2) FB]
  define nx where "nx = succ (MM_GET_BUF_SIZE h) b"
  have nxB: "nx \<in> B \<union> E" using tiled_block(5) [OF ok'(2) bB(1)] by (simp add: nx_def)
  have nxB': "nx \<noteq> b" using tiled_succ_neq [OF ok'(2) bB(1)] by (simp add: nx_def)
  have nx1: "MM_GET_NEXT_BLK h1 b = nx" "MM_GET_BUF_SIZE h1 b = MM_GET_BUF_SIZE h b"
    using same(1) [OF bB(3)] by (simp_all add: next_blk succ_def nx_def)
  define Z where "Z = unat (MM_GET_BUF_SIZE h b)"
  have Z: "Z < 2 ^ 20" "unat s \<le> Z" using tf(5) s(3) by (simp_all add: Z_def word_le_nat_alt)
  have us: "unat (s + MMLIST_HEAD_SIZE + MM_MIN_SIZE) = unat s + 48" using Z by (simp add: head_size mm_consts unat_word_ariths)
  show ?thesis
  proof (cases "MM_GET_BUF_SIZE h b \<ge> s + MMLIST_HEAD_SIZE + MM_MIN_SIZE")
    case False
    define h2 where "h2 = store h1 (size_at nx) (word_at h1 (size_at nx) AND NOT RHINO_MM_PREVFREE)"
    define h3 where "h3 = store h2 (size_at b) (word_at h2 (size_at b) AND NOT RHINO_MM_FREE)"
    define h4 where "h4 = store (store h3 (dye_at b) RHINO_MM_CORRUPT_DYE) (owner_at b) 0"
    note w = take_whole [OF ok b h1_def nx_def h2_def h3_def h4_def]
    have "allocated h h4 B E b s" using w s(3) by (auto simp: allocated_def)
    moreover have "p = buf_of b" "h' = h4 \<or> h' = addsize h4 (MM_GET_BLK_SIZE h4 b) req"
      using tb False by (auto simp: take_block_def Let_def h1_def [symmetric] nx1 h2_def [symmetric] h3_def [symmetric] h4_def [symmetric])
    ultimately show ?thesis by (auto intro: allocated_stats)
  next
    case True
    define r where "r = MM_GET_BUF_SIZE h b - s - MMLIST_HEAD_SIZE"
    have "unat s + 48 \<le> Z" using True us by (simp add: Z_def word_le_nat_alt)
    moreover have "unat r = Z - unat s - 16" using s(3) calculation by (simp add: r_def head_size Z_def unat_sub_if' word_le_nat_alt)
    ultimately have r: "unat r = Z - unat s - 16" "unat s + 16 + unat r = Z" "32 \<le> unat r" "unat r < 2 ^ 20"
      using Z by linarith+
    have "8 dvd Z - unat s - 16" using s(1) buf_size_aligned [of h b] by (simp add: aligned_dvd Z_def)
    then have ra: "aligned r" using r(1) by (simp add: aligned_dvd)
    obtain n g1 where sp: "split_block h1 b s r nx = (n, g1)" by fastforce
    have fr1: "(is_free h1)(b := False) = (is_free h1)(b := False)" by simp
    have t1: "tagged B E (MM_GET_BUF_SIZE h1) ((is_free h1)(b := False)) ((prev_is_free h1)(nx := False)) (prevs h1)"
      by (rule tagged_cong [OF tagged_take [OF ok'(1) bB(1,2), folded nx_def]])
        (use same tiled_block(5) [OF ok'(2)] in auto)
    have nx1': "nx = succ (MM_GET_BUF_SIZE h1) b" using nx1(2) by (simp add: nx_def succ_def)
    have nf: "\<not> is_free h1 nx" using same(2) [OF nxB] tf(3) by (simp add: nx_def)
    have F1: "free_blocks h1 B = free_blocks h B" "used_blocks h1 B = used_blocks h B"
      using same(2) by (auto simp: free_blocks_def used_blocks_def)
    have f1: "freelists h1 (free_blocks h1 B - {b})" using d(1) F1 by simp
    have d1: "dyed h1 (B - {b}) E" using ok'(4) same(2,5) by (auto simp: dyed_def)
    have sz1: "unat (MM_GET_BUF_SIZE h1 b) = unat s + 16 + unat r" using r(2) nx1(2) by (simp add: Z_def)
    have s8: "8 \<le> unat s" using s(2) by simp
    have r8: "8 \<le> unat r" using r(3) by simp
    note e = split_block_effect [OF tagged_tiled [OF t1] bB(1) s(1) s8 ra r8 sz1 nx1' sp]
    have "nx \<noteq> n" using e(2,3) nxB by auto
    then have "prev_is_free g1 nx" using e(7) [of nx] nxB same(3) [OF nxB] tf(1) by (auto simp: nx_def)
    then have g1: "store g1 (size_at nx) (word_at g1 (size_at nx) OR RHINO_MM_PREVFREE) = g1"
      by (intro store_same) (simp add: mm_consts size_flags flag_idle)
    define g2 where "g2 = k_mm_freelist_insert g1 n"
    note so = split_off [OF t1 bB(1) nx1' nf f1 d1 s(1) s8 ra r(3,4) sz1 sp g1 [symmetric] g2_def]
    have bu: "b \<in> used_blocks g2 (insert n B)" using so(4) by simp
    then have "store g2 (size_at b) (word_at g2 (size_at b) AND NOT RHINO_MM_FREE) = g2"
      by (intro store_same) (simp only: mm_consts used_blocks_def mem_Collect_eq size_flags flag_idle simp_thms)
    note g3 = this
    define g4 where "g4 = store (store g2 (dye_at b) RHINO_MM_CORRUPT_DYE) (owner_at b) 0"
    have "unat n = unat b + 16 + unat s" using e(1) Z(2) tiled_block(4) [OF ok'(2) bB(1)] by (simp add: Z_def unat_word_ariths)
    then have bd: "bounded (insert n B) E" using r(2) by (intro bounded_insert [OF ok'(5,2) bB(1)]) (simp_all add: Z_def)
    note rd = redye [OF so(1-3) bu bd g4_def]
    have "keeps h h1 (used_blocks h B)"
      by (rule links_only_keeps [OF d(2) ok'(2) FB]) (auto simp: used_blocks_def free_blocks_def)
    moreover have "used_blocks h B - {b} = used_blocks h B" using bB(2) by (auto simp: used_blocks_def)
    then have "keeps h1 g2 (used_blocks h B)" using so(7) F1 by simp
    moreover have "keeps g2 g4 (used_blocks h B)" using rd(3) by (rule keeps_subset) (auto simp: used_blocks_def)
    ultimately have "keeps h g4 (used_blocks h B)" by (blast intro: keeps_trans)
    moreover have "core_frame h g4" using core_frame_links [OF d(2)] so(8) rd(4) by (blast intro: core_frame_trans)
    moreover have "used_blocks g4 (insert n B) = insert b (used_blocks h B)" using rd(2) so(4) F1 by simp
    moreover have "MM_GET_BUF_SIZE g4 b = s" using rd(5) so(5) by simp
    ultimately have "allocated h g4 B E b s" using rd(1) by (auto simp: allocated_def)
    moreover have "p = buf_of b" "h' = g4 \<or> h' = addsize g4 (MM_GET_BLK_SIZE g4 b) req"
      using tb True by (auto simp: take_block_def Let_def h1_def [symmetric] nx1 r_def [symmetric] sp g2_def [symmetric] g3 g4_def [symmetric])
    ultimately show ?thesis by (auto intro: allocated_stats)
  qed
qed

end
