(* ===== verification/Mm_Alloc.thy ===== *)
theory Mm_Alloc
  imports Mm_Heap
begin

text \<open>
  Allocation finds a block: the search of a list and of the bitmap, and \<open>k_mm_alloc\<close>, which fails exactly when no free
  block is large enough.
\<close>

section \<open>Trailing zeros\<close>

lemma window_step:
  fixes y :: u32
  assumes "y AND mask (k + k) \<noteq> 0"
  shows "(if y AND mask k = 0 then drop_bit k y else y) AND mask k \<noteq> 0"
proof (cases "y AND mask k = 0")
  case True
  obtain i where i: "bit y i" "i < k + k" using assms by (auto simp: bit_eq_iff bit_simps)
  have "\<not> i < k" using True i(1) bit_imp_le_length [OF i(1)] by (auto simp: bit_eq_iff bit_simps)
  then have "k + (i - k) = i" "i - k < k" "i - k < 32" using i(2) bit_imp_le_length [OF i(1)] by auto
  then have "bit (drop_bit k y AND mask k) (i - k)" using i(1) by (simp add: bit_simps)
  then show ?thesis using True by auto
qed simp

lemma ctz_bit:
  assumes "x \<noteq> 0"
  shows "bit x (krhino_ctz32 x)"
proof -
  have masks: "(0x0000FFFF :: u32) = mask 16" "(0x000000FF :: u32) = mask 8" "(0x0000000F :: u32) = mask 4" "(0x00000003 :: u32) = mask 2"
    by (simp_all add: mask_numeral)
  define n1 :: nat where "n1 = (if x AND mask 16 = 0 then 16 else 0)"
  define n2 where "n2 = (if drop_bit n1 x AND mask 8 = 0 then n1 + 8 else n1)"
  define n3 where "n3 = (if drop_bit n2 x AND mask 4 = 0 then n2 + 4 else n2)"
  define n4 where "n4 = (if drop_bit n3 x AND mask 2 = 0 then n3 + 2 else n3)"
  have r: "krhino_ctz32 x = (if drop_bit n4 x AND 1 = 0 then n4 + 1 else n4)"
    using assms unfolding krhino_ctz32_def masks n4_def n3_def n2_def n1_def by (simp add: Let_def add.commute numeral_2_eq_2)
  have "x AND mask (16 + 16) = x" by (simp only: take_bit_eq_mask [symmetric]) (simp add: take_bit_word_eq_self)
  then have "x AND mask (16 + 16) \<noteq> 0" using assms by simp
  from window_step [OF this] have "drop_bit n1 x AND mask (8 + 8) \<noteq> 0" by (simp add: n1_def split: if_splits)
  from window_step [OF this] have "drop_bit n2 x AND mask (4 + 4) \<noteq> 0" by (simp add: n2_def add.commute split: if_splits)
  from window_step [OF this] have "drop_bit n3 x AND mask (2 + 2) \<noteq> 0" by (simp add: n3_def add.commute split: if_splits)
  from window_step [OF this] have "drop_bit n4 x AND mask (1 + 1) \<noteq> 0" by (simp add: n4_def add.commute numeral_2_eq_2 split: if_splits)
  from window_step [OF this] have "(if drop_bit n4 x AND 1 = 0 then drop_bit (n4 + 1) x else drop_bit n4 x) AND 1 \<noteq> 0"
    by (simp add: add.commute split: if_splits)
  then have "drop_bit (krhino_ctz32 x) x AND 1 \<noteq> 0" unfolding r by (simp split: if_splits)
  then show ?thesis by (simp add: and_one_eq bit_iff_odd_drop_bit odd_iff_mod_2_eq_one split: if_splits)
qed

section \<open>The search\<close>

lemma find_fit_list:
  "dlseg fp (fnexts h) p a xs q 0 \<Longrightarrow> length xs \<le> n \<Longrightarrow>
   find_fit n h s a = Some (case dropWhile (\<lambda>x. \<not> s \<le> MM_GET_BUF_SIZE h x) xs of [] \<Rightarrow> 0 | x # _ \<Rightarrow> x)"
proof (induction xs arbitrary: n p a)
  case Nil
  then show ?case by (subst find_fit.simps) simp
next
  case (Cons x xs)
  then obtain n' where "n = Suc n'" "length xs \<le> n'" by (cases n) auto
  with Cons show ?case by (subst find_fit.simps) auto
qed

text \<open>Blocks are distinct multiples of 8.\<close>

lemma card_blocks: "tiled B E sz \<Longrightarrow> card B \<le> 2 ^ 29"
proof -
  assume t: "tiled B E sz"
  have d: "8 dvd unat b" if "b \<in> B" for b using tiled_block(1) [OF t that] by (simp add: aligned_dvd)
  have "inj_on (\<lambda>b. unat b div 8) B"
  proof (rule inj_onI)
    fix b c assume "b \<in> B" "c \<in> B" "unat b div 8 = unat c div 8"
    then have "unat b = unat c" using d by (metis dvd_div_mult_self)
    then show "b = c" by (simp add: word_unat_eq_iff)
  qed
  moreover have "(\<lambda>b. unat b div 8) ` B \<subseteq> {..<2 ^ 29}"
  proof (rule image_subsetI)
    fix b assume "b \<in> B"
    have "unat b < 2 ^ 32" using unsigned_less [of b] by simp
    then have "unat b div 8 < 2 ^ 29" by (simp add: div_less_iff_less_mult)
    then show "unat b div 8 \<in> {..<2 ^ 29}" by simp
  qed
  then have "card ((\<lambda>b. unat b div 8) ` B) \<le> card {..<2 ^ 29 :: nat}" by (intro card_mono) auto
  ultimately show ?thesis by (simp add: card_image)
qed

lemma find_fit_level:
  assumes t: "tiled B E (MM_GET_BUF_SIZE h)" and F: "F \<subseteq> B" "freelists h F" and l: "l < MM_BIT_LEVEL"
  shows "\<exists>b. find_fit search_fuel h s (freelist h ! l) = Some b \<and>
    (b \<noteq> 0 \<longrightarrow> b \<in> F \<and> s \<le> MM_GET_BUF_SIZE h b) \<and>
    (b = 0 \<longrightarrow> (\<forall>c \<in> F. level (MM_GET_BUF_SIZE h c) = l \<longrightarrow> MM_GET_BUF_SIZE h c < s))"
proof -
  obtain xs where xs: "dlist (fprevs h) (fnexts h) (freelist h ! l) xs" "distinct xs"
    "set xs = {b \<in> F. level (MM_GET_BUF_SIZE h b) = l}" "bit (free_bitmap h) l = (xs \<noteq> [])"
    by (rule freelists_level [OF F(2) l])
  have "length xs = card (set xs)" using xs(2) by (simp add: distinct_card)
  also have "\<dots> \<le> card B" using t F(1) unfolding xs(3) by (intro card_mono) (auto simp: tiled_def)
  also have "\<dots> \<le> search_fuel" unfolding search_fuel_def by (rule card_blocks [OF t])
  finally have n: "length xs \<le> search_fuel" .
  let ?ys = "dropWhile (\<lambda>x. \<not> s \<le> MM_GET_BUF_SIZE h x) xs"
  define b where "b = (case ?ys of [] \<Rightarrow> 0 | x # _ \<Rightarrow> x)"
  have f: "find_fit search_fuel h s (freelist h ! l) = Some b"
    using find_fit_list [OF xs(1) [unfolded dlist_def] n] by (simp add: b_def)
  have nz: "0 \<notin> set xs" using dlist_nonzero [OF xs(1)] .
  show ?thesis
  proof (cases ?ys)
    case Nil
    then have "\<forall>x \<in> set xs. \<not> s \<le> MM_GET_BUF_SIZE h x" by (simp add: dropWhile_eq_Nil_conv)
    then show ?thesis using f Nil xs(3) by (auto simp: b_def)
  next
    case (Cons x ys)
    then have "x \<in> set ?ys" by simp
    then have "x \<in> set xs" using set_dropWhileD by fast
    moreover have "s \<le> MM_GET_BUF_SIZE h x"
      using Cons hd_dropWhile [of "\<lambda>x. \<not> s \<le> MM_GET_BUF_SIZE h x" xs] by auto
    ultimately have "x \<in> set xs" "s \<le> MM_GET_BUF_SIZE h x" by simp_all
    then show ?thesis using f Cons xs(3) nz by (auto simp: b_def)
  qed
qed

lemma find_up_level_finds:
  assumes t: "tiled B E (MM_GET_BUF_SIZE h)" and F: "F \<subseteq> B" "freelists h F" and l: "l < MM_BIT_LEVEL"
  shows "if \<exists>c \<in> F. level (MM_GET_BUF_SIZE h c) > l \<and> level (MM_GET_BUF_SIZE h c) < MM_BIT_LEVEL
    then find_up_level h (int l) \<in> F \<and> level (MM_GET_BUF_SIZE h (find_up_level h (int l))) > l
    else find_up_level h (int l) = 0"
proof -
  define m where "m = free_bitmap h AND push_bit (Suc l) 0xFFFFFFFF"
  have "(0xFFFFFFFF :: u32) = mask 32" by (simp add: mask_numeral)
  then have ones: "bit (0xFFFFFFFF :: u32) i \<longleftrightarrow> i < 32" for i by (simp only: bit_mask_iff) (auto simp: possible_bit_word)
  have bm: "bit m k \<longleftrightarrow> bit (free_bitmap h) k \<and> l < k" for k
    using bit_imp_le_length [of "free_bitmap h" k] unfolding m_def bit_and_iff bit_push_bit_iff ones by (auto simp: possible_bit_word)
  have up: "find_up_level h (int l) = (if krhino_ctz32 m < MM_BIT_LEVEL then freelist h ! krhino_ctz32 m else 0)"
    by (simp add: find_up_level_def m_def nat_add_distrib Let_def)
  have high: "\<not> bit (free_bitmap h) k" if "MM_BIT_LEVEL \<le> k" for k using F(2) that by (simp add: freelists_def)
  show ?thesis
  proof (cases "m = 0")
    case True
    have "\<not> (\<exists>c \<in> F. level (MM_GET_BUF_SIZE h c) > l \<and> level (MM_GET_BUF_SIZE h c) < MM_BIT_LEVEL)"
    proof
      assume "\<exists>c \<in> F. level (MM_GET_BUF_SIZE h c) > l \<and> level (MM_GET_BUF_SIZE h c) < MM_BIT_LEVEL"
      then obtain c where c: "c \<in> F" "l < level (MM_GET_BUF_SIZE h c)" "level (MM_GET_BUF_SIZE h c) < MM_BIT_LEVEL" by blast
      obtain xs where "set xs = {b \<in> F. level (MM_GET_BUF_SIZE h b) = level (MM_GET_BUF_SIZE h c)}"
        "bit (free_bitmap h) (level (MM_GET_BUF_SIZE h c)) = (xs \<noteq> [])" by (rule freelists_level [OF F(2) c(3)])
      then have "bit m (level (MM_GET_BUF_SIZE h c))" using bm c by auto
      then show False using True by simp
    qed
    moreover have "krhino_ctz32 m = 32" using True by (simp add: krhino_ctz32_def)
    moreover have "find_up_level h (int l) = 0" using up \<open>krhino_ctz32 m = 32\<close> by (simp add: MM_BIT_LEVEL_def MM_MAX_BIT_def MM_MIN_BIT_def)
    ultimately show ?thesis by (simp only: if_False)
  next
    case False
    define k where "k = krhino_ctz32 m"
    have k: "bit (free_bitmap h) k" "l < k" using ctz_bit [OF False] bm by (simp_all add: k_def)
    then have k16: "k < MM_BIT_LEVEL" using high not_less by blast
    obtain xs where xs: "dlist (fprevs h) (fnexts h) (freelist h ! k) xs" "distinct xs"
      "set xs = {b \<in> F. level (MM_GET_BUF_SIZE h b) = k}" "bit (free_bitmap h) k = (xs \<noteq> [])"
      by (rule freelists_level [OF F(2) k16])
    have "freelist h ! k \<in> set xs" using dlist_head [OF xs(1)] xs(4) k(1) by (cases xs) auto
    then have "freelist h ! k \<in> F" "level (MM_GET_BUF_SIZE h (freelist h ! k)) = k" using xs(3) by auto
    then show ?thesis using up k16 k(2) by (auto simp: k_def [symmetric])
  qed
qed

section \<open>Allocation\<close>

lemma unat_add_le: "unat (a + b :: u32) \<le> unat a + unat b"
  by (simp add: unat_word_ariths)

lemma align_up: "unat s + 7 < 2 ^ 32 \<Longrightarrow> aligned (MM_ALIGN_UP s) \<and> s \<le> MM_ALIGN_UP s \<and> unat (MM_ALIGN_UP s) < unat s + 8"
proof -
  assume s: "unat s + 7 < 2 ^ 32"
  have a: "aligned ((s + 7) AND NOT 7)" by (rule aligned_buf)
  have u: "unat (s + 7) = unat s + 7" using s by (simp add: unat_word_ariths)
  have "s + 7 = ((s + 7) AND NOT 7) + ((s + 7) AND 7)" using flag_laws(19) [of "s + 7"] by simp
  moreover have "unat ((s + 7) AND 7) \<le> 7"
  proof -
    have "(s + 7) AND 7 \<le> 7" by (rule word_and_le1)
    then show ?thesis by (simp add: word_le_nat_alt)
  qed
  moreover have "(s + 7) AND NOT 7 \<le> s + 7" by (rule word_and_le2)
  ultimately have "unat (s + 7) \<le> unat ((s + 7) AND NOT 7) + 7" "unat ((s + 7) AND NOT 7) \<le> unat (s + 7)"
    using unat_add_le [of "(s + 7) AND NOT 7" "(s + 7) AND 7"] by (simp_all add: word_le_nat_alt)
  then show ?thesis using a u by (simp add: MM_ALIGN_UP_def MM_ALIGN_MASK_def word_le_nat_alt)
qed

lemma aligned_request:
  assumes "unat s + 7 < 2 ^ 32"
  shows "aligned (aligned_request s)" "s \<le> aligned_request s" "32 \<le> unat (aligned_request s)"
proof -
  have m: "MM_MIN_SIZE = 32" by (simp add: mm_consts)
  note a = align_up [OF assms]
  show "aligned (aligned_request s)" using a by (simp add: aligned_request_def Let_def m aligned_dvd)
  show "s \<le> aligned_request s" using a by (auto simp: aligned_request_def Let_def m)
  show "32 \<le> unat (aligned_request s)" by (simp add: aligned_request_def Let_def m word_less_nat_alt)
qed

text \<open>A request the pool of small blocks does not serve.\<close>

definition not_small :: "heap \<Rightarrow> u32 \<Rightarrow> bool" where
  "not_small h req \<longleftrightarrow> \<not> (fix_pool h \<noteq> 0 \<and> req \<le> RHINO_CONFIG_MM_BLK_SIZE \<and> blk_avail (pool h) > 0)"

lemma k_mm_alloc_block:
  assumes ok: "heap_ok h B E" and r: "req \<noteq> 0" "unat req + 7 < 2 ^ 32" "not_small h req"
  shows "\<exists>h'. (k_mm_alloc h False req = (0, h) \<and> (\<forall>c \<in> free_blocks h B. MM_GET_BUF_SIZE h c < aligned_request req)) \<or>
    (\<exists>b \<in> free_blocks h B. k_mm_alloc h False req = (buf_of b, h') \<and> allocated h h' B E b (aligned_request req))"
proof -
  note ok' = heap_ok_parts [OF ok]
  define s where "s = aligned_request req"
  note s = aligned_request [OF r(2), folded s_def]
  have s0: "s \<noteq> 0" using s(3) by auto
  have F: "free_blocks h B \<subseteq> B" by (auto simp: free_blocks_def)
  have fs: "MM_GET_BUF_SIZE h c \<noteq> 0" "unat (MM_GET_BUF_SIZE h c) < 2 ^ 20" "level (MM_GET_BUF_SIZE h c) < MM_BIT_LEVEL"
    if "c \<in> free_blocks h B" for c
  proof -
    have c: "c \<in> B" "is_free h c" using that by (auto simp: free_blocks_def)
    show n: "MM_GET_BUF_SIZE h c \<noteq> 0" using tagged_free(4) [OF ok'(1) c] by auto
    show l: "unat (MM_GET_BUF_SIZE h c) < 2 ^ 20" using tagged_free(5) [OF ok'(1) c] .
    show "level (MM_GET_BUF_SIZE h c) < MM_BIT_LEVEL" using size_to_level_iff(2) [OF n l] by (simp add: mm_consts)
  qed
  have alloc: "k_mm_alloc h False req = (if size_to_level s = - 1 then (0, h)
      else case find_fit search_fuel h s (freelist h ! level s) of None \<Rightarrow> (0, mm_trap Diverged h)
        | Some b \<Rightarrow> let get_b = (if b = 0 then find_up_level h (size_to_level s) else b)
            in if get_b = 0 then (0, h) else take_block h get_b s req)"
    using r(1,3) unfolding s_def level_def k_mm_alloc_def not_small_def Let_def by auto
  show ?thesis
  proof (cases "2 ^ 20 \<le> unat s")
    case True
    then have "k_mm_alloc h False req = (0, h)" using alloc size_to_level_iff(1) [OF s0] by simp
    moreover have "MM_GET_BUF_SIZE h c < s" if "c \<in> free_blocks h B" for c using fs(2) [OF that] True by (simp add: word_less_nat_alt)
    ultimately show ?thesis by (simp add: s_def)
  next
    case False
    then have s20: "unat s < 2 ^ 20" by simp
    note ls = size_to_level_iff(2) [OF s0 s20]
    have l16: "level s < MM_BIT_LEVEL" using ls by (simp add: mm_consts)
    obtain b where b: "find_fit search_fuel h s (freelist h ! level s) = Some b" "b \<noteq> 0 \<Longrightarrow> b \<in> free_blocks h B \<and> s \<le> MM_GET_BUF_SIZE h b"
      "b = 0 \<Longrightarrow> (\<forall>c \<in> free_blocks h B. level (MM_GET_BUF_SIZE h c) = level s \<longrightarrow> MM_GET_BUF_SIZE h c < s)"
      using find_fit_level [OF ok'(2) F ok'(3) l16, of s] by blast
    define g where "g = (if b = 0 then find_up_level h (size_to_level s) else b)"
    have a: "k_mm_alloc h False req = (if g = 0 then (0, h) else take_block h g s req)"
      using alloc b(1) ls by (simp add: g_def Let_def)
    have sl: "size_to_level s = int (level s)" using ls by simp
    note up = find_up_level_finds [OF ok'(2) F ok'(3) l16, folded sl]
    show ?thesis
    proof (cases "g = 0")
      case True
      then have b0: "b = 0" and u0: "find_up_level h (size_to_level s) = 0" by (auto simp: g_def split: if_splits)
      have "0 \<notin> free_blocks h B" using ok'(2) F by (auto simp: tiled_def)
      then have none: "\<not> (\<exists>c \<in> free_blocks h B. level (MM_GET_BUF_SIZE h c) > level s \<and> level (MM_GET_BUF_SIZE h c) < MM_BIT_LEVEL)"
        using up u0 by (auto split: if_splits)
      have "MM_GET_BUF_SIZE h c < s" if c: "c \<in> free_blocks h B" for c
      proof -
        consider "level (MM_GET_BUF_SIZE h c) < level s" | "level (MM_GET_BUF_SIZE h c) = level s"
          using none c fs(3) [OF c] by (metis linorder_neqE_nat)
        then show ?thesis
        proof cases
          case 1
          then show ?thesis using level_less [OF 1 fs(1) [OF c] s0 fs(2) [OF c] s20] by (simp add: word_less_nat_alt)
        qed (use b(3) [OF b0] c in blast)
      qed
      then show ?thesis using a True by (simp add: s_def)
    next
      case False
      have g: "g \<in> free_blocks h B \<and> s \<le> MM_GET_BUF_SIZE h g"
      proof (cases "b = 0")
        case True
        then have "find_up_level h (size_to_level s) \<noteq> 0" "g = find_up_level h (size_to_level s)" using False by (auto simp: g_def)
        then have "g \<in> free_blocks h B" "level s < level (MM_GET_BUF_SIZE h g)" using up by (auto split: if_splits)
        moreover from this have "unat s < unat (MM_GET_BUF_SIZE h g)" using level_less [OF _ s0 fs(1) s20 fs(2)] by blast
        ultimately show ?thesis by (simp add: word_le_nat_alt)
      qed (use b(2) in \<open>simp add: g_def\<close>)
      obtain p h' where tb: "take_block h g s req = (p, h')" by fastforce
      then have "p = buf_of g \<and> allocated h h' B E g s" using take_block_ok [OF ok _ s(1,3) _ tb] g by blast
      then show ?thesis using a tb False g by (auto simp: s_def)
    qed
  qed
qed

end
