(* ===== verification/Mm_Free.thy ===== *)
theory Mm_Free
  imports Mm_Alloc
begin

text \<open>
  Release and merging. While a block changes hands, the heap is well formed but for that block: the
  predicate \<open>mid\<close>. Absorbing a free neighbour on either side keeps \<open>mid\<close>, and putting the block on a list makes
  the heap well formed again.
\<close>

section \<open>A block between owners\<close>

definition mid :: "heap \<Rightarrow> u32 set \<Rightarrow> u32 set \<Rightarrow> u32 \<Rightarrow> bool" where
  "mid g B E b \<longleftrightarrow> b \<in> B \<and>
     tagged B E (MM_GET_BUF_SIZE g) ((is_free g)(b := False)) ((prev_is_free g)(succ (MM_GET_BUF_SIZE g) b := False)) (prevs g) \<and>
     freelists g (free_blocks g B - {b}) \<and> dyed g (B - {b}) E \<and> bounded B E"

lemma mid_parts:
  assumes "mid g B E b"
  shows "b \<in> B" "b \<in> B \<union> E" "tagged B E (MM_GET_BUF_SIZE g) ((is_free g)(b := False)) ((prev_is_free g)(succ (MM_GET_BUF_SIZE g) b := False)) (prevs g)"
    "tiled B E (MM_GET_BUF_SIZE g)" "freelists g (free_blocks g B - {b})" "dyed g (B - {b}) E" "bounded B E"
  using assms by (auto simp: mid_def dest: tagged_tiled)

text \<open>The next block of a block is another one, and behind it.\<close>

lemma succ_above: "tiled B E sz \<Longrightarrow> b \<in> B \<Longrightarrow> unat b < unat (succ sz b)"
  using tiled_block(9) by fastforce

lemma mid_of_used: "heap_ok h B E \<Longrightarrow> b \<in> used_blocks h B \<Longrightarrow> mid h B E b"
proof -
  assume a: "heap_ok h B E" "b \<in> used_blocks h B"
  note ok = heap_ok_parts [OF a(1)]
  have b: "b \<in> B" "\<not> is_free h b" using a(2) by (auto simp: used_blocks_def)
  have i: "(is_free h)(b := False) = is_free h" using b(2) by (simp add: fun_upd_idem)
  have "\<not> (\<exists>x \<in> B. is_free h x \<and> succ (MM_GET_BUF_SIZE h) x = succ (MM_GET_BUF_SIZE h) b)"
    using tiled_inj [OF ok(2) _ b(1)] b(2) by auto
  then have "\<not> prev_is_free h (succ (MM_GET_BUF_SIZE h) b)" using ok(1) tiled_block(5) [OF ok(2) b(1)] by (auto simp: tagged_def)
  then have p: "(prev_is_free h)(succ (MM_GET_BUF_SIZE h) b := False) = prev_is_free h" by (simp add: fun_upd_idem)
  have "free_blocks h B - {b} = free_blocks h B" using b(2) by (auto simp: free_blocks_def)
  then show ?thesis using ok b(1) unfolding mid_def i p by (auto simp: dyed_def)
qed

text \<open>A store to the size word of \<open>b\<close> that adds to the size.\<close>

lemma add_size_word:
  assumes t: "tiled B E sz" "b \<in> B" and k: "aligned k" and g2: "g2 = store g1 (size_at b) (word_at g1 (size_at b) + k)"
  shows "x \<in> B \<union> E \<Longrightarrow> i < 16 \<or> x \<in> B \<and> i < 16 + unat (sz x) \<Longrightarrow>
      word_at g2 (fld x i) = (if x = b \<and> i = 12 then word_at g1 (fld b 12) + k else word_at g1 (fld x i))"
    and "x \<in> B \<union> E \<Longrightarrow> MM_GET_BUF_SIZE g2 x = ((MM_GET_BUF_SIZE g1)(b := MM_GET_BUF_SIZE g1 b + k)) x"
    and "x \<in> B \<union> E \<Longrightarrow> is_free g2 x = is_free g1 x" "x \<in> B \<union> E \<Longrightarrow> prev_is_free g2 x = prev_is_free g1 x"
    and "x \<in> B \<union> E \<Longrightarrow> prevs g2 x = prevs g1 x" "x \<in> B \<union> E \<Longrightarrow> dyes g2 x = dyes g1 x" "core_frame g1 g2"
    and "freelist g2 = freelist g1" "free_bitmap g2 = free_bitmap g1"
proof -
  have bB: "b \<in> B \<union> E" using t(2) by blast
  have word: "word_at g2 (fld x i) = (if x = b \<and> i = 12 then word_at g1 (fld b 12) + k else word_at g1 (fld x i))"
    if x: "x \<in> B \<union> E" "i < 16 \<or> x \<in> B \<and> i < 16 + unat (sz x)" for x i
  proof -
    have "fld x i = fld b 12 \<longleftrightarrow> x = b \<and> i = 12" by (rule fld_eq [OF t(1) x(1) bB x(2)]) simp
    then show ?thesis unfolding g2 at_fld by (simp only: word_at_store)
  qed
  show "x \<in> B \<union> E \<Longrightarrow> i < 16 \<or> x \<in> B \<and> i < 16 + unat (sz x) \<Longrightarrow>
      word_at g2 (fld x i) = (if x = b \<and> i = 12 then word_at g1 (fld b 12) + k else word_at g1 (fld x i))"
    by (rule word)
  have old: "word_at g1 (fld y 12) AND NOT 7 = MM_GET_BUF_SIZE g1 y" "(word_at g1 (fld y 12) AND 1 \<noteq> 0) = is_free g1 y"
    "(word_at g1 (fld y 12) AND 2 \<noteq> 0) = prev_is_free g1 y" for y
    by (rule size_word [OF refl, symmetric])+
  have w12: "word_at g2 (fld x 12) = (if x = b then word_at g1 (fld b 12) + k else word_at g1 (fld x 12))" if "x \<in> B \<union> E" for x
    using word [OF that, of 12] by simp
  show "x \<in> B \<union> E \<Longrightarrow> MM_GET_BUF_SIZE g2 x = ((MM_GET_BUF_SIZE g1)(b := MM_GET_BUF_SIZE g1 b + k)) x"
    unfolding size_word(1) [OF w12] old(1) [symmetric] fun_upd_apply by (simp only: add_flags [OF k] split: if_split) simp
  show "x \<in> B \<union> E \<Longrightarrow> is_free g2 x = is_free g1 x" "x \<in> B \<union> E \<Longrightarrow> prev_is_free g2 x = prev_is_free g1 x"
    unfolding size_word(2,3) [OF w12] old(2,3) [symmetric] by (simp_all only: add_flags [OF k] split: if_split) simp_all
  show "x \<in> B \<union> E \<Longrightarrow> prevs g2 x = prevs g1 x" "x \<in> B \<union> E \<Longrightarrow> dyes g2 x = dyes g1 x"
    using word [of x 8] word [of x 0] by (simp_all add: at_fld)
  show "core_frame g1 g2" "freelist g2 = freelist g1" "free_bitmap g2 = free_bitmap g1" by (simp_all add: g2)
qed

section \<open>Absorbing the next block\<close>

lemma mid_absorb:
  assumes m: "mid g B E b" and c: "c = succ (MM_GET_BUF_SIZE g) b" "is_free g c" and g1: "g1 = k_mm_freelist_delete g c"
    and g2: "g2 = store g1 (size_at b) (word_at g1 (size_at b) + MM_GET_BLK_SIZE g1 c)"
  shows "c \<in> free_blocks g B - {b}" "MM_GET_BLK_SIZE g1 c = MM_GET_BUF_SIZE g c + 16" "links_only g g1 (free_blocks g B - {b})"
    "mid g2 (B - {c}) E b" "MM_GET_BUF_SIZE g2 b = MM_GET_BUF_SIZE g b + 16 + MM_GET_BUF_SIZE g c"
    "unat (MM_GET_BUF_SIZE g2 b) = unat (MM_GET_BUF_SIZE g b) + 16 + unat (MM_GET_BUF_SIZE g c)"
    "succ (MM_GET_BUF_SIZE g2) b = succ (MM_GET_BUF_SIZE g) c"
    "\<not> is_free g2 (succ (MM_GET_BUF_SIZE g2) b)" "is_free g2 b = is_free g b" "prev_is_free g2 b = prev_is_free g b"
    "prevs g2 b = prevs g b" "dyes g2 b = dyes g b" "used_blocks g2 (B - {c}) = used_blocks g B"
    "keeps g g2 (used_blocks g B - {b})" "core_frame g g2"
    "16 \<le> i \<Longrightarrow> i < 16 + unat (MM_GET_BUF_SIZE g b) \<Longrightarrow> word_at g2 (fld b i) = word_at g (fld b i)"
proof -
  note mp = mid_parts [OF m]
  let ?sz = "MM_GET_BUF_SIZE g" and ?F = "free_blocks g B - {b}"
  have cb: "c \<noteq> b" using tiled_succ_neq [OF mp(4,1)] by (simp add: c)
  have cB: "c \<in> B" using tagged_next_free [OF mp(3,1)] c cb by simp
  then have cBE: "c \<in> B \<union> E" by blast
  show cF: "c \<in> ?F" using cB c(2) cb by (simp add: free_blocks_def)
  have F: "?F \<subseteq> B" by (auto simp: free_blocks_def)
  have fc: "((is_free g)(b := False)) c" using cb c(2) by simp
  note tf = tagged_free [OF mp(3) cB fc]
  note d = freelist_delete [OF mp(4) F cF mp(5) tf(5), folded g1]
  show lo: "links_only g g1 ?F" by (rule d(2))
  note same = links_only_same [OF d(2) mp(4) F]
  show k: "MM_GET_BLK_SIZE g1 c = ?sz c + 16" using same(1) [OF cBE] by (simp add: MM_GET_BLK_SIZE_def head_size)
  have ka: "aligned (?sz c + 16)" by (intro aligned_add buf_size_aligned) (simp add: aligned_def)
  note a = add_size_word [OF mp(4,1) ka g2 [unfolded k]]
  note mg = tiled_merge [OF mp(4,1) cB c(1)]
  have szb: "?sz b + (?sz c + 16) = ?sz b + 16 + ?sz c" by (simp add: algebra_simps)
  have tag: "MM_GET_BUF_SIZE g2 x = (?sz(b := ?sz b + 16 + ?sz c)) x" "is_free g2 x = is_free g x" "prev_is_free g2 x = prev_is_free g x"
    "prevs g2 x = prevs g x" "dyes g2 x = dyes g x" if x: "x \<in> B \<union> E" for x
    using a(2-6) [OF x] same [OF x] same(1) [OF mp(2)] szb by (simp_all add: fun_upd_def)
  show b2: "MM_GET_BUF_SIZE g2 b = ?sz b + 16 + ?sz c" using tag(1) [OF mp(2)] by simp
  then show "unat (MM_GET_BUF_SIZE g2 b) = unat (?sz b) + 16 + unat (?sz c)" using mg(2) by simp
  show sb: "succ (MM_GET_BUF_SIZE g2) b = succ ?sz c" using mg(3) b2 by (simp add: succ_def)
  have scB: "succ ?sz c \<in> B \<union> E" by (rule tiled_block(5) [OF mp(4) cB])
  have scb: "succ ?sz c \<noteq> b" "succ ?sz c \<noteq> c"
    using succ_above [OF mp(4) cB] succ_above [OF mp(4,1)] by (auto simp: c(1))
  then show nf: "\<not> is_free g2 (succ (MM_GET_BUF_SIZE g2) b)" using tf(3) tag(2) [OF scB] unfolding sb by simp
  show "is_free g2 b = is_free g b" "prev_is_free g2 b = prev_is_free g b" "prevs g2 b = prevs g b" "dyes g2 b = dyes g b"
    using tag(2-5) [OF mp(2)] by simp_all
  show u: "used_blocks g2 (B - {c}) = used_blocks g B" using tag(2) c(2) by (auto simp: used_blocks_def)
  have fb: "free_blocks g2 (B - {c}) - {b} = ?F - {c}" using tag(2) by (auto simp: free_blocks_def)
  have byte: "word_at g2 (fld x i) = word_at g1 (fld x i)" if "x \<in> B \<union> E" "i < 16 \<or> x \<in> B \<and> i < 16 + unat (?sz x)" "i \<noteq> 12 \<or> x \<noteq> b" for x i
    using a(1) [OF that(1,2)] that(3) by auto
  have "freelists g2 (?F - {c})"
  proof (rule freelists_cong [OF d(1) a(8,9)])
    fix x assume x: "x \<in> ?F - {c}"
    then have xB: "x \<in> B" "x \<in> B \<union> E" "x \<noteq> b" "8 \<le> unat (?sz x)" using F tiled_block(3) [OF mp(4)] by auto
    show "fprevs g2 x = fprevs g1 x \<and> fnexts g2 x = fnexts g1 x \<and> MM_GET_BUF_SIZE g2 x = MM_GET_BUF_SIZE g1 x"
      using byte [OF xB(2), of 16] byte [OF xB(2), of 20] xB tag(1) [OF xB(2)] same(1) [OF xB(2)] by (simp add: at_fld)
  qed
  moreover have "tagged (B - {c}) E (MM_GET_BUF_SIZE g2) ((is_free g2)(b := False)) ((prev_is_free g2)(succ ?sz c := False)) (prevs g2)"
  proof (rule tagged_cong [OF tagged_absorb [OF mp(3,1) _ cB c(1)]])
    have sc: "x \<in> B \<union> E" if "x \<in> B - {c} \<union> E" for x using that by blast
    show "\<not> ((is_free g)(b := False)) b" by simp
    show "x \<in> B - {c} \<Longrightarrow> MM_GET_BUF_SIZE g2 x = (?sz(b := ?sz b + 16 + ?sz c)) x" for x using tag(1) [of x] by blast
    show "x \<in> B - {c} \<union> E \<Longrightarrow> ((is_free g2)(b := False)) x = ((is_free g)(b := False)) x" for x using tag(2) [of x] by auto
    show "((prev_is_free g2)(succ ?sz c := False)) x = ((prev_is_free g)(succ ?sz b := False, succ ?sz c := False)) x"
      if "x \<in> B - {c} \<union> E" for x
    proof -
      have "x \<noteq> c" using that tiled_block(8) [OF mp(4) cB] by auto
      then show ?thesis using tag(3) [OF sc [OF that]] by (simp add: c(1) [symmetric])
    qed
    fix x assume x: "x \<in> B - {c}" "((is_free g)(b := False)) x"
    then have "succ (?sz(b := ?sz b + 16 + ?sz c)) x = succ ?sz x" by (auto simp: succ_def split: if_splits)
    moreover have "succ ?sz x \<in> B \<union> E" using tiled_block(5) [OF mp(4)] x by blast
    ultimately show "prevs g2 (succ (?sz(b := ?sz b + 16 + ?sz c)) x) = prevs g (succ (?sz(b := ?sz b + 16 + ?sz c)) x)"
      using tag(4) by simp
  qed
  moreover have "dyed g2 (B - {c} - {b}) E" using mp(6) tag(2,5) by (auto simp: dyed_def)
  moreover have "bounded (B - {c}) E" using mp(7) by (rule bounded_subset) blast
  ultimately show "mid g2 (B - {c}) E b" using mp(1) cb unfolding mid_def fb sb by simp
  show "core_frame g g2" using core_frame_links [OF d(2)] a(7) by (rule core_frame_trans)
  have inb: "word_at g2 (fld x i) = word_at g (fld x i)" if "x \<in> B" "x \<notin> ?F" "16 \<le> i" "i < 16 + unat (?sz x)" for x i
    using byte [of x i] links_only_tags [OF d(2) mp(4) F, of x i] that by auto
  show "16 \<le> i \<Longrightarrow> i < 16 + unat (?sz b) \<Longrightarrow> word_at g2 (fld b i) = word_at g (fld b i)" using inb [OF mp(1)] by simp
  show "keeps g g2 (used_blocks g B - {b})"
    unfolding keeps_def
  proof (intro ballI conjI allI impI)
    fix x i assume x: "x \<in> used_blocks g B - {b}"
    then have x': "x \<in> B" "x \<notin> ?F" "x \<noteq> b" by (auto simp: used_blocks_def free_blocks_def)
    show "MM_GET_BUF_SIZE g2 x = ?sz x" using tag(1) [of x] x' by simp
    show "16 \<le> i \<and> i < 16 + unat (?sz x) \<Longrightarrow> word_at g2 (fld x i) = word_at g (fld x i)" using inb [OF x'(1,2)] by simp
  qed
qed

section \<open>Being absorbed by the previous block\<close>

lemma mid_absorb_prev:
  assumes m: "mid g B E b" and c: "prev_is_free g b" "\<not> is_free g (succ (MM_GET_BUF_SIZE g) b)" and p: "p = prevs g b"
    and g1: "g1 = k_mm_freelist_delete g p" and g2: "g2 = store g1 (size_at p) (word_at g1 (size_at p) + MM_GET_BLK_SIZE g1 b)"
  shows "p \<in> free_blocks g B - {b}" "mid g2 (B - {b}) E p" "is_free g2 p" "\<not> prev_is_free g2 p" "dyes g2 p = RHINO_MM_FREE_DYE"
    "\<not> is_free g2 (succ (MM_GET_BUF_SIZE g2) p)" "32 \<le> unat (MM_GET_BUF_SIZE g2 p)" "dyes g p = RHINO_MM_FREE_DYE"
    "used_blocks g2 (B - {b}) = used_blocks g B - {b}" "keeps g g2 (used_blocks g B - {b})" "core_frame g g2"
proof -
  note mp = mid_parts [OF m]
  let ?sz = "MM_GET_BUF_SIZE g" and ?F = "free_blocks g B - {b}"
  have sbb: "succ ?sz b \<noteq> b" by (rule tiled_succ_neq [OF mp(4,1)])
  have "((prev_is_free g)(succ ?sz b := False)) b" using c(1) sbb by simp
  note tp = tagged_prev [OF mp(3,2) this, folded p]
  have pB: "p \<in> B" "p \<in> B \<union> E" and fp: "((is_free g)(b := False)) p" and sp: "b = succ ?sz p" using tp by simp_all
  have pb: "p \<noteq> b" "is_free g p" using fp by (auto split: if_splits)
  show pF: "p \<in> ?F" using pB pb by (simp add: free_blocks_def)
  have F: "?F \<subseteq> B" by (auto simp: free_blocks_def)
  note tf = tagged_free [OF mp(3) pB(1) fp]
  note d = freelist_delete [OF mp(4) F pF mp(5) tf(5), folded g1]
  note same = links_only_same [OF d(2) mp(4) F]
  have k: "MM_GET_BLK_SIZE g1 b = ?sz b + 16" using same(1) [OF mp(2)] by (simp add: MM_GET_BLK_SIZE_def head_size)
  have ka: "aligned (?sz b + 16)" by (intro aligned_add buf_size_aligned) (simp add: aligned_def)
  note a = add_size_word [OF mp(4) pB(1) ka g2 [unfolded k]]
  note mg = tiled_merge [OF mp(4) pB(1) mp(1) sp]
  have szb: "?sz p + (?sz b + 16) = ?sz p + 16 + ?sz b" by (simp add: algebra_simps)
  have tag: "MM_GET_BUF_SIZE g2 x = (?sz(p := ?sz p + 16 + ?sz b)) x" "is_free g2 x = is_free g x" "prev_is_free g2 x = prev_is_free g x"
    "prevs g2 x = prevs g x" "dyes g2 x = dyes g x" if x: "x \<in> B \<union> E" for x
    using a(2-6) [OF x] same [OF x] same(1) [OF pB(2)] szb by (simp_all add: fun_upd_def)
  have p2: "MM_GET_BUF_SIZE g2 p = ?sz p + 16 + ?sz b" using tag(1) [OF pB(2)] by simp
  have sp2: "succ (MM_GET_BUF_SIZE g2) p = succ ?sz b" using mg(3) p2 by (simp add: succ_def)
  have sbB: "succ ?sz b \<in> B \<union> E" by (rule tiled_block(5) [OF mp(4,1)])
  show "is_free g2 p" using tag(2) [OF pB(2)] pb by simp
  show "\<not> is_free g2 (succ (MM_GET_BUF_SIZE g2) p)" using tag(2) [OF sbB] c(2) unfolding sp2 by simp
  show dp: "dyes g p = RHINO_MM_FREE_DYE" using mp(6) pB pb by (auto simp: dyed_def)
  then show "dyes g2 p = RHINO_MM_FREE_DYE" using tag(5) [OF pB(2)] by simp
  show "32 \<le> unat (MM_GET_BUF_SIZE g2 p)" using p2 mg(2) tf(4) by simp
  have psb: "p \<noteq> succ ?sz b" using succ_above [OF mp(4) pB(1)] succ_above [OF mp(4,1)] by (auto simp: sp [symmetric])
  show "\<not> prev_is_free g2 p"
  proof
    assume "prev_is_free g2 p"
    then have "((prev_is_free g)(succ ?sz b := False)) p" using tag(3) [OF pB(2)] psb by simp
    from tagged_prev [OF mp(3) pB(2) this] have "prevs g p \<in> B" "((is_free g)(b := False)) (prevs g p)" "succ ?sz (prevs g p) = p" by simp_all
    then have "\<not> ((is_free g)(b := False)) p" using tagged_free(3) [OF mp(3), of "prevs g p"] by simp
    then show False using fp by simp
  qed
  show "used_blocks g2 (B - {b}) = used_blocks g B - {b}" using tag(2) by (auto simp: used_blocks_def)
  have fb: "free_blocks g2 (B - {b}) - {p} = ?F - {p}" using tag(2) by (auto simp: free_blocks_def)
  have byte: "word_at g2 (fld x i) = word_at g1 (fld x i)" if "x \<in> B \<union> E" "i < 16 \<or> x \<in> B \<and> i < 16 + unat (?sz x)" "i \<noteq> 12 \<or> x \<noteq> p" for x i
    using a(1) [OF that(1,2)] that(3) by auto
  have "freelists g2 (?F - {p})"
  proof (rule freelists_cong [OF d(1) a(8,9)])
    fix x assume x: "x \<in> ?F - {p}"
    then have xB: "x \<in> B" "x \<in> B \<union> E" "x \<noteq> p" "8 \<le> unat (?sz x)" using F tiled_block(3) [OF mp(4)] by auto
    show "fprevs g2 x = fprevs g1 x \<and> fnexts g2 x = fnexts g1 x \<and> MM_GET_BUF_SIZE g2 x = MM_GET_BUF_SIZE g1 x"
      using byte [OF xB(2), of 16] byte [OF xB(2), of 20] xB tag(1) [OF xB(2)] same(1) [OF xB(2)] by (simp add: at_fld)
  qed
  moreover have "tagged (B - {b}) E (MM_GET_BUF_SIZE g2) ((is_free g2)(p := False)) ((prev_is_free g2)(succ ?sz b := False)) (prevs g2)"
  proof (rule tagged_cong [OF tagged_absorb [OF tagged_take [OF mp(3) pB(1) fp] pB(1) _ mp(1) sp]])
    have sc: "x \<in> B \<union> E" if "x \<in> B - {b} \<union> E" for x using that by blast
    show "\<not> ((is_free g)(b := False, p := False)) p" by simp
    show "x \<in> B - {b} \<Longrightarrow> MM_GET_BUF_SIZE g2 x = (?sz(p := ?sz p + 16 + ?sz b)) x" for x using tag(1) [of x] by blast
    have nb: "x \<noteq> b" if "x \<in> B - {b} \<union> E" for x using that tiled_block(8) [OF mp(4,1)] by auto
    show "x \<in> B - {b} \<union> E \<Longrightarrow> ((is_free g2)(p := False)) x = ((is_free g)(b := False, p := False)) x" for x
      using tag(2) [OF sc, of x] nb [of x] by simp
    show "x \<in> B - {b} \<union> E \<Longrightarrow> ((prev_is_free g2)(succ ?sz b := False)) x =
        ((prev_is_free g)(succ ?sz b := False, succ ?sz p := False, succ ?sz b := False)) x" for x
      using tag(3) [OF sc, of x] nb [of x] by (simp add: sp [symmetric])
    fix x assume x: "x \<in> B - {b}" "((is_free g)(b := False, p := False)) x"
    then have "succ (?sz(p := ?sz p + 16 + ?sz b)) x = succ ?sz x" by (auto simp: succ_def split: if_splits)
    moreover have "succ ?sz x \<in> B \<union> E" using tiled_block(5) [OF mp(4)] x by blast
    ultimately show "prevs g2 (succ (?sz(p := ?sz p + 16 + ?sz b)) x) = prevs g (succ (?sz(p := ?sz p + 16 + ?sz b)) x)"
      using tag(4) by simp
  qed
  moreover have "dyed g2 (B - {b} - {p}) E" using mp(6) tag(2,5) by (auto simp: dyed_def)
  moreover have "bounded (B - {b}) E" using mp(7) by (rule bounded_subset) blast
  ultimately show "mid g2 (B - {b}) E p" using pB(1) pb unfolding mid_def fb sp2 by simp
  show "core_frame g g2" using core_frame_links [OF d(2)] a(7) by (rule core_frame_trans)
  show "keeps g g2 (used_blocks g B - {b})"
    unfolding keeps_def
  proof (intro ballI conjI allI impI)
    fix x i assume x: "x \<in> used_blocks g B - {b}"
    then have x': "x \<in> B" "x \<notin> ?F" "x \<noteq> p" using pb by (auto simp: used_blocks_def free_blocks_def)
    show "MM_GET_BUF_SIZE g2 x = ?sz x" using tag(1) [of x] x' by simp
    show "16 \<le> i \<and> i < 16 + unat (?sz x) \<Longrightarrow> word_at g2 (fld x i) = word_at g (fld x i)"
      using byte [of x i] links_only_tags [OF d(2) mp(4) F, of x i] x' by auto
  qed
qed

section \<open>Putting the block on a list\<close>

lemma mid_release:
  assumes m: "mid g B E b" and b: "is_free g b" "\<not> prev_is_free g b" "dyes g b = RHINO_MM_FREE_DYE" "32 \<le> unat (MM_GET_BUF_SIZE g b)"
    and nx: "nx = succ (MM_GET_BUF_SIZE g) b" "\<not> is_free g nx" and g1: "g1 = k_mm_freelist_insert g b"
    and g3: "g3 = (let g2 = store g1 (prev_at nx) b in store g2 (size_at nx) (word_at g2 (size_at nx) OR RHINO_MM_PREVFREE))"
  shows "heap_ok g3 B E" "used_blocks g3 B = used_blocks g B" "keeps g g3 (used_blocks g B)" "core_frame g g3"
    "MM_GET_BUF_SIZE g1 b = MM_GET_BUF_SIZE g b" "dyes g1 nx = RHINO_MM_CORRUPT_DYE"
proof -
  note mp = mid_parts [OF m]
  let ?sz = "MM_GET_BUF_SIZE g" and ?F = "free_blocks g B - {b}"
  have F: "?F \<subseteq> B" "b \<notin> ?F" "insert b ?F \<subseteq> B" "insert b ?F = free_blocks g B" using mp(1) b(1) by (auto simp: free_blocks_def)
  have b20: "unat (?sz b) < 2 ^ 20" using bounded_size [OF mp(7,4,1)] by simp
  note i = freelist_insert [OF mp(4) F(1) mp(1) F(2) mp(5) b20, folded g1]
  note same = links_only_same [OF i(2) mp(4) F(3)]
  have nxB: "nx \<in> B \<union> E" "nx \<noteq> b" using tiled_block(5) [OF mp(4,1)] tiled_succ_neq [OF mp(4,1)] by (auto simp: nx(1))
  define g2 where "g2 = store g1 (prev_at nx) b"
  have word: "word_at g3 (fld x i) = (if x = nx \<and> i = 12 then word_at g1 (fld nx 12) OR 2 else if x = nx \<and> i = 8 then b else word_at g1 (fld x i))"
    if x: "x \<in> B \<union> E" "i < 16 \<or> x \<in> B \<and> i < 16 + unat (?sz x)" for x i
  proof -
    have "fld x i = fld nx 8 \<longleftrightarrow> x = nx \<and> i = 8" "fld x i = fld nx 12 \<longleftrightarrow> x = nx \<and> i = 12" "fld nx 12 = fld nx 8 \<longleftrightarrow> nx = nx \<and> (12 :: nat) = 8"
      by (rule fld_eq [OF mp(4)]; use x nxB in simp)+
    then show ?thesis unfolding g3 Let_def g2_def at_fld mm_consts by (simp add: word_at_store)
  qed
  have tag: "MM_GET_BUF_SIZE g3 x = ?sz x" "is_free g3 x = is_free g x" "prev_is_free g3 x = ((prev_is_free g)(nx := True)) x"
    "prevs g3 x = ((prevs g)(nx := b)) x" "dyes g3 x = dyes g x" if x: "x \<in> B \<union> E" for x
  proof -
    have w12: "word_at g3 (fld x 12) = (if x = nx then word_at g1 (fld nx 12) OR 2 else word_at g1 (fld x 12))"
      using word [OF x, of 12] by simp
    have old: "word_at g1 (fld y 12) AND NOT 7 = MM_GET_BUF_SIZE g1 y" "(word_at g1 (fld y 12) AND 1 \<noteq> 0) = is_free g1 y"
      "(word_at g1 (fld y 12) AND 2 \<noteq> 0) = prev_is_free g1 y" for y
      by (rule size_word [OF refl, symmetric])+
    have "MM_GET_BUF_SIZE g3 x = MM_GET_BUF_SIZE g1 x" "is_free g3 x = is_free g1 x" "prev_is_free g3 x = (x = nx \<or> prev_is_free g1 x)"
      unfolding size_word [OF w12] old [symmetric] by (auto simp: flags_simp)
    then show "MM_GET_BUF_SIZE g3 x = ?sz x" "is_free g3 x = is_free g x" "prev_is_free g3 x = ((prev_is_free g)(nx := True)) x"
      using same [OF x] by simp_all
    show "prevs g3 x = ((prevs g)(nx := b)) x" "dyes g3 x = dyes g x"
      using word [OF x, of 8] word [OF x, of 0] same [OF x] by (auto simp: at_fld)
  qed
  have byte: "word_at g3 (fld x i) = word_at g1 (fld x i)" if "x \<in> B \<union> E" "i < 16 \<or> x \<in> B \<and> i < 16 + unat (?sz x)" "16 \<le> i" for x i
    using word [OF that(1,2)] that(3) by auto
  have FG: "{x \<in> B. ((is_free g)(b := True)) x} = insert b ?F" using mp(1) by (auto simp: free_blocks_def)
  show "heap_ok g3 B E"
  proof (rule heap_okI [OF tagged_release [OF mp(3,1)]])
    show "freelists g3 {x \<in> B. ((is_free g)(b := False, b := True)) x}"
      unfolding fun_upd_upd FG
    proof (rule freelists_cong [OF i(1)])
      show "freelist g3 = freelist g1" "free_bitmap g3 = free_bitmap g1" by (simp_all add: g3 Let_def)
      fix x assume "x \<in> insert b ?F"
      then have xB: "x \<in> B" "x \<in> B \<union> E" "8 \<le> unat (?sz x)" using F(3) tiled_block(3) [OF mp(4)] by blast+
      show "fprevs g3 x = fprevs g1 x \<and> fnexts g3 x = fnexts g1 x \<and> MM_GET_BUF_SIZE g3 x = MM_GET_BUF_SIZE g1 x"
        using byte [OF xB(2), of 16] byte [OF xB(2), of 20] xB tag(1) [OF xB(2)] same(1) [OF xB(2)] by (simp add: at_fld)
    qed
    show "\<not> ((is_free g)(b := False)) (succ ?sz b)" using nx nxB by simp
    show "\<not> ((prev_is_free g)(succ ?sz b := False)) b" using b(2) by simp
    show "32 \<le> unat (?sz b)" "unat (?sz b) < 2 ^ 20" "bounded B E" by (fact b(4) b20 mp(7))+
    fix x assume x: "x \<in> B \<union> E"
    show "MM_GET_BUF_SIZE g3 x = ?sz x" by (rule tag(1) [OF x])
    show "is_free g3 x = ((is_free g)(b := False, b := True)) x" using tag(2) [OF x] b(1) by simp
    show "prev_is_free g3 x = ((prev_is_free g)(succ ?sz b := False, succ ?sz b := True)) x" using tag(3) [OF x] nx(1) by simp
    show "prevs g3 x = ((prevs g)(succ ?sz b := b)) x" using tag(4) [OF x] nx(1) by simp
    show "dyes g3 x = (if ((is_free g)(b := False, b := True)) x then RHINO_MM_FREE_DYE else RHINO_MM_CORRUPT_DYE)"
      using tag(5) [OF x] b(1,3) mp(6) x by (auto simp: dyed_def)
  qed
  show "used_blocks g3 B = used_blocks g B" using tag(2) by (auto simp: used_blocks_def)
  show "core_frame g g3" using core_frame_links [OF i(2)] by (simp add: g3 Let_def)
  show "MM_GET_BUF_SIZE g1 b = ?sz b" by (rule same(1) [OF mp(2)])
  show "dyes g1 nx = RHINO_MM_CORRUPT_DYE" using same(5) [OF nxB(1)] mp(6) nxB nx(2) by (auto simp: dyed_def)
  show "keeps g g3 (used_blocks g B)"
    unfolding keeps_def
  proof (intro ballI conjI allI impI)
    fix x i assume "x \<in> used_blocks g B"
    then have x: "x \<in> B" "x \<in> B \<union> E" "x \<notin> insert b ?F" using b(1) by (auto simp: used_blocks_def free_blocks_def)
    show "MM_GET_BUF_SIZE g3 x = ?sz x" by (rule tag(1) [OF x(2)])
    show "16 \<le> i \<and> i < 16 + unat (?sz x) \<Longrightarrow> word_at g3 (fld x i) = word_at g (fld x i)"
      using byte [of x i] links_only_tags [OF i(2) mp(4) F(3), of x i] x by auto
  qed
qed

section \<open>Release\<close>

text \<open>A block is marked free before its neighbours are looked at.\<close>

lemma mid_mark:
  assumes m: "mid h B E b"
    and g_def: "g = mark_free h b"
  shows "mid g B E b" "is_free g b" "dyes g b = RHINO_MM_FREE_DYE" "MM_GET_BUF_SIZE g b = MM_GET_BUF_SIZE h b"
    "used_blocks g B - {b} = used_blocks h B - {b}" "keeps h g B" "core_frame h g"
proof -
  note mp = mid_parts [OF m] and g = g_def [unfolded mark_free_def]
  let ?sz = "MM_GET_BUF_SIZE h"
  have word: "word_at g (fld x i) = (if x = b \<and> i = 12 then word_at h (fld b 12) OR 1 else if x = b \<and> i = 4 then 0
      else if x = b \<and> i = 0 then RHINO_MM_FREE_DYE else word_at h (fld x i))"
    if x: "x \<in> B \<union> E" "i < 16 \<or> x \<in> B \<and> i < 16 + unat (?sz x)" for x i
  proof -
    have "fld x i = fld b 0 \<longleftrightarrow> x = b \<and> i = 0" "fld x i = fld b 4 \<longleftrightarrow> x = b \<and> i = 4" "fld x i = fld b 12 \<longleftrightarrow> x = b \<and> i = 12"
      "fld b 0 = fld b 4 \<longleftrightarrow> b = b \<and> (0 :: nat) = 4" "fld b 12 = fld b 4 \<longleftrightarrow> b = b \<and> (12 :: nat) = 4" "fld b 12 = fld b 0 \<longleftrightarrow> b = b \<and> (12 :: nat) = 0"
      by (rule fld_eq [OF mp(4)]; use x mp(2) in simp)+
    then show ?thesis unfolding g Let_def at_fld mm_consts by (simp add: word_at_store)
  qed
  have tag: "MM_GET_BUF_SIZE g x = ?sz x" "is_free g x = ((is_free h)(b := True)) x" "prev_is_free g x = prev_is_free h x"
    "prevs g x = prevs h x" "dyes g x = ((dyes h)(b := RHINO_MM_FREE_DYE)) x" if x: "x \<in> B \<union> E" for x
  proof -
    have w12: "word_at g (fld x 12) = (if x = b then word_at h (fld b 12) OR 1 else word_at h (fld x 12))"
      using word [OF x, of 12] by simp
    have old: "word_at h (fld y 12) AND NOT 7 = ?sz y" "(word_at h (fld y 12) AND 1 \<noteq> 0) = is_free h y"
      "(word_at h (fld y 12) AND 2 \<noteq> 0) = prev_is_free h y" for y
      by (rule size_word [OF refl, symmetric])+
    show "MM_GET_BUF_SIZE g x = ?sz x" "is_free g x = ((is_free h)(b := True)) x" "prev_is_free g x = prev_is_free h x"
      unfolding size_word [OF w12] old [symmetric] fun_upd_apply by (auto simp: flags_simp)
    show "prevs g x = prevs h x" "dyes g x = ((dyes h)(b := RHINO_MM_FREE_DYE)) x"
      using word [OF x, of 8] word [OF x, of 0] by (auto simp: at_fld)
  qed
  show "is_free g b" "dyes g b = RHINO_MM_FREE_DYE" "MM_GET_BUF_SIZE g b = ?sz b" using tag(2,5,1) [OF mp(2)] by simp_all
  have fb: "free_blocks g B - {b} = free_blocks h B - {b}" using tag(2) by (auto simp: free_blocks_def)
  show "used_blocks g B - {b} = used_blocks h B - {b}" using tag(2) by (auto simp: used_blocks_def split: if_splits)
  have "freelists g (free_blocks h B - {b})"
  proof (rule freelists_cong [OF mp(5)])
    show "freelist g = freelist h" "free_bitmap g = free_bitmap h" by (simp_all add: g Let_def)
    fix x assume "x \<in> free_blocks h B - {b}"
    then have x: "x \<in> B" "x \<in> B \<union> E" "8 \<le> unat (?sz x)" using tiled_block(3) [OF mp(4)] by (auto simp: free_blocks_def)
    show "fprevs g x = fprevs h x \<and> fnexts g x = fnexts h x \<and> MM_GET_BUF_SIZE g x = MM_GET_BUF_SIZE h x"
      using word [OF x(2), of 16] word [OF x(2), of 20] x tag(1) [OF x(2)] by (simp add: at_fld)
  qed
  moreover have sc: "succ (MM_GET_BUF_SIZE g) b = succ ?sz b" using tag(1) [OF mp(2)] by (simp add: succ_def)
  moreover have "tagged B E (MM_GET_BUF_SIZE g) ((is_free g)(b := False)) ((prev_is_free g)(succ ?sz b := False)) (prevs g)"
    by (rule tagged_cong [OF mp(3)]; use tag tiled_block(5) [OF mp(4)] in auto)
  moreover have "dyed g (B - {b}) E" using mp(6) tag(2,5) tiled_block(8) [OF mp(4,1)] by (auto simp: dyed_def split: if_splits)
  ultimately show "mid g B E b" using mp(1,7) unfolding mid_def fb sc by simp
  show "keeps h g B" using word tag(1) by (auto simp: keeps_def)
  show "core_frame h g" by (simp add: g Let_def)
qed

lemma same_blocks_mid:
  assumes "same_blocks h h'"
  shows "mid h' B E b = mid h B E b"
proof -
  have w: "word_at h' = word_at h" "freelist h' = freelist h" "free_bitmap h' = free_bitmap h"
    using assms by (simp_all add: same_blocks_def)
  have "MM_GET_BUF_SIZE h' = MM_GET_BUF_SIZE h" "is_free h' = is_free h" "prev_is_free h' = prev_is_free h"
    by (simp_all add: fun_eq_iff MM_GET_BUF_SIZE_def is_free_def prev_is_free_def w)
  then show ?thesis by (simp add: mid_def freelists_def dyed_def free_blocks_def w)
qed

text \<open>What a release of \<open>b\<close> gives.\<close>

definition blk_released :: "heap \<Rightarrow> heap \<Rightarrow> u32 set \<Rightarrow> u32 set \<Rightarrow> u32 \<Rightarrow> bool" where
  "blk_released h h' B E b \<longleftrightarrow> (\<exists>B' \<subseteq> B. heap_ok h' B' E \<and> used_blocks h' B' = used_blocks h B - {b}) \<and>
     keeps h h' (used_blocks h B - {b}) \<and> core_frame h h'"

lemma this_blk: "MM_GET_THIS_BLK (buf_of b) = b"
  by (simp add: MM_GET_THIS_BLK_def buf_of_def head_size)

lemma buffer_nonzero: "tiled B E sz \<Longrightarrow> b \<in> B \<Longrightarrow> buf_of b \<noteq> 0"
proof
  assume t: "tiled B E sz" "b \<in> B" and "buf_of b = 0"
  then have "unat (b + 16) = 0" by (simp add: buf_of_def)
  moreover have "unat (b + 16) = unat b + 16" using tiled_block(4) [OF t] by (simp add: unat_word_ariths)
  ultimately show False by simp
qed

text \<open>The merge with the next block, as \<open>k_mm_free\<close> writes it, and then with the previous one.\<close>

lemma k_mm_free_mid:
  assumes m: "mid h B E b" and b: "32 \<le> unat (MM_GET_BUF_SIZE h b)" "dyes h b = RHINO_MM_CORRUPT_DYE"
    and np: "\<not> krhino_mblk_check h (fix_pool h = 0) (buf_of b)"
  shows "blk_released h (k_mm_free h False (buf_of b)) B E b"
proof -
  have bB: "b \<in> B" by (rule mid_parts(1) [OF m])
  have dd: "RHINO_MM_CORRUPT_DYE \<noteq> RHINO_MM_FREE_DYE" by (simp add: mm_consts)
  define h4 where "h4 = mark_free h b"
  note k = mid_mark [OF m h4_def]
  define h5 where "h5 = removesize h4 (MM_GET_BLK_SIZE h4 b)"
  have s45: "same_blocks h4 h5" by (simp add: h5_def)
  note e5 = same_blocks_ok [OF s45]
  have m5: "mid h5 B E b" using k(1) same_blocks_mid [OF s45] by simp
  have w5: "word_at h5 = word_at h4" using s45 by (simp add: same_blocks_def)
  have i5: "is_free h5 b" "dyes h5 b = RHINO_MM_FREE_DYE" "MM_GET_BUF_SIZE h5 b = MM_GET_BUF_SIZE h b" "core_frame h h5"
    "used_blocks h5 B - {b} = used_blocks h B - {b}" "keeps h h5 (used_blocks h B - {b})"
    using k e5 w5 by (auto simp: h5_def used_blocks_def intro: keeps_subset)
  define nx where "nx = succ (MM_GET_BUF_SIZE h5) b"
  define h6 where "h6 = merge_next h5 b"
  note h6_if = h6_def [unfolded merge_next_def next_blk nx_def [symmetric]]
  have "\<exists>B1 \<subseteq> B. mid h6 B1 E b \<and> \<not> is_free h6 (succ (MM_GET_BUF_SIZE h6) b) \<and> is_free h6 b \<and> dyes h6 b = RHINO_MM_FREE_DYE \<and>
      32 \<le> unat (MM_GET_BUF_SIZE h6 b) \<and> used_blocks h6 B1 - {b} = used_blocks h B - {b} \<and> keeps h h6 (used_blocks h B - {b}) \<and> core_frame h h6"
  proof (cases "is_free h5 nx")
    case False
    then show ?thesis using m5 i5 b(1) by (intro exI [of _ B]) (simp add: h6_if Let_def nx_def)
  next
    case True
    define g1 where "g1 = k_mm_freelist_delete h5 nx"
    have h6: "h6 = store g1 (size_at b) (word_at g1 (size_at b) + MM_GET_BLK_SIZE g1 nx)" using True by (simp add: h6_if g1_def Let_def)
    note a = mid_absorb [OF m5 nx_def True g1_def h6]
    have kp: "keeps h5 h6 (used_blocks h B - {b})" using a(14) i5(5) by (simp add: used_blocks_def)
    show ?thesis
      using a i5 b(1) keeps_trans [OF i5(6) kp] core_frame_trans [OF i5(4) a(15)]
      by (intro exI [of _ "B - {nx}"]) auto
  qed
  then obtain B1 where B1: "B1 \<subseteq> B" and m6: "mid h6 B1 E b" and i6: "\<not> is_free h6 (succ (MM_GET_BUF_SIZE h6) b)" "is_free h6 b"
    "dyes h6 b = RHINO_MM_FREE_DYE" "32 \<le> unat (MM_GET_BUF_SIZE h6 b)" "used_blocks h6 B1 - {b} = used_blocks h B - {b}"
    "keeps h h6 (used_blocks h B - {b})" "core_frame h h6" by blast
  define p where "p = prevs h6 b"
  define x where "x = (if prev_is_free h6 b then p else b)"
  define h7 where "h7 = (if prev_is_free h6 b then
      (let g1 = k_mm_freelist_delete h6 p in store g1 (size_at p) (word_at g1 (size_at p) + MM_GET_BLK_SIZE g1 b)) else h6)"
  have "\<exists>B2 \<subseteq> B. mid h7 B2 E x \<and> is_free h7 x \<and> \<not> prev_is_free h7 x \<and> dyes h7 x = RHINO_MM_FREE_DYE \<and>
      32 \<le> unat (MM_GET_BUF_SIZE h7 x) \<and> \<not> is_free h7 (succ (MM_GET_BUF_SIZE h7) x) \<and> used_blocks h7 B2 = used_blocks h B - {b} \<and>
      keeps h h7 (used_blocks h B - {b}) \<and> core_frame h h7 \<and> (prev_is_free h6 b \<longrightarrow> dyes h6 p = RHINO_MM_FREE_DYE)"
  proof (cases "prev_is_free h6 b")
    case False
    have "used_blocks h6 B1 = used_blocks h6 B1 - {b}" using i6(2) by (auto simp: used_blocks_def)
    then show ?thesis using m6 i6 B1 False by (intro exI [of _ B1]) (simp add: h7_def x_def)
  next
    case True
    define g1 where "g1 = k_mm_freelist_delete h6 p"
    have h7: "h7 = store g1 (size_at p) (word_at g1 (size_at p) + MM_GET_BLK_SIZE g1 b)" using True by (simp add: h7_def g1_def Let_def)
    note a = mid_absorb_prev [OF m6 True i6(1) p_def g1_def h7]
    have kp: "keeps h6 h7 (used_blocks h B - {b})" using a(10) i6(5) by simp
    show ?thesis
      using a i6(5) B1 True keeps_trans [OF i6(6) kp] core_frame_trans [OF i6(7) a(11)]
      by (intro exI [of _ "B1 - {b}"]) (auto simp: x_def)
  qed
  then obtain B2 where B2: "B2 \<subseteq> B" and m7: "mid h7 B2 E x" and i7: "is_free h7 x" "\<not> prev_is_free h7 x" "dyes h7 x = RHINO_MM_FREE_DYE"
    "32 \<le> unat (MM_GET_BUF_SIZE h7 x)" "\<not> is_free h7 (succ (MM_GET_BUF_SIZE h7) x)" "used_blocks h7 B2 = used_blocks h B - {b}"
    "keeps h h7 (used_blocks h B - {b})" "core_frame h h7" "prev_is_free h6 b \<Longrightarrow> dyes h6 p = RHINO_MM_FREE_DYE" by blast
  define h8 where "h8 = k_mm_freelist_insert h7 x"
  define nx' where "nx' = succ (MM_GET_BUF_SIZE h7) x"
  define h10 where "h10 = (let g2 = store h8 (prev_at nx') x in store g2 (size_at nx') (word_at g2 (size_at nx') OR RHINO_MM_PREVFREE))"
  note r = mid_release [OF m7 i7(1-4) nx'_def i7(5) [folded nx'_def] h8_def h10_def]
  have nx8: "MM_GET_NEXT_BLK h8 x = nx'" using r(5) by (simp add: next_blk succ_def nx'_def)
  have "merge_prev h6 b = (x, h7)" using i7(9) by (simp add: merge_prev_def x_def h7_def p_def Let_def)
  moreover have "list_free h7 x = h10" using r(6) by (simp add: list_free_def Let_def h8_def [symmetric] nx8 h10_def)
  ultimately have "k_mm_free h False (buf_of b) = h10"
    using buffer_nonzero [OF mid_parts(4) [OF m] bB] np b(2) dd
    by (simp add: k_mm_free_def this_blk Let_def h4_def [symmetric] h5_def [symmetric] h6_def [symmetric])
  moreover have "keeps h h10 (used_blocks h B - {b})" using keeps_trans [OF i7(7)] r(3) i7(6) by simp
  moreover have "core_frame h h10" by (rule core_frame_trans [OF i7(8) r(4)])
  ultimately show ?thesis using r(1,2) i7(6) B2 by (auto simp: blk_released_def)
qed

lemma k_mm_free_block:
  assumes ok: "heap_ok h B E" and b: "b \<in> used_blocks h B" "32 \<le> unat (MM_GET_BUF_SIZE h b)"
    and np: "\<not> krhino_mblk_check h (fix_pool h = 0) (buf_of b)"
  shows "blk_released h (k_mm_free h False (buf_of b)) B E b"
proof -
  have "dyes h b = RHINO_MM_CORRUPT_DYE" using heap_ok_parts(4) [OF ok] b(1) by (auto simp: dyed_def used_blocks_def)
  then show ?thesis by (rule k_mm_free_mid [OF mid_of_used [OF ok b(1)] b(2) _ np])
qed

end
