(* ===== verification/Mm_Realloc.thy ===== *)
theory Mm_Realloc
  imports Mm_Free
begin

text \<open>
  Reallocation: a block shrinks or grows in place where it can, and moves otherwise; either way its
  contents are kept up to the smaller of the two sizes. A write to a buffer in use never harms the heap.
\<close>

section \<open>Writes of the users\<close>

lemma user_write:
  assumes ok: "heap_ok h B E" and b: "b \<in> used_blocks h B" and i: "16 \<le> i" "i < 16 + unat (MM_GET_BUF_SIZE h b)"
  shows "heap_ok (store h (fld b i) v) B E" "used_blocks (store h (fld b i) v) B = used_blocks h B"
    "MM_GET_BUF_SIZE (store h (fld b i) v) x = MM_GET_BUF_SIZE h x \<or> x \<notin> B \<union> E"
    "x \<in> B \<Longrightarrow> 16 \<le> j \<Longrightarrow> j < 16 + unat (MM_GET_BUF_SIZE h x) \<Longrightarrow>
       word_at (store h (fld b i) v) (fld x j) = (if x = b \<and> j = i then v else word_at h (fld x j))"
proof -
  note ok' = heap_ok_parts [OF ok]
  let ?g = "store h (fld b i) v"
  have bB: "b \<in> B" "b \<in> B \<union> E" "\<not> is_free h b" using b by (auto simp: used_blocks_def)
  have word: "word_at ?g (fld x j) = (if x = b \<and> j = i then v else word_at h (fld x j))"
    if "x \<in> B \<union> E" "j < 16 \<or> x \<in> B \<and> j < 16 + unat (MM_GET_BUF_SIZE h x)" for x j
    using fld_eq [OF ok'(2) that(1) bB(2) that(2), of i] i bB by (simp add: word_at_store)
  have tag: "MM_GET_BUF_SIZE ?g x = MM_GET_BUF_SIZE h x" "is_free ?g x = is_free h x" "prev_is_free ?g x = prev_is_free h x"
    "prevs ?g x = prevs h x" "dyes ?g x = dyes h x" if x: "x \<in> B \<union> E" for x
  proof -
    have "word_at ?g (fld x k) = word_at h (fld x k)" if "k < 16" for k using word [OF x, of k] that i by auto
    note t = same_tags [OF this]
    show "MM_GET_BUF_SIZE ?g x = MM_GET_BUF_SIZE h x" "is_free ?g x = is_free h x" "prev_is_free ?g x = prev_is_free h x"
      "prevs ?g x = prevs h x" "dyes ?g x = dyes h x" by (rule t; assumption)+
  qed
  have "freelists ?g {x \<in> B. is_free h x}"
  proof (rule freelists_cong [OF ok'(3) [unfolded free_blocks_def]])
    fix x assume "x \<in> {x \<in> B. is_free h x}"
    then have x: "x \<in> B \<union> E" "x \<noteq> b" "x \<in> B" "8 \<le> unat (MM_GET_BUF_SIZE h x)" using bB tiled_block(3) [OF ok'(2)] by auto
    show "fprevs ?g x = fprevs h x \<and> fnexts ?g x = fnexts h x \<and> MM_GET_BUF_SIZE ?g x = MM_GET_BUF_SIZE h x"
      using word [OF x(1), of 16] word [OF x(1), of 20] x tag(1) [OF x(1)] by (simp add: at_fld)
  qed simp_all
  then show "heap_ok ?g B E" by (rule heap_okI [OF ok'(1) _ ok'(5)]; use tag ok'(4) in \<open>auto simp: dyed_def\<close>)
  show "used_blocks ?g B = used_blocks h B" using tag(2) by (auto simp: used_blocks_def)
  show "MM_GET_BUF_SIZE ?g x = MM_GET_BUF_SIZE h x \<or> x \<notin> B \<union> E" using tag(1) by blast
  show "x \<in> B \<Longrightarrow> 16 \<le> j \<Longrightarrow> j < 16 + unat (MM_GET_BUF_SIZE h x) \<Longrightarrow> word_at ?g (fld x j) = (if x = b \<and> j = i then v else word_at h (fld x j))"
    using word by simp
qed

section \<open>Resizing in place\<close>

text \<open>The block \<open>b\<close> has \<open>new\<close> bytes at least, with the contents it had.\<close>

definition resized :: "heap \<Rightarrow> heap \<Rightarrow> u32 set \<Rightarrow> u32 set \<Rightarrow> u32 \<Rightarrow> u32 \<Rightarrow> bool" where
  "resized h h' B E b new \<longleftrightarrow> (\<exists>B'. heap_ok h' B' E \<and> used_blocks h' B' = used_blocks h B) \<and> new \<le> MM_GET_BUF_SIZE h' b \<and>
     keeps h h' (used_blocks h B - {b}) \<and> core_frame h h' \<and>
     (\<forall>i. 16 \<le> i \<and> i < 16 + unat (MM_GET_BUF_SIZE h b) \<and> i < 16 + unat new \<longrightarrow> word_at h' (fld b i) = word_at h (fld b i))"

lemma resized_stats: "resized h h' B E b new \<Longrightarrow> resized h (addsize h' m r) B E b new"
  by (simp add: resized_def same_blocks_ok [OF same_blocks_stats(1)])

lemma dyed_insert:
  assumes d: "dyed g (B - {b}) E" and b: "\<not> is_free g b" "dyes g b = RHINO_MM_CORRUPT_DYE"
  shows "dyed g B E"
  unfolding dyed_def
proof
  fix x assume "x \<in> B \<union> E"
  then show "dyes g x = (if is_free g x then RHINO_MM_FREE_DYE else RHINO_MM_CORRUPT_DYE)"
    using d b by (cases "x = b") (auto simp: dyed_def)
qed

lemma resized_pre:
  assumes s: "same_blocks h h1" "core_frame h h1" and r: "resized h1 h' B E b new"
  shows "resized h h' B E b new"
proof -
  note e = same_blocks_ok [OF s(1)]
  have w: "word_at h1 = word_at h" using s(1) by (simp add: same_blocks_def)
  have "keeps h h' U = keeps h1 h' U" for U by (simp add: keeps_def e(5) w)
  then show ?thesis using r core_frame_trans [OF s(2)] by (simp add: resized_def e(2,5) w)
qed

lemma mid_done:
  assumes m: "mid g B E b" and b: "\<not> is_free g b" "dyes g b = RHINO_MM_CORRUPT_DYE" "\<not> prev_is_free g (succ (MM_GET_BUF_SIZE g) b)"
  shows "heap_ok g B E"
proof -
  note mp = mid_parts [OF m]
  have "(is_free g)(b := False) = is_free g" using b(1) by (simp add: fun_upd_idem)
  moreover have "(prev_is_free g)(succ (MM_GET_BUF_SIZE g) b := False) = prev_is_free g" using b(3) by (simp add: fun_upd_idem)
  moreover have "free_blocks g B - {b} = free_blocks g B" using b(1) by (auto simp: free_blocks_def)
  moreover have "dyed g B E" by (rule dyed_insert [OF mp(6) b(1,2)])
  ultimately show ?thesis using mp by (simp add: heap_ok_def)
qed

lemma resize_split_ok:
  assumes m: "mid g B E b" and b: "\<not> is_free g b" "dyes g b = RHINO_MM_CORRUPT_DYE"
    and nx: "nx = succ (MM_GET_BUF_SIZE g) b" "\<not> is_free g nx"
    and n: "aligned new" "32 \<le> unat new" "new \<le> MM_GET_BUF_SIZE g b"
    and p: "prev_is_free g nx \<Longrightarrow> unat new + 48 \<le> unat (MM_GET_BUF_SIZE g b)"
  shows "resized g (resize_split g b (MM_GET_BUF_SIZE g b) new nx) B E b new"
proof -
  note mp = mid_parts [OF m]
  have bu: "b \<in> used_blocks g B" using mp(1) b(1) by (simp add: used_blocks_def)
  define Z where "Z = unat (MM_GET_BUF_SIZE g b)"
  have Z: "Z + 16 \<le> 2 ^ 20" "unat new \<le> Z" using bounded_size [OF mp(7,4,1)] n(3) by (simp_all add: Z_def word_le_nat_alt)
  have us: "unat (new + MMLIST_HEAD_SIZE + MM_MIN_SIZE) = unat new + 48" using Z by (simp add: head_size mm_consts unat_word_ariths)
  show ?thesis
  proof (cases "MM_GET_BUF_SIZE g b \<ge> new + MMLIST_HEAD_SIZE + MM_MIN_SIZE")
    case False
    then have "\<not> unat new + 48 \<le> unat (MM_GET_BUF_SIZE g b)" using us by (simp add: word_le_nat_alt)
    then have "\<not> prev_is_free g nx" using p by blast
    then have "heap_ok g B E" using mid_done [OF m b] nx(1) by simp
    then show ?thesis using False n(3) by (auto simp: resized_def resize_split_def keeps_refl)
  next
    case True
    define r where "r = MM_GET_BUF_SIZE g b - new - MMLIST_HEAD_SIZE"
    have "unat new + 48 \<le> Z" using True us by (simp add: Z_def word_le_nat_alt)
    moreover have "unat r = Z - unat new - 16" using n(3) calculation by (simp add: r_def head_size Z_def unat_sub_if' word_le_nat_alt)
    ultimately have r: "unat r = Z - unat new - 16" "unat new + 16 + unat r = Z" "32 \<le> unat r" "unat r < 2 ^ 20" using Z by linarith+
    have "8 dvd Z - unat new - 16" using n(1) buf_size_aligned [of g b] by (simp add: aligned_dvd Z_def)
    then have ra: "aligned r" using r(1) by (simp add: aligned_dvd)
    have sz: "unat (MM_GET_BUF_SIZE g b) = unat new + 16 + unat r" using r(2) by (simp add: Z_def)
    obtain s g1 where sp: "split_block g b new r nx = (s, g1)" by fastforce
    define g2 where "g2 = store g1 (size_at nx) (word_at g1 (size_at nx) OR RHINO_MM_PREVFREE)"
    define g3 where "g3 = k_mm_freelist_insert g2 s"
    have n8: "8 \<le> unat new" and r8: "8 \<le> unat r" using n(2) r(3) by simp_all
    note so = split_off [OF mp(3) [folded nx(1)] mp(1) nx mp(5,6) n(1) n8 ra r(3,4) sz sp g2_def g3_def]
    have g3: "resize_split g b (MM_GET_BUF_SIZE g b) new nx = g3"
      using True by (simp add: resize_split_def Let_def r_def [symmetric] sp g2_def [symmetric] g3_def [symmetric])
    note e = split_block_effect [OF mp(4,1) n(1) n8 ra r8 sz nx(1) sp]
    have "unat s = unat b + 16 + unat new" using e(1) sz tiled_block(4) [OF mp(4,1)] by (simp add: unat_word_ariths)
    then have bd: "bounded (insert s B) E" using sz by (intro bounded_insert [OF mp(7,4,1)]) simp_all
    have u3: "used_blocks g3 (insert s B) = used_blocks g B" using so(4) bu by auto
    have "\<not> is_free g3 b" using u3 bu by (auto simp: used_blocks_def)
    moreover have "dyes g3 b = RHINO_MM_CORRUPT_DYE" by (rule trans [OF so(6) b(2)])
    ultimately have "dyed g3 (insert s B) E" by (rule dyed_insert [OF so(3)])
    then have "heap_ok g3 (insert s B) E" using so(1,2) bd by (simp add: heap_ok_def)
    then show ?thesis unfolding g3 resized_def using u3 so(5,7,8,10) by auto
  qed
qed

lemma shrink_block_ok:
  assumes ok: "heap_ok h B E" and b: "b \<in> used_blocks h B" and n: "aligned new" "32 \<le> unat new" "new \<le> MM_GET_BUF_SIZE h b"
  shows "resized h (shrink_block h b new req) B E b new"
proof -
  note ok' = heap_ok_parts [OF ok]
  have bB: "b \<in> B" "\<not> is_free h b" "dyes h b = RHINO_MM_CORRUPT_DYE" using b ok'(4) by (auto simp: used_blocks_def dyed_def)
  define h1 where "h1 = removesize h (MM_GET_BLK_SIZE h b)"
  have s1: "same_blocks h h1" by (simp add: h1_def)
  note e1 = same_blocks_ok [OF s1]
  have w1: "word_at h1 = word_at h" using s1 by (simp add: same_blocks_def)
  have m1: "mid h1 B E b" using mid_of_used [OF ok b] same_blocks_mid [OF s1] by simp
  have b1: "\<not> is_free h1 b" "dyes h1 b = RHINO_MM_CORRUPT_DYE" using bB e1(6) w1 by simp_all
  define nx where "nx = succ (MM_GET_BUF_SIZE h) b"
  have nx1: "nx = succ (MM_GET_BUF_SIZE h1) b" by (simp add: nx_def e1(5))
  have np: "\<not> prev_is_free h nx"
  proof
    assume "prev_is_free h nx"
    then obtain x where "x \<in> B" "is_free h x" "succ (MM_GET_BUF_SIZE h) x = nx"
      using tagged_prev [OF ok'(1) tiled_block(5) [OF ok'(2) bB(1), folded nx_def]] by blast
    then show False using tiled_inj [OF ok'(2) _ bB(1), of x] bB(2) by (simp add: nx_def)
  qed
  have lift: "resized h h' B E b new" if "resized h1 h' B E b new" for h'
    by (rule resized_pre [OF s1 _ that]) (simp add: h1_def)
  show ?thesis
  proof (cases "is_free h nx")
    case False
    define h3 where "h3 = resize_split h1 b (MM_GET_BUF_SIZE h1 b) new nx"
    have "\<not> is_free h1 nx" "\<not> prev_is_free h1 nx" using False np e1(6) w1 by (simp_all add: prev_is_free_def)
    then have "resized h1 h3 B E b new" using n e1(5) unfolding h3_def by (intro resize_split_ok [OF m1 b1 nx1]) simp_all
    moreover have "shrink_block h b new req = addsize h3 (MM_GET_BLK_SIZE h3 b) req"
      using False e1(5,6) by (simp add: shrink_block_def Let_def next_blk nx_def [symmetric] h1_def [symmetric] h3_def)
    ultimately show ?thesis using lift resized_stats by metis
  next
    case True
    define g1 where "g1 = k_mm_freelist_delete h1 nx"
    define g2 where "g2 = store g1 (size_at b) (word_at g1 (size_at b) + MM_GET_BLK_SIZE g1 nx)"
    have "is_free h1 nx" using True e1(6) by simp
    note a = mid_absorb [OF m1 nx1 this g1_def g2_def]
    have F: "free_blocks h1 B - {b} \<subseteq> B" by (auto simp: free_blocks_def)
    have nxB: "nx \<in> B" using a(1) by (simp add: free_blocks_def)
    note same = links_only_same [OF a(3) mid_parts(4) [OF m1] F]
    define nx' where "nx' = succ (MM_GET_BUF_SIZE h) nx"
    have nx': "nx' = succ (MM_GET_BUF_SIZE g2) b" "MM_GET_NEXT_BLK g1 nx = nx'"
      using a(7) e1(5) same(1) [of nx] nxB by (simp_all add: nx'_def next_blk succ_def)
    have f2: "\<not> is_free g2 b" "dyes g2 b = RHINO_MM_CORRUPT_DYE" "\<not> is_free g2 nx'" using a(8,9,12) b1 nx'(1) by simp_all
    have fn: "32 \<le> unat (MM_GET_BUF_SIZE h nx)" using tagged_free(4) [OF ok'(1) nxB True] .
    have big: "unat new + 48 \<le> unat (MM_GET_BUF_SIZE g2 b)" using a(6) e1(5) n(3) fn by (simp add: word_le_nat_alt)
    define h3 where "h3 = resize_split g2 b (MM_GET_BUF_SIZE g2 b) new nx'"
    have "resized g2 h3 (B - {nx}) E b new" unfolding h3_def
      by (rule resize_split_ok [OF a(4) f2(1,2) nx'(1) f2(3) n(1,2)]) (use big in \<open>simp_all add: word_le_nat_alt\<close>)
    then have "resized h1 h3 B E b new"
      using a(13-16) a(6) n(3) e1(5) unfolding resized_def
      by (auto simp: word_le_nat_alt intro: core_frame_trans keeps_trans)
    moreover have "shrink_block h b new req = addsize h3 (MM_GET_BLK_SIZE h3 b) req"
    proof -
      have ka: "aligned (MM_GET_BLK_SIZE g1 nx)" unfolding a(2) by (intro aligned_add buf_size_aligned) (simp add: aligned_def)
      have "word_at g2 (size_at b) AND 2 = word_at g1 (size_at b) AND 2" by (simp add: g2_def word_at_store add_flags(3) [OF ka])
      moreover have "store g2 (size_at b) v = store g1 (size_at b) v" for v by (simp add: g2_def store_def)
      ultimately have "split_block g1 b new r nx' = split_block g2 b new r nx'" for r
        by (simp add: split_block_def mm_consts Let_def)
      then have "resize_split g1 b av new nx' = resize_split g2 b av new nx'" if "av \<ge> new + MMLIST_HEAD_SIZE + MM_MIN_SIZE" for av
        using that by (simp add: resize_split_def)
      moreover have "MM_GET_BUF_SIZE h b + MM_GET_BLK_SIZE g1 nx = MM_GET_BUF_SIZE g2 b" using a(2,5) e1(5) by (simp add: algebra_simps)
      moreover have "unat (new + MMLIST_HEAD_SIZE + MM_MIN_SIZE) = unat new + 48"
        using big bounded_size [OF mid_parts(7,4,1) [OF a(4)]] by (simp add: head_size mm_consts unat_word_ariths)
      then have "MM_GET_BUF_SIZE g2 b \<ge> new + MMLIST_HEAD_SIZE + MM_MIN_SIZE" using big by (simp add: word_le_nat_alt)
      ultimately show ?thesis using True e1(6)
        by (simp add: shrink_block_def Let_def next_blk [of h] nx_def [symmetric] h1_def [symmetric] g1_def [symmetric] nx'(2) h3_def)
    qed
    ultimately show ?thesis using lift resized_stats by metis
  qed
qed

text \<open>The next block learns who is in front of it, and that it is in use.\<close>

lemma mid_link_next:
  assumes m: "mid g B E b" and nx: "nx = succ (MM_GET_BUF_SIZE g) b"
    and g': "g' = (let g1 = store g (prev_at nx) b in store g1 (size_at nx) (word_at g1 (size_at nx) AND NOT RHINO_MM_PREVFREE))"
  shows "mid g' B E b" "x \<in> B \<union> E \<Longrightarrow> MM_GET_BUF_SIZE g' x = MM_GET_BUF_SIZE g x" "x \<in> B \<union> E \<Longrightarrow> is_free g' x = is_free g x"
    "x \<in> B \<union> E \<Longrightarrow> dyes g' x = dyes g x" "\<not> prev_is_free g' nx" "used_blocks g' B = used_blocks g B" "keeps g g' B" "core_frame g g'"
proof -
  note mp = mid_parts [OF m]
  let ?sz = "MM_GET_BUF_SIZE g"
  have nxB: "nx \<in> B \<union> E" "nx \<noteq> b" using tiled_block(5) [OF mp(4,1)] tiled_succ_neq [OF mp(4,1)] by (auto simp: nx)
  have word: "word_at g' (fld x i) = (if x = nx \<and> i = 12 then word_at g (fld nx 12) AND NOT 2 else if x = nx \<and> i = 8 then b else word_at g (fld x i))"
    if x: "x \<in> B \<union> E" "i < 16 \<or> x \<in> B \<and> i < 16 + unat (?sz x)" for x i
  proof -
    have "fld x i = fld nx 8 \<longleftrightarrow> x = nx \<and> i = 8" "fld x i = fld nx 12 \<longleftrightarrow> x = nx \<and> i = 12" "fld nx 12 = fld nx 8 \<longleftrightarrow> nx = nx \<and> (12 :: nat) = 8"
      by (rule fld_eq [OF mp(4)]; use x nxB in simp)+
    then show ?thesis unfolding g' Let_def at_fld mm_consts by (simp add: word_at_store)
  qed
  have tag: "MM_GET_BUF_SIZE g' x = ?sz x" "is_free g' x = is_free g x" "prev_is_free g' x = ((prev_is_free g)(nx := False)) x"
    "prevs g' x = ((prevs g)(nx := b)) x" "dyes g' x = dyes g x" if x: "x \<in> B \<union> E" for x
  proof -
    have w12: "word_at g' (fld x 12) = (if x = nx then word_at g (fld nx 12) AND NOT 2 else word_at g (fld x 12))"
      using word [OF x, of 12] by simp
    have old: "word_at g (fld y 12) AND NOT 7 = ?sz y" "(word_at g (fld y 12) AND 1 \<noteq> 0) = is_free g y"
      "(word_at g (fld y 12) AND 2 \<noteq> 0) = prev_is_free g y" for y
      by (rule size_word [OF refl, symmetric])+
    show "MM_GET_BUF_SIZE g' x = ?sz x" "is_free g' x = is_free g x" "prev_is_free g' x = ((prev_is_free g)(nx := False)) x"
      unfolding size_word [OF w12] old [symmetric] by (auto simp: flags_simp)
    show "prevs g' x = ((prevs g)(nx := b)) x" "dyes g' x = dyes g x"
      using word [OF x, of 8] word [OF x, of 0] by (auto simp: at_fld)
  qed
  show "x \<in> B \<union> E \<Longrightarrow> MM_GET_BUF_SIZE g' x = ?sz x" "x \<in> B \<union> E \<Longrightarrow> is_free g' x = is_free g x" "x \<in> B \<union> E \<Longrightarrow> dyes g' x = dyes g x"
    by (rule tag; assumption)+
  show "\<not> prev_is_free g' nx" using tag(3) [OF nxB(1)] by simp
  show "used_blocks g' B = used_blocks g B" using tag(2) by (auto simp: used_blocks_def)
  have fb: "free_blocks g' B = free_blocks g B" using tag(2) by (auto simp: free_blocks_def)
  have sb: "succ (MM_GET_BUF_SIZE g') b = nx" using tag(1) [OF mp(2)] by (simp add: succ_def nx)
  have byte: "word_at g' (fld x i) = word_at g (fld x i)" if "x \<in> B \<union> E" "x \<in> B \<and> i < 16 + unat (?sz x)" "16 \<le> i" for x i
    using word [OF that(1)] that(2,3) by auto
  have "freelists g' (free_blocks g B - {b})"
  proof (rule freelists_cong [OF mp(5)])
    show "freelist g' = freelist g" "free_bitmap g' = free_bitmap g" by (simp_all add: g' Let_def)
    fix x assume "x \<in> free_blocks g B - {b}"
    then have x: "x \<in> B" "x \<in> B \<union> E" "8 \<le> unat (?sz x)" using tiled_block(3) [OF mp(4)] by (auto simp: free_blocks_def)
    show "fprevs g' x = fprevs g x \<and> fnexts g' x = fnexts g x \<and> MM_GET_BUF_SIZE g' x = MM_GET_BUF_SIZE g x"
      using byte [OF x(2), of 16] byte [OF x(2), of 20] x tag(1) [OF x(2)] by (simp add: at_fld)
  qed
  moreover have "tagged B E (MM_GET_BUF_SIZE g') ((is_free g')(b := False)) ((prev_is_free g')(nx := False)) (prevs g')"
  proof (rule tagged_cong [OF mp(3)])
    show "x \<in> B \<Longrightarrow> MM_GET_BUF_SIZE g' x = ?sz x" for x using tag(1) by blast
    show "x \<in> B \<union> E \<Longrightarrow> ((is_free g')(b := False)) x = ((is_free g)(b := False)) x" for x using tag(2) by simp
    show "x \<in> B \<union> E \<Longrightarrow> ((prev_is_free g')(nx := False)) x = ((prev_is_free g)(succ ?sz b := False)) x" for x using tag(3) by (simp add: nx)
    fix x assume x: "x \<in> B" "((is_free g)(b := False)) x"
    then have "succ ?sz x \<noteq> nx" using tiled_inj [OF mp(4) x(1) mp(1)] by (auto simp: nx split: if_splits)
    then show "prevs g' (succ ?sz x) = prevs g (succ ?sz x)" using tag(4) [OF tiled_block(5) [OF mp(4) x(1)]] by simp
  qed
  moreover have "dyed g' (B - {b}) E" using mp(6) tag(2,5) by (auto simp: dyed_def)
  ultimately show "mid g' B E b" using mp(1,7) unfolding mid_def fb sb by simp
  show "keeps g g' B" using byte tag(1) by (auto simp: keeps_def)
  show "core_frame g g'" by (simp add: g' Let_def)
qed

lemma enlarge_block_ok:
  assumes ok: "heap_ok h B E" and b: "b \<in> used_blocks h B" and n: "aligned new" "32 \<le> unat new"
    and nx: "is_free h (MM_GET_NEXT_BLK h b)" "new \<le> MM_GET_BUF_SIZE h b + MM_GET_BLK_SIZE h (MM_GET_NEXT_BLK h b)"
  shows "resized h (enlarge_block h b new req) B E b new"
proof -
  note ok' = heap_ok_parts [OF ok]
  have bB: "b \<in> B" "\<not> is_free h b" "dyes h b = RHINO_MM_CORRUPT_DYE" using b ok'(4) by (auto simp: used_blocks_def dyed_def)
  define h1 where "h1 = removesize h (MM_GET_BLK_SIZE h b)"
  have s1: "same_blocks h h1" by (simp add: h1_def)
  note e1 = same_blocks_ok [OF s1]
  have w1: "word_at h1 = word_at h" using s1 by (simp add: same_blocks_def)
  have m1: "mid h1 B E b" using mid_of_used [OF ok b] same_blocks_mid [OF s1] by simp
  have b1: "\<not> is_free h1 b" "dyes h1 b = RHINO_MM_CORRUPT_DYE" using bB e1(6) w1 by simp_all
  define c where "c = succ (MM_GET_BUF_SIZE h) b"
  have c: "c = succ (MM_GET_BUF_SIZE h1) b" "is_free h1 c" using nx(1) by (simp_all add: c_def e1(5,6) next_blk)
  define g1 where "g1 = k_mm_freelist_delete h1 c"
  define g2 where "g2 = store g1 (size_at b) (word_at g1 (size_at b) + MM_GET_BLK_SIZE g1 c)"
  note a = mid_absorb [OF m1 c g1_def g2_def]
  define nx' where "nx' = succ (MM_GET_BUF_SIZE g2) b"
  define g5 where "g5 = (let g = store g2 (prev_at nx') b in store g (size_at nx') (word_at g (size_at nx') AND NOT RHINO_MM_PREVFREE))"
  note l = mid_link_next [OF a(4) nx'_def g5_def]
  note mp2 = mid_parts [OF a(4)]
  have nxB: "nx' \<in> B - {c} \<union> E" using tiled_block(5) [OF mp2(4,1)] by (simp add: nx'_def)
  have b5: "\<not> is_free g5 b" "dyes g5 b = RHINO_MM_CORRUPT_DYE" "MM_GET_BUF_SIZE g5 b = MM_GET_BUF_SIZE g2 b"
    using l(2-4) [OF mp2(2)] a(9,12) b1 by simp_all
  have nx5: "nx' = succ (MM_GET_BUF_SIZE g5) b" "\<not> is_free g5 nx'" using b5(3) l(3) [OF nxB] a(8) by (simp_all add: nx'_def succ_def)
  have "new \<le> MM_GET_BUF_SIZE g5 b" using nx(2) a(5) b5(3) e1(5) by (simp add: next_blk c_def [symmetric] MM_GET_BLK_SIZE_def head_size algebra_simps)
  define h6 where "h6 = resize_split g5 b (MM_GET_BUF_SIZE g5 b) new nx'"
  have r: "resized g5 h6 (B - {c}) E b new" unfolding h6_def
    using l(5) by (intro resize_split_ok [OF l(1) b5(1,2) nx5 n \<open>new \<le> MM_GET_BUF_SIZE g5 b\<close>]) simp
  have u: "used_blocks g5 (B - {c}) = used_blocks h1 B" using l(6) a(13) by simp
  have k: "keeps h1 g5 (used_blocks h1 B - {b})"
    by (rule keeps_trans [OF a(14) keeps_subset [OF l(7)]]) (use u in \<open>auto simp: used_blocks_def\<close>)
  have cf: "core_frame h1 g5" by (rule core_frame_trans [OF a(15) l(8)])
  have byte: "word_at g5 (fld b i) = word_at h1 (fld b i)" if i: "16 \<le> i" "i < 16 + unat (MM_GET_BUF_SIZE h1 b)" for i
  proof -
    have "i < 16 + unat (MM_GET_BUF_SIZE g2 b)" using i(2) a(6) by simp
    then have "word_at g5 (fld b i) = word_at g2 (fld b i)" using l(7) mp2(1) i(1) by (auto simp: keeps_def)
    then show ?thesis using a(16) i by simp
  qed
  have r1: "resized h1 h6 B E b new"
  proof -
    have "unat (MM_GET_BUF_SIZE h1 b) \<le> unat (MM_GET_BUF_SIZE g5 b)" using a(6) b5(3) by simp
    then show ?thesis using r u byte keeps_trans [OF k] core_frame_trans [OF cf] unfolding resized_def by auto
  qed
  have "resized h h6 B E b new" by (rule resized_pre [OF s1 _ r1]) (simp add: h1_def)
  moreover have "enlarge_block h b new req = addsize h6 (MM_GET_BLK_SIZE h6 b) req"
    by (simp add: enlarge_block_def Let_def next_blk c_def [symmetric] h1_def [symmetric] g1_def [symmetric] g2_def [symmetric]
      nx'_def [symmetric] g5_def [unfolded Let_def, symmetric] h6_def)
  ultimately show ?thesis using resized_stats by simp
qed

section \<open>Copying\<close>

lemma fld_next: "fld b i + 4 = fld b (i + 4)"
  by (simp add: fld_def)

text \<open>Words are copied from one buffer in use to another.\<close>

lemma copy_words_ok:
  assumes "heap_ok h B E" "d \<in> used_blocks h B" "s \<in> used_blocks h B" "s \<noteq> d"
    and "16 \<le> i" "i + 4 * n \<le> 16 + unat (MM_GET_BUF_SIZE h d)" "16 \<le> j" "j + 4 * n \<le> 16 + unat (MM_GET_BUF_SIZE h s)"
    and "h' = copy_words n h (fld d i) (fld s j)"
  shows "heap_ok h' B E \<and> used_blocks h' B = used_blocks h B \<and> keeps h h' (used_blocks h B - {d}) \<and> core_frame h h' \<and>
    MM_GET_BUF_SIZE h' d = MM_GET_BUF_SIZE h d \<and> (\<forall>k < n. word_at h' (fld d (i + 4 * k)) = word_at h (fld s (j + 4 * k))) \<and>
    (\<forall>k. 16 \<le> k \<and> k < i \<longrightarrow> word_at h' (fld d k) = word_at h (fld d k))"
  using assms
proof (induction n arbitrary: h i j)
  case 0
  then show ?case by (simp add: keeps_refl)
next
  case (Suc n)
  let ?g = "store h (fld d i) (word_at h (fld s j))"
  note ok = heap_ok_parts [OF Suc.prems(1)]
  have B: "d \<in> B" "s \<in> B" using Suc.prems by (auto simp: used_blocks_def)
  have i: "i < 16 + unat (MM_GET_BUF_SIZE h d)" using Suc.prems by simp
  note u = user_write [OF Suc.prems(1,2,5) i, where v = "word_at h (fld s j)"]
  have sz: "MM_GET_BUF_SIZE ?g x = MM_GET_BUF_SIZE h x" if "x \<in> B" for x using u(3) that by blast
  have IH: "heap_ok h' B E \<and> used_blocks h' B = used_blocks ?g B \<and> keeps ?g h' (used_blocks ?g B - {d}) \<and> core_frame ?g h' \<and>
    MM_GET_BUF_SIZE h' d = MM_GET_BUF_SIZE ?g d \<and>
    (\<forall>k < n. word_at h' (fld d (i + 4 + 4 * k)) = word_at ?g (fld s (j + 4 + 4 * k))) \<and>
    (\<forall>k. 16 \<le> k \<and> k < i + 4 \<longrightarrow> word_at h' (fld d k) = word_at ?g (fld d k))"
    by (rule Suc.IH [OF u(1)]; use Suc.prems u(2) sz B in \<open>simp add: fld_next\<close>)
  have "keeps h ?g (used_blocks h B - {d})" using u(4) sz by (auto simp: keeps_def used_blocks_def)
  then have k: "keeps h h' (used_blocks h B - {d})" using IH u(2) keeps_trans by auto
  have cf: "core_frame h h'" using IH core_frame_trans [of h ?g h'] by simp
  have e: "word_at ?g (fld s (j + 4 * k)) = word_at h (fld s (j + 4 * k))" if "k < Suc n" for k
    using u(4) [OF B(2), of "j + 4 * k"] Suc.prems(4,7,8) that by auto
  have f: "word_at ?g (fld d k) = (if k = i then word_at h (fld s j) else word_at h (fld d k))" if "16 \<le> k" "k < 16 + unat (MM_GET_BUF_SIZE h d)" for k
    using u(4) [OF B(1) that] by simp
  have c: "word_at h' (fld d (i + 4 * k)) = word_at h (fld s (j + 4 * k))" if "k < Suc n" for k
  proof (cases k)
    case 0
    then show ?thesis using IH f [OF Suc.prems(5) i] Suc.prems(5) by auto
  next
    case (Suc k')
    then have "word_at h' (fld d (i + 4 + 4 * k')) = word_at ?g (fld s (j + 4 + 4 * k'))" using IH that by simp
    then show ?thesis using e [OF that] Suc by (simp add: algebra_simps)
  qed
  have l: "word_at h' (fld d k) = word_at h (fld d k)" if "16 \<le> k" "k < i" for k
    using IH f [OF that(1)] that i by auto
  show ?case using IH u(2) sz [OF B(1)] k cf c l by simp
qed

section \<open>Reallocation\<close>

text \<open>The block \<open>b\<close> has become \<open>b'\<close>: itself, or one that was free.\<close>

definition reallocated :: "heap \<Rightarrow> heap \<Rightarrow> u32 set \<Rightarrow> u32 set \<Rightarrow> u32 \<Rightarrow> u32 \<Rightarrow> u32 \<Rightarrow> bool" where
  "reallocated h h' B E b b' new \<longleftrightarrow> (b' = b \<or> b' \<in> free_blocks h B) \<and>
     (\<exists>B'. heap_ok h' B' E \<and> used_blocks h' B' = insert b' (used_blocks h B - {b})) \<and> new \<le> MM_GET_BUF_SIZE h' b' \<and>
     keeps h h' (used_blocks h B - {b}) \<and> core_frame h h' \<and>
     (\<forall>k. 4 * k < unat (MM_GET_BUF_SIZE h b) \<and> 4 * k < unat new \<longrightarrow> word_at h' (fld b' (16 + 4 * k)) = word_at h (fld b (16 + 4 * k)))"

lemma resized_reallocated: "resized h h' B E b new \<Longrightarrow> b \<in> used_blocks h B \<Longrightarrow> reallocated h h' B E b b new"
  by (auto simp: resized_def reallocated_def insert_absorb)

lemma aligned_request_idem:
  assumes "unat s + 7 < 2 ^ 32"
  shows "aligned_request (aligned_request s) = aligned_request s" "unat (aligned_request s) + 7 < 2 ^ 32"
proof -
  note a = aligned_request [OF assms]
  have "8 dvd unat (aligned_request s)" using a(1) by (simp add: aligned_dvd)
  then obtain q where q: "unat (aligned_request s) = 8 * q" by auto
  have "unat (aligned_request s) < 2 ^ 32" by (rule order_less_le_trans [OF unsigned_less]) simp
  then have "8 * q < 2 ^ 32" using q by simp
  then have "q < 2 ^ 29" by simp
  then show s7: "unat (aligned_request s) + 7 < 2 ^ 32" using q by simp
  note u = align_up [OF s7]
  obtain r where r: "unat (MM_ALIGN_UP (aligned_request s)) = 8 * r" using u by (auto simp: aligned_dvd)
  have "q \<le> r" "8 * r < 8 * q + 8" using u q r by (simp_all add: word_le_nat_alt)
  then have "MM_ALIGN_UP (aligned_request s) = aligned_request s" using q r by (simp add: word_unat_eq_iff)
  then show "aligned_request (aligned_request s) = aligned_request s"
    using a(3) by (simp add: aligned_request_def [of "aligned_request s"] Let_def mm_consts word_less_nat_alt)
qed

lemma k_mm_realloc_block:
  assumes ok: "heap_ok h B E" and b: "b \<in> used_blocks h B" "32 \<le> unat (MM_GET_BUF_SIZE h b)"
    and np: "\<not> krhino_mblk_check h (fix_pool h = 0) (buf_of b)" and r: "req \<noteq> 0" "unat req + 7 < 2 ^ 32"
  shows "\<exists>h'. (k_mm_realloc h False (buf_of b) req = (0, h) \<and>
      (\<forall>c \<in> free_blocks h B. MM_GET_BUF_SIZE h c < aligned_request req)) \<or>
    (\<exists>b'. k_mm_realloc h False (buf_of b) req = (buf_of b', h') \<and> reallocated h h' B E b b' (aligned_request req))"
proof -
  note ok' = heap_ok_parts [OF ok]
  have bB: "b \<in> B" "\<not> is_free h b" using b by (auto simp: used_blocks_def)
  define s where "s = aligned_request req"
  note s = aligned_request [OF r(2), folded s_def]
  note nz = buffer_nonzero [OF ok'(2) bB(1)]
  define nx where "nx = MM_GET_NEXT_BLK h b"
  define old where "old = MM_GET_BUF_SIZE h b"
  have dye: "store h' (dye_at b) RHINO_MM_CORRUPT_DYE = h'" if "resized h h' B E b s" for h'
  proof -
    obtain B' where "heap_ok h' B' E" "b \<in> used_blocks h' B'" using \<open>resized h h' B E b s\<close> b(1) by (auto simp: resized_def)
    then have "dyes h' b = RHINO_MM_CORRUPT_DYE" using heap_ok_parts(4) by (auto simp: dyed_def used_blocks_def)
    then show ?thesis by (rule store_same)
  qed
  have place: "\<exists>h'. k_mm_realloc h False (buf_of b) req = (buf_of b, h') \<and> reallocated h h' B E b b s"
    if "resized h h' B E b s" "k_mm_realloc h False (buf_of b) req = (buf_of b, store h' (dye_at b) RHINO_MM_CORRUPT_DYE)" for h'
    using that dye [OF that(1)] resized_reallocated [OF that(1) b(1)] by auto
  show ?thesis
  proof (cases "s \<le> old")
    case True
    have "k_mm_realloc h False (buf_of b) req = (buf_of b, store (shrink_block h b s req) (dye_at b) RHINO_MM_CORRUPT_DYE)"
      using True nz np r(1) by (simp add: k_mm_realloc_def this_blk Let_def s_def [symmetric] old_def)
    moreover have "resized h (shrink_block h b s req) B E b s" using shrink_block_ok [OF ok b(1) s(1,3)] True by (simp add: old_def)
    ultimately show ?thesis using place unfolding s_def by blast
  next
    case False
    show ?thesis
    proof (cases "is_free h nx \<and> s \<le> old + MM_GET_BLK_SIZE h nx")
      case True
      have "k_mm_realloc h False (buf_of b) req = (buf_of b, store (enlarge_block h b s req) (dye_at b) RHINO_MM_CORRUPT_DYE)"
        using True False nz np r(1) by (simp add: k_mm_realloc_def this_blk Let_def s_def [symmetric] old_def nx_def)
      moreover have "resized h (enlarge_block h b s req) B E b s"
        using enlarge_block_ok [OF ok b(1) s(1,3)] True by (simp add: old_def nx_def)
      ultimately show ?thesis using place unfolding s_def by blast
    next
      case nm: False
      obtain p h2 where al: "k_mm_alloc h False s = (p, h2)" by fastforce
      have run: "k_mm_realloc h False (buf_of b) req = (if p = 0 then (0, h2) else
          (p, k_mm_free (copy_words (unat (if MM_GET_BUF_SIZE h2 b > s then s else MM_GET_BUF_SIZE h2 b) div 4) h2 p (buf_of b)) False (buf_of b)))"
        using False nz np r(1) al
        by (simp add: k_mm_realloc_def this_blk Let_def s_def [symmetric] old_def nm [unfolded nx_def old_def] del: de_Morgan_conj)
      have "unat RHINO_CONFIG_MM_BLK_SIZE = 32" by (simp add: mm_consts)
      then have small: "not_small h s" using False b(2) by (auto simp: not_small_def old_def word_le_nat_alt)
      have s0: "s \<noteq> 0" using s(3) by auto
      note si = aligned_request_idem [OF r(2), folded s_def]
      from k_mm_alloc_block [OF ok s0 si(2) small, unfolded si(1) al]
      consider "p = 0" "h2 = h" "\<forall>c \<in> free_blocks h B. MM_GET_BUF_SIZE h c < s"
        | d where "d \<in> free_blocks h B" "p = buf_of d" "allocated h h2 B E d s" by auto
      then show ?thesis
      proof cases
        case 1
        then show ?thesis using run by (simp add: s_def)
      next
        case (2 d)
        obtain B2 where B2: "heap_ok h2 B2 E" "B \<subseteq> B2" "used_blocks h2 B2 = insert d (used_blocks h B)"
          and a: "s \<le> MM_GET_BUF_SIZE h2 d" "keeps h h2 (used_blocks h B)" "core_frame h h2"
          using 2(3) by (auto simp: allocated_def)
        have db: "d \<noteq> b" using 2(1) b(1) by (auto simp: free_blocks_def used_blocks_def)
        have pnz: "p \<noteq> 0" using buffer_nonzero [OF ok'(2), of d] 2(1,2) by (simp add: free_blocks_def)
        have old2: "MM_GET_BUF_SIZE h2 b = old" using a(2) b(1) by (simp add: keeps_def old_def)
        have us: "unat old < unat s" using False by (simp add: word_le_nat_alt)
        define n where "n = unat old div 4"
        have n4: "4 * n \<le> unat old" by (simp add: n_def)
        have "8 dvd unat old" using buf_size_aligned [of h b] by (simp add: aligned_dvd old_def)
        then obtain q where q: "unat old = 8 * q" by auto
        have n4': "4 * k < unat old \<Longrightarrow> k < n" for k using q by (simp add: n_def)
        define h3 where "h3 = copy_words n h2 p (buf_of b)"
        have bf: "buf_of x = fld x 16" for x by (simp add: buf_of_def fld_def)
        have "d \<in> used_blocks h2 B2" "b \<in> used_blocks h2 B2" using B2(3) b(1) by simp_all
        note c = copy_words_ok [OF B2(1) this db [symmetric], of 16 n 16 h3]
        have c: "heap_ok h3 B2 E \<and> used_blocks h3 B2 = used_blocks h2 B2 \<and> keeps h2 h3 (used_blocks h2 B2 - {d}) \<and> core_frame h2 h3 \<and>
            MM_GET_BUF_SIZE h3 d = MM_GET_BUF_SIZE h2 d \<and> (\<forall>k < n. word_at h3 (fld d (16 + 4 * k)) = word_at h2 (fld b (16 + 4 * k)))"
          using c a(1) us n4 old2 by (simp add: h3_def 2(2) bf word_le_nat_alt)
        have u3: "used_blocks h3 B2 = insert d (used_blocks h B)" using c B2(3) by simp
        have ud: "d \<notin> used_blocks h B" using 2(1) by (auto simp: free_blocks_def used_blocks_def)
        then have ud2: "insert d (used_blocks h B) - {d} = used_blocks h B" by auto
        have k3: "keeps h h3 (used_blocks h B)" using keeps_trans [OF a(2)] c B2(3) ud2 by simp
        have f3: "core_frame h h3" using core_frame_trans [OF a(3)] c by simp
        have b3: "MM_GET_BUF_SIZE h3 b = old" using k3 b(1) by (simp add: keeps_def old_def)
        have "\<not> krhino_mblk_check h3 (fix_pool h3 = 0) (buf_of b)" using np f3 by (simp add: krhino_mblk_check_def core_frame_def)
        then have rl: "blk_released h3 (k_mm_free h3 False (buf_of b)) B2 E b"
          using c u3 [symmetric] b b3 by (intro k_mm_free_block) (auto simp: old_def)
        define h4 where "h4 = k_mm_free h3 False (buf_of b)"
        have u3b: "used_blocks h3 B2 - {b} = insert d (used_blocks h B - {b})" using u3 db by auto
        obtain B4 where B4: "heap_ok h4 B4 E" "used_blocks h4 B4 = insert d (used_blocks h B - {b})"
          and k4: "keeps h3 h4 (insert d (used_blocks h B - {b}))" and f4: "core_frame h3 h4"
          using rl u3b by (auto simp: blk_released_def h4_def [symmetric])
        have szd: "MM_GET_BUF_SIZE h4 d = MM_GET_BUF_SIZE h2 d" using k4 c by (simp add: keeps_def)
        have words: "word_at h4 (fld d (16 + 4 * k)) = word_at h (fld b (16 + 4 * k))" if k: "4 * k < unat old" for k
        proof -
          have "16 + 4 * k < 16 + unat (MM_GET_BUF_SIZE h3 d)" using k us a(1) c by (simp add: word_le_nat_alt)
          then have "word_at h4 (fld d (16 + 4 * k)) = word_at h3 (fld d (16 + 4 * k))" using k4 by (simp add: keeps_def)
          also have "\<dots> = word_at h2 (fld b (16 + 4 * k))" using c n4' [OF k] by simp
          also have "\<dots> = word_at h (fld b (16 + 4 * k))" using a(2) b(1) k by (simp add: keeps_def old_def)
          finally show ?thesis .
        qed
        have "keeps h h4 (used_blocks h B - {b})" by (rule keeps_trans [OF keeps_subset [OF k3] keeps_subset [OF k4]]) auto
        then have "reallocated h h4 B E b d s"
          using B4 2(1) a(1) szd words core_frame_trans [OF f3 f4] by (auto simp: reallocated_def old_def)
        moreover have "k_mm_realloc h False (buf_of b) req = (buf_of d, h4)"
          using run pnz us by (simp add: old2 2(2) h4_def h3_def n_def word_less_nat_alt not_less)
        ultimately show ?thesis unfolding s_def by blast
      qed
    qed
  qed
qed

end
