(* ===== verification/Mm_State.thy ===== *)
theory Mm_State
  imports Mm_Realloc
begin

text \<open>
  The whole state of the heap: the blocks, the pool of small blocks that lies in one of them, and what a
  client sees, a map from the pointers it holds to the words behind them.
\<close>

section \<open>The pool of small blocks\<close>

definition slots :: "u32 \<Rightarrow> u32 set" where
  "slots p = (\<lambda>i. fld p (56 + 32 * i)) ` {..<256}"

text \<open>The pool is in the block \<open>p\<close>, behind its head; the blocks \<open>S\<close> are in use, the others are on the chain.\<close>

definition pool_at :: "heap \<Rightarrow> u32 \<Rightarrow> u32 set \<Rightarrow> bool" where
  "pool_at h p S \<longleftrightarrow> fix_pool h = buf_of p \<and> 8232 \<le> unat (MM_GET_BUF_SIZE h p) \<and>
     pool_start (pool h) = fld p 56 \<and> pool_end (pool h) = fld p 8248 \<and> S \<subseteq> slots p \<and>
     (\<exists>bs. chain h (avail_list (pool h)) bs \<and> distinct bs \<and> set bs = slots p - S \<and> blk_avail (pool h) = of_nat (length bs))"

definition pool_ok :: "heap \<Rightarrow> u32 set \<Rightarrow> u32 set \<Rightarrow> bool" where
  "pool_ok h U S \<longleftrightarrow> (fix_pool h = 0 \<and> S = {}) \<or> (\<exists>p \<in> U. pool_at h p S)"

lemma slot_offset:
  assumes "s \<in> slots p"
  obtains i where "i < 256" "s = fld p (56 + 32 * i)"
  using assms by (auto simp: slots_def)

lemma chain_agree: "(\<And>b. b \<in> set bs \<Longrightarrow> word_at m' b = word_at m b) \<Longrightarrow> chain m' x bs = chain m x bs"
  by (induction bs arbitrary: x) auto

definition pool_frame :: "heap \<Rightarrow> heap \<Rightarrow> bool" where
  "pool_frame h h' \<longleftrightarrow> pool h' = pool h \<and> fix_pool h' = fix_pool h"

lemma pool_frame_core: "core_frame h h' \<Longrightarrow> pool_frame h h'"
  by (simp add: core_frame_def pool_frame_def)

lemma pool_at_frame:
  assumes "pool_at h p S" "pool_frame h h'" "keeps h h' {p}"
  shows "pool_at h' p S"
proof -
  obtain bs where bs: "chain h (avail_list (pool h)) bs" "distinct bs" "set bs = slots p - S" "blk_avail (pool h) = of_nat (length bs)"
    using assms(1) by (auto simp: pool_at_def)
  have f: "pool h' = pool h" "fix_pool h' = fix_pool h" using assms(2) by (simp_all add: pool_frame_def)
  have "word_at h' s = word_at h s" if "s \<in> set bs" for s
  proof -
    have "s \<in> slots p" using that bs(3) by simp
    then obtain i where i: "i < 256" "s = fld p (56 + 32 * i)" by (rule slot_offset)
    have "8232 \<le> unat (MM_GET_BUF_SIZE h p)" using assms(1) by (simp add: pool_at_def)
    then have "56 + 32 * i < 16 + unat (MM_GET_BUF_SIZE h p)" using i(1) by simp
    then show ?thesis using assms(3) i(2) by (simp add: keeps_def)
  qed
  then have "chain h' (avail_list (pool h')) bs" using bs(1) chain_agree [of bs h' h] f by simp
  moreover have "MM_GET_BUF_SIZE h' p = MM_GET_BUF_SIZE h p" using assms(3) by (simp add: keeps_def)
  moreover have "fix_pool h = buf_of p" "8232 \<le> unat (MM_GET_BUF_SIZE h p)" "pool_start (pool h) = fld p 56"
    "pool_end (pool h) = fld p 8248" "S \<subseteq> slots p" using assms(1) by (simp_all add: pool_at_def)
  ultimately show ?thesis unfolding pool_at_def f using bs(2-4) by (intro conjI exI [of _ bs]) simp_all
qed

text \<open>The address range of the pool is inside its block, so the buffer of no block is taken for one of its.\<close>

lemma pool_range:
  assumes t: "tiled B E (MM_GET_BUF_SIZE h)" and p: "p \<in> B" "pool_at h p S"
  shows "unat (pool_start (pool h)) = unat p + 56" "unat (pool_end (pool h)) = unat p + 8248"
proof -
  have "8232 \<le> unat (MM_GET_BUF_SIZE h p)" using p(2) by (simp add: pool_at_def)
  moreover have "unat p + 16 + unat (MM_GET_BUF_SIZE h p) < 2 ^ 32" using tiled_block(4) [OF t p(1)] by simp
  ultimately have b: "unat p + 8248 < 2 ^ 32" by linarith
  then have "unat (fld p i) = unat p + i" if "i \<le> 8248" for i
    using that by (simp add: fld_def unat_word_ariths unat_of_nat)
  then show "unat (pool_start (pool h)) = unat p + 56" "unat (pool_end (pool h)) = unat p + 8248"
    using p(2) by (simp_all add: pool_at_def)
qed

lemma tile_not_small:
  assumes t: "tiled B E (MM_GET_BUF_SIZE h)" and p: "pool_ok h U S" "U \<subseteq> B" and b: "b \<in> B"
  shows "\<not> krhino_mblk_check h (fix_pool h = 0) (buf_of b)"
proof
  assume c: "krhino_mblk_check h (fix_pool h = 0) (buf_of b)"
  obtain q where q: "q \<in> B" "pool_at h q S" using p c by (auto simp: pool_ok_def krhino_mblk_check_def)
  note r = pool_range [OF t q]
  have bb: "b \<in> B \<union> E" "q \<in> B \<union> E" using b q by auto
  have s: "8 \<le> unat (MM_GET_BUF_SIZE h b)" "8232 \<le> unat (MM_GET_BUF_SIZE h q)" using tiled_block(3) [OF t b] q(2) by (simp_all add: pool_at_def)
  have "buf_of b = fld b 16" by (simp add: buf_of_def fld_def)
  moreover have "unat (fld b 16) = unat b + 16" by (rule unat_fld [OF t bb(1)]) (use b s in simp)
  ultimately have u: "unat q + 56 \<le> unat b + 16" "unat b + 16 < unat q + 8248"
    using c r by (auto simp: krhino_mblk_check_def word_le_nat_alt word_less_nat_alt)
  define j where "j = unat b + 16 - unat q"
  have j: "unat b + 16 = unat q + j" "56 \<le> j" "j < 8248" using u by (simp_all add: j_def)
  have "unat (fld q j) = unat q + j" by (rule unat_fld [OF t bb(2)]) (use q s j in simp)
  then have "fld b 16 = fld q j" using \<open>unat (fld b 16) = unat b + 16\<close> j(1) by (simp add: word_unat_eq_iff)
  moreover have "fld b 16 = fld q j \<longleftrightarrow> b = q \<and> 16 = j" by (rule fld_eq [OF t bb]; use b q s j in simp)
  ultimately show False using j(2) by simp
qed

lemma block_not_small:
  "heap_ok h B E \<Longrightarrow> pool_ok h (used_blocks h B) S \<Longrightarrow> b \<in> B \<Longrightarrow> \<not> krhino_mblk_check h (fix_pool h = 0) (buf_of b)"
  by (rule tile_not_small [OF heap_ok_parts(2)]) (auto simp: used_blocks_def)

lemma slot_facts:
  assumes ok: "heap_ok h B E" and q: "q \<in> B" "pool_at h q S" and i: "i < 256"
  shows "krhino_mblk_check h (fix_pool h = 0) (fld q (56 + 32 * i))" "fld q (56 + 32 * i) \<noteq> 0"
    "16 + 40 + 32 * i + 32 \<le> 16 + unat (MM_GET_BUF_SIZE h q)"
proof -
  note t = heap_ok_parts(2) [OF ok]
  have s: "8232 \<le> unat (MM_GET_BUF_SIZE h q)" using q(2) by (simp add: pool_at_def)
  have u: "unat (fld q (56 + 32 * i)) = unat q + (56 + 32 * i)" by (rule unat_fld [OF t]) (use q s i in simp_all)
  have "fix_pool h \<noteq> 0" using buffer_nonzero [OF t q(1)] q(2) by (simp add: pool_at_def)
  then show "krhino_mblk_check h (fix_pool h = 0) (fld q (56 + 32 * i))"
    using pool_range [OF t q] u i by (simp add: krhino_mblk_check_def word_le_nat_alt word_less_nat_alt)
  show "fld q (56 + 32 * i) \<noteq> 0" using u by auto
  show "16 + 40 + 32 * i + 32 \<le> 16 + unat (MM_GET_BUF_SIZE h q)" using s i by simp
qed

lemma slot_inj:
  assumes ok: "heap_ok h B E" and q: "q \<in> B" "pool_at h q S" and i: "i < 256" "j < 256" "a < 32" "c < 32"
  shows "fld q (56 + 32 * i + a) = fld q (56 + 32 * j + c) \<longleftrightarrow> i = j \<and> a = c"
proof -
  note t = heap_ok_parts(2) [OF ok]
  have s: "8232 \<le> unat (MM_GET_BUF_SIZE h q)" using q(2) by (simp add: pool_at_def)
  have "fld q (56 + 32 * i + a) = fld q (56 + 32 * j + c) \<longleftrightarrow> q = q \<and> 56 + 32 * i + a = 56 + 32 * j + c"
    by (rule fld_eq [OF t]; use q s i in simp)
  also have "\<dots> \<longleftrightarrow> i = j \<and> a = c"
  proof
    assume e: "q = q \<and> 56 + 32 * i + a = 56 + 32 * j + c"
    have "i = (32 * i + a) div 32" "j = (32 * j + c) div 32" using i(3,4) by simp_all
    moreover have "32 * i + a = 32 * j + c" using e by linarith
    ultimately have "i = j" by metis
    then show "i = j \<and> a = c" using e by simp
  qed simp
  finally show ?thesis .
qed

section \<open>What a client sees\<close>

text \<open>The words behind a pointer; a pointer to a small block or to the buffer of a block in use that is neither the
  pool's nor a region's.\<close>

definition buf_words :: "heap \<Rightarrow> u32 \<Rightarrow> nat \<Rightarrow> u32 list" where
  "buf_words h q n = map (\<lambda>k. word_at h (q + 4 * of_nat k)) [0..<n]"

definition view :: "heap \<Rightarrow> u32 set \<Rightarrow> u32 set \<Rightarrow> u32 \<Rightarrow> u32 list option" where
  "view h U S q =
     (if q \<in> S then Some (buf_words h q 8)
      else let b = MM_GET_THIS_BLK q
           in if b \<in> U \<and> fix_pool h \<noteq> q \<and> 32 \<le> unat (MM_GET_BUF_SIZE h b)
              then Some (buf_words h q (unat (MM_GET_BUF_SIZE h b) div 4)) else None)"

definition heap_shows :: "heap \<Rightarrow> (u32 \<Rightarrow> u32 list option) \<Rightarrow> bool" where
  "heap_shows h M \<longleftrightarrow> (\<exists>B E S. heap_ok h B E \<and> pool_ok h (used_blocks h B) S \<and> M = view h (used_blocks h B) S)"

lemma length_buf_words [simp]: "length (buf_words h q n) = n"
  by (simp add: buf_words_def)

lemma nth_buf_words [simp]: "k < n \<Longrightarrow> buf_words h q n ! k = word_at h (q + 4 * of_nat k)"
  by (simp add: buf_words_def)

lemma fld_word: "fld b i + 4 * of_nat k = fld b (i + 4 * k)"
  by (simp add: fld_def)

lemma buffer_fld: "buf_of b = fld b 16"
  by (simp add: buf_of_def fld_def)

lemma this_blk_iff: "MM_GET_THIS_BLK q = b \<longleftrightarrow> q = buf_of b"
  by (auto simp: MM_GET_THIS_BLK_def buf_of_def head_size)

lemma contents_keeps:
  assumes "keeps h h' V" "b \<in> V" "16 \<le> i" "i + 4 * n \<le> 16 + unat (MM_GET_BUF_SIZE h b)"
  shows "buf_words h' (fld b i) n = buf_words h (fld b i) n"
proof -
  have "word_at h' (fld b (i + 4 * k)) = word_at h (fld b (i + 4 * k))" if "k < n" for k
    using assms that by (simp add: keeps_def)
  then show ?thesis by (simp add: buf_words_def fld_word)
qed

lemma pool_block:
  assumes "pool_ok h U S" "S \<noteq> {} \<or> fix_pool h \<noteq> 0"
  obtains p where "p \<in> U" "pool_at h p S"
  using assms by (auto simp: pool_ok_def)

lemma small_blocks:
  assumes ok: "heap_ok h B E" and p: "pool_ok h (used_blocks h B) S" and s: "s \<in> S"
  shows "krhino_mblk_check h (fix_pool h = 0) s" "s \<noteq> 0" "MM_GET_THIS_BLK s \<notin> B"
proof -
  obtain q where q: "q \<in> used_blocks h B" "pool_at h q S" using pool_block [OF p] s by blast
  then have qB: "q \<in> B" by (simp add: used_blocks_def)
  have "s \<in> slots q" using q(2) s by (auto simp: pool_at_def)
  then obtain i where i: "i < 256" "s = fld q (56 + 32 * i)" by (rule slot_offset)
  note f = slot_facts [OF ok qB q(2) i(1)]
  show c: "krhino_mblk_check h (fix_pool h = 0) s" "s \<noteq> 0" using f i by simp_all
  show "MM_GET_THIS_BLK s \<notin> B"
  proof
    assume "MM_GET_THIS_BLK s \<in> B"
    then have "\<not> krhino_mblk_check h (fix_pool h = 0) (buf_of (MM_GET_THIS_BLK s))" by (rule block_not_small [OF ok p])
    moreover have "buf_of (MM_GET_THIS_BLK s) = s" using this_blk_iff by metis
    ultimately show False using c by simp
  qed
qed

text \<open>An operation on blocks that leaves the blocks \<open>V\<close> alone, the pool's among them.\<close>

lemma view_frame:
  assumes ok: "heap_ok h B E" and p: "pool_ok h (used_blocks h B) S" and ok': "heap_ok h' B' E'" and k: "keeps h h' V" "pool_frame h h'"
    and V: "V \<subseteq> used_blocks h B" "V \<subseteq> used_blocks h' B'" "\<And>b. b \<in> used_blocks h B \<Longrightarrow> fix_pool h = buf_of b \<Longrightarrow> b \<in> V"
  shows "pool_ok h' (used_blocks h' B') S"
    and "q \<in> S \<or> MM_GET_THIS_BLK q \<in> V \<or> MM_GET_THIS_BLK q \<notin> used_blocks h B \<union> used_blocks h' B' \<Longrightarrow>
      view h' (used_blocks h' B') S q = view h (used_blocks h B) S q"
proof -
  have f: "fix_pool h' = fix_pool h" using k(2) by (simp add: pool_frame_def)
  have at: "b \<in> V" if "b \<in> used_blocks h B" "pool_at h b S" for b using V(3) that by (simp add: pool_at_def)
  have "pool_at h' b S" if "b \<in> used_blocks h B" "pool_at h b S" for b
    by (rule pool_at_frame [OF that(2) k(2) keeps_subset [OF k(1)]]) (use at [OF that] in simp)
  then show p': "pool_ok h' (used_blocks h' B') S" using p at V(2) unfolding pool_ok_def f by blast
  assume q: "q \<in> S \<or> MM_GET_THIS_BLK q \<in> V \<or> MM_GET_THIS_BLK q \<notin> used_blocks h B \<union> used_blocks h' B'"
  show "view h' (used_blocks h' B') S q = view h (used_blocks h B) S q"
  proof (cases "q \<in> S")
    case True
    then obtain b where b: "b \<in> used_blocks h B" "pool_at h b S" using pool_block [OF p] by blast
    then have "q \<in> slots b" using True by (auto simp: pool_at_def)
    then obtain i where i: "i < 256" "q = fld b (56 + 32 * i)" by (rule slot_offset)
    have bB: "b \<in> B" using b(1) by (simp add: used_blocks_def)
    have "buf_words h' q 8 = buf_words h q 8"
      unfolding i(2) by (rule contents_keeps [OF k(1) at [OF b]]) (use slot_facts(3) [OF ok bB b(2) i(1)] in simp_all)
    then show ?thesis using True by (simp add: view_def)
  next
    case False
    define b where "b = MM_GET_THIS_BLK q"
    have qb: "q = fld b 16" using this_blk_iff [of q b] by (simp add: b_def buffer_fld)
    show ?thesis
    proof (cases "b \<in> V")
      case True
      then have "MM_GET_BUF_SIZE h' b = MM_GET_BUF_SIZE h b" "b \<in> used_blocks h B" "b \<in> used_blocks h' B'"
        using k(1) V by (auto simp: keeps_def)
      moreover have "buf_words h' q (unat (MM_GET_BUF_SIZE h b) div 4) = buf_words h q (unat (MM_GET_BUF_SIZE h b) div 4)"
        unfolding qb by (rule contents_keeps [OF k(1) True]) simp_all
      ultimately show ?thesis using False f by (simp add: view_def b_def [symmetric])
    next
      case nV: False
      then have "b \<notin> used_blocks h B \<union> used_blocks h' B'" using q False by (simp add: b_def)
      then show ?thesis using False by (simp add: view_def b_def [symmetric])
    qed
  qed
qed

text \<open>A live pointer leads to a place in a block in use.\<close>

lemma view_place:
  assumes ok: "heap_ok h B E" and p: "pool_ok h (used_blocks h B) S" and q: "view h (used_blocks h B) S q = Some xs"
  shows "xs = buf_words h q (length xs)" "q \<in> S \<and> length xs = 8 \<or> q \<notin> S \<and> MM_GET_THIS_BLK q \<in> used_blocks h B \<and> fix_pool h \<noteq> q \<and>
      32 \<le> unat (MM_GET_BUF_SIZE h (MM_GET_THIS_BLK q)) \<and> unat (MM_GET_BUF_SIZE h (MM_GET_THIS_BLK q)) = 4 * length xs"
proof -
  have four: "unat (MM_GET_BUF_SIZE h b) = 4 * (unat (MM_GET_BUF_SIZE h b) div 4)" for b
  proof -
    have "8 dvd unat (MM_GET_BUF_SIZE h b)" using buf_size_aligned [of h b] by (simp add: aligned_dvd)
    then obtain r where "unat (MM_GET_BUF_SIZE h b) = 8 * r" by auto
    then show ?thesis by simp
  qed
  show "xs = buf_words h q (length xs)" using q by (auto simp: view_def Let_def split: if_splits)
  show "q \<in> S \<and> length xs = 8 \<or> q \<notin> S \<and> MM_GET_THIS_BLK q \<in> used_blocks h B \<and> fix_pool h \<noteq> q \<and>
      32 \<le> unat (MM_GET_BUF_SIZE h (MM_GET_THIS_BLK q)) \<and> unat (MM_GET_BUF_SIZE h (MM_GET_THIS_BLK q)) = 4 * length xs"
  proof (cases "q \<in> S")
    case True
    then show ?thesis using q by (auto simp: view_def)
  next
    case False
    then show ?thesis using q four [of "MM_GET_THIS_BLK q"] by (auto simp: view_def Let_def split: if_splits)
  qed
qed

end
