(* ===== verification/Mm_Client.thy ===== *)
theory Mm_Client
  imports Mm_State
begin

text \<open>
  The heap as its clients see it: allocation adds a buffer, release removes it, reallocation keeps the
  words that fit, and a write through a live pointer changes the word it is meant for.
\<close>

section \<open>The small blocks\<close>

lemma pool_at_words:
  assumes "pool_at h p S" "word_at h' = word_at h" "pool h' = pool h" "fix_pool h' = fix_pool h"
  shows "pool_at h' p S"
  using assms by (simp add: pool_at_def MM_GET_BUF_SIZE_def chain_cong [of h' h])

lemma smallblk_alloc_ok:
  assumes ok: "heap_ok h B E" and q: "q \<in> B" "pool_at h q S" and av: "blk_avail (pool h) > 0"
  shows "\<exists>s h'. k_mm_smallblk_alloc h False sz = (s, h') \<and> s \<in> slots q - S \<and> s \<noteq> 0 \<and> pool_at h' q (insert s S) \<and>
    same_blocks h h' \<and> fix_pool h' = fix_pool h \<and> mm_traps h' = mm_traps h"
proof -
  obtain bs where bs: "chain h (avail_list (pool h)) bs" "distinct bs" "set bs = slots q - S" "blk_avail (pool h) = of_nat (length bs)"
    using q(2) by (auto simp: pool_at_def)
  obtain s bs' where c: "bs = s # bs'" using bs(4) av by (cases bs) auto
  have s: "s \<in> slots q - S" using bs(3) c by auto
  then have "s \<in> slots q" by simp
  then obtain i where i: "i < 256" "s = fld q (56 + 32 * i)" by (rule slot_offset)
  have s0: "s \<noteq> 0" using slot_facts(2) [OF ok q i(1)] i(2) by simp
  have al: "avail_list (pool h) = s" using bs(1) c by simp
  define h1 where "h1 = h\<lparr>pool := (pool h)\<lparr>avail_list := word_at h s, blk_avail := blk_avail (pool h) - 1\<rparr>\<rparr>"
  define h2 where "h2 = addsize h1 RHINO_CONFIG_MM_BLK_SIZE 0"
  have np: "fix_pool h \<noteq> 0" using buffer_nonzero [OF heap_ok_parts(2) [OF ok] q(1)] q(2) by (simp add: pool_at_def)
  have run: "k_mm_smallblk_alloc h False sz = (s, h2)"
    using av np by (simp add: k_mm_smallblk_alloc_def krhino_mblk_alloc_def Let_def al h1_def [symmetric] h2_def)
  have w: "word_at h2 = word_at h" "pool h2 = (pool h)\<lparr>avail_list := word_at h s, blk_avail := blk_avail (pool h) - 1\<rparr>" "fix_pool h2 = fix_pool h"
    by (simp_all add: h2_def h1_def)
  have "chain h2 (word_at h s) bs'" using bs(1) c chain_cong [OF w(1)] by simp
  moreover have "set bs' = slots q - insert s S" "distinct bs'" using bs(2,3) c by auto
  moreover have "blk_avail (pool h) - 1 = of_nat (length bs')" using bs(4) c by simp
  moreover have "MM_GET_BUF_SIZE h2 q = MM_GET_BUF_SIZE h q" by (simp add: MM_GET_BUF_SIZE_def w)
  ultimately have "pool_at h2 q (insert s S)" using q(2) s unfolding pool_at_def w by (auto intro!: exI [of _ bs'])
  moreover have "same_blocks h h2" "mm_traps h2 = mm_traps h" by (simp_all add: same_blocks_def h2_def h1_def addsize_def Let_def)
  ultimately show ?thesis using run s s0 w(3) by blast
qed

text \<open>A store to a place in a buffer in use that is no link of the chain.\<close>

lemma pool_at_store:
  assumes ok: "heap_ok h B E" and q: "q \<in> B" "pool_at h q S" and b: "b \<in> B"
    and i: "16 \<le> i" "i < 16 + unat (MM_GET_BUF_SIZE h b)" "b = q \<Longrightarrow> \<exists>j < 256. fld q (56 + 32 * j) \<notin> slots q - S \<and> (\<exists>a < 32. i = 56 + 32 * j + a)"
  shows "pool_at (store h (fld b i) v) q S" "x \<in> slots q - S \<Longrightarrow> x \<noteq> fld b i"
proof -
  note t = heap_ok_parts(2) [OF ok]
  have qs: "8232 \<le> unat (MM_GET_BUF_SIZE h q)" using q(2) by (simp add: pool_at_def)
  have ne: "x \<noteq> fld b i" if x: "x \<in> slots q - S" for x
  proof
    assume e: "x = fld b i"
    have "x \<in> slots q" using x by simp
    then obtain k where k: "k < 256" "x = fld q (56 + 32 * k)" by (rule slot_offset)
    have "fld q (56 + 32 * k) = fld b i \<longleftrightarrow> q = b \<and> 56 + 32 * k = i"
      by (rule fld_eq [OF t]; use q(1) b qs k(1) i(2) in simp)
    then have bq: "b = q" "i = 56 + 32 * k" using e k(2) by simp_all
    from i(3) [OF bq(1)] obtain j a where j: "j < 256" "fld q (56 + 32 * j) \<notin> slots q - S" "a < 32" "i = 56 + 32 * j + a" by blast
    have "56 + 32 * k + 0 = 56 + 32 * j + a" using bq(2) j(4) by simp
    then have "fld q (56 + 32 * k + 0) = fld q (56 + 32 * j + a)" by (rule arg_cong)
    then have "k = j" using slot_inj [OF ok q k(1) j(1) _ j(3), of 0] by simp
    then show False using j(2) x k(2) by simp
  qed
  then show "x \<in> slots q - S \<Longrightarrow> x \<noteq> fld b i" .
  obtain bs where bs: "chain h (avail_list (pool h)) bs" "distinct bs" "set bs = slots q - S" "blk_avail (pool h) = of_nat (length bs)"
    using q(2) by (auto simp: pool_at_def)
  let ?g = "store h (fld b i) v"
  have "fld b i \<notin> set bs" using ne bs(3) by blast
  then have "chain ?g (avail_list (pool ?g)) bs" using bs(1) by (simp add: chain_store_other)
  moreover have "MM_GET_BUF_SIZE ?g q = MM_GET_BUF_SIZE h q"
  proof -
    have "fld q 12 = fld b i \<longleftrightarrow> q = b \<and> 12 = i" by (rule fld_eq [OF t]; use q(1) b i in simp)
    then show ?thesis using i(1) by (simp add: MM_GET_BUF_SIZE_def at_fld word_at_store)
  qed
  ultimately show "pool_at ?g q S" using q(2) bs(2-4) unfolding pool_at_def by (auto intro!: exI [of _ bs])
qed

section \<open>Live buffers do not overlap\<close>

lemma live_place:
  assumes ok: "heap_ok h B E" and p: "pool_ok h (used_blocks h B) S" and q: "view h (used_blocks h B) S q = Some xs"
  obtains b i where "b \<in> used_blocks h B" "q = fld b i" "16 \<le> i" "i + 4 * length xs \<le> 16 + unat (MM_GET_BUF_SIZE h b)"
    "q \<notin> S \<longrightarrow> i = 16 \<and> fix_pool h \<noteq> buf_of b" "q \<in> S \<longrightarrow> length xs = 8 \<and> pool_at h b S \<and> (\<exists>j < 256. i = 56 + 32 * j)"
proof (cases "q \<in> S")
  case True
  obtain b where b: "b \<in> used_blocks h B" "pool_at h b S" using pool_block [OF p] True by blast
  then have bB: "b \<in> B" by (simp add: used_blocks_def)
  have "q \<in> slots b" using b(2) True by (auto simp: pool_at_def)
  then obtain j where j: "j < 256" "q = fld b (56 + 32 * j)" by (rule slot_offset)
  have l: "length xs = 8" using view_place(2) [OF ok p q] True by simp
  have "56 + 32 * j + 4 * length xs \<le> 16 + unat (MM_GET_BUF_SIZE h b)" using slot_facts(3) [OF ok bB b(2) j(1)] l by simp
  then show ?thesis using b j l True by (intro that [of b "56 + 32 * j"]) auto
next
  case False
  define b where "b = MM_GET_THIS_BLK q"
  have qb: "q = buf_of b" using this_blk_iff [of q b] by (simp add: b_def)
  have v: "b \<in> used_blocks h B" "fix_pool h \<noteq> q" "unat (MM_GET_BUF_SIZE h b) = 4 * length xs"
    using view_place(2) [OF ok p q] False by (simp_all add: b_def [symmetric])
  show ?thesis by (rule that [of b 16]) (use v qb False in \<open>simp_all add: buffer_fld\<close>)
qed

lemma slot_words: "56 + 32 * j + 4 * k = 56 + 32 * j' + 4 * k' \<Longrightarrow> k < 8 \<Longrightarrow> k' < 8 \<Longrightarrow> j = j' \<and> k = (k' :: nat)"
proof -
  assume e: "56 + 32 * j + 4 * k = 56 + 32 * j' + 4 * k'" and k: "k < 8" "k' < 8"
  have "j = (8 * j + k) div 8" "j' = (8 * j' + k') div 8" using k by simp_all
  moreover have "8 * j + k = 8 * j' + k'" using e by linarith
  ultimately have "j = j'" by metis
  then show "j = j' \<and> k = k'" using e by simp
qed

lemma live_apart:
  assumes ok: "heap_ok h B E" and p: "pool_ok h (used_blocks h B) S"
    and q: "view h (used_blocks h B) S q = Some xs" "k < length xs" and r: "view h (used_blocks h B) S r = Some ys" "l < length ys"
    and e: "q + 4 * of_nat k = r + 4 * of_nat l"
  shows "q = r \<and> k = l"
proof -
  note t = heap_ok_parts(2) [OF ok]
  obtain b i where b: "b \<in> used_blocks h B" "q = fld b i" "16 \<le> i" "i + 4 * length xs \<le> 16 + unat (MM_GET_BUF_SIZE h b)"
    "q \<notin> S \<longrightarrow> i = 16 \<and> fix_pool h \<noteq> buf_of b" "q \<in> S \<longrightarrow> length xs = 8 \<and> pool_at h b S \<and> (\<exists>j < 256. i = 56 + 32 * j)"
    by (rule live_place [OF ok p q(1)])
  obtain c j where c: "c \<in> used_blocks h B" "r = fld c j" "16 \<le> j" "j + 4 * length ys \<le> 16 + unat (MM_GET_BUF_SIZE h c)"
    "r \<notin> S \<longrightarrow> j = 16 \<and> fix_pool h \<noteq> buf_of c" "r \<in> S \<longrightarrow> length ys = 8 \<and> pool_at h c S \<and> (\<exists>i < 256. j = 56 + 32 * i)"
    by (rule live_place [OF ok p r(1)])
  have B: "b \<in> B" "c \<in> B" using b(1) c(1) by (simp_all add: used_blocks_def)
  have "fld b (i + 4 * k) = fld c (j + 4 * l) \<longleftrightarrow> b = c \<and> i + 4 * k = j + 4 * l"
    by (rule fld_eq [OF t]; use B b(4) c(4) q(2) r(2) in simp)
  then have bc: "b = c" "i + 4 * k = j + 4 * l" using e by (simp_all add: b(2) c(2) fld_word)
  have "i = j \<and> k = l"
  proof (cases "q \<in> S"; cases "r \<in> S")
    assume s: "q \<in> S" "r \<in> S"
    obtain j' i' where "i = 56 + 32 * j'" "j = 56 + 32 * i'" using b(6) c(6) s by blast
    moreover have "length xs = 8" "length ys = 8" using b(6) c(6) s by simp_all
    ultimately show ?thesis using slot_words [of j' k i' l] bc(2) q(2) r(2) by simp
  next
    assume s: "q \<notin> S" "r \<notin> S"
    then show ?thesis using b(5) c(5) bc(2) by simp
  next
    assume s: "q \<in> S" "r \<notin> S"
    then show ?thesis using b(6) c(5) bc(1) by (simp add: pool_at_def)
  next
    assume s: "q \<notin> S" "r \<in> S"
    then show ?thesis using b(5) c(6) bc(1) by (simp add: pool_at_def)
  qed
  then show ?thesis using b(2) c(2) bc(1) by simp
qed

section \<open>Writing\<close>

text \<open>A store to a word of a live buffer.\<close>

lemma live_store:
  assumes ok: "heap_ok h B E" and p: "pool_ok h (used_blocks h B) S"
    and q: "view h (used_blocks h B) S q = Some xs" "k < length xs" and g: "g = store h (q + 4 * of_nat k) v"
  shows "heap_ok g B E" "used_blocks g B = used_blocks h B" "pool_ok g (used_blocks h B) S"
    "view g (used_blocks h B) S = (view h (used_blocks h B) S)(q \<mapsto> xs[k := v])"
proof -
  obtain b i where b: "b \<in> used_blocks h B" "q = fld b i" "16 \<le> i" "i + 4 * length xs \<le> 16 + unat (MM_GET_BUF_SIZE h b)"
    "q \<notin> S \<longrightarrow> i = 16 \<and> fix_pool h \<noteq> buf_of b" "q \<in> S \<longrightarrow> length xs = 8 \<and> pool_at h b S \<and> (\<exists>j < 256. i = 56 + 32 * j)"
    by (rule live_place [OF ok p q(1)])
  have bB: "b \<in> B" using b(1) by (simp add: used_blocks_def)
  have i: "16 \<le> i + 4 * k" "i + 4 * k < 16 + unat (MM_GET_BUF_SIZE h b)" using b(3,4) q(2) by simp_all
  have g': "g = store h (fld b (i + 4 * k)) v" by (simp add: g b(2) fld_word)
  note u = user_write [OF ok b(1) i, where v = v, folded g']
  show "heap_ok g B E" "used_blocks g B = used_blocks h B" by (rule u(1,2))+
  have sz: "MM_GET_BUF_SIZE g x = MM_GET_BUF_SIZE h x" if "x \<in> B" for x using u(3) [of x] that by blast
  have "pool_at g p' S" if p': "p' \<in> used_blocks h B" "pool_at h p' S" for p'
    unfolding g'
  proof (rule pool_at_store(1) [OF ok _ p'(2) bB i])
    show "p' \<in> B" using p'(1) by (simp add: used_blocks_def)
    assume bp: "b = p'"
    then have "q \<in> S" using b(5) p'(2) by (auto simp: pool_at_def)
    then obtain j where "j < 256" "i = 56 + 32 * j" "length xs = 8" using b(6) by blast
    then show "\<exists>j < 256. fld p' (56 + 32 * j) \<notin> slots p' - S \<and> (\<exists>a < 32. i + 4 * k = 56 + 32 * j + a)"
      using \<open>q \<in> S\<close> b(2) bp q(2) by (intro exI [of _ j] conjI exI [of _ "4 * k"]) simp_all
  qed
  then show "pool_ok g (used_blocks h B) S" using p by (auto simp: pool_ok_def g)
  show "view g (used_blocks h B) S = (view h (used_blocks h B) S)(q \<mapsto> xs[k := v])"
  proof
    fix r
    define n where "n = (if r \<in> S then 8 else unat (MM_GET_BUF_SIZE h (MM_GET_THIS_BLK r)) div 4)"
    have v: "view h (used_blocks h B) S r = (if r \<in> S \<or> MM_GET_THIS_BLK r \<in> used_blocks h B \<and> fix_pool h \<noteq> r \<and>
        32 \<le> unat (MM_GET_BUF_SIZE h (MM_GET_THIS_BLK r)) then Some (buf_words h r n) else None)"
      by (simp add: view_def Let_def n_def)
    have "MM_GET_THIS_BLK r \<in> used_blocks h B \<Longrightarrow> MM_GET_BUF_SIZE g (MM_GET_THIS_BLK r) = MM_GET_BUF_SIZE h (MM_GET_THIS_BLK r)"
      using sz by (simp add: used_blocks_def)
    then have v': "view g (used_blocks h B) S r = (if view h (used_blocks h B) S r = None then None else Some (buf_words g r n))"
      by (auto simp: v) (auto simp: view_def Let_def n_def g)
    show "view g (used_blocks h B) S r = ((view h (used_blocks h B) S)(q \<mapsto> xs[k := v])) r"
    proof (cases "view h (used_blocks h B) S r")
      case None
      then show ?thesis using v' q(1) by auto
    next
      case (Some ys)
      then have ys: "ys = buf_words h r n" by (auto simp: v split: if_splits)
      have w: "word_at g (r + 4 * of_nat l) = (if r = q \<and> l = k then v else word_at h (r + 4 * of_nat l))" if l: "l < length ys" for l
        using live_apart [OF ok p Some l q] by (auto simp: g word_at_store)
      have "buf_words g r n = (if r = q then xs[k := v] else ys)"
      proof (rule nth_equalityI)
        have xy: "r = q \<Longrightarrow> xs = ys" using Some q(1) by simp
        then show "length (buf_words g r n) = length (if r = q then xs[k := v] else ys)" by (auto simp: ys)
        fix l assume "l < length (buf_words g r n)"
        then have l: "l < n" by simp
        then show "buf_words g r n ! l = (if r = q then xs[k := v] else ys) ! l"
          using w [of l] xy by (auto simp: ys nth_list_update)
      qed
      then show ?thesis using v' Some by auto
    qed
  qed
qed

lemma write_shows:
  assumes "heap_shows h M" "M q = Some xs" "k < length xs"
  shows "heap_shows (store h (q + 4 * of_nat k) v) (M(q \<mapsto> xs[k := v]))"
proof -
  obtain B E S where a: "heap_ok h B E" "pool_ok h (used_blocks h B) S" "M = view h (used_blocks h B) S"
    using assms(1) by (auto simp: heap_shows_def)
  note l = live_store [OF a(1,2) assms(2) [unfolded a(3)] assms(3) refl, of v]
  then show ?thesis unfolding heap_shows_def a(3)
    by (intro exI [of _ B] exI [of _ E] exI [of _ S]) simp
qed

section \<open>The largest free block\<close>

lemma max_buf_size_list:
  "dlseg fp (fnexts h) p a xs q 0 \<Longrightarrow> length xs \<le> n \<Longrightarrow>
   max_buf_size n h a best < s \<longleftrightarrow> best < s \<and> (\<forall>x \<in> set xs. MM_GET_BUF_SIZE h x < s)"
proof (induction xs arbitrary: n p a best)
  case Nil
  then show ?case by (subst max_buf_size.simps) simp
next
  case (Cons x xs)
  then obtain n' where "n = Suc n'" "length xs \<le> n'" by (cases n) auto
  with Cons show ?case by (subst max_buf_size.simps) auto
qed

lemma max_free_size:
  assumes ok: "heap_ok h B E" and s: "s \<noteq> 0"
  shows "krhino_mm_max_free_size_get h < s \<longleftrightarrow> (\<forall>c \<in> free_blocks h B. MM_GET_BUF_SIZE h c < s)"
proof -
  note ok' = heap_ok_parts [OF ok]
  have F: "free_blocks h B \<subseteq> B" by (auto simp: free_blocks_def)
  have one: "max_buf_size search_fuel h (freelist h ! l) best < s \<longleftrightarrow>
      best < s \<and> (\<forall>c \<in> free_blocks h B. level (MM_GET_BUF_SIZE h c) = l \<longrightarrow> MM_GET_BUF_SIZE h c < s)" if l: "l < MM_BIT_LEVEL" for l best
  proof -
    obtain xs where xs: "dlist (fprevs h) (fnexts h) (freelist h ! l) xs" "distinct xs"
      "set xs = {b \<in> free_blocks h B. level (MM_GET_BUF_SIZE h b) = l}" by (rule freelists_level [OF ok'(3) l])
    have "length xs = card (set xs)" using xs(2) by (simp add: distinct_card)
    also have "\<dots> \<le> card B" using ok'(2) F unfolding xs(3) by (intro card_mono) (auto simp: tiled_def)
    also have "\<dots> \<le> search_fuel" unfolding search_fuel_def by (rule card_blocks [OF ok'(2)])
    finally show ?thesis using max_buf_size_list [OF xs(1) [unfolded dlist_def]] xs(3) by auto
  qed
  have all: "foldl (\<lambda>best i. max_buf_size search_fuel h (freelist h ! i) best) best ls < s \<longleftrightarrow>
      best < s \<and> (\<forall>l \<in> set ls. \<forall>c \<in> free_blocks h B. level (MM_GET_BUF_SIZE h c) = l \<longrightarrow> MM_GET_BUF_SIZE h c < s)"
    if "\<forall>l \<in> set ls. l < MM_BIT_LEVEL" for ls best
    using that by (induction ls arbitrary: best) (auto simp: one)
  have lv: "level (MM_GET_BUF_SIZE h c) < MM_BIT_LEVEL" if "c \<in> free_blocks h B" for c
  proof -
    have c: "c \<in> B" "is_free h c" using that by (auto simp: free_blocks_def)
    have "MM_GET_BUF_SIZE h c \<noteq> 0" "unat (MM_GET_BUF_SIZE h c) < 2 ^ 20" using tagged_free(4,5) [OF ok'(1) c] by auto
    from size_to_level_iff(2) [OF this] show ?thesis by (simp add: mm_consts)
  qed
  have "0 < s" using s by (simp add: word_neq_0_conv)
  then show ?thesis unfolding krhino_mm_max_free_size_get_def by (subst all) (use lv in auto)
qed

section \<open>Allocation and release\<close>

lemma alloc_shows:
  assumes sh: "heap_shows h M" and r: "req \<noteq> 0" "unat req + 7 < 2 ^ 32" and run: "k_mm_alloc h False req = (q, h')"
  shows "mm_traps h' = mm_traps h \<and> (if q = 0 then h' = h \<and> krhino_mm_max_free_size_get h < aligned_request req
    else M q = None \<and> (\<exists>xs. unat req \<le> 4 * length xs \<and> heap_shows h' (M(q \<mapsto> xs))))"
proof -
  obtain B E S where a: "heap_ok h B E" "pool_ok h (used_blocks h B) S" "M = view h (used_blocks h B) S"
    using sh by (auto simp: heap_shows_def)
  note ok' = heap_ok_parts [OF a(1)]
  show ?thesis
  proof (cases "not_small h req")
    case True
    have s0: "aligned_request req \<noteq> 0" using aligned_request(3) [OF r(2)] by auto
    from k_mm_alloc_block [OF a(1) r True, unfolded run]
    consider "q = 0" "h' = h" "\<forall>c \<in> free_blocks h B. MM_GET_BUF_SIZE h c < aligned_request req"
      | b where "b \<in> free_blocks h B" "q = buf_of b" "allocated h h' B E b (aligned_request req)" by auto
    then show ?thesis
    proof cases
      case 1
      then show ?thesis using max_free_size [OF a(1) s0] by simp
    next
      case (2 b)
      obtain B' where B': "heap_ok h' B' E" "used_blocks h' B' = insert b (used_blocks h B)"
        and k: "aligned_request req \<le> MM_GET_BUF_SIZE h' b" "keeps h h' (used_blocks h B)" "core_frame h h'"
        using 2(3) by (auto simp: allocated_def)
      have bB: "b \<in> B" "b \<notin> used_blocks h B" using 2(1) by (auto simp: free_blocks_def used_blocks_def)
      have bB': "b \<in> B'" using B'(2) by (auto simp: used_blocks_def)
      have tq: "MM_GET_THIS_BLK q = b" by (simp add: 2(2) this_blk)
      have vf: "pool_ok h' (used_blocks h' B') S"
        "x \<in> S \<or> MM_GET_THIS_BLK x \<in> used_blocks h B \<or> MM_GET_THIS_BLK x \<notin> used_blocks h B \<union> used_blocks h' B' \<Longrightarrow>
           view h' (used_blocks h' B') S x = view h (used_blocks h B) S x" for x
        by (rule view_frame [OF a(1,2) B'(1) k(2) pool_frame_core [OF k(3)]]; use B'(2) in auto)+
      have qS: "q \<notin> S" using small_blocks(3) [OF a(1,2)] tq bB(1) by blast
      have nf: "fix_pool h' \<noteq> q"
      proof
        assume "fix_pool h' = q"
        then have "fix_pool h = buf_of b" using k(3) 2(2) by (simp add: core_frame_def)
        moreover from this obtain p where p: "p \<in> used_blocks h B" "pool_at h p S"
          using pool_block [OF a(2)] buffer_nonzero [OF ok'(2) bB(1)] by metis
        ultimately have "buf_of p = buf_of b" by (simp add: pool_at_def)
        then have "p = b" by (simp add: buf_of_def)
        then show False using p(1) bB(2) by simp
      qed
      have sz: "32 \<le> unat (MM_GET_BUF_SIZE h' b)" "unat req \<le> unat (MM_GET_BUF_SIZE h' b)"
        using aligned_request(2,3) [OF r(2)] k(1) by (simp_all add: word_le_nat_alt)
      define xs where "xs = buf_words h' q (unat (MM_GET_BUF_SIZE h' b) div 4)"
      have "8 dvd unat (MM_GET_BUF_SIZE h' b)" using buf_size_aligned [of h' b] by (simp add: aligned_dvd)
      then obtain r8 where "unat (MM_GET_BUF_SIZE h' b) = 8 * r8" by auto
      then have len: "unat req \<le> 4 * length xs" using sz(2) by (simp add: xs_def)
      have "view h' (used_blocks h' B') S = M(q \<mapsto> xs)"
      proof
        fix x
        show "view h' (used_blocks h' B') S x = (M(q \<mapsto> xs)) x"
        proof (cases "x = q")
          case True
          then show ?thesis using qS nf sz(1) tq B'(2) by (simp add: view_def xs_def)
        next
          case False
          then have "MM_GET_THIS_BLK x \<noteq> b" using this_blk_iff 2(2) by auto
          then show ?thesis using vf(2) [of x] B'(2) False by (auto simp: a(3))
        qed
      qed
      then have "heap_shows h' (M(q \<mapsto> xs))" unfolding heap_shows_def using B'(1) vf(1) by metis
      moreover have "M q = None" using qS tq bB(2) by (simp add: a(3) view_def)
      moreover have "q \<noteq> 0" using buffer_nonzero [OF ok'(2) bB(1)] 2(2) by simp
      ultimately show ?thesis using len k(3) by (auto simp: core_frame_def)
    qed
  next
    case False
    then have f: "fix_pool h \<noteq> 0" "req \<le> RHINO_CONFIG_MM_BLK_SIZE" "blk_avail (pool h) > 0" by (auto simp: not_small_def)
    obtain p where p: "p \<in> used_blocks h B" "pool_at h p S" using pool_block [OF a(2)] f(1) by blast
    then have pB: "p \<in> B" by (simp add: used_blocks_def)
    obtain s g where sg: "k_mm_smallblk_alloc h False req = (s, g)" "s \<in> slots p - S" "s \<noteq> 0" "pool_at g p (insert s S)"
      "same_blocks h g" "fix_pool g = fix_pool h" "mm_traps g = mm_traps h" using smallblk_alloc_ok [OF a(1) pB p(2) f(3)] by blast
    have "q = s" "h' = g" using run r(1) f sg(1,3) by (simp_all add: k_mm_alloc_def)
    note e = same_blocks_ok [OF sg(5)]
    have w: "word_at g = word_at h" using sg(5) by (simp add: same_blocks_def)
    have ok: "heap_ok g B E" "pool_ok g (used_blocks g B) (insert s S)" using a(1) e p(1) sg(4) by (auto simp: pool_ok_def)
    have tu: "MM_GET_THIS_BLK s \<notin> used_blocks h B" using small_blocks(3) [OF ok, of s] by (auto simp: used_blocks_def)
    have "view g (used_blocks g B) (insert s S) = M(s \<mapsto> buf_words g s 8)"
      by (rule ext) (simp add: view_def a(3) e sg(6) buf_words_def w Let_def)
    then have "heap_shows g (M(s \<mapsto> buf_words g s 8))" unfolding heap_shows_def using ok by metis
    moreover have "M s = None" using sg(2) tu by (simp add: a(3) view_def)
    moreover have "unat req \<le> 4 * length (buf_words g s 8)" using f(2) by (simp add: mm_consts word_le_nat_alt)
    ultimately have "\<exists>xs. unat req \<le> 4 * length xs \<and> heap_shows g (M(s \<mapsto> xs))" by blast
    then show ?thesis using sg(3,7) \<open>M s = None\<close> unfolding \<open>q = s\<close> \<open>h' = g\<close> by simp
  qed
qed

text \<open>A small block goes back to the front of the chain.\<close>

lemma smallblk_free_shows:
  assumes sh: "heap_shows h M" and q: "M q = Some xs" and c: "krhino_mblk_check h (fix_pool h = 0) q"
  shows "heap_shows (k_mm_smallblk_free h False q) (M(q := None)) \<and> mm_traps (k_mm_smallblk_free h False q) = mm_traps h"
proof -
  obtain B E S where a: "heap_ok h B E" "pool_ok h (used_blocks h B) S" "M = view h (used_blocks h B) S"
    using sh by (auto simp: heap_shows_def)
  note q' = q [unfolded a(3)]
  have qS: "q \<in> S"
  proof (rule ccontr)
    assume "q \<notin> S"
    then have "MM_GET_THIS_BLK q \<in> B" using view_place(2) [OF a(1,2) q'] by (simp add: used_blocks_def)
    then have "\<not> krhino_mblk_check h (fix_pool h = 0) (buf_of (MM_GET_THIS_BLK q))" by (rule block_not_small [OF a(1,2)])
    moreover have "buf_of (MM_GET_THIS_BLK q) = q" using this_blk_iff by metis
    ultimately show False using c by simp
  qed
  note sb = small_blocks [OF a(1,2) qS]
  have len: "0 < length xs" using view_place(2) [OF a(1,2) q'] qS by simp
  define g where "g = store h q (avail_list (pool h))"
  have "g = store h (q + 4 * of_nat 0) (avail_list (pool h))" by (simp add: g_def)
  note l = live_store [OF a(1,2) q' len this]
  have gf: "pool g = pool h" "fix_pool g = fix_pool h" "mm_traps g = mm_traps h" "word_at g q = avail_list (pool h)"
    by (simp_all add: g_def word_at_store)
  define g2 where "g2 = g\<lparr>pool := (pool g)\<lparr>avail_list := q, blk_avail := blk_avail (pool g) + 1\<rparr>\<rparr>"
  have np: "fix_pool h \<noteq> 0" using c by (auto simp: krhino_mblk_check_def)
  have run: "k_mm_smallblk_free h False q = removesize g2 RHINO_CONFIG_MM_BLK_SIZE"
    using sb(2) np by (simp add: k_mm_smallblk_free_def krhino_mblk_free_def Let_def g_def [symmetric] g2_def)
  obtain p where p: "p \<in> used_blocks h B" "pool_at g p S" using pool_block [OF l(3)] qS by blast
  obtain bs where bs: "chain g (avail_list (pool g)) bs" "distinct bs" "set bs = slots p - S" "blk_avail (pool g) = of_nat (length bs)"
    using p(2) by (auto simp: pool_at_def)
  have w: "word_at g2 = word_at g" "fix_pool g2 = fix_pool g" by (simp_all add: g2_def)
  have "S \<subseteq> slots p" using p(2) by (simp add: pool_at_def)
  then have "set (q # bs) = slots p - (S - {q})" "distinct (q # bs)" using bs(2,3) qS by auto
  moreover have "chain g2 q (q # bs)" using bs(1) gf(4) sb(2) chain_cong [OF w(1)] by (simp add: w(1) gf(1))
  ultimately have pa: "pool_at g2 p (S - {q})"
    using p(2) bs(4) unfolding pool_at_def by (auto simp: MM_GET_BUF_SIZE_def w g2_def intro!: exI [of _ "q # bs"])
  have s2: "same_blocks g g2" by (simp add: same_blocks_def g2_def)
  note e = same_blocks_ok [OF s2]
  define h' where "h' = removesize g2 RHINO_CONFIG_MM_BLK_SIZE"
  have s3: "same_blocks g2 h'" by (simp add: h'_def)
  note e3 = same_blocks_ok [OF s3]
  have w3: "word_at h' = word_at g2" "pool h' = pool g2" "fix_pool h' = fix_pool g2" by (simp_all add: h'_def)
  have u: "used_blocks h' B = used_blocks h B" using e(2) e3(2) l(2) by simp
  have "pool_ok h' (used_blocks h B) (S - {q})" using p(1) pool_at_words [OF pa w3] by (auto simp: pool_ok_def)
  moreover have "heap_ok h' B E" using l(1) e(1) e3(1) by simp
  moreover have "view h' (used_blocks h B) (S - {q}) = M(q := None)"
  proof
    fix x
    have v: "view g (used_blocks h B) S x = (M(q \<mapsto> xs[0 := avail_list (pool h)])) x" using l(4) by (simp add: a(3))
    have tu: "MM_GET_THIS_BLK q \<notin> used_blocks h B" using sb(3) by (simp add: used_blocks_def)
    have "view h' (used_blocks h B) (S - {q}) x = (if x = q then None else view g (used_blocks h B) S x)"
      using tu by (simp add: view_def Let_def buf_words_def e(5) e3(5) w w3)
    then show "view h' (used_blocks h B) (S - {q}) x = (M(q := None)) x" using v by simp
  qed
  moreover have "mm_traps h' = mm_traps h" by (simp add: h'_def g2_def gf(3) removesize_def Let_def)
  ultimately show ?thesis unfolding run heap_shows_def h'_def [symmetric] using u by metis
qed

lemma free_shows:
  assumes sh: "heap_shows h M" and q: "M q = Some xs"
  shows "heap_shows (k_mm_free h False q) (M(q := None)) \<and> mm_traps (k_mm_free h False q) = mm_traps h"
proof (cases "krhino_mblk_check h (fix_pool h = 0) q")
  case True
  obtain B E S where a: "heap_ok h B E" "pool_ok h (used_blocks h B) S" "M = view h (used_blocks h B) S"
    using sh by (auto simp: heap_shows_def)
  have "q \<noteq> 0"
  proof (cases "q \<in> S")
    case False
    then have "MM_GET_THIS_BLK q \<in> B" using view_place(2) [OF a(1,2) q [unfolded a(3)]] by (simp add: used_blocks_def)
    then have "buf_of (MM_GET_THIS_BLK q) \<noteq> 0" by (rule buffer_nonzero [OF heap_ok_parts(2) [OF a(1)]])
    then show ?thesis using this_blk_iff by metis
  qed (rule small_blocks(2) [OF a(1,2)])
  then have "k_mm_free h False q = k_mm_smallblk_free h False q" using True by (simp add: k_mm_free_def)
  then show ?thesis using smallblk_free_shows [OF sh q True] by simp
next
  case False
  obtain B E S where a: "heap_ok h B E" "pool_ok h (used_blocks h B) S" "M = view h (used_blocks h B) S"
    using sh by (auto simp: heap_shows_def)
  note q' = q [unfolded a(3)]
  have qS: "q \<notin> S" using small_blocks(1) [OF a(1,2)] False by blast
  define b where "b = MM_GET_THIS_BLK q"
  have qb: "q = buf_of b" using this_blk_iff [of q b] by (simp add: b_def)
  have b: "b \<in> used_blocks h B" "fix_pool h \<noteq> buf_of b" "32 \<le> unat (MM_GET_BUF_SIZE h b)"
    using view_place(2) [OF a(1,2) q'] qS by (simp_all add: qb this_blk)
  define h' where "h' = k_mm_free h False q"
  obtain B' where B': "heap_ok h' B' E" "used_blocks h' B' = used_blocks h B - {b}"
    and k: "keeps h h' (used_blocks h B - {b})" "core_frame h h'"
    using k_mm_free_block [OF a(1) b(1,3)] False by (auto simp: blk_released_def h'_def qb)
  have vf: "pool_ok h' (used_blocks h' B') S"
    "x \<in> S \<or> MM_GET_THIS_BLK x \<in> used_blocks h B - {b} \<or> MM_GET_THIS_BLK x \<notin> used_blocks h B \<union> used_blocks h' B' \<Longrightarrow>
       view h' (used_blocks h' B') S x = view h (used_blocks h B) S x" for x
    by (rule view_frame [OF a(1,2) B'(1) k(1) pool_frame_core [OF k(2)]]; use B'(2) b(2) in auto)+
  have "view h' (used_blocks h' B') S = M(q := None)"
  proof
    fix x
    show "view h' (used_blocks h' B') S x = (M(q := None)) x"
    proof (cases "x = q")
      case True
      then show ?thesis using qS B'(2) by (simp add: view_def b_def)
    next
      case x: False
      then have "MM_GET_THIS_BLK x \<noteq> b" using this_blk_iff qb by auto
      then show ?thesis using vf(2) [of x] B'(2) x by (auto simp: a(3))
    qed
  qed
  then have "heap_shows h' (M(q := None))" unfolding heap_shows_def using B'(1) vf(1) by metis
  then show ?thesis using k(2) by (simp add: h'_def core_frame_def)
qed

section \<open>Reallocation\<close>

lemma shows_word:
  assumes "heap_shows h M" "M q = Some xs" "k < length xs"
  shows "word_at h (q + 4 * of_nat k) = xs ! k"
proof -
  obtain B E S where a: "heap_ok h B E" "pool_ok h (used_blocks h B) S" "M = view h (used_blocks h B) S"
    using assms(1) by (auto simp: heap_shows_def)
  have "xs = buf_words h q (length xs)" using view_place(1) [OF a(1,2)] assms(2) a(3) by simp
  then have "xs ! k = buf_words h q (length xs) ! k" by simp
  then show ?thesis using assms(3) by simp
qed

lemma copy_shows:
  assumes "heap_shows h M" "M d = Some xs" "M s = Some ys" "s \<noteq> d" "i + n \<le> length xs" "i + n \<le> length ys"
  shows "\<exists>zs. heap_shows (copy_words n h (d + 4 * of_nat i) (s + 4 * of_nat i)) (M(d \<mapsto> zs)) \<and> length zs = length xs \<and>
    (\<forall>k < length xs. zs ! k = (if i \<le> k \<and> k < i + n then ys ! k else xs ! k))"
  using assms
proof (induction n arbitrary: h M xs i)
  case 0
  then have "M(d \<mapsto> xs) = M" by auto
  then show ?case using 0 by (intro exI [of _ xs]) auto
next
  case (Suc n)
  let ?v = "word_at h (s + 4 * of_nat i)"
  have v: "?v = ys ! i" by (rule shows_word [OF Suc.prems(1,3)]) (use Suc.prems in simp)
  let ?g = "store h (d + 4 * of_nat i) ?v"
  have w: "heap_shows ?g (M(d \<mapsto> xs[i := ?v]))" by (rule write_shows [OF Suc.prems(1,2)]) (use Suc.prems in simp)
  have "\<exists>zs. heap_shows (copy_words n ?g (d + 4 * of_nat (Suc i)) (s + 4 * of_nat (Suc i))) (M(d \<mapsto> zs)) \<and> length zs = length xs \<and>
    (\<forall>k < length xs. zs ! k = (if Suc i \<le> k \<and> k < Suc i + n then ys ! k else xs[i := ?v] ! k))"
    by (rule Suc.IH [OF w, of "xs[i := ?v]" "Suc i", unfolded fun_upd_upd length_list_update]) (use Suc.prems in simp_all)
  then obtain zs where zs: "heap_shows (copy_words n ?g (d + 4 * of_nat (Suc i)) (s + 4 * of_nat (Suc i))) (M(d \<mapsto> zs))"
    "length zs = length xs" "\<forall>k < length xs. zs ! k = (if Suc i \<le> k \<and> k < Suc i + n then ys ! k else xs[i := ?v] ! k)" by blast
  have "a + 4 * of_nat i + 4 = a + 4 * of_nat (Suc i)" for a :: u32 by (simp add: algebra_simps)
  then have "copy_words (Suc n) h (d + 4 * of_nat i) (s + 4 * of_nat i) =
      copy_words n ?g (d + 4 * of_nat (Suc i)) (s + 4 * of_nat (Suc i))" by (simp only: copy_words.simps)
  note run = this
  have "zs ! k = (if i \<le> k \<and> k < i + Suc n then ys ! k else xs ! k)" if k: "k < length xs" for k
  proof -
    have "zs ! k = (if Suc i \<le> k \<and> k < Suc i + n then ys ! k else xs[i := ?v] ! k)" using zs(3) k by blast
    then show ?thesis using v k by (cases "k = i") auto
  qed
  then show ?case using zs(1,2) unfolding run by blast
qed

lemma copy_words_frame:
  "pool (copy_words n h d s) = pool h \<and> fix_pool (copy_words n h d s) = fix_pool h \<and> mm_traps (copy_words n h d s) = mm_traps h"
  by (induction n arbitrary: h d s) simp_all

lemma realloc_shows:
  assumes sh: "heap_shows h M" and q: "M q = Some xs" and r: "req \<noteq> 0" "unat req + 7 < 2 ^ 32"
    and run: "k_mm_realloc h False q req = (p, h')"
  shows "mm_traps h' = mm_traps h \<and> (if p = 0 then h' = h \<and> krhino_mm_max_free_size_get h < aligned_request req
    else (p = q \<or> M p = None) \<and> (\<exists>ys. unat req \<le> 4 * length ys \<and> (\<forall>k < length xs. 4 * k < unat req \<longrightarrow> ys ! k = xs ! k) \<and>
      heap_shows h' (M(q := None, p \<mapsto> ys))))"
proof -
  obtain B E S where a: "heap_ok h B E" "pool_ok h (used_blocks h B) S" "M = view h (used_blocks h B) S"
    using sh by (auto simp: heap_shows_def)
  note ok' = heap_ok_parts [OF a(1)]
  note q' = q [unfolded a(3)]
  note vp = view_place(2) [OF a(1,2) q']
  have s0: "aligned_request req \<noteq> 0" using aligned_request(3) [OF r(2)] by auto
  show ?thesis
  proof (cases "q \<in> S")
    case True
    note sb = small_blocks [OF a(1,2) True]
    have len: "length xs = 8" using vp True by simp
    show ?thesis
    proof (cases "req \<le> RHINO_CONFIG_MM_BLK_SIZE")
      case True
      then have e: "p = q" "h' = h" using run sb r(1) by (simp_all add: k_mm_realloc_def)
      have u: "unat req \<le> 32" using True by (simp add: mm_consts word_le_nat_alt)
      have "M(q := None, q \<mapsto> xs) = M" using q by auto
      then have "unat req \<le> 4 * length xs \<and> (\<forall>k < length xs. 4 * k < unat req \<longrightarrow> xs ! k = xs ! k) \<and> heap_shows h (M(q := None, q \<mapsto> xs))"
        using sh u len by simp
      then show ?thesis using e sb(2) by auto
    next
      case False
      obtain d h1 where al: "k_mm_alloc h False req = (d, h1)" by fastforce
      note as = alloc_shows [OF sh r al]
      have run': "(p, h') = (if d \<noteq> 0 then (d, k_mm_smallblk_free (copy_words 8 h1 d q) False q) else (d, h1))"
        using run sb r(1) False al unfolding k_mm_realloc_def by (auto simp: RHINO_CONFIG_MM_BLK_SIZE_def)
      show ?thesis
      proof (cases "d = 0")
        case True
        then show ?thesis using as run' by simp
      next
        case d: False
        obtain zs where zs: "M d = None" "unat req \<le> 4 * length zs" "heap_shows h1 (M(d \<mapsto> zs))" using as d by auto
        have dq: "d \<noteq> q" using zs(1) q by auto
        have u: "32 < unat req" using False by (simp add: mm_consts word_le_nat_alt)
        have "(M(d \<mapsto> zs)) d = Some zs" "(M(d \<mapsto> zs)) q = Some xs" using q dq by simp_all
        from copy_shows [OF zs(3) this dq [symmetric], of 0 8, unfolded fun_upd_upd]
        obtain ys where ys: "heap_shows (copy_words 8 h1 d q) (M(d \<mapsto> ys))" "length ys = length zs" "\<forall>k < length zs. k < 8 \<longrightarrow> ys ! k = xs ! k"
          using len u zs(2) by (auto simp del: fun_upd_apply)
        have ns: "not_small h req" using False by (simp add: not_small_def)
        have "core_frame h h1" using k_mm_alloc_block [OF a(1) r ns, unfolded al] d by (auto simp: allocated_def)
        then have "krhino_mblk_check (copy_words 8 h1 d q) (fix_pool (copy_words 8 h1 d q) = 0) q"
          using sb(1) by (simp add: krhino_mblk_check_def copy_words_frame core_frame_def)
        moreover have "(M(d \<mapsto> ys)) q = Some xs" using q dq by simp
        ultimately have fr: "heap_shows h' (M(d \<mapsto> ys, q := None))" "mm_traps h' = mm_traps h1"
          using smallblk_free_shows [OF ys(1)] run' d by (simp_all add: copy_words_frame)
        have "M(d \<mapsto> ys, q := None) = M(q := None, d \<mapsto> ys)" using dq by (simp add: fun_upd_twist)
        then have "unat req \<le> 4 * length ys \<and> (\<forall>k < length xs. 4 * k < unat req \<longrightarrow> ys ! k = xs ! k) \<and> heap_shows h' (M(q := None, d \<mapsto> ys))"
          using fr(1) ys(2,3) zs(2) len u by auto
        then show ?thesis using run' d zs(1) fr(2) as by auto
      qed
    qed
  next
    case False
    define b where "b = MM_GET_THIS_BLK q"
    have qb: "q = buf_of b" using this_blk_iff [of q b] by (simp add: b_def)
    have b: "b \<in> used_blocks h B" "fix_pool h \<noteq> buf_of b" "32 \<le> unat (MM_GET_BUF_SIZE h b)" "unat (MM_GET_BUF_SIZE h b) = 4 * length xs"
      using vp False by (simp_all add: qb this_blk)
    have bB: "b \<in> B" using b(1) by (simp add: used_blocks_def)
    have np: "\<not> krhino_mblk_check h (fix_pool h = 0) (buf_of b)" by (rule block_not_small [OF a(1,2) bB])
    from k_mm_realloc_block [OF a(1) b(1,3) np r, folded qb, unfolded run]
    consider "p = 0" "h' = h" "\<forall>c \<in> free_blocks h B. MM_GET_BUF_SIZE h c < aligned_request req"
      | c where "p = buf_of c" "reallocated h h' B E b c (aligned_request req)" by auto
    then show ?thesis
    proof cases
      case 1
      then show ?thesis using max_free_size [OF a(1) s0] by simp
    next
      case (2 c)
      let ?V = "used_blocks h B - {b}"
      obtain B' where B': "heap_ok h' B' E" "used_blocks h' B' = insert c ?V"
        and k: "c = b \<or> c \<in> free_blocks h B" "aligned_request req \<le> MM_GET_BUF_SIZE h' c" "keeps h h' ?V" "core_frame h h'"
          "\<forall>k. 4 * k < unat (MM_GET_BUF_SIZE h b) \<and> 4 * k < unat (aligned_request req) \<longrightarrow>
             word_at h' (fld c (16 + 4 * k)) = word_at h (fld b (16 + 4 * k))"
        using 2(2) unfolding reallocated_def by blast
      have cB: "c \<in> B" "c \<notin> ?V" using k(1) bB by (auto simp: free_blocks_def used_blocks_def)
      have tp: "MM_GET_THIS_BLK p = c" by (simp add: 2(1) this_blk)
      have vf: "pool_ok h' (used_blocks h' B') S"
        "x \<in> S \<or> MM_GET_THIS_BLK x \<in> ?V \<or> MM_GET_THIS_BLK x \<notin> used_blocks h B \<union> used_blocks h' B' \<Longrightarrow>
           view h' (used_blocks h' B') S x = view h (used_blocks h B) S x" for x
        by (rule view_frame [OF a(1,2) B'(1) k(3) pool_frame_core [OF k(4)]]; use B'(2) b(2) in auto)+
      have pS: "p \<notin> S" using small_blocks(3) [OF a(1,2)] tp cB(1) by blast
      have nf: "fix_pool h' \<noteq> p"
      proof
        assume "fix_pool h' = p"
        then have "fix_pool h = buf_of c" using k(4) 2(1) by (simp add: core_frame_def)
        moreover from this obtain o' where o': "o' \<in> used_blocks h B" "pool_at h o' S"
          using pool_block [OF a(2)] buffer_nonzero [OF ok'(2) cB(1)] by metis
        ultimately have "buf_of o' = buf_of c" by (simp add: pool_at_def)
        then have "o' = c" by (simp add: buf_of_def)
        then show False using o' cB(2) b(2) by (auto simp: pool_at_def)
      qed
      have sz: "32 \<le> unat (MM_GET_BUF_SIZE h' c)" "unat req \<le> unat (MM_GET_BUF_SIZE h' c)" "unat req \<le> unat (aligned_request req)"
        using aligned_request(2,3) [OF r(2)] k(2) by (simp_all add: word_le_nat_alt)
      define ys where "ys = buf_words h' p (unat (MM_GET_BUF_SIZE h' c) div 4)"
      have "8 dvd unat (MM_GET_BUF_SIZE h' c)" using buf_size_aligned [of h' c] by (simp add: aligned_dvd)
      then obtain r8 where r8: "unat (MM_GET_BUF_SIZE h' c) = 8 * r8" by auto
      then have len: "unat req \<le> 4 * length ys" using sz(2) by (simp add: ys_def)
      have words: "ys ! l = xs ! l" if l: "l < length xs" "4 * l < unat req" for l
      proof -
        have "ys ! l = word_at h' (p + 4 * of_nat l)" using l(2) len by (simp add: ys_def)
        also have "\<dots> = word_at h' (fld c (16 + 4 * l))" by (simp add: 2(1) buffer_fld fld_word)
        also have "\<dots> = word_at h (fld b (16 + 4 * l))" using k(5) l b(4) sz(3) by simp
        also have "\<dots> = word_at h (q + 4 * of_nat l)" by (simp add: qb buffer_fld fld_word)
        also have "\<dots> = xs ! l" by (rule shows_word [OF sh q l(1)])
        finally show ?thesis .
      qed
      have "view h' (used_blocks h' B') S = M(q := None, p \<mapsto> ys)"
      proof
        fix x
        show "view h' (used_blocks h' B') S x = (M(q := None, p \<mapsto> ys)) x"
        proof (cases "x = p")
          case True
          then show ?thesis using pS nf sz(1) tp B'(2) by (simp add: view_def ys_def)
        next
          case xp: False
          then have xc: "MM_GET_THIS_BLK x \<noteq> c" using this_blk_iff 2(1) by auto
          show ?thesis
          proof (cases "x = q")
            case True
            then show ?thesis using xp xc B'(2) \<open>q \<notin> S\<close> by (simp add: view_def b_def)
          next
            case False
            then have "MM_GET_THIS_BLK x \<noteq> b" using this_blk_iff qb by auto
            then show ?thesis using vf(2) [of x] B'(2) xp xc False by (auto simp: a(3))
          qed
        qed
      qed
      then have "heap_shows h' (M(q := None, p \<mapsto> ys))" unfolding heap_shows_def using B'(1) vf(1) by metis
      moreover have "p = q \<or> M p = None"
      proof (cases "c = b")
        case False
        then have "c \<notin> used_blocks h B" using cB(2) by simp
        then show ?thesis using pS tp by (simp add: a(3) view_def)
      qed (simp add: 2(1) qb)
      moreover have "p \<noteq> 0" using buffer_nonzero [OF ok'(2) cB(1)] 2(1) by simp
      ultimately show ?thesis using len words k(4) by (auto simp: core_frame_def)
    qed
  qed
qed

end
