(* ===== verification/Mm_Init.thy ===== *)
theory Mm_Init
  imports Mm_Client
begin

text \<open>
  A region becomes part of the heap: its three blocks, the release of the middle one, and the pool of small blocks
  that the first region gets.
\<close>

section \<open>The blocks of a region\<close>

text \<open>The region of \<open>len\<close> bytes at \<open>R\<close>, apart from the blocks there are.\<close>

definition apart :: "heap \<Rightarrow> u32 set \<Rightarrow> u32 set \<Rightarrow> u32 \<Rightarrow> u32 \<Rightarrow> bool" where
  "apart h B E R len \<longleftrightarrow>
     (\<forall>c \<in> B. unat c + 16 + unat (MM_GET_BUF_SIZE h c) \<le> unat R \<or> unat R + unat len \<le> unat c) \<and>
     (\<forall>e \<in> E. unat e + 16 \<le> unat R \<or> unat R + unat len \<le> unat e)"

definition good_region :: "u32 \<Rightarrow> u32 \<Rightarrow> bool" where
  "good_region R len \<longleftrightarrow> aligned R \<and> R \<noteq> 0 \<and> aligned len \<and> 88 \<le> unat len \<and> unat len \<le> 2 ^ 20 \<and> unat R + unat len < 2 ^ 32"

abbreviation mid_of :: "u32 \<Rightarrow> u32" where "mid_of R \<equiv> R + 24"
abbreviation last_of :: "u32 \<Rightarrow> u32 \<Rightarrow> u32" where "last_of R len \<equiv> R + len - 16"

definition region_sizes :: "u32 \<Rightarrow> u32 \<Rightarrow> u32 \<Rightarrow> u32" where
  "region_sizes R len x = (if x = R then 8 else len - 56)"

lemma region_tiles:
  assumes g: "good_region R len"
  shows "tiled {R, mid_of R} {last_of R len} (region_sizes R len)" "unat (mid_of R) = unat R + 24"
    "unat (last_of R len) = unat R + unat len - 16" "R \<noteq> mid_of R" "R \<noteq> last_of R len" "mid_of R \<noteq> last_of R len"
    "unat (len - 56) = unat len - 56" "succ (region_sizes R len) R = mid_of R" "succ (region_sizes R len) (mid_of R) = last_of R len"
proof -
  have b: "aligned R" "R \<noteq> 0" "aligned len" "88 \<le> unat len" "unat len \<le> 2 ^ 20" "unat R + unat len < 2 ^ 32"
    using g by (auto simp: good_region_def)
  show M: "unat (mid_of R) = unat R + 24" using b by (simp add: unat_word_ariths)
  have s: "unat (R + len) = unat R + unat len" using b by (simp add: unat_word_ariths)
  show Z: "unat (last_of R len) = unat R + unat len - 16" using b s by (simp add: unat_sub_if')
  show l: "unat (len - 56) = unat len - 56" using b by (simp add: unat_sub_if')
  show n: "R \<noteq> mid_of R" "R \<noteq> last_of R len" "mid_of R \<noteq> last_of R len"
    using M Z b by (simp_all add: word_unat_eq_iff)
  show sc: "succ (region_sizes R len) R = mid_of R" "succ (region_sizes R len) (mid_of R) = last_of R len"
    using n by (simp_all add: succ_def region_sizes_def)
  have d: "8 dvd unat R" "8 dvd unat len" using b by (simp_all add: aligned_dvd)
  obtain r where r: "unat R = 8 * r" using d(1) by (rule dvdE)
  obtain l' where l': "unat len = 8 * l'" using d(2) by (rule dvdE)
  have al: "aligned (mid_of R)" "aligned (last_of R len)" "aligned (len - 56)" "aligned 8"
  proof -
    have "unat R + 24 = 8 * (r + 3)" "unat R + unat len - 16 = 8 * (r + l' - 2)" "unat len - 56 = 8 * (l' - 7)"
      using r l' b(4) by simp_all
    then show "aligned (mid_of R)" "aligned (last_of R len)" "aligned (len - 56)" using M Z l by (simp_all only: aligned_dvd dvd_triv_left)
  qed (simp add: aligned_dvd)
  have "mid_of R \<noteq> 0" using M by auto
  then show "tiled {R, mid_of R} {last_of R len} (region_sizes R len)"
    using b al n M Z l sc unfolding tiled_def by (auto simp: region_sizes_def)
qed

text \<open>What \<open>init_mm_region\<close> and the callers write, up to the release of the middle block; \<open>v\<close> is the second word of
  the region's information.\<close>

definition region_set :: "heap \<Rightarrow> u32 \<Rightarrow> u32 \<Rightarrow> u32 \<Rightarrow> heap" where
  "region_set h R len v =
     (let g = store (snd (init_mm_region h R len)) (fld R 20) v
      in store (store g (dye_at (mid_of R)) RHINO_MM_CORRUPT_DYE) (owner_at (mid_of R)) 0)"

lemma region_words:
  assumes g: "good_region R len" and h': "h' = region_set h R len v"
  shows "fst (init_mm_region h R len) = R" "MM_GET_NEXT_BLK (snd (init_mm_region h R len)) R = mid_of R"
    "word_at h' (fld R 0) = RHINO_MM_CORRUPT_DYE" "word_at h' (fld R 12) = 8"
    "word_at h' (fld (mid_of R) 0) = RHINO_MM_CORRUPT_DYE" "word_at h' (fld (mid_of R) 12) = len - 56"
    "word_at h' (fld (last_of R len) 0) = RHINO_MM_CORRUPT_DYE" "word_at h' (fld (last_of R len) 12) = 2"
    "unat a < unat R \<or> unat R + unat len \<le> unat a \<Longrightarrow> word_at h' a = word_at h a" "words_only h h'"
    "words_only h (snd (init_mm_region h R len))" "word_at (snd (init_mm_region h R len)) (fld R 20) = 0"
proof -
  note t = region_tiles [OF g]
  let ?M = "mid_of R" and ?Z = "last_of R len"
  note eq = fld_eq [OF t(1), unfolded region_sizes_def]
  have b: "88 \<le> unat len" using g by (simp add: good_region_def)
  have l20: "i < 16 + unat (len - 56)" if "i < 48" for i using that b t(7) by simp
  have l56: "len \<noteq> 56" "0 < unat (len - 56)" using b t(7) by auto
  have ten: "MM_ALIGN_UP sizeof_region_info = 8" by (simp add: MM_ALIGN_UP_def mm_consts)
  have first: "MM_GET_NEXT_BLK (store (store (store (store h (fld R 8) 0) (fld R 12) 8) (fld R 0) RHINO_MM_CORRUPT_DYE) (fld R 4) 0) R = ?M"
    by (simp add: MM_GET_NEXT_BLK_def MM_GET_BUF_SIZE_def at_fld word_at_store eq mm_consts) (simp add: buf_of_def)
  have len: "?Z - buf_of ?M = len - 56" by (simp add: buf_of_def)
  have bR: "buf_of R = fld R 16" "fld R 16 + 4 = fld R 20" by (simp_all add: buf_of_def fld_def)
  have h2: "init_mm_region h R len = (R,
     store (store (store (store (store (store (store (store (store (store (store (store (store h
       (fld R 8) 0) (fld R 12) 8) (fld R 0) RHINO_MM_CORRUPT_DYE) (fld R 4) 0)
       (fld ?M 12) (len - 56)) (fld ?M 20) 0) (fld ?M 16) 0)
       (fld ?Z 8) ?M) (fld ?Z 12) 2) (fld ?Z 0) RHINO_MM_CORRUPT_DYE) (fld ?Z 4) 0)
       (fld R 20) 0) (fld R 16) ?Z)"
    unfolding init_mm_region_def Let_def at_fld head_size ten RHINO_MM_ALLOCED_def RHINO_MM_PREVALLOCED_def RHINO_MM_PREVFREE_def
    by (simp add: first len bR at_fld)
  show "fst (init_mm_region h R len) = R" by (simp add: h2)
  show "MM_GET_NEXT_BLK (snd (init_mm_region h R len)) R = ?M"
  proof -
    have "word_at (snd (init_mm_region h R len)) (fld R 12) = 8" unfolding h2 snd_conv using t(4-6) by (simp add: word_at_store eq l20 l56)
    then show ?thesis by (simp add: MM_GET_NEXT_BLK_def MM_GET_BUF_SIZE_def at_fld mm_consts buf_of_def)
  qed
  have all: "h' = store (store (store (snd (init_mm_region h R len)) (fld R 20) v) (fld ?M 0) RHINO_MM_CORRUPT_DYE) (fld ?M 4) 0"
    by (simp add: h' region_set_def Let_def at_fld)
  note set = all [unfolded h2 snd_conv]
  show "word_at h' (fld R 0) = RHINO_MM_CORRUPT_DYE" "word_at h' (fld R 12) = 8"
    "word_at h' (fld ?M 0) = RHINO_MM_CORRUPT_DYE" "word_at h' (fld ?M 12) = len - 56"
    "word_at h' (fld ?Z 0) = RHINO_MM_CORRUPT_DYE" "word_at h' (fld ?Z 12) = 2"
    unfolding set using t(4-6) by (simp_all add: word_at_store eq l20 l56)
  show "word_at (snd (init_mm_region h R len)) (fld R 20) = 0" unfolding h2 snd_conv using t(4-6) by (simp add: word_at_store eq l20 l56)
  show "words_only h (snd (init_mm_region h R len))" unfolding h2 snd_conv by simp
  then show "words_only h h'" unfolding all by simp
  assume a: "unat a < unat R \<or> unat R + unat len \<le> unat a"
  have ne: "a \<noteq> fld x i" if "x \<in> {R, ?M} \<and> i < 24 \<or> x = ?Z \<and> i < 16" for x i
  proof -
    have "unat (fld x i) = unat x + i" by (rule unat_fld [OF t(1)]) (use that b t(4,7) in \<open>auto simp: region_sizes_def\<close>)
    then show ?thesis using a that b t(2,3) by auto
  qed
  show "word_at h' a = word_at h a" unfolding set by (simp add: word_at_store ne)
qed

text \<open>With the region's blocks, the heap is well formed but for the middle block, which is about to be released.\<close>

lemma region_mid:
  assumes ok: "heap_ok h B E" and g: "good_region R len" and ap: "apart h B E R len"
    and h': "word_at h' = word_at (region_set h R len v)" "freelist h' = freelist h" "free_bitmap h' = free_bitmap h"
  defines "B' \<equiv> insert R (insert (mid_of R) B)" and "E' \<equiv> insert (last_of R len) E"
  shows "mid h' B' E' (mid_of R)" "dyes h' (mid_of R) = RHINO_MM_CORRUPT_DYE" "MM_GET_BUF_SIZE h' (mid_of R) = len - 56"
    "MM_GET_BUF_SIZE h' R = 8" "used_blocks h' B' = insert R (insert (mid_of R) (used_blocks h B))" "keeps h h' B" "R \<notin> B" "mid_of R \<notin> B"
proof -
  note ok' = heap_ok_parts [OF ok] and t = region_tiles [OF g] and rw = region_words [OF g, of "region_set h R len v" h v, OF refl, folded h'(1)]
  let ?M = "mid_of R" and ?Z = "last_of R len"
  have b: "aligned R" "aligned len" "88 \<le> unat len" "unat len \<le> 2 ^ 20" "unat R + unat len < 2 ^ 32" using g by (auto simp: good_region_def)
  have out: "word_at h' (fld c i) = word_at h (fld c i)" if c: "c \<in> B \<union> E" "i < 16 \<or> c \<in> B \<and> i < 16 + unat (MM_GET_BUF_SIZE h c)" for c i
  proof -
    have "unat (fld c i) = unat c + i" by (rule unat_fld [OF ok'(2) c])
    moreover have "unat c + i < unat R \<or> unat R + unat len \<le> unat c + i" using ap c unfolding apart_def by fastforce
    ultimately show ?thesis using rw(9) [of "fld c i"] by simp
  qed
  have sep: "unat c + 16 \<le> unat R \<or> unat R + unat len \<le> unat c" if "c \<in> B \<union> E" for c using ap that unfolding apart_def by fastforce
  have notin: "R \<notin> B \<union> E" "?M \<notin> B \<union> E" "?Z \<notin> B \<union> E"
    using sep [of R] sep [of ?M] sep [of ?Z] b(3) t(2,3) by auto
  then show "R \<notin> B" "?M \<notin> B" by auto
  have la: "aligned (len - 56)"
    using tiled_block(2) [OF t(1), of ?M] t(4) by (simp add: region_sizes_def)
  have lf: "(len - 56) AND NOT 7 = len - 56" "(len - 56) AND 1 = 0" "(len - 56) AND 2 = 0" using new_flags(1-3) [OF la, of 0] by simp_all
  show dM: "dyes h' ?M = RHINO_MM_CORRUPT_DYE" using rw(5) by (simp add: at_fld)
  have tagR: "MM_GET_BUF_SIZE h' R = 8" "\<not> is_free h' R" "\<not> prev_is_free h' R" unfolding size_word [OF rw(4)] by simp_all
  have tagM: "MM_GET_BUF_SIZE h' ?M = len - 56" "\<not> is_free h' ?M" "\<not> prev_is_free h' ?M" unfolding size_word [OF rw(6)] lf by simp_all
  have tagZ: "\<not> is_free h' ?Z" unfolding size_word [OF rw(8)] by simp
  show "MM_GET_BUF_SIZE h' ?M = len - 56" "MM_GET_BUF_SIZE h' R = 8" by (rule tagM tagR)+
  have tag: "MM_GET_BUF_SIZE h' c = MM_GET_BUF_SIZE h c" "is_free h' c = is_free h c" "prev_is_free h' c = prev_is_free h c"
    "prevs h' c = prevs h c" "dyes h' c = dyes h c" if c: "c \<in> B \<union> E" for c
    by (rule same_tags; rule out [OF c]; simp)+
  show "used_blocks h' B' = insert R (insert ?M (used_blocks h B))" using tag(2) tagR(2) tagM(2) by (auto simp: used_blocks_def B'_def)
  show "keeps h h' B" using out tag(1) by (auto simp: keeps_def)
  have sz: "MM_GET_BUF_SIZE h' c = (if c \<in> {R, ?M} then region_sizes R len c else MM_GET_BUF_SIZE h c)" if "c \<in> B'" for c
    using that tag(1) tagR(1) tagM(1) t(4) by (auto simp: B'_def region_sizes_def)
  have tiled: "tiled B' E' (MM_GET_BUF_SIZE h')"
  proof -
    have old: "c \<in> B \<Longrightarrow> unat c + 16 + unat (MM_GET_BUF_SIZE h c) \<le> unat R \<or> unat R + unat len \<le> unat c" for c
      using ap by (simp add: apart_def)
    note tb = tiled_block [OF ok'(2)] and tn = tiled_block [OF t(1)]
    have M16: "unat ?M + 16 + unat (len - 56) = unat ?Z" using t(2,3,7) b(3) by simp
    have new: "unat R + 16 + 8 \<le> unat c" if "c \<in> B' \<union> E'" "unat R < unat c" for c
      using that sep [of c] b(3) t(2,3) by (auto simp: B'_def E'_def)
    have newM: "unat ?M + 16 + unat (len - 56) \<le> unat c" if "c \<in> B' \<union> E'" "unat ?M < unat c" for c
      using that sep [of c] b(3) t(2,3) M16 by (auto simp: B'_def E'_def)
    have newZ: "unat ?Z + 16 \<le> unat c" if "c \<in> B' \<union> E'" "unat ?Z < unat c" for c
      using that sep [of c] b(3) t(2,3) by (auto simp: B'_def E'_def)
    have oldB: "unat c + 16 + unat (MM_GET_BUF_SIZE h c) \<le> unat d" if "c \<in> B" "d \<in> B' \<union> E'" "unat c < unat d" for c d
      using that old [of c] b(3) t(2,3) tb(6) [of c d] by (auto simp: B'_def E'_def)
    have oldE: "unat c + 16 \<le> unat d" if "c \<in> E" "d \<in> B' \<union> E'" "unat c < unat d" for c d
    proof -
      have "unat c + 16 \<le> unat d" if "d \<in> B \<union> E" using ok'(2) \<open>c \<in> E\<close> that \<open>unat c < unat d\<close> by (simp add: tiled_def)
      moreover have "d \<in> B \<union> E \<or> d \<in> {R, ?M, ?Z}" using that(2) by (auto simp: B'_def E'_def)
      moreover have "unat R \<le> unat d" if "d \<in> {R, ?M, ?Z}" using that t(2,3) b(3) by auto
      moreover have "unat c < unat R + unat len \<Longrightarrow> unat c + 16 \<le> unat R" using sep [of c] that(1) by auto
      moreover have "unat d < unat R + unat len" if "d \<in> {R, ?M, ?Z}" using that t(2,3) b(3) by auto
      ultimately show ?thesis using that(3) by fastforce
    qed
    have al: "aligned c \<and> unat c + 16 \<le> 2 ^ 32" if "c \<in> B' \<union> E'" for c
    proof -
      have "aligned c \<and> unat c + 16 \<le> 2 ^ 32" if "c \<in> B \<union> E" using ok'(2) that by (simp add: tiled_def)
      moreover have "aligned c \<and> unat c + 16 \<le> 2 ^ 32" if "c \<in> {R, ?M} \<union> {?Z}" using t(1) that by (simp only: tiled_def)
      ultimately show ?thesis using that by (auto simp: B'_def E'_def)
    qed
    have fin: "finite B'" "B' \<inter> E' = {}" "0 \<notin> B'" using ok'(2) t(1) notin unfolding B'_def E'_def tiled_def by auto
    have blk: "aligned (MM_GET_BUF_SIZE h' c) \<and> 8 \<le> unat (MM_GET_BUF_SIZE h' c) \<and> unat c + 16 + unat (MM_GET_BUF_SIZE h' c) < 2 ^ 32 \<and>
        succ (MM_GET_BUF_SIZE h') c \<in> B' \<union> E' \<and> (\<forall>d \<in> B' \<union> E'. unat c < unat d \<longrightarrow> unat c + 16 + unat (MM_GET_BUF_SIZE h' c) \<le> unat d)"
      if c: "c \<in> B'" for c
    proof -
      consider "c = R" | "c = ?M" | "c \<in> B" using c by (auto simp: B'_def)
      then show ?thesis
      proof cases
        case 1
        have "unat R + 24 < 2 ^ 32" using b(3,5) by simp
        then show ?thesis using 1 tagR(1) new t(8) by (auto simp: aligned_dvd succ_def B'_def region_sizes_def)
      next
        case 2
        have "succ (MM_GET_BUF_SIZE h') ?M = ?Z" using t(9) t(4) tagM(1) by (simp add: succ_def region_sizes_def)
        moreover have "unat ?Z < 2 ^ 32" "8 \<le> unat (len - 56)" using b(3,5) t(3,7) by simp_all
        ultimately show ?thesis using 2 tagM(1) newM la M16 by (simp add: E'_def)
      next
        case 3
        then have s: "MM_GET_BUF_SIZE h' c = MM_GET_BUF_SIZE h c" using tag(1) by simp
        then have "succ (MM_GET_BUF_SIZE h') c = succ (MM_GET_BUF_SIZE h) c" by (simp add: succ_def)
        then show ?thesis using tb(2-5) [OF 3] oldB [OF 3] s by (auto simp: B'_def E'_def)
      qed
    qed
    show ?thesis unfolding tiled_def using fin al blk newZ oldE by (auto simp: E'_def)
  qed
  have fb: "free_blocks h' B' - {?M} = free_blocks h B"
    using tag(2) tagR(2) tagM(2) notin by (auto simp: free_blocks_def B'_def)
  have "freelists h' (free_blocks h B)"
  proof (rule freelists_cong [OF ok'(3) h'(2,3)])
    fix c assume "c \<in> free_blocks h B"
    then have c: "c \<in> B \<union> E" "c \<in> B" "8 \<le> unat (MM_GET_BUF_SIZE h c)" using tiled_block(3) [OF ok'(2)] by (auto simp: free_blocks_def)
    show "fprevs h' c = fprevs h c \<and> fnexts h' c = fnexts h c \<and> MM_GET_BUF_SIZE h' c = MM_GET_BUF_SIZE h c"
      using out [OF c(1), of 16] out [OF c(1), of 20] c(2,3) tag(1) [OF c(1)] by (simp add: at_fld)
  qed
  moreover have sM: "succ (MM_GET_BUF_SIZE h') ?M = ?Z" using t(9) t(4) tagM(1) by (simp add: succ_def region_sizes_def)
  moreover have "tagged B' E' (MM_GET_BUF_SIZE h') ((is_free h')(?M := False)) ((prev_is_free h')(?Z := False)) (prevs h')"
  proof -
    let ?fr = "(is_free h')(?M := False)" and ?sz = "MM_GET_BUF_SIZE h'"
    have fr: "?fr c \<longleftrightarrow> c \<in> B \<and> is_free h c" if "c \<in> B' \<union> E'" for c
      using that tag(2) tagR(2) tagM(2) tagZ notin ok'(1) by (auto simp: B'_def E'_def tagged_def)
    have sc: "succ ?sz c = succ (MM_GET_BUF_SIZE h) c" if "c \<in> B" for c using tag(1) that by (simp add: succ_def)
    have ex: "(\<exists>c \<in> B'. ?fr c \<and> succ ?sz c = d) \<longleftrightarrow> (\<exists>c \<in> B. is_free h c \<and> succ (MM_GET_BUF_SIZE h) c = d)" for d
    proof
      assume "\<exists>c \<in> B'. ?fr c \<and> succ ?sz c = d"
      then obtain c where c: "c \<in> B'" "?fr c" "succ ?sz c = d" by blast
      then have cB: "c \<in> B" "is_free h c" using fr [of c] by simp_all
      moreover have "succ (MM_GET_BUF_SIZE h) c = d" using sc [OF cB(1)] c(3) by simp
      ultimately show "\<exists>c \<in> B. is_free h c \<and> succ (MM_GET_BUF_SIZE h) c = d" by (intro bexI [of _ c] conjI)
    next
      assume "\<exists>c \<in> B. is_free h c \<and> succ (MM_GET_BUF_SIZE h) c = d"
      then obtain c where c: "c \<in> B" "is_free h c" "succ (MM_GET_BUF_SIZE h) c = d" by blast
      then have "c \<in> B'" by (simp add: B'_def)
      moreover from this have "?fr c" using c(1,2) fr [of c] by simp
      moreover have "succ ?sz c = d" using sc [OF c(1)] c(3) by simp
      ultimately show "\<exists>c \<in> B'. ?fr c \<and> succ ?sz c = d" by (intro bexI [of _ c] conjI)
    qed
    have scB: "succ (MM_GET_BUF_SIZE h) c \<in> B \<union> E" if "c \<in> B" for c by (rule tiled_block(5) [OF ok'(2) that])
    have pf: "((prev_is_free h')(?Z := False)) d \<longleftrightarrow> (\<exists>c \<in> B'. ?fr c \<and> succ ?sz c = d)" if d: "d \<in> B' \<union> E'" for d
    proof (cases "d \<in> B \<union> E")
      case True
      then show ?thesis using tag(3) notin ok'(1) unfolding ex by (auto simp: tagged_def)
    next
      case False
      then have "\<not> ((prev_is_free h')(?Z := False)) d" using d tagR(3) tagM(3) by (auto simp: B'_def E'_def)
      then show ?thesis using False scB unfolding ex by blast
    qed
    have "prevs h' (succ ?sz c) = c \<and> \<not> ?fr (succ ?sz c) \<and> 32 \<le> unat (?sz c) \<and> unat (?sz c) < 2 ^ 20" if c: "c \<in> B'" "?fr c" for c
    proof -
      have cB: "c \<in> B" "is_free h c" using fr c by (auto simp: B'_def)
      note tf = tagged_free [OF ok'(1) cB] and s = scB [OF cB(1)]
      have "?fr (succ ?sz c) = is_free h (succ ?sz c)" using tag(2) [OF s] s notin sc [OF cB(1)] by auto
      then show ?thesis using tf sc [OF cB(1)] tag(1,4) s cB(1) by simp
    qed
    moreover have "\<not> ?fr e" if "e \<in> E'" for e
    proof -
      have "e \<notin> B" using that notin ok'(2) by (auto simp: E'_def tiled_def)
      then show ?thesis using fr [of e] that by blast
    qed
    ultimately show ?thesis using tiled pf unfolding tagged_def by blast
  qed
  moreover have "dyed h' (B' - {?M}) E'"
    unfolding dyed_def
  proof
    fix c assume "c \<in> B' - {?M} \<union> E'"
    then consider "c = R" | "c = ?Z" | "c \<in> B \<union> E" by (auto simp: B'_def E'_def)
    then show "dyes h' c = (if is_free h' c then RHINO_MM_FREE_DYE else RHINO_MM_CORRUPT_DYE)"
    proof cases
      case 3
      then show ?thesis using tag(2,5) [OF 3] ok'(4) by (simp add: dyed_def)
    qed (use rw(3,7) tagR(2) tagZ in \<open>simp_all add: at_fld\<close>)
  qed
  moreover have "bounded B' E'"
  proof -
    have "unat R < unat ?Z" "unat ?M < unat ?Z" "unat ?Z \<le> unat R + 2 ^ 20" "unat ?Z \<le> unat ?M + 2 ^ 20" using t(2,3) b(3,4) by simp_all
    then show ?thesis using ok'(5) unfolding bounded_def B'_def E'_def by blast
  qed
  ultimately show "mid h' B' E' ?M" unfolding mid_def fb sM by (simp add: B'_def)
qed

section \<open>The release of a region\<close>

text \<open>The heap does not depend on the words that are in no header and no link.\<close>

lemma heap_ok_words:
  assumes ok: "heap_ok h B E" and f: "freelist h' = freelist h" "free_bitmap h' = free_bitmap h"
    and w: "\<And>c i. c \<in> B \<union> E \<Longrightarrow> i < 16 \<Longrightarrow> word_at h' (fld c i) = word_at h (fld c i)"
    and l: "\<And>c. c \<in> free_blocks h B \<Longrightarrow> fprevs h' c = fprevs h c \<and> fnexts h' c = fnexts h c"
  shows "heap_ok h' B E" "used_blocks h' B = used_blocks h B" "c \<in> B \<union> E \<Longrightarrow> MM_GET_BUF_SIZE h' c = MM_GET_BUF_SIZE h c"
proof -
  note ok' = heap_ok_parts [OF ok]
  have tag: "MM_GET_BUF_SIZE h' c = MM_GET_BUF_SIZE h c" "is_free h' c = is_free h c" "prev_is_free h' c = prev_is_free h c"
    "prevs h' c = prevs h c" "dyes h' c = dyes h c" if c: "c \<in> B \<union> E" for c
    by (rule same_tags; rule w [OF c]; assumption)+
  have "freelists h' {c \<in> B. is_free h c}"
    by (rule freelists_cong [OF ok'(3) [unfolded free_blocks_def] f]) (use l tag(1) in \<open>auto simp: free_blocks_def\<close>)
  then show "heap_ok h' B E" by (rule heap_okI [OF ok'(1) _ ok'(5)]; use tag ok'(4) in \<open>auto simp: dyed_def\<close>)
  show "used_blocks h' B = used_blocks h B" using tag(2) by (auto simp: used_blocks_def)
  show "c \<in> B \<union> E \<Longrightarrow> MM_GET_BUF_SIZE h' c = MM_GET_BUF_SIZE h c" by (rule tag(1))
qed

lemma region_release:
  assumes ok: "heap_ok h B E" and p: "pool_ok h (used_blocks h B) S" and g: "good_region R len" and ap: "apart h B E R len"
    and h': "word_at h' = word_at (region_set h R len v)" "freelist h' = freelist h" "free_bitmap h' = free_bitmap h" "pool_frame h h'"
  shows "\<exists>B2 E2. heap_ok (k_mm_free h' False (buf_of (mid_of R))) B2 E2 \<and>
    pool_ok (k_mm_free h' False (buf_of (mid_of R))) (used_blocks (k_mm_free h' False (buf_of (mid_of R))) B2) S \<and>
    used_blocks (k_mm_free h' False (buf_of (mid_of R))) B2 = insert R (used_blocks h B) \<and>
    MM_GET_BUF_SIZE (k_mm_free h' False (buf_of (mid_of R))) R = 8 \<and>
    view (k_mm_free h' False (buf_of (mid_of R))) (insert R (used_blocks h B)) S = view h (used_blocks h B) S \<and>
    core_frame h' (k_mm_free h' False (buf_of (mid_of R)))"
proof -
  let ?M = "mid_of R"
  define h2 where "h2 = k_mm_free h' False (buf_of ?M)"
  note m = region_mid [OF ok g ap h'(1-3)] and t = region_tiles [OF g]
  let ?B = "insert R (insert ?M B)" and ?E = "insert (last_of R len) E" and ?U = "used_blocks h B"
  have U: "?U \<subseteq> B" by (auto simp: used_blocks_def)
  have "pool_at h' q S" if "q \<in> ?U" "pool_at h q S" for q
    by (rule pool_at_frame [OF that(2) h'(4) keeps_subset [OF m(6)]]) (use that(1) U in auto)
  moreover have "fix_pool h' = fix_pool h" using h'(4) by (simp add: pool_frame_def)
  ultimately have p': "pool_ok h' ?U S" using p by (auto simp: pool_ok_def)
  have np: "\<not> krhino_mblk_check h' (fix_pool h' = 0) (buf_of ?M)"
    by (rule tile_not_small [OF mid_parts(4) [OF m(1)] p']) (use U in auto)
  have "88 \<le> unat len" using g by (simp add: good_region_def)
  then have s32: "32 \<le> unat (MM_GET_BUF_SIZE h' ?M)" unfolding m(3) t(7) by simp
  have "blk_released h' h2 ?B ?E ?M" unfolding h2_def by (rule k_mm_free_mid [OF m(1) s32 m(2) np])
  then obtain B2 where B2: "heap_ok h2 B2 ?E" "used_blocks h2 B2 = used_blocks h' ?B - {?M}"
    and k: "keeps h' h2 (used_blocks h' ?B - {?M})" "core_frame h' h2" by (auto simp: blk_released_def)
  have u: "used_blocks h' ?B - {?M} = insert R ?U" using m(5,7,8) t(4) U by auto
  have kU: "keeps h h2 ?U" by (rule keeps_trans [OF keeps_subset [OF m(6) U] keeps_subset [OF k(1)]]) (use u in auto)
  have pf: "pool_frame h h2" using h'(4) k(2) by (simp add: pool_frame_def core_frame_def)
  have vf: "pool_ok h2 (used_blocks h2 B2) S"
    "x \<in> S \<or> MM_GET_THIS_BLK x \<in> ?U \<or> MM_GET_THIS_BLK x \<notin> ?U \<union> used_blocks h2 B2 \<Longrightarrow>
       view h2 (used_blocks h2 B2) S x = view h ?U S x" for x
    by (rule view_frame [OF ok p B2(1) kU pf]; use B2(2) u in auto)+
  have R8: "MM_GET_BUF_SIZE h2 R = 8" using k(1) m(4) u by (simp add: keeps_def)
  have "view h2 (insert R ?U) S = view h ?U S"
  proof
    fix x
    show "view h2 (insert R ?U) S x = view h ?U S x"
    proof (cases "x \<in> S \<or> MM_GET_THIS_BLK x \<noteq> R")
      case True
      then show ?thesis using vf(2) [of x] B2(2) u by auto
    next
      case False
      then show ?thesis using R8 m(7) U by (auto simp: view_def)
    qed
  qed
  note vw = this
  have u2: "used_blocks h2 B2 = insert R ?U" using B2(2) u by (rule trans)
  show ?thesis unfolding h2_def [symmetric] by (intro exI conjI; (rule B2(1) vf(1) u2 R8 vw k(2))?)
qed

section \<open>Adding a region\<close>

lemma zero_words_out:
  "unat d + 4 * n \<le> 2 ^ 32 \<Longrightarrow> unat a < unat d \<or> unat d + 4 * n \<le> unat a \<Longrightarrow> word_at (zero_words n h d) a = word_at h a"
proof (induction n arbitrary: h d)
  case (Suc n)
  show ?case
  proof (cases "n = 0")
    case True
    then show ?thesis using Suc.prems(2) by (auto simp: word_at_store)
  next
    case False
    then have "unat (d + 4) = unat d + 4" using Suc.prems(1) by (simp add: unat_word_ariths)
    then show ?thesis using Suc.IH [of "d + 4" "store h d 0"] Suc.prems by (auto simp: word_at_store)
  qed
qed simp

lemma zero_words_only: "words_only h (zero_words n h d)"
proof (induction n arbitrary: h d)
  case (Suc n)
  show ?case by (simp, rule words_only_trans [OF _ Suc.IH]) simp
qed simp

lemma align_down: "aligned (MM_ALIGN_DOWN s) \<and> unat (MM_ALIGN_DOWN s) \<le> unat s \<and> unat s < unat (MM_ALIGN_DOWN s) + 8"
proof -
  have a: "aligned (s AND NOT 7)" by (rule aligned_buf)
  have "s = (s AND NOT 7) + (s AND 7)" using flag_laws(19) [of s] by simp
  moreover have "unat (s AND 7) \<le> 7"
  proof -
    have "s AND 7 \<le> 7" by (rule word_and_le1)
    then show ?thesis by (simp add: word_le_nat_alt)
  qed
  moreover have "s AND NOT 7 \<le> s" by (rule word_and_le2)
  ultimately have "unat s \<le> unat (s AND NOT 7) + 7" "unat (s AND NOT 7) \<le> unat s"
    using unat_add_le [of "s AND NOT 7" "s AND 7"] by (simp_all add: word_le_nat_alt)
  then show ?thesis using a by (simp add: MM_ALIGN_DOWN_def MM_ALIGN_MASK_def)
qed

lemma zeroed:
  assumes ok: "heap_ok h B E" and g: "good_region R len" and ap: "apart h B E R len" and z: "z = zero_words (unat len div 4) h R"
  shows "heap_ok z B E" "used_blocks z B = used_blocks h B" "apart z B E R len" "keeps h z B" "words_only h z"
proof -
  note t = heap_ok_parts(2) [OF ok]
  have b: "unat R + 4 * (unat len div 4) \<le> unat R + unat len" "unat R + unat len < 2 ^ 32" using g by (auto simp: good_region_def)
  have out: "word_at z (fld c i) = word_at h (fld c i)" if c: "c \<in> B \<union> E" "i < 16 \<or> c \<in> B \<and> i < 16 + unat (MM_GET_BUF_SIZE h c)" for c i
  proof -
    have "unat (fld c i) = unat c + i" by (rule unat_fld [OF t c])
    moreover have "unat c + i < unat R \<or> unat R + unat len \<le> unat c + i" using ap c unfolding apart_def by fastforce
    ultimately show ?thesis unfolding z using b by (intro zero_words_out) auto
  qed
  show wo: "words_only h z" unfolding z by (rule zero_words_only)
  have hw: "heap_ok z B E" "used_blocks z B = used_blocks h B" "c \<in> B \<union> E \<Longrightarrow> MM_GET_BUF_SIZE z c = MM_GET_BUF_SIZE h c" for c
  proof -
    have f: "freelist z = freelist h" "free_bitmap z = free_bitmap h" using words_only_frame [OF wo] by simp_all
    have l: "fprevs z c = fprevs h c \<and> fnexts z c = fnexts h c" if "c \<in> free_blocks h B" for c
    proof -
      have c: "c \<in> B \<union> E" "c \<in> B" "8 \<le> unat (MM_GET_BUF_SIZE h c)" using that tiled_block(3) [OF t] by (auto simp: free_blocks_def)
      then show ?thesis using out [OF c(1), of 16] out [OF c(1), of 20] by (simp add: at_fld)
    qed
    show "heap_ok z B E" "used_blocks z B = used_blocks h B" "c \<in> B \<union> E \<Longrightarrow> MM_GET_BUF_SIZE z c = MM_GET_BUF_SIZE h c"
      by (rule heap_ok_words [OF ok f]; use out l in simp)+
  qed
  show "heap_ok z B E" "used_blocks z B = used_blocks h B" by (rule hw)+
  show "apart z B E R len" using ap hw(3) unfolding apart_def by simp
  show "keeps h z B" using out hw(3) by (simp add: keeps_def)
qed

lemma add_region_shows:
  assumes ok: "heap_ok h B E" "pool_ok h (used_blocks h B) S" and R: "R = MM_ALIGN_UP addr" "len = MM_ALIGN_DOWN (len0 - (R - addr))"
    and g: "addr \<noteq> 0" "good_region R len" and ap: "apart h B E R len" and run: "krhino_add_mm_region h False addr len0 = (sta, h')"
  shows "sta = RHINO_SUCCESS \<and> heap_shows h' (view h (used_blocks h B) S) \<and> mm_traps h' = mm_traps h"
proof -
  define z where "z = zero_words (unat len div 4) h R"
  note zo = zeroed [OF ok(1) g(2) ap z_def]
  define g2 where "g2 = snd (init_mm_region z R len)"
  note rw = region_words [OF g(2), of "region_set z R len (regioninfo g2)" z "regioninfo g2", OF refl, folded g2_def]
  define g5 where "g5 = (let h3 = (store g2 (fld R 20) (regioninfo g2))\<lparr>regioninfo := fld R 16\<rparr>;
      h4 = store (store h3 (dye_at (mid_of R)) RHINO_MM_CORRUPT_DYE) (owner_at (mid_of R)) 0
    in h4\<lparr>used_size := used_size h4 + MM_GET_BLK_SIZE h4 (mid_of R)\<rparr>)"
  have sizes: "\<not> (len = 0 \<or> len < sizeof_region_info + MMLIST_HEAD_SIZE * 3 + MM_MIN_SIZE)"
  proof -
    have "88 \<le> unat len" using g(2) by (simp add: good_region_def)
    then show ?thesis by (auto simp: head_size mm_consts word_less_nat_alt)
  qed
  have i: "init_mm_region z R len = (R, g2)" using rw(1) by (simp add: g2_def prod_eq_iff)
  have "fld R 16 + 4 = fld R 20" by (simp add: fld_def)
  then have run': "sta = RHINO_SUCCESS" "h' = k_mm_free g5 False (buf_of (mid_of R))"
    using run g(1) sizes unfolding krhino_add_mm_region_def
    by (simp_all add: R(1) [symmetric] R(2) [symmetric] z_def [symmetric] i rw(2) Let_def g5_def buffer_fld)
  have w5: "word_at g5 = word_at (region_set z R len (regioninfo g2))"
    by (simp add: g5_def region_set_def Let_def g2_def [symmetric] store_def)
  have f5: "freelist g5 = freelist z" "free_bitmap g5 = free_bitmap z" "pool_frame z g5" "mm_traps g5 = mm_traps z"
    using words_only_frame [OF rw(11)] by (simp_all add: g5_def Let_def pool_frame_def)
  have "pool_ok z (used_blocks z B) S"
  proof -
    have "pool_at z q S" if "q \<in> used_blocks h B" "pool_at h q S" for q
      by (rule pool_at_frame [OF that(2) _ keeps_subset [OF zo(4)]])
        (use that(1) words_only_frame [OF zo(5)] in \<open>auto simp: pool_frame_def used_blocks_def\<close>)
    then show ?thesis using ok(2) words_only_frame [OF zo(5)] by (auto simp: pool_ok_def zo(2))
  qed
  note rr = region_release [OF zo(1) this g(2) zo(3) w5 f5(1-3), folded run'(2)]
  have "view z (used_blocks z B) S = view h (used_blocks h B) S"
  proof
    fix x
    have pf: "pool_frame h z" using words_only_frame [OF zo(5)] by (simp add: pool_frame_def)
    show "view z (used_blocks z B) S x = view h (used_blocks h B) S x"
      by (rule view_frame(2) [OF ok zo(1) keeps_subset [OF zo(4)] pf, of "used_blocks h B"]) (auto simp: zo(2), auto simp: used_blocks_def)
  qed
  then have "heap_shows h' (view h (used_blocks h B) S)" using rr unfolding heap_shows_def by (metis zo(2))
  moreover have "mm_traps h' = mm_traps h" using rr f5(4) words_only_frame [OF zo(5)] by (auto simp: core_frame_def)
  ultimately show ?thesis using run'(1) by simp
qed

section \<open>The pool of the first region\<close>

lemma linked_only: "words_only h (linked h start bsz k n)"
proof (induction n arbitrary: h k)
  case (Suc n)
  show ?case by (simp, rule words_only_trans [OF _ Suc.IH]) simp
qed simp

lemma linked_out: "(\<And>i. k \<le> i \<Longrightarrow> i < k + n \<Longrightarrow> a \<noteq> blk_at start bsz i) \<Longrightarrow> word_at (linked h start bsz k n) a = word_at h a"
proof (induction n arbitrary: h k)
  case (Suc n)
  have "word_at (linked (store h (blk_at start bsz k) (blk_at start bsz (Suc k))) start bsz (Suc k) n) a =
      word_at (store h (blk_at start bsz k) (blk_at start bsz (Suc k))) a"
    by (rule Suc.IH) (use Suc.prems in simp)
  then show ?case using Suc.prems [of k] by (simp add: word_at_store)
qed simp

text \<open>256 blocks of 32 bytes in 8192 bytes.\<close>

lemma fixed_pool_init:
  assumes s: "aligned start" "start \<noteq> 0" "unat start + 8192 < 2 ^ 32"
  shows "\<exists>h'. krhino_mblk_pool_init (unat RHINO_CONFIG_MM_TLF_BLK_SIZE) h False (Some nm) start RHINO_CONFIG_MM_BLK_SIZE RHINO_CONFIG_MM_TLF_BLK_SIZE =
      Some (RHINO_SUCCESS, h') \<and>
    pool h' = \<lparr>pool_name = Some nm, pool_end = start + 8192, pool_start = start, pool_blk_size = 32, blk_avail = 256, blk_whole = 256, avail_list = start\<rparr> \<and>
    chain h' start (map (blk_at start 32) [0..<256]) \<and> distinct (map (blk_at start 32) [0..<256]) \<and>
    (\<forall>a. (\<forall>i < 256. a \<noteq> blk_at start 32 i) \<longrightarrow> word_at h' a = word_at h a) \<and>
    words_only h (h'\<lparr>pool := pool h\<rparr>)"
proof -
  define L :: nat where "L = 255"
  have un: "unat (blk_at start 32 i) = unat start + i * 32" if "i \<le> Suc L" for i
    using unat_blk_at [of start i 32] that s(3) by (simp add: L_def)
  have pend: "unat (start + 8192) = unat start + 8192" using s(3) by (simp add: unat_word_ariths)
  have lt: "(blk_at start 32 (Suc i) < start + 8192) = (i < L)" if "i \<le> L" for i
    using un [of "Suc i"] that pend by (simp add: word_less_nat_alt L_def)
  have inj: "i = j" if "i \<le> L" "j \<le> L" "blk_at start 32 i = blk_at start 32 j" for i j
  proof -
    have "unat (blk_at start 32 i) = unat (blk_at start 32 j)" using that(3) by (rule arg_cong)
    then have "unat start + i * 32 = unat start + j * 32" using un [of i] un [of j] that(1,2) by simp
    then show ?thesis by simp
  qed
  have nz: "blk_at start 32 i \<noteq> 0" if "i \<le> L" for i
  proof
    assume "blk_at start 32 i = 0"
    then have "unat start + i * 32 = 0" using un [of i] that by simp
    then show False using s(2) by (simp add: unat_eq_0)
  qed
  define m1 where "m1 = linked h start 32 0 L"
  have b0: "blk_at start 32 0 = start" "blk_at start 32 (Suc 0) = start + 32" by (simp_all add: blk_at_def)
  have run: "chain_blocks 8192 h 32 (start + 8192) 0 start (start + 32) =
      Some (m1, of_nat L, blk_at start 32 L, blk_at start 32 (Suc L))"
    using chain_blocks_links [OF lt, of 0 8192 h 0] by (simp add: b0 m1_def L_def)
  define m2 where "m2 = store m1 (blk_at start 32 L) 0"
  have last: "blk_at start 32 256 = start + 8192" by (simp add: blk_at_def)
  define h' where "h' = m2\<lparr>pool := \<lparr>pool_name = Some nm, pool_end = start + 8192, pool_start = start, pool_blk_size = 32,
    blk_avail = 256, blk_whole = 256, avail_list = start\<rparr>\<rparr>"
  have three: "a AND 3 = 0" if "aligned a" for a :: u32
  proof -
    have "(3 :: u32) = mask 2" by (simp add: mask_numeral)
    then have "a AND 3 = take_bit 2 a" by (simp only: take_bit_eq_mask)
    also have "\<dots> = 0" by (rule bit_word_eqI) (use that in \<open>simp add: aligned_bits bit_take_bit_iff\<close>)
    finally show ?thesis .
  qed
  have al: "start AND 3 = 0" "(32 :: u32) AND 3 = 0" "(8192 :: u32) AND 3 = 0" "\<not> (8192 :: u32) < push_bit 1 32" using three [OF s(1)] by simp_all
  have "krhino_mblk_pool_init 8192 h False (Some nm) start 32 8192 = Some (RHINO_SUCCESS, h')"
    unfolding krhino_mblk_pool_init_def using s(2) al(4) by (simp add: al(1-3) run Let_def last h'_def m2_def L_def)
  then have init: "krhino_mblk_pool_init (unat RHINO_CONFIG_MM_TLF_BLK_SIZE) h False (Some nm) start RHINO_CONFIG_MM_BLK_SIZE RHINO_CONFIG_MM_TLF_BLK_SIZE = Some (RHINO_SUCCESS, h')"
    by (simp add: RHINO_CONFIG_MM_TLF_BLK_SIZE_def RHINO_CONFIG_MM_BLK_SIZE_def)
  have link: "word_at m2 (blk_at start 32 i) = (if i = L then 0 else blk_at start 32 (Suc i))" if i: "i \<le> L" for i
  proof (cases "i = L")
    case False
    then have "blk_at start 32 i \<noteq> blk_at start 32 L" using inj [OF i order_refl] by metis
    then have "word_at m2 (blk_at start 32 i) = word_at m1 (blk_at start 32 i)" by (simp add: m2_def word_at_store)
    also have "\<dots> = blk_at start 32 (Suc i)" unfolding m1_def by (subst linked_word [OF inj]) (use i False in simp_all)
    finally show ?thesis using False by simp
  qed (simp add: m2_def word_at_store)
  have "chain m2 (blk_at start 32 0) (map (blk_at start 32) [0..<Suc L])" by (rule chain_of_links [OF nz]) (use link in simp_all)
  then have ch: "chain h' start (map (blk_at start 32) [0..<256])" using chain_cong [of h' m2] by (simp add: b0 h'_def L_def)
  have "inj_on (blk_at start 32) {0..<256}" by (rule inj_onI) (use inj in \<open>simp add: L_def\<close>)
  then have di: "distinct (map (blk_at start 32) [0..<256])" by (simp only: distinct_map distinct_upt set_upt)
  have out: "word_at h' a = word_at h a" if "\<forall>i < 256. a \<noteq> blk_at start 32 i" for a
  proof -
    have "word_at m1 a = word_at h a" unfolding m1_def by (rule linked_out) (use that in \<open>simp add: L_def\<close>)
    then show ?thesis using that by (simp add: h'_def m2_def word_at_store L_def)
  qed
  have "words_only h m1" unfolding m1_def by (rule linked_only)
  then have "words_only h m2" "pool m2 = pool h" using words_only_frame(1) by (simp_all add: m2_def)
  moreover have "h'\<lparr>pool := pool h\<rparr> = m2\<lparr>pool := pool h\<rparr>" by (simp add: h'_def)
  ultimately have "words_only h (h'\<lparr>pool := pool h\<rparr>)" by (cases m2) simp
  then show ?thesis using init ch di out by (intro exI [of _ h'] conjI) (simp_all add: h'_def)
qed

lemma init_fix_pool_shows:
  assumes ok: "heap_ok h B E" and f: "fix_pool h = 0" and small: "\<And>c. c \<in> used_blocks h B \<Longrightarrow> unat (MM_GET_BUF_SIZE h c) < 32"
  shows "heap_shows (init_fix_pool h) Map.empty" "mm_traps (init_fix_pool h) = mm_traps h"
proof -
  have req: "RHINO_CONFIG_MM_TLF_BLK_SIZE + 40 = 8232" "MM_ALIGN_UP sizeof_mblk_pool = 40"
    by (simp_all add: MM_ALIGN_UP_def mm_consts)
  obtain p h1 where al: "k_mm_alloc h False 8232 = (p, h1)" by fastforce
  have ns: "not_small h 8232" using f by (simp add: not_small_def)
  have "heap_shows (init_fix_pool h) Map.empty \<and> mm_traps (init_fix_pool h) = mm_traps h"
  proof (cases "p = 0")
    case True
    have "h1 = h" using k_mm_alloc_block [OF ok _ _ ns, unfolded al] True buffer_nonzero [OF heap_ok_parts(2) [OF ok]]
      by (fastforce simp: free_blocks_def)
    then have "init_fix_pool h = h" using True al by (simp add: init_fix_pool_def [unfolded req])
    moreover have "view h (used_blocks h B) {} = Map.empty"
      by (rule ext) (use small in \<open>auto simp: view_def Let_def not_le\<close>)
    ultimately show ?thesis using ok f unfolding heap_shows_def pool_ok_def by metis
  next
    case False
    have "unat (8232 :: u32) + 7 < 2 ^ 32" "(8232 :: u32) \<noteq> 0" by simp_all
    from k_mm_alloc_block [OF ok this(2,1) ns, unfolded al] False
    obtain b where b: "b \<in> free_blocks h B" "p = buf_of b" "allocated h h1 B E b (aligned_request 8232)" by auto
    obtain B1 where B1: "heap_ok h1 B1 E" "used_blocks h1 B1 = insert b (used_blocks h B)"
      and k: "aligned_request 8232 \<le> MM_GET_BUF_SIZE h1 b" "keeps h h1 (used_blocks h B)" "core_frame h h1"
      using b(3) by (auto simp: allocated_def)
    note ok1 = heap_ok_parts [OF B1(1)]
    have "unat (8232 :: u32) \<le> unat (aligned_request 8232)" using aligned_request(2) [of 8232] by (simp add: word_le_nat_alt)
    then have sb: "8232 \<le> unat (MM_GET_BUF_SIZE h1 b)" using k(1) by (simp add: word_le_nat_alt)
    have bB: "b \<in> B1" "b \<in> B1 \<union> E" "\<not> is_free h1 b" using B1(2) by (auto simp: used_blocks_def)
    have uf: "unat (fld b i) = unat b + i" if "i < 8248" for i by (rule unat_fld [OF ok1(2) bB(2)]) (use that bB sb in simp)
    have lim: "unat b + 16 + 8232 < 2 ^ 32" using tiled_block(4) [OF ok1(2) bB(1)] sb by linarith
    have start: "p + 40 = fld b 56" by (simp add: b(2) buf_of_def fld_def)
    have u56: "unat (fld b 56) = unat b + 56" by (rule uf) simp
    have st: "aligned (fld b 56)" "fld b 56 \<noteq> 0" "unat (fld b 56) + 8192 < 2 ^ 32"
    proof -
      have "8 dvd unat b" using tiled_block(1) [OF ok1(2) bB(1)] by (simp add: aligned_dvd)
      then have "8 dvd unat b + 56" by simp
      then show "aligned (fld b 56)" by (simp only: aligned_dvd u56)
      show "fld b 56 \<noteq> 0" using u56 by auto
      show "unat (fld b 56) + 8192 < 2 ^ 32" using u56 lim by simp
    qed
    obtain h2 where h2: "krhino_mblk_pool_init (unat RHINO_CONFIG_MM_TLF_BLK_SIZE) h1 False (Some ''fixed_mm_blk'') (fld b 56) RHINO_CONFIG_MM_BLK_SIZE
        RHINO_CONFIG_MM_TLF_BLK_SIZE = Some (RHINO_SUCCESS, h2)"
      "pool h2 = \<lparr>pool_name = Some ''fixed_mm_blk'', pool_end = fld b 56 + 8192, pool_start = fld b 56, pool_blk_size = 32, blk_avail = 256,
         blk_whole = 256, avail_list = fld b 56\<rparr>"
      "chain h2 (fld b 56) (map (blk_at (fld b 56) 32) [0..<256])" "distinct (map (blk_at (fld b 56) 32) [0..<256])"
      "\<forall>a. (\<forall>i < 256. a \<noteq> blk_at (fld b 56) 32 i) \<longrightarrow> word_at h2 a = word_at h1 a" "words_only h1 (h2\<lparr>pool := pool h1\<rparr>)"
      using fixed_pool_init [OF st, of h1 "''fixed_mm_blk''"] by blast
    have slot: "blk_at (fld b 56) 32 i = fld b (56 + 32 * i)" for i by (simp add: blk_at_def fld_def algebra_simps)
    have fr: "freelist h2 = freelist h1" "free_bitmap h2 = free_bitmap h1" "fix_pool h2 = fix_pool h1" "mm_traps h2 = mm_traps h1"
      using words_only_frame [OF h2(6)] by simp_all
    have same: "word_at h2 (fld c i) = word_at h1 (fld c i)"
      if c: "c \<in> B1 \<union> E" "i < 16 \<or> c \<in> B1 \<and> i < 16 + unat (MM_GET_BUF_SIZE h1 c)" "c = b \<Longrightarrow> i < 16" for c i
    proof -
      have "fld c i \<noteq> fld b (56 + 32 * j)" if "j < 256" for j
      proof -
        have "fld c i = fld b (56 + 32 * j) \<longleftrightarrow> c = b \<and> i = 56 + 32 * j"
          by (rule fld_eq [OF ok1(2) c(1) bB(2) c(2)]) (use that bB(1) sb in simp)
        then show ?thesis using c(3) by auto
      qed
      then show ?thesis using h2(5) slot by simp
    qed
    have l: "fprevs h2 c = fprevs h1 c \<and> fnexts h2 c = fnexts h1 c" if "c \<in> free_blocks h1 B1" for c
    proof -
      have c: "c \<in> B1 \<union> E" "c \<in> B1" "c \<noteq> b" "8 \<le> unat (MM_GET_BUF_SIZE h1 c)"
        using that tiled_block(3) [OF ok1(2)] bB(3) by (auto simp: free_blocks_def)
      then show ?thesis using same [OF c(1), of 16] same [OF c(1), of 20] by (simp add: at_fld)
    qed
    have w: "word_at h2 (fld c i) = word_at h1 (fld c i)" if "c \<in> B1 \<union> E" "i < 16" for c i by (rule same) (use that in simp_all)
    have hw: "heap_ok h2 B1 E" "used_blocks h2 B1 = used_blocks h1 B1" "c \<in> B1 \<union> E \<Longrightarrow> MM_GET_BUF_SIZE h2 c = MM_GET_BUF_SIZE h1 c" for c
      by (rule heap_ok_words [OF B1(1) fr(1,2)]; use w l in simp)+
    define h4 where "h4 = (let g = removesize (h2\<lparr>fix_pool := p\<rparr>) RHINO_CONFIG_MM_TLF_BLK_SIZE in g\<lparr>maxused_size := used_size g\<rparr>)"
    have run: "init_fix_pool h = h4" using False al h2(1) by (simp add: init_fix_pool_def [unfolded req] start h4_def Let_def)
    have s4: "same_blocks h2 h4" "pool h4 = pool h2" "fix_pool h4 = p" "mm_traps h4 = mm_traps h2"
      by (simp_all add: h4_def same_blocks_def Let_def removesize_def)
    have w4: "word_at h4 = word_at h2" using s4(1) by (simp add: same_blocks_def)
    note e4 = same_blocks_ok [OF s4(1)]
    have ok4: "heap_ok h4 B1 E" using hw(1) e4(1) by simp
    have u4: "used_blocks h4 B1 = insert b (used_blocks h B)" using hw(2) e4(2) B1(2) by simp
    have sb4: "MM_GET_BUF_SIZE h4 b = MM_GET_BUF_SIZE h1 b" using hw(3) [OF bB(2)] e4(5) by simp
    have "pool_at h4 b {}"
      unfolding pool_at_def
    proof (intro conjI exI)
      show "fix_pool h4 = buf_of b" using s4(3) b(2) by simp
      show "8232 \<le> unat (MM_GET_BUF_SIZE h4 b)" using sb sb4 by simp
      show "pool_start (pool h4) = fld b 56" "pool_end (pool h4) = fld b 8248" by (simp_all add: s4(2) h2(2) fld_def)
      show "chain h4 (avail_list (pool h4)) (map (blk_at (fld b 56) 32) [0..<256])" using h2(3) chain_cong [OF w4] by (simp add: s4(2) h2(2))
      show "set (map (blk_at (fld b 56) 32) [0..<256]) = slots b - {}" by (simp add: slots_def slot atLeast0LessThan)
      show "blk_avail (pool h4) = of_nat (length (map (blk_at (fld b 56) 32) [0..<256]))" by (simp add: s4(2) h2(2))
    qed (use h2(4) in simp_all)
    then have p4: "pool_ok h4 (used_blocks h4 B1) {}" using u4 by (auto simp: pool_ok_def)
    have "view h4 (used_blocks h4 B1) {} = Map.empty"
    proof
      fix q
      have "MM_GET_BUF_SIZE h4 c = MM_GET_BUF_SIZE h c" if "c \<in> used_blocks h B" for c
      proof -
        have "c \<in> B1 \<union> E" using that B1(2) by (auto simp: used_blocks_def)
        then show ?thesis using hw(3) e4(5) k(2) that by (simp add: keeps_def)
      qed
      then have "unat (MM_GET_BUF_SIZE h4 c) < 32" if "c \<in> used_blocks h B" for c using small that by simp
      moreover have "MM_GET_THIS_BLK q = b \<Longrightarrow> fix_pool h4 = q" using s4(3) b(2) this_blk_iff by simp
      ultimately show "view h4 (used_blocks h4 B1) {} q = None" unfolding u4 by (auto simp: view_def Let_def not_le)
    qed
    then have "heap_shows h4 Map.empty" using ok4 p4 unfolding heap_shows_def by metis
    then show ?thesis using run s4(4) fr(4) k(3) by (simp add: core_frame_def)
  qed
  then show "heap_shows (init_fix_pool h) Map.empty" "mm_traps (init_fix_pool h) = mm_traps h" by simp_all
qed

section \<open>The first region\<close>

lemma empty_heap: "heap_ok (zero_mm_head h) {} {}" "pool_ok (zero_mm_head h) {} {}" "fix_pool (zero_mm_head h) = 0"
  "mm_traps (zero_mm_head h) = mm_traps h"
proof -
  have "freelists (zero_mm_head h) {}"
    unfolding freelists_def by (auto simp: zero_mm_head_def dlist_def intro!: exI [of _ "[]"])
  then show "heap_ok (zero_mm_head h) {} {}"
    by (simp add: heap_ok_def tagged_def tiled_def dyed_def bounded_def free_blocks_def)
  show "pool_ok (zero_mm_head h) {} {}" "fix_pool (zero_mm_head h) = 0" "mm_traps (zero_mm_head h) = mm_traps h"
    by (simp_all add: pool_ok_def zero_mm_head_def)
qed

text \<open>How much an address moves when it is aligned.\<close>

lemma align_gap: "unat (MM_ALIGN_UP a - a) \<le> 7"
proof -
  have "MM_ALIGN_UP a + ((a + 7) AND 7) = a + 7" using flag_laws(19) [of "a + 7"] by (simp add: MM_ALIGN_UP_def MM_ALIGN_MASK_def)
  then have "MM_ALIGN_UP a - a = 7 - ((a + 7) AND 7)" by (simp add: algebra_simps)
  moreover have "(a + 7) AND 7 \<le> 7" by (rule word_and_le1)
  ultimately show ?thesis by (simp add: unat_sub_if' word_le_nat_alt)
qed

lemma aligned_region:
  assumes r: "unat a + unat n < 2 ^ 32" and A: "A = MM_ALIGN_UP a" and len: "len = MM_ALIGN_DOWN (n - (A - a))"
    and b: "9216 \<le> unat len" "unat len \<le> 2 ^ 20"
  shows "aligned A" "aligned len" "unat A + unat len < 2 ^ 32" "unat a \<le> unat A"
proof -
  define d where "d = A - a"
  have d: "unat d \<le> 7" unfolding d_def A by (rule align_gap)
  note al = align_down [of "n - d", folded len [folded d_def]]
  have nd: "unat d \<le> unat n"
  proof (rule ccontr)
    assume "\<not> unat d \<le> unat n"
    then have "unat (n - d) = 2 ^ 32 + unat n - unat d" by (simp add: unat_sub_if')
    then have "4294967289 \<le> unat (n - d)" using d by simp
    moreover have "unat (n - d) < unat len + 8" "unat len \<le> 1048576" using al b(2) by simp_all
    ultimately show False by linarith
  qed
  then have n: "unat (n - d) = unat n - unat d" by (simp add: unat_sub_if')
  then have big: "9216 \<le> unat n" using al b by linarith
  then have a7: "unat a + 7 < 2 ^ 32" using r by simp
  have "A = a + d" by (simp add: d_def)
  then have uA: "unat A = unat a + unat d" using a7 d by (simp add: unat_word_ariths)
  show "aligned A" using align_up [OF a7] A by simp
  show "aligned len" using al by simp
  show "unat A + unat len < 2 ^ 32" using al n nd uA r by linarith
  show "unat a \<le> unat A" using uA by simp
qed

lemma init_head_shows:
  assumes a: "addr \<noteq> 0" "unat addr + unat len0 < 2 ^ 32" and len: "len = MM_ALIGN_DOWN (len0 - (MM_ALIGN_UP addr - addr))"
    and run: "krhino_init_mm_head h False addr len0 = (sta, h')"
  shows "if 9216 \<le> unat len \<and> unat len \<le> 2 ^ 20 then sta = RHINO_SUCCESS \<and> heap_shows h' Map.empty \<and> mm_traps h' = mm_traps h
    else sta = RHINO_MM_POOL_SIZE_ERR \<and> h' = h"
proof -
  have bounds: "(len = 0 \<or> len < MIN_FREE_MEMORY_SIZE + RHINO_CONFIG_MM_TLF_BLK_SIZE \<or> len > MM_MAX_SIZE) \<longleftrightarrow> \<not> (9216 \<le> unat len \<and> unat len \<le> 2 ^ 20)"
    by (auto simp: mm_consts word_less_nat_alt not_le)
  show ?thesis
  proof (cases "9216 \<le> unat len \<and> unat len \<le> 2 ^ 20")
    case False
    then have "sta = RHINO_MM_POOL_SIZE_ERR \<and> h' = h"
      using run a(1) bounds unfolding krhino_init_mm_head_def Let_def len [symmetric] by simp
    then show ?thesis using False by (simp only: if_False)
  next
    case True
    define A where "A = MM_ALIGN_UP addr"
    note ar = aligned_region [OF a(2) A_def len [folded A_def]]
    define R where "R = A + MM_ALIGN_UP sizeof_mm_head"
    define L where "L = MM_ALIGN_DOWN (len - sizeof_mm_head)"
    have k: "MM_ALIGN_UP sizeof_mm_head = 160" "sizeof_mm_head = 156" by (simp_all add: MM_ALIGN_UP_def mm_consts)
    have al: "aligned A" "aligned len" "unat A + unat len < 2 ^ 32" using ar True by simp_all
    have uR: "unat R = unat A + 160" using al(3) True by (simp add: R_def k(1) unat_word_ariths)
    have uL: "unat L = unat len - 160" "aligned L"
    proof -
      have "8 dvd unat len" using al(2) by (simp add: aligned_dvd)
      then obtain q where q: "unat len = 8 * q" by (rule dvdE)
      note ad = align_down [of "len - 156", folded L_def [unfolded k(2)]]
      then show "aligned L" by simp
      have "8 dvd unat L" using ad by (simp add: aligned_dvd)
      then obtain l where l: "unat L = 8 * l" by (rule dvdE)
      have "unat (len - 156) = 8 * q - 156" using True q by (simp add: unat_sub_if')
      then have "8 * l \<le> 8 * q - 156" "8 * q - 156 < 8 * l + 8" using ad l by simp_all
      moreover have "1152 \<le> q" using True q by simp
      ultimately have "l = q - 20" by presburger
      then show "unat L = unat len - 160" using l q by simp
    qed
    have "8 dvd unat A" using al(1) by (simp add: aligned_dvd)
    then have "8 dvd unat A + 160" by simp
    then have aR: "aligned R" using uR by (simp only: aligned_dvd)
    have "R \<noteq> 0" using uR by auto
    moreover have "88 \<le> unat L" "unat L \<le> unat len" "unat R + unat L = unat A + unat len" using uL(1) uR True by arith+
    ultimately have g: "good_region R L" unfolding good_region_def using aR uL(2) al(3) True by simp
    note rw = region_words [OF g, of "region_set (zero_mm_head h) R L 0" "zero_mm_head h" 0, OF refl]
    define h2 where "h2 = snd (init_mm_region (zero_mm_head h) R L)"
    have i: "init_mm_region (zero_mm_head h) R L = (R, h2)" using rw(1) by (simp add: h2_def prod_eq_iff)
    define h4 where "h4 = store (store (h2\<lparr>regioninfo := buf_of R\<rparr>) (dye_at (mid_of R)) RHINO_MM_CORRUPT_DYE) (owner_at (mid_of R)) 0"
    define h5 where "h5 = k_mm_free h4 False (buf_of (mid_of R))"
    define h7 where "h7 = (let h6 = h5\<lparr>free_size := MM_GET_BUF_SIZE h5 (mid_of R), used_size := len - MM_GET_BUF_SIZE h5 (mid_of R)\<rparr>
      in h6\<lparr>maxused_size := used_size h6\<rparr>)"
    have nb: "MM_GET_NEXT_BLK (h2\<lparr>regioninfo := buf_of R\<rparr>) R = mid_of R"
      using rw(2) by (simp add: h2_def MM_GET_NEXT_BLK_def MM_GET_BUF_SIZE_def)
    have "krhino_init_mm_head h False addr len0 = (RHINO_SUCCESS, init_fix_pool h7)"
      using a(1) bounds True unfolding krhino_init_mm_head_def Let_def
      unfolding len [symmetric] unfolding A_def [symmetric] unfolding R_def [symmetric] L_def [symmetric]
      by (simp add: i nb h4_def [symmetric] h5_def [symmetric] h7_def Let_def)
    then have run': "sta = RHINO_SUCCESS" "h' = init_fix_pool h7" using run by simp_all
    have "store h2 (fld R 20) 0 = h2" using rw(12) by (intro store_same) (simp add: h2_def)
    then have w4: "word_at h4 = word_at (region_set (zero_mm_head h) R L 0)"
      by (simp add: region_set_def Let_def h2_def [symmetric] h4_def store_def)
    have f4: "freelist h4 = freelist (zero_mm_head h)" "free_bitmap h4 = free_bitmap (zero_mm_head h)" "pool_frame (zero_mm_head h) h4"
      "mm_traps h4 = mm_traps (zero_mm_head h)" "fix_pool h4 = fix_pool (zero_mm_head h)"
      using words_only_frame [OF rw(11)] by (simp_all add: h4_def h2_def pool_frame_def)
    have ub: "used_blocks (zero_mm_head h) {} = {}" by (simp add: used_blocks_def)
    have ap: "apart (zero_mm_head h) {} {} R L" by (simp add: apart_def)
    obtain B2 E2 where r: "heap_ok h5 B2 E2" "used_blocks h5 B2 = {R}" "MM_GET_BUF_SIZE h5 R = 8" "core_frame h4 h5"
      using region_release [OF empty_heap(1) _ g ap w4 f4(1-3), of "{}", unfolded ub, OF empty_heap(2)] unfolding h5_def by blast
    have s7: "same_blocks h5 h7" "fix_pool h7 = fix_pool h5" "mm_traps h7 = mm_traps h5" by (simp_all add: h7_def same_blocks_def Let_def)
    note e = same_blocks_ok [OF s7(1)]
    have "heap_ok h7 B2 E2" using r(1) e(1) by simp
    moreover have "fix_pool h7 = 0" using s7(2) r(4) f4(5) empty_heap(3) by (simp add: core_frame_def)
    moreover have "unat (MM_GET_BUF_SIZE h7 c) < 32" if "c \<in> used_blocks h7 B2" for c using that e(2,5) r(2,3) by simp
    ultimately have "heap_shows h' Map.empty" "mm_traps h' = mm_traps h7" using init_fix_pool_shows [of h7 B2 E2] run'(2) by simp_all
    moreover have "mm_traps h7 = mm_traps h" using s7(3) r(4) f4(4) empty_heap(4) by (simp add: core_frame_def)
    ultimately show ?thesis using run'(1) True by simp
  qed
qed

end
