(* ===== verification/Mm_Api.thy ===== *)
theory Mm_Api
  imports Mm_Init
begin

text \<open>
  The operations of the kernel's heap (\<open>krhino_mm_alloc\<close>, \<open>krhino_mm_free\<close>, \<open>krhino_mm_realloc\<close>) against an abstract
  heap: a map from pointers to buffers of words. The interface \<open>buffer_heap\<close> says what a client may rely on.
\<close>

section \<open>What does not matter to clients\<close>

lemma same_blocks_shows:
  assumes "same_blocks h h'" "pool h' = pool h" "fix_pool h' = fix_pool h"
  shows "heap_shows h' M \<longleftrightarrow> heap_shows h M"
proof -
  note e = same_blocks_ok [OF assms(1)]
  have w: "word_at h' = word_at h" using assms(1) by (simp add: same_blocks_def)
  have "chain h' x bs = chain h x bs" for x bs by (rule chain_cong [OF w])
  then have "pool_ok h' U S = pool_ok h U S" for U S by (simp add: pool_ok_def pool_at_def assms e(5))
  moreover have "view h' U S = view h U S" for U S by (simp add: fun_eq_iff view_def buf_words_def Let_def w e(5) assms(3))
  ultimately show ?thesis by (simp add: heap_shows_def e(1,2))
qed

lemma owner_attach_shows:
  assumes sh: "heap_shows h M" and q: "M q = Some xs"
  shows "heap_shows (krhino_owner_attach h q ra) M \<and> mm_traps (krhino_owner_attach h q ra) = mm_traps h"
proof (cases "q = 0 \<or> krhino_mblk_check h (fix_pool h = 0) q")
  case True
  then have "krhino_owner_attach h q ra = h" by (auto simp: krhino_owner_attach_def)
  then show ?thesis using sh by simp
next
  case False
  obtain B E S where a: "heap_ok h B E" "pool_ok h (used_blocks h B) S" "M = view h (used_blocks h B) S"
    using sh by (auto simp: heap_shows_def)
  have qS: "q \<notin> S" using small_blocks(1) [OF a(1,2)] False by blast
  define b where "b = MM_GET_THIS_BLK q"
  have b: "b \<in> used_blocks h B" using view_place(2) [OF a(1,2) q [unfolded a(3)]] qS by (simp add: b_def)
  define g where "g = store h (owner_at b) ra"
  have "dyes h b = RHINO_MM_CORRUPT_DYE" using heap_ok_parts(4) [OF a(1)] b by (auto simp: dyed_def used_blocks_def)
  then have g: "g = store (store h (dye_at b) RHINO_MM_CORRUPT_DYE) (owner_at b) ra" by (simp add: g_def store_same)
  note ok = heap_ok_parts [OF a(1)]
  have d: "dyed h (B - {b}) E" using ok(4) by (auto simp: dyed_def)
  note rd = redye [OF ok(1,3) d b ok(5) g]
  have "view g (used_blocks g B) S = M"
  proof
    fix x
    show "view g (used_blocks g B) S x = M x"
      unfolding a(3)
      by (rule view_frame(2) [OF a(1,2) rd(1) keeps_subset [OF rd(3)] pool_frame_core [OF rd(4)], of "used_blocks h B"])
        (use rd(2) in \<open>auto simp: used_blocks_def\<close>)
  qed
  moreover have "pool_ok g (used_blocks g B) S"
    by (rule view_frame(1) [OF a(1,2) rd(1) keeps_subset [OF rd(3)] pool_frame_core [OF rd(4)], of "used_blocks h B"])
      (use rd(2) in \<open>auto simp: used_blocks_def\<close>)
  ultimately have "heap_shows g M" unfolding heap_shows_def using rd(1) by metis
  moreover have "krhino_owner_attach h q ra = g" using False by (simp add: krhino_owner_attach_def g_def b_def)
  ultimately show ?thesis by (simp add: g_def)
qed

lemma trap_shows [simp]:
  "heap_shows (mm_trap t h) M = heap_shows h M" "heap_shows (h\<lparr>dumped := d\<rparr>) M = heap_shows h M"
  "heap_shows (h\<lparr>reallocdumped := d\<rparr>) M = heap_shows h M"
  by (rule same_blocks_shows; simp add: same_blocks_def mm_trap_def)+

section \<open>The abstract heap\<close>

datatype heap_op = Alloc u32 | Free u32 | Resize u32 u32 | Write u32 nat u32

text \<open>The bytes asked for: the highest bit of a size is a flag of the caller.\<close>

definition asked :: "u32 \<Rightarrow> u32" where
  "asked n = n AND NOT AOS_UNSIGNED_INT_MSB"

inductive buffers_step :: "heap_op \<Rightarrow> u32 \<Rightarrow> (u32 \<Rightarrow> u32 list option) \<Rightarrow> (u32 \<Rightarrow> u32 list option) \<Rightarrow> bool" where
  alloc_none: "buffers_step (Alloc n) 0 M M"
| alloc_some: "q \<noteq> 0 \<Longrightarrow> M q = None \<Longrightarrow> unat (asked n) \<le> 4 * length xs \<Longrightarrow> buffers_step (Alloc n) q M (M(q \<mapsto> xs))"
| free: "M q = Some xs \<Longrightarrow> buffers_step (Free q) 0 M (M(q := None))"
| resize_none: "asked n \<noteq> 0 \<Longrightarrow> M q = Some xs \<Longrightarrow> buffers_step (Resize q n) 0 M M"
| resize_free: "asked n = 0 \<Longrightarrow> M q = Some xs \<Longrightarrow> buffers_step (Resize q n) 0 M (M(q := None))"
| resize_some: "p \<noteq> 0 \<Longrightarrow> M q = Some xs \<Longrightarrow> p = q \<or> M p = None \<Longrightarrow> unat (asked n) \<le> 4 * length ys \<Longrightarrow>
    (\<forall>k < length xs. 4 * k < unat (asked n) \<longrightarrow> ys ! k = xs ! k) \<Longrightarrow> buffers_step (Resize q n) p M (M(q := None, p \<mapsto> ys))"
| written: "M q = Some xs \<Longrightarrow> k < length xs \<Longrightarrow> buffers_step (Write q k v) 0 M (M(q \<mapsto> xs[k := v]))"

text \<open>What a client may do: it releases, resizes and writes what it holds.\<close>

fun allowed :: "heap_op \<Rightarrow> (u32 \<Rightarrow> u32 list option) \<Rightarrow> bool" where
  "allowed (Alloc n) M \<longleftrightarrow> True"
| "allowed (Free q) M \<longleftrightarrow> M q \<noteq> None"
| "allowed (Resize q n) M \<longleftrightarrow> M q \<noteq> None"
| "allowed (Write q k v) M \<longleftrightarrow> (case M q of None \<Rightarrow> False | Some xs \<Rightarrow> k < length xs)"

inductive_cases alloc_stepE: "buffers_step (Alloc n) q M M'"
inductive_cases free_stepE: "buffers_step (Free q) r M M'"
inductive_cases write_stepE: "buffers_step (Write q k v) r M M'"

text \<open>A sequence of operations, with the results in order.\<close>

inductive buffers_run :: "heap_op list \<Rightarrow> u32 list \<Rightarrow> (u32 \<Rightarrow> u32 list option) \<Rightarrow> (u32 \<Rightarrow> u32 list option) \<Rightarrow> bool" where
  none: "buffers_run [] [] M M"
| more: "buffers_step x r M M1 \<Longrightarrow> buffers_run xs rs M1 M2 \<Longrightarrow> buffers_run (x # xs) (r # rs) M M2"

inductive_simps buffers_run_simps: "buffers_run [] rs M M'" "buffers_run (x # xs) rs M M'"

text \<open>The client respects the rules as long as the abstract heap allows for it, whatever the results.\<close>

fun run_ops :: "(heap_op \<Rightarrow> 'h \<Rightarrow> u32 \<times> 'h) \<Rightarrow> heap_op list \<Rightarrow> 'h \<Rightarrow> u32 list \<times> 'h" where
  "run_ops exec [] h = ([], h)"
| "run_ops exec (x # xs) h = (let (r, h1) = exec x h; (rs, h2) = run_ops exec xs h1 in (r # rs, h2))"

text \<open>Every operation of the sequence is allowed in every abstract state that the results before it permit.\<close>

fun careful :: "heap_op list \<Rightarrow> u32 list \<Rightarrow> (u32 \<Rightarrow> u32 list option) \<Rightarrow> bool" where
  "careful [] rs M \<longleftrightarrow> True"
| "careful (x # xs) [] M \<longleftrightarrow> allowed x M"
| "careful (x # xs) (r # rs) M \<longleftrightarrow> allowed x M \<and> (\<forall>M1. buffers_step x r M M1 \<longrightarrow> careful xs rs M1)"

locale buffer_heap =
  fixes sees :: "'h \<Rightarrow> (u32 \<Rightarrow> u32 list option) \<Rightarrow> bool"
    and exec :: "heap_op \<Rightarrow> 'h \<Rightarrow> u32 \<times> 'h"
  assumes step: "sees h M \<Longrightarrow> allowed x M \<Longrightarrow> exec x h = (r, h') \<Longrightarrow> \<exists>M'. buffers_step x r M M' \<and> sees h' M'"
begin

lemma run:
  assumes "sees h M" "run_ops exec xs h = (rs, h')" "careful xs rs M"
  shows "\<exists>M'. buffers_run xs rs M M' \<and> sees h' M'"
  using assms
proof (induction xs arbitrary: h M rs)
  case Nil
  then show ?case by (auto intro: buffers_run.none)
next
  case (Cons x xs)
  obtain r h1 where r: "exec x h = (r, h1)" by fastforce
  obtain rs' where rs: "run_ops exec xs h1 = (rs', h')" "rs = r # rs'" using Cons.prems(2) r by (auto split: prod.splits)
  obtain M1 where M1: "buffers_step x r M M1" "sees h1 M1" using step [OF Cons.prems(1) _ r] Cons.prems(3) rs(2) by auto
  then have "careful xs rs' M1" using Cons.prems(3) rs(2) by simp
  then obtain M2 where "buffers_run xs rs' M1 M2" "sees h' M2" using Cons.IH [OF M1(2) rs(1)] by blast
  then show ?case using M1(1) rs(2) by (auto intro: buffers_run.more)
qed

text \<open>A buffer that no operation of the sequence names keeps its words.\<close>

lemma untouched:
  assumes "buffers_run xs rs M M'" "M q = Some ws" "\<And>x. x \<in> set xs \<Longrightarrow> x \<noteq> Free q \<and> (\<forall>n. x \<noteq> Resize q n) \<and> (\<forall>k v. x \<noteq> Write q k v)"
  shows "M' q = Some ws"
  using assms
proof (induction rule: buffers_run.induct)
  case (more x r M M1 xs rs M2)
  have "M1 q = Some ws" using more.hyps(1) more.prems(1,2) by (cases rule: buffers_step.cases) auto
  then show ?case using more.IH more.prems(2) by simp
qed simp

lemma kept:
  assumes "sees h M" "run_ops exec xs h = (rs, h')" "careful xs rs M" "M q = Some ws"
    and "\<And>x. x \<in> set xs \<Longrightarrow> x \<noteq> Free q \<and> (\<forall>n. x \<noteq> Resize q n) \<and> (\<forall>k v. x \<noteq> Write q k v)"
  shows "\<exists>M'. sees h' M' \<and> M' q = Some ws"
proof -
  obtain M' where M': "buffers_run xs rs M M'" "sees h' M'" using run [OF assms(1-3)] by blast
  have "M' q = Some ws" by (rule untouched [OF M'(1) assms(4)]) (use assms(5) in blast)
  then show ?thesis using M'(2) by blast
qed

end

section \<open>The kernel's heap implements it\<close>

definition krhino_heap :: "u32 \<Rightarrow> heap_op \<Rightarrow> heap \<Rightarrow> u32 \<times> heap" where
  "krhino_heap ra x h =
     (case x of
        Alloc n \<Rightarrow> krhino_mm_alloc ra h n
      | Free q \<Rightarrow> (0, krhino_mm_free h q)
      | Resize q n \<Rightarrow> krhino_mm_realloc ra h q n
      | Write q k v \<Rightarrow> (0, store h (q + 4 * of_nat k) v))"

lemma asked_bound: "unat (asked n) + 7 < 2 ^ 32"
proof -
  have m: "NOT AOS_UNSIGNED_INT_MSB = mask 31" by (simp add: AOS_UNSIGNED_INT_MSB_def mask_numeral)
  have "unat (asked n) < 2 ^ 31" unfolding asked_def m take_bit_eq_mask [symmetric] unsigned_take_bit_eq
    by (rule take_bit_nat_less_exp)
  then show ?thesis by simp
qed

lemma mm_alloc_shows:
  assumes sh: "heap_shows h M" and run: "krhino_mm_alloc ra h n = (q, h')"
  shows "if q = 0 then heap_shows h' M \<and> (asked n \<noteq> 0 \<longrightarrow> krhino_mm_max_free_size_get h < aligned_request (asked n))
    else M q = None \<and> (\<exists>xs. unat (asked n) \<le> 4 * length xs \<and> heap_shows h' (M(q \<mapsto> xs))) \<and> mm_traps h' = mm_traps h"
proof (cases "asked n = 0")
  case True
  then have "q = 0 \<and> h' = h" using run by (simp add: krhino_mm_alloc_def asked_def Let_def)
  then show ?thesis using sh True by simp
next
  case False
  obtain t h0 where al: "k_mm_alloc h False (asked n) = (t, h0)" by fastforce
  note as = alloc_shows [OF sh False asked_bound al]
  show ?thesis
  proof (cases "t = 0")
    case True
    then have "q = 0" "heap_shows h' M = heap_shows h0 M"
      using run False al by (auto simp: krhino_mm_alloc_def asked_def [symmetric] Let_def krhino_owner_attach_def split: if_splits)
    then show ?thesis using as True sh by simp
  next
    case t: False
    then have r: "q = t" "h' = (if n AND AOS_UNSIGNED_INT_MSB = 0 then krhino_owner_attach h0 t ra else h0)"
      using run False al by (auto simp: krhino_mm_alloc_def asked_def [symmetric] Let_def)
    obtain xs where xs: "M t = None" "unat (asked n) \<le> 4 * length xs" "heap_shows h0 (M(t \<mapsto> xs))" using as t by auto
    have "heap_shows h' (M(t \<mapsto> xs)) \<and> mm_traps h' = mm_traps h0"
      using owner_attach_shows [OF xs(3), of t xs ra] xs(3) r(2) by simp
    then show ?thesis using as t xs r(1) by auto
  qed
qed

lemma mm_realloc_shows:
  assumes sh: "heap_shows h M" and q: "M q = Some xs" and run: "krhino_mm_realloc ra h q n = (p, h')"
  shows "buffers_step (Resize q n) p M M \<and> p = 0 \<and> heap_shows h' M \<or> (\<exists>M'. buffers_step (Resize q n) p M M' \<and> heap_shows h' M')"
proof -
  obtain t h0 where re: "k_mm_realloc h False q (asked n) = (t, h0)" by fastforce
  show ?thesis
  proof (cases "asked n = 0")
    case True
    obtain B E S where a: "heap_ok h B E" "pool_ok h (used_blocks h B) S" "M = view h (used_blocks h B) S"
      using sh by (auto simp: heap_shows_def)
    have "q \<noteq> 0"
    proof (cases "q \<in> S")
      case False
      then have "MM_GET_THIS_BLK q \<in> B" using view_place(2) [OF a(1,2) q [unfolded a(3)]] by (simp add: used_blocks_def)
      then have "buf_of (MM_GET_THIS_BLK q) \<noteq> 0" by (rule buffer_nonzero [OF heap_ok_parts(2) [OF a(1)]])
      then show ?thesis using this_blk_iff by metis
    qed (rule small_blocks(2) [OF a(1,2)])
    then have "t = 0" "h0 = k_mm_free h False q" using re True by (simp_all add: k_mm_realloc_def)
    then have "p = 0" "heap_shows h' (M(q := None))"
      using run re True free_shows [OF sh q] by (auto simp: krhino_mm_realloc_def asked_def [symmetric] Let_def krhino_owner_attach_def)
    then show ?thesis using buffers_step.resize_free [OF True, of M q xs, OF q] by blast
  next
    case False
    note rs = realloc_shows [OF sh q False asked_bound re]
    show ?thesis
    proof (cases "t = 0")
      case True
      then have "p = 0" "heap_shows h' M = heap_shows h0 M"
        using run re False by (auto simp: krhino_mm_realloc_def asked_def [symmetric] Let_def krhino_owner_attach_def split: if_splits)
      then show ?thesis using rs True sh buffers_step.resize_none [OF False, of M q xs, OF q] by simp
    next
      case t: False
      then have r: "p = t" "h' = (if n AND AOS_UNSIGNED_INT_MSB = 0 then krhino_owner_attach h0 t ra else h0)"
        using run re by (auto simp: krhino_mm_realloc_def asked_def [symmetric] Let_def)
      obtain ys where ys: "t = q \<or> M t = None" "unat (asked n) \<le> 4 * length ys" "\<forall>k < length xs. 4 * k < unat (asked n) \<longrightarrow> ys ! k = xs ! k"
        "heap_shows h0 (M(q := None, t \<mapsto> ys))" using rs t by auto
      have "heap_shows h' (M(q := None, t \<mapsto> ys))" using owner_attach_shows [OF ys(4), of t ys ra] ys(4) r(2) by simp
      then show ?thesis using buffers_step.resize_some [OF t, of M q xs, OF q ys(1-3)] r(1) by blast
    qed
  qed
qed

interpretation kheap: buffer_heap heap_shows "krhino_heap ra" for ra
proof
  fix h M x r h'
  assume sh: "heap_shows h M" and al: "allowed x M" and ex: "krhino_heap ra x h = (r, h')"
  show "\<exists>M'. buffers_step x r M M' \<and> heap_shows h' M'"
  proof (cases x)
    case (Alloc n)
    then have run: "krhino_mm_alloc ra h n = (r, h')" using ex by (simp add: krhino_heap_def)
    show ?thesis
    proof (cases "r = 0")
      case True
      then show ?thesis using mm_alloc_shows [OF sh run] Alloc buffers_step.alloc_none by auto
    next
      case False
      then show ?thesis using mm_alloc_shows [OF sh run] Alloc buffers_step.alloc_some [of r M n] by auto
    qed
  next
    case (Free q)
    then obtain xs where xs: "M q = Some xs" using al by auto
    have "r = 0" "h' = k_mm_free h False q" using ex Free by (simp_all add: krhino_heap_def krhino_mm_free_def)
    then show ?thesis using free_shows [OF sh xs] buffers_step.free [of M q xs, OF xs] Free by blast
  next
    case (Resize q n)
    then obtain xs where xs: "M q = Some xs" using al by auto
    have "krhino_mm_realloc ra h q n = (r, h')" using ex Resize by (simp add: krhino_heap_def)
    then show ?thesis using mm_realloc_shows [OF sh xs] Resize by blast
  next
    case (Write q k v)
    then obtain xs where xs: "M q = Some xs" "k < length xs" using al by (auto split: option.splits)
    have "r = 0" "h' = store h (q + 4 * of_nat k) v" using ex Write by (simp_all add: krhino_heap_def)
    then show ?thesis using write_shows [OF sh xs] buffers_step.written [of M q xs, OF xs] Write by blast
  qed
qed

text \<open>Through any sequence of operations, a buffer keeps its words until an operation names it.\<close>

lemma buffers_kept:
  assumes "heap_shows h M" "run_ops (krhino_heap ra) xs h = (rs, h')" "careful xs rs M" "M q = Some ws"
    and "\<And>x. x \<in> set xs \<Longrightarrow> x \<noteq> Free q \<and> (\<forall>n. x \<noteq> Resize q n) \<and> (\<forall>k v. x \<noteq> Write q k v)" and "k < length ws"
  shows "word_at h' (q + 4 * of_nat k) = word_at h (q + 4 * of_nat k)"
proof -
  obtain M' where "heap_shows h' M'" "M' q = Some ws" using kheap.kept [OF assms(1-5)] by blast
  then show ?thesis using shows_word assms(1,4,6) by metis
qed

section \<open>A heap to try\<close>

text \<open>32 kilobytes at \<open>0x20000000\<close>.\<close>

definition raw_heap :: heap where
  "raw_heap = \<lparr>word_at = (\<lambda>_. 0), pool = \<lparr>pool_name = None, pool_end = 0, pool_start = 0, pool_blk_size = 0, blk_avail = 0,
     blk_whole = 0, avail_list = 0\<rparr>, regioninfo = 0, fix_pool = 0, used_size = 0, maxused_size = 0, free_size = 0, alloc_times = [],
     free_bitmap = 0, freelist = [], dumped = False, reallocdumped = False, mm_traps = []\<rparr>"

definition sample_heap :: heap where
  "sample_heap = snd (krhino_init_mm_head raw_heap False 0x20000000 0x8000)"

lemma sample_heap_init:
  "krhino_init_mm_head raw_heap False 0x20000000 0x8000 = (RHINO_SUCCESS, sample_heap)" "heap_shows sample_heap Map.empty"
proof -
  obtain sta h where r: "krhino_init_mm_head raw_heap False 0x20000000 0x8000 = (sta, h)" by fastforce
  have len: "MM_ALIGN_DOWN (0x8000 - (MM_ALIGN_UP 0x20000000 - 0x20000000)) = 0x8000"
    by (simp add: MM_ALIGN_DOWN_def MM_ALIGN_UP_def MM_ALIGN_MASK_def)
  have "sta = RHINO_SUCCESS \<and> heap_shows h Map.empty" using init_head_shows [OF _ _ len [symmetric] r] by simp
  then show "krhino_init_mm_head raw_heap False 0x20000000 0x8000 = (RHINO_SUCCESS, sample_heap)" "heap_shows sample_heap Map.empty"
    using r by (simp_all add: sample_heap_def)
qed

text \<open>A region of 256 bytes at \<open>0x1000\<close> whose memory, 200 bytes at \<open>0x1028\<close>, is one buffer in use.\<close>

definition busy_heap :: heap where
  "busy_heap =
     (let g = region_set (zero_mm_head raw_heap) 0x1000 0x100 0;
          g1 = store g (prev_at 0x10F0) 0x1018
      in store g1 (size_at 0x10F0) (word_at g1 (size_at 0x10F0) AND NOT RHINO_MM_PREVFREE))"

lemma busy_heap_shows: "\<exists>M ws. heap_shows busy_heap M \<and> M 0x1028 = Some ws \<and> length ws = 50"
proof -
  let ?h = "zero_mm_head raw_heap" and ?R = "0x1000 :: u32"
  define g where "g = region_set ?h ?R 0x100 0"
  have gr: "good_region ?R 0x100" by (simp add: good_region_def aligned_def)
  have ap: "apart ?h {} {} ?R 0x100" by (simp add: apart_def)
  have w: "words_only ?h g" unfolding g_def by (rule region_words(10) [OF gr refl])
  note f = words_only_frame [OF w]
  note m = region_mid [OF empty_heap(1) gr ap _ f(2,3), of 0, folded g_def, OF refl]
  have M: "mid_of ?R = 0x1018" "last_of ?R 0x100 = 0x10F0" by simp_all
  have size: "MM_GET_BUF_SIZE g 0x1018 = 200" using m(3) by simp
  have u: "used_blocks g {?R, 0x1018} = {?R, 0x1018}" using m(5) by (simp add: used_blocks_def)
  have nx: "(0x10F0 :: u32) = succ (MM_GET_BUF_SIZE g) 0x1018" by (simp add: succ_def size)
  have b: "busy_heap = (let g1 = store g (prev_at 0x10F0) 0x1018 in store g1 (size_at 0x10F0) (word_at g1 (size_at 0x10F0) AND NOT RHINO_MM_PREVFREE))"
    by (simp add: busy_heap_def g_def Let_def)
  have m1: "mid g {?R, 0x1018} {0x10F0} 0x1018" using m(1) by simp
  note l = mid_link_next [OF m1 nx b]
  have s2: "MM_GET_BUF_SIZE busy_heap 0x1018 = 200" by (rule trans [OF l(2) size]) simp
  have "0x1018 \<in> used_blocks g {?R, 0x1018}" unfolding u by simp
  then have nf: "\<not> is_free g 0x1018" unfolding used_blocks_def mem_Collect_eq by (rule conjunct2)
  have dg: "dyes g 0x1018 = RHINO_MM_CORRUPT_DYE" using m(2) by simp
  have "heap_ok busy_heap {?R, 0x1018} {0x10F0}"
  proof (intro mid_done [OF l(1)])
    have i: "(0x1018 :: u32) \<in> {?R, 0x1018} \<union> {0x10F0}" by simp
    show "\<not> is_free busy_heap 0x1018" using l(3) [OF i] nf by (rule ssubst)
    show "dyes busy_heap 0x1018 = RHINO_MM_CORRUPT_DYE" by (rule trans [OF l(4) [OF i] dg])
    have "succ (MM_GET_BUF_SIZE busy_heap) 0x1018 = 0x10F0" unfolding succ_def s2 by simp
    then show "\<not> prev_is_free busy_heap (succ (MM_GET_BUF_SIZE busy_heap) 0x1018)" using l(5) by (rule ssubst)
  qed
  moreover have u2: "used_blocks busy_heap {?R, 0x1018} = {?R, 0x1018}" using l(6) u by simp
  moreover have fp: "fix_pool busy_heap = 0" using f(4) empty_heap(3) by (simp add: b Let_def)
  then have "pool_ok busy_heap {?R, 0x1018} {}" by (simp add: pool_ok_def)
  ultimately have "heap_shows busy_heap (view busy_heap {?R, 0x1018} {})" unfolding heap_shows_def by metis
  moreover have "MM_GET_THIS_BLK 0x1028 = 0x1018" by (simp add: MM_GET_THIS_BLK_def head_size)
  then have "view busy_heap {?R, 0x1018} {} 0x1028 = Some (buf_words busy_heap 0x1028 50)" using fp s2 by (simp add: view_def)
  ultimately show ?thesis by (metis length_buf_words)
qed

end
