(* ===== verification/K_Dyn.thy ===== *)
theory K_Dyn
  imports K_Boot K_Mm
begin

text \<open>
  Kernel objects on the heap: their creation and deletion (the \<open>_dyn_\<close> services of \<open>k_sem.c\<close>, \<open>k_mutex.c\<close>,
  \<open>k_event.c\<close>, \<open>k_queue.c\<close>, \<open>k_buf_queue.c\<close>, \<open>k_timer.c\<close>, \<open>k_workqueue.c\<close> and \<open>k_task.c\<close>), the task
  that releases the memory of deleted tasks (\<open>k_dyn_mem_proc.c\<close>), and the boot with the heap.

  An object on the heap goes by the number of its address; its fields are in the maps of the kernel state, the
  heap holds its buffer. What the static services leave out of a queue, the address of its buffer, is kept
  beside it. The record by which a deleted task asks for the release of its memory (\<open>res_free_t\<close>) is in the
  words of its stack, its list is the HOL list of its members. \<open>krhino_mm_free\<close> after the
  rescheduling of a deletion is a step of its own, \<open>_end\<close>: other tasks may run before it. \<open>ra\<close> are the
  addresses that the calls of the allocator return to.
\<close>

section \<open>State\<close>

record dsys = wsys +
  kmm :: heap
  queue_start :: "oid \<Rightarrow> u32"
  bq_buf :: "oid \<Rightarrow> u32"
  g_res_list :: "u32 list"

definition dyn_alloc :: "u32 \<Rightarrow> dsys \<Rightarrow> u32 \<Rightarrow> u32 \<times> dsys" where
  "dyn_alloc ra d sz = (let (p, h) = krhino_mm_alloc ra (kmm d) sz in (p, d\<lparr>kmm := h\<rparr>))"

definition dyn_free :: "dsys \<Rightarrow> u32 \<Rightarrow> dsys" where
  "dyn_free d p = d\<lparr>kmm := krhino_mm_free (kmm d) p\<rparr>"

text \<open>The bytes of a buffer.\<close>

definition heap_bytes :: "heap \<Rightarrow> u32 \<Rightarrow> nat \<Rightarrow> u8 list" where
  "heap_bytes h p n = map (\<lambda>i. ucast (drop_bit (8 * (i mod 4)) (word_at h (p + 4 * of_nat (i div 4))))) [0..<n]"

text \<open>The sizes of the objects, with the short enumerations of the procedure call standard.\<close>

definition sizeof_ksem :: u32 where "sizeof_ksem = 36"
definition sizeof_kmutex :: u32 where "sizeof_kmutex = 40"
definition sizeof_kevent :: u32 where "sizeof_kevent = 32"
definition sizeof_kqueue :: u32 where "sizeof_kqueue = 72"
definition sizeof_kbuf_queue :: u32 where "sizeof_kbuf_queue = 76"
definition sizeof_ktimer :: u32 where "sizeof_ktimer = 64"
definition sizeof_ktask :: u32 where "sizeof_ktask = 120"

lemmas sizeof_defs = sizeof_ksem_def sizeof_kmutex_def sizeof_kevent_def sizeof_kqueue_def sizeof_kbuf_queue_def
  sizeof_ktimer_def sizeof_ktask_def

section \<open>Objects of one buffer\<close>

text \<open>The body that the services share: \<open>create\<close> is the static function of the object, \<open>null\<close> says that the
  pointer to store the object through is NULL. The second result is what is stored there.\<close>

definition dyn_create ::
    "u32 \<Rightarrow> u32 \<Rightarrow> (kernel \<Rightarrow> oid option \<Rightarrow> kstat \<times> kernel) \<Rightarrow> dsys \<Rightarrow> bool \<Rightarrow> kstat \<times> u32 option \<times> dsys" where
  "dyn_create ra sz create d null =
     (if null then (RHINO_NULL_PTR, None, d)
      else
        let (obj, d1) = dyn_alloc ra d sz
        in if obj = 0 then (RHINO_NO_MEM, None, d1)
           else
             let (stat, d2) = on_kernel d1 (create (krn d1) (Some (unat obj)))
             in if stat \<noteq> RHINO_SUCCESS then (stat, None, dyn_free d2 obj) else (stat, Some obj, d2))"

definition krhino_sem_dyn_create :: "u32 \<Rightarrow> dsys \<Rightarrow> bool \<Rightarrow> string option \<Rightarrow> u32 \<Rightarrow> kstat \<times> u32 option \<times> dsys" where
  "krhino_sem_dyn_create ra d sem_null name cnt =
     dyn_create ra sizeof_ksem (\<lambda>k ob. sem_create k ob name cnt K_OBJ_DYN_ALLOC) d sem_null"

definition krhino_mutex_dyn_create :: "u32 \<Rightarrow> dsys \<Rightarrow> bool \<Rightarrow> string option \<Rightarrow> kstat \<times> u32 option \<times> dsys" where
  "krhino_mutex_dyn_create ra d mutex_null name =
     dyn_create ra sizeof_kmutex (\<lambda>k ob. mutex_create k ob name K_OBJ_DYN_ALLOC) d mutex_null"

definition krhino_event_dyn_create :: "u32 \<Rightarrow> dsys \<Rightarrow> bool \<Rightarrow> string option \<Rightarrow> u32 \<Rightarrow> kstat \<times> u32 option \<times> dsys" where
  "krhino_event_dyn_create ra d event_null name flags =
     dyn_create ra sizeof_kevent (\<lambda>k ob. event_create k ob name flags K_OBJ_DYN_ALLOC) d event_null"

text \<open>The deletions, up to the rescheduling.\<close>

definition krhino_sem_dyn_del :: "kernel \<Rightarrow> oid option \<Rightarrow> kstat \<times> kernel" where
  "krhino_sem_dyn_del s sem =
     (case sem of None \<Rightarrow> (RHINO_NULL_PTR, s) | Some ob \<Rightarrow>
      if g_intrpt_nested_level s > 0 then (RHINO_NOT_CALLED_BY_INTRPT, s)
      else if obj_type (blk s ob) \<noteq> RHINO_SEM_OBJ_TYPE then (RHINO_KOBJ_TYPE_ERR, s)
      else if obj_mm_flag (blk s ob) \<noteq> K_OBJ_DYN_ALLOC then (RHINO_KOBJ_DEL_ERR, s)
      else
        let s1 = upd_blk s ob (\<lambda>b. b\<lparr>obj_type := RHINO_OBJ_TYPE_NONE\<rparr>);
            s2 = wake_all pend_task_rm ob s1;
            s3 = s2\<lparr>g_kobj_list := (g_kobj_list s2)\<lparr>l_sem_head := remove1 ob (l_sem_head (g_kobj_list s2))\<rparr>\<rparr>
        in (RHINO_SUCCESS, core_sched s3))"

definition krhino_mutex_dyn_del :: "kernel \<Rightarrow> oid option \<Rightarrow> kstat \<times> kernel" where
  "krhino_mutex_dyn_del s mutex =
     (case mutex of None \<Rightarrow> (RHINO_NULL_PTR, s) | Some ob \<Rightarrow>
      if g_intrpt_nested_level s > 0 then (RHINO_NOT_CALLED_BY_INTRPT, s)
      else if obj_type (blk s ob) \<noteq> RHINO_MUTEX_OBJ_TYPE then (RHINO_KOBJ_TYPE_ERR, s)
      else if obj_mm_flag (blk s ob) \<noteq> K_OBJ_DYN_ALLOC then (RHINO_KOBJ_DEL_ERR, s)
      else
        let s1 = upd_blk s ob (\<lambda>b. b\<lparr>obj_type := RHINO_OBJ_TYPE_NONE\<rparr>);
            s2 = (case mutex_task (mutexes s1 ob) of None \<Rightarrow> s1 | Some ow \<Rightarrow> mutex_release s1 ow (Some ob));
            s3 = wake_all pend_task_rm ob s2;
            s4 = s3\<lparr>g_kobj_list := (g_kobj_list s3)\<lparr>l_mutex_head := remove1 ob (l_mutex_head (g_kobj_list s3))\<rparr>\<rparr>
        in (RHINO_SUCCESS, core_sched s4))"

definition krhino_event_dyn_del :: "kernel \<Rightarrow> oid option \<Rightarrow> kstat \<times> kernel" where
  "krhino_event_dyn_del s event =
     (case event of None \<Rightarrow> (RHINO_NULL_PTR, s) | Some ob \<Rightarrow>
      if g_intrpt_nested_level s > 0 then (RHINO_NOT_CALLED_BY_INTRPT, s)
      else if obj_type (blk s ob) \<noteq> RHINO_EVENT_OBJ_TYPE then (RHINO_KOBJ_TYPE_ERR, s)
      else if obj_mm_flag (blk s ob) \<noteq> K_OBJ_DYN_ALLOC then (RHINO_KOBJ_DEL_ERR, s)
      else
        let s1 = upd_blk s ob (\<lambda>b. b\<lparr>obj_type := RHINO_OBJ_TYPE_NONE\<rparr>);
            s2 = wake_all pend_task_rm ob s1;
            s3 = upd_event s2 ob (\<lambda>_. 0);
            s4 = s3\<lparr>g_kobj_list := (g_kobj_list s3)\<lparr>l_event_head := remove1 ob (l_event_head (g_kobj_list s3))\<rparr>\<rparr>
        in (RHINO_SUCCESS, core_sched s4))"

text \<open>The end of each of them.\<close>

definition dyn_del_end :: "dsys \<Rightarrow> oid \<Rightarrow> kstat \<times> dsys" where
  "dyn_del_end d ob = (RHINO_SUCCESS, dyn_free d (of_nat ob))"

section \<open>Queues\<close>

definition krhino_queue_dyn_create :: "u32 \<Rightarrow> u32 \<Rightarrow> dsys \<Rightarrow> bool \<Rightarrow> string option \<Rightarrow> u32 \<Rightarrow> kstat \<times> u32 option \<times> dsys" where
  "krhino_queue_dyn_create ra1 ra2 d queue_null name msg_num =
     (if queue_null then (RHINO_NULL_PTR, None, d)
      else
        let (queue_obj, d1) = dyn_alloc ra1 d sizeof_kqueue
        in if queue_obj = 0 then (RHINO_NO_MEM, None, d1)
           else
             let (msg_start, d2) = dyn_alloc ra2 d1 (msg_num * 4)
             in if msg_start = 0 then (RHINO_NO_MEM, None, dyn_free d2 queue_obj)
                else
                  let (stat, d3) = on_kernel d2 (queue_create (krn d2) (Some (unat queue_obj)) name
                        (Some (heap_bytes (kmm d2) msg_start (unat (msg_num * 4 AND NOT AOS_UNSIGNED_INT_MSB)))) (unat msg_num)
                        K_OBJ_DYN_ALLOC);
                      d4 = d3\<lparr>queue_start := (queue_start d3)(unat queue_obj := msg_start)\<rparr>
                  in if stat \<noteq> RHINO_SUCCESS then (stat, None, dyn_free (dyn_free d3 msg_start) queue_obj)
                     else (stat, Some queue_obj, d4))"

definition krhino_queue_dyn_del :: "kernel \<Rightarrow> oid option \<Rightarrow> kstat \<times> kernel" where
  "krhino_queue_dyn_del s queue =
     (case queue of None \<Rightarrow> (RHINO_NULL_PTR, s) | Some ob \<Rightarrow>
      if g_intrpt_nested_level s > 0 then (RHINO_NOT_CALLED_BY_INTRPT, s)
      else if obj_type (blk s ob) \<noteq> RHINO_QUEUE_OBJ_TYPE then (RHINO_KOBJ_TYPE_ERR, s)
      else if obj_mm_flag (blk s ob) \<noteq> K_OBJ_DYN_ALLOC then (RHINO_KOBJ_DEL_ERR, s)
      else
        let s1 = upd_blk s ob (\<lambda>b. b\<lparr>obj_type := RHINO_OBJ_TYPE_NONE\<rparr>);
            s2 = wake_all pend_task_rm ob s1;
            s3 = s2\<lparr>g_kobj_list := (g_kobj_list s2)\<lparr>l_queue_head := remove1 ob (l_queue_head (g_kobj_list s2))\<rparr>\<rparr>;
            s4 = upd_queue s3 ob (\<lambda>q. q\<lparr>q_ringbuf := ringbuf_reset (q_ringbuf q)\<rparr>)
        in (RHINO_SUCCESS, core_sched s4))"

definition krhino_queue_dyn_del_end :: "dsys \<Rightarrow> oid \<Rightarrow> kstat \<times> dsys" where
  "krhino_queue_dyn_del_end d ob = (RHINO_SUCCESS, dyn_free (dyn_free d (queue_start d ob)) (of_nat ob))"

text \<open>The type that the caller asks for is not used.\<close>

definition buf_queue_dyn_create ::
    "u32 \<Rightarrow> u32 \<Rightarrow> dsys \<Rightarrow> bool \<Rightarrow> string option \<Rightarrow> u32 \<Rightarrow> u32 \<Rightarrow> nat \<Rightarrow> kstat \<times> u32 option \<times> dsys" where
  "buf_queue_dyn_create ra1 ra2 d queue_null name sz max_msg type =
     (if queue_null then (RHINO_NULL_PTR, None, d)
      else if sz = 0 then (RHINO_BUF_QUEUE_SIZE_ZERO, None, d)
      else
        let (queue_obj, d1) = dyn_alloc ra1 d sizeof_kbuf_queue
        in if queue_obj = 0 then (RHINO_NO_MEM, None, d1)
           else
             let (buf, d2) = dyn_alloc ra2 d1 sz
             in if buf = 0 then (RHINO_NO_MEM, None, dyn_free d2 queue_obj)
                else
                  let (stat, d3) = on_kernel d2 (buf_queue_create (krn d2) (Some (unat queue_obj)) name
                        (Some (heap_bytes (kmm d2) buf (unat (sz AND NOT AOS_UNSIGNED_INT_MSB)))) (unat sz) (unat max_msg)
                        K_OBJ_DYN_ALLOC RINGBUF_TYPE_DYN);
                      d4 = d3\<lparr>bq_buf := (bq_buf d3)(unat queue_obj := buf)\<rparr>
                  in if stat \<noteq> RHINO_SUCCESS then (stat, None, dyn_free (dyn_free d3 buf) queue_obj)
                     else (RHINO_SUCCESS, Some queue_obj, d4))"

definition krhino_buf_queue_dyn_create ::
    "u32 \<Rightarrow> u32 \<Rightarrow> dsys \<Rightarrow> bool \<Rightarrow> string option \<Rightarrow> u32 \<Rightarrow> u32 \<Rightarrow> kstat \<times> u32 option \<times> dsys" where
  "krhino_buf_queue_dyn_create ra1 ra2 d queue_null name sz max_msg =
     buf_queue_dyn_create ra1 ra2 d queue_null name sz max_msg RINGBUF_TYPE_DYN"

definition krhino_fix_buf_queue_dyn_create ::
    "u32 \<Rightarrow> u32 \<Rightarrow> dsys \<Rightarrow> bool \<Rightarrow> string option \<Rightarrow> u32 \<Rightarrow> u32 \<Rightarrow> kstat \<times> u32 option \<times> dsys" where
  "krhino_fix_buf_queue_dyn_create ra1 ra2 d queue_null name msg_size msg_num =
     buf_queue_dyn_create ra1 ra2 d queue_null name (msg_size * msg_num) msg_size RINGBUF_TYPE_FIX"

definition krhino_buf_queue_dyn_del :: "kernel \<Rightarrow> oid option \<Rightarrow> kstat \<times> kernel" where
  "krhino_buf_queue_dyn_del s queue =
     (case queue of None \<Rightarrow> (RHINO_NULL_PTR, s) | Some ob \<Rightarrow>
      if g_intrpt_nested_level s > 0 then (RHINO_NOT_CALLED_BY_INTRPT, s)
      else if obj_type (blk s ob) \<noteq> RHINO_BUF_QUEUE_OBJ_TYPE then (RHINO_KOBJ_TYPE_ERR, s)
      else if obj_mm_flag (blk s ob) \<noteq> K_OBJ_DYN_ALLOC then (RHINO_KOBJ_DEL_ERR, s)
      else
        let s1 = upd_blk s ob (\<lambda>b. b\<lparr>obj_type := RHINO_OBJ_TYPE_NONE\<rparr>);
            s2 = wake_all pend_task_rm ob s1;
            s3 = s2\<lparr>g_kobj_list := (g_kobj_list s2)\<lparr>l_buf_queue_head := remove1 ob (l_buf_queue_head (g_kobj_list s2))\<rparr>\<rparr>;
            s4 = upd_bq s3 ob (\<lambda>q. q\<lparr>bq_ringbuf := ringbuf_reset (bq_ringbuf q)\<rparr>)
        in (RHINO_SUCCESS, core_sched s4))"

definition krhino_buf_queue_dyn_del_end :: "dsys \<Rightarrow> oid \<Rightarrow> kstat \<times> dsys" where
  "krhino_buf_queue_dyn_del_end d ob = (RHINO_SUCCESS, dyn_free (dyn_free d (bq_buf d ob)) (of_nat ob))"

section \<open>Tasks\<close>

text \<open>\<open>*task\<close> is the second result; it is written before the task is made ready.\<close>

definition task_dyn_create ::
    "u32 \<Rightarrow> u32 \<Rightarrow> u32 \<Rightarrow> dsys \<Rightarrow> bool \<Rightarrow> string option \<Rightarrow> u32 \<Rightarrow> nat \<Rightarrow> u64 \<Rightarrow> u32 \<Rightarrow> u32 option \<Rightarrow> u8 \<Rightarrow>
     kstat \<times> u32 option \<times> dsys" where
  "task_dyn_create deathbed ra1 ra2 d task_null name arg pri ticks stack entry autorun =
     (if task_null then (RHINO_NULL_PTR, None, d)
      else if stack = 0 then (RHINO_INV_PARAM, None, d)
      else
        let (task_stack, d1) = dyn_alloc ra1 d (stack * 4)
        in if task_stack = 0 then (RHINO_NO_MEM, None, d1)
           else
             let (task_obj, d2) = dyn_alloc ra2 d1 sizeof_ktask
             in if task_obj = 0 then (RHINO_NO_MEM, None, dyn_free d2 task_stack)
                else
                  let (ret, d3) = on_kernel d2 (task_create deathbed (krn d2) (Some (unat task_obj)) name arg pri ticks
                        (Some task_stack) stack entry autorun K_OBJ_DYN_ALLOC)
                  in if ret \<noteq> RHINO_SUCCESS \<and> ret \<noteq> RHINO_STOPPED
                     then (ret, None, dyn_free (dyn_free d3 task_stack) task_obj)
                     else (ret, Some task_obj, d3))"

definition krhino_task_dyn_create ::
    "u32 \<Rightarrow> u32 \<Rightarrow> u32 \<Rightarrow> dsys \<Rightarrow> bool \<Rightarrow> string option \<Rightarrow> u32 \<Rightarrow> nat \<Rightarrow> u64 \<Rightarrow> u32 \<Rightarrow> u32 option \<Rightarrow> u8 \<Rightarrow>
     kstat \<times> u32 option \<times> dsys" where
  "krhino_task_dyn_create deathbed ra1 ra2 d task_null name arg pri ticks stack entry autorun =
     task_dyn_create deathbed ra1 ra2 d task_null name arg pri ticks stack entry autorun"

text \<open>\<open>res_free_t\<close> at an address.\<close>

definition RES_FREE_NUM :: nat where "RES_FREE_NUM = 4"
definition RHINO_CONFIG_STK_CHK_WORDS :: u32 where "RHINO_CONFIG_STK_CHK_WORDS = 1"
definition cnt_at :: "u32 \<Rightarrow> u32" where "cnt_at r = r"
definition res_at :: "u32 \<Rightarrow> nat \<Rightarrow> u32" where "res_at r i = r + 4 + 4 * of_nat i"

text \<open>\<open>res_sem\<close> is \<open>g_res_sem\<close>. (A task in no state of its life, which the check of \<open>K_DELETED\<close> lets pass, is
  on no list but the one of all tasks.)\<close>

definition krhino_task_dyn_del :: "oid \<Rightarrow> dsys \<Rightarrow> tid option \<Rightarrow> kstat \<times> dsys" where
  "krhino_task_dyn_del res_sem d task =
     (let s = krn d in
      if g_intrpt_nested_level s > 0 then (RHINO_NOT_CALLED_BY_INTRPT, d)
      else
        let t = (case task of None \<Rightarrow> g_active_task s | Some t \<Rightarrow> t)
        in if prio (tcb s t) = RHINO_IDLE_PRI then (RHINO_TASK_DEL_NOT_ALLOWED, d)
           else if task_mm_flag (tcb s t) \<noteq> K_OBJ_DYN_ALLOC then (RHINO_KOBJ_DEL_ERR, d)
           else if t = g_active_task s \<and> g_sched_lock s > 0 then (RHINO_SCHED_DISABLE, d)
           else if task_state (tcb s t) = K_DELETED then (RHINO_INV_TASK_STATE, d)
           else
             let res_free = task_stack_base (tcb s t) + 4 * RHINO_CONFIG_STK_CHK_WORDS;
                 h1 = store (kmm d) (cnt_at res_free) 0;
                 s1 = s\<lparr>g_sched_lock := g_sched_lock s + 1\<rparr>;
                 h2 = store h1 (res_at res_free 0) (task_stack_base (tcb s1 t));
                 h3 = store h2 (res_at res_free 1) (of_nat t);
                 h4 = store h3 (cnt_at res_free) (word_at h3 (cnt_at res_free) + 2);
                 (ret, s2) = krhino_sem_give s1 (Some res_sem);
                 s3 = s2\<lparr>g_sched_lock := g_sched_lock s2 - 1\<rparr>;
                 d1 = d\<lparr>kmm := h4, g_res_list := g_res_list d @ [res_free]\<rparr>
             in if ret \<noteq> RHINO_SUCCESS then (ret, d1\<lparr>krn := k_err_proc s3 RHINO_SYS_SP_ERR\<rparr>)
                else
                  let s4 = task_mutex_free s3 t;
                      dead = (\<lambda>s. upd_task s t (\<lambda>k. k\<lparr>task_state := K_DELETED\<rparr>));
                      finish = (\<lambda>s. (RHINO_SUCCESS, d1\<lparr>krn := core_sched
                        (s\<lparr>g_kobj_list := (g_kobj_list s)\<lparr>l_task_head := remove1 t (l_task_head (g_kobj_list s))\<rparr>\<rparr>)\<rparr>))
                  in case task_state (tcb s4 t) of
                       K_RDY \<Rightarrow> finish (dead (rq_rm s4 t))
                     | K_SUSPENDED \<Rightarrow> finish (dead s4)
                     | K_SLEEP \<Rightarrow> finish (dead (tick_list_rm s4 t))
                     | K_SLEEP_SUSPENDED \<Rightarrow> finish (dead (tick_list_rm s4 t))
                     | K_PEND \<Rightarrow> finish (mutex_task_pri_reset (dead (blk_list_rm (tick_list_rm s4 t) t)) t)
                     | K_PEND_SUSPENDED \<Rightarrow> finish (mutex_task_pri_reset (dead (blk_list_rm (tick_list_rm s4 t) t)) t)
                     | _ \<Rightarrow> finish s4)"

text \<open>Where a task's entry function returns to.\<close>

definition krhino_task_deathbed :: "oid \<Rightarrow> dsys \<Rightarrow> dsys" where
  "krhino_task_deathbed res_sem d =
     (if task_mm_flag (tcb (krn d) (krhino_cur_task_get (krn d))) = K_OBJ_DYN_ALLOC
      then snd (krhino_task_dyn_del res_sem d None)
      else snd (on_kernel d (krhino_task_del (krn d) None)))"

section \<open>The task that releases memory\<close>

text \<open>One turn of the inner loop: the first record is unlinked and copied, then what it lists is released. \<open>None\<close> when
  the list is empty. (A count beyond the array would read what lies behind it.)\<close>

definition dyn_mem_proc_turn :: "dsys \<Rightarrow> dsys option" where
  "dyn_mem_proc_turn d =
     (case g_res_list d of
        [] \<Rightarrow> None
      | res_free # rest \<Rightarrow>
          let d1 = d\<lparr>g_res_list := rest\<rparr>;
              n = unat (word_at (kmm d1) (cnt_at res_free));
              tmp = map (\<lambda>i. word_at (kmm d1) (res_at res_free i)) [0..<min n RES_FREE_NUM];
              d2 = (if n > RES_FREE_NUM then d1\<lparr>kmm := mm_trap OutOfBounds (kmm d1)\<rparr> else d1)
          in Some (foldl dyn_free d2 tmp))"

lemma dyn_free_frame [simp]:
  "krn (dyn_free d p) = krn d" "queue_start (dyn_free d p) = queue_start d" "bq_buf (dyn_free d p) = bq_buf d"
  "g_res_list (dyn_free d p) = g_res_list d" "kmm (dyn_free d p) = krhino_mm_free (kmm d) p"
  by (simp_all add: dyn_free_def)

lemma foldl_free_frame [simp]:
  "krn (foldl dyn_free d ps) = krn d" "queue_start (foldl dyn_free d ps) = queue_start d" "bq_buf (foldl dyn_free d ps) = bq_buf d"
  "g_res_list (foldl dyn_free d ps) = g_res_list d"
  by (induction ps arbitrary: d) simp_all

function dyn_mem_proc_loop :: "dsys \<Rightarrow> dsys" where
  "dyn_mem_proc_loop d = (case dyn_mem_proc_turn d of None \<Rightarrow> d | Some d' \<Rightarrow> dyn_mem_proc_loop d')"
  by auto
termination
  by (relation "measure (\<lambda>d. length (g_res_list d))")
    (auto simp: dyn_mem_proc_turn_def Let_def split: list.splits if_splits)

declare dyn_mem_proc_loop.simps [simp del]

text \<open>The body of the task, run when the take of the semaphore has returned \<open>ret\<close>.\<close>

definition dyn_mem_proc_taken :: "dsys \<Rightarrow> kstat \<Rightarrow> dsys" where
  "dyn_mem_proc_taken d ret =
     dyn_mem_proc_loop (if ret \<noteq> RHINO_SUCCESS then d\<lparr>krn := k_err_proc (krn d) RHINO_DYN_MEM_PROC_ERR\<rparr> else d)"

section \<open>Timers and works\<close>

definition krhino_timer_dyn_create_mm ::
    "k_timer_queue_cb \<Rightarrow> u32 \<Rightarrow> dsys \<Rightarrow> bool \<Rightarrow> string option \<Rightarrow> u32 \<Rightarrow> u64 \<Rightarrow> u64 \<Rightarrow> u32 \<Rightarrow> u8 \<Rightarrow> kstat \<times> u32 option \<times> dsys" where
  "krhino_timer_dyn_create_mm junk ra d timer_null name cb first round arg auto_run =
     (if timer_null then (RHINO_NULL_PTR, None, d)
      else
        let (timer_obj, d1) = dyn_alloc ra d sizeof_ktimer
        in if timer_obj = 0 then (RHINO_NO_MEM, None, d1)
           else
             let (ret, d2) = timer_create junk d1 (Some timer_obj) name cb first round arg auto_run K_OBJ_DYN_ALLOC
             in if ret \<noteq> RHINO_SUCCESS then (ret, None, dyn_free d2 timer_obj) else (ret, Some timer_obj, d2))"

text \<open>The command that deletes a timer on the heap; the others are those of theory \<open>K_Timer\<close>.\<close>

definition cmd_proc_mm :: "dsys \<Rightarrow> k_timer_queue_cb \<Rightarrow> u8 \<Rightarrow> dsys" where
  "cmd_proc_mm d cb cmd =
     (let t = cb_timer cb; m = timers d t in
      if cmd = TIMER_CMD_DYN_DEL then
        (if tm_obj_type m \<noteq> RHINO_TIMER_OBJ_TYPE then d
         else if timer_state m \<noteq> TIMER_DEACTIVE then d
         else if tm_mm_flag m \<noteq> K_OBJ_DYN_ALLOC then d
         else dyn_free (upd_timer d t (\<lambda>m. m\<lparr>tm_obj_type := RHINO_OBJ_TYPE_NONE\<rparr>)) t)
      else cmd_proc d cb cmd)"

definition krhino_work_init_mm ::
    "k_timer_queue_cb \<Rightarrow> u32 \<Rightarrow> dsys \<Rightarrow> u32 \<Rightarrow> u32 \<Rightarrow> u32 \<Rightarrow> u64 \<Rightarrow> kstat \<times> dsys" where
  "krhino_work_init_mm junk ra d w handle arg dly =
     (if w = 0 then (RHINO_NULL_PTR, d)
      else if handle = 0 then (RHINO_NULL_PTR, d)
      else
        let d1 = upd_work d w (\<lambda>_. \<lparr>wk_handle = handle, wk_arg = arg, wk_dly = dly, wk_timer = 0, wk_wq = 0, work_exit = 0\<rparr>)
        in if dly > 0 then
             let (ret, tm, d2) = krhino_timer_dyn_create_mm junk ra d1 False (Some ''WORK-TIMER'') work_timer_cb_addr
                   (wk_dly (works d1 w)) 0 w 0;
                 d3 = (case tm of None \<Rightarrow> d2 | Some t \<Rightarrow> upd_work d2 w (\<lambda>x. x\<lparr>wk_timer := t\<rparr>))
             in if ret \<noteq> RHINO_SUCCESS then (ret, d3) else (RHINO_SUCCESS, d3)
           else (RHINO_SUCCESS, d1))"

section \<open>The boot with the heap\<close>

text \<open>\<open>krhino_init\<close> with the two calls that theory \<open>K_Boot\<close> leaves out, which touch nothing of the state there.\<close>

definition krhino_init_mm :: "image \<Rightarrow> (u32 \<times> u32) list \<Rightarrow> dsys \<Rightarrow> kstat \<times> dsys" where
  "krhino_init_mm im regions d =
     (let d1 = d\<lparr>kmm := k_mm_init (kmm d) regions\<rparr>;
          d2 = d1\<lparr>g_res_list := []\<rparr>
      in krhino_init im d2)"

end
