(* ===== verification/Dyn_Frames.thy ===== *)
theory Dyn_Frames
  imports K_Dyn
begin

text \<open>
  The objects and tasks on the heap, and that no service of theory \<open>Kernel_Steps\<close> makes, deletes or moves one:
  those services create and delete what is not on the heap.
\<close>

section \<open>What is on the heap\<close>

text \<open>The type of an object on the heap, the stack of a task on the heap.\<close>

definition dyn_part :: "ktask \<Rightarrow> u32 option" where
  "dyn_part k = (if live k \<and> task_mm_flag k = K_OBJ_DYN_ALLOC then Some (task_stack_base k) else None)"

definition obj_part :: "blk_obj_t \<Rightarrow> kobj_type_t" where
  "obj_part b = (if obj_mm_flag b = K_OBJ_DYN_ALLOC then obj_type b else RHINO_OBJ_TYPE_NONE)"

definition dyn_objs :: "kernel \<Rightarrow> oid \<Rightarrow> kobj_type_t" where
  "dyn_objs s ob = obj_part (blk s ob)"

definition dyn_tasks :: "kernel \<Rightarrow> tid \<Rightarrow> u32 option" where
  "dyn_tasks s t = dyn_part (tcb s t)"

section \<open>What a reading of the state sees\<close>

lemma rq_frames [simp]: "tcb (rq_rm s t) = tcb s" "blk (rq_rm s t) = blk s" "tcb (rq_add s t) = tcb s" "blk (rq_add s t) = blk s"
  "tcb (rq_add_head s t) = tcb s" "blk (rq_add_head s t) = blk s" "tcb (add_trap s e) = tcb s" "blk (add_trap s e) = blk s"
  "tcb (core_sched s) = tcb s" "blk (core_sched s) = blk s"
  by (simp_all add: rq_rm_def rq_add_def rq_add_head_def split_def Let_def add_trap_def core_sched_def cpu_task_switch_def split: option.split)

lemma live_states [simp]:
  "task_state k = K_RDY \<Longrightarrow> live k" "task_state k = K_PEND \<Longrightarrow> live k" "task_state k = K_SUSPENDED \<Longrightarrow> live k"
  "task_state k = K_PEND_SUSPENDED \<Longrightarrow> live k" "task_state k = K_SLEEP \<Longrightarrow> live k" "task_state k = K_SLEEP_SUSPENDED \<Longrightarrow> live k"
  by (simp_all add: live_def)

lemma live_fields [simp]:
  "live (k\<lparr>msg := m\<rparr>) = live k" "live (k\<lparr>pend_flags := u\<rparr>) = live k" "live (k\<lparr>pend_info := n\<rparr>) = live k"
  "live (k\<lparr>pend_option := o8\<rparr>) = live k"
  by (simp_all add: live_def)

named_theorems same \<open>operations that a reading of the state does not see\<close>

text \<open>A reading of tasks and objects that looks at no more than what the life of a task or object settles:
  whether a task lives, the type of an object, and how they were created.\<close>

locale reading =
  fixes P :: "ktask \<Rightarrow> 'p" and Q :: "blk_obj_t \<Rightarrow> 'q"
  assumes P_reads: "live k' = live k \<Longrightarrow> task_mm_flag k' = task_mm_flag k \<Longrightarrow> task_stack_base k' = task_stack_base k \<Longrightarrow> P k' = P k"
    and Q_reads: "obj_type b' = obj_type b \<Longrightarrow> obj_mm_flag b' = obj_mm_flag b \<Longrightarrow> Q b' = Q b"
begin

definition same_as :: "kernel \<Rightarrow> kernel \<Rightarrow> bool" where
  "same_as s s' \<longleftrightarrow> (\<forall>t. P (tcb s' t) = P (tcb s t)) \<and> (\<forall>ob. Q (blk s' ob) = Q (blk s ob))"


lemma same_refl [simp]: "same_as s s"
  by (simp add: same_as_def)

lemma same_trans: "same_as s s1 \<Longrightarrow> same_as s1 s2 \<Longrightarrow> same_as s s2"
  by (simp add: same_as_def)

lemma same_if: "(b \<Longrightarrow> same_as s s1) \<Longrightarrow> (\<not> b \<Longrightarrow> same_as s s2) \<Longrightarrow> same_as s (if b then s1 else s2)"
  by simp

lemma same_snd_if: "(b \<Longrightarrow> same_as s (snd x)) \<Longrightarrow> (\<not> b \<Longrightarrow> same_as s (snd y)) \<Longrightarrow> same_as s (snd (if b then x else y))"
  by simp

lemma same_cong: "tcb s' = tcb s \<Longrightarrow> blk s' = blk s \<Longrightarrow> same_as s s'"
  by (simp add: same_as_def)

text \<open>A change of a state \<open>s'\<close> reached before; the rules are used backwards, from the last change to the first.\<close>

lemma same_task [same]:
  "same_as s s' \<Longrightarrow> P (f (tcb s' t)) = P (tcb s' t) \<Longrightarrow> same_as s (upd_task s' t f)"
  by (simp add: same_as_def)

lemma same_object [same]:
  "same_as s s' \<Longrightarrow> Q (f (blk s' ob)) = Q (blk s' ob) \<Longrightarrow> same_as s (upd_blk s' ob f)"
  by (simp add: same_as_def)

lemma same_rest [same]:
  assumes "same_as s s'"
  shows "same_as s (rq_rm s' t)" "same_as s (rq_add s' t)" "same_as s (rq_add_head s' t)" "same_as s (add_trap s' e)"
    "same_as s (k_err_proc s' err)" "same_as s (core_sched s')" "same_as s (upd_sem s' ob f)" "same_as s (upd_mutex s' ob g)"
    "same_as s (upd_event s' ob h)" "same_as s (upd_queue s' ob i)" "same_as s (upd_bq s' ob j)"
    "same_as s (s'\<lparr>g_kobj_list := l\<rparr>)" "same_as s (s'\<lparr>g_sched_lock := n\<rparr>)" "same_as s (s'\<lparr>g_ready_queue := q\<rparr>)"
    "same_as s (s'\<lparr>g_tick_list := ts\<rparr>)" "same_as s (s'\<lparr>g_tick_count := c\<rparr>)" "same_as s (s'\<lparr>g_intrpt_nested_level := n\<rparr>)"
    "same_as s (s'\<lparr>cells := cs\<rparr>)" "same_as s (s'\<lparr>bufs := bs\<rparr>)" "same_as s (s'\<lparr>mutexes := ms\<rparr>)"
    "same_as s (s'\<lparr>g_idle_task_spawned := n\<rparr>)" "same_as s (s'\<lparr>traps := es\<rparr>)"
  by (rule same_trans [OF assms same_cong]; simp add: upd_event_def upd_queue_def upd_bq_def)+

lemma P_fields [simp]:
  "P (k\<lparr>tick_match := a\<rparr>) = P k" "P (k\<lparr>tick_remain := a\<rparr>) = P k" "P (k\<lparr>tick_head := b\<rparr>) = P k"
  "P (k\<lparr>blk_state := bs\<rparr>) = P k" "P (k\<lparr>blk_obj := ob\<rparr>) = P k" "P (k\<lparr>prio := p\<rparr>) = P k"
  "P (k\<lparr>b_prio := p\<rparr>) = P k" "P (k\<lparr>mutex_list := ms\<rparr>) = P k" "P (k\<lparr>msg := m\<rparr>) = P k"
  "P (k\<lparr>bq_msg_size := n\<rparr>) = P k" "P (k\<lparr>pend_flags := u\<rparr>) = P k" "P (k\<lparr>pend_info := n\<rparr>) = P k"
  "P (k\<lparr>pend_option := o8\<rparr>) = P k" "P (k\<lparr>time_slice_left := u\<rparr>) = P k" "P (k\<lparr>time_total := u\<rparr>) = P k"
  "P (k\<lparr>sched_policy := o8\<rparr>) = P k" "P (k\<lparr>cancel := o8\<rparr>) = P k" "P (k\<lparr>user_info := us\<rparr>) = P k"
  "P (k\<lparr>task_sem_obj := so\<rparr>) = P k" "P (k\<lparr>suspend_count := o8\<rparr>) = P k"
  by (rule P_reads; simp add: live_def)+

lemma P_state [simp]: "live k \<Longrightarrow> st \<noteq> K_SEED \<Longrightarrow> st \<noteq> K_DELETED \<Longrightarrow> P (k\<lparr>task_state := st\<rparr>) = P k"
  by (rule P_reads) (simp_all add: live_def)

lemma Q_list [simp]: "Q (b\<lparr>blk_list := l\<rparr>) = Q b"
  by (rule Q_reads) simp_all

text \<open>Waiting and waking.\<close>

lemma same_blk_list_rm [same]: "same_as s s' \<Longrightarrow> same_as s (blk_list_rm s' t)"
  by (simp add: same_as_def blk_list_rm_def)

lemma same_tick [same]:
  "same_as s s' \<Longrightarrow> same_as s (tick_list_rm s' t)" "same_as s s' \<Longrightarrow> same_as s (tick_list_insert s' t n)"
  by (auto simp: tick_list_rm_def tick_list_insert_def tick_list_pri_insert_def Let_def intro!: same)

lemma same_wake [same]:
  "same_as s s' \<Longrightarrow> same_as s (pend_task_wakeup s' t)" "same_as s s' \<Longrightarrow> same_as s (pend_task_rm s' t)"
  by (auto simp: pend_task_wakeup_def pend_task_rm_def Let_def intro!: same split: task_stat_t.split)

lemma same_pend_list_add [same]: "same_as s s' \<Longrightarrow> same_as s (pend_list_add s' ob t)"
  by (auto simp: pend_list_add_def intro!: same)

lemma same_pend [same]:
  "same_as s s' \<Longrightarrow> live (tcb s' t) \<Longrightarrow> same_as s (pend_to_blk_obj s' ob t n)"
  by (auto simp: pend_to_blk_obj_def Let_def intro!: same simp: tick_list_insert_def tick_list_pri_insert_def live_def)

lemma same_wake_loop:
  "(\<And>s' t. same_as s s' \<Longrightarrow> same_as s (f s' t)) \<Longrightarrow> same_as s s' \<Longrightarrow> same_as s (wake_loop f n ob s')"
  by (induction n arbitrary: s') (auto intro!: same split: list.split)

lemma same_wake_all [same]:
  "same_as s s' \<Longrightarrow> same_as s (wake_all pend_task_wakeup ob s')" "same_as s s' \<Longrightarrow> same_as s (wake_all pend_task_rm ob s')"
  by (auto simp: wake_all_def intro!: same_wake_loop same)

text \<open>Priorities.\<close>

lemma same_reprio: "same_as s s1 \<Longrightarrow> reprio s1 s' \<Longrightarrow> same_as s s'"
proof -
  assume s: "same_as s s1" and r: "reprio s1 s'"
  have "P (tcb s' t) = P (tcb s1 t)" for t
  proof -
    have "tcb s' t = (tcb s1 t)\<lparr>prio := prio (tcb s' t)\<rparr>" using r by (simp add: reprio_def)
    then show ?thesis by (metis P_fields(6))
  qed
  moreover have "Q (blk s' ob) = Q (blk s1 ob)" for ob
  proof -
    have "blk s' ob = (blk s1 ob)\<lparr>blk_list := blk_list (blk s' ob)\<rparr>" using r by (simp add: reprio_def)
    then show ?thesis by (metis Q_list)
  qed
  ultimately show ?thesis using s by (simp add: same_as_def)
qed

lemma same_reorder [same]: "same_as s s' \<Longrightarrow> same_as s (pend_list_reorder s' t)"
  by (auto simp: pend_list_reorder_def intro!: same split: option.split)

lemma same_look [same]: "same_as s s' \<Longrightarrow> same_as s (snd (mutex_pri_look s' t rel))"
  by (auto simp: mutex_pri_look_def Let_def split_def intro!: same)

lemma same_pri_loop: "same_as s s' \<Longrightarrow> same_as s (snd (task_pri_change_loop n s' t p))"
proof (induction n arbitrary: s' t p)
  case 0
  then show ?case by (auto intro!: same)
next
  case (Suc n)
  have l: "same_as s (snd (mutex_pri_look s1 ow None))" if "same_as s s1" for s1 ow by (rule same_look [OF that])
  show ?case
    unfolding task_pri_change_loop.simps Let_def split_def
    by (auto simp only: snd_conv P_fields intro!: same_snd_if same_if same Suc l split: task_stat_t.split option.split)
qed

lemma same_pri_change [same]: "same_as s s' \<Longrightarrow> same_as s (snd (task_pri_change s' t p))"
  unfolding task_pri_change_def by (rule same_pri_loop)

lemma same_release [same]:
  "same_as s s' \<Longrightarrow> same_as s (mutex_release s' t rel)" "same_as s s' \<Longrightarrow> same_as s (mutex_task_pri_reset s' t)"
proof -
  show r: "same_as s s' \<Longrightarrow> same_as s (mutex_release s' t rel)" for t rel
    using same_look [of s s' t rel] by (auto simp: mutex_release_def Let_def split_def intro!: same)
  show "same_as s s' \<Longrightarrow> same_as s (mutex_task_pri_reset s' t)"
    by (auto simp: mutex_task_pri_reset_def intro!: same r split: option.split)
qed

lemma same_free_one: "same_as s s' \<Longrightarrow> same_as s (free_one_mutex s' m)"
  by (auto simp: free_one_mutex_def Let_def intro!: same split: list.split)

lemma same_mutex_free [same]: "same_as s s' \<Longrightarrow> same_as s (task_mutex_free s' t)"
proof -
  have "same_as s s' \<Longrightarrow> same_as s (foldl free_one_mutex s' ms)" for ms
    by (induction ms arbitrary: s') (auto intro: same_free_one)
  then show "same_as s s' \<Longrightarrow> same_as s (task_mutex_free s' t)" by (simp add: task_mutex_free_def)
qed

lemma same_expire [same]: "same_as s s' \<Longrightarrow> same_as s (tick_expire s' t)"
  by (auto simp: tick_expire_def Let_def tick_list_rm_tcb intro!: same split: task_stat_t.split)

end

text \<open>What is on the heap is such a reading, and so are the kinds of all tasks and objects.\<close>

interpretation dyn: reading dyn_part obj_part
  by unfold_locales (simp_all add: dyn_part_def obj_part_def)

definition task_kind :: "ktask \<Rightarrow> bool \<times> u8 \<times> u32" where
  "task_kind k = (live k, task_mm_flag k, task_stack_base k)"

definition obj_kind :: "blk_obj_t \<Rightarrow> kobj_type_t \<times> u8" where
  "obj_kind b = (obj_type b, obj_mm_flag b)"

interpretation kinds: reading task_kind obj_kind
  by unfold_locales (simp_all add: task_kind_def obj_kind_def)

lemma same_kinds_dyn: "kinds.same_as s s' \<Longrightarrow> dyn.same_as s s'"
  unfolding kinds.same_as_def dyn.same_as_def by (auto simp: task_kind_def obj_kind_def intro!: dyn.P_reads dyn.Q_reads)

lemma obj_part_off [simp]:
  "obj_mm_flag b \<noteq> K_OBJ_DYN_ALLOC \<Longrightarrow> obj_part b = RHINO_OBJ_TYPE_NONE"
  "obj_type b = RHINO_OBJ_TYPE_NONE \<Longrightarrow> obj_part b = RHINO_OBJ_TYPE_NONE"
  by (simp_all add: obj_part_def)

lemma static_not_dyn [simp]: "K_OBJ_STATIC_ALLOC \<noteq> K_OBJ_DYN_ALLOC" "K_OBJ_DYN_ALLOC \<noteq> K_OBJ_STATIC_ALLOC"
  by (simp_all add: config_defs)

lemma dyn_part_static [simp]: "task_mm_flag k \<noteq> K_OBJ_DYN_ALLOC \<Longrightarrow> dyn_part k = None"
  by (simp add: dyn_part_def)


text \<open>A change of priority does not touch the states of the tasks.\<close>

definition same_states :: "kernel \<Rightarrow> kernel \<Rightarrow> bool" where
  "same_states s s' \<longleftrightarrow> (\<forall>u. task_state (tcb s' u) = task_state (tcb s u)) \<and> g_active_task s' = g_active_task s"

lemma same_states_pri_loop: "same_states s s' \<Longrightarrow> same_states s (snd (task_pri_change_loop n s' t p))"
proof (induction n arbitrary: s' t p)
  case 0
  then show ?case by (simp add: same_states_def add_trap_def)
next
  case (Suc n)
  have u: "same_states s (upd_task s1 v (\<lambda>k. k\<lparr>prio := q\<rparr>))" if "same_states s s1" for s1 v q using that by (simp add: same_states_def)
  have r: "same_states s (rq_rm s1 v)" "same_states s (rq_add s1 v)" "same_states s (rq_add_head s1 v)" "same_states s (add_trap s1 e)"
    "same_states s (k_err_proc s1 err)" if "same_states s s1" for s1 v e err
    using that by (simp_all add: same_states_def rq_rm_def rq_add_def rq_add_head_def add_trap_def k_err_proc_def split_def Let_def)
  have o: "same_states s (pend_list_reorder s1 v)" if "same_states s s1" for s1 v
    using that by (auto simp: same_states_def pend_list_reorder_def pend_list_add_def add_trap_def split: option.split)
  have l: "same_states s (snd (mutex_pri_look s1 v rel))" if "same_states s s1" for s1 v rel
    using that by (simp add: same_states_def mutex_pri_look_def Let_def split_def)
  have c: "same_states s (snd (if b then x else y))" if "b \<Longrightarrow> same_states s (snd x)" "\<not> b \<Longrightarrow> same_states s (snd y)" for b and x y :: "kstat \<times> kernel"
    using that by simp
  have i: "same_states s (if b then x else y)" if "b \<Longrightarrow> same_states s x" "\<not> b \<Longrightarrow> same_states s y" for b and x y :: kernel
    using that by simp
  show ?case
    unfolding task_pri_change_loop.simps Let_def split_def
    by (auto simp only: snd_conv intro!: c i u r o l Suc split: task_stat_t.split option.split)
qed

lemma same_states_pri_change: "same_states s (snd (task_pri_change s t p))"
  unfolding task_pri_change_def by (rule same_states_pri_loop) (simp add: same_states_def)

section \<open>The services\<close>

named_theorems service_same \<open>services that keep what is on the heap\<close>

lemma active_live: "act_inv s \<Longrightarrow> live (tcb s (g_active_task s))"
  by (auto simp: act_inv_def runnable_def)

lemma same_dyn_off:
  "dyn.same_as s s' \<Longrightarrow> dyn_tasks s t = None \<Longrightarrow> dyn_part (f (tcb s' t)) = None \<Longrightarrow> dyn.same_as s (upd_task s' t f)"
  "dyn.same_as s s' \<Longrightarrow> dyn_objs s ob = RHINO_OBJ_TYPE_NONE \<Longrightarrow> obj_part (g (blk s' ob)) = RHINO_OBJ_TYPE_NONE \<Longrightarrow>
   dyn.same_as s (upd_blk s' ob g)"
  by (auto simp: dyn.same_as_def dyn_tasks_def dyn_objs_def)

lemma dyn_off [simp]:
  "task_mm_flag (tcb s t) \<noteq> K_OBJ_DYN_ALLOC \<Longrightarrow> dyn_tasks s t = None" "\<not> live (tcb s t) \<Longrightarrow> dyn_tasks s t = None"
  "obj_mm_flag (blk s ob) \<noteq> K_OBJ_DYN_ALLOC \<Longrightarrow> dyn_objs s ob = RHINO_OBJ_TYPE_NONE"
  "obj_type (blk s ob) = RHINO_OBJ_TYPE_NONE \<Longrightarrow> dyn_objs s ob = RHINO_OBJ_TYPE_NONE"
  by (simp_all add: dyn_tasks_def dyn_objs_def dyn_part_def)

lemma task_create_same [service_same]:
  assumes "\<And>t. task = Some t \<Longrightarrow> \<not> live (tcb s t)"
  shows "dyn.same_as s (snd (krhino_task_create deathbed s task name arg pri ticks buf sz entry autorun))"
proof -
  define r where "r = task_init deathbed name arg pri ticks (the buf) sz (the entry) autorun K_OBJ_STATIC_ALLOC"
  have "task_mm_flag (fst r) = K_OBJ_STATIC_ALLOC" by (simp add: r_def task_init_def Let_def split: option.split prod.split)
  then have k: "dyn_part (fst r) = None" by simp
  show ?thesis
  proof (cases "task = None \<or> name = None \<or> entry = None \<or> buf = None")
    case True
    then show ?thesis by (auto simp: krhino_task_create_def task_create_def split: option.split)
  next
    case False
    then obtain t nm en base where e: "task = Some t" "name = Some nm" "entry = Some en" "buf = Some base" by auto
    have n: "dyn_tasks s t = None" using assms [OF e(1)] by simp
    have r: "r = task_init deathbed (Some nm) arg pri ticks base sz en autorun K_OBJ_STATIC_ALLOC" by (simp add: r_def e)
    show ?thesis
      unfolding krhino_task_create_def task_create_def e using k
      by (auto simp: Let_def r [symmetric] split_def intro!: dyn.same_rest same_dyn_off(1) [OF _ n] dyn.same_if)
  qed
qed

lemma task_services_same [service_same]:
  "dyn.same_as s (snd (krhino_task_del s task))"
  "act_inv s \<Longrightarrow> dyn.same_as s (snd (krhino_task_sleep s ticks))"
  "dyn.same_as s (snd (krhino_task_yield s))"
  "dyn.same_as s (snd (krhino_task_suspend s task))"
  "dyn.same_as s (snd (krhino_task_resume s task))"
  "dyn.same_as s (snd (snd (krhino_task_pri_change s task p old_null)))"
  "dyn.same_as s (snd (krhino_task_wait_abort s task))"
  "dyn.same_as s (snd (krhino_task_cancel s task))"
  "dyn.same_as s (snd (krhino_task_time_slice_set s task n))"
  "dyn.same_as s (snd (krhino_sched_policy_set s task policy))"
  "dyn.same_as s (snd (krhino_task_info_set s task idx info))"
proof -
  show "dyn.same_as s (snd (krhino_task_del s task))"
  proof -
    define t where "t = (case task of None \<Rightarrow> g_active_task s | Some t \<Rightarrow> t)"
    have f: "dyn.same_as s (task_mutex_free s t)" by (rule dyn.same_mutex_free) simp
    show ?thesis unfolding krhino_task_del_def t_def [symmetric]
      by (auto simp: Let_def intro!: dyn.same_rest same_dyn_off(1) dyn.same_release(2) dyn.same_tick dyn.same_blk_list_rm dyn.same_mutex_free
          split: task_stat_t.split) (auto simp: dyn_part_def live_def)
  qed
  show "act_inv s \<Longrightarrow> dyn.same_as s (snd (krhino_task_sleep s ticks))"
    using active_live [of s] by (auto simp: krhino_task_sleep_def Let_def intro!: same)
  show "dyn.same_as s (snd (krhino_task_yield s))" by (auto simp: krhino_task_yield_def Let_def intro!: same)
  show "dyn.same_as s (snd (krhino_task_suspend s task))"
    by (auto simp: krhino_task_suspend_def task_suspend_def Let_def intro!: same split: task_stat_t.split option.split)
  show "dyn.same_as s (snd (krhino_task_resume s task))"
    by (auto simp: krhino_task_resume_def task_resume_def Let_def intro!: same split: task_stat_t.split option.split)
  show "dyn.same_as s (snd (snd (krhino_task_pri_change s task p old_null)))"
    by (auto simp: krhino_task_pri_change_def Let_def split_def intro!: same split: option.split)
  show w: "dyn.same_as s (snd (krhino_task_wait_abort s task))" for s task
    by (auto simp: krhino_task_wait_abort_def Let_def tick_list_rm_tcb intro!: same split: task_stat_t.split option.split)
  show "dyn.same_as s (snd (krhino_task_cancel s task))"
  proof (cases task)
    case (Some t)
    have "dyn.same_as s (upd_task s t (\<lambda>k. k\<lparr>cancel := 1\<rparr>))" by (auto intro!: same)
    then show ?thesis using dyn.same_trans [OF _ w] Some by (simp add: krhino_task_cancel_def)
  qed (simp add: krhino_task_cancel_def)
  show "dyn.same_as s (snd (krhino_task_time_slice_set s task n))"
    by (auto simp: krhino_task_time_slice_set_def Let_def intro!: same split: option.split)
  show "dyn.same_as s (snd (krhino_sched_policy_set s task policy))"
    by (auto simp: krhino_sched_policy_set_def Let_def intro!: same split: option.split)
  show "dyn.same_as s (snd (krhino_task_info_set s task idx info))"
    by (auto simp: krhino_task_info_set_def Let_def intro!: same split: option.split)
qed

lemma same_dyn_create:
  "dyn.same_as s s' \<Longrightarrow> unused s (Some ob) \<Longrightarrow> obj_mm_flag b = K_OBJ_STATIC_ALLOC \<Longrightarrow> dyn.same_as s (upd_blk s' ob (\<lambda>_. b))"
  by (rule same_dyn_off(2)) (simp_all add: unused_def)

lemma same_dyn_delete:
  "dyn.same_as s s' \<Longrightarrow> obj_mm_flag (blk s ob) = K_OBJ_STATIC_ALLOC \<Longrightarrow> dyn.same_as s (upd_blk s' ob (\<lambda>b. b\<lparr>obj_type := RHINO_OBJ_TYPE_NONE\<rparr>))"
  by (rule same_dyn_off(2)) simp_all

lemma create_same [service_same]:
  "unused s o1 \<Longrightarrow> dyn.same_as s (snd (krhino_sem_create s o1 name cnt))"
  "unused s o1 \<Longrightarrow> dyn.same_as s (snd (krhino_mutex_create s o1 name))"
  "unused s o1 \<Longrightarrow> dyn.same_as s (snd (krhino_event_create s o1 name flags))"
  "unused s o1 \<Longrightarrow> dyn.same_as s (snd (krhino_queue_create s o1 name buf n))"
  "unused s o1 \<Longrightarrow> dyn.same_as s (snd (krhino_buf_queue_create s o1 name buf sz max_msg))"
  "unused s o1 \<Longrightarrow> dyn.same_as s (snd (krhino_fix_buf_queue_create s o1 name buf sz n))"
  unfolding krhino_sem_create_def sem_create_def krhino_mutex_create_def mutex_create_def krhino_event_create_def event_create_def
    krhino_queue_create_def queue_create_def krhino_buf_queue_create_def krhino_fix_buf_queue_create_def buf_queue_create_def
  by (auto simp: Let_def intro!: dyn.same_rest same_dyn_create split: option.split)

lemma task_sem_create_same [service_same]:
  "unused s o1 \<Longrightarrow> dyn.same_as s (snd (krhino_task_sem_create s task o1 name cnt))"
  using create_same(1) [of s o1 name cnt]
  by (auto simp: krhino_task_sem_create_def Let_def split_def intro!: same split: option.split)

lemma delete_same [service_same]:
  "dyn.same_as s (snd (krhino_sem_del s o1))" "dyn.same_as s (snd (krhino_mutex_del s o1))" "dyn.same_as s (snd (krhino_event_del s o1))"
  "dyn.same_as s (snd (krhino_queue_del s o1))" "dyn.same_as s (snd (krhino_buf_queue_del s o1))"
  unfolding krhino_sem_del_def krhino_mutex_del_def krhino_event_del_def krhino_queue_del_def krhino_buf_queue_del_def
  by (auto simp: Let_def intro!: dyn.same_rest dyn.same_wake_all dyn.same_release same_dyn_delete split: option.split)

lemma sem_services_same [service_same]:
  "dyn.same_as s (snd (krhino_sem_give s o1))" "dyn.same_as s (snd (krhino_sem_give_all s o1))"
  "act_inv s \<Longrightarrow> dyn.same_as s (snd (krhino_sem_take s o1 ticks))" "dyn.same_as s (snd (krhino_sem_count_set s o1 c))"
  using active_live [of s]
  by (auto simp: krhino_sem_give_def krhino_sem_give_all_def sem_give_def krhino_sem_take_def krhino_sem_count_set_def Let_def
      intro!: same split: option.split list.split)

lemma task_sem_services_same [service_same]:
  "dyn.same_as s (snd (krhino_task_sem_del s task))" "dyn.same_as s (snd (krhino_task_sem_give s task))"
  "act_inv s \<Longrightarrow> dyn.same_as s (snd (krhino_task_sem_take s ticks))" "dyn.same_as s (snd (krhino_task_sem_count_set s task cnt))"
  by (auto simp: krhino_task_sem_del_def krhino_task_sem_give_def krhino_task_sem_take_def krhino_task_sem_count_set_def
      intro!: service_same split: option.split)

lemma mutex_services_same [service_same]:
  "act_inv s \<Longrightarrow> dyn.same_as s (snd (krhino_mutex_lock s o1 ticks))" "dyn.same_as s (snd (krhino_mutex_unlock s o1))"
proof -
  assume "act_inv s"
  then have "live (tcb (snd (task_pri_change s ow p)) (g_active_task (snd (task_pri_change s ow p))))" for ow p
    using same_states_pri_change [of s ow p] active_live [of s] by (simp add: same_states_def live_def)
  then show "dyn.same_as s (snd (krhino_mutex_lock s o1 ticks))"
    using active_live [OF \<open>act_inv s\<close>]
    by (auto simp: krhino_mutex_lock_def Let_def intro!: same split: option.split)
next
  show "dyn.same_as s (snd (krhino_mutex_unlock s o1))"
    by (auto simp: krhino_mutex_unlock_def Let_def intro!: same split: option.split list.split)
qed

lemma event_services_same [service_same]:
  "act_inv s \<Longrightarrow> dyn.same_as s (snd (krhino_event_get s o1 flags opt actl ticks))" "dyn.same_as s (snd (krhino_event_set s o1 flags opt))"
proof -
  assume "act_inv s"
  define s1 where "s1 c = upd_task s (g_active_task s) (\<lambda>k. k\<lparr>pend_option := opt, pend_flags := flags, pend_info := c\<rparr>)" for c
  have s1: "dyn.same_as s (s1 c)" "live (tcb (s1 c) (g_active_task (s1 c)))" for c
    using active_live [OF \<open>act_inv s\<close>] by (auto simp: s1_def intro!: same)
  show "dyn.same_as s (snd (krhino_event_get s o1 flags opt actl ticks))"
    unfolding krhino_event_get_def Let_def s1_def [symmetric]
    by (auto simp only: snd_conv intro!: dyn.same_snd_if dyn.same_if dyn.same_rest dyn.same_pend s1 dyn.same_refl split: option.split)
next
  have w: "dyn.same_as s s' \<Longrightarrow> dyn.same_as s (event_wake s' ob cur t)" for s' ob cur t
    unfolding event_wake_def Let_def by (intro dyn.same_if dyn.same_rest dyn.same_wake)
  have l: "dyn.same_as s s' \<Longrightarrow> dyn.same_as s (event_set_loop s' ob cur ts)" for s' ob cur ts
    by (induction ts arbitrary: s') (simp_all add: w)
  show "dyn.same_as s (snd (krhino_event_set s o1 flags opt))"
    unfolding krhino_event_set_def event_set_def Let_def
    by (auto simp only: snd_conv intro!: dyn.same_snd_if dyn.same_rest l dyn.same_refl split: option.split)
qed

lemma same_msg [same]: "dyn.same_as s s' \<Longrightarrow> dyn.same_as s (task_msg_recv s' t p)"
  by (auto simp: task_msg_recv_def intro!: same)

lemma same_msg_all [same]: "dyn.same_as s s' \<Longrightarrow> dyn.same_as s (wake_all (\<lambda>s t. task_msg_recv s t p) ob s')"
  by (auto simp: wake_all_def intro!: dyn.same_wake_loop same)

lemma queue_services_same [service_same]:
  "dyn.same_as s (snd (krhino_queue_back_send s o1 m))" "dyn.same_as s (snd (krhino_queue_all_send s o1 m))"
  "act_inv s \<Longrightarrow> dyn.same_as s (snd (snd (krhino_queue_recv s o1 ticks null)))" "dyn.same_as s (snd (krhino_queue_flush s o1))"
  using active_live [of s]
  by (auto simp: krhino_queue_back_send_def krhino_queue_all_send_def msg_send_def krhino_queue_recv_def krhino_queue_flush_def Let_def
      intro!: same split: option.split list.split prod.split)

lemma buf_queue_services_same [service_same]:
  "dyn.same_as s (snd (krhino_buf_queue_send s o1 data sz))"
  "act_inv s \<Longrightarrow> dyn.same_as s (snd (snd (krhino_buf_queue_recv s o1 ticks addr null)))" "dyn.same_as s (snd (krhino_buf_queue_flush s o1))"
  using active_live [of s]
  by (auto simp: krhino_buf_queue_send_def buf_queue_send_def krhino_buf_queue_recv_def krhino_buf_queue_flush_def Let_def
      intro!: same split: option.split list.split prod.split)

lemma processor_services_same [service_same]:
  "dyn.same_as s (snd (krhino_sched_disable s))" "dyn.same_as s (snd (krhino_sched_enable s))" "dyn.same_as s (snd (krhino_intrpt_enter s))"
  "dyn.same_as s (krhino_intrpt_exit s)" "dyn.same_as s (krhino_tick_proc s)"
proof -
  show "dyn.same_as s (snd (krhino_sched_disable s))" "dyn.same_as s (snd (krhino_sched_enable s))" "dyn.same_as s (snd (krhino_intrpt_enter s))"
    by (auto simp: krhino_sched_disable_def krhino_sched_enable_def krhino_intrpt_enter_def Let_def intro!: same)
  show "dyn.same_as s (krhino_intrpt_exit s)"
    by (rule dyn.same_cong)
      (auto simp: krhino_intrpt_exit_def Let_def add_trap_def cpu_task_switch_def split: option.split)
  have l: "dyn.same_as s s' \<Longrightarrow> dyn.same_as s (tick_loop s' ts)" for s' ts
    by (induction ts arbitrary: s') (auto intro!: same)
  have t: "dyn.same_as s s' \<Longrightarrow> dyn.same_as s (time_slice_update s')" for s'
    by (auto simp: time_slice_update_def Let_def intro!: same split: list.split)
  show "dyn.same_as s (krhino_tick_proc s)"
    by (auto simp: krhino_tick_proc_def tick_list_update_def Let_def intro!: t l same)
qed

lemma kernel_step_same_dyn:
  assumes "kernel_step s s'" and a: "act_inv s"
  shows "dyn.same_as s s'"
  using assms(1) by cases (auto intro!: service_same a simp: new_task_def)

end
