(* ===== verification/Dyn_Ops.thy ===== *)
theory Dyn_Ops
  imports Dyn_Frames Mm_Api
begin

text \<open>
  What the services on heap objects do to the kernel: each keeps the invariant of theory \<open>Kernel_Inv\<close> and makes
  or deletes the one object or task it is about.
\<close>

section \<open>One object or task changes\<close>

definition obj_change :: "kernel \<Rightarrow> oid \<Rightarrow> kobj_type_t \<Rightarrow> kernel \<Rightarrow> bool" where
  "obj_change s ob T s' \<longleftrightarrow> (\<forall>t. task_kind (tcb s' t) = task_kind (tcb s t)) \<and>
     (\<forall>o'. o' \<noteq> ob \<longrightarrow> obj_kind (blk s' o') = obj_kind (blk s o')) \<and> obj_kind (blk s' ob) = (T, K_OBJ_DYN_ALLOC)"

definition task_change :: "kernel \<Rightarrow> tid \<Rightarrow> bool \<Rightarrow> u32 \<Rightarrow> kernel \<Rightarrow> bool" where
  "task_change s t lv base s' \<longleftrightarrow> (\<forall>ob. obj_kind (blk s' ob) = obj_kind (blk s ob)) \<and>
     (\<forall>u. u \<noteq> t \<longrightarrow> task_kind (tcb s' u) = task_kind (tcb s u)) \<and> task_kind (tcb s' t) = (lv, K_OBJ_DYN_ALLOC, base)"

lemma obj_change_then: "obj_change s ob T s1 \<Longrightarrow> kinds.same_as s1 s' \<Longrightarrow> obj_change s ob T s'"
  by (simp add: obj_change_def kinds.same_as_def)

lemma task_change_then: "task_change s t lv base s1 \<Longrightarrow> kinds.same_as s1 s' \<Longrightarrow> task_change s t lv base s'"
  by (simp add: task_change_def kinds.same_as_def)

lemma then_task_change: "kinds.same_as s s1 \<Longrightarrow> task_change s1 t lv base s' \<Longrightarrow> task_change s t lv base s'"
  by (simp add: task_change_def kinds.same_as_def)

lemma obj_change_dyn:
  assumes "obj_change s ob T s'"
  shows "dyn_objs s' = (dyn_objs s)(ob := T)" "dyn_tasks s' = dyn_tasks s"
    "obj_type (blk s' o') \<noteq> RHINO_OBJ_TYPE_NONE \<Longrightarrow> obj_mm_flag (blk s' o') \<noteq> K_OBJ_DYN_ALLOC \<Longrightarrow>
      obj_type (blk s o') \<noteq> RHINO_OBJ_TYPE_NONE \<and> obj_mm_flag (blk s o') \<noteq> K_OBJ_DYN_ALLOC"
    "live (tcb s' t) = live (tcb s t)" "task_mm_flag (tcb s' t) = task_mm_flag (tcb s t)"
proof -
  have k: "task_kind (tcb s' t) = task_kind (tcb s t)" "o' \<noteq> ob \<Longrightarrow> obj_kind (blk s' o') = obj_kind (blk s o')"
    "obj_kind (blk s' ob) = (T, K_OBJ_DYN_ALLOC)" for t o' using assms by (simp_all add: obj_change_def)
  show "dyn_objs s' = (dyn_objs s)(ob := T)"
    using k(2,3) by (auto simp: fun_eq_iff dyn_objs_def obj_part_def obj_kind_def)
  show "dyn_tasks s' = dyn_tasks s" using k(1) by (simp add: fun_eq_iff dyn_tasks_def dyn_part_def task_kind_def)
  show "live (tcb s' t) = live (tcb s t)" "task_mm_flag (tcb s' t) = task_mm_flag (tcb s t)" using k(1) by (simp_all add: task_kind_def)
  show "obj_type (blk s' o') \<noteq> RHINO_OBJ_TYPE_NONE \<Longrightarrow> obj_mm_flag (blk s' o') \<noteq> K_OBJ_DYN_ALLOC \<Longrightarrow>
      obj_type (blk s o') \<noteq> RHINO_OBJ_TYPE_NONE \<and> obj_mm_flag (blk s o') \<noteq> K_OBJ_DYN_ALLOC"
    using k(2) [of o'] k(3) by (cases "o' = ob") (auto simp: obj_kind_def)
qed

lemma task_change_dyn:
  assumes "task_change s t lv base s'"
  shows "dyn_tasks s' = (dyn_tasks s)(t := if lv then Some base else None)" "dyn_objs s' = dyn_objs s"
    "live (tcb s' u) \<Longrightarrow> task_mm_flag (tcb s' u) \<noteq> K_OBJ_DYN_ALLOC \<Longrightarrow> live (tcb s u) \<and> task_mm_flag (tcb s u) \<noteq> K_OBJ_DYN_ALLOC"
    "obj_type (blk s' ob) = obj_type (blk s ob)" "obj_mm_flag (blk s' ob) = obj_mm_flag (blk s ob)"
proof -
  have k: "u \<noteq> t \<Longrightarrow> task_kind (tcb s' u) = task_kind (tcb s u)" "obj_kind (blk s' ob) = obj_kind (blk s ob)"
    "task_kind (tcb s' t) = (lv, K_OBJ_DYN_ALLOC, base)" for u ob using assms by (simp_all add: task_change_def)
  show "dyn_tasks s' = (dyn_tasks s)(t := if lv then Some base else None)"
    using k(1,3) by (auto simp: fun_eq_iff dyn_tasks_def dyn_part_def task_kind_def)
  show "dyn_objs s' = dyn_objs s" using k(2) by (simp add: fun_eq_iff dyn_objs_def obj_part_def obj_kind_def)
  show "obj_type (blk s' ob) = obj_type (blk s ob)" "obj_mm_flag (blk s' ob) = obj_mm_flag (blk s ob)" using k(2) by (simp_all add: obj_kind_def)
  show "live (tcb s' u) \<Longrightarrow> task_mm_flag (tcb s' u) \<noteq> K_OBJ_DYN_ALLOC \<Longrightarrow> live (tcb s u) \<and> task_mm_flag (tcb s u) \<noteq> K_OBJ_DYN_ALLOC"
    using k(1) [of u] k(3) by (cases "u = t") (auto simp: task_kind_def)
qed

section \<open>Creation\<close>

text \<open>The result and the effect of a function that creates an object.\<close>

definition creates :: "kernel \<Rightarrow> oid \<Rightarrow> kobj_type_t \<Rightarrow> kstat \<times> kernel \<Rightarrow> bool" where
  "creates s ob T r \<longleftrightarrow> (fst r = RHINO_SUCCESS \<and> obj_change s ob T (snd r)) \<or> (fst r \<noteq> RHINO_SUCCESS \<and> snd r = s)"

lemma obj_change_new:
  "obj_type b = T \<Longrightarrow> obj_mm_flag b = K_OBJ_DYN_ALLOC \<Longrightarrow> obj_change s ob T (upd_blk s ob (\<lambda>_. b))"
  by (simp add: obj_change_def obj_kind_def)

lemma object_creates:
  "creates s ob RHINO_SEM_OBJ_TYPE (sem_create s (Some ob) name cnt K_OBJ_DYN_ALLOC)"
  "creates s ob RHINO_MUTEX_OBJ_TYPE (mutex_create s (Some ob) name K_OBJ_DYN_ALLOC)"
  "creates s ob RHINO_EVENT_OBJ_TYPE (event_create s (Some ob) name flags K_OBJ_DYN_ALLOC)"
  "creates s ob RHINO_QUEUE_OBJ_TYPE (queue_create s (Some ob) name buf n K_OBJ_DYN_ALLOC)"
  "creates s ob RHINO_BUF_QUEUE_OBJ_TYPE (buf_queue_create s (Some ob) name buf sz max_msg K_OBJ_DYN_ALLOC type)"
  by (auto simp: creates_def sem_create_def mutex_create_def event_create_def queue_create_def buf_queue_create_def Let_def
      obj_change_def obj_kind_def split: option.split)

lemma object_create_good:
  assumes w: "kwf s" "act_inv s" and n: "obj_type (blk s ob) = RHINO_OBJ_TYPE_NONE"
  shows "good s (snd (sem_create s (Some ob) name cnt flag))" "good s (snd (mutex_create s (Some ob) name flag))"
    "good s (snd (event_create s (Some ob) name fl flag))"
    "length mem = num * 4 \<Longrightarrow> num * 4 < 2 ^ 32 \<Longrightarrow> good s (snd (queue_create s (Some ob) name (Some mem) num flag))"
    "length mem = sz \<Longrightarrow> sz < 2 ^ 32 \<Longrightarrow> good s (snd (buf_queue_create s (Some ob) name (Some mem) sz max_msg flag RINGBUF_TYPE_DYN))"
  using n by (auto intro!: sem_create_good mutex_create_good event_create_good queue_create_good buf_queue_create_good w)

lemma task_creates:
  assumes "r = task_create deathbed s (Some t) name arg pri ticks (Some base) sz entry autorun K_OBJ_DYN_ALLOC"
  shows "fst r = RHINO_SUCCESS \<and> task_change s t True base (snd r) \<or> fst r \<noteq> RHINO_SUCCESS \<and> fst r \<noteq> RHINO_STOPPED \<and> snd r = s"
proof (cases "name = None \<or> entry = None")
  case True
  then show ?thesis using assms by (auto simp: task_create_def split: option.splits)
next
  case False
  then obtain nm en where e: "name = Some nm" "entry = Some en" by auto
  define k where "k = task_init deathbed (Some nm) arg pri ticks base sz en autorun K_OBJ_DYN_ALLOC"
  have k: "task_kind (fst k) = (True, K_OBJ_DYN_ALLOC, base)"
    by (simp add: k_def task_init_def task_kind_def live_def Let_def split: option.split prod.split)
  have c: "task_change s t True base s'" if "kinds.same_as (upd_task s t (\<lambda>_. fst k)) s'" for s'
    by (rule task_change_then [OF _ that]) (simp add: task_change_def k)
  show ?thesis
    unfolding assms task_create_def e
    by (auto simp: k_def [symmetric] split_def Let_def upd_task_def add_trap_def core_sched_def cpu_task_switch_def
        intro!: c kinds.same_cong split: option.split)
qed

section \<open>Deletion of objects\<close>

definition deletes :: "kernel \<Rightarrow> oid \<Rightarrow> kobj_type_t \<Rightarrow> kstat \<times> kernel \<Rightarrow> bool" where
  "deletes s ob T r \<longleftrightarrow> (fst r = RHINO_SUCCESS \<and> dyn_objs s ob = T \<and> obj_change s ob RHINO_OBJ_TYPE_NONE (snd r)) \<or>
     (fst r \<noteq> RHINO_SUCCESS \<and> snd r = s)"

lemma obj_change_gone:
  "obj_mm_flag (blk s ob) = K_OBJ_DYN_ALLOC \<Longrightarrow> obj_change s ob RHINO_OBJ_TYPE_NONE (upd_blk s ob (\<lambda>b. b\<lparr>obj_type := RHINO_OBJ_TYPE_NONE\<rparr>))"
  by (simp add: obj_change_def obj_kind_def)

lemma object_deletes:
  "deletes s ob RHINO_SEM_OBJ_TYPE (krhino_sem_dyn_del s (Some ob))"
  "deletes s ob RHINO_MUTEX_OBJ_TYPE (krhino_mutex_dyn_del s (Some ob))"
  "deletes s ob RHINO_EVENT_OBJ_TYPE (krhino_event_dyn_del s (Some ob))"
  "deletes s ob RHINO_QUEUE_OBJ_TYPE (krhino_queue_dyn_del s (Some ob))"
  "deletes s ob RHINO_BUF_QUEUE_OBJ_TYPE (krhino_buf_queue_dyn_del s (Some ob))"
  by (auto simp: deletes_def krhino_sem_dyn_del_def krhino_mutex_dyn_del_def krhino_event_dyn_del_def krhino_queue_dyn_del_def
      krhino_buf_queue_dyn_del_def Let_def dyn_objs_def obj_part_def split: option.split
      intro!: obj_change_then [OF obj_change_gone] kinds.same_rest kinds.same_wake_all kinds.same_release kinds.same_refl)

lemma object_delete_good:
  assumes w: "kwf s" "act_inv s"
  shows "good s (snd (krhino_sem_dyn_del s o1))" "good s (snd (krhino_mutex_dyn_del s o1))" "good s (snd (krhino_event_dyn_del s o1))"
    "good s (snd (krhino_queue_dyn_del s o1))" "good s (snd (krhino_buf_queue_dyn_del s o1))"
  using sem_del_body_good [OF w] mutex_del_body_good [OF w] event_del_body_good [OF w] queue_del_body_good [OF w]
    buf_queue_del_body_good [OF w] good_refl [OF w]
  by (simp_all add: krhino_sem_dyn_del_def krhino_mutex_dyn_del_def krhino_event_dyn_del_def krhino_queue_dyn_del_def
      krhino_buf_queue_dyn_del_def Let_def split: option.split)

section \<open>Deletion of tasks\<close>

text \<open>The give that tells of the record, under the scheduler lock.\<close>

definition give_locked :: "kernel \<Rightarrow> oid \<Rightarrow> kstat \<times> kernel" where
  "give_locked s res_sem =
     (let (ret, s2) = krhino_sem_give (s\<lparr>g_sched_lock := g_sched_lock s + 1\<rparr>) (Some res_sem)
      in (ret, s2\<lparr>g_sched_lock := g_sched_lock s2 - 1\<rparr>))"

lemma core_sched_locked: "g_sched_lock s \<noteq> 0 \<Longrightarrow> core_sched s = s"
  by (simp add: core_sched_def word_gt_0)

lemma wakeup_frame:
  "g_active_task (pend_task_wakeup s t) = g_active_task s" "g_sched_lock (pend_task_wakeup s t) = g_sched_lock s"
  "g_intrpt_nested_level (pend_task_wakeup s t) = g_intrpt_nested_level s" "prio (tcb (pend_task_wakeup s t) u) = prio (tcb s u)"
  by (cases "task_state (tcb s t)"; simp add: pend_task_wakeup_def Let_def rq_add_def k_err_proc_def add_trap_def tick_list_rm_def)+

lemma give_locked_frame:
  assumes "g_sched_lock s \<noteq> - 1" "obj_type (blk s res_sem) = RHINO_SEM_OBJ_TYPE" "count (sems s res_sem) \<noteq> - 1"
  shows "fst (give_locked s res_sem) = RHINO_SUCCESS" "g_active_task (snd (give_locked s res_sem)) = g_active_task s"
    "g_sched_lock (snd (give_locked s res_sem)) = g_sched_lock s"
    "g_intrpt_nested_level (snd (give_locked s res_sem)) = g_intrpt_nested_level s"
    "prio (tcb (snd (give_locked s res_sem)) t) = prio (tcb s t)" "kinds.same_as s (snd (give_locked s res_sem))"
proof -
  let ?s = "s\<lparr>g_sched_lock := g_sched_lock s + 1\<rparr>"
  have l: "g_sched_lock s + 1 \<noteq> 0" using assms(1) by (metis add_eq_0_iff minus_equation_iff)
  have c: "core_sched (pend_task_wakeup ?s u) = pend_task_wakeup ?s u" for u by (rule core_sched_locked) (simp add: wakeup_frame l)
  have e: "give_locked s res_sem = (RHINO_SUCCESS, (case blk_list (blk s res_sem) of
      [] \<Rightarrow> let s1 = upd_sem ?s res_sem (\<lambda>m. m\<lparr>count := count m + 1\<rparr>);
               s2 = (if count (sems s1 res_sem) > peak_count (sems s1 res_sem)
                     then upd_sem s1 res_sem (\<lambda>m. m\<lparr>peak_count := count m\<rparr>) else s1) in s2\<lparr>g_sched_lock := g_sched_lock s2 - 1\<rparr>
    | u # _ \<Rightarrow> (pend_task_wakeup ?s u)\<lparr>g_sched_lock := g_sched_lock (pend_task_wakeup ?s u) - 1\<rparr>))"
    using assms by (auto simp: give_locked_def krhino_sem_give_def sem_give_def Let_def c split: list.split)
  show "fst (give_locked s res_sem) = RHINO_SUCCESS" by (simp add: e)
  show "g_active_task (snd (give_locked s res_sem)) = g_active_task s" "g_sched_lock (snd (give_locked s res_sem)) = g_sched_lock s"
    "g_intrpt_nested_level (snd (give_locked s res_sem)) = g_intrpt_nested_level s"
    "prio (tcb (snd (give_locked s res_sem)) t) = prio (tcb s t)"
    by (auto simp: e Let_def wakeup_frame split: list.split)
  show "kinds.same_as s (snd (give_locked s res_sem))"
    unfolding e Let_def snd_conv by (auto intro!: kinds.same_rest kinds.same_if kinds.same_wake kinds.same_refl split: list.split)
qed

lemma give_locked_good:
  assumes w: "kwf s" "act_inv s" and l: "g_sched_lock s \<noteq> - 1" and i: "g_intrpt_nested_level s = 0"
    and sem: "obj_type (blk s res_sem) = RHINO_SEM_OBJ_TYPE" "count (sems s res_sem) \<noteq> - 1"
  shows "good s (snd (give_locked s res_sem))"
proof -
  let ?s = "s\<lparr>g_sched_lock := g_sched_lock s + 1\<rparr>"
  have w1: "kwf ?s" by (rule kwf_processor [OF w(1)]) simp_all
  have a1: "act_inv ?s" using w(2) i by (auto simp: act_inv_def)
  define s2 where "s2 = snd (krhino_sem_give ?s (Some res_sem))"
  have g: "good ?s s2" using krhino_sem_give_good [OF w1 a1] by (simp add: s2_def)
  have e: "snd (give_locked s res_sem) = s2\<lparr>g_sched_lock := g_sched_lock s2 - 1\<rparr>" by (simp add: give_locked_def s2_def split_def Let_def)
  note f = give_locked_frame [OF l sem]
  have k: "kwf (snd (give_locked s res_sem))" unfolding e by (rule kwf_processor [of s2]) (use g in \<open>simp_all add: good_def\<close>)
  have "act_inv (snd (give_locked s res_sem))"
    using g f(2,3,4) i w(2) unfolding e by (auto simp: good_def act_inv_def)
  moreover have "traps_ok s (snd (give_locked s res_sem))"
    using g unfolding e by (simp add: good_def traps_ok_def waits_for_def all_listed_def)
  ultimately show ?thesis using k by (simp add: good_def)
qed

text \<open>What the deletion of a live task leaves: its record is written and listed, the memory task told, the task gone.\<close>

definition res_written :: "heap \<Rightarrow> u32 \<Rightarrow> tid \<Rightarrow> heap" where
  "res_written h base t =
     (let r = base + 4 * RHINO_CONFIG_STK_CHK_WORDS;
          h3 = store (store (store h (cnt_at r) 0) (res_at r 0) base) (res_at r 1) (of_nat t)
      in store h3 (cnt_at r) (word_at h3 (cnt_at r) + 2))"

definition steady :: "kernel \<Rightarrow> kernel \<Rightarrow> bool" where
  "steady s s' \<longleftrightarrow> kwf s' \<and> act_inv s' \<and> (\<exists>n. traps s' = traps s @ replicate n Diverged)"

lemma good_steady: "good s s' \<Longrightarrow> steady s s'"
  by (auto simp: good_def steady_def traps_ok_def)

lemma steady_refl: "kwf s \<Longrightarrow> act_inv s \<Longrightarrow> steady s s"
  by (auto simp: steady_def intro: exI [of _ 0])

lemma steady_trans: "steady s s1 \<Longrightarrow> steady s1 s2 \<Longrightarrow> steady s s2"
  by (auto simp: steady_def replicate_add [symmetric])

lemma task_dead_change:
  assumes "live (tcb s t)" "task_mm_flag (tcb s t) = K_OBJ_DYN_ALLOC"
  shows "task_change s t False (task_stack_base (tcb s t)) (core_sched (unlist t (task_dead s t)))"
proof -
  have d: "task_change s t False (task_stack_base (tcb s t)) (dead s1 t)" if k: "kinds.same_as s s1" for s1
  proof (rule then_task_change [OF k])
    have "task_kind (tcb s1 t) = task_kind (tcb s t)" using k by (simp add: kinds.same_as_def)
    then show "task_change s1 t False (task_stack_base (tcb s t)) (dead s1 t)"
      using assms by (simp add: task_change_def dead_def task_kind_def) (simp add: live_def)
  qed
  let ?tc = "task_change s t False (task_stack_base (tcb s t))"
  let ?f = "task_mutex_free s t"
  have f: "kinds.same_as s ?f" by (rule kinds.same_mutex_free) simp
  have 1: "?tc (dead (rq_rm ?f t) t)" by (rule d [OF kinds.same_rest(1) [OF f]])
  have 2: "?tc (dead (blk_list_rm (tick_list_rm ?f t) t) t)"
    by (rule d [OF kinds.same_blk_list_rm [OF kinds.same_tick(1) [OF f]]])
  have 3: "?tc (mutex_task_pri_reset (dead (blk_list_rm (tick_list_rm ?f t) t) t) t)"
    by (rule task_change_then [OF 2 kinds.same_release(2)]) simp
  have "?tc (task_dead s t)" using 1 2 3 by (simp add: task_dead_def Let_def)
  then show ?thesis unfolding unlist_def by (rule task_change_then) (auto intro!: kinds.same_rest kinds.same_refl)
qed

lemma krhino_task_dyn_del_effect:
  assumes w: "kwf (krn d)" "act_inv (krn d)" and lv: "\<And>t. task = Some t \<Longrightarrow> live (tcb (krn d) t)"
    and l: "g_sched_lock (krn d) \<noteq> - 1"
    and sem: "obj_type (blk (krn d) res_sem) = RHINO_SEM_OBJ_TYPE" "count (sems (krn d) res_sem) \<noteq> - 1"
    and r: "krhino_task_dyn_del res_sem d task = (ret, d')"
  obtains "ret \<noteq> RHINO_SUCCESS" "d' = d"
    | t base where "ret = RHINO_SUCCESS" "t = (case task of None \<Rightarrow> g_active_task (krn d) | Some t \<Rightarrow> t)"
      "dyn_tasks (krn d) t = Some base" "task_change (krn d) t False base (krn d')" "steady (krn d) (krn d')"
      "d' = d\<lparr>krn := krn d', kmm := res_written (kmm d) base t, g_res_list := g_res_list d @ [base + 4 * RHINO_CONFIG_STK_CHK_WORDS]\<rparr>"
proof -
  define s where "s = krn d"
  define t where "t = (case task of None \<Rightarrow> g_active_task s | Some t \<Rightarrow> t)"
  define base where "base = task_stack_base (tcb s t)"
  define s3 where "s3 = snd (give_locked s res_sem)"
  note w' = w [folded s_def] and l' = l [folded s_def] and sem' = sem [folded s_def]
  have lt: "live (tcb s t)" using active_live [OF w'(2)] lv by (auto simp: t_def s_def split: option.split)
  show thesis
  proof (cases "g_intrpt_nested_level s > 0 \<or> prio (tcb s t) = RHINO_IDLE_PRI \<or> task_mm_flag (tcb s t) \<noteq> K_OBJ_DYN_ALLOC \<or>
      t = g_active_task s \<and> g_sched_lock s > 0")
    case True
    then have "ret \<noteq> RHINO_SUCCESS \<and> d' = d"
      using r unfolding krhino_task_dyn_del_def Let_def s_def [symmetric] t_def [symmetric] by (auto split: if_splits)
    then show thesis using that(1) by simp
  next
    case False
    then have c: "g_intrpt_nested_level s = 0" "prio (tcb s t) \<noteq> RHINO_IDLE_PRI" "task_mm_flag (tcb s t) = K_OBJ_DYN_ALLOC"
      "t = g_active_task s \<Longrightarrow> g_sched_lock s = 0" by (auto simp: word_gt_0)
    note f = give_locked_frame [OF l' sem', folded s3_def] and g = give_locked_good [OF w' l' c(1) sem', folded s3_def]
    have k3: "task_kind (tcb s3 t) = task_kind (tcb s t)" using f(6) by (simp add: kinds.same_as_def)
    then have t3: "live (tcb s3 t)" "task_mm_flag (tcb s3 t) = K_OBJ_DYN_ALLOC" "task_stack_base (tcb s3 t) = base"
      using lt c(3) by (simp_all add: task_kind_def base_def)
    define s4 where "s4 = core_sched (unlist t (task_dead s3 t))"
    have w3: "kwf s3" "act_inv s3" using g by (simp_all add: good_def)
    have g4: "good s3 s4" unfolding s4_def
      by (rule task_dead_good [OF w3 t3(1)]) (use f c in simp_all)
    have ch: "task_change s t False base s4"
      unfolding s4_def by (rule then_task_change [OF f(6) task_dead_change [OF t3(1,2), unfolded t3(3)]])
    have st: "steady s s4" by (rule steady_trans [OF good_steady [OF g] good_steady [OF g4]])
    obtain rs ss where gl: "krhino_sem_give (s\<lparr>g_sched_lock := g_sched_lock s + 1\<rparr>) (Some res_sem) = (rs, ss)" by fastforce
    have rs: "rs = RHINO_SUCCESS" "s3 = ss\<lparr>g_sched_lock := g_sched_lock ss - 1\<rparr>"
      using f(1) gl by (simp_all add: give_locked_def s3_def)
    have nd: "task_state (tcb s t) \<noteq> K_DELETED" using lt by (simp add: live_def)
    define d1 where "d1 = d\<lparr>kmm := res_written (kmm d) base t, g_res_list := g_res_list d @ [base + 4 * RHINO_CONFIG_STK_CHK_WORDS]\<rparr>"
    define F where "F s' = (RHINO_SUCCESS, d1\<lparr>krn := core_sched (unlist t s')\<rparr>)" for s'
    have "krhino_task_dyn_del res_sem d task =
       (case task_state (tcb (task_mutex_free s3 t) t) of
          K_RDY \<Rightarrow> F (dead (rq_rm (task_mutex_free s3 t) t) t)
        | K_SUSPENDED \<Rightarrow> F (dead (task_mutex_free s3 t) t)
        | K_SLEEP \<Rightarrow> F (dead (tick_list_rm (task_mutex_free s3 t) t) t)
        | K_SLEEP_SUSPENDED \<Rightarrow> F (dead (tick_list_rm (task_mutex_free s3 t) t) t)
        | K_PEND \<Rightarrow> F (mutex_task_pri_reset (dead (blk_list_rm (tick_list_rm (task_mutex_free s3 t) t) t) t) t)
        | K_PEND_SUSPENDED \<Rightarrow> F (mutex_task_pri_reset (dead (blk_list_rm (tick_list_rm (task_mutex_free s3 t) t) t) t) t)
        | _ \<Rightarrow> F (task_mutex_free s3 t))"
      unfolding krhino_task_dyn_del_def Let_def s_def [symmetric] t_def [symmetric]
      using c nd gl rs
      by (simp add: F_def d1_def res_written_def Let_def unlist_def dead_def base_def split: task_stat_t.split)
    also have "\<dots> = F (task_dead s3 t)" by (rule task_dead_cases [OF w3(1) t3(1)])
    finally have e: "ret = RHINO_SUCCESS" "d' = d1\<lparr>krn := s4\<rparr>" using r by (simp_all add: F_def s4_def)
    show thesis
    proof (rule that(2) [of t base])
      show "ret = RHINO_SUCCESS" by (rule e(1))
      show "t = (case task of None \<Rightarrow> g_active_task (krn d) | Some t \<Rightarrow> t)" by (simp add: t_def s_def split: option.split)
      show "dyn_tasks (krn d) t = Some base" using lt c(3) by (simp add: dyn_tasks_def dyn_part_def base_def s_def)
      show "task_change (krn d) t False base (krn d')" "steady (krn d) (krn d')" using ch st e by (simp_all add: s_def)
      show "d' = d\<lparr>krn := krn d', kmm := res_written (kmm d) base t, g_res_list := g_res_list d @ [base + 4 * RHINO_CONFIG_STK_CHK_WORDS]\<rparr>"
        using e by (simp add: d1_def)
    qed
  qed
qed

end
