(* ===== verification/Dyn_Heap.thy ===== *)
theory Dyn_Heap
  imports Dyn_Ops
begin

text \<open>
  The heap as the services on heap objects use it: what they allocate and release in the abstract heap of theory
  \<open>Mm_Api\<close>, and the accounting by which every buffer has one holder.
\<close>

section \<open>Buffers\<close>

text \<open>A pointer is a multiple of 8 and not NULL, its buffer has eight words at least.\<close>

lemma shows_place:
  assumes "heap_shows h M" "M q = Some xs"
  shows "8 dvd unat q" "q \<noteq> 0" "8 \<le> length xs"
proof -
  obtain B E S where a: "heap_ok h B E" "pool_ok h (used_blocks h B) S" "M = view h (used_blocks h B) S"
    using assms(1) by (auto simp: heap_shows_def)
  note t = heap_ok_parts(2) [OF a(1)]
  obtain b i where b: "b \<in> used_blocks h B" "q = fld b i" "16 \<le> i" "i + 4 * length xs \<le> 16 + unat (MM_GET_BUF_SIZE h b)"
    "q \<notin> S \<longrightarrow> i = 16 \<and> fix_pool h \<noteq> buf_of b" "q \<in> S \<longrightarrow> length xs = 8 \<and> pool_at h b S \<and> (\<exists>j < 256. i = 56 + 32 * j)"
    by (rule live_place [OF a(1,2) assms(2) [unfolded a(3)]])
  have bB: "b \<in> B" using b(1) by (simp add: used_blocks_def)
  note tb = tiled_block [OF t bB]
  have "unat q = unat b + i" unfolding b(2) fld_def using tb(4) b(4) by (simp add: unat_word_ariths unat_of_nat)
  moreover have "8 dvd unat b" using tb(1) by (simp add: aligned_dvd)
  moreover have "8 dvd i" using b(5,6) by (cases "q \<in> S") auto
  ultimately show "8 dvd unat q" by simp
  show "8 \<le> length xs" using view_place(2) [OF a(1,2) assms(2) [unfolded a(3)]] by auto
  have "unat b \<noteq> 0" using tb(7) unat_eq_0 by metis
  then show "q \<noteq> 0" using \<open>unat q = unat b + i\<close> by auto
qed

context buffer_heap
begin

lemma alloc:
  assumes "sees h M" "exec (Alloc n) h = (q, h')"
  obtains "q = 0" "sees h' M" | xs where "q \<noteq> 0" "M q = None" "unat (asked n) \<le> 4 * length xs" "sees h' (M(q \<mapsto> xs))"
  using step [OF assms(1) _ assms(2)] by (auto elim!: alloc_stepE)

lemma release:
  assumes "sees h M" "M q \<noteq> None"
  shows "sees (snd (exec (Free q) h)) (M(q := None))"
  using step [OF assms(1), of "Free q" "fst (exec (Free q) h)" "snd (exec (Free q) h)"] assms(2) by (auto elim!: free_stepE)

lemma overwrite:
  assumes "sees h M" "M q = Some xs" "k < length xs"
  shows "sees (snd (exec (Write q k v) h)) (M(q \<mapsto> xs[k := v]))"
  using step [OF assms(1), of "Write q k v" "fst (exec (Write q k v) h)" "snd (exec (Write q k v) h)"] assms(2,3)
  by (auto elim!: write_stepE)

end

text \<open>The kernel state with the heap.\<close>

lemma dyn_alloc_cases:
  assumes "heap_shows (kmm d) M" "dyn_alloc ra d n = (q, d')"
  obtains "q = 0" "heap_shows (kmm d') M" "d' = d\<lparr>kmm := kmm d'\<rparr>"
    | xs where "q \<noteq> 0" "M q = None" "unat (asked n) \<le> 4 * length xs" "heap_shows (kmm d') (M(q \<mapsto> xs))" "d' = d\<lparr>kmm := kmm d'\<rparr>"
proof -
  obtain h where h: "krhino_mm_alloc ra (kmm d) n = (q, h)" "d' = d\<lparr>kmm := h\<rparr>" using assms(2) by (auto simp: dyn_alloc_def split: prod.splits)
  have "krhino_heap ra (Alloc n) (kmm d) = (q, h)" by (simp add: krhino_heap_def h(1))
  then show thesis by (rule kheap.alloc [OF assms(1)]) (use that h(2) in auto)
qed

lemma dyn_free_shows: "heap_shows (kmm d) M \<Longrightarrow> M q \<noteq> None \<Longrightarrow> heap_shows (kmm (dyn_free d q)) (M(q := None))"
  using kheap.release [of "kmm d" M q] by (simp add: krhino_heap_def)

lemma dyn_free_state: "dyn_free d q = d\<lparr>kmm := kmm (dyn_free d q)\<rparr>"
  by (simp add: dyn_free_def)

lemma foldl_free_state: "foldl dyn_free d ps = d\<lparr>kmm := kmm (foldl dyn_free d ps)\<rparr>"
proof -
  have "\<exists>h. foldl dyn_free d ps = d\<lparr>kmm := h\<rparr>"
  proof (induction ps arbitrary: d)
    case Nil
    have "d = d\<lparr>kmm := kmm d\<rparr>" by simp
    then show ?case by (metis foldl_Nil)
  next
    case (Cons p ps)
    obtain h where "foldl dyn_free (dyn_free d p) ps = (dyn_free d p)\<lparr>kmm := h\<rparr>" using Cons by blast
    moreover have "(dyn_free d p)\<lparr>kmm := h\<rparr> = d\<lparr>kmm := h\<rparr>" by (simp add: dyn_free_def)
    ultimately show ?case by auto
  qed
  then show ?thesis by auto
qed

lemma free_list_shows:
  assumes "heap_shows (kmm d) M" "distinct ps" "\<And>p. p \<in> set ps \<Longrightarrow> M p \<noteq> None"
  shows "heap_shows (kmm (foldl dyn_free d ps)) (M |` (- set ps))"
  using assms
proof (induction ps arbitrary: d M)
  case (Cons p ps)
  have "heap_shows (kmm (dyn_free d p)) (M(p := None))" by (rule dyn_free_shows) (use Cons.prems in simp_all)
  then have "heap_shows (kmm (foldl dyn_free (dyn_free d p) ps)) ((M(p := None)) |` (- set ps))"
    by (rule Cons.IH) (use Cons.prems in auto)
  moreover have "(M(p := None)) |` (- set ps) = M |` (- set (p # ps))" by (auto simp: restrict_map_def fun_eq_iff)
  ultimately show ?case by simp
qed (simp add: restrict_map_def)

text \<open>Two allocations, and what the releases after a failure leave.\<close>

lemma alloc_then_free: "M q = None \<Longrightarrow> heap_shows (kmm d) (M(q \<mapsto> xs)) \<Longrightarrow> heap_shows (kmm (dyn_free d q)) M"
  using dyn_free_shows [of d "M(q \<mapsto> xs)" q] by (simp add: fun_upd_idem)

lemma alloc_two:
  assumes sh: "heap_shows (kmm d) M" and a: "dyn_alloc ra1 d n1 = (p, d1)" "dyn_alloc ra2 d1 n2 = (q, d2)" and nz: "p \<noteq> 0"
  obtains "q = 0" "heap_shows (kmm (dyn_free d2 p)) M" "d2 = d\<lparr>kmm := kmm d2\<rparr>"
    | xs ys where "q \<noteq> 0" "p \<noteq> q" "M p = None" "M q = None" "unat (asked n1) \<le> 4 * length xs" "unat (asked n2) \<le> 4 * length ys"
      "heap_shows (kmm d2) (M(p \<mapsto> xs, q \<mapsto> ys))" "heap_shows (kmm (dyn_free (dyn_free d2 q) p)) M" "d2 = d\<lparr>kmm := kmm d2\<rparr>"
proof (rule dyn_alloc_cases [OF sh a(1)])
  assume "p = 0" then show thesis using nz by simp
next
  fix xs assume p: "M p = None" "unat (asked n1) \<le> 4 * length xs" "heap_shows (kmm d1) (M(p \<mapsto> xs))" "d1 = d\<lparr>kmm := kmm d1\<rparr>"
  have st: "d2 = d\<lparr>kmm := kmm d2\<rparr>" if "d2 = d1\<lparr>kmm := kmm d2\<rparr>" using that p(4) by (metis dsys.update_convs(1) dsys.surjective)
  show thesis
  proof (rule dyn_alloc_cases [OF p(3) a(2)])
    assume q: "q = 0" "heap_shows (kmm d2) (M(p \<mapsto> xs))" "d2 = d1\<lparr>kmm := kmm d2\<rparr>"
    then show thesis using that(1) alloc_then_free p(1) st by blast
  next
    fix ys assume q: "q \<noteq> 0" "(M(p \<mapsto> xs)) q = None" "unat (asked n2) \<le> 4 * length ys" "heap_shows (kmm d2) (M(p \<mapsto> xs, q \<mapsto> ys))"
      "d2 = d1\<lparr>kmm := kmm d2\<rparr>"
    have "p \<noteq> q" "M q = None" using q(2) by (auto split: if_splits)
    then show thesis using that(2) [OF q(1) _ p(1) _ p(2) q(3,4) alloc_then_free [OF p(1) alloc_then_free [OF q(2,4)]] st [OF q(5)]] by blast
  qed
qed

section \<open>Accounts\<close>

text \<open>Every buffer has one holder, and every holder lists its buffers once.\<close>

definition accounts :: "(u32 \<Rightarrow> u32 list option) \<Rightarrow> ('x \<Rightarrow> u32 list) \<Rightarrow> bool" where
  "accounts M H \<longleftrightarrow> (\<forall>p. M p \<noteq> None \<longleftrightarrow> (\<exists>x. p \<in> set (H x))) \<and>
     (\<forall>x y p. p \<in> set (H x) \<longrightarrow> p \<in> set (H y) \<longrightarrow> x = y) \<and> (\<forall>x. distinct (H x))"

lemma accounts_held: "accounts M H \<Longrightarrow> p \<in> set (H x) \<Longrightarrow> M p \<noteq> None"
  unfolding accounts_def by blast

lemma accounts_distinct: "accounts M H \<Longrightarrow> distinct (H x)"
  by (simp add: accounts_def)

lemma accounts_one: "accounts M H \<Longrightarrow> p \<in> set (H x) \<Longrightarrow> p \<in> set (H y) \<Longrightarrow> x = y"
  unfolding accounts_def by blast

lemma accounts_dom: "accounts M H \<Longrightarrow> (\<And>p. M' p = None \<longleftrightarrow> M p = None) \<Longrightarrow> accounts M' H"
  by (simp add: accounts_def)

lemma accounts_gain:
  assumes a: "accounts M H" and "H x = []" "distinct ps" "\<And>p. p \<in> set ps \<Longrightarrow> M p = None"
    and M': "\<And>p. M' p = None \<longleftrightarrow> M p = None \<and> p \<notin> set ps"
  shows "accounts M' (H(x := ps))"
  unfolding accounts_def
proof (intro conjI allI impI)
  have d: "p \<notin> set (H y)" if "p \<in> set ps" for p y using accounts_held [OF a, of p y] assms(4) [OF that] by auto
  have s: "p \<in> set ((H(x := ps)) y) \<longleftrightarrow> (if y = x then p \<in> set ps else p \<in> set (H y))" for p y by simp
  show "M' p \<noteq> None \<longleftrightarrow> (\<exists>y. p \<in> set ((H(x := ps)) y))" for p
  proof -
    have "(\<exists>y. p \<in> set ((H(x := ps)) y)) \<longleftrightarrow> p \<in> set ps \<or> (\<exists>y. p \<in> set (H y))"
      unfolding s using assms(2) by (metis empty_iff empty_set)
    then show ?thesis using a M' [of p] by (auto simp: accounts_def)
  qed
  show "y = z" if "p \<in> set ((H(x := ps)) y)" "p \<in> set ((H(x := ps)) z)" for p y z
    using that d [of p] accounts_one [OF a, of p y z] by (auto split: if_splits)
  show "distinct ((H(x := ps)) y)" for y using accounts_distinct [OF a] assms(3) by simp
qed

lemma accounts_lose:
  assumes a: "accounts M H"
  shows "accounts (M |` (- set (H x))) (H(x := []))"
  unfolding accounts_def
proof (intro conjI allI impI)
  have s: "p \<in> set ((H(x := [])) y) \<longleftrightarrow> y \<noteq> x \<and> p \<in> set (H y)" for p y by simp
  show "(M |` (- set (H x))) p \<noteq> None \<longleftrightarrow> (\<exists>y. p \<in> set ((H(x := [])) y))" for p
  proof -
    have "(\<exists>y. y \<noteq> x \<and> p \<in> set (H y)) \<longleftrightarrow> p \<notin> set (H x) \<and> (\<exists>y. p \<in> set (H y))"
      using accounts_one [OF a, of p x] by metis
    then show ?thesis unfolding s using a by (simp add: accounts_def restrict_map_def)
  qed
  show "y = z" if "p \<in> set ((H(x := [])) y)" "p \<in> set ((H(x := [])) z)" for p y z
    using that accounts_one [OF a, of p y z] by (simp only: s)
  show "distinct ((H(x := [])) y)" for y using accounts_distinct [OF a] by simp
qed

lemma accounts_pass:
  assumes a: "accounts M H" and n: "H y = []" "x \<noteq> y"
  shows "accounts M (H(x := [], y := H x))"
  unfolding accounts_def
proof (intro conjI allI impI)
  let ?H = "H(x := [], y := H x)"
  have s: "p \<in> set (?H z) \<longleftrightarrow> (if z = y then p \<in> set (H x) else z \<noteq> x \<and> p \<in> set (H z))" for p z by simp
  show "M p \<noteq> None \<longleftrightarrow> (\<exists>z. p \<in> set (?H z))" for p
  proof -
    have "(\<exists>z. p \<in> set (?H z)) \<longleftrightarrow> (\<exists>z. p \<in> set (H z))"
      unfolding s using n by (metis empty_iff empty_set)
    then show ?thesis using a by (simp add: accounts_def)
  qed
  show "z = z'" if "p \<in> set (?H z)" "p \<in> set (?H z')" for p z z'
    using that n accounts_one [OF a] unfolding s by (metis empty_iff empty_set)
  show "distinct (?H z)" for z using accounts_distinct [OF a] by simp
qed

end
