(* ===== verification/Dyn_World.thy ===== *)
theory Dyn_World
  imports Dyn_Heap Kernel_Steps
begin

text \<open>
  The kernel with its heap as a state machine: one step is a service of theory \<open>Kernel_Steps\<close>, the creation or one
  half of the deletion of an object or task on the heap, a turn of the task that releases memory, or a call of the
  heap by the application. The invariant: every buffer of the heap has one holder.
\<close>

section \<open>States\<close>

text \<open>\<open>mine\<close> are the buffers that the application has asked for itself, with their sizes; \<open>deleting\<close> are
  the objects between the two halves of their deletion, with their types.\<close>

record world =
  ds :: dsys
  mine :: "u32 \<Rightarrow> nat option"
  deleting :: "oid \<Rightarrow> kobj_type_t"

text \<open>The buffers of an object, in the order of their release.\<close>

definition obj_bufs :: "dsys \<Rightarrow> kobj_type_t \<Rightarrow> oid \<Rightarrow> u32 list" where
  "obj_bufs d T ob =
     (if T = RHINO_OBJ_TYPE_NONE then []
      else if T = RHINO_QUEUE_OBJ_TYPE then [queue_start d ob, of_nat ob]
      else if T = RHINO_BUF_QUEUE_OBJ_TYPE then [bq_buf d ob, of_nat ob] else [of_nat ob])"

text \<open>Who can hold a buffer, and what each holds. The record of a release lies in the stack that it lists.\<close>

datatype holder = Client u32 | Object oid | Deleting oid | Task tid | Release u32

fun holds :: "world \<Rightarrow> (u32 \<Rightarrow> u32 list option) \<Rightarrow> holder \<Rightarrow> u32 list" where
  "holds w M (Client p) = (if mine w p = None then [] else [p])"
| "holds w M (Object ob) = obj_bufs (ds w) (dyn_objs (krn (ds w)) ob) ob"
| "holds w M (Deleting ob) = obj_bufs (ds w) (deleting w ob) ob"
| "holds w M (Task t) = (case dyn_tasks (krn (ds w)) t of None \<Rightarrow> [] | Some base \<Rightarrow> [base, of_nat t])"
| "holds w M (Release r) = (if r \<in> set (g_res_list (ds w)) then [r - 4, the (M (r - 4)) ! 3] else [])"

text \<open>What is not on the heap has a name that is no address of the heap.\<close>

definition static_name :: "nat \<Rightarrow> bool" where
  "static_name n \<longleftrightarrow> n mod 8 \<noteq> 0"

definition static_obj :: "kernel \<Rightarrow> oid \<Rightarrow> bool" where
  "static_obj s ob \<longleftrightarrow> obj_type (blk s ob) \<noteq> RHINO_OBJ_TYPE_NONE \<and> obj_mm_flag (blk s ob) \<noteq> K_OBJ_DYN_ALLOC"

definition static_task :: "kernel \<Rightarrow> tid \<Rightarrow> bool" where
  "static_task s t \<longleftrightarrow> live (tcb s t) \<and> task_mm_flag (tcb s t) \<noteq> K_OBJ_DYN_ALLOC"

definition statics_ok :: "kernel \<Rightarrow> bool" where
  "statics_ok s \<longleftrightarrow> (\<forall>ob. static_obj s ob \<longrightarrow> static_name ob) \<and> (\<forall>t. static_task s t \<longrightarrow> static_name t)"

definition records_ok :: "(u32 \<Rightarrow> u32 list option) \<Rightarrow> u32 list \<Rightarrow> bool" where
  "records_ok M rs \<longleftrightarrow> distinct rs \<and> (\<forall>r \<in> set rs. \<exists>ws. M (r - 4) = Some ws \<and> ws ! 1 = 2 \<and> ws ! 2 = r - 4)"

definition sizes_ok :: "(u32 \<Rightarrow> u32 list option) \<Rightarrow> (u32 \<Rightarrow> nat option) \<Rightarrow> bool" where
  "sizes_ok M m \<longleftrightarrow> (\<forall>p n. m p = Some n \<longrightarrow> (\<exists>ws. M p = Some ws \<and> n \<le> 4 * length ws))"

definition heap_view :: "world \<Rightarrow> (u32 \<Rightarrow> u32 list option) \<Rightarrow> bool" where
  "heap_view w M \<longleftrightarrow> heap_shows (kmm (ds w)) M \<and> accounts M (holds w M) \<and> records_ok M (g_res_list (ds w)) \<and> sizes_ok M (mine w)"

definition kernel_ok :: "kernel \<Rightarrow> bool" where
  "kernel_ok s \<longleftrightarrow> kwf s \<and> act_inv s \<and> statics_ok s"

definition world_ok :: "world \<Rightarrow> bool" where
  "world_ok w \<longleftrightarrow> kernel_ok (krn (ds w)) \<and> (\<exists>M. heap_view w M)"

section \<open>Steps\<close>

text \<open>The results of the first half of a deletion: the object is gone, its memory not yet.\<close>

definition begun :: "world \<Rightarrow> oid \<Rightarrow> kobj_type_t \<Rightarrow> kstat \<times> kernel \<Rightarrow> world" where
  "begun w ob T r = w\<lparr>ds := (ds w)\<lparr>krn := snd r\<rparr>, deleting := (if fst r = RHINO_SUCCESS then (deleting w)(ob := T) else deleting w)\<rparr>"

definition ended :: "world \<Rightarrow> oid \<Rightarrow> kstat \<times> dsys \<Rightarrow> world" where
  "ended w ob r = w\<lparr>ds := snd r, deleting := (deleting w)(ob := RHINO_OBJ_TYPE_NONE)\<rparr>"

text \<open>The premises are what callers owe the services: a task or object that is not on the heap has a name of its
  own; sizes do not use the bit that the heap takes for a flag; a new task has a stack for its first frame; a task to be
  deleted exists and \<open>res_sem\<close>, the semaphore of the task that releases memory, is there and has room.\<close>

inductive dyn_step :: "world \<Rightarrow> world \<Rightarrow> bool" where
  service: "kernel_step (krn (ds w)) s' \<Longrightarrow> \<forall>ob. static_obj s' ob \<longrightarrow> static_obj (krn (ds w)) ob \<or> static_name ob \<Longrightarrow>
    \<forall>t. static_task s' t \<longrightarrow> static_task (krn (ds w)) t \<or> static_name t \<Longrightarrow> dyn_step w (w\<lparr>ds := (ds w)\<lparr>krn := s'\<rparr>\<rparr>)"
| mm_alloc: "dyn_alloc ra (ds w) n = (p, d') \<Longrightarrow>
    dyn_step w (w\<lparr>ds := d', mine := (if p = 0 then mine w else (mine w)(p \<mapsto> unat (asked n)))\<rparr>)"
| mm_free: "mine w p \<noteq> None \<Longrightarrow> dyn_step w (w\<lparr>ds := dyn_free (ds w) p, mine := (mine w)(p := None)\<rparr>)"
| mm_store: "mine w p = Some n \<Longrightarrow> 4 * k < n \<Longrightarrow>
    dyn_step w (w\<lparr>ds := (ds w)\<lparr>kmm := store (kmm (ds w)) (p + 4 * of_nat k) v\<rparr>\<rparr>)"
| sem_create: "krhino_sem_dyn_create ra (ds w) null name cnt = (ret, ob, d') \<Longrightarrow> dyn_step w (w\<lparr>ds := d'\<rparr>)"
| mutex_create: "krhino_mutex_dyn_create ra (ds w) null name = (ret, ob, d') \<Longrightarrow> dyn_step w (w\<lparr>ds := d'\<rparr>)"
| event_create: "krhino_event_dyn_create ra (ds w) null name flags = (ret, ob, d') \<Longrightarrow> dyn_step w (w\<lparr>ds := d'\<rparr>)"
| queue_create: "unat msg_num * 4 < 2 ^ 31 \<Longrightarrow> krhino_queue_dyn_create ra ra' (ds w) null name msg_num = (ret, ob, d') \<Longrightarrow>
    dyn_step w (w\<lparr>ds := d'\<rparr>)"
| buf_queue_create: "unat sz < 2 ^ 31 \<Longrightarrow> krhino_buf_queue_dyn_create ra ra' (ds w) null name sz max_msg = (ret, ob, d') \<Longrightarrow>
    dyn_step w (w\<lparr>ds := d'\<rparr>)"
| fix_buf_queue_create: "unat (msg_size * msg_num) < 2 ^ 31 \<Longrightarrow>
    krhino_fix_buf_queue_dyn_create ra ra' (ds w) null name msg_size msg_num = (ret, ob, d') \<Longrightarrow> dyn_step w (w\<lparr>ds := d'\<rparr>)"
| task_create: "18 \<le> unat stack \<Longrightarrow> unat stack * 4 < 2 ^ 31 \<Longrightarrow> pri = RHINO_IDLE_PRI \<longrightarrow> autorun > 0 \<Longrightarrow>
    krhino_task_dyn_create deathbed ra ra' (ds w) null name arg pri ticks stack entry autorun = (ret, t, d') \<Longrightarrow> dyn_step w (w\<lparr>ds := d'\<rparr>)"
| sem_del: "dyn_step w (begun w ob RHINO_SEM_OBJ_TYPE (krhino_sem_dyn_del (krn (ds w)) (Some ob)))"
| mutex_del: "dyn_step w (begun w ob RHINO_MUTEX_OBJ_TYPE (krhino_mutex_dyn_del (krn (ds w)) (Some ob)))"
| event_del: "dyn_step w (begun w ob RHINO_EVENT_OBJ_TYPE (krhino_event_dyn_del (krn (ds w)) (Some ob)))"
| queue_del: "dyn_step w (begun w ob RHINO_QUEUE_OBJ_TYPE (krhino_queue_dyn_del (krn (ds w)) (Some ob)))"
| buf_queue_del: "dyn_step w (begun w ob RHINO_BUF_QUEUE_OBJ_TYPE (krhino_buf_queue_dyn_del (krn (ds w)) (Some ob)))"
| del_end: "deleting w ob \<in> {RHINO_SEM_OBJ_TYPE, RHINO_MUTEX_OBJ_TYPE, RHINO_EVENT_OBJ_TYPE} \<Longrightarrow>
    dyn_step w (ended w ob (dyn_del_end (ds w) ob))"
| queue_del_end: "deleting w ob = RHINO_QUEUE_OBJ_TYPE \<Longrightarrow> dyn_step w (ended w ob (krhino_queue_dyn_del_end (ds w) ob))"
| buf_queue_del_end: "deleting w ob = RHINO_BUF_QUEUE_OBJ_TYPE \<Longrightarrow> dyn_step w (ended w ob (krhino_buf_queue_dyn_del_end (ds w) ob))"
| task_del: "\<forall>t. task = Some t \<longrightarrow> live (tcb (krn (ds w)) t) \<Longrightarrow> g_sched_lock (krn (ds w)) \<noteq> - 1 \<Longrightarrow>
    obj_type (blk (krn (ds w)) res_sem) = RHINO_SEM_OBJ_TYPE \<Longrightarrow> count (sems (krn (ds w)) res_sem) \<noteq> - 1 \<Longrightarrow>
    krhino_task_dyn_del res_sem (ds w) task = (ret, d') \<Longrightarrow> dyn_step w (w\<lparr>ds := d'\<rparr>)"
| mem_proc: "dyn_mem_proc_turn (ds w) = Some d' \<Longrightarrow> dyn_step w (w\<lparr>ds := d'\<rparr>)"

inductive dyn_runs :: "world \<Rightarrow> world \<Rightarrow> bool" where
  dyn_start: "dyn_runs w w"
| dyn_more: "dyn_runs w w1 \<Longrightarrow> dyn_step w1 w2 \<Longrightarrow> dyn_runs w w2"

section \<open>The kernel's part\<close>

lemma kernel_ok_steady:
  assumes "kernel_ok s" "steady s s'" "\<And>ob. static_obj s' ob \<Longrightarrow> static_obj s ob \<or> static_name ob"
    "\<And>t. static_task s' t \<Longrightarrow> static_task s t \<or> static_name t"
  shows "kernel_ok s'"
  using assms by (auto simp: kernel_ok_def steady_def statics_ok_def)

lemma kernel_ok_obj: "kernel_ok s \<Longrightarrow> steady s s' \<Longrightarrow> obj_change s ob T s' \<Longrightarrow> kernel_ok s'"
  by (erule (1) kernel_ok_steady) (use obj_change_dyn in \<open>auto simp: static_obj_def static_task_def\<close>)

lemma kernel_ok_task: "kernel_ok s \<Longrightarrow> steady s s' \<Longrightarrow> task_change s t lv base s' \<Longrightarrow> kernel_ok s'"
  by (erule (1) kernel_ok_steady) (use task_change_dyn in \<open>auto simp: static_obj_def static_task_def\<close>)

section \<open>The heap's part\<close>

text \<open>Buffers that hold records stay as they are.\<close>

definition keeps_records :: "world \<Rightarrow> (u32 \<Rightarrow> u32 list option) \<Rightarrow> (u32 \<Rightarrow> u32 list option) \<Rightarrow> bool" where
  "keeps_records w M M' \<longleftrightarrow> (\<forall>r \<in> set (g_res_list (ds w)). M' (r - 4) = M (r - 4))"

lemma holds_frame: "keeps_records w M M' \<Longrightarrow> holds w M' = holds w M"
proof
  fix x
  show "keeps_records w M M' \<Longrightarrow> holds w M' x = holds w M x" by (cases x) (simp_all add: keeps_records_def)
qed

lemma records_frame: "keeps_records w M M' \<Longrightarrow> records_ok M (g_res_list (ds w)) \<Longrightarrow> records_ok M' (g_res_list (ds w))"
  by (simp add: keeps_records_def records_ok_def)

lemma records_held: "records_ok M (g_res_list (ds w)) \<Longrightarrow> r \<in> set (g_res_list (ds w)) \<Longrightarrow> M (r - 4) \<noteq> None"
  by (auto simp: records_ok_def)

text \<open>New buffers, and buffers that another holder has, are none of these.\<close>

lemma grow_records: "heap_view w M \<Longrightarrow> (\<And>p. M p \<noteq> None \<Longrightarrow> M' p = M p) \<Longrightarrow> keeps_records w M M'"
  by (auto simp: keeps_records_def heap_view_def dest: records_held)

lemma other_records:
  assumes "heap_view w M" "\<forall>r. x \<noteq> Release r" "\<And>p. p \<notin> set (holds w M x) \<Longrightarrow> M' p = M p"
  shows "keeps_records w M M'"
proof -
  have "r - 4 \<notin> set (holds w M x)" if "r \<in> set (g_res_list (ds w))" for r
    using accounts_one [of M "holds w M" "r - 4" x "Release r"] assms(1,2) that by (auto simp: heap_view_def)
  then show ?thesis using assms(3) by (simp add: keeps_records_def)
qed

lemma view_change:
  assumes v: "heap_view w M" and k: "keeps_records w M M'" and l: "g_res_list (ds w') = g_res_list (ds w)"
    and h: "heap_shows (kmm (ds w')) M'" "accounts M' (holds w' M)" "sizes_ok M' (mine w')"
  shows "heap_view w' M'"
proof -
  have k': "keeps_records w' M M'" using k l by (simp add: keeps_records_def)
  have "records_ok M' (g_res_list (ds w))" using records_frame [OF k] v by (simp add: heap_view_def)
  then show ?thesis using h l holds_frame [OF k'] by (simp add: heap_view_def)
qed

text \<open>A new pointer is no name in use.\<close>

lemma fresh_name:
  assumes v: "heap_view w M" and k: "kernel_ok (krn (ds w))" and n: "M p = None" and a: "8 dvd unat p"
  shows "obj_type (blk (krn (ds w)) (unat p)) = RHINO_OBJ_TYPE_NONE" "\<not> live (tcb (krn (ds w)) (unat p))"
    "deleting w (unat p) = RHINO_OBJ_TYPE_NONE" "mine w p = None"
    "holds w M (Object (unat p)) = []" "holds w M (Deleting (unat p)) = []" "holds w M (Task (unat p)) = []"
    "holds w M (Client p) = []"
proof -
  have ac: "accounts M (holds w M)" using v by (simp add: heap_view_def)
  have h: "p \<notin> set (holds w M x)" for x using accounts_held [OF ac, of p x] n by auto
  have st: "\<not> static_name (unat p)" using a by (simp add: static_name_def dvd_eq_mod_eq_0)
  have ob: "p \<in> set (obj_bufs (ds w) T (unat p))" if "T \<noteq> RHINO_OBJ_TYPE_NONE" for T using that by (simp add: obj_bufs_def)
  have o: "dyn_objs (krn (ds w)) (unat p) = RHINO_OBJ_TYPE_NONE" using ob h [of "Object (unat p)"] by auto
  then show "obj_type (blk (krn (ds w)) (unat p)) = RHINO_OBJ_TYPE_NONE"
    using k st by (auto simp: dyn_objs_def obj_part_def kernel_ok_def statics_ok_def static_obj_def split: if_splits)
  show d: "deleting w (unat p) = RHINO_OBJ_TYPE_NONE" using ob h [of "Deleting (unat p)"] by auto
  have t: "dyn_tasks (krn (ds w)) (unat p) = None" using h [of "Task (unat p)"] by (cases "dyn_tasks (krn (ds w)) (unat p)") auto
  then show "\<not> live (tcb (krn (ds w)) (unat p))"
    using k st by (auto simp: dyn_tasks_def dyn_part_def kernel_ok_def statics_ok_def static_task_def split: if_splits)
  show m: "mine w p = None" using h [of "Client p"] by (auto split: if_splits)
  show "holds w M (Object (unat p)) = []" "holds w M (Deleting (unat p)) = []" "holds w M (Task (unat p)) = []" "holds w M (Client p) = []"
    using o d t m by (simp_all add: obj_bufs_def)
qed

section \<open>The application's buffers\<close>

lemma view_holds_mine:
  "holds (w\<lparr>ds := d', mine := m\<rparr>) M x =
     (case x of Client p \<Rightarrow> if m p = None then [] else [p] | _ \<Rightarrow> holds (w\<lparr>ds := d'\<rparr>) M x)"
  by (cases x) simp_all

lemma same_system:
  assumes "d' = d\<lparr>kmm := kmm d'\<rparr>"
  shows "krn d' = krn d" "g_res_list d' = g_res_list d" "queue_start d' = queue_start d" "bq_buf d' = bq_buf d"
  by (subst assms, simp)+

lemma same_system_holds:
  assumes "d' = (ds w)\<lparr>kmm := kmm d'\<rparr>"
  shows "holds (w\<lparr>ds := d'\<rparr>) M x = holds w M x"
  using same_system [OF assms] by (cases x) (simp_all add: obj_bufs_def)

lemma client_view:
  assumes "d' = (ds w)\<lparr>kmm := kmm d'\<rparr>" "\<And>q. q \<noteq> p \<Longrightarrow> m q = mine w q"
  shows "holds (w\<lparr>ds := d', mine := m\<rparr>) M = (holds w M)(Client p := if m p = None then [] else [p])"
proof
  fix x
  show "holds (w\<lparr>ds := d', mine := m\<rparr>) M x = ((holds w M)(Client p := if m p = None then [] else [p])) x"
    using assms(2) same_system_holds [OF assms(1), of M x] by (cases x) (auto simp: view_holds_mine)
qed

lemma same_view:
  assumes v: "heap_view w M" and d: "d' = (ds w)\<lparr>kmm := kmm d'\<rparr>" and h: "heap_shows (kmm d') M"
  shows "heap_view (w\<lparr>ds := d'\<rparr>) M"
proof -
  have "holds (w\<lparr>ds := d'\<rparr>) M = holds w M" using same_system_holds [OF d] by (simp add: fun_eq_iff)
  then show ?thesis using v h same_system(2) [OF d] by (simp add: heap_view_def)
qed

lemma client_alloc_view:
  assumes v: "heap_view w M" and k: "kernel_ok (krn (ds w))" and a: "dyn_alloc ra (ds w) n = (p, d')"
  shows "\<exists>M'. heap_view (w\<lparr>ds := d', mine := (if p = 0 then mine w else (mine w)(p \<mapsto> unat (asked n)))\<rparr>) M'"
proof -
  have sh: "heap_shows (kmm (ds w)) M" using v by (simp add: heap_view_def)
  show ?thesis
  proof (rule dyn_alloc_cases [OF sh a])
    assume c: "p = 0" "heap_shows (kmm d') M" "d' = (ds w)\<lparr>kmm := kmm d'\<rparr>"
    have "w\<lparr>ds := d', mine := mine w\<rparr> = w\<lparr>ds := d'\<rparr>" by simp
    then show ?thesis using same_view [OF v c(3,2)] c(1) by auto
  next
    fix xs assume c: "p \<noteq> 0" "M p = None" "unat (asked n) \<le> 4 * length xs" "heap_shows (kmm d') (M(p \<mapsto> xs))" "d' = (ds w)\<lparr>kmm := kmm d'\<rparr>"
    let ?M = "M(p \<mapsto> xs)" and ?m = "(mine w)(p \<mapsto> unat (asked n))"
    have al: "8 dvd unat p" by (rule shows_place [OF c(4)]) simp
    note f = fresh_name [OF v k c(2) al]
    have ac: "accounts ?M ((holds w M)(Client p := [p]))"
      by (rule accounts_gain [where M = M and H = "holds w M" and x = "Client p", OF _ f(8)]) (use v c(2) in \<open>auto simp: heap_view_def\<close>)
    have "heap_view (w\<lparr>ds := d', mine := ?m\<rparr>) ?M"
    proof (rule view_change [OF v])
      show "keeps_records w M ?M" by (rule grow_records [OF v]) (use c(2) in auto)
      show "accounts ?M (holds (w\<lparr>ds := d', mine := ?m\<rparr>) M)" using ac client_view [OF c(5), of p ?m M] by simp
      show "sizes_ok ?M (mine (w\<lparr>ds := d', mine := ?m\<rparr>))" using v c(3) by (auto simp: heap_view_def sizes_ok_def)
    qed (use c(4) same_system(2) [OF c(5)] in simp_all)
    then show ?thesis using c(1) by auto
  qed
qed

lemma mine_live: "heap_view w M \<Longrightarrow> mine w p = Some n \<Longrightarrow> \<exists>ws. M p = Some ws \<and> n \<le> 4 * length ws"
  by (simp add: heap_view_def sizes_ok_def)

lemma client_free_view:
  assumes v: "heap_view w M" and p: "mine w p \<noteq> None"
  shows "\<exists>M'. heap_view (w\<lparr>ds := dyn_free (ds w) p, mine := (mine w)(p := None)\<rparr>) M'"
proof -
  let ?M = "M(p := None)"
  have sh: "heap_shows (kmm (ds w)) M" and ac: "accounts M (holds w M)" using v by (simp_all add: heap_view_def)
  have l: "M p \<noteq> None" using mine_live [OF v] p by blast
  have e: "M |` (- set (holds w M (Client p))) = ?M" using p by (auto simp: restrict_map_def)
  have "heap_view (w\<lparr>ds := dyn_free (ds w) p, mine := (mine w)(p := None)\<rparr>) ?M"
  proof (rule view_change [OF v])
    show "keeps_records w M ?M" by (rule other_records [OF v, of "Client p"]) (use p in auto)
    show "accounts ?M (holds (w\<lparr>ds := dyn_free (ds w) p, mine := (mine w)(p := None)\<rparr>) M)"
      using accounts_lose [OF ac, of "Client p"] e client_view [OF dyn_free_state, of p "(mine w)(p := None)" w p M] by simp
    show "sizes_ok ?M (mine (w\<lparr>ds := dyn_free (ds w) p, mine := (mine w)(p := None)\<rparr>))" using v by (auto simp: heap_view_def sizes_ok_def)
    show "heap_shows (kmm (ds (w\<lparr>ds := dyn_free (ds w) p, mine := (mine w)(p := None)\<rparr>))) ?M" using dyn_free_shows [OF sh l] by simp
  qed simp
  then show ?thesis by blast
qed

lemma client_store_view:
  assumes v: "heap_view w M" and p: "mine w p = Some n" "4 * k < n"
  shows "\<exists>M'. heap_view (w\<lparr>ds := (ds w)\<lparr>kmm := store (kmm (ds w)) (p + 4 * of_nat k) v'\<rparr>\<rparr>) M'"
proof -
  have sh: "heap_shows (kmm (ds w)) M" and ac: "accounts M (holds w M)" using v by (simp_all add: heap_view_def)
  obtain ws where ws: "M p = Some ws" "n \<le> 4 * length ws" using mine_live [OF v p(1)] by blast
  let ?M = "M(p \<mapsto> ws[k := v'])" and ?d = "(ds w)\<lparr>kmm := store (kmm (ds w)) (p + 4 * of_nat k) v'\<rparr>"
  have d: "?d = (ds w)\<lparr>kmm := kmm ?d\<rparr>" by simp
  have "heap_view (w\<lparr>ds := ?d\<rparr>) ?M"
  proof (rule view_change [OF v])
    show "keeps_records w M ?M" by (rule other_records [OF v, of "Client p"]) (use p in auto)
    have "holds (w\<lparr>ds := ?d\<rparr>) M = holds w M" using same_system_holds [OF d] by (simp add: fun_eq_iff)
    moreover have "accounts ?M (holds w M)" by (rule accounts_dom [OF ac]) (use ws(1) in simp)
    ultimately show "accounts ?M (holds (w\<lparr>ds := ?d\<rparr>) M)" by simp
    show "sizes_ok ?M (mine (w\<lparr>ds := ?d\<rparr>))" using v ws(1) by (fastforce simp: heap_view_def sizes_ok_def)
    show "heap_shows (kmm (ds (w\<lparr>ds := ?d\<rparr>))) ?M" using write_shows [OF sh ws(1)] ws(2) p(2) by simp
  qed simp
  then show ?thesis by blast
qed

section \<open>Creation\<close>

text \<open>What a successful creation changes in the accounts: the new object or task holds the new buffers \<open>ps\<close>.\<close>

definition gained :: "(u32 \<Rightarrow> u32 list option) \<Rightarrow> u32 list \<Rightarrow> (u32 \<Rightarrow> u32 list option) \<Rightarrow> bool" where
  "gained M ps M' \<longleftrightarrow> distinct ps \<and> (\<forall>p \<in> set ps. M p = None \<and> M' p \<noteq> None) \<and> (\<forall>p. p \<notin> set ps \<longrightarrow> M' p = M p)"

lemma gained_one: "M p = None \<Longrightarrow> gained M [p] (M(p \<mapsto> xs))"
  by (simp add: gained_def)

lemma gained_two:
  "M p = None \<Longrightarrow> M q = None \<Longrightarrow> p \<noteq> q \<Longrightarrow> gained M [q, p] (M(p \<mapsto> xs, q \<mapsto> ys))"
  "M p = None \<Longrightarrow> M q = None \<Longrightarrow> p \<noteq> q \<Longrightarrow> gained M [p, q] (M(p \<mapsto> xs, q \<mapsto> ys))"
  by (auto simp: gained_def)

lemma gained_view:
  assumes v: "heap_view w M" and g: "gained M ps M'" and sh: "heap_shows (kmm d') M'" and n: "holds w M x = []"
    and l: "g_res_list d' = g_res_list (ds w)" and h: "holds (w\<lparr>ds := d'\<rparr>) M = (holds w M)(x := ps)"
  shows "heap_view (w\<lparr>ds := d'\<rparr>) M'"
proof (rule view_change [OF v])
  have M': "M' p = M p" if "M p \<noteq> None" for p using g that unfolding gained_def by metis
  show "keeps_records w M M'" by (rule grow_records [OF v M'])
  show "accounts M' (holds (w\<lparr>ds := d'\<rparr>) M)"
    unfolding h by (rule accounts_gain [where M = M and H = "holds w M", OF _ n]) (use v g in \<open>auto simp: heap_view_def gained_def\<close>)
  have "M' p = Some ws" if "M p = Some ws" for p ws using M' [of p] that by simp
  then show "sizes_ok M' (mine (w\<lparr>ds := d'\<rparr>))" using v by (fastforce simp: heap_view_def sizes_ok_def)
qed (use sh l in simp_all)

lemma object_made_view:
  assumes v: "heap_view w M" and k: "kernel_ok (krn (ds w))" and sh: "heap_shows (kmm d') M'" and g: "gained M ps M'" and p: "p \<in> set ps"
    and ob: "obj_change (krn (ds w)) (unat p) T (krn d')" "obj_bufs d' T (unat p) = ps"
    and rest: "g_res_list d' = g_res_list (ds w)" "\<And>o'. o' \<noteq> unat p \<Longrightarrow> queue_start d' o' = queue_start (ds w) o'"
      "\<And>o'. o' \<noteq> unat p \<Longrightarrow> bq_buf d' o' = bq_buf (ds w) o'"
  shows "heap_view (w\<lparr>ds := d'\<rparr>) M'"
proof (rule gained_view [OF v g sh _ rest(1)])
  have n: "M p = None" "M' p \<noteq> None" using g p by (auto simp: gained_def)
  then have "8 dvd unat p" using shows_place(1) [OF sh] by blast
  note f = fresh_name [OF v k n(1) this] and o = obj_change_dyn [OF ob(1)]
  show "holds w M (Object (unat p)) = []" by (rule f(5))
  show "holds (w\<lparr>ds := d'\<rparr>) M = (holds w M)(Object (unat p) := ps)"
  proof
    fix x
    have "obj_bufs d' T' o' = obj_bufs (ds w) T' o'" if "o' \<noteq> unat p" for T' o' using rest that by (simp add: obj_bufs_def)
    moreover from this have "obj_bufs d' (deleting w o') o' = obj_bufs (ds w) (deleting w o') o'" for o'
      using f(3) by (cases "o' = unat p") (simp_all add: obj_bufs_def)
    ultimately show "holds (w\<lparr>ds := d'\<rparr>) M x = ((holds w M)(Object (unat p) := ps)) x"
      using o(1,2) ob(2) rest(1) by (cases x) auto
  qed
qed

lemma task_made_view:
  assumes v: "heap_view w M" and k: "kernel_ok (krn (ds w))" and sh: "heap_shows (kmm d') M'" and g: "gained M [base, p] M'"
    and t: "task_change (krn (ds w)) (unat p) True base (krn d')" and d: "d' = (ds w)\<lparr>krn := krn d', kmm := kmm d'\<rparr>"
  shows "heap_view (w\<lparr>ds := d'\<rparr>) M'"
proof (rule gained_view [OF v g sh])
  have n: "M p = None" "M' p \<noteq> None" using g by (auto simp: gained_def)
  then have "8 dvd unat p" using shows_place(1) [OF sh] by blast
  note f = fresh_name [OF v k n(1) this] and o = task_change_dyn [OF t]
  show "holds w M (Task (unat p)) = []" by (rule f(7))
  have r: "g_res_list d' = g_res_list (ds w)" "queue_start d' = queue_start (ds w)" "bq_buf d' = bq_buf (ds w)" by (subst d, simp)+
  then show "g_res_list d' = g_res_list (ds w)" by simp
  show "holds (w\<lparr>ds := d'\<rparr>) M = (holds w M)(Task (unat p) := [base, p])"
  proof
    fix x
    show "holds (w\<lparr>ds := d'\<rparr>) M x = ((holds w M)(Task (unat p) := [base, p])) x"
      using o r by (cases x) (auto simp: obj_bufs_def)
  qed
qed

text \<open>A step keeps the kernel in order and the accounts.\<close>

definition step_ok :: "world \<Rightarrow> world \<Rightarrow> bool" where
  "step_ok w w' \<longleftrightarrow> steady (krn (ds w)) (krn (ds w')) \<and> kernel_ok (krn (ds w')) \<and> (\<exists>M. heap_view w' M)"

lemma step_ok_heap:
  "kernel_ok (krn (ds w)) \<Longrightarrow> krn (ds w') = krn (ds w) \<Longrightarrow> \<exists>M. heap_view w' M \<Longrightarrow> step_ok w w'"
  by (simp add: step_ok_def kernel_ok_def steady_refl)

lemma step_ok_failed:
  assumes "heap_view w M" "kernel_ok (krn (ds w))" "d' = (ds w)\<lparr>kmm := kmm d'\<rparr>" "heap_shows (kmm d') M"
  shows "step_ok w (w\<lparr>ds := d'\<rparr>)"
proof (rule step_ok_heap [OF assms(2)])
  show "krn (ds (w\<lparr>ds := d'\<rparr>)) = krn (ds w)" using same_system(1) [OF assms(3)] by simp
  show "\<exists>M. heap_view (w\<lparr>ds := d'\<rparr>) M" using same_view [OF assms(1,3,4)] by blast
qed

lemma dyn_create_cases:
  assumes sh: "heap_shows (kmm d) M" and c: "\<And>ob. creates (krn d) ob T (create (krn d) (Some ob))"
    and r: "dyn_create ra sz create d null = (ret, o1, d')"
  obtains (failed) "ret \<noteq> RHINO_SUCCESS" "o1 = None" "d' = d\<lparr>kmm := kmm d'\<rparr>" "heap_shows (kmm d') M"
    | (made) p xs where "ret = RHINO_SUCCESS" "o1 = Some p" "M p = None" "heap_shows (kmm d') (M(p \<mapsto> xs))"
      "obj_change (krn d) (unat p) T (krn d')" "krn d' = snd (create (krn d) (Some (unat p)))" "d' = d\<lparr>krn := krn d', kmm := kmm d'\<rparr>"
proof (cases null)
  case True
  then show thesis using failed sh r by (simp add: dyn_create_def)
next
  case False
  obtain p d1 where a: "dyn_alloc ra d sz = (p, d1)" by fastforce
  show thesis
  proof (rule dyn_alloc_cases [OF sh a])
    assume z: "p = 0" "heap_shows (kmm d1) M" "d1 = d\<lparr>kmm := kmm d1\<rparr>"
    then have "ret = RHINO_NO_MEM" "o1 = None" "d' = d1" using False r a by (simp_all add: dyn_create_def)
    then show thesis using failed z(2,3) by simp
  next
    fix xs assume z: "p \<noteq> 0" "M p = None" "heap_shows (kmm d1) (M(p \<mapsto> xs))" "d1 = d\<lparr>kmm := kmm d1\<rparr>"
    have k1: "krn d1 = krn d" by (rule same_system(1) [OF z(4)])
    obtain st k' where cr: "create (krn d) (Some (unat p)) = (st, k')" by fastforce
    note c' = c [of "unat p", unfolded cr creates_def fst_conv snd_conv]
    show thesis
    proof (cases "st = RHINO_SUCCESS")
      case True
      have e: "ret = RHINO_SUCCESS" "o1 = Some p" "d' = d1\<lparr>krn := k'\<rparr>"
        using False r a z(1) k1 cr True by (simp_all add: dyn_create_def on_kernel_def)
      have d': "d' = d\<lparr>krn := krn d', kmm := kmm d'\<rparr>" unfolding e(3) by (subst z(4)) simp
      show thesis by (rule made [OF e(1,2) z(2) _ _ _ d']) (use z(3) c' True cr e in simp_all)
    next
      case False': False
      have e: "ret = st" "o1 = None" "d' = dyn_free (d1\<lparr>krn := krn d\<rparr>) p"
        using False r a z(1) k1 cr False' c' by (simp_all add: dyn_create_def on_kernel_def)
      have d1: "d1\<lparr>krn := krn d\<rparr> = d1" unfolding k1 [symmetric] by simp
      show thesis
      proof (rule failed)
        show "heap_shows (kmm d') M" using alloc_then_free [OF z(2,3)] e(3) d1 by simp
        show "d' = d\<lparr>kmm := kmm d'\<rparr>" unfolding e(3) d1 by (subst dyn_free_state, subst z(4)) simp
      qed (use e False' in simp_all)
    qed
  qed
qed

lemma free_after: "d2 = d\<lparr>kmm := kmm d2\<rparr> \<Longrightarrow> dyn_free d2 q = d\<lparr>kmm := kmm (dyn_free d2 q)\<rparr>"
proof -
  assume "d2 = d\<lparr>kmm := kmm d2\<rparr>"
  then obtain h where h: "d2 = d\<lparr>kmm := h\<rparr>" by blast
  show ?thesis unfolding h by (simp add: dyn_free_def)
qed

lemma same_krn: "krn d1 = krn d \<Longrightarrow> d1\<lparr>krn := krn d\<rparr> = (d1 :: dsys)"
proof -
  assume e: "krn d1 = krn d"
  show ?thesis unfolding e [symmetric] by simp
qed

text \<open>What comes of a service that makes an object or task in two allocations.\<close>

definition fails :: "dsys \<Rightarrow> (u32 \<Rightarrow> u32 list option) \<Rightarrow> kstat \<times> u32 option \<times> dsys \<Rightarrow> bool" where
  "fails d M r \<longleftrightarrow> (case r of (ret, o1, d') \<Rightarrow>
     ret \<noteq> RHINO_SUCCESS \<and> o1 = None \<and> d' = d\<lparr>kmm := kmm d'\<rparr> \<and> heap_shows (kmm d') M)"

lemma fails_at_once: "heap_shows (kmm d) M \<Longrightarrow> ret \<noteq> RHINO_SUCCESS \<Longrightarrow> fails d M (ret, None, d)"
  by (simp add: fails_def)

lemma fails_again:
  "d1 = d\<lparr>kmm := kmm d1\<rparr> \<Longrightarrow> heap_shows (kmm d1) M \<Longrightarrow> ret \<noteq> RHINO_SUCCESS \<Longrightarrow> fails d M (ret, None, d1)"
  by (simp add: fails_def)

lemma object_with_buffer:
  assumes sh: "heap_shows (kmm d) M" and a: "dyn_alloc ra1 d n1 = (p, d1)" and b: "dyn_alloc ra2 d1 n2 = (q, d2)"
    and mem: "mem = heap_bytes (kmm d2) q (unat (asked n2))" and c: "creates (krn d) (unat p) T (st, k')"
    and r: "r = (if p = 0 then (RHINO_NO_MEM, None, d1)
      else if q = 0 then (RHINO_NO_MEM, None, dyn_free d2 p)
      else if st \<noteq> RHINO_SUCCESS then (st, None, dyn_free (dyn_free (d2\<lparr>krn := k'\<rparr>) q) p)
      else (RHINO_SUCCESS, Some p, upd (d2\<lparr>krn := k'\<rparr>)))"
  obtains (failed) "fails d M r"
    | (made) xs ys where "r = (RHINO_SUCCESS, Some p, upd (d\<lparr>krn := k', kmm := kmm d2\<rparr>))" "gained M [q, p] (M(p \<mapsto> xs, q \<mapsto> ys))"
      "heap_shows (kmm d2) (M(p \<mapsto> xs, q \<mapsto> ys))" "length mem = unat (asked n2)" "length mem \<le> 4 * length ys"
      "obj_change (krn d) (unat p) T k'" "q \<noteq> 0" "st = RHINO_SUCCESS"
proof (cases "p = 0")
  case True
  then have "heap_shows (kmm d1) M" "d1 = d\<lparr>kmm := kmm d1\<rparr>" using dyn_alloc_cases [OF sh a] by blast+
  then have "fails d M r" using r True by (auto intro!: fails_again)
  then show thesis by (rule failed)
next
  case nz: False
  show thesis
  proof (rule alloc_two [OF sh a b nz])
    assume z: "q = 0" "heap_shows (kmm (dyn_free d2 p)) M" "d2 = d\<lparr>kmm := kmm d2\<rparr>"
    have "fails d M (RHINO_NO_MEM, None, dyn_free d2 p)" by (rule fails_again [OF free_after [OF z(3)] z(2)]) simp
    then show thesis using failed r nz z(1) by simp
  next
    fix xs ys
    assume z: "q \<noteq> 0" "p \<noteq> q" "M p = None" "M q = None" "unat (asked n2) \<le> 4 * length ys"
      "heap_shows (kmm d2) (M(p \<mapsto> xs, q \<mapsto> ys))" "heap_shows (kmm (dyn_free (dyn_free d2 q) p)) M" "d2 = d\<lparr>kmm := kmm d2\<rparr>"
    have len: "length mem = unat (asked n2)" by (simp add: mem heap_bytes_def)
    show thesis
    proof (cases "st = RHINO_SUCCESS")
      case True
      have "d2\<lparr>krn := k'\<rparr> = d\<lparr>krn := k', kmm := kmm d2\<rparr>" by (subst z(8)) simp
      then have "r = (RHINO_SUCCESS, Some p, upd (d\<lparr>krn := k', kmm := kmm d2\<rparr>))" using r nz z(1) True by simp
      moreover have "obj_change (krn d) (unat p) T k'" using c True by (simp add: creates_def)
      moreover have "length mem \<le> 4 * length ys" using z(5) len by simp
      ultimately show thesis using made gained_two(1) [OF z(3,4,2)] z(6) len z(1) True by blast
    next
      case False
      have "krn d = k'" using c False by (simp add: creates_def)
      then have "d2\<lparr>krn := k'\<rparr> = d2" using same_krn [OF same_system(1) [OF z(8)]] by simp
      then have "r = (st, None, dyn_free (dyn_free d2 q) p)" using r nz z(1) False by simp
      moreover have "fails d M (st, None, dyn_free (dyn_free d2 q) p)"
        by (rule fails_again [OF free_after [OF free_after [OF z(8)]] z(7) False])
      ultimately show thesis using failed by simp
    qed
  qed
qed

lemma after_two_allocs:
  assumes "heap_shows (kmm d) M" "dyn_alloc ra1 d n1 = (p, d1)" "dyn_alloc ra2 d1 n2 = (q, d2)" "p \<noteq> 0"
  shows "krn d2 = krn d" "queue_start d2 = queue_start d" "bq_buf d2 = bq_buf d"
proof -
  have "d2 = d\<lparr>kmm := kmm d2\<rparr>" by (rule alloc_two [OF assms])
  note e = same_system [OF this]
  show "krn d2 = krn d" "queue_start d2 = queue_start d" "bq_buf d2 = bq_buf d" by (rule e(1) e(3) e(4))+
qed

lemma queue_dyn_create_cases:
  assumes sh: "heap_shows (kmm d) M" and r: "krhino_queue_dyn_create ra1 ra2 d null name msg_num = r"
  obtains (failed) "fails d M r"
    | (made) p q xs ys mem k' h where "r = (RHINO_SUCCESS, Some p, d\<lparr>krn := k', kmm := h, queue_start := (queue_start d)(unat p := q)\<rparr>)"
      "gained M [q, p] (M(p \<mapsto> xs, q \<mapsto> ys))" "heap_shows h (M(p \<mapsto> xs, q \<mapsto> ys))" "length mem = unat (asked (msg_num * 4))"
      "length mem \<le> 4 * length ys" "obj_change (krn d) (unat p) RHINO_QUEUE_OBJ_TYPE k'"
      "k' = snd (queue_create (krn d) (Some (unat p)) name (Some mem) (unat msg_num) K_OBJ_DYN_ALLOC)"
proof (cases null)
  case True
  then show thesis using failed fails_at_once [OF sh] r by (auto simp: krhino_queue_dyn_create_def)
next
  case False
  obtain p d1 where a: "dyn_alloc ra1 d sizeof_kqueue = (p, d1)" by fastforce
  obtain q d2 where b: "dyn_alloc ra2 d1 (msg_num * 4) = (q, d2)" by fastforce
  define mem where "mem = heap_bytes (kmm d2) q (unat (asked (msg_num * 4)))"
  obtain st k' where cr: "queue_create (krn d) (Some (unat p)) name (Some mem) (unat msg_num) K_OBJ_DYN_ALLOC = (st, k')" by fastforce
  note c = object_creates(4) [of "krn d" "unat p" name "Some mem" "unat msg_num", unfolded cr]
  have e: "r = (if p = 0 then (RHINO_NO_MEM, None, d1)
      else if q = 0 then (RHINO_NO_MEM, None, dyn_free d2 p)
      else if st \<noteq> RHINO_SUCCESS then (st, None, dyn_free (dyn_free (d2\<lparr>krn := k'\<rparr>) q) p)
      else (RHINO_SUCCESS, Some p, (\<lambda>d'. d'\<lparr>queue_start := (queue_start d)(unat p := q)\<rparr>) (d2\<lparr>krn := k'\<rparr>)))"
    using False r [symmetric] a b after_two_allocs [OF sh a b] cr
    by (simp add: krhino_queue_dyn_create_def on_kernel_def asked_def [symmetric] mem_def [symmetric])
  from sh a b mem_def c e show thesis
  proof (cases rule: object_with_buffer)
    case (made xs ys)
    show thesis by (rule that(2) [OF made(1-6)]) (simp add: cr)
  qed (rule failed)
qed

lemma buf_queue_dyn_create_cases:
  assumes sh: "heap_shows (kmm d) M" and r: "buf_queue_dyn_create ra1 ra2 d null name sz max_msg type = r"
  obtains (failed) "fails d M r"
    | (made) p q xs ys mem k' h where "r = (RHINO_SUCCESS, Some p, d\<lparr>krn := k', kmm := h, bq_buf := (bq_buf d)(unat p := q)\<rparr>)"
      "gained M [q, p] (M(p \<mapsto> xs, q \<mapsto> ys))" "heap_shows h (M(p \<mapsto> xs, q \<mapsto> ys))" "length mem = unat (asked sz)"
      "length mem \<le> 4 * length ys" "obj_change (krn d) (unat p) RHINO_BUF_QUEUE_OBJ_TYPE k'"
      "(RHINO_SUCCESS, k') = buf_queue_create (krn d) (Some (unat p)) name (Some mem) (unat sz) (unat max_msg) K_OBJ_DYN_ALLOC RINGBUF_TYPE_DYN"
proof (cases "null \<or> sz = 0")
  case True
  then have "fails d M r" using fails_at_once [OF sh] r by (cases null) (auto simp: buf_queue_dyn_create_def)
  then show thesis by (rule failed)
next
  case False
  obtain p d1 where a: "dyn_alloc ra1 d sizeof_kbuf_queue = (p, d1)" by fastforce
  obtain q d2 where b: "dyn_alloc ra2 d1 sz = (q, d2)" by fastforce
  define mem where "mem = heap_bytes (kmm d2) q (unat (asked sz))"
  obtain st k' where cr: "buf_queue_create (krn d) (Some (unat p)) name (Some mem) (unat sz) (unat max_msg) K_OBJ_DYN_ALLOC
    RINGBUF_TYPE_DYN = (st, k')" by fastforce
  note c = object_creates(5) [of "krn d" "unat p" name "Some mem" "unat sz" "unat max_msg" RINGBUF_TYPE_DYN, unfolded cr]
  have e: "r = (if p = 0 then (RHINO_NO_MEM, None, d1)
      else if q = 0 then (RHINO_NO_MEM, None, dyn_free d2 p)
      else if st \<noteq> RHINO_SUCCESS then (st, None, dyn_free (dyn_free (d2\<lparr>krn := k'\<rparr>) q) p)
      else (RHINO_SUCCESS, Some p, (\<lambda>d'. d'\<lparr>bq_buf := (bq_buf d)(unat p := q)\<rparr>) (d2\<lparr>krn := k'\<rparr>)))"
    using False r [symmetric] a b after_two_allocs [OF sh a b] cr
    by (simp add: buf_queue_dyn_create_def on_kernel_def asked_def [symmetric] mem_def [symmetric])
  from sh a b mem_def c e show thesis
  proof (cases rule: object_with_buffer)
    case (made xs ys)
    show thesis by (rule that(2) [OF made(1-6)]) (simp add: cr made(8))
  qed (rule failed)
qed

end
