(* ===== verification/Dyn_Safety.thy ===== *)
theory Dyn_Safety
  imports Dyn_World
begin

text \<open>
  Every step of theory \<open>Dyn_World\<close> keeps the kernel in order and the accounts of the heap.
\<close>

section \<open>Creation of tasks\<close>

text \<open>A stack on the heap has room for the first frame.\<close>

lemma heap_stack_fits:
  assumes "8 dvd unat base" "18 \<le> unat sz" "unat sz * 4 < 2 ^ 31"
  shows "stack_fits base sz"
proof -
  have e: "(4 * sz + base) AND NOT 7 = ((4 * sz) AND NOT 7) + base" by (rule add_flags(1)) (simp add: aligned_dvd assms(1))
  have n: "(0xFFFFFFF8 :: u32) = NOT 7" by simp
  have top: "stack_top base sz = unat ((4 * sz) AND NOT 7) div 4"
    unfolding stack_top_def n add.commute [of base] e by (simp only: add_diff_cancel_right')
  have "(4 * sz) AND NOT 7 = MM_ALIGN_DOWN (4 * sz)" by (simp add: MM_ALIGN_DOWN_def MM_ALIGN_MASK_def)
  then have d: "8 dvd unat ((4 * sz) AND NOT 7)" "unat ((4 * sz) AND NOT 7) \<le> unat (4 * sz)" "unat (4 * sz) < unat ((4 * sz) AND NOT 7) + 8"
    using align_down [of "4 * sz"] by (simp_all add: aligned_dvd)
  have u: "unat (4 * sz) = 4 * unat sz" using assms(3) by (simp add: unat_word_ariths)
  obtain k where k: "unat ((4 * sz) AND NOT 7) = 8 * k" using d(1) by blast
  have "9 \<le> k" using d(3) u assms(2) k by linarith
  then show ?thesis using d(2) u k by (simp add: stack_fits_def top)
qed

lemma task_dyn_create_cases:
  assumes sh: "heap_shows (kmm d) M" and r: "task_dyn_create deathbed ra1 ra2 d null name arg pri ticks stack entry autorun = r"
  obtains (failed) "fails d M r"
    | (made) base t xs ys k' h where "r = (RHINO_SUCCESS, Some t, d\<lparr>krn := k', kmm := h\<rparr>)"
      "gained M [base, t] (M(base \<mapsto> xs, t \<mapsto> ys))" "heap_shows h (M(base \<mapsto> xs, t \<mapsto> ys))" "unat (asked (stack * 4)) \<le> 4 * length xs"
      "task_change (krn d) (unat t) True base k'"
      "k' = snd (task_create deathbed (krn d) (Some (unat t)) name arg pri ticks (Some base) stack entry autorun K_OBJ_DYN_ALLOC)"
proof (cases "null \<or> stack = 0")
  case True
  then have "fails d M r" using fails_at_once [OF sh] r by (cases null) (auto simp: task_dyn_create_def)
  then show thesis by (rule failed)
next
  case False
  obtain p d1 where a: "dyn_alloc ra1 d (stack * 4) = (p, d1)" by fastforce
  obtain q d2 where b: "dyn_alloc ra2 d1 sizeof_ktask = (q, d2)" by fastforce
  show thesis
  proof (cases "p = 0")
    case True
    then have "heap_shows (kmm d1) M" "d1 = d\<lparr>kmm := kmm d1\<rparr>" using dyn_alloc_cases [OF sh a] by blast+
    then have "fails d M r" using False r a True by (auto simp: task_dyn_create_def intro!: fails_again)
    then show thesis by (rule failed)
  next
    case nz: False
    show thesis
    proof (rule alloc_two [OF sh a b nz])
      assume z: "q = 0" "heap_shows (kmm (dyn_free d2 p)) M" "d2 = d\<lparr>kmm := kmm d2\<rparr>"
      have "fails d M (RHINO_NO_MEM, None, dyn_free d2 p)" by (rule fails_again [OF free_after [OF z(3)] z(2)]) simp
      then show thesis using failed False r a b nz z(1) by (simp add: task_dyn_create_def)
    next
      fix xs ys
      assume z: "q \<noteq> 0" "p \<noteq> q" "M p = None" "M q = None" "unat (asked (stack * 4)) \<le> 4 * length xs"
        "heap_shows (kmm d2) (M(p \<mapsto> xs, q \<mapsto> ys))" "d2 = d\<lparr>kmm := kmm d2\<rparr>"
      note k2 = same_system(1) [OF z(7)]
      obtain st k' where cr: "task_create deathbed (krn d) (Some (unat q)) name arg pri ticks (Some p) stack entry autorun K_OBJ_DYN_ALLOC = (st, k')"
        by fastforce
      note c = task_creates [OF cr [symmetric], unfolded fst_conv snd_conv]
      have e: "r = (if st \<noteq> RHINO_SUCCESS \<and> st \<noteq> RHINO_STOPPED then (st, None, dyn_free (dyn_free (d2\<lparr>krn := k'\<rparr>) p) q)
          else (st, Some q, d2\<lparr>krn := k'\<rparr>))"
        using False r [symmetric] a b nz z(1) k2 cr by (simp add: task_dyn_create_def on_kernel_def)
      show thesis
      proof (cases "st = RHINO_SUCCESS")
        case True
        have "d2\<lparr>krn := k'\<rparr> = d\<lparr>krn := k', kmm := kmm d2\<rparr>" by (subst z(7)) simp
        then have "r = (RHINO_SUCCESS, Some q, d\<lparr>krn := k', kmm := kmm d2\<rparr>)" using e True by simp
        then show thesis using made gained_two(2) [OF z(3,4,2)] z(5,6) c True cr by (metis snd_conv)
      next
        case False
        then have "d2\<lparr>krn := k'\<rparr> = d2" using c same_krn [OF k2] by simp
        then have "r = (st, None, dyn_free (dyn_free d2 p) q)" using e False c by simp
        moreover have "fails d M (st, None, dyn_free (dyn_free d2 p) q)"
        proof (rule fails_again [OF free_after [OF free_after [OF z(7)]] _ False])
          have "heap_shows (kmm (foldl dyn_free d2 [p, q])) ((M(p \<mapsto> xs, q \<mapsto> ys)) |` (- set [p, q]))"
            by (rule free_list_shows [OF z(6)]) (use z(2) in auto)
          moreover have "(M(p \<mapsto> xs, q \<mapsto> ys)) |` (- set [p, q]) = M" using z(3,4) by (auto simp: fun_eq_iff restrict_map_def)
          ultimately show "heap_shows (kmm (dyn_free (dyn_free d2 p) q)) M" by simp
        qed
        ultimately show thesis using failed by simp
      qed
    qed
  qed
qed

section \<open>Steps that create\<close>

lemma step_ok_fails:
  assumes "heap_view w M" "kernel_ok (krn (ds w))" "fails (ds w) M (ret, o1, d')"
  shows "step_ok w (w\<lparr>ds := d'\<rparr>)"
  by (rule step_ok_failed [OF assms(1,2)]) (use assms(3) in \<open>auto simp: fails_def\<close>)

lemma heap_view_shows: "heap_view w M \<Longrightarrow> heap_shows (kmm (ds w)) M"
  by (simp add: heap_view_def)

lemma kernel_ok_parts:
  assumes "kernel_ok s"
  shows "kwf s" "act_inv s"
  using assms by (simp_all add: kernel_ok_def)

lemma step_ok_object:
  assumes v: "heap_view w M" and k: "kernel_ok (krn (ds w))" and g: "good (krn (ds w)) (krn d')" and c: "obj_change (krn (ds w)) ob T (krn d')"
    and h: "heap_view (w\<lparr>ds := d'\<rparr>) M'"
  shows "step_ok w (w\<lparr>ds := d'\<rparr>)"
proof -
  note st = good_steady [OF g]
  show ?thesis unfolding step_ok_def using st kernel_ok_obj [OF k st c] h by auto
qed

lemma create_step_ok:
  assumes v: "heap_view w M" and k: "kernel_ok (krn (ds w))"
    and c: "\<And>s ob. creates s ob T (create s (Some ob))"
    and g: "\<And>s ob. kwf s \<Longrightarrow> act_inv s \<Longrightarrow> obj_type (blk s ob) = RHINO_OBJ_TYPE_NONE \<Longrightarrow> good s (snd (create s (Some ob)))"
    and T: "T \<noteq> RHINO_OBJ_TYPE_NONE" "T \<noteq> RHINO_QUEUE_OBJ_TYPE" "T \<noteq> RHINO_BUF_QUEUE_OBJ_TYPE"
    and r: "dyn_create ra sz create (ds w) null = (ret, o1, d')"
  shows "step_ok w (w\<lparr>ds := d'\<rparr>)"
proof (cases rule: dyn_create_cases [OF heap_view_shows [OF v] c r])
  case failed: 1
  show ?thesis by (rule step_ok_failed [OF v k failed(3,4)])
next
  case made: (2 p xs)
  have a: "8 dvd unat p" by (rule shows_place(1) [OF made(4)]) simp
  note f = fresh_name [OF v k made(3) a]
  have e: "g_res_list d' = g_res_list (ds w)" "queue_start d' = queue_start (ds w)" "bq_buf d' = bq_buf (ds w)" by (subst made(7), simp)+
  have gd: "good (krn (ds w)) (krn d')" unfolding made(6) by (rule g [OF kernel_ok_parts [OF k] f(1)])
  have "heap_view (w\<lparr>ds := d'\<rparr>) (M(p \<mapsto> xs))"
    by (rule object_made_view [OF v k made(4) gained_one [where M = M, OF made(3)] _ made(5)]) (use T e in \<open>simp_all add: obj_bufs_def\<close>)
  then show ?thesis by (rule step_ok_object [OF v k gd made(5)])
qed

lemma asked_small: "unat n < 2 ^ 31 \<Longrightarrow> asked n = n"
proof -
  assume n: "unat n < 2 ^ 31"
  have m: "NOT AOS_UNSIGNED_INT_MSB = mask 31" by (simp add: AOS_UNSIGNED_INT_MSB_def mask_numeral)
  have "asked n = take_bit 31 n" by (simp only: asked_def m take_bit_eq_mask)
  moreover have "take_bit 31 n = n" using n by (simp add: word_unat_eq_iff unsigned_take_bit_eq take_bit_nat_eq_self)
  ultimately show ?thesis by simp
qed

lemma queue_step_ok:
  assumes v: "heap_view w M" and k: "kernel_ok (krn (ds w))" and n: "unat msg_num * 4 < 2 ^ 31"
    and r: "krhino_queue_dyn_create ra1 ra2 (ds w) null name msg_num = (ret, o1, d')"
  shows "step_ok w (w\<lparr>ds := d'\<rparr>)"
proof (cases rule: queue_dyn_create_cases [OF heap_view_shows [OF v] r])
  case 1
  then show ?thesis by (rule step_ok_fails [OF v k])
next
  case made: (2 p q xs ys mem k' h)
  have d: "d' = (ds w)\<lparr>krn := k', kmm := h, queue_start := (queue_start (ds w))(unat p := q)\<rparr>" using made(1) by blast
  let ?M = "M(p \<mapsto> xs, q \<mapsto> ys)"
  have np: "M p = None" "?M p \<noteq> None" using made(2) by (auto simp: gained_def)
  note f = fresh_name [OF v k np(1) shows_place(1) [OF made(3)]]
  have u: "unat (msg_num * 4) = unat msg_num * 4" using n by (simp add: unat_word_ariths)
  have len: "length mem = unat msg_num * 4" using made(4) u n by (simp add: asked_small)
  have g: "good (krn (ds w)) (krn d')"
    unfolding d made(7) using object_create_good(4) [OF kernel_ok_parts [OF k] f(1) len] np(2) n by auto
  have c: "obj_change (krn (ds w)) (unat p) RHINO_QUEUE_OBJ_TYPE (krn d')" using made(6) by (simp add: d)
  have "heap_view (w\<lparr>ds := d'\<rparr>) ?M"
    by (rule object_made_view [OF v k _ made(2) _ c]) (use made(3) in \<open>simp_all add: d obj_bufs_def\<close>)
  then show ?thesis by (rule step_ok_object [OF v k g c])
qed

lemma buf_queue_step_ok:
  assumes v: "heap_view w M" and k: "kernel_ok (krn (ds w))" and n: "unat sz < 2 ^ 31"
    and r: "buf_queue_dyn_create ra1 ra2 (ds w) null name sz max_msg type = (ret, o1, d')"
  shows "step_ok w (w\<lparr>ds := d'\<rparr>)"
proof (cases rule: buf_queue_dyn_create_cases [OF heap_view_shows [OF v] r])
  case 1
  then show ?thesis by (rule step_ok_fails [OF v k])
next
  case made: (2 p q xs ys mem k' h)
  have d: "d' = (ds w)\<lparr>krn := k', kmm := h, bq_buf := (bq_buf (ds w))(unat p := q)\<rparr>" using made(1) by blast
  let ?M = "M(p \<mapsto> xs, q \<mapsto> ys)"
  have np: "M p = None" "?M p \<noteq> None" using made(2) by (auto simp: gained_def)
  note f = fresh_name [OF v k np(1) shows_place(1) [OF made(3)]]
  have len: "length mem = unat sz" using made(4) n by (simp add: asked_small)
  have k': "k' = snd (buf_queue_create (krn (ds w)) (Some (unat p)) name (Some mem) (unat sz) (unat max_msg) K_OBJ_DYN_ALLOC RINGBUF_TYPE_DYN)"
    using made(7) by (metis snd_conv)
  have g: "good (krn (ds w)) (krn d')"
    using object_create_good(5) [OF kernel_ok_parts [OF k] f(1) len] np(2) n by (auto simp: d k')
  have c: "obj_change (krn (ds w)) (unat p) RHINO_BUF_QUEUE_OBJ_TYPE (krn d')" using made(6) by (simp add: d)
  have "heap_view (w\<lparr>ds := d'\<rparr>) ?M"
    by (rule object_made_view [OF v k _ made(2) _ c]) (use made(3) in \<open>simp_all add: d obj_bufs_def\<close>)
  then show ?thesis by (rule step_ok_object [OF v k g c])
qed

lemma task_step_ok:
  assumes v: "heap_view w M" and k: "kernel_ok (krn (ds w))" and n: "18 \<le> unat stack" "unat stack * 4 < 2 ^ 31"
    and i: "pri = RHINO_IDLE_PRI \<longrightarrow> autorun > 0"
    and r: "task_dyn_create deathbed ra1 ra2 (ds w) null name arg pri ticks stack entry autorun = (ret, t1, d')"
  shows "step_ok w (w\<lparr>ds := d'\<rparr>)"
proof (cases rule: task_dyn_create_cases [OF heap_view_shows [OF v] r])
  case 1
  then show ?thesis by (rule step_ok_fails [OF v k])
next
  case made: (2 base t xs ys k' h)
  have d: "d' = (ds w)\<lparr>krn := k', kmm := h\<rparr>" using made(1) by blast
  let ?M = "M(base \<mapsto> xs, t \<mapsto> ys)"
  have nt: "M t = None" "?M t \<noteq> None" "?M base \<noteq> None" using made(2) by (auto simp: gained_def)
  note f = fresh_name [OF v k nt(1) shows_place(1) [OF made(3)]]
  have fit: "stack_fits base stack"
  proof (rule heap_stack_fits [OF _ n])
    obtain zs where "?M base = Some zs" using nt(3) by blast
    then show "8 dvd unat base" by (rule shows_place(1) [OF made(3)])
  qed
  have g: "good (krn (ds w)) (krn d')"
    unfolding d using task_create_good [OF kernel_ok_parts [OF k], of "Some (unat t)" pri autorun "Some base" stack] f(2) nt(2) i fit
    by (auto simp: made(6))
  have c: "task_change (krn (ds w)) (unat t) True base (krn d')" using made(5) by (simp add: d)
  have h: "heap_view (w\<lparr>ds := d'\<rparr>) ?M"
    by (rule task_made_view [OF v k _ made(2) c]) (use made(3) in \<open>simp_all add: d\<close>)
  note st = good_steady [OF g]
  show ?thesis unfolding step_ok_def using st kernel_ok_task [OF k st c] h by auto
qed

section \<open>Steps that delete\<close>

text \<open>Between the two halves of its deletion the memory of an object is still held.\<close>

lemma begun_step_ok:
  assumes v: "heap_view w M" and k: "kernel_ok (krn (ds w))" and T: "T \<noteq> RHINO_OBJ_TYPE_NONE"
    and c: "deletes (krn (ds w)) ob T r" and g: "good (krn (ds w)) (snd r)"
  shows "step_ok w (begun w ob T r)"
proof (cases "fst r = RHINO_SUCCESS")
  case False
  then have "snd r = krn (ds w)" using c by (simp add: deletes_def)
  then have "begun w ob T r = w" using False by (simp add: begun_def)
  then show ?thesis using v k by (auto intro: step_ok_heap)
next
  case True
  then have o: "dyn_objs (krn (ds w)) ob = T" "obj_change (krn (ds w)) ob RHINO_OBJ_TYPE_NONE (snd r)" using c by (simp_all add: deletes_def)
  let ?w = "begun w ob T r"
  have ac: "accounts M (holds w M)" using v by (simp add: heap_view_def)
  have n: "holds w M (Deleting ob) = []"
  proof (rule ccontr)
    assume "holds w M (Deleting ob) \<noteq> []"
    then have "deleting w ob \<noteq> RHINO_OBJ_TYPE_NONE" by (auto simp: obj_bufs_def)
    then have "of_nat ob \<in> set (holds w M (Deleting ob))" by (simp add: obj_bufs_def)
    moreover have "of_nat ob \<in> set (holds w M (Object ob))" using o(1) T by (simp add: obj_bufs_def)
    ultimately show False using accounts_one [OF ac] by blast
  qed
  note e = obj_change_dyn [OF o(2)]
  have h: "holds ?w M = (holds w M)(Object ob := [], Deleting ob := holds w M (Object ob))"
  proof
    fix x
    show "holds ?w M x = ((holds w M)(Object ob := [], Deleting ob := holds w M (Object ob))) x"
      using e(1,2) o(1) True by (cases x) (auto simp: begun_def obj_bufs_def)
  qed
  have "heap_view ?w M"
  proof (rule view_change [OF v])
    show "accounts M (holds ?w M)" unfolding h by (rule accounts_pass [OF ac n]) simp
  qed (use v in \<open>simp_all add: begun_def heap_view_def keeps_records_def\<close>)
  moreover have "krn (ds ?w) = snd r" by (simp add: begun_def)
  ultimately show ?thesis unfolding step_ok_def using good_steady [OF g] kernel_ok_obj [OF k good_steady [OF g] o(2)] by auto
qed

lemma lose_view:
  assumes v: "heap_view w M" and x: "\<forall>p. x \<noteq> Client p" and sh: "heap_shows (kmm (ds w')) (M |` (- set (holds w M x)))"
    and l: "keeps_records w' M (M |` (- set (holds w M x)))" "records_ok M (g_res_list (ds w'))" and m: "mine w' = mine w"
    and h: "holds w' M = (holds w M)(x := [])"
  shows "heap_view w' (M |` (- set (holds w M x)))"
proof -
  let ?M = "M |` (- set (holds w M x))"
  have ac: "accounts M (holds w M)" and sz: "sizes_ok M (mine w)" using v by (simp_all add: heap_view_def)
  have "accounts ?M (holds w' ?M)" unfolding holds_frame [OF l(1)] h by (rule accounts_lose [OF ac])
  moreover have "sizes_ok ?M (mine w')"
  proof -
    have "p \<notin> set (holds w M x)" if "mine w p = Some n" for p n
      using accounts_one [OF ac, of p x "Client p"] x that by auto
    then show ?thesis using sz m by (fastforce simp: sizes_ok_def)
  qed
  ultimately show ?thesis using sh records_frame [OF l] by (simp add: heap_view_def)
qed

lemma ended_step_ok:
  assumes v: "heap_view w M" and k: "kernel_ok (krn (ds w))" and r: "snd r = foldl dyn_free (ds w) (obj_bufs (ds w) (deleting w ob) ob)"
  shows "step_ok w (ended w ob r)"
proof -
  let ?w = "ended w ob r" and ?H = "holds w M (Deleting ob)"
  have ac: "accounts M (holds w M)" using v by (simp add: heap_view_def)
  have e: "ds ?w = foldl dyn_free (ds w) ?H" "mine ?w = mine w" using r by (simp_all add: ended_def)
  have h: "holds ?w M = (holds w M)(Deleting ob := [])"
  proof
    fix x
    show "holds ?w M x = ((holds w M)(Deleting ob := [])) x" using e(1) by (cases x) (auto simp: ended_def obj_bufs_def)
  qed
  have "heap_view ?w (M |` (- set ?H))"
  proof (rule lose_view [OF v _ _ _ _ e(2) h])
    show "heap_shows (kmm (ds ?w)) (M |` (- set ?H))"
      unfolding e(1) by (rule free_list_shows [OF heap_view_shows [OF v] accounts_distinct [OF ac] accounts_held [OF ac]])
    have "keeps_records w M (M |` (- set ?H))" by (rule other_records [OF v, of "Deleting ob"]) simp_all
    then show "keeps_records ?w M (M |` (- set ?H))" using e(1) by (simp add: keeps_records_def)
    show "records_ok M (g_res_list (ds ?w))" using v e(1) by (simp add: heap_view_def)
  qed simp_all
  then show ?thesis using k e(1) by (auto intro!: step_ok_heap)
qed

text \<open>A turn of the task that releases memory.\<close>

lemma turn_releases:
  assumes v: "heap_view w M" and l: "g_res_list (ds w) = r # rest" and t: "dyn_mem_proc_turn (ds w) = Some d'"
  shows "d' = foldl dyn_free ((ds w)\<lparr>g_res_list := rest\<rparr>) (holds w M (Release r))"
proof -
  have sh: "heap_shows (kmm (ds w)) M" and rec: "records_ok M (r # rest)" using v l by (simp_all add: heap_view_def)
  obtain ws where ws: "M (r - 4) = Some ws" "ws ! 1 = 2" "ws ! 2 = r - 4" using rec by (auto simp: records_ok_def)
  have "8 \<le> length ws" by (rule shows_place(3) [OF sh ws(1)])
  then have "word_at (kmm (ds w)) (r - 4 + 4 * of_nat 1) = 2" "word_at (kmm (ds w)) (r - 4 + 4 * of_nat 2) = r - 4"
    "word_at (kmm (ds w)) (r - 4 + 4 * of_nat 3) = ws ! 3"
    using shows_word [OF sh ws(1), of 1] shows_word [OF sh ws(1), of 2] shows_word [OF sh ws(1), of 3] ws(2,3) by simp_all
  then have c: "word_at (kmm (ds w)) (cnt_at r) = 2" "word_at (kmm (ds w)) (res_at r 0) = r - 4" "word_at (kmm (ds w)) (res_at r 1) = ws ! 3"
    by (simp_all add: cnt_at_def res_at_def add.commute)
  have "d' = foldl dyn_free ((ds w)\<lparr>g_res_list := rest\<rparr>) (map (\<lambda>i. word_at (kmm (ds w)) (res_at r i)) [0..<2])"
    using t l c(1) by (simp add: dyn_mem_proc_turn_def RES_FREE_NUM_def)
  moreover have "map (\<lambda>i. word_at (kmm (ds w)) (res_at r i)) [0..<2] = holds w M (Release r)"
    using c(2,3) ws l by (simp add: upt_rec numeral_2_eq_2)
  ultimately show ?thesis by simp
qed

lemma turn_view:
  assumes v: "heap_view w M" and l: "g_res_list (ds w) = r # rest" and t: "dyn_mem_proc_turn (ds w) = Some d'"
  shows "heap_view (w\<lparr>ds := d'\<rparr>) (M |` (- set (holds w M (Release r))))" "krn d' = krn (ds w)" "g_res_list d' = rest"
proof -
  let ?w = "w\<lparr>ds := d'\<rparr>" and ?H = "holds w M (Release r)"
  have ac: "accounts M (holds w M)" and sh: "heap_shows (kmm (ds w)) M" and rec: "records_ok M (r # rest)"
    using v l by (simp_all add: heap_view_def)
  have nr: "r \<notin> set rest" using rec by (simp add: records_ok_def)
  note d' = turn_releases [OF v l t]
  have e: "krn d' = krn (ds w)" "g_res_list d' = rest" "queue_start d' = queue_start (ds w)" "bq_buf d' = bq_buf (ds w)" by (simp_all add: d')
  have h: "holds ?w M = (holds w M)(Release r := [])"
  proof
    fix x
    show "holds ?w M x = ((holds w M)(Release r := [])) x" using e l nr by (cases x) (auto simp: obj_bufs_def)
  qed
  have dw: "ds ?w = d'" by simp
  show "heap_view ?w (M |` (- set ?H))"
  proof (rule lose_view [OF v _ _ _ _ _ h])
    show "heap_shows (kmm (ds ?w)) (M |` (- set ?H))"
      unfolding dw unfolding d' by (rule free_list_shows [OF _ accounts_distinct [OF ac] accounts_held [OF ac]]) (simp add: sh)
    show "keeps_records ?w M (M |` (- set ?H))"
      unfolding keeps_records_def
    proof
      fix r' assume r': "r' \<in> set (g_res_list (ds ?w))"
      then have "r' - 4 \<in> set (holds w M (Release r'))" "r' \<noteq> r" using e(2) l nr by auto
      then have "r' - 4 \<notin> set ?H" using accounts_one [OF ac, of "r' - 4" "Release r'" "Release r"] by auto
      then show "(M |` (- set ?H)) (r' - 4) = M (r' - 4)" by (simp add: restrict_map_def)
    qed
    show "records_ok M (g_res_list (ds ?w))" using rec e(2) by (simp add: records_ok_def)
  qed simp_all
  show "krn d' = krn (ds w)" "g_res_list d' = rest" by (rule e)+
qed

lemma turn_step_ok:
  assumes v: "heap_view w M" and k: "kernel_ok (krn (ds w))" and t: "dyn_mem_proc_turn (ds w) = Some d'"
  shows "step_ok w (w\<lparr>ds := d'\<rparr>)"
proof -
  obtain r rest where l: "g_res_list (ds w) = r # rest" using t by (auto simp: dyn_mem_proc_turn_def split: list.splits)
  show ?thesis using turn_view [OF v l t] k by (auto intro!: step_ok_heap)
qed

text \<open>The deletion of a task passes its memory to the record that it leaves.\<close>

lemma write_again:
  "heap_shows h (M(b \<mapsto> ws)) \<Longrightarrow> k < length ws \<Longrightarrow> heap_shows (store h (b + 4 * of_nat k) v) (M(b \<mapsto> ws[k := v]))"
  using write_shows [of h "M(b \<mapsto> ws)" b ws k v] by (simp only: fun_upd_same fun_upd_upd simp_thms)

lemma res_written_shows:
  assumes sh: "heap_shows h M" and ws: "M base = Some ws"
  shows "heap_shows (res_written h base t) (M(base \<mapsto> ws[1 := 2, 2 := base, 3 := of_nat t]))"
proof -
  have len: "8 \<le> length ws" by (rule shows_place(3) [OF sh ws])
  define h1 where "h1 = store h (base + 4) 0"
  define h2 where "h2 = store h1 (base + 8) base"
  define h3 where "h3 = store h2 (base + 12) (of_nat t)"
  have s1: "heap_shows h1 (M(base \<mapsto> ws[1 := 0]))" using write_shows [OF sh ws, of 1] len by (simp add: h1_def)
  have s2: "heap_shows h2 (M(base \<mapsto> ws[1 := 0, 2 := base]))" using write_again [OF s1, of 2] len by (simp add: h2_def)
  have s3: "heap_shows h3 (M(base \<mapsto> ws[1 := 0, 2 := base, 3 := of_nat t]))" using write_again [OF s2, of 3] len by (simp add: h3_def)
  have c: "word_at h3 (base + 4) = 0" using shows_word [OF s3 fun_upd_same, of 1] len by simp
  have "heap_shows (store h3 (base + 4) 2) (M(base \<mapsto> ws[1 := 0, 2 := base, 3 := of_nat t, 1 := 2]))"
    using write_again [OF s3, of 1] len by simp
  moreover have "ws[1 := 0, 2 := base, 3 := of_nat t, 1 := 2] = ws[1 := 2, 2 := base, 3 := of_nat t]"
    by (rule nth_equalityI) (use len in \<open>auto simp: nth_list_update\<close>)
  moreover have "res_written h base t = store h3 (base + 4) 2"
    using c by (simp add: res_written_def Let_def RHINO_CONFIG_STK_CHK_WORDS_def cnt_at_def res_at_def h1_def h2_def h3_def ac_simps)
  ultimately show ?thesis by simp
qed

lemma task_del_view:
  assumes v: "heap_view w M" and k: "kernel_ok (krn (ds w))" and lv: "\<forall>t. task = Some t \<longrightarrow> live (tcb (krn (ds w)) t)"
    and sl: "g_sched_lock (krn (ds w)) \<noteq> - 1"
    and sem: "obj_type (blk (krn (ds w)) res_sem) = RHINO_SEM_OBJ_TYPE" "count (sems (krn (ds w)) res_sem) \<noteq> - 1"
    and r: "krhino_task_dyn_del res_sem (ds w) task = (ret, d')"
  obtains (refused) "ret \<noteq> RHINO_SUCCESS" "d' = ds w"
    | (deleted) t base ws where "ret = RHINO_SUCCESS" "t = (case task of None \<Rightarrow> g_active_task (krn (ds w)) | Some t \<Rightarrow> t)"
      "dyn_tasks (krn (ds w)) t = Some base" "task_change (krn (ds w)) t False base (krn d')" "steady (krn (ds w)) (krn d')"
      "heap_view (w\<lparr>ds := d'\<rparr>) (M(base \<mapsto> ws))" "g_res_list d' = g_res_list (ds w) @ [base + 4]"
      "ws ! 3 = of_nat t"
proof (rule krhino_task_dyn_del_effect [OF kernel_ok_parts [OF k] _ sl sem r])
  show "live (tcb (krn (ds w)) t)" if "task = Some t" for t using lv that by simp
next
  assume "ret \<noteq> RHINO_SUCCESS" "d' = ds w"
  then show ?thesis by (rule refused)
next
  fix t base
  define r where "r = base + 4 * RHINO_CONFIG_STK_CHK_WORDS"
  assume rt: "ret = RHINO_SUCCESS" "t = (case task of None \<Rightarrow> g_active_task (krn (ds w)) | Some t \<Rightarrow> t)"
  assume dt: "dyn_tasks (krn (ds w)) t = Some base" and c: "task_change (krn (ds w)) t False base (krn d')"
    and st: "steady (krn (ds w)) (krn d')"
    and d': "d' = (ds w)\<lparr>krn := krn d', kmm := res_written (kmm (ds w)) base t, g_res_list := g_res_list (ds w) @ [base + 4 * RHINO_CONFIG_STK_CHK_WORDS]\<rparr>"
  let ?w = "w\<lparr>ds := d'\<rparr>"
  have rb: "r - 4 = base" by (simp add: r_def RHINO_CONFIG_STK_CHK_WORDS_def)
  have e: "kmm d' = res_written (kmm (ds w)) base t" "g_res_list d' = g_res_list (ds w) @ [r]" "queue_start d' = queue_start (ds w)"
    "bq_buf d' = bq_buf (ds w)" by (subst d', simp add: r_def)+
  have ac: "accounts M (holds w M)" and sh: "heap_shows (kmm (ds w)) M" and rec: "records_ok M (g_res_list (ds w))"
    and sz: "sizes_ok M (mine w)" using v by (simp_all add: heap_view_def)
  have "M base \<noteq> None" by (rule accounts_held [OF ac, of base "Task t"]) (simp add: dt)
  then obtain ws where ws: "M base = Some ws" by blast
  have len: "8 \<le> length ws" by (rule shows_place(3) [OF sh ws])
  have nb: "r' - 4 \<noteq> base" if "r' \<in> set (g_res_list (ds w))" for r'
  proof
    assume "r' - 4 = base"
    then have "base \<in> set (holds w M (Release r'))" using that by simp
    then show False using accounts_one [OF ac, of base "Release r'" "Task t"] dt by simp
  qed
  then have nr: "r \<notin> set (g_res_list (ds w))" using rb by blast
  let ?ws = "ws[1 := 2, 2 := base, 3 := of_nat t]"
  let ?M = "M(base \<mapsto> ?ws)"
  note o = task_change_dyn [OF c]
  have "holds ?w ?M = (holds w M)(Task t := [], Release r := holds w M (Task t))"
  proof
    fix x
    show "holds ?w ?M x = ((holds w M)(Task t := [], Release r := holds w M (Task t))) x"
      using o(1,2) e(2-4) nr nb rb len dt by (cases x) (auto simp: obj_bufs_def)
  qed
  moreover have "accounts ?M ((holds w M)(Task t := [], Release r := holds w M (Task t)))"
  proof (rule accounts_dom)
    show "accounts M ((holds w M)(Task t := [], Release r := holds w M (Task t)))" by (rule accounts_pass [OF ac]) (simp_all add: nr)
  qed (use ws in simp)
  moreover have "records_ok ?M (g_res_list (ds ?w))" using rec nr nb rb len e(2) by (auto simp: records_ok_def)
  moreover have "sizes_ok ?M (mine ?w)" using sz ws by (fastforce simp: sizes_ok_def)
  moreover have "heap_shows (kmm (ds ?w)) ?M" using res_written_shows [OF sh ws] e(1) by simp
  ultimately have "heap_view ?w ?M" by (simp add: heap_view_def)
  moreover have "g_res_list d' = g_res_list (ds w) @ [base + 4]" using e(2) by (simp add: r_def RHINO_CONFIG_STK_CHK_WORDS_def)
  moreover have "?ws ! 3 = of_nat t" using len by simp
  ultimately show ?thesis using deleted [OF rt dt c st] by blast
qed

lemma task_del_step_ok:
  assumes v: "heap_view w M" and k: "kernel_ok (krn (ds w))" and lv: "\<forall>t. task = Some t \<longrightarrow> live (tcb (krn (ds w)) t)"
    and sl: "g_sched_lock (krn (ds w)) \<noteq> - 1"
    and sem: "obj_type (blk (krn (ds w)) res_sem) = RHINO_SEM_OBJ_TYPE" "count (sems (krn (ds w)) res_sem) \<noteq> - 1"
    and r: "krhino_task_dyn_del res_sem (ds w) task = (ret, d')"
  shows "step_ok w (w\<lparr>ds := d'\<rparr>)"
proof (cases rule: task_del_view [OF assms])
  case 1
  then show ?thesis using v k by (auto intro!: step_ok_heap)
next
  case (2 t base ws)
  then show ?thesis unfolding step_ok_def using kernel_ok_task [OF k 2(5,4)] by auto
qed


section \<open>Services and the application\<close>

lemma service_step_ok:
  assumes v: "heap_view w M" and k: "kernel_ok (krn (ds w))" and st: "kernel_step (krn (ds w)) s'"
    and n: "\<forall>ob. static_obj s' ob \<longrightarrow> static_obj (krn (ds w)) ob \<or> static_name ob"
      "\<forall>t. static_task s' t \<longrightarrow> static_task (krn (ds w)) t \<or> static_name t"
  shows "step_ok w (w\<lparr>ds := (ds w)\<lparr>krn := s'\<rparr>\<rparr>)"
proof -
  note g = good_steady [OF kernel_step_good [OF st kernel_ok_parts [OF k]]]
  let ?w = "w\<lparr>ds := (ds w)\<lparr>krn := s'\<rparr>\<rparr>"
  have s: "dyn_objs s' = dyn_objs (krn (ds w))" "dyn_tasks s' = dyn_tasks (krn (ds w))"
    using kernel_step_same_dyn [OF st kernel_ok_parts(2) [OF k]] by (simp_all add: dyn.same_as_def fun_eq_iff dyn_objs_def dyn_tasks_def)
  have "holds ?w M = holds w M"
  proof
    fix x show "holds ?w M x = holds w M x" using s by (cases x) (simp_all add: obj_bufs_def)
  qed
  then have "heap_view ?w M" using v by (simp add: heap_view_def)
  moreover have "kernel_ok s'" by (rule kernel_ok_steady [OF k g]) (use n in auto)
  ultimately show ?thesis using g unfolding step_ok_def by auto
qed

theorem dyn_step_ok:
  assumes "dyn_step w w'" and w: "world_ok w"
  shows "step_ok w w'"
proof -
  obtain M where v: "heap_view w M" and k: "kernel_ok (krn (ds w))" using w by (auto simp: world_ok_def)
  note kp = kernel_ok_parts [OF k] and del = object_delete_good [OF kernel_ok_parts [OF k]] begun_step_ok [OF v k]
  show ?thesis
    using assms(1)
  proof cases
    case (service s')
    then show ?thesis using service_step_ok [OF v k] by simp
  next
    case (mm_alloc ra n p d')
    have "krn d' = krn (ds w)" using mm_alloc(2) by (auto simp: dyn_alloc_def split: prod.splits)
    then show ?thesis using client_alloc_view [OF v k mm_alloc(2)] unfolding mm_alloc(1) by (intro step_ok_heap [OF k]) simp_all
  next
    case (mm_free p)
    then show ?thesis using client_free_view [OF v] by (auto intro!: step_ok_heap [OF k])
  next
    case (mm_store p n k' v')
    then show ?thesis using client_store_view [OF v] by (auto intro!: step_ok_heap [OF k])
  next
    case (sem_create ra null name cnt ret ob d')
    show ?thesis unfolding sem_create(1)
      by (rule create_step_ok [OF v k _ _ _ _ _ sem_create(2) [unfolded krhino_sem_dyn_create_def]])
        (rule object_creates(1), erule (2) object_create_good(1), simp_all)
  next
    case (mutex_create ra null name ret ob d')
    show ?thesis unfolding mutex_create(1)
      by (rule create_step_ok [OF v k _ _ _ _ _ mutex_create(2) [unfolded krhino_mutex_dyn_create_def]])
        (rule object_creates(2), erule (2) object_create_good(2), simp_all)
  next
    case (event_create ra null name flags ret ob d')
    show ?thesis unfolding event_create(1)
      by (rule create_step_ok [OF v k _ _ _ _ _ event_create(2) [unfolded krhino_event_dyn_create_def]])
        (rule object_creates(3), erule (2) object_create_good(3), simp_all)
  next
    case (queue_create msg_num ra ra' null name ret ob d')
    then show ?thesis using queue_step_ok [OF v k queue_create(2,3)] by simp
  next
    case (buf_queue_create sz ra ra' null name max_msg ret ob d')
    then show ?thesis using buf_queue_step_ok [OF v k buf_queue_create(2,3) [unfolded krhino_buf_queue_dyn_create_def]] by simp
  next
    case (fix_buf_queue_create msg_size msg_num ra ra' null name ret ob d')
    then show ?thesis using buf_queue_step_ok [OF v k fix_buf_queue_create(2,3) [unfolded krhino_fix_buf_queue_dyn_create_def]] by simp
  next
    case (task_create stack pri autorun deathbed ra ra' null name arg ticks entry ret t d')
    then show ?thesis using task_step_ok [OF v k task_create(2-4) task_create(5) [unfolded krhino_task_dyn_create_def]] by simp
  next
    case (sem_del ob)
    show ?thesis unfolding sem_del by (rule del(6) [OF _ object_deletes(1) del(1)]) simp
  next
    case (mutex_del ob)
    show ?thesis unfolding mutex_del by (rule del(6) [OF _ object_deletes(2) del(2)]) simp
  next
    case (event_del ob)
    show ?thesis unfolding event_del by (rule del(6) [OF _ object_deletes(3) del(3)]) simp
  next
    case (queue_del ob)
    show ?thesis unfolding queue_del by (rule del(6) [OF _ object_deletes(4) del(4)]) simp
  next
    case (buf_queue_del ob)
    show ?thesis unfolding buf_queue_del by (rule del(6) [OF _ object_deletes(5) del(5)]) simp
  next
    case (del_end ob)
    show ?thesis unfolding del_end(1) by (rule ended_step_ok [OF v k]) (use del_end(2) in \<open>auto simp: dyn_del_end_def obj_bufs_def\<close>)
  next
    case (queue_del_end ob)
    show ?thesis unfolding queue_del_end(1)
      by (rule ended_step_ok [OF v k]) (use queue_del_end(2) in \<open>simp add: krhino_queue_dyn_del_end_def obj_bufs_def\<close>)
  next
    case (buf_queue_del_end ob)
    show ?thesis unfolding buf_queue_del_end(1)
      by (rule ended_step_ok [OF v k]) (use buf_queue_del_end(2) in \<open>simp add: krhino_buf_queue_dyn_del_end_def obj_bufs_def\<close>)
  next
    case (task_del task res_sem ret d')
    then show ?thesis using task_del_step_ok [OF v k task_del(2-6)] by simp
  next
    case (mem_proc d')
    then show ?thesis using turn_step_ok [OF v k mem_proc(2)] by simp
  qed
qed

theorem dyn_runs_ok:
  assumes "dyn_runs w w'" "world_ok w"
  shows "world_ok w' \<and> steady (krn (ds w)) (krn (ds w'))"
  using assms
proof (induction rule: dyn_runs.induct)
  case (dyn_start w)
  then show ?case by (auto simp: world_ok_def kernel_ok_def intro: steady_refl)
next
  case (dyn_more w w1 w2)
  then have "world_ok w1" "steady (krn (ds w)) (krn (ds w1))" by simp_all
  moreover have "step_ok w1 w2" by (rule dyn_step_ok [OF dyn_more(2) \<open>world_ok w1\<close>])
  ultimately show ?case by (auto simp: step_ok_def world_ok_def intro: steady_trans)
qed

end
