(* ===== verification/Dyn_Boot.thy ===== *)
theory Dyn_Boot
  imports Dyn_Safety Mm_Api Sample
begin

text \<open>
  The boot with the heap leaves a state as theory \<open>Dyn_World\<close> wants it, with nothing on the heap; and what the accounts
  say of deleted tasks, and of a system that has deleted what it made.
\<close>

section \<open>The kernel after the boot\<close>

text \<open>The boot of theory \<open>K_Boot\<close> does not see what is beside its state.\<close>

lemma workqueue_create_apart:
  assumes "krn s' = krn s" "workqueues s' = workqueues s" "g_workqueue_list_head s' = g_workqueue_list_head s"
  shows "krn (snd (krhino_workqueue_create deathbed entry s' q name pri stack sz)) =
    krn (snd (krhino_workqueue_create deathbed entry s q name pri stack sz))"
  using assms by (simp add: krhino_workqueue_create_def Let_def split_def workqueue_is_exist_def)

lemma init_apart:
  assumes "krn s' = krn s" "workqueues s' = workqueues s"
  shows "krn (snd (krhino_init im s')) = krn (snd (krhino_init im s))"
proof -
  have t: "krn (ktimer_init im a) = krn (ktimer_init im b)" if "krn a = krn b" for a b
    using that by (simp add: ktimer_init_def Let_def)
  show ?thesis
    unfolding krhino_init_def Let_def snd_conv workqueue_init_def
    by (intro t workqueue_create_apart) (use assms in simp_all)
qed

definition zero_dsys :: "image \<Rightarrow> heap \<Rightarrow> dsys" where
  "zero_dsys im h = wsys.extend (zero_memory im) \<lparr>kmm = h, queue_start = \<lambda>_. 0, bq_buf = \<lambda>_. 0, g_res_list = []\<rparr>"

lemma zero_dsys_parts [simp]:
  "krn (zero_dsys im h) = krn (zero_memory im)" "workqueues (zero_dsys im h) = workqueues (zero_memory im)"
  "kmm (zero_dsys im h) = h" "g_res_list (zero_dsys im h) = []"
  by (simp_all add: zero_dsys_def wsys.defs)

lemma init_keeps: 
  "kmm (snd (krhino_init im d)) = kmm d" "g_res_list (snd (krhino_init im d)) = g_res_list d"
  "queue_start (snd (krhino_init im d)) = queue_start d" "bq_buf (snd (krhino_init im d)) = bq_buf d"
  by (simp_all add: krhino_init_def ktimer_init_def workqueue_init_def krhino_workqueue_create_def Let_def split_def on_kernel_def upd_wq_def)

text \<open>What exists and how it was made.\<close>

definition only :: "kernel \<Rightarrow> oid set \<Rightarrow> tid set \<Rightarrow> bool" where
  "only s O' T \<longleftrightarrow> (\<forall>ob. obj_type (blk s ob) \<noteq> RHINO_OBJ_TYPE_NONE \<longrightarrow> ob \<in> O' \<and> obj_mm_flag (blk s ob) = K_OBJ_STATIC_ALLOC) \<and>
     (\<forall>t. live (tcb s t) \<longrightarrow> t \<in> T \<and> task_mm_flag (tcb s t) = K_OBJ_STATIC_ALLOC)"

lemma only_mono: "only s O' T \<Longrightarrow> O' \<subseteq> O2 \<Longrightarrow> T \<subseteq> T2 \<Longrightarrow> only s O2 T2"
  unfolding only_def by blast

lemma only_same: "only s O' T \<Longrightarrow> kinds.same_as s s' \<Longrightarrow> only s' O' T"
  by (simp add: only_def kinds.same_as_def task_kind_def obj_kind_def)

lemma only_object:
  "only s O' T \<Longrightarrow> ob \<in> O' \<Longrightarrow> obj_mm_flag b = K_OBJ_STATIC_ALLOC \<Longrightarrow> only (upd_blk s ob (\<lambda>_. b)) O' T"
  by (simp add: only_def)

lemma only_task:
  "only s O' T \<Longrightarrow> t \<in> T \<Longrightarrow> task_mm_flag k = K_OBJ_STATIC_ALLOC \<Longrightarrow> only (upd_task s t (\<lambda>_. k)) O' T"
  by (simp add: only_def)

lemma only_creates:
  assumes "only s O' T" "ob \<in> O'"
  shows "only (snd (krhino_sem_create s (Some ob) name cnt)) O' T"
    "only (snd (krhino_fix_buf_queue_create s (Some ob) name buf sz n)) O' T"
proof -
  show "only (snd (krhino_sem_create s (Some ob) name cnt)) O' T"
    using assms by (cases name) (simp_all add: only_def krhino_sem_create_def sem_create_def Let_def)
  show "only (snd (krhino_fix_buf_queue_create s (Some ob) name buf sz n)) O' T"
    using assms by (cases name; cases buf) (simp_all add: only_def krhino_fix_buf_queue_create_def buf_queue_create_def Let_def)
qed

lemma only_gone:
  assumes "only s O' T"
  shows "only (snd (krhino_sem_del s o1)) O' T"
proof (cases o1)
  case None
  then show ?thesis using assms by (simp add: krhino_sem_del_def)
next
  case (Some ob)
  let ?s = "upd_blk s ob (\<lambda>b. b\<lparr>obj_type := RHINO_OBJ_TYPE_NONE\<rparr>)"
  have o: "only ?s O' T" using assms by (simp add: only_def)
  have "kinds.same_as ?s (core_sched ((wake_all pend_task_rm ob ?s)\<lparr>g_kobj_list := l\<rparr>))" for l
    by (intro kinds.same_rest kinds.same_wake_all kinds.same_refl)
  then have "only (core_sched ((wake_all pend_task_rm ob ?s)\<lparr>g_kobj_list := l\<rparr>)) O' T" for l by (rule only_same [OF o])
  then show ?thesis using Some assms by (simp add: krhino_sem_del_def Let_def)
qed

lemma only_task_create:
  assumes "only s O' T" "t \<in> T"
  shows "only (snd (krhino_task_create deathbed s (Some t) name arg pri ticks buf sz entry autorun)) O' T"
proof (cases "name = None \<or> entry = None \<or> buf = None")
  case True
  then show ?thesis using assms(1) by (auto simp: krhino_task_create_def task_create_def split: option.splits)
next
  case False
  then obtain nm en base where e: "name = Some nm" "entry = Some en" "buf = Some base" by auto
  define k where "k = task_init deathbed (Some nm) arg pri ticks base sz en autorun K_OBJ_STATIC_ALLOC"
  have k: "task_mm_flag (fst k) = K_OBJ_STATIC_ALLOC" by (simp add: k_def task_init_def Let_def split: option.split prod.split)
  have c: "only s' O' T" if "kinds.same_as (upd_task s t (\<lambda>_. fst k)) s'" for s' by (rule only_same [OF only_task [OF assms k] that])
  show ?thesis
    unfolding krhino_task_create_def task_create_def e
    by (auto simp: k_def [symmetric] split_def Let_def upd_task_def add_trap_def core_sched_def cpu_task_switch_def assms(1)
        intro!: c kinds.same_cong split: option.split)
qed

lemma only_workqueue:
  assumes "only (krn s) O' T" "wq_sem (workqueues s q) \<in> O'" "wq_worker (workqueues s q) \<in> T"
  shows "only (krn (snd (krhino_workqueue_create deathbed entry s q name pri stack sz))) O' T"
  using assms by (auto simp: krhino_workqueue_create_def Let_def split_def intro!: only_gone only_task_create only_creates)

lemma only_booted:
  "only (krn (booted im)) {im_res_sem im, im_worker_sem im, g_timer_queue} {im_dyn_task im, im_idle_task im, im_worker im, im_timer_task im}"
    (is "only _ ?O ?T")
proof -
  define k4 where "k4 = tick_list_init (zero_kernel\<lparr>g_sys_stat := RHINO_STOPPED, g_ready_queue := runqueue_init (g_ready_queue zero_kernel)\<rparr>)
    \<lparr>g_kobj_list := kobj_list_init\<rparr>"
  have "only zero_kernel ?O ?T" by (simp add: only_def zero_kernel_def blank_task_def live_def)
  then have 4: "only k4 ?O ?T" by (rule only_same) (simp add: k4_def kinds.same_as_def tick_list_init_def)
  define k5 where "k5 = snd (krhino_sem_create k4 (Some (im_res_sem im)) (Some ''res_sem'') 0)"
  have 5: "only k5 ?O ?T" unfolding k5_def by (rule only_creates(1) [OF 4]) simp
  define k6 where "k6 = dyn_mem_proc_task_start im k5"
  have 6: "only k6 ?O ?T" unfolding k6_def dyn_mem_proc_task_start_def by (rule only_task_create [OF 5]) simp
  define k7 where "k7 = snd (krhino_task_create (im_deathbed im) k6 (Some (im_idle_task im)) (Some ''idle_task'') 0
    RHINO_IDLE_PRI 0 (Some (im_idle_stack im)) RHINO_CONFIG_IDLE_TASK_STACK_SIZE (Some (im_idle_entry im)) 1)"
  have 7: "only k7 ?O ?T" unfolding k7_def by (rule only_task_create [OF 6]) simp
  define s8 where "s8 = workqueue_init (im_deathbed im) (im_worker_entry im) (im_workqueue_stack im) ((zero_memory im)\<lparr>krn := k7\<rparr>)"
  have 8: "only (krn s8) ?O ?T" unfolding s8_def workqueue_init_def by (rule only_workqueue) (simp_all add: zero_memory_def 7)
  have b: "krn (booted im) = krn (ktimer_init im s8)"
    by (simp add: booted_def krhino_init_def Let_def s8_def k7_def k6_def k5_def k4_def zero_memory_def)
  show ?thesis unfolding b ktimer_init_def Let_def on_kernel_frame
    by (intro only_task_create only_creates(2)) (simp_all add: 8)
qed

text \<open>What the linker places has names that are no addresses of the heap.\<close>

definition image_apart :: "image \<Rightarrow> bool" where
  "image_apart im \<longleftrightarrow> (\<forall>n \<in> {im_res_sem im, im_worker_sem im, im_dyn_task im, im_idle_task im, im_worker im, im_timer_task im}. static_name n)"

lemma started_ok:
  assumes "image_ok im" "image_apart im"
  shows "kernel_ok (started im)" "dyn_objs (started im) = (\<lambda>_. RHINO_OBJ_TYPE_NONE)" "dyn_tasks (started im) = (\<lambda>_. None)"
proof -
  have b: "tcb (started im) = tcb (krn (booted im))" "blk (started im) = blk (krn (booted im))"
    by (simp_all add: started_def krhino_start_def add_trap_def split: option.split)
  note o = only_booted [of im, unfolded only_def, folded b]
  have "statics_ok (started im)"
    using o assms(2) by (auto simp: statics_ok_def static_obj_def static_task_def image_apart_def static_name_def g_timer_queue_def)
  then show "kernel_ok (started im)" using started_good [OF assms(1)] by (simp add: kernel_ok_def)
  show "dyn_objs (started im) = (\<lambda>_. RHINO_OBJ_TYPE_NONE)" "dyn_tasks (started im) = (\<lambda>_. None)"
    using o by (auto simp: fun_eq_iff dyn_objs_def obj_part_def dyn_tasks_def dyn_part_def config_defs)
qed

section \<open>The first state\<close>

definition boot_world :: "image \<Rightarrow> (u32 \<times> u32) list \<Rightarrow> heap \<Rightarrow> world" where
  "boot_world im regions h =
     (let d = snd (krhino_init_mm im regions (zero_dsys im h))
      in \<lparr>ds = d\<lparr>krn := snd (krhino_start (krn d))\<rparr>, mine = \<lambda>_. None, deleting = \<lambda>_. RHINO_OBJ_TYPE_NONE\<rparr>)"

lemma boot_world_parts [simp]:
  "krn (ds (boot_world im regions h)) = started im" "kmm (ds (boot_world im regions h)) = k_mm_init h regions"
  "g_res_list (ds (boot_world im regions h)) = []" "mine (boot_world im regions h) = (\<lambda>_. None)"
  "deleting (boot_world im regions h) = (\<lambda>_. RHINO_OBJ_TYPE_NONE)"
proof -
  have "krn (snd (krhino_init_mm im regions (zero_dsys im h))) = krn (booted im)"
    unfolding krhino_init_mm_def Let_def booted_def by (rule init_apart) simp_all
  then show "krn (ds (boot_world im regions h)) = started im" by (simp add: boot_world_def started_def Let_def)
qed (simp_all add: boot_world_def krhino_init_mm_def Let_def init_keeps)

text \<open>A region of memory that the set-up accepts.\<close>

definition good_memory :: "u32 \<times> u32 \<Rightarrow> bool" where
  "good_memory r \<longleftrightarrow> (case r of (addr, len) \<Rightarrow> addr \<noteq> 0 \<and> unat addr + unat len < 2 ^ 32 \<and>
     9216 \<le> unat (MM_ALIGN_DOWN (len - (MM_ALIGN_UP addr - addr))) \<and> unat (MM_ALIGN_DOWN (len - (MM_ALIGN_UP addr - addr))) \<le> 2 ^ 20)"

lemma boot_world_ok:
  assumes "image_ok im" "image_apart im" "good_memory r"
  shows "world_ok (boot_world im [r] h)"
proof -
  obtain addr len where r: "r = (addr, len)" by fastforce
  obtain sta h' where i: "krhino_init_mm_head h False addr len = (sta, h')" by fastforce
  have sh: "heap_shows (k_mm_init h [r]) Map.empty"
    using init_head_shows [OF _ _ refl i] assms(3) by (simp add: good_memory_def k_mm_init_def r i)
  have "holds (boot_world im [r] h) Map.empty x = []" for x by (cases x) (simp_all add: started_ok [OF assms(1,2)] obj_bufs_def)
  then have "heap_view (boot_world im [r] h) Map.empty"
    using sh by (simp add: heap_view_def accounts_def records_ok_def sizes_ok_def)
  then show ?thesis using started_ok(1) [OF assms(1,2)] by (auto simp: world_ok_def)
qed

lemma runs_of_world:
  assumes "image_ok im" "image_apart im" "good_memory r" "dyn_runs (boot_world im [r] h) w"
  shows "world_ok w" "set (traps (krn (ds w))) \<subseteq> {Diverged}"
  using dyn_runs_ok [OF assms(4) boot_world_ok [OF assms(1-3)]] started_good [OF assms(1)] by (auto simp: steady_def)

end
