(* ===== verification/Dyn_Sample.thy ===== *)
theory Dyn_Sample
  imports Dyn_Boot
begin

text \<open>
  A heap of two buffers in use, a kernel with a task on that heap and a state of theory \<open>Dyn_World\<close> made of both, for the examples.
\<close>

section \<open>Regions whose memory is one buffer in use\<close>

definition busy_region :: "heap \<Rightarrow> u32 \<Rightarrow> heap" where
  "busy_region h R =
     (let g = region_set h R 0x100 0; z = last_of R 0x100; g1 = store g (prev_at z) (mid_of R)
      in store g1 (size_at z) (word_at g1 (size_at z) AND NOT RHINO_MM_PREVFREE))"

lemma busy_region_ok:
  assumes ok: "heap_ok h B E" and gr: "good_region R 0x100" and ap: "apart h B E R 0x100"
  defines "B' \<equiv> insert R (insert (mid_of R) B)" and "E' \<equiv> insert (last_of R 0x100) E"
  shows "heap_ok (busy_region h R) B' E'" "used_blocks (busy_region h R) B' = insert R (insert (mid_of R) (used_blocks h B))"
    "MM_GET_BUF_SIZE (busy_region h R) R = 8" "MM_GET_BUF_SIZE (busy_region h R) (mid_of R) = 200"
    "c \<in> B \<Longrightarrow> MM_GET_BUF_SIZE (busy_region h R) c = MM_GET_BUF_SIZE h c" "fix_pool (busy_region h R) = fix_pool h"
proof -
  define g where "g = region_set h R 0x100 0"
  note t = region_tiles [OF gr]
  have w: "words_only h g" unfolding g_def by (rule region_words(10) [OF gr refl])
  note f = words_only_frame [OF w]
  note m = region_mid [OF ok gr ap _ f(2,3), of 0, folded g_def, OF refl, folded B'_def E'_def]
  have size: "MM_GET_BUF_SIZE g (mid_of R) = 200" using m(3) by simp
  have nx: "last_of R 0x100 = succ (MM_GET_BUF_SIZE g) (mid_of R)" by (simp add: succ_def size)
  have b: "busy_region h R = (let g1 = store g (prev_at (last_of R 0x100)) (mid_of R)
      in store g1 (size_at (last_of R 0x100)) (word_at g1 (size_at (last_of R 0x100)) AND NOT RHINO_MM_PREVFREE))"
    unfolding busy_region_def g_def [symmetric] by (simp only: Let_def)
  note l = mid_link_next [OF m(1) nx b]
  have inB: "R \<in> B' \<union> E'" "mid_of R \<in> B' \<union> E'" by (simp_all add: B'_def)
  show s2: "MM_GET_BUF_SIZE (busy_region h R) (mid_of R) = 200" by (rule trans [OF l(2) [OF inB(2)] size])
  show "MM_GET_BUF_SIZE (busy_region h R) R = 8" by (rule trans [OF l(2) [OF inB(1)] m(4)])
  show u: "used_blocks (busy_region h R) B' = insert R (insert (mid_of R) (used_blocks h B))" using l(6) m(5) by simp
  have "mid_of R \<in> used_blocks (busy_region h R) B'" unfolding u by simp
  then have nf: "\<not> is_free (busy_region h R) (mid_of R)" by (simp add: used_blocks_def)
  show "heap_ok (busy_region h R) B' E'"
  proof (rule mid_done [OF l(1) nf])
    show "dyes (busy_region h R) (mid_of R) = RHINO_MM_CORRUPT_DYE" by (rule trans [OF l(4) [OF inB(2)] m(2)])
    have "succ (MM_GET_BUF_SIZE (busy_region h R)) (mid_of R) = last_of R 0x100" unfolding nx succ_def s2 size by simp
    then show "\<not> prev_is_free (busy_region h R) (succ (MM_GET_BUF_SIZE (busy_region h R)) (mid_of R))" using l(5) by simp
  qed
  show "MM_GET_BUF_SIZE (busy_region h R) c = MM_GET_BUF_SIZE h c" if "c \<in> B"
    using l(2) [of c] m(6) that by (simp add: keeps_def B'_def)
  show "fix_pool (busy_region h R) = fix_pool h" using f(4) by (simp add: b Let_def)
qed

text \<open>Two of them: buffers of 50 words at \<open>0x1028\<close> and \<open>0x2028\<close>.\<close>

definition two_heap :: heap where
  "two_heap = busy_region (busy_region (zero_mm_head raw_heap) 0x1000) 0x2000"

lemma two_heap_shows: "\<exists>xs ys. heap_shows two_heap [0x1028 \<mapsto> xs, 0x2028 \<mapsto> ys]"
proof -
  let ?g = "busy_region (zero_mm_head raw_heap) 0x1000"
  have gr: "good_region 0x1000 0x100" "good_region 0x2000 0x100" by (simp_all add: good_region_def aligned_def)
  have ap1: "apart (zero_mm_head raw_heap) {} {} 0x1000 0x100" by (simp add: apart_def)
  note a = busy_region_ok [OF empty_heap(1) gr(1) ap1]
  have ap2: "apart ?g {0x1000, 0x1018} {0x10F0} 0x2000 0x100" using a(3,4) by (simp add: apart_def)
  have ok1: "heap_ok ?g {0x1000, 0x1018} {0x10F0}" using a(1) by simp
  note b = busy_region_ok [OF ok1 gr(2) ap2, folded two_heap_def]
  have ue: "used_blocks (zero_mm_head raw_heap) {} = {}" by (simp add: used_blocks_def)
  have u1: "used_blocks ?g {0x1000, 0x1018} = {0x1000, 0x1018}" using a(2) ue by simp
  let ?B = "{0x2000, 0x2018, 0x1000, 0x1018} :: u32 set"
  have ok: "heap_ok two_heap ?B {0x20F0, 0x10F0}" using b(1) by simp
  have u: "used_blocks two_heap ?B = ?B" using b(2) u1 by simp
  have s: "MM_GET_BUF_SIZE two_heap 0x1000 = 8" "MM_GET_BUF_SIZE two_heap 0x1018 = 200" "MM_GET_BUF_SIZE two_heap 0x2000 = 8"
    "MM_GET_BUF_SIZE two_heap 0x2018 = 200" using a(3,4) b(3,4) b(5) [of "0x1000"] b(5) [of "0x1018"] by simp_all
  have fp: "fix_pool two_heap = 0" using b(6) a(6) empty_heap(3) by simp
  have "pool_ok two_heap (used_blocks two_heap ?B) {}" using fp by (simp add: pool_ok_def)
  then have sh: "heap_shows two_heap (view two_heap ?B {})" using ok u unfolding heap_shows_def by metis
  have "view two_heap ?B {} = [0x1028 \<mapsto> buf_words two_heap 0x1028 50, 0x2028 \<mapsto> buf_words two_heap 0x2028 50]"
  proof
    fix q
    have "MM_GET_THIS_BLK q \<in> ?B \<and> fix_pool two_heap \<noteq> q \<and> 32 \<le> unat (MM_GET_BUF_SIZE two_heap (MM_GET_THIS_BLK q)) \<longleftrightarrow> q = 0x1028 \<or> q = 0x2028"
      using s fp this_blk_iff [of q "0x1018"] this_blk_iff [of q "0x2018"] by (auto simp: buf_of_def)
    moreover have "MM_GET_THIS_BLK 0x1028 = 0x1018" "MM_GET_THIS_BLK 0x2028 = 0x2018" by (simp_all add: MM_GET_THIS_BLK_def head_size)
    ultimately show "view two_heap ?B {} q = [0x1028 \<mapsto> buf_words two_heap 0x1028 50, 0x2028 \<mapsto> buf_words two_heap 0x2028 50] q"
      using s by (auto simp: view_def)
  qed
  then show ?thesis using sh by metis
qed

section \<open>A task on the heap\<close>

text \<open>A semaphore in place of \<open>g_res_sem\<close>; a task with its stack in the first buffer and its control block in the second.\<close>

definition sem_kernel :: kernel where
  "sem_kernel = snd (krhino_sem_create (started sample_image) (Some 21) (Some ''s'') 0)"

definition sample_kernel :: kernel where
  "sample_kernel = snd (task_create 1 sem_kernel (Some 0x2028) (Some ''t'') 0 10 0 (Some 0x1028) 50 (Some 3) 1 K_OBJ_DYN_ALLOC)"

definition sample_world :: world where
  "sample_world = \<lparr>ds = (zero_dsys sample_image two_heap)\<lparr>krn := sample_kernel\<rparr>, mine = \<lambda>_. None, deleting = \<lambda>_. RHINO_OBJ_TYPE_NONE\<rparr>"

lemma sample_apart: "image_apart sample_image"
  by (simp add: image_apart_def sample_image_def static_name_def)

lemma sem_kernel_ok:
  "kernel_ok sem_kernel" "dyn_objs sem_kernel = (\<lambda>_. RHINO_OBJ_TYPE_NONE)" "dyn_tasks sem_kernel = (\<lambda>_. None)"
  "\<not> live (tcb sem_kernel 0x2028)" "g_intrpt_nested_level sem_kernel = 0" "g_sched_lock sem_kernel = 0"
  "obj_type (blk sem_kernel 21) = RHINO_SEM_OBJ_TYPE" "count (sems sem_kernel 21) = 0"
proof -
  let ?s = "started sample_image"
  note st = started_ok [OF sample_image_ok sample_apart]
  have b: "tcb ?s = tcb (krn (booted sample_image))" "blk ?s = blk (krn (booted sample_image))"
    by (simp_all add: started_def krhino_start_def add_trap_def split: option.split)
  note o = only_booted [of sample_image, unfolded only_def, folded b]
  have n: "obj_type (blk ?s 21) = RHINO_OBJ_TYPE_NONE" "\<not> live (tcb ?s 0x2028)"
    using o by (auto simp: sample_image_def g_timer_queue_def)
  have e: "tcb sem_kernel = tcb ?s" "blk sem_kernel = (blk ?s)(21 := blk sem_kernel 21)" "obj_type (blk sem_kernel 21) = RHINO_SEM_OBJ_TYPE"
    "obj_mm_flag (blk sem_kernel 21) = K_OBJ_STATIC_ALLOC" "count (sems sem_kernel 21) = 0"
    "g_intrpt_nested_level sem_kernel = g_intrpt_nested_level ?s" "g_sched_lock sem_kernel = g_sched_lock ?s"
    by (simp_all add: sem_kernel_def krhino_sem_create_def sem_create_def Let_def upd_sem_def)
  have g: "good ?s sem_kernel" unfolding sem_kernel_def
    by (rule krhino_sem_create_good [OF kernel_ok_parts [OF st(1)]]) (use n in simp)
  have so: "static_obj sem_kernel ob \<Longrightarrow> static_obj ?s ob \<or> static_name ob" for ob
  proof -
    assume a: "static_obj sem_kernel ob"
    have "blk sem_kernel ob = blk ?s ob" if "ob \<noteq> 21" using e(2) that by (metis fun_upd_other)
    then show ?thesis using a by (cases "ob = 21") (simp_all add: static_obj_def static_name_def)
  qed
  show "kernel_ok sem_kernel"
    by (rule kernel_ok_steady [OF st(1) good_steady [OF g] so]) (simp_all add: static_task_def e(1))
  show "dyn_objs sem_kernel = (\<lambda>_. RHINO_OBJ_TYPE_NONE)"
  proof
    fix ob
    have "blk sem_kernel ob = blk ?s ob" if "ob \<noteq> 21" using e(2) that by (metis fun_upd_other)
    then show "dyn_objs sem_kernel ob = RHINO_OBJ_TYPE_NONE"
      using fun_cong [OF st(2), of ob] e(4) by (cases "ob = 21") (simp_all add: dyn_objs_def)
  qed
  show "dyn_tasks sem_kernel = (\<lambda>_. None)" using st(3) by (simp add: dyn_tasks_def [abs_def] e(1))
  show "\<not> live (tcb sem_kernel 0x2028)" using n(2) e(1) by simp
  have f: "fresh [im_dyn_task sample_image, im_idle_task sample_image, im_worker sample_image, im_timer_task sample_image] (krn (booted sample_image))"
    using booted_fresh [OF sample_image_ok] by blast
  have "g_intrpt_nested_level ?s = 0 \<and> g_sched_lock ?s = 0"
    using f by (simp add: fresh_def started_def krhino_start_def add_trap_def split: option.split)
  then show "g_intrpt_nested_level sem_kernel = 0" "g_sched_lock sem_kernel = 0" by (simp_all add: e(6,7))
qed (simp_all add: sem_kernel_def krhino_sem_create_def sem_create_def Let_def upd_sem_def)

lemma sample_kernel_ok:
  "kernel_ok sample_kernel" "task_change sem_kernel 0x2028 True 0x1028 sample_kernel" "steady sem_kernel sample_kernel"
  "prio (tcb sample_kernel 0x2028) = 10" "live (tcb sample_kernel 0x2028)" "task_mm_flag (tcb sample_kernel 0x2028) = K_OBJ_DYN_ALLOC"
  "g_intrpt_nested_level sample_kernel = 0" "g_sched_lock sample_kernel = 0" "obj_type (blk sample_kernel 21) = RHINO_SEM_OBJ_TYPE"
  "count (sems sample_kernel 21) = 0"
proof -
  let ?r = "task_create 1 sem_kernel (Some 0x2028) (Some ''t'') 0 10 0 (Some 0x1028) 50 (Some 3) 1 K_OBJ_DYN_ALLOC"
  note b = sem_kernel_ok
  have c: "fst ?r = RHINO_SUCCESS" using b(5) by (simp add: task_create_def config_defs Let_def split_def)
  have fit: "stack_fits 0x1028 50" by (rule heap_stack_fits) simp_all
  have g: "good sem_kernel sample_kernel" unfolding sample_kernel_def
    by (rule task_create_good [OF kernel_ok_parts [OF b(1)]]) (use b(4) fit in \<open>simp_all add: config_defs\<close>)
  show tc: "task_change sem_kernel 0x2028 True 0x1028 sample_kernel"
    using task_creates [OF refl [of ?r]] c unfolding sample_kernel_def by auto
  show st: "steady sem_kernel sample_kernel" by (rule good_steady [OF g])
  show "kernel_ok sample_kernel" by (rule kernel_ok_task [OF b(1) st tc])
  have k: "task_kind (tcb sample_kernel 0x2028) = (True, K_OBJ_DYN_ALLOC, 0x1028)" using tc by (simp add: task_change_def)
  then show "live (tcb sample_kernel 0x2028)" "task_mm_flag (tcb sample_kernel 0x2028) = K_OBJ_DYN_ALLOC" by (simp_all add: task_kind_def)
  have e: "tcb sample_kernel 0x2028 = fst (task_init 1 (Some ''t'') 0 10 0 0x1028 50 3 1 K_OBJ_DYN_ALLOC)"
    "g_intrpt_nested_level sample_kernel = g_intrpt_nested_level sem_kernel" "g_sched_lock sample_kernel = g_sched_lock sem_kernel"
    "blk sample_kernel = blk sem_kernel" "sems sample_kernel = sems sem_kernel"
    using b(5) by (simp_all add: sample_kernel_def task_create_def config_defs Let_def split_def core_sched_def cpu_task_switch_def
        add_trap_def split: option.split)
  show "prio (tcb sample_kernel 0x2028) = 10" by (simp add: e(1) task_init_def Let_def split: option.split prod.split)
  show "g_intrpt_nested_level sample_kernel = 0" "g_sched_lock sample_kernel = 0" "obj_type (blk sample_kernel 21) = RHINO_SEM_OBJ_TYPE"
    "count (sems sample_kernel 21) = 0" by (simp_all add: e b)
qed

section \<open>The state\<close>

lemma sample_world_parts [simp]:
  "krn (ds sample_world) = sample_kernel" "kmm (ds sample_world) = two_heap" "g_res_list (ds sample_world) = []"
  "mine sample_world = (\<lambda>_. None)" "deleting sample_world = (\<lambda>_. RHINO_OBJ_TYPE_NONE)"
  by (simp_all add: sample_world_def)

lemma sample_world_view: "\<exists>xs ys. heap_view sample_world [0x1028 \<mapsto> xs, 0x2028 \<mapsto> ys]"
proof -
  obtain xs ys where sh: "heap_shows two_heap [0x1028 \<mapsto> xs, 0x2028 \<mapsto> ys]" using two_heap_shows by blast
  let ?h0 = "zero_mm_head raw_heap"
  let ?d0 = "(zero_dsys sample_image ?h0)\<lparr>krn := sem_kernel\<rparr>"
  let ?w0 = "\<lparr>ds = ?d0, mine = \<lambda>_. None, deleting = \<lambda>_. RHINO_OBJ_TYPE_NONE\<rparr>"
  have "view ?h0 (used_blocks ?h0 {}) {} = Map.empty" by (auto simp: fun_eq_iff view_def used_blocks_def)
  then have sh0: "heap_shows ?h0 Map.empty" using empty_heap(1,2) [of raw_heap] unfolding heap_shows_def
    by (metis (no_types, lifting) used_blocks_def Collect_empty_eq empty_iff)
  have "holds ?w0 Map.empty x = []" for x by (cases x) (simp_all add: sem_kernel_ok obj_bufs_def)
  then have v: "heap_view ?w0 Map.empty" using sh0 by (simp add: heap_view_def accounts_def records_ok_def sizes_ok_def)
  have g: "gained Map.empty [0x1028, 0x2028] [0x1028 \<mapsto> xs, 0x2028 \<mapsto> ys]" by (auto simp: gained_def)
  have d: "ds sample_world = ?d0\<lparr>krn := sample_kernel, kmm := two_heap\<rparr>" by (simp add: sample_world_def zero_dsys_def wsys.defs)
  have "heap_view (?w0\<lparr>ds := ds sample_world\<rparr>) [0x1028 \<mapsto> xs, 0x2028 \<mapsto> ys]"
    by (rule task_made_view [OF v _ _ g]) (use sem_kernel_ok(1) sample_kernel_ok(2) sh d in simp_all)
  moreover have e: "?w0\<lparr>ds := ds sample_world\<rparr> = sample_world" by (simp add: sample_world_def)
  ultimately have "heap_view sample_world [0x1028 \<mapsto> xs, 0x2028 \<mapsto> ys]" unfolding e by simp
  then show ?thesis by blast
qed

end
