(* ===== verification/Dyn_Props.thy ===== *)
theory Dyn_Props
  imports Dyn_Sample
begin

text \<open>
  What the accounts of theory \<open>Dyn_World\<close> say: the memory of a deleted task returns, a system that has deleted what
  it made has lost nothing, and a creation that fails leaves nothing behind.
\<close>

section \<open>The task that releases memory\<close>

lemma loop_empties:
  "g_res_list (dyn_mem_proc_loop d) = []" "krn (dyn_mem_proc_loop d) = krn d"
proof (induction d rule: dyn_mem_proc_loop.induct)
  case (1 d)
  have t: "krn d' = krn d" if "dyn_mem_proc_turn d = Some d'" for d'
    using that by (auto simp: dyn_mem_proc_turn_def Let_def split: list.splits if_splits)
  show "g_res_list (dyn_mem_proc_loop d) = []"
  proof (cases "dyn_mem_proc_turn d")
    case None
    then have "g_res_list d = []" by (auto simp: dyn_mem_proc_turn_def Let_def split: list.splits)
    then show ?thesis using None by (simp add: dyn_mem_proc_loop.simps [of d])
  next
    case (Some d')
    then show ?thesis using 1(1) [OF Some] by (simp add: dyn_mem_proc_loop.simps [of d])
  qed
  show "krn (dyn_mem_proc_loop d) = krn d"
  proof (cases "dyn_mem_proc_turn d")
    case None
    then show ?thesis by (simp add: dyn_mem_proc_loop.simps [of d])
  next
    case (Some d')
    then show ?thesis using 1(2) [OF Some] t [OF Some] by (simp add: dyn_mem_proc_loop.simps [of d])
  qed
qed

text \<open>Its loop is a run.\<close>

lemma loop_runs: "dyn_runs w1 w \<Longrightarrow> dyn_runs w1 (w\<lparr>ds := dyn_mem_proc_loop (ds w)\<rparr>)"
proof (induction "ds w" arbitrary: w rule: dyn_mem_proc_loop.induct)
  case 1
  show ?case
  proof (cases "dyn_mem_proc_turn (ds w)")
    case None
    then show ?thesis using 1(2) by (simp add: dyn_mem_proc_loop.simps [of "ds w"])
  next
    case (Some d')
    have "dyn_runs w1 (w\<lparr>ds := d'\<rparr>)" by (rule dyn_more [OF 1(2) mem_proc [OF Some]])
    then have "dyn_runs w1 ((w\<lparr>ds := d'\<rparr>)\<lparr>ds := dyn_mem_proc_loop (ds (w\<lparr>ds := d'\<rparr>))\<rparr>)"
      using 1(1) [of "w\<lparr>ds := d'\<rparr>"] Some by simp
    then show ?thesis using Some by (simp add: dyn_mem_proc_loop.simps [of "ds w"])
  qed
qed

lemma task_memory_returns:
  assumes v: "heap_view w M" and k: "kernel_ok (krn (ds w))" and e: "g_res_list (ds w) = []"
    and lv: "\<forall>t. task = Some t \<longrightarrow> live (tcb (krn (ds w)) t)" and sl: "g_sched_lock (krn (ds w)) \<noteq> - 1"
    and sem: "obj_type (blk (krn (ds w)) res_sem) = RHINO_SEM_OBJ_TYPE" "count (sems (krn (ds w)) res_sem) \<noteq> - 1"
    and r: "krhino_task_dyn_del res_sem (ds w) task = (RHINO_SUCCESS, d')"
    and t: "t = (case task of None \<Rightarrow> g_active_task (krn (ds w)) | Some t \<Rightarrow> t)"
  shows "\<not> live (tcb (krn d') t) \<and> g_res_list (dyn_mem_proc_loop d') = [] \<and>
    (\<exists>base. dyn_tasks (krn (ds w)) t = Some base \<and> heap_shows (kmm (dyn_mem_proc_loop d')) (M |` (- {base, of_nat t})))"
proof (cases rule: task_del_view [OF v k lv sl sem r])
  case 1
  then show ?thesis by simp
next
  case (2 t' base ws)
  have t': "t' = t" using 2(2) t by simp
  let ?w = "w\<lparr>ds := d'\<rparr>" and ?M = "M(base \<mapsto> ws)"
  have l: "g_res_list (ds ?w) = (base + 4) # []" using 2(7) e by simp
  obtain d2 where d2: "dyn_mem_proc_turn d' = Some d2" using l by (auto simp: dyn_mem_proc_turn_def Let_def)
  have d2': "dyn_mem_proc_turn (ds ?w) = Some d2" using d2 by simp
  note tv = turn_view [OF 2(6) l d2']
  have h: "holds ?w ?M (Release (base + 4)) = [base, of_nat t]" using l 2(8) t' by simp
  have v2: "heap_view (?w\<lparr>ds := d2\<rparr>) (?M |` (- {base, of_nat t}))" "g_res_list d2 = []"
    using tv(1) [unfolded h] tv(3) by simp_all
  have n: "dyn_mem_proc_turn d2 = None" using v2(2) by (simp add: dyn_mem_proc_turn_def)
  have lp: "dyn_mem_proc_loop d' = d2"
    using d2 n by (simp add: dyn_mem_proc_loop.simps [of d'] dyn_mem_proc_loop.simps [of d2])
  have "?M |` (- {base, of_nat t}) = M |` (- {base, of_nat t})" by (auto simp: restrict_map_def fun_eq_iff)
  then have "heap_shows (kmm d2) (M |` (- {base, of_nat t}))" using v2(1) by (simp add: heap_view_def)
  moreover have "\<not> live (tcb (krn d') t)" using 2(4) t' by (simp add: task_change_def task_kind_def)
  ultimately show ?thesis using 2(3) t' lp v2(2) by auto
qed

section \<open>Nothing is lost\<close>

lemma accounts_of_client:
  assumes "heap_view w M" "\<forall>ob. dyn_objs (krn (ds w)) ob = RHINO_OBJ_TYPE_NONE" "\<forall>t. dyn_tasks (krn (ds w)) t = None"
    and "\<forall>ob. deleting w ob = RHINO_OBJ_TYPE_NONE" "g_res_list (ds w) = []"
  shows "dom M = dom (mine w)"
proof -
  have a: "M p \<noteq> None \<longleftrightarrow> (\<exists>x. p \<in> set (holds w M x))" for p using assms(1) by (auto simp: heap_view_def accounts_def)
  have "p \<in> set (holds w M x) \<Longrightarrow> mine w p \<noteq> None" for p x using assms(2-5) by (cases x) (auto simp: obj_bufs_def split: if_splits)
  moreover have "mine w p \<noteq> None \<Longrightarrow> p \<in> set (holds w M (Client p))" for p by simp
  ultimately have "M p \<noteq> None \<longleftrightarrow> mine w p \<noteq> None" for p using a by blast
  then show ?thesis by (auto simp: dom_def)
qed

section \<open>Creations that fail\<close>

lemma dyn_create_fails:
  assumes sh: "heap_shows (kmm d) M" and c: "\<And>ob. creates (krn d) ob T (create (krn d) (Some ob))"
    and r: "dyn_create ra sz create d null = (ret, o1, d')" and n: "ret \<noteq> RHINO_SUCCESS"
  shows "fails d M (ret, o1, d')"
proof (cases rule: dyn_create_cases [OF sh c r])
  case 1
  then show ?thesis using n by (simp add: fails_def)
next
  case (2 p xs)
  then show ?thesis using n by simp
qed

lemma creations_fail:
  assumes sh: "heap_shows (kmm d) M" and n: "ret \<noteq> RHINO_SUCCESS"
  shows "krhino_sem_dyn_create ra d null name cnt = (ret, o1, d') \<Longrightarrow> fails d M (ret, o1, d')"
    "krhino_mutex_dyn_create ra d null name = (ret, o1, d') \<Longrightarrow> fails d M (ret, o1, d')"
    "krhino_event_dyn_create ra d null name cnt = (ret, o1, d') \<Longrightarrow> fails d M (ret, o1, d')"
    "krhino_queue_dyn_create ra ra' d null name msg_num = (ret, o1, d') \<Longrightarrow> fails d M (ret, o1, d')"
    "buf_queue_dyn_create ra ra' d null name msg_num max_msg type = (ret, o1, d') \<Longrightarrow> fails d M (ret, o1, d')"
    "task_dyn_create deathbed ra ra' d null name arg pri ticks stack entry autorun = (ret, o1, d') \<Longrightarrow> fails d M (ret, o1, d')"
proof -
  show "krhino_sem_dyn_create ra d null name cnt = (ret, o1, d') \<Longrightarrow> fails d M (ret, o1, d')"
    unfolding krhino_sem_dyn_create_def by (rule dyn_create_fails [OF sh _ _ n], rule object_creates(1))
  show "krhino_mutex_dyn_create ra d null name = (ret, o1, d') \<Longrightarrow> fails d M (ret, o1, d')"
    unfolding krhino_mutex_dyn_create_def by (rule dyn_create_fails [OF sh _ _ n], rule object_creates(2))
  show "krhino_event_dyn_create ra d null name cnt = (ret, o1, d') \<Longrightarrow> fails d M (ret, o1, d')"
    unfolding krhino_event_dyn_create_def by (rule dyn_create_fails [OF sh _ _ n], rule object_creates(3))
  show "krhino_queue_dyn_create ra ra' d null name msg_num = (ret, o1, d') \<Longrightarrow> fails d M (ret, o1, d')"
    by (erule queue_dyn_create_cases [OF sh]) (use n in simp_all)
  show "buf_queue_dyn_create ra ra' d null name msg_num max_msg type = (ret, o1, d') \<Longrightarrow> fails d M (ret, o1, d')"
    by (erule buf_queue_dyn_create_cases [OF sh]) (use n in simp_all)
  show "task_dyn_create deathbed ra ra' d null name arg pri ticks stack entry autorun = (ret, o1, d') \<Longrightarrow> fails d M (ret, o1, d')"
    by (erule task_dyn_create_cases [OF sh]) (use n in simp_all)
qed

text \<open>The queue of blocks is one of messages of any length.\<close>

lemma fix_buf_queue_is_dyn:
  assumes sh: "heap_shows (kmm d) M" and r: "krhino_fix_buf_queue_dyn_create ra ra' d null name msg_size msg_num = (RHINO_SUCCESS, o1, d')"
  shows "\<exists>p. o1 = Some p \<and> rb_type (bq_ringbuf (buf_queues (krn d') (unat p))) = RINGBUF_TYPE_DYN"
proof (rule buf_queue_dyn_create_cases [OF sh r [unfolded krhino_fix_buf_queue_dyn_create_def]])
  assume "fails d M (RHINO_SUCCESS, o1, d')"
  then show ?thesis by (simp add: fails_def)
next
  fix p q xs ys mem k' h
  assume e: "(RHINO_SUCCESS, o1, d') = (RHINO_SUCCESS, Some p, d\<lparr>krn := k', kmm := h, bq_buf := (bq_buf d)(unat p := q)\<rparr>)"
    and c: "(RHINO_SUCCESS, k') = buf_queue_create (krn d) (Some (unat p)) name (Some mem) (unat (msg_size * msg_num)) (unat msg_size)
      K_OBJ_DYN_ALLOC RINGBUF_TYPE_DYN"
  have "rb_type (bq_ringbuf (buf_queues k' (unat p))) = RINGBUF_TYPE_DYN"
    using c by (auto simp: buf_queue_create_def Let_def upd_bq_def ringbuf_init_def ringbuf_reset_def split: if_splits option.splits)
  then show ?thesis using e by simp
qed

section \<open>The example\<close>

lemma sample_task_del: "fst (krhino_task_dyn_del 21 (ds sample_world) (Some 0x2028)) = RHINO_SUCCESS"
proof -
  note s = sample_kernel_ok
  have nd: "task_state (tcb sample_kernel 0x2028) \<noteq> K_DELETED" using s(5) by (simp add: live_def)
  have sl: "g_sched_lock sample_kernel \<noteq> - 1" and c: "count (sems sample_kernel 21) \<noteq> - 1" using s(8,10) by simp_all
  have g: "fst (krhino_sem_give (sample_kernel\<lparr>g_sched_lock := g_sched_lock sample_kernel + 1\<rparr>) (Some 21)) = RHINO_SUCCESS"
    using give_locked_frame(1) [OF sl s(9) c] by (simp add: give_locked_def split_def Let_def)
  show ?thesis
    using s(4,6,7,8) nd g by (simp add: krhino_task_dyn_del_def Let_def split_def config_defs split: task_stat_t.split)
qed

end
