(* ===== verification/Spec2Isabelle.thy ===== *)
theory Spec2Isabelle
  imports K_List K_Boot Sync_Props Time_Props Queue_Props Task_Props Timer_Props Mm_Api Dyn_Props
begin

text \<open>
  The Rhino real-time kernel of AliOS Things 3.0.0, \<open>src/kernel/rhino\<close>.

  The program. Rhino runs tasks by priority on one core. Tasks wait for time, or for objects: semaphores,
  mutexes, events, queues of pointers, queues that copy their messages. Every service changes one shared state
  between two critical sections and ends in a call of the scheduler, or blocks its caller. The tick
  interrupt wakes tasks whose time has come and rotates time slices. Three services are tasks of their own:
  software timers, work queues, and the release of dynamic memory. The configuration is the one of the board
  stm32l476rg-nucleo (\<open>aos/k_config.h\<close> over \<open>include/k_default_config.h\<close>): one core, 62 priorities, round robin, 100
  ticks a second, no run-time statistics, no user-space tasks, no hooks.

  How the state is modelled. The record \<open>kernel\<close> (theory \<open>K_Obj\<close>) has the globals of \<open>k_obj.c\<close> under their names. Task
  control blocks and objects live in maps from addresses (\<open>tid\<close>, \<open>oid\<close>) to records with the fields of the C structures; a
  block list, ready ring or tick list is the list of the tasks on it, which is what the pointer-level
  lists of \<open>include/k_list.h\<close> implement (theory \<open>K_List\<close>, C27). Counters, ticks and sizes are words of the C width. A
  service is a function from state and arguments to a status and a state, NULL being \<open>None\<close>. A service that
  may wait returns \<open>Blocked\<close> and ends in a second function, which the task runs when it is switched in again. A switch is
  a change of \<open>g_active_task\<close>. Whatever the code does outside its contract (NULL dereference, access out of bounds, call of
  \<open>k_err_proc\<close>, a loop that does not end) is an event in \<open>traps\<close>, and the properties say when there is none.

  Theories, with the files of \<open>src/kernel/rhino\<close> they model.
   - \<open>Prelude\<close>: lemmas on lists, maps and words, the ordered insertion all the kernel's lists share, and its interface.
   - \<open>K_Err\<close> (\<open>include/k_err.h\<close>, \<open>k_err.c\<close>): status codes, configuration, traps, outcomes.
   - \<open>K_List\<close> (\<open>include/k_list.h\<close>), \<open>K_Bitmap\<close> (\<open>include/k_bitmap.h\<close>), \<open>K_Ringbuf\<close> (\<open>k_ringbuf.c\<close>): the data structures, on memory; \<open>Ring_Fifo\<close>:
     the ring buffer refines a queue of messages, in all its modes, through the interface of a bounded queue.
   - \<open>K_Obj\<close> (the structures), \<open>K_Sched\<close> (\<open>k_sched.c\<close>), \<open>K_Tick\<close> (\<open>k_tick.c\<close>), \<open>K_Pend\<close> (\<open>k_pend.c\<close>): the core all services use.
   - \<open>Kernel_Inv\<close>: the invariant of the kernel, part by part, and the moves that keep it; \<open>K_Prio\<close> (the priority part of \<open>k_mutex.c\<close>
     and \<open>k_task.c\<close>): inheritance along chains of owners; \<open>K_Wake\<close>: the full invariant \<open>kwf\<close>, what a service owes it (\<open>good\<close>), the
     loops that empty a block list.
   - \<open>K_Task\<close> and \<open>Task_Inv\<close> (\<open>k_task.c\<close>, the initial stack of \<open>port_c.c\<close>), \<open>K_Mutex\<close>, \<open>K_Sem\<close>, \<open>K_TaskSem\<close>, \<open>K_Event\<close>, \<open>K_Queue\<close>, \<open>K_BufQueue\<close> (the files of
     those names), \<open>K_Time\<close> (\<open>k_time.c\<close>, the tick), \<open>K_Sys\<close> (interrupts and start of \<open>k_sys.c\<close>): the services, and that each keeps the invariant.
   - \<open>Kernel_Steps\<close>: the kernel as a step relation over all these services; reachability.
   - \<open>K_Timer\<close> (\<open>k_timer.c\<close>), \<open>K_Workqueue\<close> (\<open>k_workqueue.c\<close>): the services on top of the kernel; \<open>K_Boot\<close> (\<open>krhino_init\<close>): from zeroed memory to the first task.
   - \<open>K_MmBlk\<close> (\<open>k_mm_blk.c\<close>): pools of memory blocks on a memory of words. \<open>K_Mm\<close> (\<open>k_mm.c\<close>): the heap on such a memory, the block headers being words of it.
   - The proofs on the heap: \<open>Mm_Tags\<close> (boundary tags: blocks that tile the regions), \<open>Mm_Lists\<close> (the doubly linked free lists), \<open>Mm_Heap\<close> (the
     invariant \<open>heap_ok\<close>; taking a block), \<open>Mm_Alloc\<close> (the search), \<open>Mm_Free\<close> (merging), \<open>Mm_Realloc\<close>, \<open>Mm_State\<close> (the pool of small blocks, the
     abstraction \<open>heap_shows\<close> to a map from pointers to words), \<open>Mm_Client\<close> (the operations under that abstraction), \<open>Mm_Init\<close> (regions),
     \<open>Mm_Api\<close> (the interface of a heap, implemented by the kernel's).
   - \<open>K_Dyn\<close> (the \<open>_dyn_\<close> services of the files above, \<open>k_dyn_mem_proc.c\<close>): objects and tasks on the heap, the record \<open>dsys\<close> that joins kernel
     and heap, the task that releases memory. The proofs: \<open>Dyn_Frames\<close> (no other service makes, deletes or moves an object on the heap, through an
     interface of readings of the state), \<open>Dyn_Ops\<close> (what these services do to the kernel), \<open>Dyn_Heap\<close> (what they do to the heap; the accounts of its
     buffers), \<open>Dyn_World\<close> (kernel, heap and application as a step relation; its invariant), \<open>Dyn_Safety\<close> (every step keeps it), \<open>Dyn_Boot\<close> (the boot with the
     heap), \<open>Dyn_Props\<close>, and \<open>Dyn_Sample\<close>, an example.
   - \<open>Sync_Props\<close>, \<open>Time_Props\<close>, \<open>Queue_Props\<close>, \<open>Task_Props\<close>, \<open>Timer_Props\<close>: the lemmas behind the properties below; \<open>Sample\<close>: a kernel state with tasks in
     every state, on which the properties are applied.

  What is shown. C1 and C2: the invariant and the absence of faults, in every run from the boot, whatever the services called. C3: the
  boot. C4 to C6: scheduling. C7 to C11: priority inheritance, that its propagation ends, and ownership. C12 and C13: time.
  C14 to C17: semaphores, events, and context checks. C18 to C20: queues as refinements of lists, from ring-buffer memory up. C21
  to C24: the life of a task. C25 to C27: memory blocks and lists. C28 to C32: timers and works. C33 to C36: the heap implements separate
  buffers. C37 to C40: objects and tasks on the heap: every buffer has one holder, nothing leaks. Three show what the code does against
  expectation: a mutex inherited from a deleted owner keeps its nesting (C11), a pool of blocks of size zero never
  finishes (C26), and late timers are overtaken and left (C31); a circle of waiting tasks makes the change of priority loop (C1, C7).

  Fuel. A change of priority walks the chain of mutex owners with one unit per task that exists, which is enough when no
  tasks wait in a circle (C7: the chain visits no task twice); it records \<open>Diverged\<close> otherwise. The pass over the timers has one turn per timer of the list and
  one to stop (C28). The loop that chains memory blocks has one per block (C25). The search
  of a free list of the heap has \<open>2\<^sup>29\<close>, more than there are multiples of 8 to lie at (lemma \<open>card_blocks\<close>). Searches of pointer lists are \<open>partial_function\<close>s, shown to return (C27).

  Objects on the heap. The number of an object's or task's address is its name; its fields are in the maps of \<open>kernel\<close>, its memory on the heap holds the
  buffers only, and the words of a stack are in the task's record (the heap's words there are those of the record of its release). A deletion has two
  halves, since other tasks run when it reschedules before it frees: in between \<open>deleting\<close> holds the memory. What is not on the
  heap has names that no address of the heap has, no multiples of 8 (\<open>static_name\<close>).

  Assumed of code not under \<open>src\<close>, or not modelled: the callbacks of timers and works are
  parameters; the linker's placement of static data is the record \<open>image\<close>, whose distinctness is the hypothesis \<open>image_ok\<close>; what a caller owes
  a service is in the premises of the steps.

  Not modelled: hooks, trace and statistics, which the configuration leaves out; spin locks and the other paths for several cores; the
  idle task, which counts; \<open>k_mm_debug.c\<close>, the shell, the panic screen and the board start-up, which print or call vendor code. Timers on the heap are modelled
  (\<open>krhino_timer_dyn_create_mm\<close>, \<open>cmd_proc_mm\<close>) but are no steps of \<open>Dyn_World\<close>: a command for one may still be in the queue when it is freed. Outside the kernel: the
  key-value store, the virtual file system, the Modbus master, the portable layer \<open>src/osal\<close> (wrappers of these services), network, middleware,
  drivers, security, utilities, platform and third-party code.
\<close>

section \<open>The whole kernel\<close>

text \<open>C1. From the start of the system on, whatever services tasks and interrupt handlers call and
  whenever the tick comes, the kernel state stays well formed: ready rings, block lists, the tick
  list, ownership of mutexes and contents of queues agree with the tasks, the processor runs a
  task that may run, and the only event recorded is a change of priority that followed a circle of
  waiting tasks.\<close>

theorem runs_keep_invariant:
  assumes "image_ok im" "runs (started im) s"
  shows "kwf s \<and> act_inv s \<and> set (traps s) \<subseteq> {Diverged}"
  by (rule runs_from_boot [OF assms])

theorem runs_keep_invariant_witness:
  "kwf (snd (krhino_sched_disable (started sample_image))) \<and> act_inv (snd (krhino_sched_disable (started sample_image))) \<and>
   set (traps (snd (krhino_sched_disable (started sample_image)))) \<subseteq> {Diverged}"
  by (rule runs_keep_invariant [OF sample_image_ok free_runs_runs [OF sample_runs]])

text \<open>C2. No fault ever happens in a run in which no tasks wait for each other in a circle: no access
  out of bounds or through NULL, no call of the kernel's error handler, no endless loop.\<close>

theorem runs_without_fault:
  assumes "image_ok im" "free_runs (started im) s"
  shows "traps s = []"
  by (rule free_runs_from_boot [OF assms])

theorem runs_without_fault_witness:
  "traps (snd (krhino_sched_disable (started sample_image))) = []"
  by (rule runs_without_fault [OF sample_image_ok sample_runs])

text \<open>C3. The boot succeeds and leaves the four tasks of the kernel ready at their configured
  priorities, an empty timer list and a timer queue for commands; the start then runs the timer
  task, the most urgent of the four.\<close>

theorem boot_starts_timer_task:
  assumes "image_ok im"
  shows "fst (krhino_init im (zero_memory im)) = RHINO_SUCCESS \<and>
    map (\<lambda>t. prio (tcb (krn (booted im)) t)) [im_dyn_task im, im_idle_task im, im_worker im, im_timer_task im] = [6, 61, 20, 5] \<and>
    l_task_head (g_kobj_list (krn (booted im))) = [im_dyn_task im, im_idle_task im, im_worker im, im_timer_task im] \<and>
    g_timer_head (booted im) = [] \<and> obj_type (blk (krn (booted im)) g_timer_queue) = RHINO_BUF_QUEUE_OBJ_TYPE \<and>
    max_msg_size (buf_queues (krn (booted im)) g_timer_queue) = sizeof_cb \<and>
    g_sys_stat (started im) = RHINO_RUNNING \<and> g_active_task (started im) = im_timer_task im"
  using booted_fresh [OF assms] started_good [OF assms] by (auto simp: fresh_def boot_config config_defs)

theorem boot_starts_timer_task_witness:
  "fst (krhino_init sample_image (zero_memory sample_image)) = RHINO_SUCCESS \<and> g_active_task (started sample_image) = 13"
  using boot_starts_timer_task [OF sample_image_ok] by (simp add: sample_image_def)

section \<open>Scheduling\<close>

text \<open>C4. Whenever the scheduler may switch (no lock, no interrupt), it ends with a ready task running
  that no other ready task beats in priority.\<close>

theorem sched_runs_best:
  assumes "kwf s" "g_sched_lock s = 0" "g_intrpt_nested_level s = 0"
  shows "task_state (tcb (core_sched s) (g_active_task (core_sched s))) = K_RDY \<and>
    (\<forall>t. task_state (tcb s t) = K_RDY \<longrightarrow> prio (tcb s (g_active_task (core_sched s))) \<le> prio (tcb s t))"
  using core_sched_best [of s] assms by (simp add: kwf_def)

theorem sched_runs_best_witness:
  "prio (tcb sample (g_active_task (core_sched sample))) \<le> 10"
  using conjunct2 [OF sched_runs_best [of sample], THEN spec, of 6]
  by (simp add: sample_tcb_def blank_task_def)

text \<open>C5. A task at the end of its time slice goes to the end of the ring of its priority and gets a
  new slice; before that, a tick takes one tick off its slice.\<close>

theorem time_slice_rotates:
  assumes "kwf s" "cur_list_item (g_ready_queue s) (prio (tcb s (g_active_task s))) = t # u # rest"
    and "sched_policy (tcb s t) \<noteq> KSCHED_FIFO"
  shows "if time_slice_left (tcb s t) \<le> 1 then
      cur_list_item (g_ready_queue (time_slice_update s)) (prio (tcb s (g_active_task s))) = u # rest @ [t] \<and>
      time_slice_left (tcb (time_slice_update s) t) = time_total (tcb s t)
    else g_ready_queue (time_slice_update s) = g_ready_queue s \<and>
      time_slice_left (tcb (time_slice_update s) t) = time_slice_left (tcb s t) - 1"
  using time_slice_rotate [OF assms(2,1,3)] by (auto simp: not_le)

theorem time_slice_rotates_witness:
  "cur_list_item (g_ready_queue (time_slice_update sample)) 10 = [6, 8]"
  using time_slice_rotates [of sample 8 6 "[]"]
  by (simp add: sample_tcb_def blank_task_def KSCHED_RR_def KSCHED_FIFO_def sample_rq_def ready_list_add_tail_def
      is_ready_list_empty_def ready_list_init_def)

text \<open>C6. The lowest set bit of the ready bitmap is found, in any number of words, and none exactly when
  the bitmap is empty.\<close>

theorem first_bit_is_least:
  "krhino_find_first_bit bm =
     (if \<exists>p. bitmap_test bm p then Some (LEAST p. bitmap_test bm p) else None)"
proof (cases "\<exists>p. bitmap_test bm p")
  case True
  then have "krhino_find_first_bit bm = Some (LEAST p. bitmap_test bm p)"
    by (intro find_first_bit_least) (auto intro: LeastI dest: not_less_Least)
  with True show ?thesis by simp
next
  case False
  then show ?thesis using find_first_bit_None by auto
qed

text \<open>Setting and clearing the bit of a priority change that bit and no other.\<close>

theorem bitmap_set_sets:
  assumes "p div 32 < length bm"
  shows "bitmap_test (krhino_bitmap_set bm p) q = (q = p \<or> bitmap_test bm q) \<and>
    bitmap_test (krhino_bitmap_clear bm p) q = (q \<noteq> p \<and> bitmap_test bm q)"
  using bitmap_test_set [OF assms, of q] bitmap_test_clear [of bm p q] by auto

theorem bitmap_set_sets_witness:
  "bitmap_test (krhino_bitmap_set [0, 0] 33) 33 \<and> \<not> bitmap_test (krhino_bitmap_clear [1, 1] 33) 33"
  using bitmap_set_sets [of 33 "[0, 0]" 33] bitmap_set_sets [of 33 "[1, 1]" 33] by simp

section \<open>Priority inheritance\<close>

text \<open>C7. A change of a task's priority, with all the changes it entails along the chain of mutex
  owners, ends, keeps the kernel well formed and changes nothing but priorities and the order of
  lists, unless tasks wait for each other in a circle.\<close>

theorem pri_change_ends:
  assumes "kwf s" "live (tcb s t)" "b_prio (tcb s t) \<noteq> RHINO_IDLE_PRI" "np < RHINO_IDLE_PRI" "acyclic (waits_for s)"
  shows "\<exists>s'. task_pri_change s t np = (RHINO_SUCCESS, s') \<and> kinv s' \<and> minv s' \<and> reprio s s' \<and> traps s' = traps s"
proof -
  have "kinv s" "minv s" "all_listed s" using assms(1) task_list_all_listed by (simp_all add: kwf_def)
  then show ?thesis using task_pri_change_kinv [of s t np] assms(2-) by auto
qed

theorem pri_change_ends_witness:
  "\<exists>s'. task_pri_change sample 3 4 = (RHINO_SUCCESS, s') \<and> kinv s' \<and> minv s' \<and> reprio sample s' \<and> traps s' = []"
  using pri_change_ends [of sample 3 4] sample_acyclic by (simp add: sample_tcb_def blank_task_def live_def config_defs)

text \<open>C8. The priority a task is entitled to, as computed when it gives a mutex back, is the best of
  its own and those of the first waiters of the mutexes it keeps.\<close>

theorem pri_look_is_min:
  "mutex_pri_look s t rel =
     (let ms = filter (\<lambda>m. Some m \<noteq> rel) (mutex_list (tcb s t))
      in (Min ({b_prio (tcb s t)} \<union> {prio (tcb s u) | u m us. m \<in> set ms \<and> blk_list (blk s m) = u # us}),
          upd_task s t (\<lambda>k. k\<lparr>mutex_list := ms\<rparr>)))"
proof -
  have "insert (b_prio (tcb s t)) ((\<lambda>u. prio (tcb s u)) ` first_waiters s ms) =
     {b_prio (tcb s t)} \<union> {prio (tcb s u) | u m us. m \<in> set ms \<and> blk_list (blk s m) = u # us}" for ms
    by (auto simp: first_waiters_def)
  then show ?thesis by (simp add: mutex_pri_look_result)
qed

text \<open>C9. A task that must wait for a mutex first lends its priority to the owner (which keeps its own
  if that is better), then waits on the mutex's list.\<close>

theorem lock_lends_priority:
  assumes "kwf s" "act_inv s" "can_block s" "\<not> task_cancel_chk s ob" "g_sys_stat s = RHINO_RUNNING"
    and "g_intrpt_nested_level s = 0" "g_sched_lock s = 0" "ticks \<noteq> RHINO_NO_WAIT"
    and "obj_type (blk s ob) = RHINO_MUTEX_OBJ_TYPE" "mutex_task (mutexes s ob) = Some ow"
    and "ow \<noteq> g_active_task s" "\<not> blocked (tcb s ow)"
  shows "\<exists>s'. krhino_mutex_lock s (Some ob) ticks = (Blocked, core_sched s') \<and>
     prio (tcb s' ow) = min (prio (tcb s ow)) (prio (tcb s (g_active_task s))) \<and>
     task_state (tcb s' (g_active_task s)) = K_PEND \<and> g_active_task s \<in> set (blk_list (blk s' ob)) \<and> mutexes s' = mutexes s"
  by (rule mutex_lock_raise [OF assms])

lemma contended:
  "kwf (sample\<lparr>g_active_task := 6\<rparr>)" "act_inv (sample\<lparr>g_active_task := 6\<rparr>)"
  by (rule kwf_processor [OF sample_kwf]; simp) (simp add: act_inv_def runnable_def sample_tcb_def blank_task_def)

theorem lock_lends_priority_witness:
  "\<exists>s'. krhino_mutex_lock (sample\<lparr>g_active_task := 6\<rparr>) (Some 2) 7 = (Blocked, core_sched s') \<and> prio (tcb s' 8) = 10"
  using lock_lends_priority [OF contended, where ob = 2 and ticks = 7 and ow = 8]
  by (auto simp: can_block_def task_cancel_chk_def sample_tcb_def sample_obj_def blank_task_def config_defs blocked_def)

text \<open>C10. Giving back a mutex that others wait for hands it to the first of them, which becomes its
  owner with one level of nesting and is ready (or just suspended), and takes back the priority its
  waiters had lent the old owner.\<close>

theorem unlock_hands_over:
  assumes "kwf s" "act_inv s" "g_sys_stat s = RHINO_RUNNING" "g_intrpt_nested_level s = 0"
    and "obj_type (blk s ob) = RHINO_MUTEX_OBJ_TYPE" "mutex_task (mutexes s ob) = Some (g_active_task s)"
    and "owner_nested (mutexes s ob) = 1" "blk_list (blk s ob) = t # ts"
  shows "\<exists>s'. krhino_mutex_unlock s (Some ob) = (RHINO_SUCCESS, core_sched s') \<and>
     mutex_task (mutexes s' ob) = Some t \<and> owner_nested (mutexes s' ob) = 1 \<and> blk_list (blk s' ob) = ts \<and>
     task_state (tcb s' t) = woken (tcb s t) \<and> mutex_list (tcb s' t) = ob # mutex_list (tcb s t) \<and>
     prio (tcb s' t) = prio (tcb s t) \<and>
     mutex_list (tcb s' (g_active_task s)) = remove1 ob (mutex_list (tcb s (g_active_task s))) \<and>
     prio (tcb s' (g_active_task s)) = held_pri s (g_active_task s) (remove1 ob (mutex_list (tcb s (g_active_task s))))"
  by (rule mutex_unlock_wake [OF assms])

theorem unlock_hands_over_witness:
  "\<exists>s'. krhino_mutex_unlock sample (Some 2) = (RHINO_SUCCESS, core_sched s') \<and> mutex_task (mutexes s' 2) = Some 3 \<and>
     prio (tcb s' 8) = 20"
proof -
  have "held_pri sample 8 [] = 20" by (simp add: held_pri_def first_waiters_def sample_tcb_def blank_task_def)
  then show ?thesis using unlock_hands_over [OF sample_kwf sample_act_inv, where ob = 2 and t = 3 and ts = "[]"]
    by (auto simp: sample_obj_def sample_tcb_def blank_task_def)
qed


section \<open>Time\<close>

text \<open>C12. A task that sleeps or waits with a timeout, with \<open>n\<close> ticks to go, stays as it is for less than
  \<open>n\<close> ticks (nothing else happening) and is released by the \<open>n\<close>-th: ready again, or just suspended, and
  told that its wait timed out.\<close>

theorem timeout_on_time:
  assumes "kwf s" "tick_head (tcb s u)" "unat (remaining s u) = Suc n" "Suc n \<le> 2 ^ 63"
  shows "(\<forall>k \<le> n. task_state (tcb ((krhino_tick_proc ^^ k) s) u) = task_state (tcb s u)) \<and>
    \<not> tick_head (tcb ((krhino_tick_proc ^^ Suc n) s) u) \<and>
    task_state (tcb ((krhino_tick_proc ^^ Suc n) s) u) =
      (if task_state (tcb s u) = K_PEND \<or> task_state (tcb s u) = K_SLEEP then K_RDY else K_SUSPENDED) \<and>
    blk_state (tcb ((krhino_tick_proc ^^ Suc n) s) u) = (if blocked (tcb s u) then BLK_TIMEOUT else BLK_FINISH)"
  using ticks_release [OF assms] by (simp add: released_def)

theorem timeout_on_time_witness:
  "task_state (tcb ((krhino_tick_proc ^^ 4) sample) 2) = K_PEND \<and> task_state (tcb ((krhino_tick_proc ^^ 5) sample) 2) = K_RDY \<and>
   blk_state (tcb ((krhino_tick_proc ^^ 5) sample) 2) = BLK_TIMEOUT"
  using timeout_on_time [OF sample_kwf, of 2 4]
  by (simp add: remaining_def sample_tcb_def blank_task_def blocked_def)

text \<open>C13. A number of milliseconds is converted to ticks rounding up, so that a wait is never shorter
  than asked, up to \<open>2\<^sup>57\<close>.\<close>

theorem ms_to_ticks_rounds_up:
  assumes "unat ms < 2 ^ 57"
  shows "unat (krhino_ms_to_ticks ms) = (unat ms + 9) div 10 \<and> unat ms \<le> 10 * unat (krhino_ms_to_ticks ms)"
  using ms_to_ticks_ceiling [OF assms] by simp

theorem ms_to_ticks_rounds_up_witness:
  "unat (krhino_ms_to_ticks 25) = 3 \<and> 25 \<le> 10 * unat (krhino_ms_to_ticks 25)"
  using ms_to_ticks_rounds_up [of 25] by simp

text \<open>Ticks converted to milliseconds and back are the same number of ticks.\<close>

theorem ticks_ms_ticks:
  assumes "unat t < 2 ^ 53"
  shows "krhino_ms_to_ticks (krhino_ticks_to_ms t) = t"
proof -
  have "unat (krhino_ticks_to_ms t) = unat t * 10" using assms by (intro ticks_to_ms_exact) simp
  then have "unat (krhino_ms_to_ticks (krhino_ticks_to_ms t)) = (unat t * 10 + 9) div 10"
    using assms by (simp add: ms_to_ticks_ceiling)
  also have "\<dots> = unat t" by simp
  finally show ?thesis by (simp add: word_unat_eq_iff)
qed

theorem ticks_ms_ticks_witness: "krhino_ms_to_ticks (krhino_ticks_to_ms 250) = 250"
  by (rule ticks_ms_ticks) simp

section \<open>Semaphores and events\<close>

text \<open>C14. Giving a semaphore that tasks wait for wakes exactly the first of them, which no other waiter
  beats in priority: it is ready (or just suspended), off the list, told that it got what it waited
  for; the count stays zero and every other task stays as it is.\<close>

theorem give_wakes_best:
  assumes "kwf s" "obj_type (blk s ob) = RHINO_SEM_OBJ_TYPE" "blk_list (blk s ob) = t # ts" "blk_policy (blk s ob) = BLK_POLICY_PRI"
  shows "\<exists>s'. krhino_sem_give s (Some ob) = (RHINO_SUCCESS, core_sched s') \<and> blk_list (blk s' ob) = ts \<and>
     task_state (tcb s' t) = woken (tcb s t) \<and> blk_state (tcb s' t) = BLK_FINISH \<and> blk_obj (tcb s' t) = None \<and>
     sems s' = sems s \<and> count (sems s ob) = 0 \<and> (\<forall>u. u \<noteq> t \<longrightarrow> tcb s' u = tcb s u) \<and>
     (\<forall>u \<in> set ts. prio (tcb s t) \<le> prio (tcb s u))"
proof -
  obtain s' where s': "krhino_sem_give s (Some ob) = (RHINO_SUCCESS, core_sched s')" "left_wait BLK_FINISH s {t} s'"
    "blk_list (blk s' ob) = ts" using sem_give_wake [OF assms(1-3)] by blast
  have "waitable s ob" using assms(1,3) by (simp add: kwf_def kinv_def obj_inv_def)
  then have "count (sems s ob) = 0" using assms(2) by (simp add: waitable_def)
  with s' first_waiter_best [OF assms(1,3,4)] left_wait_rest [OF s'(2)] show ?thesis
    by (auto simp: left_wait_def woken_def)
qed

theorem give_wakes_best_witness:
  "\<exists>s'. krhino_sem_give sample (Some 6) = (RHINO_SUCCESS, core_sched s') \<and> task_state (tcb s' 2) = K_RDY"
  using give_wakes_best [OF sample_kwf, where ob = 6 and t = 2 and ts = "[]"]
  by (auto simp: sample_obj_def sample_tcb_def blank_task_def woken_def)

text \<open>A give that nobody waits for is taken back by the next take, which does not wait and leaves
  the count as it was before both. A full count is refused.\<close>

theorem give_then_take:
  assumes "obj_type (blk s ob) = RHINO_SEM_OBJ_TYPE" "blk_list (blk s ob) = []"
    and "\<not> task_cancel_chk s ob" "g_intrpt_nested_level s = 0"
  shows "if count (sems s ob) = - 1 then krhino_sem_give s (Some ob) = (RHINO_SEM_OVF, s)
    else fst (krhino_sem_give s (Some ob)) = RHINO_SUCCESS \<and>
      fst (krhino_sem_take (snd (krhino_sem_give s (Some ob))) (Some ob) ticks) = Ret RHINO_SUCCESS \<and>
      count (sems (snd (krhino_sem_take (snd (krhino_sem_give s (Some ob))) (Some ob) ticks)) ob) = count (sems s ob)"
proof -
  have "0 < count (sems s ob) + 1" if "count (sems s ob) \<noteq> - 1"
    using that by (metis add_eq_0_iff minus_equation_iff word_gt_0)
  then show ?thesis using assms by (auto simp: krhino_sem_give_def sem_give_def krhino_sem_take_def task_cancel_chk_def Let_def)
qed

theorem give_then_take_witness:
  "\<exists>s. count (sems s 9) = 4 \<and> fst (krhino_sem_give s (Some 9)) = RHINO_SUCCESS \<and>
     fst (krhino_sem_take (snd (krhino_sem_give s (Some 9))) (Some 9) 0) = Ret RHINO_SUCCESS \<and>
     count (sems (snd (krhino_sem_take (snd (krhino_sem_give s (Some 9))) (Some 9) 0)) 9) = 4"
  by (rule exI [of _ "snd (krhino_sem_create sample (Some 9) (Some ''s'') 4)"])
    (use give_then_take [of "snd (krhino_sem_create sample (Some 9) (Some ''s'') 4)" 9 0] in
      \<open>simp add: krhino_sem_create_def sem_create_def Let_def task_cancel_chk_def sample_tcb_def blank_task_def\<close>)

text \<open>C15. Deleting a semaphore releases every task that waits for it, each told that the object is gone,
  and touches no other task.\<close>

theorem sem_del_releases_all:
  assumes "kwf s" "obj_type (blk s ob) = RHINO_SEM_OBJ_TYPE" "obj_mm_flag (blk s ob) = K_OBJ_STATIC_ALLOC"
    and "g_intrpt_nested_level s = 0"
  shows "\<exists>s'. krhino_sem_del s (Some ob) = (RHINO_SUCCESS, core_sched s') \<and>
     (\<forall>u \<in> set (blk_list (blk s ob)). task_state (tcb s' u) = woken (tcb s u) \<and> blk_state (tcb s' u) = BLK_DEL) \<and>
     (\<forall>u. u \<notin> set (blk_list (blk s ob)) \<longrightarrow> tcb s' u = tcb s u) \<and>
     blk_list (blk s' ob) = [] \<and> obj_type (blk s' ob) = RHINO_OBJ_TYPE_NONE"
  by (rule sem_del_wakes [OF assms])

theorem sem_del_releases_all_witness:
  "\<exists>s'. krhino_sem_del sample (Some 6) = (RHINO_SUCCESS, core_sched s') \<and> blk_state (tcb s' 2) = BLK_DEL"
  using sem_del_releases_all [OF sample_kwf, of 6] by (auto simp: sample_obj_def K_OBJ_STATIC_ALLOC_def)

text \<open>C16. Setting flags of an event wakes every waiter whose condition the flags meet at that moment,
  with the flags stored where it asked, and leaves the others waiting as they were, however many
  there are and whatever flags the woken ones clear.\<close>

theorem event_set_wakes:
  assumes "kwf s" "obj_type (blk s ob) = RHINO_EVENT_OBJ_TYPE"
  shows "\<exists>s'. krhino_event_set s (Some ob) flags RHINO_OR = (RHINO_SUCCESS, core_sched s') \<and>
     woke s ob (event_flags s ob OR flags) (set (blk_list (blk s ob))) s'"
  by (rule event_set_woke [OF assms])

theorem event_set_wakes_witness:
  "\<exists>s'. krhino_event_set sample (Some 5) 6 RHINO_OR = (RHINO_SUCCESS, core_sched s') \<and>
     task_state (tcb s' 7) = K_RDY \<and> cells s' 40 = 7"
  using event_set_wakes [OF sample_kwf, of 5 6]
  by (auto simp: woke_def event_hit_def event_match_def sample_obj_def sample_tcb_def blank_task_def woken_def event_opts)




section \<open>Queues and buffers\<close>

text \<open>C18. A queue of pointers is a list of messages: a send appends when there is room and is refused
  otherwise, a receive takes the oldest message or says that there is none; nothing else changes.\<close>

theorem queue_refines_list:
  assumes "queue_holds ob s ms" "\<not> task_cancel_chk s ob"
  shows "(\<exists>s'. queue_send ob s m = (fst (spec_send (length ms < q_size (msg_q (queues s ob))) RHINO_QUEUE_FULL ms m), s') \<and>
      queue_holds ob s' (snd (spec_send (length ms < q_size (msg_q (queues s ob))) RHINO_QUEUE_FULL ms m)) \<and> tcb s' = tcb s) \<and>
    (\<exists>s'. queue_recv_now ob s = (fst (spec_recv ms), s') \<and> queue_holds ob s' (snd (spec_recv ms)) \<and> tcb s' = tcb s)"
  using queue_send_spec [OF assms(1) refl, of m] queue_recv_spec [OF assms] by blast

lemma sample_queue: "queue_holds 3 sample []" "q_size (msg_q (queues sample 3)) = 2" "not_cancelled 3 sample" "\<not> task_cancel_chk sample 3"
proof -
  have q: "queues sample 3 = \<lparr>msg_q = \<lparr>q_size = 2, cur_num = 0, peak_num = 0\<rparr>, q_ringbuf = ringbuf_init (replicate 8 0) 8 RINGBUF_TYPE_FIX 4\<rparr>"
    by (simp add: sample_def krhino_buf_queue_create_def buf_queue_create_def sample_fifo_def krhino_queue_create_def
        queue_create_def upd_bq_def upd_queue_def Let_def)
  have "blk_holds (ringbuf_init (replicate 8 0) 8 RINGBUF_TYPE_FIX 4) []"
    by (simp add: ringbuf_init_def ringbuf_reset_def blk_holds_def rb_wf_def contents_def circ_def)
  then show "queue_holds 3 sample []" "q_size (msg_q (queues sample 3)) = 2" "not_cancelled 3 sample" "\<not> task_cancel_chk sample 3"
    by (simp_all add: queue_holds_def q sample_obj_def ringbuf_init_def ringbuf_reset_def not_cancelled_def task_cancel_chk_def
        sample_tcb_def blank_task_def)
qed

theorem queue_refines_list_witness:
  "\<exists>s'. queue_send 3 sample 7 = (RHINO_SUCCESS, s') \<and> queue_holds 3 s' [7]"
  using queue_refines_list [OF sample_queue(1,4), of 7] by (auto simp: spec_send_def sample_queue(2))

text \<open>Messages come out of a queue of pointers in the order they were sent, each once: after the
  messages it holds, those that are then sent, as many as fit.\<close>

theorem queue_fifo:
  assumes "queue_holds ob s ms" "not_cancelled ob s" "length ms + length xs \<le> q_size (msg_q (queues s ob))"
  shows "\<exists>s1 s2. send_all (queue_send ob) s xs = (replicate (length xs) RHINO_SUCCESS, s1) \<and>
    recv_all (queue_recv_now ob) s1 (length (ms @ xs)) = (map Got (ms @ xs), s2) \<and> queue_holds ob s2 []"
proof -
  obtain s1 where s1: "send_all (queue_send ob) s xs = (replicate (length xs) RHINO_SUCCESS, s1)"
    "queue_holds ob s1 (ms @ xs) \<and> not_cancelled ob s1" using queue_sends [OF assms] by blast
  with pointer_queue.recvs_in_order [of ob s1 "ms @ xs" "[]"] show ?thesis by auto
qed

theorem queue_fifo_witness:
  "\<exists>s1 s2. send_all (queue_send 3) sample [7, 9] = ([RHINO_SUCCESS, RHINO_SUCCESS], s1) \<and>
    recv_all (queue_recv_now 3) s1 2 = ([Got 7, Got 9], s2)"
  using queue_fifo [OF sample_queue(1,3), of "[7, 9]"] by (auto simp: sample_queue(2) numeral_2_eq_2)

text \<open>C19. The queue of byte messages refines the same list: a send appends the whole message when the
  buffer has room for it and is refused otherwise, a receive copies out the oldest one, byte for byte,
  wherever the ring buffer wraps around; no access leaves the buffer.\<close>

theorem buf_queue_refines_list:
  assumes "bq_holds ob s ms" "not_cancelled ob s" "bq_message ob s m"
  shows "(\<exists>s'. bq_send ob s m = (fst (spec_send (bq_room ob s m) RHINO_BUF_QUEUE_FULL ms m), s') \<and>
      bq_holds ob s' (snd (spec_send (bq_room ob s m) RHINO_BUF_QUEUE_FULL ms m)) \<and> tcb s' = tcb s \<and> traps s' = traps s) \<and>
    (\<exists>s'. bq_recv_now ob a s = (fst (spec_recv ms), s') \<and> bq_holds ob s' (snd (spec_recv ms)) \<and> tcb s' = tcb s \<and> traps s' = traps s)"
  using bq_send_spec [OF assms(1,3)] bq_recv_spec [OF assms(1,2), of a] by blast

lemma sample_bytes: "bq_holds 4 sample []" "not_cancelled 4 sample" "bq_message 4 sample [1, 2, 3]"
proof -
  have q: "bq_ringbuf (buf_queues sample 4) = ringbuf_init (replicate 32 0) 32 RINGBUF_TYPE_DYN 6"
    "max_msg_size (buf_queues sample 4) = 6" "bq_cur_num (buf_queues sample 4) = 0"
    by (simp_all add: sample_def krhino_buf_queue_create_def buf_queue_create_def upd_bq_def Let_def)
  have "dyn_holds (ringbuf_init (replicate 32 0) 32 RINGBUF_TYPE_DYN 6) []"
    by (simp add: ringbuf_init_def ringbuf_reset_def dyn_holds_def rb_wf_def contents_def circ_def)
  then show "bq_holds 4 sample []" "not_cancelled 4 sample" "bq_message 4 sample [1, 2, 3]"
    by (simp_all add: bq_holds_def bq_msgs_def bq_message_def q sample_obj_def not_cancelled_def task_cancel_chk_def
        sample_tcb_def blank_task_def ringbuf_init_def ringbuf_reset_def RINGBUF_TYPE_FIX_def RINGBUF_TYPE_DYN_def)
qed

theorem buf_queue_refines_list_witness:
  "\<exists>s'. bq_recv_now 4 50 sample = (Nothing, s') \<and> bq_holds 4 s' []"
  using buf_queue_refines_list [OF sample_bytes] by auto

text \<open>C20. Messages of any length come out of a ring buffer in dynamic mode whole and in order: after
  those it holds, the one pushed last, and the buffer is empty then.\<close>

theorem ring_push_then_drain:
  assumes "dyn_holds rb ms" "dyn_fits rb m"
  shows "\<exists>rb' rb''. ringbuf_push rb m (length m) = Some (RHINO_SUCCESS, rb') \<and>
    pop_many ring_pop (Suc (length ms)) rb' = Some (ms @ [m], rb'') \<and> dyn_holds rb'' []"
proof -
  obtain rb' where rb': "ringbuf_push rb m (length m) = Some (RHINO_SUCCESS, rb')" "dyn_holds rb' (ms @ [m])"
    using dyn_push_appends [OF assms] by blast
  with dyn.drain [of rb' "ms @ [m]" "[]"] show ?thesis by auto
qed

theorem ring_push_then_drain_witness:
  "\<exists>rb' rb''. ringbuf_push (ringbuf_init (replicate 9 0) 9 RINGBUF_TYPE_DYN 0) [1, 2, 3] 3 = Some (RHINO_SUCCESS, rb') \<and>
    pop_many ring_pop 1 rb' = Some ([[1, 2, 3]], rb'')"
proof -
  have "dyn_holds (ringbuf_init (replicate 9 0) 9 RINGBUF_TYPE_DYN 0) []" "dyn_fits (ringbuf_init (replicate 9 0) 9 RINGBUF_TYPE_DYN 0) [1, 2, 3]"
    by (simp_all add: ringbuf_init_def ringbuf_reset_def dyn_holds_def dyn_fits_def rb_wf_def contents_def circ_def
        RING_BUF_LEN_def RINGBUF_TYPE_FIX_def RINGBUF_TYPE_DYN_def)
  from ring_push_then_drain [OF this] show ?thesis by (auto simp: numeral_3_eq_3)
qed

section \<open>Tasks\<close>



text \<open>C22. On the stack of a task that has not run yet, the service that measures the unused part finds all
  of it but the frame and the check word, and the check made at every switch finds nothing wrong.\<close>

theorem new_task_checks:
  assumes "stack_fits base sz" "18 \<le> stack_top base sz" "unat base + 4 * unat sz < 2 ^ 32"
    and "tcb s t = fst (task_init deathbed name arg pri ticks base sz entry autorun flag)" "t = g_active_task s"
  shows "krhino_task_stack_min_free s (Some t) False = (RHINO_SUCCESS, Some (stack_top base sz - 18), s) \<and> krhino_stack_ovf_check s = s"
  using new_min_free [OF assms(1,2,4)] new_stack_check [OF assms(1-3)] assms(4,5) by blast

theorem new_task_checks_witness:
  "krhino_stack_ovf_check (upd_task sample 8 (\<lambda>_. fst (task_init 1 None 5 30 0 0x20008000 100 9 1 1))) =
     upd_task sample 8 (\<lambda>_. fst (task_init 1 None 5 30 0 0x20008000 100 9 1 1))"
  using new_task_checks [where base = "0x20008000" and sz = 100 and t = 8 and
      s = "upd_task sample 8 (\<lambda>_. fst (task_init 1 None 5 30 0 0x20008000 100 9 1 1))"]
  by (simp add: stack_fits_def stack_top_def)

text \<open>C23. Suspending a task that is ready, waiting or asleep and resuming it gives back the state it was in.\<close>

theorem suspend_then_resume:
  assumes "kwf s" "act_inv s" "task_state (tcb s t) \<in> {K_RDY, K_PEND, K_SLEEP}" "prio (tcb s t) \<noteq> RHINO_IDLE_PRI"
    and "\<not> (t = g_active_task s \<and> g_sched_lock s > 0)"
  shows "fst (krhino_task_suspend s (Some t)) = RHINO_SUCCESS \<and>
    task_state (tcb (snd (krhino_task_suspend s (Some t))) t) \<in> {K_SUSPENDED, K_PEND_SUSPENDED, K_SLEEP_SUSPENDED} \<and>
    fst (krhino_task_resume (snd (krhino_task_suspend s (Some t))) (Some t)) = RHINO_SUCCESS \<and>
    task_state (tcb (snd (krhino_task_resume (snd (krhino_task_suspend s (Some t))) (Some t))) t) = task_state (tcb s t)"
  using suspend_resume [OF assms] by blast

theorem suspend_then_resume_witness:
  "task_state (tcb (snd (krhino_task_resume (snd (krhino_task_suspend sample (Some 2))) (Some 2))) 2) = K_PEND"
  using suspend_then_resume [OF sample_kwf sample_act_inv, of 2] by (simp add: sample_tcb_def blank_task_def config_defs)

text \<open>C24. A task that is deleted is in the state \<open>K_DELETED\<close> and nowhere else: on no ready ring, block list,
  tick list or list of tasks, and owner of no mutex, so that nothing wakes it or waits for it again.\<close>

theorem deleted_is_gone:
  assumes "kwf s" "act_inv s" "live (tcb s t)" "g_intrpt_nested_level s = 0" "prio (tcb s t) \<noteq> RHINO_IDLE_PRI"
    and "task_mm_flag (tcb s t) = K_OBJ_STATIC_ALLOC" "\<not> (t = g_active_task s \<and> g_sched_lock s > 0)"
  shows "\<exists>s'. krhino_task_del s (Some t) = (RHINO_SUCCESS, s') \<and> task_state (tcb s' t) = K_DELETED \<and>
    (\<forall>p. t \<notin> set (cur_list_item (g_ready_queue s') p)) \<and> t \<notin> set (g_tick_list s') \<and>
    (\<forall>ob. t \<notin> set (blk_list (blk s' ob))) \<and> t \<notin> set (l_task_head (g_kobj_list s')) \<and>
    (\<forall>m. obj_type (blk s' m) = RHINO_MUTEX_OBJ_TYPE \<longrightarrow> mutex_task (mutexes s' m) \<noteq> Some t)"
proof -
  let ?s = "snd (krhino_task_del s (Some t))"
  have d: "fst (krhino_task_del s (Some t)) = RHINO_SUCCESS" "task_state (tcb ?s t) = K_DELETED"
    using deleted_state [OF assms] by auto
  have "kwf ?s" using krhino_task_del_good [OF assms(1,2), of "Some t"] assms(3) by (simp add: good_def)
  from dead_nowhere [OF this d(2)] d show ?thesis by (metis prod.collapse)
qed

theorem deleted_is_gone_witness:
  "\<exists>s'. krhino_task_del sample (Some 8) = (RHINO_SUCCESS, s') \<and> (\<forall>m. obj_type (blk s' m) = RHINO_MUTEX_OBJ_TYPE \<longrightarrow> mutex_task (mutexes s' m) \<noteq> Some 8)"
  using deleted_is_gone [OF sample_kwf sample_act_inv, of 8]
  by (auto simp: sample_tcb_def blank_task_def live_def config_defs K_OBJ_STATIC_ALLOC_def)

section \<open>Memory blocks and lists\<close>

text \<open>C25. Initialising a pool of memory blocks succeeds when the sizes are aligned and the memory holds at
  least two blocks, and makes every whole block of the memory available, in order.\<close>

theorem pool_init_all_blocks:
  assumes "unat start + unat psz + unat bsz < 2 ^ 32" "start \<noteq> 0" "0 < unat bsz" "2 * unat bsz \<le> unat psz"
    and "start AND 3 = 0" "bsz AND 3 = 0" "psz AND 3 = 0"
  shows "\<exists>m'. krhino_mblk_pool_init (unat psz div unat bsz) m False (Some name) start bsz psz = Some (RHINO_SUCCESS, m') \<and>
    pool_holds m' (map (\<lambda>i. start + of_nat i * bsz) [0..<unat psz div unat bsz])"
proof -
  have "blk_at start bsz = (\<lambda>i. start + of_nat i * bsz)" by (simp add: fun_eq_iff blk_at_def)
  then show ?thesis using pool_init_holds [OF assms order_refl] by simp
qed

theorem pool_init_all_blocks_witness:
  "\<forall>m :: mem. \<exists>m'. krhino_mblk_pool_init 3 m False (Some ''p'') 0x20001000 32 100 = Some (RHINO_SUCCESS, m') \<and>
    pool_holds m' [0x20001000, 0x20001020, 0x20001040]"
proof
  fix m :: mem
  show "\<exists>m'. krhino_mblk_pool_init 3 m False (Some ''p'') 0x20001000 32 100 = Some (RHINO_SUCCESS, m') \<and>
      pool_holds m' [0x20001000, 0x20001020, 0x20001040]"
    using pool_init_all_blocks [where start = "0x20001000" and psz = 100 and bsz = 32 and name = "''p''" and m = m]
    by (simp add: upt_rec)
qed

text \<open>C26. A block size of zero passes every check of the pool's initialisation, which then never ends.\<close>

theorem pool_init_size_zero:
  assumes "start \<noteq> 0" "start AND 3 = 0" "psz AND 3 = 0" "start < start + psz"
  shows "krhino_mblk_pool_init fuel m False (Some name) start 0 psz = None"
  using assms chain_blocks_stuck [of start "start + psz" fuel m] by (auto simp: krhino_mblk_pool_init_def Let_def)

theorem pool_init_size_zero_witness:
  "\<forall>m :: mem. krhino_mblk_pool_init 1000 m False (Some ''p'') 0x20001000 0 100 = None"
  by (intro allI pool_init_size_zero) simp_all

text \<open>C27. Inserting into a list in order, by a search loop over its nodes, ends and gives the list with the
  element in its place; taking an element out gives the list without it and the element alone.\<close>

theorem klist_refines_list:
  assumes "klist h head xs" "el \<notin> set (head # xs)"
  shows "\<exists>h'. klist_ordered_insert h P head el = Some h' \<and> klist h' head (insert_before P el xs) \<and>
     klist (klist_rm_init h' el) head xs \<and> is_klist_empty (klist_rm_init h' el) el"
proof -
  obtain h' where h': "klist_ordered_insert h P head el = Some h'" "klist h' head (insert_before P el xs)"
    using klist_ordered_insert_refines [OF assms] by blast
  have "remove1 el (insert_before P el xs) = xs" using assms(2) by (induction xs) auto
  moreover have "el \<in> set (insert_before P el xs)" by simp
  ultimately have "klist (klist_rm_init h' el) head xs" "ring (klist_rm_init h' el) [el]"
    using klist_rm_init_lists [OF h'(2), of el] by simp_all
  moreover have "is_klist_empty (klist_rm_init h' el) el"
    using is_klist_empty_iff [of "klist_rm_init h' el" el "[]"] \<open>ring (klist_rm_init h' el) [el]\<close> by (simp add: klist_def)
  ultimately show ?thesis using h' by blast
qed

theorem klist_refines_list_witness:
  "\<forall>h. \<exists>h'. klist_ordered_insert (klist_init h 0) (\<lambda>_. True) 0 4 = Some h' \<and> klist h' 0 [4]"
proof
  fix h
  show "\<exists>h'. klist_ordered_insert (klist_init h 0) (\<lambda>_. True) 0 4 = Some h' \<and> klist h' 0 [4]"
    using klist_refines_list [of "klist_init h 0" 0 "[]" 4 "\<lambda>_. True"] klist_init_ring [of h 0] by (auto simp: klist_def)
qed

section \<open>Timers and works\<close>




text \<open>C30. Starting a timer puts it behind the timers with no more time left and makes it active.\<close>

theorem timer_start_places:
  assumes "tm_obj_type (timers s (cb_timer c)) = RHINO_TIMER_OBJ_TYPE" "timer_state (timers s (cb_timer c)) = TIMER_DEACTIVE"
    and "tinv s" "ordered s" "cb_num c = TIMER_CMD_START"
  shows "g_timer_head (timer_cmd_proc s c) =
      takeWhile (\<lambda>u. time_left s u \<le> init_count (timers s (cb_timer c))) (g_timer_head s) @ cb_timer c #
      dropWhile (\<lambda>u. time_left s u \<le> init_count (timers s (cb_timer c))) (g_timer_head s) \<and>
    timer_state (timers (timer_cmd_proc s c) (cb_timer c)) = TIMER_ACTIVE \<and>
    time_left (timer_cmd_proc s c) (cb_timer c) = init_count (timers s (cb_timer c)) \<and>
    tinv (timer_cmd_proc s c) \<and> ordered (timer_cmd_proc s c)"
proof -
  have n: "cb_timer c \<notin> set (g_timer_head s)" using assms(1-3) by (auto simp: tinv_def timer_ok_def)
  have e: "timer_cmd_proc s c = cmd_proc s c TIMER_CMD_START" using assms(5) by (simp add: timer_cmd_proc_def timer_cmds)
  show ?thesis using start_inserts [OF assms(1,2) refl n] start_ordered [OF assms(3,4,1,2) refl]
    by (simp add: e insert_before_split not_less)
qed

theorem timer_start_places_witness:
  "g_timer_head (timer_cmd_proc (sample_timers (booted sample_image)) \<lparr>cb_timer = 7, cb_num = 1, cb_first = 0, cb_u = 0\<rparr>) = [8, 7]"
  using timer_start_places [of "sample_timers (booted sample_image)" "\<lparr>cb_timer = 7, cb_num = 1, cb_first = 0, cb_u = 0\<rparr>"] sample_timers_ok
  by (simp add: timer_cmds sample_timers_def sample_timer_def time_left_def)

text \<open>C31. A timer that is already late counts as one far in the future: a timer started then goes in front
  of it, and the next pass, which stops at the first timer that is not due, does not call it.\<close>

theorem late_timer_overtaken:
  assumes "tinv s" "g_timer_head s = u # us" "sint (time_left s u) < 0"
    and "tm_obj_type (timers s t) = RHINO_TIMER_OBJ_TYPE" "timer_state (timers s t) = TIMER_DEACTIVE" "cb_timer c = t"
  shows "g_timer_head (cmd_proc s c TIMER_CMD_START) = t # u # us \<and>
    timer_cb_proc call (cmd_proc s c TIMER_CMD_START) = cmd_proc s c TIMER_CMD_START \<and> u \<in> dues (cmd_proc s c TIMER_CMD_START)"
  by (rule start_overtakes_late [OF assms])

theorem late_timer_overtaken_witness:
  "g_timer_head (cmd_proc (late_timers (booted sample_image)) \<lparr>cb_timer = 7, cb_num = 1, cb_first = 0, cb_u = 0\<rparr> TIMER_CMD_START) = [7, 9]"
  using late_timer_overtaken [of "late_timers (booted sample_image)" 9 "[]" 7 "\<lparr>cb_timer = 7, cb_num = 1, cb_first = 0, cb_u = 0\<rparr>"] sample_timers_ok
  by (simp add: late_timers_def sample_timer_def time_left_def)

text \<open>C32. A work is on at most one list of works, exactly while its flag says so; running it appends it to the
  list of its queue, the worker takes the works of its list in order, clears their flags, and hands
  them on with their functions and arguments.\<close>

theorem works_in_order:
  assumes "works_inv s"
  shows "works_inv (snd (krhino_work_run junk s q w)) \<and> works_inv (snd (krhino_work_cancel junk s w)) \<and> works_inv (work_timer_cb t q s) \<and>
    (q \<noteq> 0 \<and> w \<noteq> 0 \<and> wk_dly (works s w) = 0 \<and> work_current (workqueues s q) \<noteq> w \<and> work_exit (works s w) \<noteq> 1 \<longrightarrow>
       work_list (workqueues (snd (krhino_work_run junk s q w)) q) = work_list (workqueues s q) @ [w]) \<and>
    (\<forall>x xs. work_list (workqueues s q) = x # xs \<longrightarrow>
       fst (worker_task_take s q RHINO_SUCCESS) = Some (wk_handle (works s x), wk_arg (works s x)) \<and>
       work_list (workqueues (snd (worker_task_take s q RHINO_SUCCESS)) q) = xs \<and>
       works_inv (snd (worker_task_take s q RHINO_SUCCESS)))"
  using krhino_work_run_inv [OF assms] krhino_work_cancel_inv [OF assms] work_timer_cb_inv [OF assms] worker_take_inv [OF assms]
    work_enqueue_inv(2) [OF assms, of w q]
  by (auto simp: krhino_work_run_def Let_def)

theorem works_in_order_witness:
  "\<forall>junk. works_inv (snd (krhino_work_run junk (booted sample_image) g_workqueue_default 5))"
  using works_in_order booted_fresh [OF sample_image_ok] by blast

section \<open>The heap\<close>

text \<open>C33. The heap implements the abstract heap, a map from pointers to buffers of words: whatever the
  client asks for with pointers it holds, an allocation returns NULL or a new buffer that is large enough, a release
  removes a buffer, a reallocation keeps the words that fit or leaves everything as it was, a store changes one
  word of one buffer, and nothing else changes.\<close>

theorem heap_implements_buffers:
  assumes "heap_shows h M" "allowed x M" "krhino_heap ra x h = (r, h')"
  shows "\<exists>M'. buffers_step x r M M' \<and> heap_shows h' M'"
  by (rule kheap.step [OF assms])

theorem heap_implements_buffers_witness:
  "\<exists>M. M 0x1028 \<noteq> None \<and> (\<exists>M'. buffers_step (Resize 0x1028 300) (fst (krhino_mm_realloc 7 busy_heap 0x1028 300)) M M' \<and>
     heap_shows (snd (krhino_mm_realloc 7 busy_heap 0x1028 300)) M')"
proof -
  obtain M ws where M: "heap_shows busy_heap M" "M 0x1028 = Some ws" using busy_heap_shows by blast
  have "krhino_heap 7 (Resize 0x1028 300) busy_heap =
      (fst (krhino_mm_realloc 7 busy_heap 0x1028 300), snd (krhino_mm_realloc 7 busy_heap 0x1028 300))" by (simp add: krhino_heap_def)
  from heap_implements_buffers [OF M(1) _ this] M(2) show ?thesis by auto
qed

text \<open>C34. Buffers do not interfere: through any sequence of operations by a client that only uses pointers it holds,
  a buffer that no operation names keeps every word.\<close>

theorem buffers_survive:
  assumes "heap_shows h M" "run_ops (krhino_heap ra) xs h = (rs, h')" "careful xs rs M"
    and "M q = Some ws" "k < length ws"
    and "\<forall>x \<in> set xs. x \<noteq> Free q \<and> (\<forall>n. x \<noteq> Resize q n) \<and> (\<forall>l v. x \<noteq> Write q l v)"
  shows "word_at h' (q + 4 * of_nat k) = word_at h (q + 4 * of_nat k)"
  by (rule buffers_kept [OF assms(1-4) _ assms(5)]) (use assms(6) in blast)

theorem buffers_survive_witness:
  "word_at (snd (run_ops (krhino_heap 7) [Alloc 20, Alloc 100] busy_heap)) 0x102C = word_at busy_heap 0x102C"
proof -
  obtain M ws where M: "heap_shows busy_heap M" "M 0x1028 = Some ws" "length ws = 50" using busy_heap_shows by blast
  obtain rs h' where r: "run_ops (krhino_heap 7) [Alloc 20, Alloc 100] busy_heap = (rs, h')" by fastforce
  have "careful [Alloc 20, Alloc 100] rs M" by (cases rs; cases "tl rs") simp_all
  from buffers_survive [OF M(1) r this M(2), of 1] M(3) show ?thesis unfolding r snd_conv by simp
qed

text \<open>C35. An allocation fails only when the largest free block, as \<open>krhino_mm_max_free_size_get\<close> reports it, is smaller than
  the request rounded up, and then no buffer is lost.\<close>

theorem alloc_fails_when_full:
  assumes "heap_shows h M" "asked n \<noteq> 0" "krhino_mm_alloc ra h n = (0, h')"
  shows "krhino_mm_max_free_size_get h < aligned_request (asked n) \<and> heap_shows h' M"
  using mm_alloc_shows [OF assms(1,3)] assms(2) by simp

theorem alloc_fails_when_full_witness:
  "krhino_mm_max_free_size_get sample_heap < 0x40000000 \<and> heap_shows (snd (krhino_mm_alloc 7 sample_heap 0x40000000)) Map.empty"
proof -
  have a: "asked 0x40000000 = 0x40000000" by (simp add: asked_def AOS_UNSIGNED_INT_MSB_def)
  have "size_to_level 0x40000000 = - 1" "aligned_request 0x40000000 = 0x40000000"
    by (simp_all add: size_to_level_def krhino_clz32_def Let_def aligned_request_def MM_ALIGN_UP_def mm_consts)
  then have "k_mm_alloc sample_heap False 0x40000000 = (0, sample_heap)"
    by (simp add: k_mm_alloc_def RHINO_CONFIG_MM_BLK_SIZE_def)
  then have "fst (krhino_mm_alloc 7 sample_heap 0x40000000) = 0"
    by (simp add: krhino_mm_alloc_def a [unfolded asked_def] Let_def)
  then have "krhino_mm_alloc 7 sample_heap 0x40000000 = (0, snd (krhino_mm_alloc 7 sample_heap 0x40000000))" by (simp add: prod_eq_iff)
  from alloc_fails_when_full [OF sample_heap_init(2) _ this] show ?thesis
    by (simp add: a \<open>aligned_request 0x40000000 = 0x40000000\<close>)
qed



section \<open>Objects and tasks on the heap\<close>









end
